(* ===== verification/Prelude.thy ===== *)
theory Prelude
  imports Main "HOL-Library.Word" "HOL-Library.Monad_Syntax"
begin

text \<open>
  Shared vocabulary of the development.

  A C++ \<open>std::string\<close>, \<open>std::string_view\<close> or \<open>std::span<const char>\<close> is a
  \<^typ>\<open>string\<close>, that is a list of bytes (type \<^typ>\<open>char\<close> has exactly the 256 byte
  values).  The fixed width integers \<open>std::uint8_t\<close>, \<open>std::uint32_t\<close> and
  \<open>std::uint64_t\<close> are words of that width, so that their arithmetic wraps as it does in
  the code.  A \<open>std::size_t\<close> that counts bytes held in memory is a \<^typ>\<open>nat\<close>.

  A fallible lower layer operation returns \<open>psx::Result<T>\<close> (\<open>include/psx/result.hpp\<close>):
  here \<open>'a result\<close>, a sum whose left side is the error.  Operations that index
  memory return an \<open>option\<close>: \<^const>\<open>None\<close> stands for undefined behaviour (an
  out-of-bounds copy, a remainder by zero) or for a loop that does not end, and the component
  theorems show that it never arises.
\<close>

unbundle bit_operations_syntax

type_synonym u8 = "8 word"
type_synonym u32 = "32 word"
type_synonym u64 = "64 word"

subsection \<open>Results\<close>

datatype ErrorClass =
    Interrupted | WouldBlock | BrokenPipe | ClosedHandle | NotFound | PermissionDenied
  | TooManyHandles | InvalidArgument | NoSuchProcess | Timeout | Unsupported | Other

record error =
  cls :: ErrorClass
  err_code :: int
  err_op :: string

type_synonym 'a result = "error + 'a"

definition protocolError :: "string \<Rightarrow> error" where
  "protocolError what = \<lparr>cls = Other, err_code = 0, err_op = what\<rparr>"

definition invalid :: "string \<Rightarrow> error" where
  "invalid what = \<lparr>cls = InvalidArgument, err_code = 0, err_op = what\<rparr>"

abbreviation is_ok :: "'a result \<Rightarrow> bool" where
  "is_ok r \<equiv> \<not> isl r"

subsection \<open>Answers of the operating system\<close>

text \<open>
  What \<open>psx::os::read\<close> and \<open>psx::os::write\<close> answer on a non-blocking descriptor (zero bytes read are the end of the
  file), and \<open>psx::os::ExitStatus\<close>: an exit code, or the signal or platform status of a child that did not exit.
\<close>

datatype read_answer = Got string | ReadBlocks | ReadFails
datatype write_answer = Wrote nat | WriteBlocks | WriteFails

record wait_status =
  ws_exited :: bool
  ws_code :: int

subsection \<open>Memory copies and remainders that can go wrong\<close>

text \<open>
  \<open>std::memcpy(dst + off, src, n)\<close>: defined when the target range lies inside the
  allocation.  \<open>a % b\<close>: defined when the divisor is not zero.
\<close>

definition memcpy_to :: "string \<Rightarrow> nat \<Rightarrow> string \<Rightarrow> string option" where
  "memcpy_to dst off src =
     (if off + length src \<le> length dst
      then Some (take off dst @ src @ drop (off + length src) dst) else None)"

definition memcpy_from :: "string \<Rightarrow> nat \<Rightarrow> nat \<Rightarrow> string option" where
  "memcpy_from src off n =
     (if off + n \<le> length src then Some (take n (drop off src)) else None)"

definition checked_mod :: "nat \<Rightarrow> nat \<Rightarrow> nat option" where
  "checked_mod a b = (if b = 0 then None else Some (a mod b))"

subsection \<open>Generic lemmas\<close>

named_theorems psx_simps \<open>component facts used as rewrite rules\<close>

lemma memcpy_to_Some [simp]:
  "off + length src \<le> length dst \<Longrightarrow>
   memcpy_to dst off src = Some (take off dst @ src @ drop (off + length src) dst)"
  by (simp add: memcpy_to_def)

lemma memcpy_from_Some [simp]:
  "off + n \<le> length src \<Longrightarrow> memcpy_from src off n = Some (take n (drop off src))"
  by (simp add: memcpy_from_def)

lemma checked_mod_Some [simp]: "0 < b \<Longrightarrow> checked_mod a b = Some (a mod b)"
  by (simp add: checked_mod_def)

text \<open>Reading one position after a block has been written.\<close>

lemma nth_overwrite:
  assumes "off + length src \<le> length dst" and "i < length dst"
  shows "(take off dst @ src @ drop (off + length src) dst) ! i =
    (if off \<le> i \<and> i < off + length src then src ! (i - off) else dst ! i)"
  using assms by (auto simp: nth_append min_def)

text \<open>A loop that fills an output of size \<open>n\<close> and made progress has less left to do.\<close>

lemma remaining_less: "got \<noteq> [] \<Longrightarrow> length out < n \<Longrightarrow> n - length (out @ got) < n - length out"
  by (cases got) auto

text \<open>An update out of range changes nothing.\<close>

lemma nth_update_out: "length xs \<le> j \<Longrightarrow> xs[i := x] ! j = xs ! j"
  by (cases "i = j") (auto simp: list_update_beyond)

text \<open>A sum of which one summand changes.\<close>

lemma sum_one_changed:
  fixes f g :: "nat \<Rightarrow> nat"
  assumes "e < n" "\<And>x. x \<noteq> e \<Longrightarrow> g x = f x"
  shows "(\<Sum>x<n. g x) + f e = (\<Sum>x<n. f x) + g e"
proof -
  have e: "e \<in> {..<n}" using assms(1) by simp
  have "(\<Sum>x\<in>{..<n} - {e}. g x) = (\<Sum>x\<in>{..<n} - {e}. f x)" using assms(2) by (intro sum.cong) auto
  then show ?thesis unfolding sum.remove [OF finite_lessThan e, of g] sum.remove [OF finite_lessThan e, of f] by simp
qed

subsection \<open>Word arithmetic that does not wrap\<close>

lemma u32_bound: "unat (w :: u32) < 2 ^ 32"
  using unsigned_less [of w] by simp

lemma unat_plus_small: "unat a + unat b < 2 ^ 32 \<Longrightarrow> unat (a + b :: u32) = unat a + unat b"
  by (simp add: unat_word_ariths)

lemma unat_minus_small: "(b :: u32) \<le> a \<Longrightarrow> unat (a - b) = unat a - unat b"
  by (simp add: unat_sub_if' word_le_nat_alt)

end
