(* ===== verification/Frame_Codec.thy ===== *)
theory Frame_Codec
  imports Prelude
begin

text \<open>
  The psx/1 frame envelope: \<open>include/psx/transport/wire.hpp\<close>, \<open>frame.hpp\<close>,
  \<open>frame_codec.hpp\<close> and \<open>src/transport/frame_codec.cpp\<close>.  Encoding and decoding are
  inverse to each other in both directions, the decoder does not depend on how the byte stream was
  cut into chunks, and it never buffers more than one frame.
\<close>

subsection \<open>Big-endian words\<close>

text \<open>\<open>static_cast<char>((value >> k) & 0xFF)\<close>.\<close>

definition byte_at :: "u32 \<Rightarrow> nat \<Rightarrow> char" where
  "byte_at v k = char_of (unat (drop_bit k v AND 0xFF))"

definition writeU32BE :: "u32 \<Rightarrow> string" where
  "writeU32BE v = [byte_at v 24, byte_at v 16, byte_at v 8, byte_at v 0]"

text \<open>\<open>readU32BE(p)\<close>: the caller guarantees four readable bytes.\<close>

definition readU32BE :: "string \<Rightarrow> u32" where
  "readU32BE p =
     push_bit 24 (of_char (p ! 0)) OR push_bit 16 (of_char (p ! 1)) OR
     push_bit 8 (of_char (p ! 2)) OR of_char (p ! 3)"

subsection \<open>Frames\<close>

text \<open>The type is the underlying byte of \<open>enum class FrameType\<close>: the decoder casts any byte to it.\<close>

record frame =
  ftype :: u8
  flags :: u8
  streamId :: u32
  payload :: string

definition FT_Open :: u8 where "FT_Open = 1"
definition FT_Data :: u8 where "FT_Data = 2"
definition FT_WindowUpdate :: u8 where "FT_WindowUpdate = 3"
definition FT_Exit :: u8 where "FT_Exit = 4"
definition FT_Ping :: u8 where "FT_Ping = 5"
definition FT_Pong :: u8 where "FT_Pong = 6"
definition FT_GoAway :: u8 where "FT_GoAway = 7"

lemmas frame_types = FT_Open_def FT_Data_def FT_WindowUpdate_def FT_Exit_def FT_Ping_def
  FT_Pong_def FT_GoAway_def

definition kFlagEndStream :: u8 where "kFlagEndStream = 1"
definition kFlagStderr :: u8 where "kFlagStderr = 2"

definition kFrameHeaderSize :: nat where "kFrameHeaderSize = 10"
definition kDefaultMaxFramePayload :: u32 where "kDefaultMaxFramePayload = 16 * 1024 * 1024"

definition char_of_u8 :: "u8 \<Rightarrow> char" where
  "char_of_u8 b = char_of (unat b)"

definition u8_of_char :: "char \<Rightarrow> u8" where
  "u8_of_char c = of_char c"

definition encodeFrame :: "frame \<Rightarrow> string" where
  "encodeFrame f =
     [char_of_u8 (ftype f), char_of_u8 (flags f)] @ writeU32BE (streamId f) @
     writeU32BE (of_nat (length (payload f))) @ payload f"

text \<open>
  \<open>encodeFrameInto\<close> appends to the output; the length field is the payload size cut to 32 bits.
\<close>

definition encodeFrameInto :: "string \<Rightarrow> frame \<Rightarrow> string" where
  "encodeFrameInto out f = out @ encodeFrame f"

subsection \<open>Streaming decoder\<close>

record frame_decoder =
  fd_buffer :: string
  maxPayload :: u32
  fd_failed :: bool

definition FrameDecoder :: "u32 \<Rightarrow> frame_decoder" where
  "FrameDecoder m = \<lparr>fd_buffer = [], maxPayload = m, fd_failed = False\<rparr>"

text \<open>
  The loop of \<open>push\<close> over the buffered bytes from \<open>pos\<close> on: the frames handed to the sink, the
  bytes left, and whether a length beyond the maximum was met.
\<close>

function decode_loop :: "u32 \<Rightarrow> string \<Rightarrow> frame list \<times> string \<times> bool" where
  "decode_loop m buf =
     (if length buf \<ge> kFrameHeaderSize then
        let len = readU32BE (drop 6 buf) in
        if len > m then ([], buf, True)
        else if length buf < kFrameHeaderSize + unat len then ([], buf, False)
        else
          let f = \<lparr>ftype = u8_of_char (buf ! 0), flags = u8_of_char (buf ! 1),
                   streamId = readU32BE (drop 2 buf),
                   payload = take (unat len) (drop kFrameHeaderSize buf)\<rparr>;
              (fs, rest, bad) = decode_loop m (drop (kFrameHeaderSize + unat len) buf)
          in (f # fs, rest, bad)
      else ([], buf, False))"
  by pat_completeness auto
termination
  by (relation "measure (length o snd)") (auto simp: kFrameHeaderSize_def)

declare decode_loop.simps [simp del]

definition fd_push :: "frame_decoder \<Rightarrow> string \<Rightarrow> frame_decoder \<times> frame list \<times> unit result" where
  "fd_push d data =
     (if fd_failed d then
        (d, [], Inl (protocolError ''frame decoder poisoned by an earlier protocol error''))
      else let buf = fd_buffer d @ data; (fs, rest, bad) = decode_loop (maxPayload d) buf in
        if bad then
          (d\<lparr>fd_buffer := buf, fd_failed := True\<rparr>, fs,
           Inl (protocolError ''frame payload length exceeds the maximum''))
        else (d\<lparr>fd_buffer := rest\<rparr>, fs, Inr ()))"

definition hasPartialFrame :: "frame_decoder \<Rightarrow> bool" where
  "hasPartialFrame d \<longleftrightarrow> fd_buffer d \<noteq> []"

text \<open>Feeding chunks one after the other; the flag says whether a push reported an error.\<close>

fun fd_push_chunks :: "frame_decoder \<Rightarrow> string list \<Rightarrow> frame_decoder \<times> frame list \<times> bool" where
  "fd_push_chunks d [] = (d, [], False)"
| "fd_push_chunks d (c # cs) =
     (let (d1, fs, r) = fd_push d c; (d2, fs', bad) = fd_push_chunks d1 cs
      in (d2, fs @ fs', isl r \<or> bad))"

subsection \<open>Byte and word conversions\<close>

lemma of_char_bound: "(of_char c :: nat) < 256"
  using of_char_mod_256 [of c, where ?'a = nat] by (metis mod_less_divisor zero_less_numeral)

lemma unat_of_char: "unat (of_char c :: u32) = of_char c" "unat (of_char c :: u8) = of_char c"
proof -
  have "(of_char c :: nat) < 2 ^ 32" "(of_char c :: nat) < 2 ^ 8"
    by (rule less_trans [OF of_char_bound], simp) (use of_char_bound [of c] in simp)
  then show "unat (of_char c :: u32) = of_char c" "unat (of_char c :: u8) = of_char c"
    by (simp_all flip: of_nat_of_char [where ?'a = u32] of_nat_of_char [where ?'a = u8] add: unat_of_nat)
qed

lemma take_bit_of_char: "take_bit 8 (of_char c :: u32) = of_char c"
proof -
  have "take_bit 8 (of_nat (of_char c) :: u32) = of_nat (take_bit 8 (of_char c))"
    by (simp add: take_bit_of_nat)
  also have "\<dots> = of_nat (of_char c)"
    by (simp add: take_bit_eq_mod)
  finally show ?thesis by (simp add: of_nat_of_char)
qed

lemma and_FF: "w AND 0xFF = take_bit 8 w" for w :: u32
  by (simp add: take_bit_eq_mask mask_eq_exp_minus_1)

lemma of_char_byte_at: "of_char (byte_at v k) = take_bit 8 (drop_bit k v)"
proof -
  have "unat (drop_bit k v AND 0xFF) < 256"
    using word_and_le1 [of "drop_bit k v" "0xFF"] by (simp add: word_le_nat_alt)
  then have "of_nat (of_char (byte_at v k) :: nat) = drop_bit k v AND (0xFF :: u32)"
    by (simp add: byte_at_def)
  then show ?thesis by (simp add: of_nat_of_char and_FF)
qed

lemma readU32BE_write [simp]: "readU32BE (writeU32BE v @ rest) = v"
proof (rule bit_word_eqI)
  fix n assume "n < LENGTH(32)"
  then show "bit (readU32BE (writeU32BE v @ rest)) n = bit v n"
    by (cases "24 \<le> n"; cases "16 \<le> n"; cases "8 \<le> n")
      (auto simp: readU32BE_def writeU32BE_def of_char_byte_at bit_simps)
qed

lemma byte_at_eqI: "take_bit 8 (drop_bit k v) = of_char c \<Longrightarrow> byte_at v k = c"
  using unat_of_char(1) [of c] by (simp add: byte_at_def and_FF)

lemma writeU32BE_read:
  assumes "4 \<le> length p"
  shows "writeU32BE (readU32BE p) = take 4 p"
proof -
  have low: "bit (of_char c :: u32) n \<Longrightarrow> n < 8" for c n
    by (metis bit_take_bit_iff take_bit_of_char)
  have "byte_at (readU32BE p) 24 = p ! 0" "byte_at (readU32BE p) 16 = p ! 1"
    "byte_at (readU32BE p) 8 = p ! 2" "byte_at (readU32BE p) 0 = p ! 3"
    by (rule byte_at_eqI, rule bit_word_eqI, auto simp: readU32BE_def bit_simps dest: low)+
  moreover have "take 4 p = [p ! 0, p ! 1, p ! 2, p ! 3]"
    using assms by (intro nth_equalityI) (auto simp: less_Suc_eq numeral_eq_Suc)
  ultimately show ?thesis by (simp add: writeU32BE_def)
qed

lemma length_writeU32BE [simp]: "length (writeU32BE v) = 4"
  by (simp add: writeU32BE_def)

lemma u8_char_inverse [simp]: "u8_of_char (char_of_u8 b) = b" "char_of_u8 (u8_of_char c) = c"
proof -
  have "unat b < 256" using unsigned_less [of b] by simp
  moreover have "u8_of_char (char_of_u8 b) = of_nat (of_char (char_of (unat b)))"
    by (simp only: u8_of_char_def char_of_u8_def of_nat_of_char)
  ultimately show "u8_of_char (char_of_u8 b) = b" by simp
  show "char_of_u8 (u8_of_char c) = c"
    by (simp add: u8_of_char_def char_of_u8_def unat_of_char)
qed

subsection \<open>One frame\<close>

definition fits :: "u32 \<Rightarrow> frame \<Rightarrow> bool" where
  "fits m f \<longleftrightarrow> length (payload f) \<le> unat m"

lemma length_encodeFrame: "length (encodeFrame f) = kFrameHeaderSize + length (payload f)"
  by (simp add: encodeFrame_def kFrameHeaderSize_def)

lemma header_reads:
  "encodeFrame f ! 0 = char_of_u8 (ftype f)" "encodeFrame f ! 1 = char_of_u8 (flags f)"
  "drop 2 (encodeFrame f) = writeU32BE (streamId f) @ writeU32BE (of_nat (length (payload f))) @ payload f"
  "drop 6 (encodeFrame f) = writeU32BE (of_nat (length (payload f))) @ payload f"
  "drop 10 (encodeFrame f) = payload f"
  by (simp_all add: encodeFrame_def)

lemma decode_loop_frame:
  assumes "fits m f"
  shows "decode_loop m (encodeFrame f @ extra) =
    (let (fs, rest, bad) = decode_loop m extra in (f # fs, rest, bad))"
proof -
  have len: "unat (of_nat (length (payload f)) :: u32) = length (payload f)"
    using assms u32_bound [of m] by (simp add: fits_def unat_of_nat)
  then have "\<not> (of_nat (length (payload f)) :: u32) > m"
    using assms by (simp add: fits_def word_less_nat_alt)
  moreover have "(encodeFrame f @ extra) ! 0 = char_of_u8 (ftype f)"
    "(encodeFrame f @ extra) ! 1 = char_of_u8 (flags f)"
    using header_reads(1,2) [of f] by (simp_all add: encodeFrame_def)
  moreover have "readU32BE (drop 6 (encodeFrame f @ extra)) = of_nat (length (payload f))"
    "readU32BE (drop 2 (encodeFrame f @ extra)) = streamId f"
    using header_reads(3,4) [of f] by (simp_all add: length_encodeFrame kFrameHeaderSize_def)
  moreover have "take (length (payload f)) (drop kFrameHeaderSize (encodeFrame f @ extra)) = payload f"
    using header_reads(5) [of f] by (simp add: length_encodeFrame kFrameHeaderSize_def)
  ultimately show ?thesis
    using len by (simp add: decode_loop.simps [of m "encodeFrame f @ extra"] length_encodeFrame Let_def
        split: prod.split)
qed

lemma decode_loop_frames:
  assumes "\<forall>f \<in> set fs. fits m f"
  shows "decode_loop m (concat (map encodeFrame fs) @ extra) =
    (let (fs', rest, bad) = decode_loop m extra in (fs @ fs', rest, bad))"
  using assms by (induction fs) (auto simp: decode_loop_frame Let_def split: prod.splits)

text \<open>Conversely, a decoded frame is the encoding of the bytes it was read from.\<close>

lemma encodeFrame_decoded:
  assumes "kFrameHeaderSize + unat len \<le> length buf" "len = readU32BE (drop 6 buf)"
  shows "encodeFrame \<lparr>ftype = u8_of_char (buf ! 0), flags = u8_of_char (buf ! 1),
      streamId = readU32BE (drop 2 buf), payload = take (unat len) (drop kFrameHeaderSize buf)\<rparr> =
    take (kFrameHeaderSize + unat len) buf"
proof -
  have l: "10 \<le> length buf" using assms(1) by (simp add: kFrameHeaderSize_def)
  have "take 10 buf = take 2 buf @ take 4 (drop 2 buf) @ take 4 (drop 6 buf)"
    using take_add [of 2 8 buf] take_add [of 4 4 "drop 2 buf"] by simp
  moreover have "take 2 buf = [buf ! 0, buf ! 1]"
    using l by (intro nth_equalityI) (auto simp: less_Suc_eq numeral_eq_Suc)
  ultimately have "take 10 buf = [buf ! 0, buf ! 1] @ writeU32BE (readU32BE (drop 2 buf)) @ writeU32BE len"
    using l assms(2) by (simp add: writeU32BE_read)
  then show ?thesis
    using assms(1) take_add [of 10 "unat len" buf]
    by (simp add: encodeFrame_def kFrameHeaderSize_def)
qed

lemma decode_loop_sound:
  assumes "decode_loop m buf = (fs, rest, bad)"
  shows "concat (map encodeFrame fs) @ rest = buf \<and> (\<forall>f \<in> set fs. fits m f)"
  using assms
proof (induction m buf arbitrary: fs rest bad rule: decode_loop.induct)
  case (1 m buf)
  define len where "len = readU32BE (drop 6 buf)"
  define f where "f = \<lparr>ftype = u8_of_char (buf ! 0), flags = u8_of_char (buf ! 1),
      streamId = readU32BE (drop 2 buf), payload = take (unat len) (drop kFrameHeaderSize buf)\<rparr>"
  show ?case
  proof (cases "kFrameHeaderSize \<le> length buf \<and> \<not> len > m \<and> \<not> length buf < kFrameHeaderSize + unat len")
    case True
    obtain fs' where fs: "fs = f # fs'"
      "decode_loop m (drop (kFrameHeaderSize + unat len) buf) = (fs', rest, bad)"
      using "1.prems" True
      by (auto simp: decode_loop.simps [of m buf] len_def [symmetric] f_def Let_def split: prod.splits)
    have "encodeFrame f = take (kFrameHeaderSize + unat len) buf"
      using True encodeFrame_decoded [OF _ len_def] by (simp add: f_def)
    moreover have "fits m f" using True by (auto simp: fits_def f_def word_less_nat_alt)
    ultimately show ?thesis
      using "1.IH" [OF _ len_def _ _ f_def fs(2)] True fs(1) by simp
  next
    case False
    then show ?thesis
      using "1.prems" by (auto simp: decode_loop.simps [of m buf] len_def Let_def split: if_splits)
  qed
qed

subsection \<open>Chunks\<close>

lemma readU32BE_append: "4 \<le> length p \<Longrightarrow> readU32BE (p @ q) = readU32BE p"
proof -
  assume "4 \<le> length p"
  then have "(p @ q) ! i = p ! i" if "i < 4" for i
    using that by (simp add: nth_append)
  then show ?thesis by (simp add: readU32BE_def)
qed

text \<open>
  Bytes that arrive later do not change what was decoded: decoding goes on from the bytes left,
  and a length beyond the maximum stays one.
\<close>

lemma decode_loop_append:
  assumes "decode_loop m a = (fs, rest, bad)"
  shows "decode_loop m (a @ b) =
    (if bad then (fs, rest @ b, True)
     else let (fs', rest', bad') = decode_loop m (rest @ b) in (fs @ fs', rest', bad'))"
  using assms
proof (induction m a arbitrary: fs rest bad rule: decode_loop.induct)
  case (1 m buf)
  define len where "len = readU32BE (drop 6 buf)"
  define f where "f = \<lparr>ftype = u8_of_char (buf ! 0), flags = u8_of_char (buf ! 1),
      streamId = readU32BE (drop 2 buf), payload = take (unat len) (drop kFrameHeaderSize buf)\<rparr>"
  have eq: "decode_loop m buf = (if len > m then ([], buf, True)
        else if length buf < kFrameHeaderSize + unat len then ([], buf, False)
        else let (fs, rest, bad) = decode_loop m (drop (kFrameHeaderSize + unat len) buf)
             in (f # fs, rest, bad))" if "kFrameHeaderSize \<le> length buf"
    using that by (simp add: decode_loop.simps [of m buf] len_def f_def Let_def)
  consider (short) "length buf < kFrameHeaderSize"
    | (huge) "kFrameHeaderSize \<le> length buf" "len > m"
    | (partial) "kFrameHeaderSize \<le> length buf" "\<not> len > m" "length buf < kFrameHeaderSize + unat len"
    | (whole) "kFrameHeaderSize \<le> length buf" "\<not> len > m" "\<not> length buf < kFrameHeaderSize + unat len"
    by linarith
  then show ?case
  proof cases
    case short
    with "1.prems" show ?thesis by (auto simp: decode_loop.simps [of m buf])
  next
    case huge
    then have "readU32BE (drop 6 (buf @ b)) = len"
      by (simp add: len_def readU32BE_append kFrameHeaderSize_def)
    with huge eq "1.prems" show ?thesis
      by (auto simp: decode_loop.simps [of m "buf @ b"] Let_def)
  next
    case partial
    with eq "1.prems" show ?thesis by auto
  next
    case whole
    obtain fs' where fs: "fs = f # fs'"
      "decode_loop m (drop (kFrameHeaderSize + unat len) buf) = (fs', rest, bad)"
      using "1.prems" whole eq by (auto simp: Let_def split: prod.splits)
    have fb: "encodeFrame f = take (kFrameHeaderSize + unat len) buf" "fits m f"
      using whole encodeFrame_decoded [OF _ len_def] by (auto simp: f_def fits_def word_less_nat_alt)
    have "buf @ b = encodeFrame f @ (drop (kFrameHeaderSize + unat len) buf @ b)"
      using fb(1) by simp
    then have "decode_loop m (buf @ b) = (let (fs, rest, bad) =
        decode_loop m (drop (kFrameHeaderSize + unat len) buf @ b) in (f # fs, rest, bad))"
      using decode_loop_frame [OF fb(2)] by (simp only:)
    also have "decode_loop m (drop (kFrameHeaderSize + unat len) buf @ b) =
      (if bad then (fs', rest @ b, True)
       else let (fs'', rest', bad') = decode_loop m (rest @ b) in (fs' @ fs'', rest', bad'))"
      using "1.IH" [OF _ len_def _ _ f_def fs(2)] whole by blast
    finally show ?thesis using fs(1) by (auto simp: Let_def split: prod.splits)
  qed
qed

text \<open>The bytes left after a push are less than one frame.\<close>

lemma decode_loop_rest:
  assumes "decode_loop m buf = (fs, rest, False)"
  shows "length rest < kFrameHeaderSize + unat m \<or> length rest < kFrameHeaderSize"
  using assms
proof (induction m buf arbitrary: fs rule: decode_loop.induct)
  case (1 m buf)
  then show ?case
    by (auto simp: decode_loop.simps [of m buf] Let_def word_less_nat_alt split: if_splits prod.splits)
qed

lemma decode_loop_idem:
  assumes "decode_loop m buf = (fs, rest, False)"
  shows "decode_loop m rest = ([], rest, False)"
proof -
  have "decode_loop m (buf @ []) = (fs, rest, False)" using assms by simp
  then show ?thesis
    using decode_loop_append [OF assms, of "[]"] by (auto simp: Let_def split: prod.splits)
qed

text \<open>A decoder that holds only a partial frame, as it does after every successful push.\<close>

definition decoder_inv :: "frame_decoder \<Rightarrow> bool" where
  "decoder_inv d \<longleftrightarrow> \<not> fd_failed d \<and> decode_loop (maxPayload d) (fd_buffer d) = ([], fd_buffer d, False)"

lemma decoder_inv_new [simp]: "decoder_inv (FrameDecoder m)"
  by (simp add: decoder_inv_def FrameDecoder_def decode_loop.simps kFrameHeaderSize_def)

lemma fd_push_cases:
  assumes "decoder_inv d" "decode_loop (maxPayload d) (fd_buffer d @ data) = (fs, rest, bad)"
  shows "if bad
    then \<exists>d' e. fd_push d data = (d', fs, Inl e) \<and> fd_failed d'
    else fd_push d data = (d\<lparr>fd_buffer := rest\<rparr>, fs, Inr ()) \<and> decoder_inv (d\<lparr>fd_buffer := rest\<rparr>)"
  using assms decode_loop_idem [of "maxPayload d" "fd_buffer d @ data" fs rest]
  by (auto simp: decoder_inv_def fd_push_def)

text \<open>A poisoned decoder delivers no frame any more.\<close>

lemma fd_push_chunks_failed: "fd_failed d \<Longrightarrow> fd_push_chunks d cs = (d, [], cs \<noteq> [])"
  by (induction cs) (auto simp: fd_push_def)

lemma fd_push_chunks_eq:
  assumes "decoder_inv d"
  shows "\<exists>d'. fd_push_chunks d cs =
      (let (fs, rest, bad) = decode_loop (maxPayload d) (fd_buffer d @ concat cs) in (d', fs, bad)) \<and>
    (let (fs, rest, bad) = decode_loop (maxPayload d) (fd_buffer d @ concat cs)
     in if bad then fd_failed d' else d' = d\<lparr>fd_buffer := rest\<rparr> \<and> decoder_inv d')"
  using assms
proof (induction cs arbitrary: d)
  case Nil
  then show ?case by (auto simp: decoder_inv_def)
next
  case (Cons c cs)
  obtain fs rest bad where l: "decode_loop (maxPayload d) (fd_buffer d @ c) = (fs, rest, bad)"
    by (metis prod_cases3)
  note all = decode_loop_append [OF l, of "concat cs"]
  show ?case
  proof (cases bad)
    case True
    with fd_push_cases [OF Cons.prems l] obtain d' e
      where "fd_push d c = (d', fs, Inl e)" "fd_failed d'" by auto
    with True all show ?thesis by (auto simp: fd_push_chunks_failed)
  next
    case False
    with fd_push_cases [OF Cons.prems l] have p: "fd_push d c = (d\<lparr>fd_buffer := rest\<rparr>, fs, Inr ())"
      "decoder_inv (d\<lparr>fd_buffer := rest\<rparr>)" by auto
    obtain fs' rest' bad' where l': "decode_loop (maxPayload d) (rest @ concat cs) = (fs', rest', bad')"
      by (metis prod_cases3)
    obtain d' where d': "fd_push_chunks (d\<lparr>fd_buffer := rest\<rparr>) cs = (d', fs', bad')"
      "if bad' then fd_failed d' else d' = d\<lparr>fd_buffer := rest'\<rparr> \<and> decoder_inv d'"
      using Cons.IH [OF p(2)] l' by (cases bad') auto
    from all l' False have "decode_loop (maxPayload d) (fd_buffer d @ concat (c # cs)) = (fs @ fs', rest', bad')"
      by simp
    with d' p(1) show ?thesis by simp
  qed
qed

subsection \<open>Properties\<close>

text \<open>
  C4: frames survive the wire: however the encoded byte stream of some frames is cut into chunks, the
  decoder returns exactly these frames, in order, without error, and ends as it began.
\<close>

theorem frame_roundtrip:
  assumes "\<forall>f \<in> set fs. fits m f" "concat cs = concat (map encodeFrame fs)"
  shows "fd_push_chunks (FrameDecoder m) cs = (FrameDecoder m, fs, False)"
proof -
  have "decode_loop m [] = ([], [], False)" by (simp add: decode_loop.simps kFrameHeaderSize_def)
  then have "decode_loop m (concat cs) = (fs, [], False)"
    using decode_loop_frames [OF assms(1), of "[]"] assms(2) by simp
  then show ?thesis
    using fd_push_chunks_eq [OF decoder_inv_new [of m], of cs] by (auto simp: FrameDecoder_def)
qed

theorem frame_roundtrip_witness:
  "fd_push_chunks (FrameDecoder 16)
     [take 3 (encodeFrame \<lparr>ftype = 2, flags = 0, streamId = 7, payload = ''hi''\<rparr>),
      drop 3 (encodeFrame \<lparr>ftype = 2, flags = 0, streamId = 7, payload = ''hi''\<rparr>)] =
   (FrameDecoder 16, [\<lparr>ftype = 2, flags = 0, streamId = 7, payload = ''hi''\<rparr>], False)"
  by (rule frame_roundtrip) (simp_all add: fits_def)

text \<open>
  C31: the decoder is sound on arbitrary bytes: the frames it delivers are exactly the encodings the
  received bytes start with, every payload respects the maximum, and without an error what it keeps
  is the undecoded rest, less than one frame of the maximum size.
\<close>

theorem decoder_sound:
  assumes "fd_push_chunks (FrameDecoder m) cs = (d, fs, bad)"
  shows "(\<exists>rest. concat cs = concat (map encodeFrame fs) @ rest) \<and> (\<forall>f \<in> set fs. fits m f) \<and>
    (\<not> bad \<longrightarrow> concat cs = concat (map encodeFrame fs) @ fd_buffer d \<and>
       length (fd_buffer d) < kFrameHeaderSize + unat m)"
proof -
  obtain fs' rest bad' where l: "decode_loop m (concat cs) = (fs', rest, bad')" by (metis prod_cases3)
  have m: "maxPayload (FrameDecoder m) = m" "fd_buffer (FrameDecoder m) = []" by (simp_all add: FrameDecoder_def)
  have d: "fs' = fs" "bad' = bad" "\<not> bad \<longrightarrow> d = (FrameDecoder m)\<lparr>fd_buffer := rest\<rparr>"
    using fd_push_chunks_eq [OF decoder_inv_new [of m], of cs] l assms by (cases bad'; simp add: m)+
  show ?thesis
  proof (cases bad)
    case True
    with decode_loop_sound [OF l] d(1) show ?thesis by (auto intro: exI [of _ rest])
  next
    case False
    have "length rest < kFrameHeaderSize + unat m"
      using decode_loop_rest [of m "concat cs" fs' rest] l d(2) False by auto
    with decode_loop_sound [OF l] d False show ?thesis by (auto simp: FrameDecoder_def intro: exI [of _ rest])
  qed
qed

theorem decoder_sound_witness:
  "\<exists>rest. ''garbage bytes that are no frame'' =
     concat (map encodeFrame (fst (snd (fd_push_chunks (FrameDecoder 16) [''garbage bytes that are no frame''])))) @ rest"
proof -
  obtain d fs bad where "fd_push_chunks (FrameDecoder 16) [''garbage bytes that are no frame''] = (d, fs, bad)"
    by (metis prod_cases3)
  with decoder_sound [OF this] show ?thesis by simp
qed

end
