(* ===== verification/Open_Request.thy ===== *)
theory Open_Request
  imports Frame_Codec
begin

text \<open>
  The payloads of control frames: \<open>src/transport/control_payloads.cpp\<close> (EXIT and
  WINDOW_UPDATE) and \<open>src/transport/open_request.cpp\<close> (OPEN).  Every decoder accepts exactly the
  encodings of valid values: what it accepts is the encoding of what it returns, and every valid
  value survives the round trip.
\<close>

subsection \<open>EXIT and WINDOW_UPDATE\<close>

text \<open>\<open>psx::os::ExitStatus\<close>; \<open>code\<close> is an \<open>int\<close>, that is 32 bits.\<close>

datatype exit_kind = Exited | Signaled | Terminated

record exit_status =
  ex_kind :: exit_kind
  ex_code :: "32 word"

fun kind_byte :: "exit_kind \<Rightarrow> u8" where
  "kind_byte Exited = 0"
| "kind_byte Signaled = 1"
| "kind_byte Terminated = 2"

fun kind_of_byte :: "u8 \<Rightarrow> exit_kind" where
  "kind_of_byte b = (if b = 0 then Exited else if b = 1 then Signaled else Terminated)"

definition ex_success :: "exit_status \<Rightarrow> bool" where
  "ex_success st \<longleftrightarrow> ex_kind st = Exited \<and> ex_code st = 0"

definition encodeExit :: "exit_status \<Rightarrow> string" where
  "encodeExit st = char_of_u8 (kind_byte (ex_kind st)) # writeU32BE (ex_code st)"

definition decodeExit :: "string \<Rightarrow> exit_status result" where
  "decodeExit p =
     (if length p \<noteq> 5 then Inl (protocolError ''EXIT payload: expected 5 bytes'')
      else let kind = u8_of_char (p ! 0) in
        if kind > kind_byte Terminated then Inl (protocolError ''EXIT payload: unknown status kind'')
        else Inr \<lparr>ex_kind = kind_of_byte kind, ex_code = readU32BE (drop 1 p)\<rparr>)"

definition encodeWindowUpdate :: "u32 \<Rightarrow> string" where
  "encodeWindowUpdate delta = writeU32BE delta"

definition decodeWindowUpdate :: "string \<Rightarrow> u32 result" where
  "decodeWindowUpdate p =
     (if length p \<noteq> 4 then Inl (protocolError ''WINDOW_UPDATE payload: expected 4 bytes'')
      else let delta = readU32BE p in
        if delta = 0 then Inl (protocolError ''WINDOW_UPDATE payload: zero delta'')
        else Inr delta)"

subsection \<open>OPEN\<close>

definition kMaxOpenArgc :: u32 where "kMaxOpenArgc = 1024"
definition kMaxOpenArgumentBytes :: u32 where "kMaxOpenArgumentBytes = 128 * 1024"
definition kMaxOpenCwdBytes :: u32 where "kMaxOpenCwdBytes = 32 * 1024"
definition kOpenVersion :: u8 where "kOpenVersion = 1"

lemmas open_limits = kMaxOpenArgc_def kMaxOpenArgumentBytes_def kMaxOpenCwdBytes_def

record open_request =
  argv :: "string list"
  cwd :: string

abbreviation NUL :: char where "NUL \<equiv> CHR 0x00"

text \<open>The loop over the arguments returns at the first bad one.\<close>

fun validate_args :: "string list \<Rightarrow> unit result" where
  "validate_args [] = Inr ()"
| "validate_args (a # as) =
     (if length a > unat kMaxOpenArgumentBytes then
        Inl (protocolError ''OPEN payload: argument exceeds the maximum'')
      else if NUL \<in> set a then Inl (protocolError ''OPEN payload: argument contains NUL'')
      else validate_args as)"

definition validateOpenRequest :: "open_request \<Rightarrow> unit result" where
  "validateOpenRequest r =
     (if argv r = [] then Inl (protocolError ''OPEN payload: argv must not be empty'')
      else if length (argv r) > unat kMaxOpenArgc then
        Inl (protocolError ''OPEN payload: argc exceeds the maximum'')
      else if hd (argv r) = [] then Inl (protocolError ''OPEN payload: argv[0] must not be empty'')
      else case validate_args (argv r) of Inl e \<Rightarrow> Inl e
      | Inr _ \<Rightarrow>
        if length (cwd r) > unat kMaxOpenCwdBytes then
          Inl (protocolError ''OPEN payload: cwd exceeds the maximum'')
        else if NUL \<in> set (cwd r) then Inl (protocolError ''OPEN payload: cwd contains NUL'')
        else Inr ())"

text \<open>A string with its 32-bit length in front.\<close>

definition encode_string :: "string \<Rightarrow> string" where
  "encode_string s = writeU32BE (of_nat (length s)) @ s"

definition encodeOpen :: "open_request \<Rightarrow> string" where
  "encodeOpen r =
     char_of_u8 kOpenVersion # writeU32BE (of_nat (length (argv r))) @
     concat (map encode_string (argv r)) @ encode_string (cwd r)"

text \<open>
  \<open>class Reader\<close> is the string from the cursor on; each \<open>take\<close> returns the value and the reader
  behind it, or \<^const>\<open>None\<close> where the code returns \<open>false\<close>.
\<close>

definition takeU8 :: "string \<Rightarrow> (u8 \<times> string) option" where
  "takeU8 d = (if length d < 1 then None else Some (u8_of_char (d ! 0), drop 1 d))"

definition takeU32 :: "string \<Rightarrow> (u32 \<times> string) option" where
  "takeU32 d = (if length d < 4 then None else Some (readU32BE d, drop 4 d))"

definition takeString :: "string \<Rightarrow> u32 \<Rightarrow> (string \<times> string) option" where
  "takeString d maxLength = do {
     (len, d1) \<leftarrow> takeU32 d;
     if len > maxLength \<or> length d1 < unat len then None
     else Some (take (unat len) d1, drop (unat len) d1)
   }"

fun take_args :: "nat \<Rightarrow> string \<Rightarrow> (string list \<times> string) option" where
  "take_args 0 d = Some ([], d)"
| "take_args (Suc n) d = do {
     (a, d1) \<leftarrow> takeString d kMaxOpenArgumentBytes;
     (as, d2) \<leftarrow> take_args n d1;
     Some (a # as, d2)
   }"

definition decodeOpen :: "string \<Rightarrow> open_request result" where
  "decodeOpen p =
     (case takeU8 p of None \<Rightarrow> Inl (protocolError ''OPEN payload: missing version'')
      | Some (version, d1) \<Rightarrow>
        if version \<noteq> kOpenVersion then Inl (protocolError ''OPEN payload: unsupported version'')
        else case takeU32 d1 of None \<Rightarrow> Inl (protocolError ''OPEN payload: missing argc'')
        | Some (argc, d2) \<Rightarrow>
          if argc > kMaxOpenArgc then Inl (protocolError ''OPEN payload: argc exceeds the maximum'')
          else case take_args (unat argc) d2 of
            None \<Rightarrow> Inl (protocolError ''OPEN payload: truncated argument'')
          | Some (args, d3) \<Rightarrow>
            case takeString d3 kMaxOpenCwdBytes of
              None \<Rightarrow> Inl (protocolError ''OPEN payload: truncated cwd'')
            | Some (dir, d4) \<Rightarrow>
              if length d4 \<noteq> 0 then Inl (protocolError ''OPEN payload: trailing bytes'')
              else case validateOpenRequest \<lparr>argv = args, cwd = dir\<rparr> of
                Inl e \<Rightarrow> Inl e
              | Inr _ \<Rightarrow> Inr \<lparr>argv = args, cwd = dir\<rparr>)"

subsection \<open>Round trips of the small payloads\<close>

lemma kind_of_byte_inverse [simp]: "kind_of_byte (kind_byte k) = k"
  by (cases k) auto

lemma kind_byte_le: "kind_byte k \<le> 2"
  by (cases k) (auto simp: word_le_nat_alt)

lemma kind_byte_inverse: "b \<le> 2 \<Longrightarrow> kind_byte (kind_of_byte b) = b"
proof -
  assume "b \<le> 2"
  then have "unat b = unat (0 :: u8) \<or> unat b = unat (1 :: u8) \<or> unat b = unat (2 :: u8)"
    by (auto simp: word_le_nat_alt)
  then have "b = 0 \<or> b = 1 \<or> b = 2" by (blast intro: unsigned_word_eqI)
  then show ?thesis by auto
qed

lemma decodeExit_encodeExit [simp]: "decodeExit (encodeExit st) = Inr st"
  using kind_byte_le [of "ex_kind st"] readU32BE_write [of "ex_code st" "[]"]
  by (simp add: decodeExit_def encodeExit_def not_less Let_def del: kind_of_byte.simps)

lemma decodeExit_sound: "decodeExit p = Inr st \<Longrightarrow> p = encodeExit st"
proof -
  assume d: "decodeExit p = Inr st"
  then have p: "length p = 5" "u8_of_char (p ! 0) \<le> 2"
    "st = \<lparr>ex_kind = kind_of_byte (u8_of_char (p ! 0)), ex_code = readU32BE (drop 1 p)\<rparr>"
    by (auto simp: decodeExit_def Let_def not_less split: if_splits)
  have "writeU32BE (readU32BE (drop 1 p)) = drop 1 p"
    using p(1) by (subst writeU32BE_read) auto
  moreover have "p = p ! 0 # drop 1 p" using p(1) by (cases p) auto
  ultimately show "p = encodeExit st"
    using p(2,3) by (simp add: encodeExit_def kind_byte_inverse del: kind_of_byte.simps)
qed

lemma decodeWindowUpdate_encode: "d \<noteq> 0 \<Longrightarrow> decodeWindowUpdate (encodeWindowUpdate d) = Inr d"
  using readU32BE_write [of d "[]"] by (simp add: decodeWindowUpdate_def encodeWindowUpdate_def)

lemma decodeWindowUpdate_sound: "decodeWindowUpdate p = Inr d \<Longrightarrow> p = encodeWindowUpdate d \<and> d \<noteq> 0"
  using writeU32BE_read [of p]
  by (auto simp: decodeWindowUpdate_def encodeWindowUpdate_def Let_def split: if_splits)

subsection \<open>Round trip of OPEN\<close>

lemma takeU32_write [simp]: "takeU32 (writeU32BE v @ rest) = Some (v, rest)"
  by (simp add: takeU32_def)

lemma takeU32_sound: "takeU32 d = Some (v, d') \<Longrightarrow> d = writeU32BE v @ d'"
  by (auto simp: takeU32_def writeU32BE_read split: if_splits)

lemma takeString_encode:
  assumes "length s \<le> unat m"
  shows "takeString (encode_string s @ rest) m = Some (s, rest)"
proof -
  have "unat (of_nat (length s) :: u32) = length s"
    using assms u32_bound [of m] by (simp add: unat_of_nat)
  then show ?thesis
    using assms by (simp add: takeString_def encode_string_def word_less_nat_alt)
qed

lemma takeString_sound:
  assumes "takeString d m = Some (s, d')"
  shows "d = encode_string s @ d' \<and> length s \<le> unat m"
proof -
  obtain len d1 where d1: "takeU32 d = Some (len, d1)" "\<not> len > m" "unat len \<le> length d1"
    "s = take (unat len) d1" "d' = drop (unat len) d1"
    using assms by (auto simp: takeString_def split: bind_splits if_splits)
  then have "length s = unat len" by simp
  with d1 takeU32_sound [OF d1(1)] show ?thesis
    by (simp add: encode_string_def word_less_nat_alt)
qed

lemma take_args_encode:
  "\<forall>a \<in> set as. length a \<le> unat kMaxOpenArgumentBytes \<Longrightarrow>
   take_args (length as) (concat (map encode_string as) @ rest) = Some (as, rest)"
  by (induction as) (auto simp: takeString_encode)

lemma take_args_sound:
  "take_args n d = Some (as, d') \<Longrightarrow> d = concat (map encode_string as) @ d' \<and> length as = n"
  by (induction n d arbitrary: as rule: take_args.induct)
    (auto split: bind_splits dest!: takeString_sound)

lemma validate_args_ok:
  "is_ok (validate_args as) \<longleftrightarrow> (\<forall>a \<in> set as. length a \<le> unat kMaxOpenArgumentBytes \<and> NUL \<notin> set a)"
  by (induction as) auto

definition valid_open :: "open_request \<Rightarrow> bool" where
  "valid_open r \<longleftrightarrow> argv r \<noteq> [] \<and> length (argv r) \<le> 1024 \<and> hd (argv r) \<noteq> [] \<and>
     (\<forall>a \<in> set (argv r). length a \<le> 131072 \<and> NUL \<notin> set a) \<and>
     length (cwd r) \<le> 32768 \<and> NUL \<notin> set (cwd r)"

lemma validateOpenRequest_ok: "is_ok (validateOpenRequest r) \<longleftrightarrow> valid_open r"
  using validate_args_ok [of "argv r"]
  by (auto simp: validateOpenRequest_def valid_open_def open_limits split: sum.splits)

lemma decodeOpen_encodeOpen:
  assumes "valid_open r"
  shows "decodeOpen (encodeOpen r) = Inr r"
proof -
  have v: "validateOpenRequest r = Inr ()"
    using assms validateOpenRequest_ok [of r] by (cases "validateOpenRequest r") auto
  have argc: "unat (of_nat (length (argv r)) :: u32) = length (argv r)"
    using assms by (simp add: valid_open_def unat_of_nat)
  have "take_args (length (argv r)) (concat (map encode_string (argv r)) @ encode_string (cwd r)) =
      Some (argv r, encode_string (cwd r))"
    using assms by (intro take_args_encode) (simp add: valid_open_def open_limits)
  moreover have "takeString (encode_string (cwd r)) kMaxOpenCwdBytes = Some (cwd r, [])"
    using takeString_encode [of "cwd r" kMaxOpenCwdBytes "[]"] assms
    by (simp add: valid_open_def open_limits)
  ultimately show ?thesis
    using argc v assms
    by (cases r) (simp add: decodeOpen_def encodeOpen_def takeU8_def word_less_nat_alt open_limits valid_open_def)
qed

lemma decodeOpen_sound:
  assumes "decodeOpen p = Inr r"
  shows "p = encodeOpen r \<and> valid_open r"
proof -
  obtain d1 argc d2 args d3 dir where
    a: "takeU8 p = Some (kOpenVersion, d1)" "takeU32 d1 = Some (argc, d2)"
      "take_args (unat argc) d2 = Some (args, d3)" "takeString d3 kMaxOpenCwdBytes = Some (dir, [])"
    and r: "is_ok (validateOpenRequest r)" "r = \<lparr>argv = args, cwd = dir\<rparr>"
    using assms by (auto simp: decodeOpen_def split: option.splits prod.splits if_splits sum.splits)
  have "p = char_of_u8 kOpenVersion # d1"
    using a(1) u8_char_inverse(2) [of "hd p"] by (cases p) (auto simp: takeU8_def split: if_splits)
  moreover have "length args = unat argc" using take_args_sound [OF a(3)] by simp
  ultimately show ?thesis
    using takeU32_sound [OF a(2)] take_args_sound [OF a(3)] takeString_sound [OF a(4)] r
    by (simp add: encodeOpen_def validateOpenRequest_ok)
qed

subsection \<open>Properties\<close>

text \<open>
  The OPEN decoder accepts exactly the encodings of valid requests: argv is not empty, the
  program name is not empty, nothing contains NUL and all sizes respect the limits; and it returns
  the request that was encoded.
\<close>

theorem decodeOpen_exact: "decodeOpen p = Inr r \<longleftrightarrow> p = encodeOpen r \<and> valid_open r"
  using decodeOpen_sound [of p r] decodeOpen_encodeOpen [of r] by blast

text \<open>
  the EXIT and WINDOW_UPDATE decoders accept exactly the encodings of an exit status and of a
  credit that is not zero.
\<close>

theorem control_payloads_exact:
  "(decodeExit p = Inr st \<longleftrightarrow> p = encodeExit st) \<and>
   (decodeWindowUpdate p = Inr d \<longleftrightarrow> p = encodeWindowUpdate d \<and> d \<noteq> 0)"
  using decodeExit_sound [of p st] decodeWindowUpdate_sound [of p d] decodeWindowUpdate_encode [of d] by auto

lemma length_encodeOpen:
  "length (encodeOpen r) = 9 + sum_list (map (\<lambda>a. 4 + length a) (argv r)) + length (cwd r)"
  by (simp add: encodeOpen_def encode_string_def length_concat comp_def)

definition huge_request :: open_request where
  "huge_request = \<lparr>argv = replicate 200 (replicate 131072 (CHR ''a'')), cwd = []\<rparr>"

text \<open>
  the limits of a request do not keep it inside a frame: 200 arguments of the allowed 128 KiB make
  a valid request whose OPEN payload exceeds the decoder's maximum, so the peer refuses the
  connection that carries it.
\<close>

theorem valid_request_exceeds_frame:
  "is_ok (validateOpenRequest huge_request) \<and>
   \<not> fits kDefaultMaxFramePayload \<lparr>ftype = FT_Open, flags = 0, streamId = 1, payload = encodeOpen huge_request\<rparr>"
proof -
  have "valid_open huge_request"
    by (simp add: valid_open_def huge_request_def)
  moreover have "length (encodeOpen huge_request) = 9 + 200 * 131076"
    unfolding length_encodeOpen huge_request_def by (simp add: sum_list_replicate)
  ultimately show ?thesis
    by (simp add: validateOpenRequest_ok fits_def kDefaultMaxFramePayload_def)
qed

end
