(* ===== verification/Session.thy ===== *)
theory Session
  imports Open_Request Credit_Window
begin

text \<open>
  \<open>psx::transport::Session\<close> (\<open>include/psx/transport/session.hpp\<close>,
  \<open>src/transport/session.cpp\<close>): the multiplexer of logical streams over one connection.  An
  operation returns the new session and its effects in order: the frames handed to the write
  callback (as \<^const>\<open>encodeFrame\<close> bytes) and the calls of the observer.  In the code every call of
  the observer is the last action of an operation, so whatever the observer does in response is a
  sequence of later operations.
\<close>

subsection \<open>State\<close>

datatype role = Controller | Node
datatype channel = Stdout | Stderr

definition kDefaultStreamWindow :: u32 where "kDefaultStreamWindow = 256 * 1024"
definition kMaxStreamWindow :: u32 where "kMaxStreamWindow = 0x7FFFFFFF"

record sstream =
  recvWindow :: credit_window
  sendCredit :: u32
  sendQueue :: "(channel \<times> string) list"
  sendBytes :: nat
  sendEndPending :: bool
  exitPending :: bool
  localDataClosed :: bool
  peerDataClosed :: bool
  exitStatus :: exit_status

definition new_sstream :: "u32 \<Rightarrow> sstream" where
  "new_sstream w = \<lparr>recvWindow = CreditWindow w 0, sendCredit = w, sendQueue = [], sendBytes = 0,
     sendEndPending = False, exitPending = False, localDataClosed = False, peerDataClosed = False,
     exitStatus = \<lparr>ex_kind = Exited, ex_code = 0\<rparr>\<rparr>"

record session =
  srole :: role
  decoder :: frame_decoder
  streams :: "u32 \<rightharpoonup> sstream"
  locallyClosed :: "u32 \<rightharpoonup> bool"
  nextStreamId :: u32
  nextPeerStreamId :: u32
  initialWindow :: u32
  hasWritableCb :: bool
  sentGoAway :: bool
  receivedGoAway :: bool
  protocolFailed :: bool

definition Session :: "role \<Rightarrow> u32 \<Rightarrow> session" where
  "Session r w = \<lparr>srole = r, decoder = FrameDecoder kDefaultMaxFramePayload, streams = Map.empty,
     locallyClosed = Map.empty, nextStreamId = 1, nextPeerStreamId = 1, initialWindow = w,
     hasWritableCb = False, sentGoAway = False, receivedGoAway = False, protocolFailed = False\<rparr>"

definition onStreamWritable :: "session \<Rightarrow> session" where
  "onStreamWritable s = s\<lparr>hasWritableCb := True\<rparr>"

datatype callback =
    OnOpen u32 open_request | OnData u32 string bool channel | OnExit u32 exit_status
  | OnGoAway | OnPong | OnWritable u32

datatype effect = Write frame | Call callback

subsection \<open>Frames a session writes\<close>

definition channelFlag :: "channel \<Rightarrow> u8" where
  "channelFlag ch = (if ch = Stderr then kFlagStderr else 0)"

definition open_frame :: "u32 \<Rightarrow> open_request \<Rightarrow> frame" where
  "open_frame i r = \<lparr>ftype = FT_Open, flags = 0, streamId = i, payload = encodeOpen r\<rparr>"

definition data_frame :: "u32 \<Rightarrow> channel \<Rightarrow> bool \<Rightarrow> string \<Rightarrow> frame" where
  "data_frame i ch e b = \<lparr>ftype = FT_Data,
     flags = (if e then channelFlag ch OR kFlagEndStream else channelFlag ch),
     streamId = i, payload = b\<rparr>"

definition exit_frame :: "u32 \<Rightarrow> exit_status \<Rightarrow> frame" where
  "exit_frame i st = \<lparr>ftype = FT_Exit, flags = kFlagEndStream, streamId = i, payload = encodeExit st\<rparr>"

definition update_frame :: "u32 \<Rightarrow> u32 \<Rightarrow> frame" where
  "update_frame i d = \<lparr>ftype = FT_WindowUpdate, flags = 0, streamId = i, payload = encodeWindowUpdate d\<rparr>"

definition conn_frame :: "u8 \<Rightarrow> frame" where
  "conn_frame t = \<lparr>ftype = t, flags = 0, streamId = 0, payload = []\<rparr>"

definition send :: "session \<Rightarrow> frame \<Rightarrow> effect list" where
  "send s f = (if protocolFailed s then [] else [Write f])"

subsection \<open>Operations of the application\<close>

definition s_open :: "session \<Rightarrow> open_request \<Rightarrow> session \<times> effect list \<times> u32" where
  "s_open s r =
     (if protocolFailed s \<or> srole s \<noteq> Controller \<or> sentGoAway s \<or> receivedGoAway s \<or>
         nextStreamId s = 0 \<or> isl (validateOpenRequest r)
      then (s, [], 0)
      else let i = nextStreamId s;
               ss = (if streams s i = None then (streams s)(i \<mapsto> new_sstream (initialWindow s))
                     else streams s)
           in (s\<lparr>nextStreamId := i + 1, streams := ss\<rparr>, send s (open_frame i r), i))"

text \<open>One round of the loop of \<open>flushStream\<close>, on a stream with a queued segment.\<close>

definition flush_once :: "u32 \<Rightarrow> sstream \<Rightarrow> sstream \<times> frame" where
  "flush_once i st =
     (let (ch, bytes) = hd (sendQueue st);
          chunk = min (length bytes) (unat (sendCredit st));
          drainsQueue = (chunk = length bytes \<and> length (sendQueue st) = 1);
          last = (drainsQueue \<and> sendEndPending st)
      in (st\<lparr>sendCredit := sendCredit st - of_nat chunk, sendBytes := sendBytes st - chunk,
             sendQueue := (if chunk = length bytes then tl (sendQueue st)
                           else (ch, drop chunk bytes) # tl (sendQueue st)),
             sendEndPending := (if last then False else sendEndPending st)\<rparr>,
          data_frame i ch last (take chunk bytes)))"

text \<open>The loop: the frames it sends and the stream it leaves.\<close>

function flush_loop :: "u32 \<Rightarrow> sstream \<Rightarrow> sstream \<times> frame list" where
  "flush_loop i st =
     (if sendQueue st \<noteq> [] \<and> sendCredit st > 0 then
        let (st1, f) = flush_once i st; (st2, fs) = flush_loop i st1 in (st2, f # fs)
      else (st, []))"
  by pat_completeness auto
termination
proof (relation "measure (\<lambda>(i, st). length (sendQueue st) + (if sendCredit st = 0 then 0 else 1))", simp,
    goal_cases)
  case (1 i st x st1 f)
  obtain ch bytes queue where q: "sendQueue st = (ch, bytes) # queue"
    using 1(1) by (cases "sendQueue st") auto
  show ?case
    using 1 by (cases "length bytes \<le> unat (sendCredit st)") (auto simp: q flush_once_def Let_def)
qed

declare flush_loop.simps [simp del]

definition closeLocally :: "session \<Rightarrow> u32 \<Rightarrow> bool \<Rightarrow> session" where
  "closeLocally s i closed =
     s\<lparr>locallyClosed := (locallyClosed s)(i \<mapsto> closed), streams := (streams s)(i := None)\<rparr>"

definition flushStream :: "session \<Rightarrow> u32 \<Rightarrow> sstream \<Rightarrow> session \<times> effect list" where
  "flushStream s i st =
     (let wasFull = (sendBytes st \<ge> unat (initialWindow s));
          (st1, fs) = flush_loop i st;
          endNow = (sendQueue st1 = [] \<and> sendEndPending st1);
          st2 = (if endNow then st1\<lparr>sendEndPending := False\<rparr> else st1);
          sent = concat (map (send s) (fs @ (if endNow then [data_frame i Stdout True []] else [])))
      in if sendQueue st2 = [] \<and> \<not> sendEndPending st2 \<and> exitPending st2
         then (closeLocally s i (peerDataClosed st2), sent @ send s (exit_frame i (exitStatus st2)))
         else (s\<lparr>streams := (streams s)(i \<mapsto> st2)\<rparr>,
               sent @ (if wasFull \<and> sendBytes st2 < unat (initialWindow s) \<and> hasWritableCb s
                       then [Call (OnWritable i)] else [])))"

text \<open>The guards of \<open>sendData\<close>, which drops what it may not send.\<close>

definition accepts_data :: "session \<Rightarrow> u32 \<Rightarrow> channel \<Rightarrow> bool" where
  "accepts_data s i ch \<longleftrightarrow> \<not> (protocolFailed s \<or> srole s = Controller \<and> ch \<noteq> Stdout) \<and>
     (case streams s i of None \<Rightarrow> False | Some st \<Rightarrow> \<not> (localDataClosed st \<or> exitPending st))"

definition sendData :: "session \<Rightarrow> u32 \<Rightarrow> string \<Rightarrow> bool \<Rightarrow> channel \<Rightarrow> session \<times> effect list" where
  "sendData s i bytes endStream ch =
     (if \<not> accepts_data s i ch then (s, [])
      else let st = the (streams s i);
               st1 = (if bytes \<noteq> [] then st\<lparr>sendQueue := sendQueue st @ [(ch, bytes)],
                                           sendBytes := sendBytes st + length bytes\<rparr> else st);
               st2 = (if endStream then st1\<lparr>localDataClosed := True, sendEndPending := True\<rparr> else st1)
           in flushStream s i st2)"

definition streamWritable :: "session \<Rightarrow> u32 \<Rightarrow> bool" where
  "streamWritable s i = (case streams s i of None \<Rightarrow> True | Some st \<Rightarrow> sendBytes st < unat (initialWindow s))"

definition consume :: "session \<Rightarrow> u32 \<Rightarrow> u32 \<Rightarrow> session \<times> effect list" where
  "consume s i n =
     (if protocolFailed s then (s, [])
      else case streams s i of None \<Rightarrow> (s, [])
      | Some st \<Rightarrow>
        let (cw, delta) = cw_onConsumed (recvWindow st) n
        in (s\<lparr>streams := (streams s)(i \<mapsto> st\<lparr>recvWindow := cw\<rparr>)\<rparr>,
            if delta > 0 then send s (update_frame i delta) else []))"

definition sendExit :: "session \<Rightarrow> u32 \<Rightarrow> exit_status \<Rightarrow> session \<times> effect list" where
  "sendExit s i status =
     (if protocolFailed s \<or> srole s \<noteq> Node then (s, [])
      else case streams s i of None \<Rightarrow> (s, [])
      | Some st \<Rightarrow>
        if exitPending st then (s, [])
        else if sendQueue st \<noteq> [] \<or> sendEndPending st then
          (s\<lparr>streams := (streams s)(i \<mapsto>
               st\<lparr>localDataClosed := True, exitPending := True, exitStatus := status\<rparr>)\<rparr>, [])
        else (closeLocally s i (peerDataClosed st), send s (exit_frame i status)))"

definition s_ping :: "session \<Rightarrow> session \<times> effect list" where
  "s_ping s = (s, if protocolFailed s then [] else send s (conn_frame FT_Ping))"

definition goAway :: "session \<Rightarrow> session \<times> effect list" where
  "goAway s = (if protocolFailed s \<or> sentGoAway s then (s, [])
     else (s\<lparr>sentGoAway := True\<rparr>, send s (conn_frame FT_GoAway)))"

subsection \<open>Received frames\<close>

definition hasOnlyFlags :: "frame \<Rightarrow> u8 \<Rightarrow> bool" where
  "hasOnlyFlags f allowed \<longleftrightarrow> flags f AND NOT allowed = 0"

definition validateConnectionFrame :: "frame \<Rightarrow> unit result" where
  "validateConnectionFrame f =
     (if streamId f \<noteq> 0 \<or> flags f \<noteq> 0 \<or> payload f \<noteq> []
      then Inl (protocolError ''connection frame must have stream 0, flags 0, and an empty payload'')
      else Inr ())"

definition validateStreamFrame :: "frame \<Rightarrow> u8 \<Rightarrow> unit result" where
  "validateStreamFrame f allowed =
     (if streamId f = 0 then Inl (protocolError ''stream frame must have a nonzero stream id'')
      else if \<not> hasOnlyFlags f allowed then Inl (protocolError ''frame contains unknown or reserved flags'')
      else Inr ())"

type_synonym dispatched = "session \<times> effect list \<times> unit result"

definition refuse :: "session \<Rightarrow> string \<Rightarrow> dispatched" where
  "refuse s what = (s, [], Inl (protocolError what))"

definition dispatch_open :: "session \<Rightarrow> frame \<Rightarrow> dispatched" where
  "dispatch_open s f =
     (case validateStreamFrame f 0 of Inl e \<Rightarrow> (s, [], Inl e)
      | Inr _ \<Rightarrow>
        if srole s \<noteq> Node then refuse s ''OPEN received by a controller''
        else if sentGoAway s \<or> receivedGoAway s then refuse s ''OPEN received after GOAWAY''
        else if streamId f \<noteq> nextPeerStreamId s then refuse s ''OPEN stream ids must be strictly sequential''
        else case decodeOpen (payload f) of Inl e \<Rightarrow> (s, [], Inl e)
        | Inr r \<Rightarrow>
          (s\<lparr>nextPeerStreamId := (if streamId f = - 1 then 0 else streamId f + 1),
             streams := (if streams s (streamId f) = None
               then (streams s)(streamId f \<mapsto> new_sstream (initialWindow s)) else streams s)\<rparr>,
           [Call (OnOpen (streamId f) r)], Inr ()))"

definition dispatch_data :: "session \<Rightarrow> frame \<Rightarrow> dispatched" where
  "dispatch_data s f =
     (case validateStreamFrame f (kFlagEndStream OR kFlagStderr) of Inl e \<Rightarrow> (s, [], Inl e)
      | Inr _ \<Rightarrow>
        if srole s = Node \<and> flags f AND kFlagStderr \<noteq> 0
        then refuse s ''controller DATA cannot select an output channel''
        else let endStream = (flags f AND kFlagEndStream \<noteq> 0) in
          case locallyClosed s (streamId f) of
            Some closed \<Rightarrow>
              if closed then refuse s ''DATA received after END_STREAM''
              else (s\<lparr>locallyClosed := (locallyClosed s)(streamId f \<mapsto> endStream)\<rparr>, [], Inr ())
          | None \<Rightarrow>
            (case streams s (streamId f) of
               None \<Rightarrow> refuse s ''DATA for an unknown or peer-closed stream''
             | Some st \<Rightarrow>
               if peerDataClosed st then refuse s ''DATA received after END_STREAM''
               else let (cw, ok) = cw_onData (recvWindow st) (of_nat (length (payload f))) in
                 if \<not> ok then refuse s ''DATA exceeds the stream's flow-control window''
                 else (s\<lparr>streams := (streams s)(streamId f \<mapsto>
                          st\<lparr>recvWindow := cw, peerDataClosed := endStream\<rparr>)\<rparr>,
                       [Call (OnData (streamId f) (payload f) endStream
                          (if flags f AND kFlagStderr \<noteq> 0 then Stderr else Stdout))], Inr ())))"

definition dispatch_exit :: "session \<Rightarrow> frame \<Rightarrow> dispatched" where
  "dispatch_exit s f =
     (case validateStreamFrame f kFlagEndStream of Inl e \<Rightarrow> (s, [], Inl e)
      | Inr _ \<Rightarrow>
        if srole s \<noteq> Controller then refuse s ''EXIT received by a node''
        else case decodeExit (payload f) of Inl e \<Rightarrow> (s, [], Inl e)
        | Inr status \<Rightarrow>
          if streams s (streamId f) = None then refuse s ''EXIT for an unknown stream''
          else (s\<lparr>streams := (streams s)(streamId f := None)\<rparr>, [Call (OnExit (streamId f) status)], Inr ()))"

definition dispatch_update :: "session \<Rightarrow> frame \<Rightarrow> dispatched" where
  "dispatch_update s f =
     (case validateStreamFrame f 0 of Inl e \<Rightarrow> (s, [], Inl e)
      | Inr _ \<Rightarrow>
        case decodeWindowUpdate (payload f) of Inl e \<Rightarrow> (s, [], Inl e)
        | Inr delta \<Rightarrow>
          (case streams s (streamId f) of
             None \<Rightarrow> if locallyClosed s (streamId f) \<noteq> None then (s, [], Inr ())
               else refuse s ''WINDOW_UPDATE for an unknown or peer-closed stream''
           | Some st \<Rightarrow>
             if unat (sendCredit st) + unat delta > unat kMaxStreamWindow
             then refuse s ''WINDOW_UPDATE overflows the stream flow-control window''
             else let (s', effs) = flushStream s (streamId f) (st\<lparr>sendCredit := sendCredit st + delta\<rparr>)
               in (s', effs, Inr ())))"

definition dispatch_conn :: "session \<Rightarrow> frame \<Rightarrow> session \<Rightarrow> effect list \<Rightarrow> dispatched" where
  "dispatch_conn s f s' effs =
     (case validateConnectionFrame f of Inl e \<Rightarrow> (s, [], Inl e) | Inr _ \<Rightarrow> (s', effs, Inr ()))"

definition dispatch :: "session \<Rightarrow> frame \<Rightarrow> dispatched" where
  "dispatch s f =
     (if ftype f = FT_Open then dispatch_open s f
      else if ftype f = FT_Data then dispatch_data s f
      else if ftype f = FT_Exit then dispatch_exit s f
      else if ftype f = FT_Ping then dispatch_conn s f s (send s (conn_frame FT_Pong))
      else if ftype f = FT_Pong then dispatch_conn s f s [Call OnPong]
      else if ftype f = FT_GoAway then dispatch_conn s f (s\<lparr>receivedGoAway := True\<rparr>) [Call OnGoAway]
      else if ftype f = FT_WindowUpdate then dispatch_update s f
      else refuse s ''unknown frame type'')"

text \<open>
  \<open>receive\<close>.  The observer is a parameter: \<open>react a c s\<close> is what it does with the session \<open>s\<close> in
  the call \<open>c\<close>, \<open>a\<close> being its own state.  Frames behind a refused one are skipped.
\<close>

type_synonym 'a observer = "'a \<Rightarrow> callback \<Rightarrow> session \<Rightarrow> 'a \<times> session \<times> effect list"

fun react_all :: "'a observer \<Rightarrow> 'a \<Rightarrow> effect list \<Rightarrow> session \<Rightarrow> 'a \<times> session \<times> effect list" where
  "react_all react a [] s = (a, s, [])"
| "react_all react a (Write f # effs) s =
     (let (a', s', out) = react_all react a effs s in (a', s', Write f # out))"
| "react_all react a (Call c # effs) s =
     (let (a1, s1, out1) = react a c s; (a', s', out) = react_all react a1 effs s1
      in (a', s', Call c # out1 @ out))"

fun dispatch_all :: "'a observer \<Rightarrow> 'a \<Rightarrow> session \<Rightarrow> frame list \<Rightarrow>
    'a \<times> session \<times> effect list \<times> unit result" where
  "dispatch_all react a s [] = (a, s, [], Inr ())"
| "dispatch_all react a s (f # fs) =
     (let (s1, effs, r) = dispatch s f; (a1, s2, out1) = react_all react a effs s1 in
      case r of Inl e \<Rightarrow> (a1, s2, out1, Inl e)
      | Inr _ \<Rightarrow> let (a', s', out, r') = dispatch_all react a1 s2 fs in (a', s', out1 @ out, r'))"

definition receive :: "'a observer \<Rightarrow> 'a \<Rightarrow> session \<Rightarrow> string \<Rightarrow> 'a \<times> session \<times> effect list \<times> unit result" where
  "receive react a s bytes =
     (if protocolFailed s
      then (a, s, [], Inl (protocolError ''session poisoned by an earlier protocol error''))
      else let (d, fs, decoded) = fd_push (decoder s) bytes;
               (a', s', out, r) = dispatch_all react a (s\<lparr>decoder := d\<rparr>) fs
           in case decoded of Inl e \<Rightarrow> (a', s'\<lparr>protocolFailed := True\<rparr>, out, Inl e)
              | Inr _ \<Rightarrow> (case r of Inl e \<Rightarrow> (a', s'\<lparr>protocolFailed := True\<rparr>, out, Inl e)
                          | Inr _ \<Rightarrow> (a', s', out, Inr ())))"

subsection \<open>What a frame carries\<close>

definition frame_channel :: "frame \<Rightarrow> channel" where
  "frame_channel f = (if flags f AND kFlagStderr \<noteq> 0 then Stderr else Stdout)"

definition is_data :: "frame \<Rightarrow> bool" where "is_data f \<longleftrightarrow> ftype f = FT_Data"
definition is_open :: "frame \<Rightarrow> bool" where "is_open f \<longleftrightarrow> ftype f = FT_Open"
definition is_goaway :: "frame \<Rightarrow> bool" where "is_goaway f \<longleftrightarrow> ftype f = FT_GoAway"
definition is_end :: "frame \<Rightarrow> bool" where "is_end f \<longleftrightarrow> is_data f \<and> flags f AND kFlagEndStream \<noteq> 0"

text \<open>The bytes of DATA frames with their channel, and the credit of WINDOW_UPDATE frames.\<close>

definition tag :: "channel \<Rightarrow> string \<Rightarrow> (channel \<times> char) list" where
  "tag ch = map (Pair ch)"

definition tagged :: "frame list \<Rightarrow> (channel \<times> char) list" where
  "tagged fs = concat (map (\<lambda>f. if is_data f then tag (frame_channel f) (payload f) else []) fs)"

definition updates :: "frame list \<Rightarrow> nat" where
  "updates fs = sum_list (map (\<lambda>f. if ftype f = FT_WindowUpdate then unat (readU32BE (payload f)) else 0) fs)"

definition qbytes :: "(channel \<times> string) list \<Rightarrow> (channel \<times> char) list" where
  "qbytes q = concat (map (\<lambda>(ch, b). tag ch b) q)"

lemma length_tag [simp]: "length (tag ch b) = length b"
  by (simp add: tag_def)

lemma tag_Nil [simp]: "tag ch [] = []"
  by (simp add: tag_def)

lemma tag_take_drop: "tag ch (take n b) @ tag ch (drop n b) = tag ch b"
  by (simp add: tag_def flip: map_append)

lemma tagged_simps [simp]:
  "tagged [] = []" "tagged (f # fs) = (if is_data f then tag (frame_channel f) (payload f) else []) @ tagged fs"
  "tagged (fs @ gs) = tagged fs @ tagged gs"
  by (simp_all add: tagged_def)

lemma updates_simps [simp]:
  "updates [] = 0" "updates (fs @ gs) = updates fs + updates gs"
  "updates (f # fs) = (if ftype f = FT_WindowUpdate then unat (readU32BE (payload f)) else 0) + updates fs"
  by (simp_all add: updates_def)

lemma qbytes_simps [simp]:
  "qbytes [] = []" "qbytes ((ch, b) # q) = tag ch b @ qbytes q" "qbytes (q @ q') = qbytes q @ qbytes q'"
  by (simp_all add: qbytes_def)

lemma data_frame_simps [simp]:
  "ftype (data_frame i ch e b) = FT_Data" "is_data (data_frame i ch e b)"
  "\<not> is_open (data_frame i ch e b)" "\<not> is_goaway (data_frame i ch e b)"
  "streamId (data_frame i ch e b) = i" "payload (data_frame i ch e b) = b"
  "frame_channel (data_frame i ch e b) = ch" "is_end (data_frame i ch e b) = e"
  "(flags (data_frame i ch e b) AND kFlagStderr \<noteq> 0) = (ch = Stderr)"
  "(flags (data_frame i ch e b) AND kFlagEndStream \<noteq> 0) = e"
  "hasOnlyFlags (data_frame i ch e b) (kFlagEndStream OR kFlagStderr)"
  by (cases ch; cases e; simp add: data_frame_def is_data_def is_open_def is_goaway_def is_end_def
      frame_channel_def channelFlag_def kFlagStderr_def kFlagEndStream_def hasOnlyFlags_def frame_types)+

lemma exit_frame_simps [simp]:
  "ftype (exit_frame i st) = FT_Exit" "\<not> is_data (exit_frame i st)" "\<not> is_open (exit_frame i st)"
  "\<not> is_goaway (exit_frame i st)" "\<not> is_end (exit_frame i st)"
  "streamId (exit_frame i st) = i" "payload (exit_frame i st) = encodeExit st"
  "hasOnlyFlags (exit_frame i st) kFlagEndStream"
  by (simp_all add: exit_frame_def is_data_def is_open_def is_goaway_def is_end_def hasOnlyFlags_def
      kFlagEndStream_def frame_types)

lemma open_frame_simps [simp]:
  "ftype (open_frame i r) = FT_Open" "\<not> is_data (open_frame i r)" "is_open (open_frame i r)"
  "\<not> is_goaway (open_frame i r)" "\<not> is_end (open_frame i r)"
  "streamId (open_frame i r) = i" "payload (open_frame i r) = encodeOpen r"
  "hasOnlyFlags (open_frame i r) 0"
  by (simp_all add: open_frame_def is_data_def is_open_def is_goaway_def is_end_def hasOnlyFlags_def frame_types)

lemma update_frame_simps [simp]:
  "ftype (update_frame i d) = FT_WindowUpdate" "\<not> is_data (update_frame i d)"
  "\<not> is_open (update_frame i d)" "\<not> is_goaway (update_frame i d)" "\<not> is_end (update_frame i d)"
  "streamId (update_frame i d) = i" "payload (update_frame i d) = encodeWindowUpdate d"
  "readU32BE (encodeWindowUpdate d) = d" "hasOnlyFlags (update_frame i d) 0"
  using readU32BE_write [of d "[]"]
  by (simp_all add: update_frame_def is_data_def is_open_def is_goaway_def is_end_def hasOnlyFlags_def
      frame_types encodeWindowUpdate_def)

lemma conn_frame_simps [simp]:
  "ftype (conn_frame t) = t" "streamId (conn_frame t) = 0" "flags (conn_frame t) = 0"
  "payload (conn_frame t) = []"
  by (simp_all add: conn_frame_def)

lemma frame_types_distinct [simp]:
  "FT_WindowUpdate \<noteq> FT_Data" "FT_Data \<noteq> FT_WindowUpdate" "FT_Open \<noteq> FT_WindowUpdate"
  "FT_Exit \<noteq> FT_WindowUpdate" "FT_Exit \<noteq> FT_Data" "FT_Exit \<noteq> FT_Open" "FT_Data \<noteq> FT_Open"
  "FT_WindowUpdate \<noteq> FT_Open" "FT_WindowUpdate \<noteq> FT_Exit"
  by (simp_all add: frame_types)

subsection \<open>END_STREAM\<close>

text \<open>A sequence of frames in which no DATA follows an END_STREAM; \<open>p\<close> says one was there before.\<close>

fun ends_ok :: "bool \<Rightarrow> frame list \<Rightarrow> bool" where
  "ends_ok p [] = True"
| "ends_ok p (f # fs) = ((is_data f \<longrightarrow> \<not> p) \<and> ends_ok (p \<or> is_end f) fs)"

definition has_end :: "frame list \<Rightarrow> bool" where
  "has_end fs \<longleftrightarrow> (\<exists>f \<in> set fs. is_end f)"

lemma has_end_simps [simp]:
  "\<not> has_end []" "has_end (f # fs) \<longleftrightarrow> is_end f \<or> has_end fs" "has_end (fs @ gs) \<longleftrightarrow> has_end fs \<or> has_end gs"
  by (auto simp: has_end_def)

lemma ends_ok_append: "ends_ok p (fs @ gs) \<longleftrightarrow> ends_ok p fs \<and> ends_ok (p \<or> has_end fs) gs"
  by (induction fs arbitrary: p) (auto simp: disj_ac)

lemma ends_ok_no_data: "\<forall>f \<in> set fs. \<not> is_data f \<Longrightarrow> ends_ok p fs"
  by (induction fs) (auto simp: is_end_def)

subsection \<open>Flushing\<close>

definition segments_ok :: "role \<Rightarrow> (channel \<times> string) list \<Rightarrow> bool" where
  "segments_ok r q \<longleftrightarrow> (\<forall>(ch, b) \<in> set q. b \<noteq> [] \<and> (r = Controller \<longrightarrow> ch = Stdout))"

text \<open>A DATA frame of stream \<open>i\<close> that an endpoint of role \<open>r\<close> may send.\<close>

definition data_of :: "role \<Rightarrow> u32 \<Rightarrow> frame \<Rightarrow> bool" where
  "data_of r i f \<longleftrightarrow> (\<exists>ch e b. f = data_frame i ch e b \<and> (r = Controller \<longrightarrow> ch = Stdout))"

definition quiet :: "sstream \<Rightarrow> bool" where
  "quiet st \<longleftrightarrow> localDataClosed st \<and> \<not> sendEndPending st \<and> sendQueue st = []"

definition same_rest :: "sstream \<Rightarrow> sstream \<Rightarrow> bool" where
  "same_rest st st' \<longleftrightarrow> recvWindow st' = recvWindow st \<and> exitPending st' = exitPending st \<and>
     localDataClosed st' = localDataClosed st \<and> peerDataClosed st' = peerDataClosed st \<and>
     exitStatus st' = exitStatus st"

text \<open>
  What flushing a stream means: the bytes leave the queue in order, paid from the credit; bytes stay
  behind only when the credit is spent, and END_STREAM is the last thing sent.
\<close>

definition drained :: "role \<Rightarrow> u32 \<Rightarrow> sstream \<Rightarrow> sstream \<Rightarrow> frame list \<Rightarrow> bool" where
  "drained r i st st' fs \<longleftrightarrow>
     same_rest st st' \<and>
     (\<forall>f \<in> set fs. data_of r i f) \<and>
     tagged fs @ qbytes (sendQueue st') = qbytes (sendQueue st) \<and>
     unat (sendCredit st') + length (tagged fs) = unat (sendCredit st) \<and>
     (sendQueue st' \<noteq> [] \<longrightarrow> sendCredit st' = 0) \<and>
     segments_ok r (sendQueue st') \<and>
     sendBytes st' = length (qbytes (sendQueue st')) \<and>
     ends_ok False fs \<and>
     (has_end fs \<longrightarrow> sendEndPending st \<and> \<not> sendEndPending st' \<and> sendQueue st' = []) \<and>
     (sendEndPending st' \<longrightarrow> sendEndPending st) \<and>
     (sendEndPending st \<and> \<not> sendEndPending st' \<longrightarrow> has_end fs)"

lemma drainedD:
  assumes "drained r i st st' fs"
  shows "same_rest st st'" "\<forall>f \<in> set fs. data_of r i f"
    "tagged fs @ qbytes (sendQueue st') = qbytes (sendQueue st)"
    "unat (sendCredit st') + length (tagged fs) = unat (sendCredit st)"
    "sendQueue st' \<noteq> [] \<longrightarrow> sendCredit st' = 0" "segments_ok r (sendQueue st')"
    "sendBytes st' = length (qbytes (sendQueue st'))" "ends_ok False fs"
    "has_end fs \<longrightarrow> sendEndPending st \<and> \<not> sendEndPending st' \<and> sendQueue st' = []"
    "sendEndPending st' \<longrightarrow> sendEndPending st"
    "sendEndPending st \<and> \<not> sendEndPending st' \<longrightarrow> has_end fs"
  using assms unfolding drained_def by blast+

lemma drained_refl:
  assumes "segments_ok r (sendQueue st)" "sendBytes st = length (qbytes (sendQueue st))"
    "sendQueue st \<noteq> [] \<longrightarrow> sendCredit st = 0"
  shows "drained r i st st []"
  using assms by (auto simp: drained_def same_rest_def)

lemma flush_once_step:
  assumes "segments_ok r (sendQueue st)" "sendBytes st = length (qbytes (sendQueue st))"
    "sendQueue st \<noteq> []" "flush_once i st = (st1, f)"
  shows "same_rest st st1"
    "data_of r i f" "tag (frame_channel f) (payload f) @ qbytes (sendQueue st1) = qbytes (sendQueue st)"
    "unat (sendCredit st1) + length (payload f) = unat (sendCredit st)"
    "segments_ok r (sendQueue st1)" "sendBytes st1 = length (qbytes (sendQueue st1))"
    "is_end f \<longrightarrow> sendQueue st1 = []" "sendEndPending st1 \<longleftrightarrow> sendEndPending st \<and> \<not> is_end f"
    "is_end f \<longrightarrow> sendEndPending st"
proof -
  obtain ch bytes queue where q: "sendQueue st = (ch, bytes) # queue"
    using assms(3) by (cases "sendQueue st") auto
  define chunk where "chunk = min (length bytes) (unat (sendCredit st))"
  define last where "last = ((chunk = length bytes \<and> queue = []) \<and> sendEndPending st)"
  have st1: "st1 = st\<lparr>sendCredit := sendCredit st - of_nat chunk, sendBytes := sendBytes st - chunk,
      sendQueue := (if chunk = length bytes then queue else (ch, drop chunk bytes) # queue),
      sendEndPending := (if last then False else sendEndPending st)\<rparr>"
    and f: "f = data_frame i ch last (take chunk bytes)"
    using assms(4) q by (auto simp: flush_once_def chunk_def last_def Let_def)
  have c: "chunk \<le> unat (sendCredit st)" "chunk \<le> length bytes" by (auto simp: chunk_def)
  then have "chunk < 2 ^ 32" using u32_bound [of "sendCredit st"] by simp
  with c have "unat (sendCredit st - of_nat chunk) = unat (sendCredit st) - chunk"
    by (subst unat_minus_small) (simp_all add: word_le_nat_alt unat_of_nat)
  with c show "unat (sendCredit st1) + length (payload f) = unat (sendCredit st)"
    by (simp add: st1 f)
  have seg: "bytes \<noteq> []" "r = Controller \<longrightarrow> ch = Stdout" "segments_ok r queue"
    using assms(1) q by (auto simp: segments_ok_def)
  show "same_rest st st1"
    using st1 by (simp add: same_rest_def)
  show "data_of r i f" using seg f by (auto simp: data_of_def)
  show "tag (frame_channel f) (payload f) @ qbytes (sendQueue st1) = qbytes (sendQueue st)"
    using q tag_take_drop [of ch chunk bytes] c by (auto simp: st1 f)
  show "segments_ok r (sendQueue st1)" "sendBytes st1 = length (qbytes (sendQueue st1))"
    using seg q assms(2) c by (auto simp: st1 segments_ok_def)
  show "is_end f \<longrightarrow> sendQueue st1 = []" "sendEndPending st1 \<longleftrightarrow> sendEndPending st \<and> \<not> is_end f"
    "is_end f \<longrightarrow> sendEndPending st"
    by (auto simp: st1 f last_def)
qed

lemma drained_Cons:
  assumes d: "drained r i st1 st' fs"
    and step: "same_rest st st1" "data_of r i f"
      "tag (frame_channel f) (payload f) @ qbytes (sendQueue st1) = qbytes (sendQueue st)"
      "unat (sendCredit st1) + length (payload f) = unat (sendCredit st)"
      "sendEndPending st1 \<longleftrightarrow> sendEndPending st \<and> \<not> is_end f"
      "is_end f \<longrightarrow> sendEndPending st" "is_end f \<longrightarrow> sendQueue st1 = []"
    and stop: "is_end f \<longrightarrow> fs = [] \<and> st' = st1"
  shows "drained r i st st' (f # fs)"
proof -
  note d = drainedD [OF d]
  have f: "is_data f" using step(2) by (auto simp: data_of_def)
  have "same_rest st st'"
    using d(1) step(1) by (simp add: same_rest_def)
  moreover have "ends_ok False (f # fs)"
    using d(8) stop by (cases "is_end f") auto
  moreover have "tagged (f # fs) @ qbytes (sendQueue st') = qbytes (sendQueue st)"
    using f step(3) by (simp flip: d(3))
  moreover have "unat (sendCredit st') + length (tagged (f # fs)) = unat (sendCredit st)"
    using d(4) step(4) f by simp
  moreover have "has_end (f # fs) \<longrightarrow> sendEndPending st \<and> \<not> sendEndPending st' \<and> sendQueue st' = []"
    using d(9,10) step(5,6,7) stop unfolding has_end_simps by metis
  moreover have "sendEndPending st' \<longrightarrow> sendEndPending st"
    using d(10) step(5) by blast
  moreover have "sendEndPending st \<and> \<not> sendEndPending st' \<longrightarrow> has_end (f # fs)"
    using d(11) step(5) unfolding has_end_simps by blast
  moreover have "\<forall>f' \<in> set (f # fs). data_of r i f'"
    using d(2) step(2) by simp
  ultimately show ?thesis
    using d(5,6,7) unfolding drained_def by blast
qed

lemma flush_loop_drained:
  assumes "segments_ok r (sendQueue st)" "sendBytes st = length (qbytes (sendQueue st))"
    "flush_loop i st = (st', fs)"
  shows "drained r i st st' fs"
  using assms
proof (induction i st arbitrary: fs rule: flush_loop.induct)
  case (1 i st)
  show ?case
  proof (cases "sendQueue st \<noteq> [] \<and> sendCredit st > 0")
    case False
    then have "flush_loop i st = (st, [])" by (auto simp: flush_loop.simps [of i st])
    with 1 False show ?thesis by (auto intro!: drained_refl simp: word_gt_0)
  next
    case True
    obtain st1 f where o: "flush_once i st = (st1, f)" by (cases "flush_once i st")
    obtain fs' where fs: "flush_loop i st1 = (st', fs')" "fs = f # fs'"
      using "1.prems"(3) True by (auto simp: flush_loop.simps [of i st] o split: prod.splits)
    note step = flush_once_step [OF "1.prems"(1,2) _ o]
    have ih: "drained r i st1 st' fs'"
      using "1.IH" [OF True o [symmetric] refl _ _ fs(1)] step(5,6) True by blast
    have stop: "is_end f \<longrightarrow> fs' = [] \<and> st' = st1"
      using step(7) fs(1) True by (auto simp: flush_loop.simps [of i st1])
    show ?thesis
      unfolding fs(2) using step True by (intro drained_Cons [OF ih _ _ _ _ _ _ _ stop]) blast+
  qed
qed

lemma drained_end:
  assumes "drained r i st st1 fs" "sendQueue st1 = []" "sendEndPending st1"
  shows "drained r i st (st1\<lparr>sendEndPending := False\<rparr>) (fs @ [data_frame i Stdout True []])"
proof -
  note d = drainedD [OF assms(1)]
  have "\<not> has_end fs" "sendEndPending st" using d(9,10) assms(3) by blast+
  then show ?thesis
    using d assms(2) unfolding drained_def same_rest_def
    by (auto simp: ends_ok_append data_of_def)
qed

lemma sent_all: "\<not> protocolFailed s \<Longrightarrow> concat (map (send s) fs) = map Write fs"
  by (induction fs) (auto simp: send_def)

lemma flushStream_spec:
  assumes "segments_ok r (sendQueue st)" "sendBytes st = length (qbytes (sendQueue st))" "\<not> protocolFailed s"
  obtains st2 fs cbs where "drained r i st st2 fs" "sendEndPending st2 \<longrightarrow> sendQueue st2 \<noteq> []"
    "sendQueue st = [] \<and> \<not> sendEndPending st \<longrightarrow> fs = []"
    "flushStream s i st =
      (if exitPending st \<and> sendQueue st2 = []
       then (closeLocally s i (peerDataClosed st), map Write fs @ [Write (exit_frame i (exitStatus st))])
       else (s\<lparr>streams := (streams s)(i \<mapsto> st2)\<rparr>, map Write fs @ cbs))"
    "cbs = [] \<or> cbs = [Call (OnWritable i)]"
proof -
  obtain st1 fs where l: "flush_loop i st = (st1, fs)" by (cases "flush_loop i st")
  note d = flush_loop_drained [OF assms(1,2) l]
  define e where "e \<longleftrightarrow> sendQueue st1 = [] \<and> sendEndPending st1"
  define st2 where "st2 = (if e then st1\<lparr>sendEndPending := False\<rparr> else st1)"
  define gs where "gs = fs @ (if e then [data_frame i Stdout True []] else [])"
  have d2: "drained r i st st2 gs"
    using d drained_end [OF d] by (simp add: st2_def gs_def e_def)
  have rest: "exitPending st2 = exitPending st" "peerDataClosed st2 = peerDataClosed st" "exitStatus st2 = exitStatus st"
    using drainedD(1) [OF d2] by (simp_all add: same_rest_def)
  have e2: "sendEndPending st2 \<longrightarrow> sendQueue st2 \<noteq> []" by (auto simp: st2_def e_def)
  define cbs where "cbs = (if sendBytes st \<ge> unat (initialWindow s) \<and> sendBytes st2 < unat (initialWindow s) \<and>
      hasWritableCb s then [Call (OnWritable i)] else [])"
  have "flushStream s i st =
      (if exitPending st \<and> sendQueue st2 = []
       then (closeLocally s i (peerDataClosed st), map Write gs @ [Write (exit_frame i (exitStatus st))])
       else (s\<lparr>streams := (streams s)(i \<mapsto> st2)\<rparr>, map Write gs @ cbs))"
  proof -
    have "flushStream s i st =
      (if sendQueue st2 = [] \<and> \<not> sendEndPending st2 \<and> exitPending st2
       then (closeLocally s i (peerDataClosed st2), map Write gs @ send s (exit_frame i (exitStatus st2)))
       else (s\<lparr>streams := (streams s)(i \<mapsto> st2)\<rparr>, map Write gs @ cbs))"
      unfolding flushStream_def l Let_def prod.case e_def [symmetric] st2_def [symmetric] gs_def [symmetric]
        sent_all [OF assms(3)] cbs_def by (rule refl)
    then show ?thesis using rest e2 assms(3) by (auto simp: send_def)
  qed
  moreover have "sendQueue st = [] \<and> \<not> sendEndPending st \<longrightarrow> gs = []"
    using l by (auto simp: flush_loop.simps [of i st] gs_def e_def)
  ultimately show thesis using that [OF d2 e2] by (auto simp: cbs_def)
qed

end
