(* ===== verification/Session_Flow.thy ===== *)
theory Session_Flow
  imports Session "HOL-Library.Sublist"
begin

text \<open>
  Two sessions, a controller and a node, wired to each other by two reliable, ordered channels: the
  loopback of \<open>include/psx/transport/session.hpp\<close>.  The applications at both ends may call any
  operation at any time; frames are delivered one at a time in any interleaving.  Here are the
  system and one direction of one stream: the account of its bytes and of its credit, and what
  sending, granting and receiving do to it.
\<close>

subsection \<open>The system\<close>

datatype api =
    ApiOpen open_request | ApiSend u32 string bool channel | ApiConsume u32 u32
  | ApiExit u32 exit_status | ApiPing | ApiGoAway

fun api_exec :: "session \<Rightarrow> api \<Rightarrow> session \<times> effect list" where
  "api_exec s (ApiOpen r) = (let (s', effs, i) = s_open s r in (s', effs))"
| "api_exec s (ApiSend i b e ch) = sendData s i b e ch"
| "api_exec s (ApiConsume i n) = consume s i n"
| "api_exec s (ApiExit i st) = sendExit s i st"
| "api_exec s ApiPing = s_ping s"
| "api_exec s ApiGoAway = goAway s"

fun sent :: "effect list \<Rightarrow> frame list" where
  "sent [] = []"
| "sent (Write f # es) = f # sent es"
| "sent (Call c # es) = sent es"

text \<open>Bytes handed to the application, and bytes accepted from it, for one stream.\<close>

fun got :: "u32 \<Rightarrow> effect list \<Rightarrow> (channel \<times> char) list" where
  "got i [] = []"
| "got i (Call (OnData j b e ch) # es) = (if i = j then tag ch b else []) @ got i es"
| "got i (_ # es) = got i es"

fun accepted :: "session \<Rightarrow> api \<Rightarrow> u32 \<Rightarrow> (channel \<times> char) list" where
  "accepted s (ApiSend j b e ch) i = (if i = j \<and> accepts_data s j ch then tag ch b else [])"
| "accepted s _ i = []"

type_synonym log = "u32 \<Rightarrow> (channel \<times> char) list"

record link =
  ctl :: session
  node :: session
  c2n :: "frame list"
  n2c :: "frame list"
  c_sent :: log
  n_got :: log
  n_sent :: log
  c_got :: log

definition poison :: "session \<Rightarrow> unit result \<Rightarrow> session" where
  "poison s r = (if isl r then s\<lparr>protocolFailed := True\<rparr> else s)"

definition ctl_call :: "link \<Rightarrow> api \<Rightarrow> link" where
  "ctl_call l a = (let (s, effs) = api_exec (ctl l) a in
     l\<lparr>ctl := s, c2n := c2n l @ sent effs, c_sent := (\<lambda>i. c_sent l i @ accepted (ctl l) a i)\<rparr>)"

definition node_call :: "link \<Rightarrow> api \<Rightarrow> link" where
  "node_call l a = (let (s, effs) = api_exec (node l) a in
     l\<lparr>node := s, n2c := n2c l @ sent effs, n_sent := (\<lambda>i. n_sent l i @ accepted (node l) a i)\<rparr>)"

text \<open>
  One whole frame arrives and is dispatched; an error poisons the session, as \<open>receive\<close> does it.  The
  bytes on the wire, the chunks they come in and the decoder with its frame limit are added by
  \<open>Session_Wire\<close>, which shows that \<open>receive\<close> makes exactly these steps.
\<close>

definition to_node :: "link \<Rightarrow> link" where
  "to_node l = (let q = tl (c2n l) in
     if protocolFailed (node l) then l\<lparr>c2n := q\<rparr>
     else let (s, effs, r) = dispatch (node l) (hd (c2n l)) in
       l\<lparr>node := poison s r, c2n := q, n2c := n2c l @ sent effs, n_got := (\<lambda>i. n_got l i @ got i effs)\<rparr>)"

definition to_ctl :: "link \<Rightarrow> link" where
  "to_ctl l = (let q = tl (n2c l) in
     if protocolFailed (ctl l) then l\<lparr>n2c := q\<rparr>
     else let (s, effs, r) = dispatch (ctl l) (hd (n2c l)) in
       l\<lparr>ctl := poison s r, n2c := q, c2n := c2n l @ sent effs, c_got := (\<lambda>i. c_got l i @ got i effs)\<rparr>)"

text \<open>
  Every interleaving of calls and deliveries, except that the node does not announce GOAWAY: an
  OPEN that crosses the node's GOAWAY is refused by the code (shown below).
\<close>

inductive link_step :: "link \<Rightarrow> link \<Rightarrow> bool" where
  ctl_calls: "link_step l (ctl_call l a)"
| node_calls: "a \<noteq> ApiGoAway \<Longrightarrow> link_step l (node_call l a)"
| node_receives: "c2n l \<noteq> [] \<Longrightarrow> link_step l (to_node l)"
| ctl_receives: "n2c l \<noteq> [] \<Longrightarrow> link_step l (to_ctl l)"

inductive_cases link_stepE: "link_step l l'"

definition link_start :: "u32 \<Rightarrow> bool \<Rightarrow> bool \<Rightarrow> link" where
  "link_start w cb nb = \<lparr>
     ctl = (Session Controller w)\<lparr>hasWritableCb := cb\<rparr>,
     node = (Session Node w)\<lparr>hasWritableCb := nb\<rparr>,
     c2n = [], n2c = [], c_sent = (\<lambda>i. []), n_got = (\<lambda>i. []), n_sent = (\<lambda>i. []), c_got = (\<lambda>i. [])\<rparr>"

lemma prefix_append_right: "prefix a b \<Longrightarrow> prefix a (b @ c)"
  by (auto simp: prefix_def)

subsection \<open>One direction of one stream\<close>

definition sstream_base :: "nat \<Rightarrow> role \<Rightarrow> sstream \<Rightarrow> bool" where
  "sstream_base w r st \<longleftrightarrow> credit_ok (recvWindow st) \<and> unat (window (recvWindow st)) = w \<and>
     (exitPending st \<longrightarrow> r = Node \<and> localDataClosed st)"

text \<open>Between flushes: bytes wait only for credit, and END_STREAM waits only behind bytes.\<close>

definition sstream_ok :: "nat \<Rightarrow> role \<Rightarrow> sstream \<Rightarrow> bool" where
  "sstream_ok w r st \<longleftrightarrow>
     sstream_base w r st \<and> segments_ok r (sendQueue st) \<and> sendBytes st = length (qbytes (sendQueue st)) \<and>
     (sendQueue st \<noteq> [] \<longrightarrow> sendCredit st = 0) \<and>
     (sendEndPending st \<longrightarrow> localDataClosed st \<and> sendQueue st \<noteq> [])"

abbreviation owed :: "sstream \<Rightarrow> nat" where
  "owed st \<equiv> credit_owed (recvWindow st)"

abbreviation cr :: "sstream \<Rightarrow> nat" where
  "cr st \<equiv> unat (sendCredit st)"

definition ends :: "sstream option \<Rightarrow> frame list \<Rightarrow> bool \<Rightarrow> bool" where
  "ends S q p \<longleftrightarrow> ends_ok p q \<and> (p \<or> has_end q \<longrightarrow> (\<forall>st. S = Some st \<longrightarrow> quiet st))"

text \<open>
  The direction from sender \<open>S\<close> through the frames \<open>q\<close> to receiver \<open>R\<close>, with \<open>u\<close> credit on its way
  back: all credit is accounted for, and so are all bytes.
\<close>

definition half :: "nat \<Rightarrow> sstream \<Rightarrow> frame list \<Rightarrow> sstream \<Rightarrow> nat \<Rightarrow>
    (channel \<times> char) list \<Rightarrow> (channel \<times> char) list \<Rightarrow> bool" where
  "half w S q R u s g \<longleftrightarrow> ends (Some S) q (peerDataClosed R) \<and>
     cr S + length (tagged q) + owed R + u = w \<and> s = g @ tagged q @ qbytes (sendQueue S)"

definition mid :: "role \<Rightarrow> u32 \<Rightarrow> frame \<Rightarrow> bool" where
  "mid r i f \<longleftrightarrow> data_of r i f \<or> (\<exists>d. d \<noteq> 0 \<and> f = update_frame i d)"

text \<open>What sending does to a stream: \<open>new\<close> bytes are taken from the application.\<close>

definition pushed :: "nat \<Rightarrow> role \<Rightarrow> u32 \<Rightarrow> sstream \<Rightarrow> sstream \<Rightarrow> frame list \<Rightarrow> (channel \<times> char) list \<Rightarrow> bool" where
  "pushed w r i st st' fs new \<longleftrightarrow>
     sstream_ok w r st' \<and> (\<forall>f \<in> set fs. data_of r i f) \<and>
     tagged fs @ qbytes (sendQueue st') = qbytes (sendQueue st) @ new \<and>
     cr st' + length (tagged fs) = cr st \<and>
     ends_ok False fs \<and> (has_end fs \<longrightarrow> quiet st') \<and> (quiet st \<longrightarrow> fs = [] \<and> quiet st') \<and>
     recvWindow st' = recvWindow st \<and> peerDataClosed st' = peerDataClosed st"

lemma updates_data: "\<forall>f \<in> set fs. data_of r i f \<Longrightarrow> updates fs = 0"
  by (induction fs) (auto simp: data_of_def)

lemma mids_data: "\<forall>f \<in> set fs. data_of r i f \<Longrightarrow> \<forall>f \<in> set fs. mid r i f"
  by (auto simp: mid_def)

lemma half_push:
  assumes "half w S q R u s g" "pushed w r i S S' fs new"
  shows "half w S' (q @ fs) R u (s @ new) g"
proof -
  have p: "tagged fs @ qbytes (sendQueue S') = qbytes (sendQueue S) @ new"
    "cr S' + length (tagged fs) = cr S" "ends_ok False fs" "has_end fs \<longrightarrow> quiet S'"
    "quiet S \<longrightarrow> fs = [] \<and> quiet S'"
    using assms(2) by (auto simp: pushed_def)
  have "ends (Some S') (q @ fs) (peerDataClosed R)"
    using assms(1) p(3,4,5) by (cases "quiet S") (auto simp: half_def ends_def ends_ok_append)
  then show ?thesis
    using assms(1) p(1,2) by (simp add: half_def)
qed

lemma half_append_update:
  "half w S (q @ [update_frame i d]) R u s g \<longleftrightarrow> half w S q R u s g"
  by (simp add: half_def ends_def ends_ok_append)

lemma half_skip_update:
  "half w S (update_frame i d # q) R u s g \<longleftrightarrow> half w S q R u s g"
  by (simp add: half_def ends_def)

lemma half_grant:
  assumes "half w S q R u s g" "owed R' + d = owed R" "peerDataClosed R' = peerDataClosed R"
  shows "half w S q R' (u + d) s g"
  using assms by (simp add: half_def)

lemma half_credit:
  assumes "half w S q R (unat d + u) s g" "w < 2 ^ 31"
  shows "half w (S\<lparr>sendCredit := sendCredit S + d\<rparr>) q R u s g"
    "cr (S\<lparr>sendCredit := sendCredit S + d\<rparr>) = cr S + unat d" "cr S + unat d \<le> unat kMaxStreamWindow"
proof -
  have le: "cr S + unat d \<le> w" using assms(1) by (simp add: half_def)
  then have "cr S + unat d < 2 ^ 32" using assms(2) by simp
  then show c: "cr (S\<lparr>sendCredit := sendCredit S + d\<rparr>) = cr S + unat d" by (simp add: unat_plus_small)
  show "half w (S\<lparr>sendCredit := sendCredit S + d\<rparr>) q R u s g"
    using assms(1) c by (auto simp: half_def ends_def quiet_def)
  show "cr S + unat d \<le> unat kMaxStreamWindow" using le assms(2) by (simp add: kMaxStreamWindow_def)
qed

text \<open>A receiver whose window has room accepts the next DATA frame.\<close>

lemma onData_accepts:
  assumes "sstream_ok w r R" "length b + owed R \<le> w"
  obtains cw where "cw_onData (recvWindow R) (of_nat (length b)) = (cw, True)"
    "credit_ok cw" "credit_owed cw = owed R + length b" "unat (window cw) = w"
proof -
  have ok: "credit_ok (recvWindow R)" "unat (window (recvWindow R)) = w"
    using assms(1) by (simp_all add: sstream_ok_def sstream_base_def)
  have "length b < 2 ^ 32" using assms(2) ok(2) u32_bound [of "window (recvWindow R)"] by simp
  then have l: "unat (of_nat (length b) :: u32) = length b" by (simp add: unat_of_nat)
  have "snd (cw_onData (recvWindow R) (of_nat (length b)))"
    using ok assms(2) l by (simp add: cw_onData_accepts credit_ok_def credit_owed_def)
  then obtain cw where cw: "cw_onData (recvWindow R) (of_nat (length b)) = (cw, True)"
    by (cases "cw_onData (recvWindow R) (of_nat (length b))") simp
  then show thesis
    using cw_onData_ledger [OF ok(1), of "of_nat (length b)"] cw_onData_spec(4) [OF _ cw] ok l
    by (intro that [OF cw]) (auto simp: credit_ok_def)
qed

lemma half_deliver:
  assumes "half w S (data_frame i ch e b # q) R u s g" "credit_owed cw = owed R + length b"
  shows "half w S q (R\<lparr>recvWindow := cw, peerDataClosed := e\<rparr>) u s (g @ tag ch b)"
  using assms by (auto simp: half_def ends_def)

lemma half_head:
  assumes "half w S (data_frame i ch e b # q) R u s g"
  shows "\<not> peerDataClosed R" "length b + owed R \<le> w"
  using assms by (auto simp: half_def ends_def)

subsection \<open>Sending on one stream\<close>

lemma drained_pushed:
  assumes d: "drained r i st1 st' fs" "sendEndPending st' \<longrightarrow> sendQueue st' \<noteq> []"
    and fs: "sendQueue st1 = [] \<and> \<not> sendEndPending st1 \<longrightarrow> fs = []"
    and ok: "sstream_base w r st" "recvWindow st1 = recvWindow st" "peerDataClosed st1 = peerDataClosed st"
      "exitPending st1 = exitPending st" "localDataClosed st \<longrightarrow> localDataClosed st1"
      "sendEndPending st1 \<longrightarrow> localDataClosed st1"
      "quiet st \<longrightarrow> quiet st1" "cr st1 = cr st" "qbytes (sendQueue st1) = qbytes (sendQueue st) @ new"
  shows "pushed w r i st st' fs new"
proof -
  note D = drainedD [OF d(1)]
  have rest: "recvWindow st' = recvWindow st1" "exitPending st' = exitPending st1"
    "localDataClosed st' = localDataClosed st1" "peerDataClosed st' = peerDataClosed st1"
    using D(1) by (simp_all add: same_rest_def)
  have "sstream_ok w r st'"
    using D(5,6,7,10) d(2) ok(1-6) rest by (auto simp: sstream_ok_def sstream_base_def)
  moreover have "has_end fs \<longrightarrow> quiet st'"
    using D(9) ok(6) rest by (auto simp: quiet_def)
  moreover have "quiet st1 \<longrightarrow> fs = [] \<and> quiet st'"
    using fs D(3,6,10) rest by (cases "sendQueue st'") (auto simp: quiet_def segments_ok_def tag_def)
  moreover have "tagged fs @ qbytes (sendQueue st') = qbytes (sendQueue st) @ new"
    using D(3) ok(9) by simp
  moreover have "cr st' + length (tagged fs) = cr st" using D(4) ok(8) by simp
  ultimately show ?thesis
    using D(2,8) rest ok(2,3,7) unfolding pushed_def by auto
qed

lemma sent_simps [simp]:
  "sent (map Write fs) = fs" "sent (es @ es') = sent es @ sent es'"
  by (induction fs, simp_all) (induction es rule: sent.induct, simp_all)

lemma got_simps [simp]:
  "got i (map Write fs) = []" "got i (es @ es') = got i es @ got i es'"
  by (induction fs, simp_all) (induction i es rule: got.induct, simp_all)

lemma got_writable [simp]: "cbs = [] \<or> cbs = [Call (OnWritable i)] \<Longrightarrow> got j cbs = [] \<and> sent cbs = []"
  by auto

text \<open>
  Flushing a stream of a session: either the stream goes on, or its deferred EXIT went out behind
  the last byte and the stream is closed.
\<close>

lemma flushStream_pushed:
  assumes "\<not> protocolFailed s" "segments_ok r (sendQueue st1)" "sendBytes st1 = length (qbytes (sendQueue st1))"
    "sstream_base w r st" "recvWindow st1 = recvWindow st" "peerDataClosed st1 = peerDataClosed st"
      "exitPending st1 = exitPending st" "localDataClosed st \<longrightarrow> localDataClosed st1"
      "sendEndPending st1 \<longrightarrow> localDataClosed st1"
      "quiet st \<longrightarrow> quiet st1" "cr st1 = cr st" "qbytes (sendQueue st1) = qbytes (sendQueue st) @ new"
    "flushStream s i st1 = (s', effs)"
  shows "\<exists>st' fs. pushed w r i st st' fs new \<and> (\<forall>j. got j effs = []) \<and>
    (s' = s\<lparr>streams := (streams s)(i \<mapsto> st')\<rparr> \<and> sent effs = fs \<or>
     exitPending st \<and> s' = closeLocally s i (peerDataClosed st) \<and> sendQueue st' = [] \<and>
     sent effs = fs @ [exit_frame i (exitStatus st1)])"
proof -
  obtain st2 fs cbs where f: "drained r i st1 st2 fs" "sendEndPending st2 \<longrightarrow> sendQueue st2 \<noteq> []"
    "sendQueue st1 = [] \<and> \<not> sendEndPending st1 \<longrightarrow> fs = []"
    "flushStream s i st1 =
      (if exitPending st1 \<and> sendQueue st2 = []
       then (closeLocally s i (peerDataClosed st1), map Write fs @ [Write (exit_frame i (exitStatus st1))])
       else (s\<lparr>streams := (streams s)(i \<mapsto> st2)\<rparr>, map Write fs @ cbs))"
    "cbs = [] \<or> cbs = [Call (OnWritable i)]"
    using flushStream_spec [OF assms(2,3,1)] .
  have "pushed w r i st st2 fs new"
    by (rule drained_pushed [OF f(1-3) assms(4-12)])
  moreover have "got j cbs = []" "sent cbs = []" for j using f(5) by auto
  ultimately show ?thesis
    using f(4) assms(13,6,7) by (intro exI [of _ st2] exI [of _ fs]) (auto split: if_splits)
qed

lemma sendData_pushed:
  assumes "\<not> protocolFailed s" "accepts_data s i ch" "streams s i = Some st" "sstream_ok w (srole s) st"
    "sendData s i b e ch = (s', effs)"
  shows "\<exists>st' fs. pushed w (srole s) i st st' fs (tag ch b) \<and> (\<forall>j. got j effs = []) \<and>
    s' = s\<lparr>streams := (streams s)(i \<mapsto> st')\<rparr> \<and> sent effs = fs"
proof -
  define st1 where "st1 = (if b \<noteq> [] then st\<lparr>sendQueue := sendQueue st @ [(ch, b)],
      sendBytes := sendBytes st + length b\<rparr> else st)"
  define st2 where "st2 = (if e then st1\<lparr>localDataClosed := True, sendEndPending := True\<rparr> else st1)"
  have acc: "\<not> localDataClosed st" "\<not> exitPending st" "srole s = Controller \<longrightarrow> ch = Stdout"
    using assms(2,3) by (auto simp: accepts_data_def)
  have "flushStream s i st2 = (s', effs)"
  proof -
    have "the (streams s i) = st" using assms(3) by simp
    then show ?thesis
      using assms(2,5) unfolding sendData_def st1_def st2_def Let_def by (simp only: not_True_eq_False if_False)
  qed
  then have "\<exists>st' fs. pushed w (srole s) i st st' fs (tag ch b) \<and> (\<forall>j. got j effs = []) \<and>
      (s' = s\<lparr>streams := (streams s)(i \<mapsto> st')\<rparr> \<and> sent effs = fs \<or>
       exitPending st \<and> s' = closeLocally s i (peerDataClosed st) \<and> sendQueue st' = [] \<and>
       sent effs = fs @ [exit_frame i (exitStatus st2)])"
    using assms(4) acc
    by (intro flushStream_pushed [OF assms(1)])
      (auto simp: st1_def st2_def sstream_ok_def segments_ok_def quiet_def)
  with acc(2) show ?thesis by blast
qed

lemma update_pushed:
  assumes "\<not> protocolFailed s" "streams s i = Some st" "sstream_ok w (srole s) st" "cr st + unat d < 2 ^ 31"
    "d \<noteq> 0" "dispatch s (update_frame i d) = (s', effs, r)" "i \<noteq> 0"
  shows "r = Inr () \<and> (\<exists>st' fs. pushed w (srole s) i (st\<lparr>sendCredit := sendCredit st + d\<rparr>) st' fs [] \<and>
    (\<forall>j. got j effs = []) \<and>
    (s' = s\<lparr>streams := (streams s)(i \<mapsto> st')\<rparr> \<and> sent effs = fs \<or>
     exitPending st \<and> s' = closeLocally s i (peerDataClosed st) \<and> sendQueue st' = [] \<and>
     (\<exists>ex. sent effs = fs @ [exit_frame i ex])))"
proof -
  define st1 where "st1 = st\<lparr>sendCredit := sendCredit st + d\<rparr>"
  have "unat kMaxStreamWindow = 2 ^ 31 - 1" by (simp add: kMaxStreamWindow_def)
  then have "flushStream s i st1 = (s', effs)" "r = Inr ()"
    using assms(2,4,5,6,7)
    by (auto simp: dispatch_def dispatch_update_def validateStreamFrame_def decodeWindowUpdate_encode
        frame_types st1_def split: prod.splits)
  moreover have "\<exists>st' fs. pushed w (srole s) i st1 st' fs [] \<and> (\<forall>j. got j effs = []) \<and>
      (s' = s\<lparr>streams := (streams s)(i \<mapsto> st')\<rparr> \<and> sent effs = fs \<or>
       exitPending st1 \<and> s' = closeLocally s i (peerDataClosed st1) \<and> sendQueue st' = [] \<and>
       sent effs = fs @ [exit_frame i (exitStatus st1)])"
    if "flushStream s i st1 = (s', effs)"
    using assms(3) that
    by (intro flushStream_pushed [OF assms(1)])
      (auto simp: st1_def sstream_ok_def sstream_base_def quiet_def)
  ultimately show ?thesis by (auto simp: st1_def)
qed

end
