(* ===== verification/Session_Streams.thy ===== *)
theory Session_Streams
  imports Session_Flow
begin

text \<open>
  The life of one stream of the two-session system: unopened, opening, live, exiting, done.  Each
  step of either end moves the stream inside this picture; the theory \<open>Session_Link\<close> puts the
  streams together.
\<close>

subsection \<open>The life of a stream\<close>

text \<open>All that concerns stream \<open>i\<close>, at both ends and in flight.\<close>

record view =
  vc :: "sstream option"
  vn :: "sstream option"
  vl :: "bool option"
  vk :: "bool option"
  va :: "frame list"
  vb :: "frame list"
  v_cs :: "(channel \<times> char) list"
  v_ng :: "(channel \<times> char) list"
  v_ns :: "(channel \<times> char) list"
  v_cg :: "(channel \<times> char) list"

definition proj :: "u32 \<Rightarrow> frame list \<Rightarrow> frame list" where
  "proj i q = filter (\<lambda>f. streamId f = i) q"

definition view :: "link \<Rightarrow> u32 \<Rightarrow> view" where
  "view l i = \<lparr>vc = streams (ctl l) i, vn = streams (node l) i, vl = locallyClosed (node l) i,
     vk = locallyClosed (ctl l) i, va = proj i (c2n l), vb = proj i (n2c l),
     v_cs = c_sent l i, v_ng = n_got l i, v_ns = n_sent l i, v_cg = c_got l i\<rparr>"

lemma view_sel:
  "vc (view l i) = streams (ctl l) i" "vn (view l i) = streams (node l) i"
  "vl (view l i) = locallyClosed (node l) i" "vk (view l i) = locallyClosed (ctl l) i"
  "va (view l i) = proj i (c2n l)" "vb (view l i) = proj i (n2c l)"
  "v_cs (view l i) = c_sent l i" "v_ng (view l i) = n_got l i"
  "v_ns (view l i) = n_sent l i" "v_cg (view l i) = c_got l i"
  by (simp_all add: view_def)

definition v_unopened :: "view \<Rightarrow> bool" where
  "v_unopened v \<longleftrightarrow> v = \<lparr>vc = None, vn = None, vl = None, vk = None, va = [], vb = [],
     v_cs = [], v_ng = [], v_ns = [], v_cg = []\<rparr>"

text \<open>The OPEN is on its way; the controller may already have sent data behind it.\<close>

definition v_opening :: "nat \<Rightarrow> u32 \<Rightarrow> view \<Rightarrow> bool" where
  "v_opening w i v \<longleftrightarrow> (\<exists>sc r q. vc v = Some sc \<and> vn v = None \<and> vl v = None \<and>
     va v = open_frame i r # q \<and> valid_open r \<and> vb v = [] \<and> (\<forall>f \<in> set q. data_of Controller i f) \<and>
     sstream_ok w Controller sc \<and> owed sc = 0 \<and> \<not> peerDataClosed sc \<and>
     (\<forall>sn. owed sn = 0 \<and> \<not> peerDataClosed sn \<longrightarrow> half w sc q sn 0 (v_cs v) []) \<and>
     v_ng v = [] \<and> v_ns v = [] \<and> v_cg v = [])"

text \<open>Both ends have the stream.\<close>

definition live_core :: "nat \<Rightarrow> u32 \<Rightarrow> view \<Rightarrow> sstream \<Rightarrow> sstream \<Rightarrow> bool" where
  "live_core w i v sc sn \<longleftrightarrow> vc v = Some sc \<and> vn v = Some sn \<and> vl v = None \<and>
     (\<forall>f \<in> set (va v). mid Controller i f) \<and> (\<forall>f \<in> set (vb v). mid Node i f) \<and>
     half w sc (va v) sn (updates (vb v)) (v_cs v) (v_ng v) \<and>
     half w sn (vb v) sc (updates (va v)) (v_ns v) (v_cg v)"

definition v_live :: "nat \<Rightarrow> u32 \<Rightarrow> view \<Rightarrow> bool" where
  "v_live w i v \<longleftrightarrow> (\<exists>sc sn. live_core w i v sc sn \<and> sstream_ok w Controller sc \<and> sstream_ok w Node sn)"

text \<open>The node has closed the stream; the EXIT is on its way behind all of the node's output.\<close>

definition exiting_core :: "nat \<Rightarrow> u32 \<Rightarrow> view \<Rightarrow> sstream \<Rightarrow> bool" where
  "exiting_core w i v sc \<longleftrightarrow> (\<exists>closed q ex. vc v = Some sc \<and> vn v = None \<and> vl v = Some closed \<and>
     (\<forall>f \<in> set (va v). mid Controller i f) \<and> vb v = q @ [exit_frame i ex] \<and> (\<forall>f \<in> set q. mid Node i f) \<and>
     ends (Some sc) (va v) closed \<and> ends None q (peerDataClosed sc) \<and>
     cr sc + updates q \<le> w \<and> length (tagged q) + owed sc \<le> w \<and> v_ns v = v_cg v @ tagged q \<and>
     prefix (v_ng v) (v_cs v))"

definition v_exiting :: "nat \<Rightarrow> u32 \<Rightarrow> view \<Rightarrow> bool" where
  "v_exiting w i v \<longleftrightarrow> (\<exists>sc. exiting_core w i v sc \<and> sstream_ok w Controller sc)"

text \<open>Both ends have closed the stream; frames of the controller that crossed the EXIT may remain.\<close>

definition v_done :: "u32 \<Rightarrow> view \<Rightarrow> bool" where
  "v_done i v \<longleftrightarrow> (\<exists>closed. vc v = None \<and> vn v = None \<and> vl v = Some closed \<and>
     (\<forall>f \<in> set (va v). mid Controller i f) \<and> vb v = [] \<and> ends None (va v) closed \<and> v_ns v = v_cg v \<and>
     prefix (v_ng v) (v_cs v))"

text \<open>Stream ids count from one; after the last one the counters are zero.\<close>

definition hi :: "u32 \<Rightarrow> nat" where
  "hi n = (if n = 0 then 2 ^ 32 else unat n)"

definition stream_ok :: "nat \<Rightarrow> link \<Rightarrow> u32 \<Rightarrow> bool" where
  "stream_ok w l i \<longleftrightarrow> vk (view l i) = None \<and>
     (if unat i \<ge> hi (nextStreamId (ctl l)) then v_unopened (view l i)
      else if unat i \<ge> hi (nextPeerStreamId (node l)) then v_opening w i (view l i)
      else v_live w i (view l i) \<or> v_exiting w i (view l i) \<or> v_done i (view l i))"

subsection \<open>The invariant\<close>

text \<open>The OPEN and connection frames in flight.\<close>

definition control :: "frame list \<Rightarrow> frame list" where
  "control q = filter (\<lambda>f. is_open f \<or> streamId f = 0) q"

definition conn_frames :: "frame list \<Rightarrow> frame set \<Rightarrow> bool" where
  "conn_frames q F \<longleftrightarrow> (\<forall>f \<in> set (control q). streamId f = 0 \<longrightarrow> f \<in> F)"

fun drain_ok :: "bool \<Rightarrow> frame list \<Rightarrow> bool" where
  "drain_ok g [] = True"
| "drain_ok g (f # q) = ((is_open f \<longrightarrow> \<not> g) \<and> drain_ok (g \<or> is_goaway f) q)"

definition globals :: "session \<Rightarrow> role \<times> u32 \<times> u32 \<times> u32 \<times> bool \<times> bool \<times> bool" where
  "globals s = (srole s, nextStreamId s, nextPeerStreamId s, initialWindow s, sentGoAway s,
     receivedGoAway s, protocolFailed s)"

definition glob_ok :: "nat \<Rightarrow> link \<Rightarrow> bool" where
  "glob_ok w l \<longleftrightarrow>
     srole (ctl l) = Controller \<and> srole (node l) = Node \<and>
     unat (initialWindow (ctl l)) = w \<and> unat (initialWindow (node l)) = w \<and>
     \<not> protocolFailed (ctl l) \<and> \<not> protocolFailed (node l) \<and>
     \<not> sentGoAway (node l) \<and> \<not> receivedGoAway (ctl l) \<and>
     conn_frames (c2n l) {conn_frame FT_Ping, conn_frame FT_Pong, conn_frame FT_GoAway} \<and>
     conn_frames (n2c l) {conn_frame FT_Ping, conn_frame FT_Pong} \<and>
     1 \<le> hi (nextPeerStreamId (node l)) \<and> hi (nextPeerStreamId (node l)) \<le> hi (nextStreamId (ctl l)) \<and>
     map (unat \<circ> streamId) (filter is_open (control (c2n l))) =
       [hi (nextPeerStreamId (node l))..<hi (nextStreamId (ctl l))] \<and>
     drain_ok (receivedGoAway (node l)) (control (c2n l)) \<and>
     (receivedGoAway (node l) \<or> (\<exists>f \<in> set (control (c2n l)). is_goaway f) \<longrightarrow> sentGoAway (ctl l))"

definition link_ok :: "nat \<Rightarrow> link \<Rightarrow> bool" where
  "link_ok w l \<longleftrightarrow> glob_ok w l \<and> streams (ctl l) 0 = None \<and> streams (node l) 0 = None \<and>
     (\<forall>i. i \<noteq> 0 \<longrightarrow> stream_ok w l i)"

lemma proj_simps [simp]:
  "proj i [] = []" "proj i (q @ q') = proj i q @ proj i q'"
  "proj i (f # q) = (if streamId f = i then f # proj i q else proj i q)"
  by (simp_all add: proj_def)

lemma control_simps [simp]:
  "control [] = []" "control (q @ q') = control q @ control q'"
  "control (f # q) = (if is_open f \<or> streamId f = 0 then f # control q else control q)"
  by (simp_all add: control_def)

text \<open>A step that concerns a single stream.\<close>

lemma local_step:
  assumes "link_ok w l" "i \<noteq> 0" "globals (ctl l') = globals (ctl l)" "globals (node l') = globals (node l)"
    "\<And>j. j \<noteq> i \<Longrightarrow> view l' j = view l j"
    "control (c2n l') = control (c2n l)" "control (n2c l') = control (n2c l)" "stream_ok w l' i"
  shows "link_ok w l'"
proof -
  have "glob_ok w l'"
    using assms(1,3,4,6,7) by (simp add: link_ok_def glob_ok_def globals_def conn_frames_def)
  moreover have "view l' 0 = view l 0" using assms(2,5) by metis
  then have "streams (ctl l') 0 = None" "streams (node l') 0 = None"
    using assms(1) by (simp_all add: link_ok_def view_def)
  moreover have "stream_ok w l' j" if "j \<noteq> 0" for j
    using assms(1,3,4,5,8) that by (cases "j = i") (simp_all add: link_ok_def stream_ok_def globals_def)
  ultimately show ?thesis by (simp add: link_ok_def)
qed

text \<open>Frames of one stream do not show in the others, nor among the control frames.\<close>

definition frames_of :: "u32 \<Rightarrow> frame list \<Rightarrow> bool" where
  "frames_of i fs \<longleftrightarrow> (\<forall>f \<in> set fs. streamId f = i \<and> \<not> is_open f)"

lemma proj_frames_of:
  "frames_of i fs \<Longrightarrow> proj i fs = fs" "frames_of i fs \<Longrightarrow> j \<noteq> i \<Longrightarrow> proj j fs = []"
  "frames_of i fs \<Longrightarrow> i \<noteq> 0 \<Longrightarrow> control fs = []"
  by (auto simp: frames_of_def proj_def control_def filter_id_conv filter_empty_conv)

lemma frames_of_mids: "\<forall>f \<in> set fs. mid r i f \<Longrightarrow> frames_of i fs"
  by (auto simp: frames_of_def mid_def data_of_def)

lemma frames_of_simps [simp]:
  "frames_of i []" "frames_of i (fs @ gs) \<longleftrightarrow> frames_of i fs \<and> frames_of i gs"
  "frames_of i (f # fs) \<longleftrightarrow> streamId f = i \<and> \<not> is_open f \<and> frames_of i fs"
  by (auto simp: frames_of_def)

subsection \<open>Steps of one stream\<close>

lemma pushedD:
  assumes "pushed w r i st st' fs new"
  shows "sstream_ok w r st'" "\<forall>f \<in> set fs. data_of r i f" "cr st' + length (tagged fs) = cr st"
    "recvWindow st' = recvWindow st" "peerDataClosed st' = peerDataClosed st" "updates fs = 0"
    "\<forall>f \<in> set fs. mid r i f" "frames_of i fs"
proof -
  show d: "\<forall>f \<in> set fs. data_of r i f" using assms by (simp add: pushed_def)
  then show "updates fs = 0" "\<forall>f \<in> set fs. mid r i f" by (rule updates_data, rule mids_data)
  then show "frames_of i fs" by (simp add: frames_of_mids)
qed (use assms in \<open>simp_all add: pushed_def\<close>)

lemma ends_push:
  assumes "ends (Some S) q p" "pushed w r i S S' fs new"
  shows "ends (Some S') (q @ fs) p" "ends None (q @ fs) p"
  using assms by (cases "quiet S"; auto simp: pushed_def ends_def ends_ok_append)+

lemma half_cong_R:
  "owed R' = owed R \<Longrightarrow> peerDataClosed R' = peerDataClosed R \<Longrightarrow> half w S q R' u s g = half w S q R u s g"
  by (simp add: half_def)

text \<open>The controller sends.\<close>

lemma opening_push:
  assumes "v_opening w i v" "vc v = Some st" "pushed w Controller i st st' fs new"
  shows "v_opening w i (v\<lparr>vc := Some st', va := va v @ fs, v_cs := v_cs v @ new\<rparr>)"
proof -
  note P = pushedD [OF assms(3)]
  obtain r q where r: "va v = open_frame i r # q" "valid_open r" "\<forall>f \<in> set q. data_of Controller i f"
    "vn v = None" "vl v = None" "vb v = []" "owed st = 0" "\<not> peerDataClosed st"
    "\<forall>sn. owed sn = 0 \<and> \<not> peerDataClosed sn \<longrightarrow> half w st q sn 0 (v_cs v) []"
    "v_ng v = []" "v_ns v = []" "v_cg v = []"
    using assms(1,2) unfolding v_opening_def by auto
  show ?thesis
    unfolding v_opening_def
    using r P(1,2,4,5) half_push [OF _ assms(3)]
    by (intro exI [of _ st'] exI [of _ r] exI [of _ "q @ fs"]) auto
qed

lemma live_push_ctl:
  assumes "live_core w i v st sn" "pushed w Controller i st st' fs new"
  shows "live_core w i (v\<lparr>vc := Some st', va := va v @ fs, v_cs := v_cs v @ new\<rparr>) st' sn"
proof -
  note P = pushedD [OF assms(2)]
  have h: "half w st (va v) sn (updates (vb v)) (v_cs v) (v_ng v)"
    using assms(1) unfolding live_core_def by blast
  show ?thesis
    using assms(1) P(6,7) half_push [OF h assms(2)] half_cong_R [of st' st] P(4,5)
    unfolding live_core_def by auto
qed

lemma exiting_push:
  assumes "exiting_core w i v st" "pushed w Controller i st st' fs new"
  shows "exiting_core w i (v\<lparr>vc := Some st', va := va v @ fs, v_cs := v_cs v @ new\<rparr>) st'"
proof -
  note P = pushedD [OF assms(2)]
  show ?thesis
    using assms(1) P(3,4,5,7) ends_push [OF _ assms(2)] unfolding exiting_core_def by auto
qed

text \<open>The node sends; with its deferred EXIT it also closes the stream.\<close>

lemma live_push_node:
  assumes "live_core w i v sc st" "pushed w Node i st st' fs new"
  shows "live_core w i (v\<lparr>vn := Some st', vb := vb v @ fs, v_ns := v_ns v @ new\<rparr>) sc st'"
proof -
  note P = pushedD [OF assms(2)]
  have h: "half w st (vb v) sc (updates (va v)) (v_ns v) (v_cg v)"
    using assms(1) unfolding live_core_def by blast
  show ?thesis
    using assms(1) P(6,7) half_push [OF h assms(2)] half_cong_R [of st' st] P(4,5)
    unfolding live_core_def by auto
qed

lemma live_exit:
  assumes "live_core w i v sc st" "sendQueue st = []"
  shows "exiting_core w i (v\<lparr>vn := None, vl := Some (peerDataClosed st), vb := vb v @ [exit_frame i ex]\<rparr>) sc"
  using assms unfolding live_core_def exiting_core_def half_def ends_def by auto

text \<open>Credit is granted.\<close>

lemma recv_ok:
  assumes "sstream_ok w r st" "credit_ok cw" "unat (window cw) = w"
  shows "sstream_ok w r (st\<lparr>recvWindow := cw, peerDataClosed := p\<rparr>)" "sstream_ok w r (st\<lparr>recvWindow := cw\<rparr>)"
  using assms by (auto simp: sstream_ok_def sstream_base_def)

lemma half_S_recv [simp]:
  "half w (S\<lparr>recvWindow := cw\<rparr>) q R u s g = half w S q R u s g"
  "half w (S\<lparr>recvWindow := cw, peerDataClosed := p\<rparr>) q R u s g = half w S q R u s g"
  by (simp_all add: half_def ends_def quiet_def)

lemma ends_S_recv [simp]:
  "ends (Some (S\<lparr>recvWindow := cw\<rparr>)) q p = ends (Some S) q p"
  "ends (Some (S\<lparr>recvWindow := cw, peerDataClosed := c\<rparr>)) q p = ends (Some S) q p"
  by (simp_all add: ends_def quiet_def)

definition grants :: "u32 \<Rightarrow> u32 \<Rightarrow> frame list" where
  "grants i d = (if d > 0 then [update_frame i d] else [])"

lemma grants_facts [simp]:
  "tagged (grants i d) = []" "updates (grants i d) = unat d" "ends_ok p (q @ grants i d) = ends_ok p q"
  "has_end (grants i d) = False" "\<forall>f \<in> set (grants i d). mid r i f" "frames_of i (grants i d)"
  "half w S (q @ grants i d) R u s g = half w S q R u s g" "ends S0 (q @ grants i d) p = ends S0 q p"
  by (auto simp: grants_def ends_ok_append mid_def word_gt_0 half_def ends_def)

lemma grants_mid [simp]: "f \<in> set (grants i d) \<Longrightarrow> mid r i f"
  using grants_facts(5) by blast

lemma live_grant_ctl:
  assumes "live_core w i v st sn" "credit_owed cw + unat d = owed st"
  shows "live_core w i (v\<lparr>vc := Some (st\<lparr>recvWindow := cw\<rparr>), va := va v @ grants i d\<rparr>) (st\<lparr>recvWindow := cw\<rparr>) sn"
proof -
  have h: "half w sn (vb v) st (updates (va v)) (v_ns v) (v_cg v)"
    using assms(1) unfolding live_core_def by blast
  have "half w sn (vb v) (st\<lparr>recvWindow := cw\<rparr>) (updates (va v) + unat d) (v_ns v) (v_cg v)"
    by (rule half_grant [OF h]) (simp_all add: assms(2))
  with assms(1) show ?thesis unfolding live_core_def by auto
qed

lemma live_grant_node:
  assumes "live_core w i v sc st" "credit_owed cw + unat d = owed st"
  shows "live_core w i (v\<lparr>vn := Some (st\<lparr>recvWindow := cw\<rparr>), vb := vb v @ grants i d\<rparr>) sc (st\<lparr>recvWindow := cw\<rparr>)"
proof -
  have h: "half w sc (va v) st (updates (vb v)) (v_cs v) (v_ng v)"
    using assms(1) unfolding live_core_def by blast
  have "half w sc (va v) (st\<lparr>recvWindow := cw\<rparr>) (updates (vb v) + unat d) (v_cs v) (v_ng v)"
    by (rule half_grant [OF h]) (simp_all add: assms(2))
  with assms(1) show ?thesis unfolding live_core_def by auto
qed

lemma exiting_grant:
  assumes "exiting_core w i v st" "credit_owed cw + unat d = owed st"
  shows "exiting_core w i (v\<lparr>vc := Some (st\<lparr>recvWindow := cw\<rparr>), va := va v @ grants i d\<rparr>) (st\<lparr>recvWindow := cw\<rparr>)"
  using assms unfolding exiting_core_def by auto

lemma opening_grant:
  assumes "v_opening w i v" "vc v = Some st" "credit_ok cw" "unat (window cw) = w" "credit_owed cw + unat d = owed st"
  shows "v_opening w i (v\<lparr>vc := Some (st\<lparr>recvWindow := cw\<rparr>), va := va v @ grants i d\<rparr>)"
proof -
  have d: "d = 0" "credit_owed cw = 0"
    using assms(1,2,5) by (auto simp: v_opening_def unat_eq_zero)
  show ?thesis
    using assms(1-4) d recv_ok(2) [of w Controller st cw] unfolding v_opening_def by (auto simp: grants_def)
qed

text \<open>Frames arrive.\<close>

lemma builders_distinct [simp]:
  "data_frame i ch e b \<noteq> exit_frame j ex" "exit_frame j ex \<noteq> data_frame i ch e b"
  "update_frame i d \<noteq> exit_frame j ex" "exit_frame j ex \<noteq> update_frame i d"
  "data_frame i ch e b \<noteq> update_frame j d" "update_frame j d \<noteq> data_frame i ch e b"
  by (simp_all add: data_frame_def exit_frame_def update_frame_def frame_types)

lemma new_sstream_facts [simp]:
  "owed (new_sstream W) = 0" "\<not> peerDataClosed (new_sstream W)" "sendCredit (new_sstream W) = W"
  "sendQueue (new_sstream W) = []"
  by (simp_all add: new_sstream_def credit_owed_def CreditWindow_def)

lemma new_sstream_ok: "unat W = w \<Longrightarrow> w < 2 ^ 31 \<Longrightarrow> sstream_ok w r (new_sstream W)"
  using credit_fits_default [of W] credit_inv_new [of W 0]
  by (simp add: new_sstream_def sstream_ok_def sstream_base_def credit_ok_def segments_ok_def CreditWindow_def)

lemma opening_accept:
  assumes "v_opening w i v" "unat W = w" "w < 2 ^ 31"
  shows "v_live w i (v\<lparr>vn := Some (new_sstream W), va := tl (va v)\<rparr>)"
proof -
  obtain sc r q where o: "vc v = Some sc" "vl v = None" "va v = open_frame i r # q" "vb v = []"
    "\<forall>f \<in> set q. data_of Controller i f" "sstream_ok w Controller sc" "owed sc = 0" "\<not> peerDataClosed sc"
    "half w sc q (new_sstream W) 0 (v_cs v) []" "v_ng v = []" "v_ns v = []" "v_cg v = []"
    using assms(1) unfolding v_opening_def by auto
  have "half w (new_sstream W) [] sc 0 [] []"
    using o(7,8) assms(2) by (simp add: half_def ends_def)
  then have "live_core w i (v\<lparr>vn := Some (new_sstream W), va := tl (va v)\<rparr>) sc (new_sstream W)"
    using o mids_data [OF o(5)] updates_data [OF o(5)] unfolding live_core_def by simp
  with o(6) new_sstream_ok [OF assms(2,3)] show ?thesis unfolding v_live_def by blast
qed

lemma live_data_node:
  assumes "live_core w i v sc sn" "va v = data_frame i ch e b # q" "credit_owed cw = owed sn + length b"
  shows "live_core w i (v\<lparr>vn := Some (sn\<lparr>recvWindow := cw, peerDataClosed := e\<rparr>), va := q,
    v_ng := v_ng v @ tag ch b\<rparr>) sc (sn\<lparr>recvWindow := cw, peerDataClosed := e\<rparr>)"
  using assms half_deliver [of w sc i ch e b q sn _ _ _ cw] unfolding live_core_def by auto

lemma live_data_ctl:
  assumes "live_core w i v sc sn" "vb v = data_frame i ch e b # q" "credit_owed cw = owed sc + length b"
  shows "live_core w i (v\<lparr>vc := Some (sc\<lparr>recvWindow := cw, peerDataClosed := e\<rparr>), vb := q,
    v_cg := v_cg v @ tag ch b\<rparr>) (sc\<lparr>recvWindow := cw, peerDataClosed := e\<rparr>) sn"
  using assms half_deliver [of w sn i ch e b q sc _ _ _ cw] unfolding live_core_def by auto

lemma exiting_data_ctl:
  assumes "exiting_core w i v sc" "vb v = data_frame i ch e b # q" "credit_owed cw = owed sc + length b"
  shows "exiting_core w i (v\<lparr>vc := Some (sc\<lparr>recvWindow := cw, peerDataClosed := e\<rparr>), vb := q,
    v_cg := v_cg v @ tag ch b\<rparr>) (sc\<lparr>recvWindow := cw, peerDataClosed := e\<rparr>)"
proof -
  obtain closed q' ex where x: "vb v = q' @ [exit_frame i ex]" and "vc v = Some sc" "vn v = None" "vl v = Some closed"
     "(\<forall>f \<in> set (va v). mid Controller i f)" "(\<forall>f \<in> set q'. mid Node i f)"
     "ends (Some sc) (va v) closed" "ends None q' (peerDataClosed sc)"
     "cr sc + updates q' \<le> w" "length (tagged q') + owed sc \<le> w" "v_ns v = v_cg v @ tagged q'" "prefix (v_ng v) (v_cs v)"
    using assms(1) unfolding exiting_core_def by blast
  moreover from x assms(2) obtain q'' where "q' = data_frame i ch e b # q''" "q = q'' @ [exit_frame i ex]"
    by (cases q') auto
  ultimately show ?thesis
    using assms(3) unfolding exiting_core_def by (auto simp: ends_def quiet_def)
qed

lemma live_update_node:
  assumes "live_core w i v sc sn" "va v = update_frame i d # q" "w < 2 ^ 31"
  defines "sn1 \<equiv> sn\<lparr>sendCredit := sendCredit sn + d\<rparr>"
  shows "live_core w i (v\<lparr>vn := Some sn1, va := q\<rparr>) sc sn1" "cr sn + unat d < 2 ^ 31"
proof -
  have h: "half w sn (vb v) sc (unat d + updates q) (v_ns v) (v_cg v)"
    "half w sc q sn (updates (vb v)) (v_cs v) (v_ng v)"
    using assms(1,2) unfolding live_core_def by (simp_all add: half_skip_update)
  show "cr sn + unat d < 2 ^ 31" using h(1) assms(3) by (simp add: half_def)
  show "live_core w i (v\<lparr>vn := Some sn1, va := q\<rparr>) sc sn1"
    using assms(1,2) h(2) half_credit(1) [OF h(1) assms(3)] half_cong_R [of sn1 sn]
    unfolding live_core_def sn1_def by simp
qed

lemma live_update_ctl:
  assumes "live_core w i v sc sn" "vb v = update_frame i d # q" "w < 2 ^ 31"
  defines "sc1 \<equiv> sc\<lparr>sendCredit := sendCredit sc + d\<rparr>"
  shows "live_core w i (v\<lparr>vc := Some sc1, vb := q\<rparr>) sc1 sn" "cr sc + unat d < 2 ^ 31"
proof -
  have h: "half w sc (va v) sn (unat d + updates q) (v_cs v) (v_ng v)"
    "half w sn q sc (updates (va v)) (v_ns v) (v_cg v)"
    using assms(1,2) unfolding live_core_def by (simp_all add: half_skip_update)
  show "cr sc + unat d < 2 ^ 31" using h(1) assms(3) by (simp add: half_def)
  show "live_core w i (v\<lparr>vc := Some sc1, vb := q\<rparr>) sc1 sn"
    using assms(1,2) h(2) half_credit(1) [OF h(1) assms(3)] half_cong_R [of sc1 sc]
    unfolding live_core_def sc1_def by simp
qed

lemma exiting_update_ctl:
  assumes "exiting_core w i v sc" "vb v = update_frame i d # q" "w < 2 ^ 31"
  defines "sc1 \<equiv> sc\<lparr>sendCredit := sendCredit sc + d\<rparr>"
  shows "exiting_core w i (v\<lparr>vc := Some sc1, vb := q\<rparr>) sc1" "cr sc + unat d < 2 ^ 31"
proof -
  obtain closed q' ex where x: "vb v = q' @ [exit_frame i ex]" "vc v = Some sc" "vn v = None" "vl v = Some closed"
     "\<forall>f \<in> set (va v). mid Controller i f" "\<forall>f \<in> set q'. mid Node i f"
     "ends (Some sc) (va v) closed" "ends None q' (peerDataClosed sc)"
     "cr sc + updates q' \<le> w" "length (tagged q') + owed sc \<le> w" "v_ns v = v_cg v @ tagged q'" "prefix (v_ng v) (v_cs v)"
    using assms(1) unfolding exiting_core_def by blast
  from x(1) assms(2) obtain q'' where q: "q' = update_frame i d # q''" "q = q'' @ [exit_frame i ex]"
    by (cases q') auto
  show lt: "cr sc + unat d < 2 ^ 31" using x(9) q(1) assms(3) by simp
  then have "cr sc1 = cr sc + unat d" by (simp add: sc1_def unat_plus_small)
  with x(2-) q show "exiting_core w i (v\<lparr>vc := Some sc1, vb := q\<rparr>) sc1"
    unfolding exiting_core_def sc1_def by (auto simp: ends_def quiet_def)
qed

text \<open>Frames that crossed the EXIT reach a node that has closed the stream.\<close>

lemma exiting_cross:
  assumes "exiting_core w i v sc" "va v = f # q" "vl v = Some closed"
  shows "is_data f \<longrightarrow> \<not> closed" "exiting_core w i (v\<lparr>vl := Some (closed \<or> is_end f), va := q\<rparr>) sc"
  using assms unfolding exiting_core_def by (auto simp: ends_def)

lemma done_cross:
  assumes "v_done i v" "va v = f # q" "vl v = Some closed"
  shows "is_data f \<longrightarrow> \<not> closed" "v_done i (v\<lparr>vl := Some (closed \<or> is_end f), va := q\<rparr>)"
  using assms unfolding v_done_def by (auto simp: ends_def)

lemma exiting_exit:
  assumes "exiting_core w i v sc" "vb v = exit_frame i ex # q"
  shows "v_done i (v\<lparr>vc := None, vb := q\<rparr>)"
proof -
  obtain closed q' ex' where x: "vb v = q' @ [exit_frame i ex']" "\<forall>f \<in> set q'. mid Node i f"
     "vc v = Some sc" "vn v = None" "vl v = Some closed"
     "\<forall>f \<in> set (va v). mid Controller i f" "ends (Some sc) (va v) closed" "v_ns v = v_cg v @ tagged q'" "prefix (v_ng v) (v_cs v)"
    using assms(1) unfolding exiting_core_def by blast
  with assms(2) have "q' = []" by (cases q') (auto simp: mid_def data_of_def)
  with assms(2) x show ?thesis unfolding v_done_def by (auto simp: ends_def)
qed

end
