(* ===== verification/Session_Link.thy ===== *)
theory Session_Link
  imports Session_Streams
begin

text \<open>
  The invariant of the two-session system of \<open>Session_Flow\<close> is kept by every call and every
  delivery of a frame; so data arrives in order, credit is conserved and an EXIT never overtakes
  output.  \<open>Session_Wire\<close> carries this over to bytes on the wire, where frames go through \<open>receive\<close>.
\<close>

subsection \<open>Calls of the controller's application\<close>

lemma ctl_stream:
  assumes "link_ok w l" "streams (ctl l) i = Some st"
  shows "i \<noteq> 0" "sstream_ok w Controller st"
    "v_opening w i (view l i) \<or> (\<exists>sn. live_core w i (view l i) st sn \<and> sstream_ok w Node sn) \<or>
     exiting_core w i (view l i) st"
proof -
  show i: "i \<noteq> 0" using assms by (auto simp: link_ok_def)
  have v: "vc (view l i) = Some st" using assms(2) by (simp add: view_def)
  have "stream_ok w l i" using assms(1) i by (simp add: link_ok_def)
  with v have *: "v_opening w i (view l i) \<or> v_live w i (view l i) \<or> v_exiting w i (view l i)"
    by (auto simp: stream_ok_def v_unopened_def v_done_def split: if_splits)
  with v show "sstream_ok w Controller st"
    by (auto simp: v_opening_def v_live_def live_core_def v_exiting_def exiting_core_def)
  from * v show "v_opening w i (view l i) \<or> (\<exists>sn. live_core w i (view l i) st sn \<and> sstream_ok w Node sn) \<or>
     exiting_core w i (view l i) st"
    by (auto simp: v_live_def live_core_def v_exiting_def exiting_core_def)
qed

text \<open>A step of the controller on one of its streams that sends frames of this stream.\<close>

lemma ctl_stream_step:
  assumes "link_ok w l" "streams (ctl l) i = Some st" "frames_of i fs" "\<And>j. j \<noteq> i \<Longrightarrow> lg j = c_sent l j"
    "sstream_ok w Controller st'"
  defines "v' \<equiv> (view l i)\<lparr>vc := Some st', va := va (view l i) @ fs, v_cs := lg i\<rparr>"
  assumes "v_opening w i (view l i) \<Longrightarrow> v_opening w i v'"
    and "\<And>sn. live_core w i (view l i) st sn \<Longrightarrow> live_core w i v' st' sn"
    and "exiting_core w i (view l i) st \<Longrightarrow> exiting_core w i v' st'"
  shows "link_ok w (l\<lparr>ctl := (ctl l)\<lparr>streams := (streams (ctl l))(i \<mapsto> st')\<rparr>, c2n := c2n l @ fs, c_sent := lg\<rparr>)"
    (is "link_ok w ?l'")
proof (rule local_step [OF assms(1)])
  note cs = ctl_stream [OF assms(1,2)]
  show "i \<noteq> 0" by (rule cs(1))
  show "globals (ctl ?l') = globals (ctl l)" "globals (node ?l') = globals (node l)"
    by (simp_all add: globals_def)
  show "view ?l' j = view l j" if "j \<noteq> i" for j
    using that assms(4) [OF that] proj_frames_of(2) [OF assms(3)] by (simp add: view_def)
  show "control (c2n ?l') = control (c2n l)" "control (n2c ?l') = control (n2c l)"
    using proj_frames_of(3) [OF assms(3) cs(1)] by simp_all
  have v: "view ?l' i = v'"
    using proj_frames_of(1) [OF assms(3)] by (simp add: view_def v'_def)
  have "stream_ok w l i" using assms(1) cs(1) by (simp add: link_ok_def)
  moreover have "vc (view l i) = Some st" using assms(2) by (simp add: view_def)
  moreover have "vk v' = vk (view l i)" by (simp add: v'_def)
  moreover have "v_live w i (view l i) \<Longrightarrow> v_live w i v'"
    using assms(5,8) calculation(2) unfolding v_live_def by (metis live_core_def option.inject)
  moreover have "v_exiting w i (view l i) \<Longrightarrow> v_exiting w i v'"
    using assms(5,9) calculation(2) unfolding v_exiting_def by (metis exiting_core_def option.inject)
  ultimately show "stream_ok w ?l' i"
    using assms(7) unfolding stream_ok_def v
    by (auto simp: v_unopened_def v_done_def split: if_splits)
qed

lemma consume_spec:
  assumes "\<not> protocolFailed s" "streams s i = Some st" "sstream_ok w r st"
  obtains cw d where "consume s i n = (s\<lparr>streams := (streams s)(i \<mapsto> st\<lparr>recvWindow := cw\<rparr>)\<rparr>, map Write (grants i d))"
    "credit_owed cw + unat d = owed st" "sstream_ok w r (st\<lparr>recvWindow := cw\<rparr>)"
proof -
  obtain cw d where c: "cw_onConsumed (recvWindow st) n = (cw, d)" by (cases "cw_onConsumed (recvWindow st) n")
  have ok: "credit_ok (recvWindow st)" "unat (window (recvWindow st)) = w"
    using assms(3) by (simp_all add: sstream_ok_def sstream_base_def)
  have "credit_ok cw" "credit_owed cw + unat d = owed st" "window cw = window (recvWindow st)"
    using cw_onConsumed_ledger [OF ok(1), of n] c cw_onConsumed_spec(4) [OF _ _ c] ok
    by (auto simp: credit_ok_def)
  then show thesis
    using that [of cw d] recv_ok(2) [OF assms(3)] ok(2) assms(1,2) c
    by (auto simp: consume_def grants_def send_def)
qed

lemma link_globals:
  assumes "link_ok w l"
  shows "\<not> protocolFailed (ctl l)" "\<not> protocolFailed (node l)" "srole (ctl l) = Controller" "srole (node l) = Node"
    "unat (initialWindow (ctl l)) = w" "unat (initialWindow (node l)) = w"
  using assms by (auto simp: link_ok_def glob_ok_def)

lemma link_same [simp]:
  "l\<lparr>ctl := ctl l, c2n := c2n l, c_sent := c_sent l\<rparr> = l" "l\<lparr>node := node l, n2c := n2c l, n_sent := n_sent l\<rparr> = l"
  by simp_all

lemma ctl_send_ok:
  assumes "link_ok w l"
  shows "link_ok w (ctl_call l (ApiSend i b e ch))"
proof (cases "accepts_data (ctl l) i ch")
  case False
  then have "ctl_call l (ApiSend i b e ch) = l" by (simp add: ctl_call_def sendData_def)
  with assms show ?thesis by simp
next
  case True
  note G = link_globals [OF assms]
  obtain st where st: "streams (ctl l) i = Some st"
    using True by (auto simp: accepts_data_def split: option.splits)
  note cs = ctl_stream [OF assms st]
  obtain s' effs where d: "sendData (ctl l) i b e ch = (s', effs)" by (cases "sendData (ctl l) i b e ch")
  then obtain st' fs where p: "pushed w Controller i st st' fs (tag ch b)" "sent effs = fs"
      "s' = (ctl l)\<lparr>streams := (streams (ctl l))(i \<mapsto> st')\<rparr>"
    using sendData_pushed [OF G(1) True st _ d, of w] cs(2) G(3) by auto
  define lg where "lg = (\<lambda>j. c_sent l j @ (if j = i then tag ch b else []))"
  have "link_ok w (l\<lparr>ctl := (ctl l)\<lparr>streams := (streams (ctl l))(i \<mapsto> st')\<rparr>, c2n := c2n l @ fs, c_sent := lg\<rparr>)"
    using opening_push [OF _ _ p(1), of "view l i"] live_push_ctl [OF _ p(1), of "view l i"]
      exiting_push [OF _ p(1), of "view l i"] st
    by (intro ctl_stream_step [OF assms st pushedD(8) [OF p(1)] _ pushedD(1) [OF p(1)]])
      (auto simp: lg_def view_sel)
  also have "l\<lparr>ctl := (ctl l)\<lparr>streams := (streams (ctl l))(i \<mapsto> st')\<rparr>, c2n := c2n l @ fs, c_sent := lg\<rparr> =
      ctl_call l (ApiSend i b e ch)"
    using d p True by (simp add: ctl_call_def lg_def cong: if_cong)
  finally show ?thesis .
qed

lemma ctl_consume_ok:
  assumes "link_ok w l"
  shows "link_ok w (ctl_call l (ApiConsume i n))"
proof (cases "streams (ctl l) i")
  case None
  then show ?thesis using assms by (simp add: ctl_call_def consume_def)
next
  case (Some st)
  note cs = ctl_stream [OF assms Some]
  obtain cw d where c: "consume (ctl l) i n = ((ctl l)\<lparr>streams := (streams (ctl l))(i \<mapsto> st\<lparr>recvWindow := cw\<rparr>)\<rparr>,
      map Write (grants i d))" "credit_owed cw + unat d = owed st" "sstream_ok w Controller (st\<lparr>recvWindow := cw\<rparr>)"
    using consume_spec [OF link_globals(1) [OF assms] Some cs(2)] .
  have cw: "credit_ok cw" "unat (window cw) = w" using c(3) by (simp_all add: sstream_ok_def sstream_base_def)
  have "(view l i)\<lparr>vc := a, va := b, v_cs := c_sent l i\<rparr> = (view l i)\<lparr>vc := a, va := b\<rparr>" for a b
    by (simp add: view_def)
  moreover have "vc (view l i) = Some st" using Some by (simp add: view_def)
  ultimately have "link_ok w (l\<lparr>ctl := (ctl l)\<lparr>streams := (streams (ctl l))(i \<mapsto> st\<lparr>recvWindow := cw\<rparr>)\<rparr>,
      c2n := c2n l @ grants i d, c_sent := c_sent l\<rparr>)"
    using opening_grant [OF _ _ cw c(2), of i "view l i"] live_grant_ctl [OF _ c(2), of w i "view l i"]
      exiting_grant [OF _ c(2), of w i "view l i"]
    by (intro ctl_stream_step [OF assms Some _ _ c(3)]) auto
  then show ?thesis using c(1) by (simp add: ctl_call_def)
qed

text \<open>Connection frames concern no stream.\<close>

lemma conn_step:
  assumes "link_ok w l" "glob_ok w l'" "streams (ctl l') = streams (ctl l)" "streams (node l') = streams (node l)"
    "locallyClosed (ctl l') = locallyClosed (ctl l)" "locallyClosed (node l') = locallyClosed (node l)"
    "\<And>i. i \<noteq> 0 \<Longrightarrow> proj i (c2n l') = proj i (c2n l) \<and> proj i (n2c l') = proj i (n2c l)"
    "c_sent l' = c_sent l" "n_got l' = n_got l" "n_sent l' = n_sent l" "c_got l' = c_got l"
    "nextStreamId (ctl l') = nextStreamId (ctl l)" "nextPeerStreamId (node l') = nextPeerStreamId (node l)"
  shows "link_ok w l'"
proof -
  have "view l' i = view l i" if "i \<noteq> 0" for i
    using assms(3-6,8-11) assms(7) [OF that] by (simp add: view_def)
  then show ?thesis using assms by (simp add: link_ok_def stream_ok_def)
qed

lemma conn_frame_kinds [simp]:
  "is_open (conn_frame t) = (t = FT_Open)" "is_goaway (conn_frame t) = (t = FT_GoAway)"
  "is_data (conn_frame t) = (t = FT_Data)"
  by (simp_all add: is_open_def is_goaway_def is_data_def)

lemma drain_ok_append: "drain_ok g (q @ q') \<longleftrightarrow> drain_ok g q \<and> drain_ok (g \<or> (\<exists>f \<in> set q. is_goaway f)) q'"
  by (induction q arbitrary: g) (auto simp: disj_ac)

lemma conn_frame_inj [simp]: "conn_frame t = conn_frame t' \<longleftrightarrow> t = t'"
  by (auto simp: conn_frame_def)

lemma ctl_ping_ok:
  assumes "link_ok w l"
  shows "link_ok w (ctl_call l ApiPing)"
proof -
  have g: "glob_ok w l" using assms by (simp add: link_ok_def)
  have "glob_ok w (ctl_call l ApiPing)"
    using g by (auto simp: glob_ok_def ctl_call_def s_ping_def send_def conn_frames_def drain_ok_append frame_types)
  then show ?thesis
    by (rule conn_step [OF assms]) (simp_all add: ctl_call_def s_ping_def send_def)
qed

lemma node_ping_ok:
  assumes "link_ok w l"
  shows "link_ok w (node_call l ApiPing)"
proof -
  have g: "glob_ok w l" using assms by (simp add: link_ok_def)
  have "glob_ok w (node_call l ApiPing)"
    using g by (auto simp: glob_ok_def node_call_def s_ping_def send_def conn_frames_def frame_types)
  then show ?thesis
    by (rule conn_step [OF assms]) (simp_all add: node_call_def s_ping_def send_def)
qed

lemma ctl_goaway_ok:
  assumes "link_ok w l"
  shows "link_ok w (ctl_call l ApiGoAway)"
proof -
  have g: "glob_ok w l" using assms by (simp add: link_ok_def)
  have "glob_ok w (ctl_call l ApiGoAway)"
    using g by (auto simp: glob_ok_def ctl_call_def goAway_def send_def conn_frames_def drain_ok_append frame_types)
  then show ?thesis
    by (rule conn_step [OF assms]) (auto simp: ctl_call_def goAway_def send_def)
qed

lemma hi_Suc: "n \<noteq> 0 \<Longrightarrow> hi (n + 1) = Suc (hi n)"
proof -
  assume n: "n \<noteq> 0"
  show ?thesis
  proof (cases "n + 1 = 0")
    case True
    then have "n = - 1" by (metis add.commute eq_neg_iff_add_eq_0)
    then have "unat n = 2 ^ 32 - 1" by (simp add: unsigned_minus_1_eq_mask mask_eq_exp_minus_1)
    with n True show ?thesis by (simp add: hi_def)
  next
    case False
    with n unatSuc [of n] show ?thesis by (simp add: hi_def add.commute)
  qed
qed

lemma hi_pos: "0 < hi n"
  by (auto simp: hi_def unat_gt_0)

lemma stream_ok_unopened:
  assumes "link_ok w l" "nextStreamId (ctl l) \<noteq> 0"
  shows "v_unopened (view l (nextStreamId (ctl l)))"
  using assms by (auto simp: link_ok_def stream_ok_def hi_def)

lemma ctl_open_ok:
  assumes "link_ok w l" "w < 2 ^ 31"
  shows "link_ok w (ctl_call l (ApiOpen r))"
proof (cases "sentGoAway (ctl l) \<or> receivedGoAway (ctl l) \<or> nextStreamId (ctl l) = 0 \<or> isl (validateOpenRequest r)")
  case True
  then have "ctl_call l (ApiOpen r) = l" by (auto simp: ctl_call_def s_open_def)
  with assms show ?thesis by simp
next
  case False
  note G = link_globals [OF assms(1)]
  define i where "i = nextStreamId (ctl l)"
  define st where "st = new_sstream (initialWindow (ctl l))"
  have i: "i \<noteq> 0" "hi i = unat i" using False by (auto simp: i_def hi_def)
  have u: "v_unopened (view l i)" using stream_ok_unopened [OF assms(1)] False by (simp add: i_def)
  then have emp: "streams (ctl l) i = None" "proj i (c2n l) = []" "proj i (n2c l) = []"
    "locallyClosed (ctl l) i = None" "streams (node l) i = None" "locallyClosed (node l) i = None"
    "c_sent l i = []" "n_got l i = []" "n_sent l i = []" "c_got l i = []"
    by (simp_all add: v_unopened_def view_def)
  have valid: "valid_open r" using False validateOpenRequest_ok by auto
  define l' where "l' = l\<lparr>ctl := (ctl l)\<lparr>nextStreamId := i + 1, streams := (streams (ctl l))(i \<mapsto> st)\<rparr>,
      c2n := c2n l @ [open_frame i r]\<rparr>"
  have l': "ctl_call l (ApiOpen r) = l'"
    using False G emp by (simp add: ctl_call_def s_open_def l'_def i_def st_def send_def Let_def)
  have g: "glob_ok w l" using assms(1) by (simp add: link_ok_def)
  have "\<not> (receivedGoAway (node l) \<or> (\<exists>f \<in> set (control (c2n l)). is_goaway f))"
    using g False by (auto simp: glob_ok_def)
  moreover have "hi (nextPeerStreamId (node l)) \<le> unat i" using g i(2) by (simp add: glob_ok_def i_def)
  ultimately have g': "glob_ok w l'"
    using g i hi_Suc [OF i(1)]
    by (auto simp: glob_ok_def l'_def conn_frames_def drain_ok_append i_def [symmetric])
  have v: "view l' j = view l j" if "j \<noteq> i" for j
    using that by (simp add: view_def l'_def)
  have "v_opening w i (view l' i)"
    using emp valid G(5) new_sstream_ok [OF G(5) assms(2)] i
    by (auto simp: v_opening_def l'_def st_def half_def ends_def view_sel)
  then have "stream_ok w l' i"
    using emp i hi_Suc [OF i(1)] \<open>hi (nextPeerStreamId (node l)) \<le> unat i\<close>
    by (simp add: stream_ok_def l'_def view_sel)
  moreover have "stream_ok w l' j" if "j \<noteq> 0" "j \<noteq> i" for j
  proof -
    have "unat j \<noteq> unat i" using that(2) by (metis unsigned_word_eqI)
    then show ?thesis
      using assms(1) that(1) v [OF that(2)] hi_Suc [OF i(1)] i
      by (auto simp: link_ok_def stream_ok_def l'_def i_def [symmetric])
  qed
  ultimately have "link_ok w l'"
    using g' assms(1) i(1) by (auto simp: link_ok_def l'_def)
  then show ?thesis by (simp add: l')
qed

subsection \<open>Calls of the node's application\<close>

lemma node_stream:
  assumes "link_ok w l" "streams (node l) i = Some st"
  shows "i \<noteq> 0" "sstream_ok w Node st"
    "\<exists>sc. live_core w i (view l i) sc st \<and> sstream_ok w Controller sc"
    "unat i < hi (nextPeerStreamId (node l))" "locallyClosed (node l) i = None"
proof -
  show i: "i \<noteq> 0" using assms by (auto simp: link_ok_def)
  have v: "vn (view l i) = Some st" using assms(2) by (simp add: view_def)
  have "stream_ok w l i" using assms(1) i by (simp add: link_ok_def)
  with v have l: "v_live w i (view l i)" and "unat i < hi (nextPeerStreamId (node l))"
    by (auto simp: stream_ok_def v_unopened_def v_opening_def v_done_def v_exiting_def exiting_core_def
        split: if_splits)
  then show "unat i < hi (nextPeerStreamId (node l))" by simp
  from l v show "sstream_ok w Node st" "\<exists>sc. live_core w i (view l i) sc st \<and> sstream_ok w Controller sc"
    "locallyClosed (node l) i = None"
    by (auto simp: v_live_def live_core_def view_sel)
qed

text \<open>A step of the node on one of its streams: the stream goes on, or it is closed by an EXIT.\<close>

lemma node_stream_step:
  assumes "link_ok w l" "streams (node l) i = Some st"
    "globals s' = globals (node l)" "frames_of i fs" "\<And>j. j \<noteq> i \<Longrightarrow> lg j = n_sent l j"
    "\<And>j. j \<noteq> i \<Longrightarrow> streams s' j = streams (node l) j \<and> locallyClosed s' j = locallyClosed (node l) j"
  defines "v' \<equiv> (view l i)\<lparr>vn := streams s' i, vl := locallyClosed s' i, vb := vb (view l i) @ fs, v_ns := lg i\<rparr>"
  assumes "v_live w i v' \<or> v_exiting w i v'"
  shows "link_ok w (l\<lparr>node := s', n2c := n2c l @ fs, n_sent := lg\<rparr>)" (is "link_ok w ?l'")
proof (rule local_step [OF assms(1)])
  note ns = node_stream [OF assms(1,2)]
  show "i \<noteq> 0" by (rule ns(1))
  show "globals (ctl ?l') = globals (ctl l)" "globals (node ?l') = globals (node l)"
    using assms(3) by simp_all
  show "view ?l' j = view l j" if "j \<noteq> i" for j
    using that assms(5,6) [OF that] proj_frames_of(2) [OF assms(4)] by (simp add: view_def)
  show "control (c2n ?l') = control (c2n l)" "control (n2c ?l') = control (n2c l)"
    using proj_frames_of(3) [OF assms(4) ns(1)] by simp_all
  have v: "view ?l' i = v'"
    using proj_frames_of(1) [OF assms(4)] by (simp add: view_def v'_def)
  have "stream_ok w l i" using assms(1) ns(1) by (simp add: link_ok_def)
  moreover have "nextPeerStreamId s' = nextPeerStreamId (node l)" using assms(3) by (simp add: globals_def)
  moreover have "hi (nextPeerStreamId (node l)) \<le> hi (nextStreamId (ctl l))"
    using assms(1) by (simp add: link_ok_def glob_ok_def)
  ultimately show "stream_ok w ?l' i"
    using assms(8) ns(4) unfolding stream_ok_def v by (auto simp: v'_def)
qed

lemma live_coreI:
  "live_core w i v sc sn \<Longrightarrow> sstream_ok w Controller sc \<Longrightarrow> sstream_ok w Node sn \<Longrightarrow> v_live w i v"
  by (auto simp: v_live_def)

lemma exiting_coreI: "exiting_core w i v sc \<Longrightarrow> sstream_ok w Controller sc \<Longrightarrow> v_exiting w i v"
  by (auto simp: v_exiting_def)

lemma node_send_ok:
  assumes "link_ok w l"
  shows "link_ok w (node_call l (ApiSend i b e ch))"
proof (cases "accepts_data (node l) i ch")
  case False
  then have "node_call l (ApiSend i b e ch) = l" by (simp add: node_call_def sendData_def)
  with assms show ?thesis by simp
next
  case True
  note G = link_globals [OF assms]
  obtain st where st: "streams (node l) i = Some st"
    using True by (auto simp: accepts_data_def split: option.splits)
  note ns = node_stream [OF assms st]
  obtain sc where sc: "live_core w i (view l i) sc st" "sstream_ok w Controller sc" using ns(3) by blast
  obtain s' effs where d: "sendData (node l) i b e ch = (s', effs)" by (cases "sendData (node l) i b e ch")
  then obtain st' fs where p: "pushed w Node i st st' fs (tag ch b)" "sent effs = fs"
      "s' = (node l)\<lparr>streams := (streams (node l))(i \<mapsto> st')\<rparr>"
    using sendData_pushed [OF G(2) True st _ d, of w] ns(2) G(4) by auto
  define lg where "lg = (\<lambda>j. n_sent l j @ (if j = i then tag ch b else []))"
  have "v_live w i ((view l i)\<lparr>vn := Some st', vb := vb (view l i) @ fs, v_ns := v_ns (view l i) @ tag ch b\<rparr>)"
    by (rule live_coreI [OF live_push_node [OF sc(1) p(1)] sc(2) pushedD(1) [OF p(1)]])
  then have "link_ok w (l\<lparr>node := s', n2c := n2c l @ fs, n_sent := lg\<rparr>)"
    using p(3) ns(5)
    by (intro node_stream_step [OF assms st _ pushedD(8) [OF p(1)]]) (auto simp: lg_def view_def globals_def)
  also have "l\<lparr>node := s', n2c := n2c l @ fs, n_sent := lg\<rparr> = node_call l (ApiSend i b e ch)"
    using d p True by (simp add: node_call_def lg_def cong: if_cong)
  finally show ?thesis .
qed

lemma node_consume_ok:
  assumes "link_ok w l"
  shows "link_ok w (node_call l (ApiConsume i n))"
proof (cases "streams (node l) i")
  case None
  then show ?thesis using assms by (simp add: node_call_def consume_def)
next
  case (Some st)
  note ns = node_stream [OF assms Some]
  obtain sc where sc: "live_core w i (view l i) sc st" "sstream_ok w Controller sc" using ns(3) by blast
  obtain cw d where c: "consume (node l) i n = ((node l)\<lparr>streams := (streams (node l))(i \<mapsto> st\<lparr>recvWindow := cw\<rparr>)\<rparr>,
      map Write (grants i d))" "credit_owed cw + unat d = owed st" "sstream_ok w Node (st\<lparr>recvWindow := cw\<rparr>)"
    using consume_spec [OF link_globals(2) [OF assms] Some ns(2)] .
  have "v_live w i ((view l i)\<lparr>vn := Some (st\<lparr>recvWindow := cw\<rparr>), vb := vb (view l i) @ grants i d\<rparr>)"
    by (rule live_coreI [OF live_grant_node [OF sc(1) c(2)] sc(2) c(3)])
  then have "link_ok w (l\<lparr>node := (node l)\<lparr>streams := (streams (node l))(i \<mapsto> st\<lparr>recvWindow := cw\<rparr>)\<rparr>,
      n2c := n2c l @ grants i d, n_sent := n_sent l\<rparr>)"
    using ns(5) by (intro node_stream_step [OF assms Some]) (auto simp: view_def globals_def)
  then show ?thesis using c(1) by (simp add: node_call_def)
qed

lemma node_exit_ok:
  assumes "link_ok w l"
  shows "link_ok w (node_call l (ApiExit i ex))"
proof (cases "\<exists>st. streams (node l) i = Some st \<and> \<not> exitPending st")
  case False
  then have "node_call l (ApiExit i ex) = l"
    by (auto simp: node_call_def sendExit_def split: option.split)
  with assms show ?thesis by simp
next
  case True
  then obtain st where st: "streams (node l) i = Some st" "\<not> exitPending st" by blast
  note G = link_globals [OF assms] and ns = node_stream [OF assms st(1)]
  obtain sc where sc: "live_core w i (view l i) sc st" "sstream_ok w Controller sc" using ns(3) by blast
  show ?thesis
  proof (cases "sendQueue st \<noteq> [] \<or> sendEndPending st")
    case True
    define st' where "st' = st\<lparr>localDataClosed := True, exitPending := True, exitStatus := ex\<rparr>"
    have "live_core w i ((view l i)\<lparr>vn := Some st'\<rparr>) sc st'" "sstream_ok w Node st'"
      using sc(1) ns(2) True
      by (auto simp: live_core_def half_def ends_def quiet_def st'_def sstream_ok_def sstream_base_def)
    then have "v_live w i ((view l i)\<lparr>vn := Some st'\<rparr>)" using live_coreI sc(2) by blast
    then have "link_ok w (l\<lparr>node := (node l)\<lparr>streams := (streams (node l))(i \<mapsto> st')\<rparr>,
        n2c := n2c l @ [], n_sent := n_sent l\<rparr>)"
      using ns(5) by (intro node_stream_step [OF assms st(1)]) (auto simp: view_def globals_def)
    then show ?thesis using st True G by (simp add: node_call_def sendExit_def st'_def)
  next
    case False
    then have "exiting_core w i ((view l i)\<lparr>vn := None, vl := Some (peerDataClosed st),
        vb := vb (view l i) @ [exit_frame i ex]\<rparr>) sc"
      by (intro live_exit [OF sc(1)]) simp
    then have "v_exiting w i ((view l i)\<lparr>vn := None, vl := Some (peerDataClosed st),
        vb := vb (view l i) @ [exit_frame i ex]\<rparr>)" using exiting_coreI sc(2) by blast
    then have "link_ok w (l\<lparr>node := closeLocally (node l) i (peerDataClosed st),
        n2c := n2c l @ [exit_frame i ex], n_sent := n_sent l\<rparr>)"
      by (intro node_stream_step [OF assms st(1)]) (auto simp: view_def globals_def closeLocally_def)
    then show ?thesis using st False G by (simp add: node_call_def sendExit_def send_def)
  qed
qed

subsection \<open>Frames received by the node\<close>

lemma node_recv_step:
  assumes "link_ok w l" "c2n l = f # q" "streamId f = i" "i \<noteq> 0" "\<not> is_open f"
    "unat i < hi (nextPeerStreamId (node l))"
    "globals s' = globals (node l)" "frames_of i fs" "\<And>j. j \<noteq> i \<Longrightarrow> lg j = n_got l j"
    "\<And>j. j \<noteq> i \<Longrightarrow> streams s' j = streams (node l) j \<and> locallyClosed s' j = locallyClosed (node l) j"
  defines "v' \<equiv> (view l i)\<lparr>vn := streams s' i, vl := locallyClosed s' i, va := proj i q,
    vb := vb (view l i) @ fs, v_ng := lg i\<rparr>"
  assumes "v_live w i v' \<or> v_exiting w i v' \<or> v_done i v'"
  shows "link_ok w (l\<lparr>node := s', c2n := q, n2c := n2c l @ fs, n_got := lg\<rparr>)" (is "link_ok w ?l'")
proof (rule local_step [OF assms(1)])
  show "i \<noteq> 0" by (rule assms(4))
  show "globals (ctl ?l') = globals (ctl l)" "globals (node ?l') = globals (node l)"
    using assms(7) by simp_all
  show "view ?l' j = view l j" if "j \<noteq> i" for j
    using that assms(2,3) assms(9,10) [OF that] proj_frames_of(2) [OF assms(8)] by (simp add: view_def)
  show "control (c2n ?l') = control (c2n l)" "control (n2c ?l') = control (n2c l)"
    using proj_frames_of(3) [OF assms(8,4)] assms(2-5) by simp_all
  have v: "view ?l' i = v'"
    using proj_frames_of(1) [OF assms(8)] by (simp add: view_def v'_def)
  have "stream_ok w l i" using assms(1,4) by (simp add: link_ok_def)
  moreover have "nextPeerStreamId s' = nextPeerStreamId (node l)" using assms(7) by (simp add: globals_def)
  moreover have "hi (nextPeerStreamId (node l)) \<le> hi (nextStreamId (ctl l))"
    using assms(1) by (simp add: link_ok_def glob_ok_def)
  ultimately show "stream_ok w ?l' i"
    using assms(12,6) unfolding stream_ok_def v by (auto simp: v'_def)
qed

lemma dispatch_data_live:
  assumes "i \<noteq> 0" "srole s = Node \<longrightarrow> ch = Stdout" "locallyClosed s i = None" "streams s i = Some st"
    "\<not> peerDataClosed st" "cw_onData (recvWindow st) (of_nat (length b)) = (cw, True)"
  shows "dispatch s (data_frame i ch e b) =
    (s\<lparr>streams := (streams s)(i \<mapsto> st\<lparr>recvWindow := cw, peerDataClosed := e\<rparr>)\<rparr>, [Call (OnData i b e ch)], Inr ())"
  using assms
  by (cases ch) (auto simp: dispatch_def dispatch_data_def validateStreamFrame_def frame_types)

lemma dispatch_data_closed:
  assumes "i \<noteq> 0" "srole s = Node \<longrightarrow> ch = Stdout" "locallyClosed s i = Some False"
  shows "dispatch s (data_frame i ch e b) = (s\<lparr>locallyClosed := (locallyClosed s)(i \<mapsto> e)\<rparr>, [], Inr ())"
  using assms
  by (auto simp: dispatch_def dispatch_data_def validateStreamFrame_def frame_types)

lemma dispatch_update_closed:
  assumes "i \<noteq> 0" "d \<noteq> 0" "streams s i = None" "locallyClosed s i \<noteq> None"
  shows "dispatch s (update_frame i d) = (s, [], Inr ())"
  using assms
  by (auto simp: dispatch_def dispatch_update_def validateStreamFrame_def frame_types decodeWindowUpdate_encode)

lemma dispatch_open_ok:
  assumes "i \<noteq> 0" "srole s = Node" "\<not> sentGoAway s" "\<not> receivedGoAway s" "i = nextPeerStreamId s" "valid_open r"
    "streams s i = None"
  shows "dispatch s (open_frame i r) =
    (s\<lparr>nextPeerStreamId := i + 1, streams := (streams s)(i \<mapsto> new_sstream (initialWindow s))\<rparr>,
     [Call (OnOpen i r)], Inr ())"
  using assms
  by (auto simp: dispatch_def dispatch_open_def validateStreamFrame_def frame_types decodeOpen_encodeOpen)

lemma to_node_ok:
  "c2n l = f # q \<Longrightarrow> \<not> protocolFailed (node l) \<Longrightarrow> dispatch (node l) f = (s, effs, Inr ()) \<Longrightarrow>
   to_node l = l\<lparr>node := s, c2n := q, n2c := n2c l @ sent effs, n_got := (\<lambda>i. n_got l i @ got i effs)\<rparr>"
  by (simp add: to_node_def poison_def)

text \<open>A frame of a stream whose OPEN has been accepted.\<close>

lemma node_data_ok:
  assumes "link_ok w l" "c2n l = data_frame i Stdout e b # q" "i \<noteq> 0" "unat i < hi (nextPeerStreamId (node l))"
  shows "link_ok w (to_node l)"
proof -
  note G = link_globals [OF assms(1)]
  have va: "va (view l i) = data_frame i Stdout e b # proj i q" using assms(2) by (simp add: view_def)
  have "stream_ok w l i" using assms(1,3) by (simp add: link_ok_def)
  moreover have "hi (nextPeerStreamId (node l)) \<le> hi (nextStreamId (ctl l))"
    using assms(1) by (simp add: link_ok_def glob_ok_def)
  ultimately consider (live) "v_live w i (view l i)" | (exiting) "v_exiting w i (view l i)" | (finished) "v_done i (view l i)"
    using assms(4) by (auto simp: stream_ok_def)
  then show ?thesis
  proof cases
    case live
    then obtain sc sn where c: "live_core w i (view l i) sc sn" "sstream_ok w Controller sc" "sstream_ok w Node sn"
      by (auto simp: v_live_def)
    then have st: "streams (node l) i = Some sn" "locallyClosed (node l) i = None"
      by (auto simp: live_core_def view_sel)
    have h: "half w sc (data_frame i Stdout e b # proj i q) sn (updates (vb (view l i))) (v_cs (view l i)) (v_ng (view l i))"
      using c(1) va by (simp add: live_core_def)
    obtain cw where cw: "cw_onData (recvWindow sn) (of_nat (length b)) = (cw, True)"
        "credit_ok cw" "credit_owed cw = owed sn + length b" "unat (window cw) = w"
      using onData_accepts [OF c(3) half_head(2) [OF h]] by metis
    note dd = dispatch_data_live [OF assms(3) _ st(2,1) half_head(1) [OF h] cw(1), of Stdout e]
    have "v_live w i ((view l i)\<lparr>vn := Some (sn\<lparr>recvWindow := cw, peerDataClosed := e\<rparr>), va := proj i q,
        v_ng := v_ng (view l i) @ tag Stdout b\<rparr>)"
      by (rule live_coreI [OF live_data_node [OF c(1) va cw(3)] c(2) recv_ok(1) [OF c(3) cw(2,4)]])
    then show ?thesis
      unfolding to_node_ok [OF assms(2) G(2) dd [simplified]]
      using st(2) by (intro node_recv_step [OF assms(1,2) _ assms(3) _ assms(4)])
        (auto simp: view_def globals_def)
  next
    case exiting
    then obtain sc where c: "exiting_core w i (view l i) sc" "sstream_ok w Controller sc"
      by (auto simp: v_exiting_def)
    then obtain closed where vl: "vl (view l i) = Some closed" by (auto simp: exiting_core_def)
    note x = exiting_cross [OF c(1) va vl]
    then have dd: "dispatch (node l) (data_frame i Stdout e b) =
        ((node l)\<lparr>locallyClosed := (locallyClosed (node l))(i \<mapsto> e)\<rparr>, [], Inr ())"
      using vl assms(3) by (intro dispatch_data_closed) (auto simp: view_sel)
    have "v_exiting w i ((view l i)\<lparr>vl := Some e, va := proj i q\<rparr>)"
      using exiting_coreI [OF x(2) c(2)] x(1) by simp
    moreover have "streams (node l) i = None" using c(1) by (simp add: exiting_core_def view_sel)
    ultimately show ?thesis
      unfolding to_node_ok [OF assms(2) G(2) dd]
      by (intro node_recv_step [OF assms(1,2) _ assms(3) _ assms(4)]) (auto simp: view_def globals_def)
  next
    case finished
    then obtain closed where vl: "vl (view l i) = Some closed" by (auto simp: v_done_def)
    note x = done_cross [OF finished va vl]
    then have dd: "dispatch (node l) (data_frame i Stdout e b) =
        ((node l)\<lparr>locallyClosed := (locallyClosed (node l))(i \<mapsto> e)\<rparr>, [], Inr ())"
      using vl assms(3) by (intro dispatch_data_closed) (auto simp: view_sel)
    have "v_done i ((view l i)\<lparr>vl := Some e, va := proj i q\<rparr>)" using x by simp
    moreover have "streams (node l) i = None" using finished by (simp add: v_done_def view_sel)
    ultimately show ?thesis
      unfolding to_node_ok [OF assms(2) G(2) dd]
      by (intro node_recv_step [OF assms(1,2) _ assms(3) _ assms(4)]) (auto simp: view_def globals_def)
  qed
qed

lemma node_update_ok:
  assumes "link_ok w l" "c2n l = update_frame i d # q" "d \<noteq> 0" "i \<noteq> 0" "unat i < hi (nextPeerStreamId (node l))"
    "w < 2 ^ 31"
  shows "link_ok w (to_node l)"
proof -
  note G = link_globals [OF assms(1)]
  have va: "va (view l i) = update_frame i d # proj i q" using assms(2) by (simp add: view_def)
  have "stream_ok w l i" using assms(1,4) by (simp add: link_ok_def)
  moreover have "hi (nextPeerStreamId (node l)) \<le> hi (nextStreamId (ctl l))"
    using assms(1) by (simp add: link_ok_def glob_ok_def)
  ultimately consider (live) "v_live w i (view l i)" | (exiting) "v_exiting w i (view l i)" | (finished) "v_done i (view l i)"
    using assms(5) by (auto simp: stream_ok_def)
  then show ?thesis
  proof cases
    case live
    then obtain sc sn where c: "live_core w i (view l i) sc sn" "sstream_ok w Controller sc" "sstream_ok w Node sn"
      by (auto simp: v_live_def)
    then have st: "streams (node l) i = Some sn" "locallyClosed (node l) i = None"
      by (auto simp: live_core_def view_sel)
    define sn1 where "sn1 = sn\<lparr>sendCredit := sendCredit sn + d\<rparr>"
    note u = live_update_node [OF c(1) va assms(6)]
    obtain s' effs r where disp: "dispatch (node l) (update_frame i d) = (s', effs, r)" by (metis prod_cases3)
    have "r = Inr () \<and> (\<exists>st' fs. pushed w Node i sn1 st' fs [] \<and> (\<forall>j. got j effs = []) \<and>
      (s' = (node l)\<lparr>streams := (streams (node l))(i \<mapsto> st')\<rparr> \<and> sent effs = fs \<or>
       exitPending sn \<and> s' = closeLocally (node l) i (peerDataClosed sn) \<and> sendQueue st' = [] \<and>
       (\<exists>ex. sent effs = fs @ [exit_frame i ex])))"
      using update_pushed [OF G(2) st(1) _ u(2) assms(3) disp assms(4), of w] c(3) G(4) by (simp add: sn1_def)
    then obtain st' fs where p: "r = Inr ()" "pushed w Node i sn1 st' fs []" "\<forall>j. got j effs = []"
      "s' = (node l)\<lparr>streams := (streams (node l))(i \<mapsto> st')\<rparr> \<and> sent effs = fs \<or>
       exitPending sn \<and> s' = closeLocally (node l) i (peerDataClosed sn) \<and> sendQueue st' = [] \<and>
       (\<exists>ex. sent effs = fs @ [exit_frame i ex])" by blast
    have P: "live_core w i ((view l i)\<lparr>vn := Some st', va := proj i q, vb := vb (view l i) @ fs\<rparr>) sc st'"
      using live_push_node [OF u(1) [folded sn1_def] p(2)] by (simp add: view_def)
    have pd: "peerDataClosed st' = peerDataClosed sn" using pushedD(5) [OF p(2)] by (simp add: sn1_def)
    note t = to_node_ok [OF assms(2) G(2) disp [unfolded p(1)]]
    from p(4) show ?thesis
    proof (elim disjE conjE exE)
      assume s': "s' = (node l)\<lparr>streams := (streams (node l))(i \<mapsto> st')\<rparr>" "sent effs = fs"
      have "v_live w i ((view l i)\<lparr>vn := Some st', va := proj i q, vb := vb (view l i) @ fs\<rparr>)"
        by (rule live_coreI [OF P c(2) pushedD(1) [OF p(2)]])
      then show ?thesis
        unfolding t s' using st(2) p(3) pushedD(8) [OF p(2)]
        by (intro node_recv_step [OF assms(1,2) _ assms(4) _ assms(5)]) (auto simp: view_def globals_def)
    next
      fix ex
      assume s': "s' = closeLocally (node l) i (peerDataClosed sn)" "sent effs = fs @ [exit_frame i ex]"
        and e: "sendQueue st' = []"
      have "v_exiting w i ((view l i)\<lparr>vn := None, vl := Some (peerDataClosed sn), va := proj i q,
          vb := vb (view l i) @ fs @ [exit_frame i ex]\<rparr>)"
        using exiting_coreI [OF live_exit [OF P e, of ex] c(2)] pd by (simp add: view_def)
      then show ?thesis
        unfolding t s' using p(3) pushedD(8) [OF p(2)]
        by (intro node_recv_step [OF assms(1,2) _ assms(4) _ assms(5)])
          (auto simp: view_def globals_def closeLocally_def)
    qed
  next
    case exiting
    then obtain sc where c: "exiting_core w i (view l i) sc" "sstream_ok w Controller sc"
      by (auto simp: v_exiting_def)
    then obtain closed where vl: "vl (view l i) = Some closed" "vn (view l i) = None" by (auto simp: exiting_core_def)
    have dd: "dispatch (node l) (update_frame i d) = (node l, [], Inr ())"
      using vl assms(3,4) by (intro dispatch_update_closed) (auto simp: view_sel)
    show ?thesis
      unfolding to_node_ok [OF assms(2) G(2) dd]
      using exiting_coreI [OF exiting_cross(2) [OF c(1) va vl(1)] c(2)] vl
      by (intro node_recv_step [OF assms(1,2) _ assms(4) _ assms(5)]) (auto simp: view_def)
  next
    case finished
    then obtain closed where vl: "vl (view l i) = Some closed" "vn (view l i) = None" by (auto simp: v_done_def)
    have dd: "dispatch (node l) (update_frame i d) = (node l, [], Inr ())"
      using vl assms(3,4) by (intro dispatch_update_closed) (auto simp: view_sel)
    show ?thesis
      unfolding to_node_ok [OF assms(2) G(2) dd]
      using done_cross(2) [OF finished va vl(1)] vl
      by (intro node_recv_step [OF assms(1,2) _ assms(4) _ assms(5)]) (auto simp: view_def)
  qed
qed

lemma node_open_ok:
  assumes "link_ok w l" "c2n l = f # q" "is_open f" "w < 2 ^ 31"
  shows "link_ok w (to_node l)"
proof -
  note G = link_globals [OF assms(1)]
  have g: "glob_ok w l" using assms(1) by (simp add: link_ok_def)
  define i where "i = streamId f"
  define hn where "hn = hi (nextPeerStreamId (node l))"
  define hc where "hc = hi (nextStreamId (ctl l))"
  have "[hn..<hc] = unat i # map (unat \<circ> streamId) (filter is_open (control q))"
    using g assms(2,3) by (simp add: glob_ok_def hn_def hc_def i_def)
  then have lt: "hn < hc" "unat i = hn" "map (unat \<circ> streamId) (filter is_open (control q)) = [Suc hn..<hc]"
    by (auto simp: upt_eq_Cons_conv)
  have "hc \<le> 2 ^ 32" using u32_bound [of "nextStreamId (ctl l)"] by (auto simp: hc_def hi_def)
  then have np: "nextPeerStreamId (node l) \<noteq> 0" using lt(1) by (auto simp: hn_def hi_def)
  then have i: "i \<noteq> 0" "i = nextPeerStreamId (node l)"
    using lt(2) by (auto simp: hn_def hi_def split: if_splits intro: unsigned_word_eqI)
  have "stream_ok w l i" using assms(1) i(1) by (simp add: link_ok_def)
  then have op: "v_opening w i (view l i)" "vk (view l i) = None"
    using lt by (auto simp: stream_ok_def hn_def hc_def)
  then obtain r q' where r: "va (view l i) = open_frame i r # q'" "valid_open r" "vn (view l i) = None"
    by (auto simp: v_opening_def)
  have f: "f = open_frame i r" "proj i q = q'"
    using r(1) assms(2) by (auto simp: view_sel i_def split: if_splits)
  have ng: "\<not> receivedGoAway (node l)" "\<not> sentGoAway (node l)"
    using g assms(2,3) by (auto simp: glob_ok_def)
  define W where "W = initialWindow (node l)"
  have dd: "dispatch (node l) f = ((node l)\<lparr>nextPeerStreamId := i + 1, streams := (streams (node l))(i \<mapsto> new_sstream W)\<rparr>,
      [Call (OnOpen i r)], Inr ())"
    unfolding f W_def using r(3) by (intro dispatch_open_ok [OF i(1) G(4) ng(2,1) i(2) r(2)]) (simp add: view_sel)
  define l' where "l' = l\<lparr>node := (node l)\<lparr>nextPeerStreamId := i + 1, streams := (streams (node l))(i \<mapsto> new_sstream W)\<rparr>,
      c2n := q\<rparr>"
  have l': "to_node l = l'" unfolding to_node_ok [OF assms(2) G(2) dd] l'_def by simp
  have hi': "hi (i + 1) = Suc hn" using hi_Suc [OF i(1)] i(2) by (simp add: hn_def)
  have "drain_ok (receivedGoAway (node l)) (control q)"
    using g assms(2,3) f(1) by (auto simp: glob_ok_def)
  then have "glob_ok w l'"
    using g lt assms(2,3) hi' by (auto simp: glob_ok_def l'_def hn_def hc_def conn_frames_def split: if_splits)
  moreover have v: "view l' j = view l j" if "j \<noteq> i" for j
    using that assms(2) i_def by (simp add: view_def l'_def)
  have "view l' i = (view l i)\<lparr>vn := Some (new_sstream W), va := tl (va (view l i))\<rparr>"
    using assms(2) i_def by (simp add: view_def l'_def)
  then have "v_live w i (view l' i)"
    using opening_accept [OF op(1) _ assms(4), of W] G(6) by (simp add: W_def)
  then have "stream_ok w l' i"
    using op(2) lt hi' by (auto simp: stream_ok_def l'_def view_sel hc_def)
  moreover have "stream_ok w l' j" if "j \<noteq> 0" "j \<noteq> i" for j
  proof -
    have "unat j \<noteq> unat i" using that(2) by (metis unsigned_word_eqI)
    then show ?thesis
      using assms(1) that(1) v [OF that(2)] hi' lt
      by (auto simp: link_ok_def stream_ok_def l'_def hn_def hc_def)
  qed
  ultimately have "link_ok w l'" using assms(1) i(1) by (auto simp: link_ok_def l'_def)
  then show ?thesis by (simp add: l')
qed

lemma dispatch_conn_frames:
  "dispatch s (conn_frame FT_Ping) = (s, send s (conn_frame FT_Pong), Inr ())"
  "dispatch s (conn_frame FT_Pong) = (s, [Call OnPong], Inr ())"
  "dispatch s (conn_frame FT_GoAway) = (s\<lparr>receivedGoAway := True\<rparr>, [Call OnGoAway], Inr ())"
  by (simp_all add: dispatch_def dispatch_conn_def validateConnectionFrame_def frame_types)

lemma to_ctl_ok:
  "n2c l = f # q \<Longrightarrow> \<not> protocolFailed (ctl l) \<Longrightarrow> dispatch (ctl l) f = (s, effs, Inr ()) \<Longrightarrow>
   to_ctl l = l\<lparr>ctl := s, n2c := q, c2n := c2n l @ sent effs, c_got := (\<lambda>i. c_got l i @ got i effs)\<rparr>"
  by (simp add: to_ctl_def poison_def)

lemma node_conn_ok:
  assumes "link_ok w l" "c2n l = f # q" "f \<in> {conn_frame FT_Ping, conn_frame FT_Pong, conn_frame FT_GoAway}"
  shows "link_ok w (to_node l)"
proof -
  note G = link_globals [OF assms(1)]
  have g: "glob_ok w l" using assms(1) by (simp add: link_ok_def)
  from assms(3) consider (ping) "f = conn_frame FT_Ping" | (pong) "f = conn_frame FT_Pong"
    | (goaway) "f = conn_frame FT_GoAway" by blast
  then show ?thesis
  proof cases
    case ping
    note t = to_node_ok [OF assms(2) G(2) dispatch_conn_frames(1) [of "node l", folded ping]]
    have "glob_ok w (to_node l)"
      using g assms(2) ping G unfolding t glob_ok_def by (auto simp: conn_frames_def send_def frame_types)
    then show ?thesis
      by (rule conn_step [OF assms(1)]) (use G ping assms(2) in \<open>simp_all add: t send_def\<close>)
  next
    case pong
    note t = to_node_ok [OF assms(2) G(2) dispatch_conn_frames(2) [of "node l", folded pong]]
    have "glob_ok w (to_node l)"
      using g assms(2) pong G unfolding t glob_ok_def by (auto simp: conn_frames_def frame_types)
    then show ?thesis
      by (rule conn_step [OF assms(1)]) (use G pong assms(2) in \<open>simp_all add: t\<close>)
  next
    case goaway
    note t = to_node_ok [OF assms(2) G(2) dispatch_conn_frames(3) [of "node l", folded goaway]]
    have "glob_ok w (to_node l)"
      using g assms(2) goaway G unfolding t glob_ok_def by (auto simp: conn_frames_def frame_types)
    then show ?thesis
      by (rule conn_step [OF assms(1)]) (use G goaway assms(2) in \<open>simp_all add: t\<close>)
  qed
qed

lemma node_receives_ok:
  assumes "link_ok w l" "c2n l \<noteq> []" "w < 2 ^ 31"
  shows "link_ok w (to_node l)"
proof -
  obtain f q where q: "c2n l = f # q" using assms(2) by (cases "c2n l") auto
  show ?thesis
  proof (cases "is_open f \<or> streamId f = 0")
    case True
    have "conn_frames (c2n l) {conn_frame FT_Ping, conn_frame FT_Pong, conn_frame FT_GoAway}"
      using assms(1) by (simp add: link_ok_def glob_ok_def)
    then show ?thesis
      using True q node_open_ok [OF assms(1) q _ assms(3)] node_conn_ok [OF assms(1) q]
      by (cases "is_open f") (auto simp: conn_frames_def)
  next
    case False
    define i where "i = streamId f"
    have va: "va (view l i) = f # proj i q" using q by (simp add: view_sel i_def)
    have so: "stream_ok w l i" using assms(1) False by (simp add: link_ok_def i_def)
    have lt: "unat i < hi (nextPeerStreamId (node l))"
    proof (rule ccontr)
      assume "\<not> ?thesis"
      with so va have "v_opening w i (view l i)"
        by (auto simp: stream_ok_def v_unopened_def split: if_splits)
      with va False show False by (auto simp: v_opening_def)
    qed
    moreover have "hi (nextPeerStreamId (node l)) \<le> hi (nextStreamId (ctl l))"
      using assms(1) by (simp add: link_ok_def glob_ok_def)
    ultimately have "v_live w i (view l i) \<or> v_exiting w i (view l i) \<or> v_done i (view l i)"
      using so by (simp add: stream_ok_def)
    then have "mid Controller i f"
      using va by (auto simp: v_live_def live_core_def v_exiting_def exiting_core_def v_done_def)
    then consider e b where "f = data_frame i Stdout e b" | d where "d \<noteq> 0" "f = update_frame i d"
      by (auto simp: mid_def data_of_def)
    moreover have "i \<noteq> 0" using False by (simp add: i_def)
    ultimately show ?thesis
      using q lt by cases (blast intro: node_data_ok [OF assms(1)] node_update_ok [OF assms(1)] assms(3))+
  qed
qed

subsection \<open>Frames received by the controller\<close>

lemma ctl_recv_step:
  assumes "link_ok w l" "n2c l = f # q" "streamId f = i" "i \<noteq> 0" "\<not> is_open f"
    "unat i < hi (nextPeerStreamId (node l))"
    "globals s' = globals (ctl l)" "frames_of i fs" "\<And>j. j \<noteq> i \<Longrightarrow> lg j = c_got l j"
    "streams s' = (streams (ctl l))(i := S)" "locallyClosed s' = locallyClosed (ctl l)"
  defines "v' \<equiv> (view l i)\<lparr>vc := S, vb := proj i q, va := va (view l i) @ fs, v_cg := lg i\<rparr>"
  assumes "v_live w i v' \<or> v_exiting w i v' \<or> v_done i v'"
  shows "link_ok w (l\<lparr>ctl := s', n2c := q, c2n := c2n l @ fs, c_got := lg\<rparr>)" (is "link_ok w ?l'")
proof (rule local_step [OF assms(1)])
  show "i \<noteq> 0" by (rule assms(4))
  show "globals (ctl ?l') = globals (ctl l)" "globals (node ?l') = globals (node l)"
    using assms(7) by simp_all
  show "view ?l' j = view l j" if "j \<noteq> i" for j
    using that assms(2,3,10,11) assms(9) [OF that] proj_frames_of(2) [OF assms(8)] by (simp add: view_def)
  show "control (c2n ?l') = control (c2n l)" "control (n2c ?l') = control (n2c l)"
    using proj_frames_of(3) [OF assms(8,4)] assms(2-5) by simp_all
  have v: "view ?l' i = v'"
    using proj_frames_of(1) [OF assms(8)] assms(10,11) by (simp add: view_def v'_def)
  have "stream_ok w l i" using assms(1,4) by (simp add: link_ok_def)
  moreover have "nextStreamId s' = nextStreamId (ctl l)" using assms(7) by (simp add: globals_def)
  moreover have "hi (nextPeerStreamId (node l)) \<le> hi (nextStreamId (ctl l))"
    using assms(1) by (simp add: link_ok_def glob_ok_def)
  ultimately show "stream_ok w ?l' i"
    using assms(13,6) unfolding stream_ok_def v by (auto simp: v'_def)
qed

lemma exiting_head:
  assumes "exiting_core w i v sc" "vb v = data_frame i ch e b # q"
  shows "\<not> peerDataClosed sc" "length b + owed sc \<le> w"
proof -
  obtain q' ex where x: "vb v = q' @ [exit_frame i ex]" "ends None q' (peerDataClosed sc)"
     "length (tagged q') + owed sc \<le> w"
    using assms(1) unfolding exiting_core_def by blast
  with assms(2) obtain q'' where "q' = data_frame i ch e b # q''" by (cases q') auto
  with x show "\<not> peerDataClosed sc" "length b + owed sc \<le> w" by (auto simp: ends_def)
qed

lemma ctl_data_ok:
  assumes "link_ok w l" "n2c l = data_frame i ch e b # q" "i \<noteq> 0" "unat i < hi (nextPeerStreamId (node l))"
    "streams (ctl l) i = Some sc" "sstream_ok w Controller sc"
    "(\<exists>sn. live_core w i (view l i) sc sn \<and> sstream_ok w Node sn) \<or> exiting_core w i (view l i) sc"
  shows "link_ok w (to_ctl l)"
proof -
  note G = link_globals [OF assms(1)]
  have vb: "vb (view l i) = data_frame i ch e b # proj i q" using assms(2) by (simp add: view_sel)
  have room: "\<not> peerDataClosed sc" "length b + owed sc \<le> w"
    using assms(7) vb half_head [of w _ i ch e b "proj i q" sc] exiting_head [OF _ vb]
    by (auto simp: live_core_def)
  obtain cw where cw: "cw_onData (recvWindow sc) (of_nat (length b)) = (cw, True)"
      "credit_ok cw" "credit_owed cw = owed sc + length b" "unat (window cw) = w"
    using onData_accepts [OF assms(6) room(2)] by metis
  define sc' where "sc' = sc\<lparr>recvWindow := cw, peerDataClosed := e\<rparr>"
  have lc: "locallyClosed (ctl l) i = None"
    using assms(1,3) by (auto simp: link_ok_def stream_ok_def view_sel)
  have dd: "dispatch (ctl l) (data_frame i ch e b) =
      ((ctl l)\<lparr>streams := (streams (ctl l))(i \<mapsto> sc')\<rparr>, [Call (OnData i b e ch)], Inr ())"
    unfolding sc'_def using G(3) by (intro dispatch_data_live [OF assms(3) _ lc assms(5) room(1) cw(1)]) simp
  define v' where "v' = (view l i)\<lparr>vc := Some sc', vb := proj i q, v_cg := v_cg (view l i) @ tag ch b\<rparr>"
  have ok: "sstream_ok w Controller sc'" unfolding sc'_def by (rule recv_ok(1) [OF assms(6) cw(2,4)])
  have "v_live w i v' \<or> v_exiting w i v'"
    using assms(7) live_data_ctl [OF _ vb cw(3)] exiting_data_ctl [OF _ vb cw(3)] ok
    unfolding v'_def v_live_def v_exiting_def sc'_def by blast
  then show ?thesis
    unfolding to_ctl_ok [OF assms(2) G(1) dd]
    by (intro ctl_recv_step [OF assms(1,2) _ assms(3) _ assms(4), where S = "Some sc'"])
      (auto simp: view_def globals_def v'_def)
qed

lemma ctl_update_ok:
  assumes "link_ok w l" "n2c l = update_frame i d # q" "i \<noteq> 0" "unat i < hi (nextPeerStreamId (node l))"
    "streams (ctl l) i = Some sc" "sstream_ok w Controller sc" "d \<noteq> 0" "w < 2 ^ 31"
    "(\<exists>sn. live_core w i (view l i) sc sn \<and> sstream_ok w Node sn) \<or> exiting_core w i (view l i) sc"
  shows "link_ok w (to_ctl l)"
proof -
  note G = link_globals [OF assms(1)]
  have vb: "vb (view l i) = update_frame i d # proj i q" using assms(2) by (simp add: view_sel)
  have small: "cr sc + unat d < 2 ^ 31"
    using assms(9) live_update_ctl(2) [OF _ vb assms(8)] exiting_update_ctl(2) [OF _ vb assms(8)] by blast
  define sc1 where "sc1 = sc\<lparr>sendCredit := sendCredit sc + d\<rparr>"
  obtain s' effs r where disp: "dispatch (ctl l) (update_frame i d) = (s', effs, r)" by (metis prod_cases3)
  have "\<not> exitPending sc" using assms(6) by (auto simp: sstream_ok_def sstream_base_def)
  then obtain st' where p: "r = Inr ()" "pushed w Controller i sc1 st' (sent effs) []" "\<forall>j. got j effs = []"
      "s' = (ctl l)\<lparr>streams := (streams (ctl l))(i \<mapsto> st')\<rparr>"
    using update_pushed [OF G(1) assms(5) _ small assms(7) disp assms(3), of w] assms(6) G(3)
    by (auto simp: sc1_def)
  define v1 where "v1 = (view l i)\<lparr>vc := Some sc1, vb := proj i q\<rparr>"
  define v' where "v' = v1\<lparr>vc := Some st', va := va v1 @ sent effs, v_cs := v_cs v1 @ []\<rparr>"
  have "(\<exists>sn. live_core w i v1 sc1 sn \<and> sstream_ok w Node sn) \<or> exiting_core w i v1 sc1"
    using assms(9) live_update_ctl(1) [OF _ vb assms(8)] exiting_update_ctl(1) [OF _ vb assms(8)]
    unfolding v1_def sc1_def by blast
  then have "v_live w i v' \<or> v_exiting w i v'"
    using live_push_ctl [OF _ p(2)] exiting_push [OF _ p(2)] pushedD(1) [OF p(2)]
    unfolding v'_def v_live_def v_exiting_def by blast
  then show ?thesis
    unfolding to_ctl_ok [OF assms(2) G(1) disp [unfolded p(1)]]
    using p(3,4) pushedD(8) [OF p(2)]
    by (intro ctl_recv_step [OF assms(1,2) _ assms(3) _ assms(4), where S = "Some st'"])
      (auto simp: view_def globals_def v'_def v1_def)
qed

lemma ctl_exit_frame_ok:
  assumes "link_ok w l" "n2c l = exit_frame i ex # q" "i \<noteq> 0" "unat i < hi (nextPeerStreamId (node l))"
    "streams (ctl l) i = Some sc" "exiting_core w i (view l i) sc"
  shows "link_ok w (to_ctl l)"
proof -
  note G = link_globals [OF assms(1)]
  have vb: "vb (view l i) = exit_frame i ex # proj i q" using assms(2) by (simp add: view_sel)
  have dd: "dispatch (ctl l) (exit_frame i ex) =
      ((ctl l)\<lparr>streams := (streams (ctl l))(i := None)\<rparr>, [Call (OnExit i ex)], Inr ())"
    using assms(3,5) G(3)
    by (simp add: dispatch_def dispatch_exit_def validateStreamFrame_def frame_types)
  show ?thesis
    unfolding to_ctl_ok [OF assms(2) G(1) dd]
    using exiting_exit [OF assms(6) vb]
    by (intro ctl_recv_step [OF assms(1,2) _ assms(3) _ assms(4), where S = None])
      (auto simp: view_def globals_def)
qed

lemma ctl_conn_ok:
  assumes "link_ok w l" "n2c l = f # q" "f \<in> {conn_frame FT_Ping, conn_frame FT_Pong}"
  shows "link_ok w (to_ctl l)"
proof -
  note G = link_globals [OF assms(1)]
  have g: "glob_ok w l" using assms(1) by (simp add: link_ok_def)
  from assms(3) consider (ping) "f = conn_frame FT_Ping" | (pong) "f = conn_frame FT_Pong" by blast
  then show ?thesis
  proof cases
    case ping
    note t = to_ctl_ok [OF assms(2) G(1) dispatch_conn_frames(1) [of "ctl l", folded ping]]
    have "glob_ok w (to_ctl l)"
      using g assms(2) ping G unfolding t glob_ok_def
      by (auto simp: conn_frames_def send_def frame_types drain_ok_append)
    then show ?thesis
      by (rule conn_step [OF assms(1)]) (use G ping assms(2) in \<open>simp_all add: t send_def\<close>)
  next
    case pong
    note t = to_ctl_ok [OF assms(2) G(1) dispatch_conn_frames(2) [of "ctl l", folded pong]]
    have "glob_ok w (to_ctl l)"
      using g assms(2) pong G unfolding t glob_ok_def by (auto simp: conn_frames_def frame_types)
    then show ?thesis
      by (rule conn_step [OF assms(1)]) (use G pong assms(2) in \<open>simp_all add: t\<close>)
  qed
qed

text \<open>What a stream frame on its way to the controller says of its stream.\<close>

lemma n2c_head:
  assumes "link_ok w l" "n2c l = f # q" "streamId f = i" "i \<noteq> 0"
  obtains sc where "unat i < hi (nextPeerStreamId (node l))" "streams (ctl l) i = Some sc" "sstream_ok w Controller sc"
    "mid Node i f \<and> ((\<exists>sn. live_core w i (view l i) sc sn \<and> sstream_ok w Node sn) \<or> exiting_core w i (view l i) sc) \<or>
     (\<exists>ex. f = exit_frame i ex) \<and> exiting_core w i (view l i) sc"
proof -
  have vb: "vb (view l i) = f # proj i q" using assms(2,3) by (simp add: view_sel)
  have so: "stream_ok w l i" using assms(1,4) by (simp add: link_ok_def)
  have "hi (nextPeerStreamId (node l)) \<le> hi (nextStreamId (ctl l))"
    using assms(1) by (simp add: link_ok_def glob_ok_def)
  with so vb have lt: "unat i < hi (nextPeerStreamId (node l))" and
    s: "v_live w i (view l i) \<or> v_exiting w i (view l i)"
    by (auto simp: stream_ok_def v_unopened_def v_opening_def v_done_def split: if_splits)
  from s show thesis
  proof
    assume "v_live w i (view l i)"
    then obtain sc sn where c: "live_core w i (view l i) sc sn" "sstream_ok w Controller sc" "sstream_ok w Node sn"
      by (auto simp: v_live_def)
    then have "mid Node i f" "streams (ctl l) i = Some sc" using vb by (auto simp: live_core_def view_sel)
    with c lt show thesis by (intro that) auto
  next
    assume "v_exiting w i (view l i)"
    then obtain sc where c: "exiting_core w i (view l i) sc" "sstream_ok w Controller sc"
      by (auto simp: v_exiting_def)
    then obtain q' ex where x: "f # proj i q = q' @ [exit_frame i ex]" "\<forall>f \<in> set q'. mid Node i f"
      "streams (ctl l) i = Some sc"
      using vb by (auto simp: exiting_core_def view_sel)
    then have "mid Node i f \<or> f = exit_frame i ex" by (cases q') auto
    with c x(3) lt show thesis by (intro that) auto
  qed
qed

lemma ctl_receives_ok:
  assumes "link_ok w l" "n2c l \<noteq> []" "w < 2 ^ 31"
  shows "link_ok w (to_ctl l)"
proof -
  obtain f q where q: "n2c l = f # q" using assms(2) by (cases "n2c l") auto
  define i where "i = streamId f"
  show ?thesis
  proof (cases "i = 0")
    case True
    have "conn_frames (n2c l) {conn_frame FT_Ping, conn_frame FT_Pong}"
      using assms(1) by (simp add: link_ok_def glob_ok_def)
    then show ?thesis using True q ctl_conn_ok [OF assms(1) q] by (simp add: conn_frames_def i_def)
  next
    case False
    obtain sc where h: "unat i < hi (nextPeerStreamId (node l))" "streams (ctl l) i = Some sc" "sstream_ok w Controller sc"
      "mid Node i f \<and> ((\<exists>sn. live_core w i (view l i) sc sn \<and> sstream_ok w Node sn) \<or> exiting_core w i (view l i) sc) \<or>
       (\<exists>ex. f = exit_frame i ex) \<and> exiting_core w i (view l i) sc"
      using n2c_head [OF assms(1) q i_def [symmetric] False] .
    from h(4) consider
        ch e b where "f = data_frame i ch e b"
          "(\<exists>sn. live_core w i (view l i) sc sn \<and> sstream_ok w Node sn) \<or> exiting_core w i (view l i) sc"
      | d where "d \<noteq> 0" "f = update_frame i d"
          "(\<exists>sn. live_core w i (view l i) sc sn \<and> sstream_ok w Node sn) \<or> exiting_core w i (view l i) sc"
      | ex where "f = exit_frame i ex" "exiting_core w i (view l i) sc"
      unfolding mid_def data_of_def by blast
    then show ?thesis
    proof cases
      case 1
      with q show ?thesis by (intro ctl_data_ok [OF assms(1) _ False h(1-3)]) simp_all
    next
      case 2
      with q show ?thesis by (intro ctl_update_ok [OF assms(1) _ False h(1-3) _ assms(3)]) simp_all
    next
      case 3
      with q show ?thesis by (intro ctl_exit_frame_ok [OF assms(1) _ False h(1,2)]) simp_all
    qed
  qed
qed

subsection \<open>All runs\<close>

lemma ctl_call_ok:
  assumes "link_ok w l" "w < 2 ^ 31"
  shows "link_ok w (ctl_call l a)"
proof (cases a)
  case (ApiExit i ex)
  then have "ctl_call l a = l" using link_globals(3) [OF assms(1)] by (simp add: ctl_call_def sendExit_def)
  with assms show ?thesis by simp
qed (use assms in \<open>simp_all only: ctl_open_ok ctl_send_ok ctl_consume_ok ctl_ping_ok ctl_goaway_ok\<close>)

lemma node_call_ok:
  assumes "link_ok w l" "a \<noteq> ApiGoAway"
  shows "link_ok w (node_call l a)"
proof (cases a)
  case (ApiOpen r)
  then have "node_call l a = l" using link_globals(4) [OF assms(1)] by (simp add: node_call_def s_open_def)
  with assms show ?thesis by simp
qed (use assms in \<open>simp_all only: node_send_ok node_consume_ok node_exit_ok node_ping_ok\<close>)

lemma link_step_ok: "link_step l l' \<Longrightarrow> link_ok w l \<Longrightarrow> w < 2 ^ 31 \<Longrightarrow> link_ok w l'"
  by (induction rule: link_step.induct) (blast intro: ctl_call_ok node_call_ok node_receives_ok ctl_receives_ok)+

lemma link_start_ok: "link_ok (unat w) (link_start w cb nb)"
proof -
  have "stream_ok (unat w) (link_start w cb nb) i" if "i \<noteq> 0" for i
  proof -
    have "1 \<le> unat i" using that by (simp add: Suc_le_eq unat_gt_0)
    then show ?thesis
      by (simp add: stream_ok_def link_start_def Session_def hi_def v_unopened_def view_def)
  qed
  then show ?thesis
    by (simp add: link_ok_def link_start_def glob_ok_def Session_def conn_frames_def hi_def)
qed

lemma reachable_ok:
  assumes "link_step\<^sup>*\<^sup>* (link_start w cb nb) l" "unat w < 2 ^ 31"
  shows "link_ok (unat w) l"
  using assms(1) by (induction rule: rtranclp_induct) (use assms(2) link_start_ok link_step_ok in blast)+

lemma live_credit:
  assumes "link_ok w l" "streams (ctl l) i = Some sc" "streams (node l) i = Some sn"
  shows "cr sc + length (tagged (proj i (c2n l))) + owed sn + updates (proj i (n2c l)) = w"
    "cr sn + length (tagged (proj i (n2c l))) + owed sc + updates (proj i (c2n l)) = w"
proof -
  obtain sc' where "live_core w i (view l i) sc' sn" using node_stream(3) [OF assms(1,3)] by blast
  with assms(2) show "cr sc + length (tagged (proj i (c2n l))) + owed sn + updates (proj i (n2c l)) = w"
    "cr sn + length (tagged (proj i (n2c l))) + owed sc + updates (proj i (c2n l)) = w"
    by (simp_all add: live_core_def half_def view_sel)
qed

lemma link_prefix:
  assumes "link_ok w l" "i \<noteq> 0"
  shows "prefix (n_got l i) (c_sent l i)" "prefix (c_got l i) (n_sent l i)"
proof -
  have "stream_ok w l i" using assms by (simp add: link_ok_def)
  then consider "v_unopened (view l i)" | "v_opening w i (view l i)" | "v_live w i (view l i)"
    | "v_exiting w i (view l i)" | "v_done i (view l i)"
    by (auto simp: stream_ok_def split: if_splits)
  then have "prefix (v_ng (view l i)) (v_cs (view l i)) \<and> prefix (v_cg (view l i)) (v_ns (view l i))"
    by cases (auto simp: v_unopened_def v_opening_def v_live_def live_core_def half_def v_exiting_def
        exiting_core_def v_done_def)
  then show "prefix (n_got l i) (c_sent l i)" "prefix (c_got l i) (n_sent l i)" by (simp_all add: view_sel)
qed

lemma exit_complete:
  assumes "link_ok w l" "n2c l = exit_frame i ex # q" "i \<noteq> 0"
  shows "c_got l i = n_sent l i"
proof -
  obtain sc where x: "exiting_core w i (view l i) sc"
    using n2c_head [OF assms(1,2) _ assms(3)] by (auto simp: mid_def data_of_def)
  have "vb (view l i) = exit_frame i ex # proj i q" using assms(2) by (simp add: view_sel)
  from exiting_exit [OF x this] show ?thesis by (auto simp: v_done_def view_sel)
qed

lemma waiting_credit:
  assumes "sstream_ok w r st" "sendQueue st \<noteq> []"
  shows "cr st = 0"
  using assms by (simp add: sstream_ok_def)

lemma owed_outstanding: "sstream_ok w r st \<Longrightarrow> 0 < owed st \<Longrightarrow> 0 < outstanding (recvWindow st)"
  by (auto simp: sstream_ok_def sstream_base_def credit_ok_def credit_inv_def credit_owed_def word_gt_0)

subsection \<open>A run that starts a stage\<close>

definition ls_request :: open_request where
  "ls_request = \<lparr>argv = [''ls''], cwd = []\<rparr>"

lemma ls_request_valid [simp]: "valid_open ls_request"
  by (simp add: ls_request_def valid_open_def)

definition opened :: link where
  "opened = ctl_call (link_start kDefaultStreamWindow False False) (ApiOpen ls_request)"

definition started :: link where
  "started = to_node opened"

lemma opened_eq:
  "opened = (link_start kDefaultStreamWindow False False)\<lparr>
     ctl := (Session Controller kDefaultStreamWindow)\<lparr>nextStreamId := 2, streams := [1 \<mapsto> new_sstream kDefaultStreamWindow]\<rparr>,
     c2n := [open_frame 1 ls_request]\<rparr>"
proof -
  have "is_ok (validateOpenRequest ls_request)" by (simp add: validateOpenRequest_ok)
  then show ?thesis
    by (simp add: opened_def ctl_call_def link_start_def s_open_def Session_def send_def Let_def)
qed

lemma started_eq:
  "started = opened\<lparr>c2n := [],
     node := (Session Node kDefaultStreamWindow)\<lparr>nextPeerStreamId := 2, streams := [1 \<mapsto> new_sstream kDefaultStreamWindow]\<rparr>\<rparr>"
proof -
  have c: "c2n opened = [open_frame 1 ls_request]" "\<not> protocolFailed (node opened)"
    by (simp_all add: opened_eq link_start_def Session_def)
  have d: "dispatch (node opened) (open_frame 1 ls_request) =
    ((Session Node kDefaultStreamWindow)\<lparr>nextPeerStreamId := 2, streams := [1 \<mapsto> new_sstream kDefaultStreamWindow]\<rparr>,
     [Call (OnOpen 1 ls_request)], Inr ())"
    by (subst dispatch_open_ok) (simp_all add: opened_eq link_start_def Session_def)
  show ?thesis
    unfolding started_def to_node_ok [OF c d] by (simp add: opened_eq link_start_def)
qed

lemma started_reachable: "link_step\<^sup>*\<^sup>* (link_start kDefaultStreamWindow False False) started"
proof -
  have "link_step (link_start kDefaultStreamWindow False False) opened"
    unfolding opened_def by (rule ctl_calls)
  moreover have "link_step opened started"
    unfolding started_def by (rule node_receives) (simp add: opened_eq)
  ultimately show ?thesis by (meson rtranclp.rtrancl_refl rtranclp.rtrancl_into_rtrancl)
qed

lemma default_window_small: "unat kDefaultStreamWindow < 2 ^ 31"
  by (simp add: kDefaultStreamWindow_def)

subsection \<open>Properties\<close>

text \<open>
  C2: on every stream and in both directions, the bytes delivered to the receiving application are
  always a prefix of the bytes the sending application handed in, each on its channel: the wire
  loses, duplicates and reorders nothing.
\<close>

theorem link_in_order:
  assumes "link_step\<^sup>*\<^sup>* (link_start w cb nb) l" "unat w < 2 ^ 31" "i \<noteq> 0"
  shows "prefix (n_got l i) (c_sent l i) \<and> prefix (c_got l i) (n_sent l i)"
  using link_prefix [OF reachable_ok [OF assms(1,2)] assms(3)] by simp

theorem link_in_order_witness:
  "link_step\<^sup>*\<^sup>* (link_start kDefaultStreamWindow False False) started \<and>
   prefix (n_got started 1) (c_sent started 1) \<and> prefix (c_got started 1) (n_sent started 1)"
  using link_in_order [OF started_reachable default_window_small, of 1] started_reachable by simp

text \<open>
  C3: EXIT never overtakes output: when the EXIT of a stream is the next frame the controller
  receives, every byte the node's application accepted for the stream has been delivered.
\<close>

theorem exit_after_all_output:
  assumes "link_step\<^sup>*\<^sup>* (link_start w cb nb) l" "unat w < 2 ^ 31" "n2c l = exit_frame i ex # q" "i \<noteq> 0"
  shows "c_got l i = n_sent l i"
  using exit_complete [OF reachable_ok [OF assms(1,2)] assms(3,4)] .

lemma exited_eq:
  "n2c (node_call started (ApiExit 1 ex)) = [exit_frame 1 ex]"
  by (simp add: node_call_def sendExit_def started_eq opened_eq link_start_def Session_def new_sstream_def send_def)

lemma exited_reachable:
  "link_step\<^sup>*\<^sup>* (link_start kDefaultStreamWindow False False) (node_call started (ApiExit 1 ex))"
  using started_reachable node_calls [of "ApiExit 1 ex" started] by (simp add: rtranclp.rtrancl_into_rtrancl)

theorem exit_after_all_output_witness:
  "\<exists>ex. n2c (node_call started (ApiExit 1 ex)) = [exit_frame 1 ex] \<and>
     c_got (node_call started (ApiExit 1 ex)) 1 = n_sent (node_call started (ApiExit 1 ex)) 1"
  using exit_after_all_output [OF exited_reachable default_window_small exited_eq] exited_eq by auto

text \<open>
  C22: credit is conserved: while both ends have a stream, the sender's credit, the data in flight,
  the bytes the receiver owes and the credit in flight back add up to the window, in each direction.
\<close>

theorem credit_conserved:
  assumes "link_step\<^sup>*\<^sup>* (link_start w cb nb) l" "unat w < 2 ^ 31"
    "streams (ctl l) i = Some sc" "streams (node l) i = Some sn"
  shows "unat (sendCredit sc) + length (tagged (proj i (c2n l))) + credit_owed (recvWindow sn) +
      updates (proj i (n2c l)) = unat w \<and>
    unat (sendCredit sn) + length (tagged (proj i (n2c l))) + credit_owed (recvWindow sc) +
      updates (proj i (c2n l)) = unat w"
  using live_credit [OF reachable_ok [OF assms(1,2)] assms(3,4)] by simp

lemma started_streams:
  "streams (ctl started) 1 = Some (new_sstream kDefaultStreamWindow)"
  "streams (node started) 1 = Some (new_sstream kDefaultStreamWindow)"
  by (simp_all add: started_eq opened_eq)

theorem credit_conserved_witness:
  "\<exists>sc sn. streams (ctl started) 1 = Some sc \<and> streams (node started) 1 = Some sn \<and>
     unat (sendCredit sc) + length (tagged (proj 1 (c2n started))) + credit_owed (recvWindow sn) +
       updates (proj 1 (n2c started)) = 262144"
  using credit_conserved [OF started_reachable default_window_small started_streams] started_streams
  by (simp add: kDefaultStreamWindow_def)

text \<open>
  C23: flow control cannot deadlock: when bytes of a stream wait at the sender, then data or credit
  of the stream is in flight, or the receiving application holds bytes it has not consumed yet.
\<close>

theorem no_credit_deadlock:
  assumes "link_step\<^sup>*\<^sup>* (link_start w cb nb) l" "0 < w" "unat w < 2 ^ 31"
    "streams (ctl l) i = Some sc" "streams (node l) i = Some sn"
  shows "(sendQueue sc \<noteq> [] \<longrightarrow> tagged (proj i (c2n l)) \<noteq> [] \<or> 0 < updates (proj i (n2c l)) \<or>
      0 < outstanding (recvWindow sn)) \<and>
    (sendQueue sn \<noteq> [] \<longrightarrow> tagged (proj i (n2c l)) \<noteq> [] \<or> 0 < updates (proj i (c2n l)) \<or>
      0 < outstanding (recvWindow sc))"
proof -
  note ok = reachable_ok [OF assms(1,3)]
  have s: "sstream_ok (unat w) Controller sc" "sstream_ok (unat w) Node sn"
    using ctl_stream(2) [OF ok assms(4)] node_stream(2) [OF ok assms(5)] .
  have w: "0 < unat w" using assms(2) by (simp add: word_gt_0 unat_gt_0)
  note sum = live_credit [OF ok assms(4,5)]
  have "0 < outstanding (recvWindow sn)"
    if "sendQueue sc \<noteq> []" "tagged (proj i (c2n l)) = []" "updates (proj i (n2c l)) = 0"
    using sum(1) that waiting_credit [OF s(1)] w by (intro owed_outstanding [OF s(2)]) simp
  moreover have "0 < outstanding (recvWindow sc)"
    if "sendQueue sn \<noteq> []" "tagged (proj i (n2c l)) = []" "updates (proj i (c2n l)) = 0"
    using sum(2) that waiting_credit [OF s(2)] w by (intro owed_outstanding [OF s(1)]) simp
  ultimately show ?thesis by blast
qed

theorem no_credit_deadlock_witness:
  "\<exists>sc sn. streams (ctl started) 1 = Some sc \<and> streams (node started) 1 = Some sn \<and>
     (sendQueue sc = [] \<or> 0 < length (tagged (proj 1 (c2n started))) \<or> 0 < updates (proj 1 (n2c started)) \<or>
      0 < outstanding (recvWindow sn))"
proof -
  have "0 < kDefaultStreamWindow" by (simp add: kDefaultStreamWindow_def)
  from no_credit_deadlock [OF started_reachable this default_window_small started_streams]
  show ?thesis using started_streams by blast
qed

text \<open>
  The exception to the freedom of the applications: when the node announces GOAWAY while an OPEN is on its way, it refuses the OPEN
  and with it the whole connection.
\<close>

theorem goaway_race:
  "protocolFailed (node (to_node (node_call opened ApiGoAway))) \<and>
   \<not> protocolFailed (node (to_node opened))"
proof -
  define l where "l = node_call opened ApiGoAway"
  have l: "node l = (Session Node kDefaultStreamWindow)\<lparr>sentGoAway := True\<rparr>" "c2n l = [open_frame 1 ls_request]"
    by (simp_all add: l_def node_call_def goAway_def opened_eq link_start_def Session_def send_def)
  have "isl (snd (snd (dispatch (node l) (open_frame 1 ls_request))))"
    by (simp add: l dispatch_def dispatch_open_def validateStreamFrame_def refuse_def Session_def)
  then have "protocolFailed (node (to_node l))"
    by (auto simp: to_node_def l(2) poison_def split: prod.splits)
  moreover have "\<not> protocolFailed (node started)" by (simp add: started_eq Session_def)
  ultimately show ?thesis by (simp add: started_def l_def)
qed

end
