(* ===== verification/Session_Wire.thy ===== *)
theory Session_Wire
  imports Session_Link
begin

text \<open>
  The two sessions with the real wire between them: what an end writes is the encoded bytes
  (\<open>Session::send\<close>), and what arrives is any chunk of them, handed to \<open>Session::receive\<close> and so
  through the frame decoder with its limit of 16 MiB.  This system refines the frame-wise one of
  \<open>Session_Flow\<close>, as long as every OPEN fits into a frame and the window is no larger than a frame;
  so nothing a session sends is ever refused, neither by the decoder nor by the dispatch.
\<close>

subsection \<open>The system\<close>

record wire =
  wctl :: session
  wnode :: session
  up :: string
  down :: string
  wc_sent :: log
  wn_got :: log
  wn_sent :: log
  wc_got :: log

definition encoded :: "frame list \<Rightarrow> string" where
  "encoded fs = concat (map encodeFrame fs)"

definition silent :: "unit observer" where
  "silent a c s = (a, s, [])"

definition wctl_call :: "wire \<Rightarrow> api \<Rightarrow> wire" where
  "wctl_call l a = (let (s, effs) = api_exec (wctl l) a in
     l\<lparr>wctl := s, up := up l @ encoded (sent effs), wc_sent := (\<lambda>i. wc_sent l i @ accepted (wctl l) a i)\<rparr>)"

definition wnode_call :: "wire \<Rightarrow> api \<Rightarrow> wire" where
  "wnode_call l a = (let (s, effs) = api_exec (wnode l) a in
     l\<lparr>wnode := s, down := down l @ encoded (sent effs), wn_sent := (\<lambda>i. wn_sent l i @ accepted (wnode l) a i)\<rparr>)"

text \<open>The next \<open>k\<close> bytes arrive.\<close>

definition wto_node :: "wire \<Rightarrow> nat \<Rightarrow> wire" where
  "wto_node l k = (let (x, s, out, r) = receive silent () (wnode l) (take k (up l)) in
     l\<lparr>wnode := s, up := drop k (up l), down := down l @ encoded (sent out),
       wn_got := (\<lambda>i. wn_got l i @ got i out)\<rparr>)"

definition wto_ctl :: "wire \<Rightarrow> nat \<Rightarrow> wire" where
  "wto_ctl l k = (let (x, s, out, r) = receive silent () (wctl l) (take k (down l)) in
     l\<lparr>wctl := s, down := drop k (down l), up := up l @ encoded (sent out),
       wc_got := (\<lambda>i. wc_got l i @ got i out)\<rparr>)"

text \<open>
  \<open>open\<close> does not compare the encoded request with the frame limit, and a request that is valid but
  too long is refused by the peer's decoder (\<open>valid_request_exceeds_frame\<close>): the application is
  asked not to make such a request.
\<close>

definition fitting :: "api \<Rightarrow> bool" where
  "fitting a \<longleftrightarrow> (case a of ApiOpen r \<Rightarrow> length (encodeOpen r) \<le> unat kDefaultMaxFramePayload | _ \<Rightarrow> True)"

inductive wire_step :: "wire \<Rightarrow> wire \<Rightarrow> bool" where
  wctl_calls: "fitting a \<Longrightarrow> wire_step l (wctl_call l a)"
| wnode_calls: "a \<noteq> ApiGoAway \<Longrightarrow> wire_step l (wnode_call l a)"
| wnode_receives: "wire_step l (wto_node l k)"
| wctl_receives: "wire_step l (wto_ctl l k)"

definition wire_start :: "u32 \<Rightarrow> bool \<Rightarrow> bool \<Rightarrow> wire" where
  "wire_start w cb nb = \<lparr>
     wctl = (Session Controller w)\<lparr>hasWritableCb := cb\<rparr>,
     wnode = (Session Node w)\<lparr>hasWritableCb := nb\<rparr>,
     up = [], down = [], wc_sent = (\<lambda>i. []), wn_got = (\<lambda>i. []), wn_sent = (\<lambda>i. []), wc_got = (\<lambda>i. [])\<rparr>"

lemma encoded_simps [simp]: "encoded [] = []" "encoded (fs @ gs) = encoded fs @ encoded gs"
  by (simp_all add: encoded_def)

subsection \<open>What the sessions write fits into frames\<close>

abbreviation short :: "frame \<Rightarrow> bool" where "short f \<equiv> fits kDefaultMaxFramePayload f"

lemma shortI: "length (payload f) \<le> n \<Longrightarrow> n \<le> 16 * 1024 * 1024 \<Longrightarrow> short f"
  by (simp add: fits_def kDefaultMaxFramePayload_def)

lemma short_small [simp]: "short (conn_frame t)" "short (exit_frame i ex)" "short (update_frame i d)"
  by (simp_all add: fits_def kDefaultMaxFramePayload_def encodeExit_def encodeWindowUpdate_def)

lemma flush_loop_short: "f \<in> set (snd (flush_loop i st)) \<Longrightarrow> length (payload f) \<le> cr st"
proof (induction i st rule: flush_loop.induct)
  case (1 i st)
  show ?case
  proof (cases "sendQueue st \<noteq> [] \<and> sendCredit st > 0")
    case True
    obtain st1 g where o: "flush_once i st = (st1, g)" by (cases "flush_once i st")
    then have g: "length (payload g) \<le> cr st" by (auto simp: flush_once_def Let_def split_def)
    have "cr st1 \<le> cr st"
      using o by (auto simp: flush_once_def Let_def split_def unat_sub_if_size unat_of_nat)
    moreover have "f = g \<or> f \<in> set (snd (flush_loop i st1))"
      using "1.prems" True o by (auto simp: flush_loop.simps [of i st] Let_def split_def)
    ultimately show ?thesis using "1.IH" [OF True o [symmetric] refl] g by auto
  qed (use 1 in \<open>auto simp: flush_loop.simps [of i st]\<close>)
qed

lemma sent_send [simp]: "sent (send s f) = (if protocolFailed s then [] else [f])"
  by (simp add: send_def)

lemma sent_sends: "f \<in> set (sent (concat (map (send s) fs))) \<Longrightarrow> f \<in> set fs"
  by (induction fs) (auto split: if_splits)

lemma flushStream_short:
  assumes "f \<in> set (sent (snd (flushStream s i st)))" "cr st \<le> 16 * 1024 * 1024"
  shows "short f"
proof -
  have "f \<in> set (snd (flush_loop i st)) \<or> f = data_frame i Stdout True [] \<or> (\<exists>ex. f = exit_frame i ex)"
    using assms(1) by (auto simp: flushStream_def Let_def split_def dest!: sent_sends split: if_splits)
  then show ?thesis
    using flush_loop_short assms(2) by (auto simp: fits_def kDefaultMaxFramePayload_def encodeExit_def dest: le_trans)
qed

lemma api_exec_short:
  assumes "f \<in> set (sent (snd (api_exec s a)))" "\<And>i st. streams s i = Some st \<Longrightarrow> cr st \<le> 16 * 1024 * 1024"
    "fitting a"
  shows "short f"
proof (cases a)
  case (ApiSend i b e ch)
  then have *: "f \<in> set (sent (snd (sendData s i b e ch)))" using assms(1) by simp
  then have acc: "accepts_data s i ch" by (auto simp: sendData_def split: if_splits)
  then obtain st where st: "streams s i = Some st" by (auto simp: accepts_data_def split: option.splits)
  show ?thesis
    using * acc st assms(2) [OF st] by (auto simp: sendData_def Let_def intro!: flushStream_short)
next
  case (ApiOpen r)
  with assms show ?thesis
    by (auto simp: s_open_def open_frame_def fitting_def fits_def Let_def split_def split: if_splits)
qed (use assms in \<open>auto simp: consume_def sendExit_def s_ping_def goAway_def Let_def split_def
    intro: short_small split: if_splits option.splits\<close>)

lemma dispatch_short:
  assumes "g \<in> set (sent (fst (snd (dispatch s f))))"
    "\<And>i st. streams s i = Some st \<Longrightarrow> cr st + updates (proj i [f]) \<le> 16 * 1024 * 1024"
  shows "short g"
proof (cases "ftype f = FT_WindowUpdate")
  case True
  then have "g \<in> set (sent (fst (snd (dispatch_update s f))))"
    using assms(1) by (simp add: dispatch_def frame_types)
  then obtain st d where u: "streams s (streamId f) = Some st" "decodeWindowUpdate (payload f) = Inr d"
      "g \<in> set (sent (snd (flushStream s (streamId f) (st\<lparr>sendCredit := sendCredit st + d\<rparr>))))"
    by (auto simp: dispatch_update_def refuse_def Let_def split_def split: sum.splits option.splits if_splits)
  have "readU32BE (payload f) = d"
    using decodeWindowUpdate_sound [OF u(2)] by simp
  then have "cr st + unat d \<le> 16 * 1024 * 1024"
    using assms(2) [OF u(1)] True by simp
  moreover have "unat (sendCredit st + d) \<le> cr st + unat d" by (simp add: unat_word_ariths)
  ultimately show ?thesis using flushStream_short [OF u(3)] by simp
next
  case False
  have "sent (fst (snd (dispatch_open s f))) = []" "sent (fst (snd (dispatch_data s f))) = []"
    "sent (fst (snd (dispatch_exit s f))) = []"
    by (simp_all add: dispatch_open_def dispatch_data_def dispatch_exit_def refuse_def Let_def split_def
        split: sum.split option.split)
  moreover have "sent (fst (snd (dispatch_conn s f s' effs))) \<in> {[], sent effs}" for s' effs
    by (simp add: dispatch_conn_def split: sum.split)
  note this [of s "send s (conn_frame FT_Pong)"] this [of s "[Call OnPong]"]
    this [of "s\<lparr>receivedGoAway := True\<rparr>" "[Call OnGoAway]"]
  ultimately show ?thesis
    using assms(1) False
    by (auto simp: dispatch_def refuse_def split: if_splits)
qed

subsection \<open>The decoder concerns \<open>receive\<close> only\<close>

definition with_decoder :: "frame_decoder \<Rightarrow> session \<Rightarrow> session" where
  "with_decoder d s = s\<lparr>decoder := d\<rparr>"

lemma with_decoder_simps [simp]:
  "streams (with_decoder d s) = streams s" "protocolFailed (with_decoder d s) = protocolFailed s"
  "srole (with_decoder d s) = srole s" "initialWindow (with_decoder d s) = initialWindow s"
  "locallyClosed (with_decoder d s) = locallyClosed s" "nextStreamId (with_decoder d s) = nextStreamId s"
  "nextPeerStreamId (with_decoder d s) = nextPeerStreamId s" "hasWritableCb (with_decoder d s) = hasWritableCb s"
  "sentGoAway (with_decoder d s) = sentGoAway s" "receivedGoAway (with_decoder d s) = receivedGoAway s"
  "decoder (with_decoder d s) = d" "with_decoder d (with_decoder d' s) = with_decoder d s"
  "send (with_decoder d s) = send s"
  "(with_decoder d s)\<lparr>decoder := d'\<rparr> = with_decoder d' s"
  by (simp_all add: with_decoder_def send_def fun_eq_iff)

lemma with_decoder_updates:
  "(with_decoder d s)\<lparr>streams := ss\<rparr> = with_decoder d (s\<lparr>streams := ss\<rparr>)"
  "(with_decoder d s)\<lparr>locallyClosed := lc\<rparr> = with_decoder d (s\<lparr>locallyClosed := lc\<rparr>)"
  "(with_decoder d s)\<lparr>nextStreamId := n\<rparr> = with_decoder d (s\<lparr>nextStreamId := n\<rparr>)"
  "(with_decoder d s)\<lparr>nextPeerStreamId := n\<rparr> = with_decoder d (s\<lparr>nextPeerStreamId := n\<rparr>)"
  "(with_decoder d s)\<lparr>sentGoAway := g\<rparr> = with_decoder d (s\<lparr>sentGoAway := g\<rparr>)"
  "(with_decoder d s)\<lparr>receivedGoAway := g\<rparr> = with_decoder d (s\<lparr>receivedGoAway := g\<rparr>)"
  by (simp_all add: with_decoder_def)

lemma closeLocally_decoder: "closeLocally (with_decoder d s) i c = with_decoder d (closeLocally s i c)"
  by (simp add: closeLocally_def with_decoder_def)

lemma flushStream_decoder:
  "flushStream (with_decoder d s) i st = map_prod (with_decoder d) id (flushStream s i st)"
  by (simp add: flushStream_def closeLocally_decoder with_decoder_updates Let_def split_def)

lemma accepts_decoder [simp]: "accepts_data (with_decoder d s) i ch = accepts_data s i ch"
  by (simp add: accepts_data_def)

lemma accepted_decoder [simp]: "accepted (with_decoder d s) a = accepted s a"
  by (cases a) (simp_all add: fun_eq_iff)

lemma api_exec_decoder: "api_exec (with_decoder d s) a = map_prod (with_decoder d) id (api_exec s a)"
  by (cases a)
    (auto simp: s_open_def sendData_def consume_def sendExit_def s_ping_def goAway_def flushStream_decoder
      closeLocally_decoder with_decoder_updates Let_def split_def split: option.split)

lemma dispatch_decoder: "dispatch (with_decoder d s) f = map_prod (with_decoder d) id (dispatch s f)"
proof -
  have "dispatch_open (with_decoder d s) f = map_prod (with_decoder d) id (dispatch_open s f)"
    "dispatch_data (with_decoder d s) f = map_prod (with_decoder d) id (dispatch_data s f)"
    "dispatch_exit (with_decoder d s) f = map_prod (with_decoder d) id (dispatch_exit s f)"
    "dispatch_update (with_decoder d s) f = map_prod (with_decoder d) id (dispatch_update s f)"
    by (auto simp: dispatch_open_def dispatch_data_def dispatch_exit_def dispatch_update_def refuse_def
        with_decoder_updates flushStream_decoder Let_def split_def split: sum.split option.split)
  then show ?thesis
    by (auto simp: dispatch_def dispatch_conn_def refuse_def with_decoder_updates split: sum.split)
qed

subsection \<open>Refinement\<close>

lemma ctl_credit:
  assumes "link_ok w l" "streams (ctl l) i = Some sc"
  shows "cr sc + updates (proj i (n2c l)) \<le> w"
proof -
  have v: "vc (view l i) = Some sc" using assms(2) by (simp add: view_def)
  have "sstream_ok w Controller sc" by (rule ctl_stream(2) [OF assms])
  have "\<exists>sn. owed sn = 0 \<and> \<not> peerDataClosed sn"
    by (intro exI [of _ "new_sstream 0"]) simp
  then show ?thesis
    using ctl_stream(3) [OF assms] v
    by (auto simp: v_opening_def live_core_def exiting_core_def half_def view_sel)
qed

lemma node_credit:
  assumes "link_ok w l" "streams (node l) i = Some sn"
  shows "cr sn + updates (proj i (c2n l)) \<le> w"
  using node_stream(3) [OF assms] by (auto simp: live_core_def half_def view_sel)

definition all_short :: "link \<Rightarrow> bool" where
  "all_short l \<longleftrightarrow> (\<forall>f \<in> set (c2n l @ n2c l). short f)"

text \<open>
  The wire system \<open>W\<close> against the frame-wise one: the same sessions but for the decoders, and the
  bytes in flight are the frames in flight, less what the receiving decoder has buffered.
\<close>

definition buffers :: "frame_decoder \<Rightarrow> string \<Rightarrow> frame list \<Rightarrow> bool" where
  "buffers d bytes fs \<longleftrightarrow> decoder_inv d \<and> maxPayload d = kDefaultMaxFramePayload \<and> fd_buffer d @ bytes = encoded fs"

definition implements :: "wire \<Rightarrow> link \<Rightarrow> bool" where
  "implements W l \<longleftrightarrow>
     wctl W = with_decoder (decoder (wctl W)) (ctl l) \<and> wnode W = with_decoder (decoder (wnode W)) (node l) \<and>
     buffers (decoder (wnode W)) (up W) (c2n l) \<and> buffers (decoder (wctl W)) (down W) (n2c l) \<and>
     wc_sent W = c_sent l \<and> wn_got W = n_got l \<and> wn_sent W = n_sent l \<and> wc_got W = c_got l"

lemma decode_prefix:
  assumes "a @ b = encoded fs" "\<forall>f \<in> set fs. short f"
  obtains gs hs rest where "decode_loop kDefaultMaxFramePayload a = (gs, rest, False)" "fs = gs @ hs"
    "rest @ b = encoded hs"
proof -
  let ?m = kDefaultMaxFramePayload
  obtain gs rest bad where a: "decode_loop ?m a = (gs, rest, bad)" by (metis prod_cases3)
  have "decode_loop ?m [] = ([], [], False)" by (simp add: decode_loop.simps kFrameHeaderSize_def)
  then have "decode_loop ?m (a @ b) = (fs, [], False)"
    using decode_loop_frames [OF assms(2), of "[]"] assms(1) by (simp add: encoded_def)
  then obtain hs where h: "\<not> bad" "fs = gs @ hs" "decode_loop ?m (rest @ b) = (hs, [], False)"
    using decode_loop_append [OF a, of b] by (auto simp: Let_def split: if_splits prod.splits)
  show thesis
    using that [of gs rest hs] a h decode_loop_sound [OF h(3)] by (simp add: encoded_def)
qed

lemma react_silent: "react_all silent a effs s = (a, s, effs)"
  by (induction silent a effs s rule: react_all.induct) (simp_all add: silent_def)

lemma dispatch_all_node:
  assumes "link_ok w l" "w < 2 ^ 31" "w \<le> 16 * 1024 * 1024" "all_short l" "c2n l = gs @ hs"
  shows "\<exists>l'. link_step\<^sup>*\<^sup>* l l' \<and> link_ok w l' \<and> all_short l' \<and> (\<exists>out.
      dispatch_all silent () (with_decoder d (node l)) gs = ((), with_decoder d (node l'), out, Inr ()) \<and>
      l' = l\<lparr>node := node l', c2n := hs, n2c := n2c l @ sent out, n_got := (\<lambda>i. n_got l i @ got i out)\<rparr>)"
  using assms(1,4,5)
proof (induction gs arbitrary: l)
  case Nil
  then show ?case by (intro exI [of _ l]) (auto intro!: exI [of _ "[]"])
next
  case (Cons g gs)
  obtain s1 effs r where d: "dispatch (node l) g = (s1, effs, r)" by (metis prod_cases3)
  have step: "link_step l (to_node l)" using Cons.prems(3) by (intro node_receives) simp
  have ok: "link_ok w (to_node l)" by (rule link_step_ok [OF step Cons.prems(1) assms(2)])
  note G = link_globals [OF Cons.prems(1)] link_globals [OF ok]
  have t: "to_node l = l\<lparr>node := poison s1 r, c2n := gs @ hs, n2c := n2c l @ sent effs, n_got := (\<lambda>i. n_got l i @ got i effs)\<rparr>"
    using Cons.prems(3) G(2) d by (simp add: to_node_def)
  have "r = Inr ()" using G(8) by (cases r) (simp_all add: t poison_def)
  with t have t': "to_node l = l\<lparr>node := s1, c2n := gs @ hs, n2c := n2c l @ sent effs, n_got := (\<lambda>i. n_got l i @ got i effs)\<rparr>"
    by (simp add: poison_def)
  have "short f" if "f \<in> set (sent effs)" for f
  proof (rule dispatch_short [where s = "node l" and f = g])
    show "f \<in> set (sent (fst (snd (dispatch (node l) g))))" using that d by simp
    fix i st assume "streams (node l) i = Some st"
    from node_credit [OF Cons.prems(1) this] show "cr st + updates (proj i [g]) \<le> 16 * 1024 * 1024"
      using Cons.prems(3) assms(3) by (auto split: if_splits)
  qed
  then have "all_short (to_node l)" using Cons.prems(2,3) by (auto simp: all_short_def t')
  from Cons.IH [OF ok this, unfolded t', simplified]
  obtain l' out where l': "link_step\<^sup>*\<^sup>* (to_node l) l'" "link_ok w l'" "all_short l'"
    "dispatch_all silent () (with_decoder d s1) gs = ((), with_decoder d (node l'), out, Inr ())"
    "l' = l\<lparr>node := node l', c2n := hs, n2c := n2c l @ sent effs @ sent out, n_got := (\<lambda>i. n_got l i @ got i effs @ got i out)\<rparr>"
    unfolding t' by auto
  have "dispatch_all silent () (with_decoder d (node l)) (g # gs) = ((), with_decoder d (node l'), effs @ out, Inr ())"
    using l'(4) d \<open>r = Inr ()\<close> by (simp add: dispatch_decoder react_silent)
  moreover have "link_step\<^sup>*\<^sup>* l l'" using step l'(1) by simp
  ultimately show ?case
    using l'(2,3,5) by (intro exI [of _ l'] conjI) (auto intro!: exI [of _ "effs @ out"])
qed

lemma dispatch_all_ctl:
  assumes "link_ok w l" "w < 2 ^ 31" "w \<le> 16 * 1024 * 1024" "all_short l" "n2c l = gs @ hs"
  shows "\<exists>l'. link_step\<^sup>*\<^sup>* l l' \<and> link_ok w l' \<and> all_short l' \<and> (\<exists>out.
      dispatch_all silent () (with_decoder d (ctl l)) gs = ((), with_decoder d (ctl l'), out, Inr ()) \<and>
      l' = l\<lparr>ctl := ctl l', n2c := hs, c2n := c2n l @ sent out, c_got := (\<lambda>i. c_got l i @ got i out)\<rparr>)"
  using assms(1,4,5)
proof (induction gs arbitrary: l)
  case Nil
  then show ?case by (intro exI [of _ l]) (auto intro!: exI [of _ "[]"])
next
  case (Cons g gs)
  obtain s1 effs r where d: "dispatch (ctl l) g = (s1, effs, r)" by (metis prod_cases3)
  have step: "link_step l (to_ctl l)" using Cons.prems(3) by (intro ctl_receives) simp
  have ok: "link_ok w (to_ctl l)" by (rule link_step_ok [OF step Cons.prems(1) assms(2)])
  note G = link_globals [OF Cons.prems(1)] link_globals [OF ok]
  have t: "to_ctl l = l\<lparr>ctl := poison s1 r, n2c := gs @ hs, c2n := c2n l @ sent effs, c_got := (\<lambda>i. c_got l i @ got i effs)\<rparr>"
    using Cons.prems(3) G(1) d by (simp add: to_ctl_def)
  have "r = Inr ()" using G(7) by (cases r) (simp_all add: t poison_def)
  with t have t': "to_ctl l = l\<lparr>ctl := s1, n2c := gs @ hs, c2n := c2n l @ sent effs, c_got := (\<lambda>i. c_got l i @ got i effs)\<rparr>"
    by (simp add: poison_def)
  have "short f" if "f \<in> set (sent effs)" for f
  proof (rule dispatch_short [where s = "ctl l" and f = g])
    show "f \<in> set (sent (fst (snd (dispatch (ctl l) g))))" using that d by simp
    fix i st assume "streams (ctl l) i = Some st"
    from ctl_credit [OF Cons.prems(1) this] show "cr st + updates (proj i [g]) \<le> 16 * 1024 * 1024"
      using Cons.prems(3) assms(3) by (auto split: if_splits)
  qed
  then have "all_short (to_ctl l)" using Cons.prems(2,3) by (auto simp: all_short_def t')
  from Cons.IH [OF ok this, unfolded t', simplified]
  obtain l' out where l': "link_step\<^sup>*\<^sup>* (to_ctl l) l'" "link_ok w l'" "all_short l'"
    "dispatch_all silent () (with_decoder d s1) gs = ((), with_decoder d (ctl l'), out, Inr ())"
    "l' = l\<lparr>ctl := ctl l', n2c := hs, c2n := c2n l @ sent effs @ sent out, c_got := (\<lambda>i. c_got l i @ got i effs @ got i out)\<rparr>"
    unfolding t' by auto
  have "dispatch_all silent () (with_decoder d (ctl l)) (g # gs) = ((), with_decoder d (ctl l'), effs @ out, Inr ())"
    using l'(4) d \<open>r = Inr ()\<close> by (simp add: dispatch_decoder react_silent)
  moreover have "link_step\<^sup>*\<^sup>* l l'" using step l'(1) by simp
  ultimately show ?case
    using l'(2,3,5) by (intro exI [of _ l'] conjI) (auto intro!: exI [of _ "effs @ out"])
qed

text \<open>One chunk of bytes: the decoder yields the frames that are complete, and keeps the rest.\<close>

lemma receive_chunk:
  assumes "buffers d bytes fs" "\<forall>f \<in> set fs. short f" "\<not> protocolFailed s"
  obtains gs hs d' where "fs = gs @ hs" "buffers d' (drop k bytes) hs"
    "receive silent () (with_decoder d s) (take k bytes) =
       (let (a', s', out, r) = dispatch_all silent () (with_decoder d' s) gs
        in case r of Inl e \<Rightarrow> (a', s'\<lparr>protocolFailed := True\<rparr>, out, Inl e) | Inr _ \<Rightarrow> (a', s', out, Inr ()))"
proof -
  have b: "decoder_inv d" "maxPayload d = kDefaultMaxFramePayload"
    "(fd_buffer d @ take k bytes) @ drop k bytes = encoded fs"
    using assms(1) by (simp_all add: buffers_def)
  obtain gs hs rest where g: "decode_loop kDefaultMaxFramePayload (fd_buffer d @ take k bytes) = (gs, rest, False)"
      "fs = gs @ hs" "rest @ drop k bytes = encoded hs"
    using decode_prefix [OF b(3) assms(2)] .
  define d' where "d' = d\<lparr>fd_buffer := rest\<rparr>"
  have p: "fd_push d (take k bytes) = (d', gs, Inr ())" "decoder_inv d'"
    using fd_push_cases [OF b(1), of "take k bytes" gs rest False] g(1) b(2) by (simp_all add: d'_def)
  show thesis
  proof (rule that [OF g(2)])
    show "buffers d' (drop k bytes) hs" using p(2) g(3) b(2) by (simp add: buffers_def d'_def)
    show "receive silent () (with_decoder d s) (take k bytes) =
       (let (a', s', out, r) = dispatch_all silent () (with_decoder d' s) gs
        in case r of Inl e \<Rightarrow> (a', s'\<lparr>protocolFailed := True\<rparr>, out, Inl e) | Inr _ \<Rightarrow> (a', s', out, Inr ()))"
      using assms(3) by (simp add: receive_def p(1))
  qed
qed

definition refines :: "nat \<Rightarrow> wire \<Rightarrow> link \<Rightarrow> bool" where
  "refines w W l \<longleftrightarrow> implements W l \<and> link_ok w l \<and> all_short l"

lemma buffers_append: "buffers d bytes fs \<Longrightarrow> buffers d (bytes @ encoded gs) (fs @ gs)"
  by (simp add: buffers_def flip: append_assoc)

lemma receives_node:
  assumes "refines w W l" "w < 2 ^ 31" "w \<le> 16 * 1024 * 1024"
  obtains l' s out where "link_step\<^sup>*\<^sup>* l l'" "refines w (wto_node W k) l'"
    "receive silent () (wnode W) (take k (up W)) = ((), s, out, Inr ())"
proof -
  have im: "wnode W = with_decoder (decoder (wnode W)) (node l)" "buffers (decoder (wnode W)) (up W) (c2n l)"
    using assms(1) unfolding refines_def implements_def by blast+
  have ok: "link_ok w l" "all_short l" using assms(1) by (simp_all add: refines_def)
  then have sh: "\<forall>f \<in> set (c2n l). short f" by (auto simp: all_short_def)
  obtain gs hs d' where g: "c2n l = gs @ hs" "buffers d' (drop k (up W)) hs"
    "receive silent () (with_decoder (decoder (wnode W)) (node l)) (take k (up W)) =
       (let (a', s', out, r) = dispatch_all silent () (with_decoder d' (node l)) gs
        in case r of Inl e \<Rightarrow> (a', s'\<lparr>protocolFailed := True\<rparr>, out, Inl e) | Inr _ \<Rightarrow> (a', s', out, Inr ()))"
    using receive_chunk [OF im(2) sh link_globals(2) [OF ok(1)], of k] .
  obtain l' out where l': "link_step\<^sup>*\<^sup>* l l'" "link_ok w l'" "all_short l'"
      "dispatch_all silent () (with_decoder d' (node l)) gs = ((), with_decoder d' (node l'), out, Inr ())"
      "l' = l\<lparr>node := node l', c2n := hs, n2c := n2c l @ sent out, n_got := (\<lambda>i. n_got l i @ got i out)\<rparr>"
    using dispatch_all_node [OF ok(1) assms(2,3) ok(2) g(1), of d'] by blast
  have r: "receive silent () (wnode W) (take k (up W)) = ((), with_decoder d' (node l'), out, Inr ())"
    using g(3) l'(4) im(1) by simp
  have "ctl l' = ctl l" "c2n l' = hs" "n2c l' = n2c l @ sent out" "n_got l' = (\<lambda>i. n_got l i @ got i out)"
    "c_sent l' = c_sent l" "n_sent l' = n_sent l" "c_got l' = c_got l"
    by (subst l'(5), simp)+
  with assms(1) g(2) have "implements (wto_node W k) l'"
    by (simp add: refines_def implements_def wto_node_def r buffers_append)
  with l'(1-3) r show thesis by (intro that) (auto simp: refines_def)
qed

lemma receives_ctl:
  assumes "refines w W l" "w < 2 ^ 31" "w \<le> 16 * 1024 * 1024"
  obtains l' s out where "link_step\<^sup>*\<^sup>* l l'" "refines w (wto_ctl W k) l'"
    "receive silent () (wctl W) (take k (down W)) = ((), s, out, Inr ())"
proof -
  have im: "wctl W = with_decoder (decoder (wctl W)) (ctl l)" "buffers (decoder (wctl W)) (down W) (n2c l)"
    using assms(1) unfolding refines_def implements_def by blast+
  have ok: "link_ok w l" "all_short l" using assms(1) by (simp_all add: refines_def)
  then have sh: "\<forall>f \<in> set (n2c l). short f" by (auto simp: all_short_def)
  obtain gs hs d' where g: "n2c l = gs @ hs" "buffers d' (drop k (down W)) hs"
    "receive silent () (with_decoder (decoder (wctl W)) (ctl l)) (take k (down W)) =
       (let (a', s', out, r) = dispatch_all silent () (with_decoder d' (ctl l)) gs
        in case r of Inl e \<Rightarrow> (a', s'\<lparr>protocolFailed := True\<rparr>, out, Inl e) | Inr _ \<Rightarrow> (a', s', out, Inr ()))"
    using receive_chunk [OF im(2) sh link_globals(1) [OF ok(1)], of k] .
  obtain l' out where l': "link_step\<^sup>*\<^sup>* l l'" "link_ok w l'" "all_short l'"
      "dispatch_all silent () (with_decoder d' (ctl l)) gs = ((), with_decoder d' (ctl l'), out, Inr ())"
      "l' = l\<lparr>ctl := ctl l', n2c := hs, c2n := c2n l @ sent out, c_got := (\<lambda>i. c_got l i @ got i out)\<rparr>"
    using dispatch_all_ctl [OF ok(1) assms(2,3) ok(2) g(1), of d'] by blast
  have r: "receive silent () (wctl W) (take k (down W)) = ((), with_decoder d' (ctl l'), out, Inr ())"
    using g(3) l'(4) im(1) by simp
  have "node l' = node l" "n2c l' = hs" "c2n l' = c2n l @ sent out" "c_got l' = (\<lambda>i. c_got l i @ got i out)"
    "c_sent l' = c_sent l" "n_sent l' = n_sent l" "n_got l' = n_got l"
    by (subst l'(5), simp)+
  with assms(1) g(2) have "implements (wto_ctl W k) l'"
    by (simp add: refines_def implements_def wto_ctl_def r buffers_append)
  with l'(1-3) r show thesis by (intro that) (auto simp: refines_def)
qed

lemma calls_ctl:
  assumes "refines w W l" "w < 2 ^ 31" "w \<le> 16 * 1024 * 1024" "fitting a"
  shows "refines w (wctl_call W a) (ctl_call l a)"
proof -
  have im: "wctl W = with_decoder (decoder (wctl W)) (ctl l)" "link_ok w l" "all_short l" "implements W l"
    using assms(1) unfolding refines_def implements_def by blast+
  obtain s effs where e: "api_exec (ctl l) a = (s, effs)" by (cases "api_exec (ctl l) a")
  define d where "d = decoder (wctl W)"
  have c: "wctl W = with_decoder d (ctl l)" using im(1) by (simp add: d_def)
  have we: "api_exec (wctl W) a = (with_decoder d s, effs)" "accepted (wctl W) a = accepted (ctl l) a"
    by (simp_all add: c api_exec_decoder e)
  then have eq: "wctl_call W a = W\<lparr>wctl := with_decoder d s, up := up W @ encoded (sent effs),
      wc_sent := (\<lambda>i. wc_sent W i @ accepted (ctl l) a i)\<rparr>"
    by (simp add: wctl_call_def)
  have "short f" if "f \<in> set (sent effs)" for f
  proof (rule api_exec_short [where s = "ctl l" and a = a])
    show "f \<in> set (sent (snd (api_exec (ctl l) a)))" using that e by simp
    show "cr st \<le> 16 * 1024 * 1024" if "streams (ctl l) i = Some st" for i st
      using ctl_credit [OF im(2) that] assms(3) by simp
  qed (rule assms(4))
  then have "all_short (ctl_call l a)" using im(3) e by (auto simp: all_short_def ctl_call_def)
  moreover have "implements (wctl_call W a) (ctl_call l a)"
    using im(4) unfolding eq by (simp add: implements_def ctl_call_def e buffers_append flip: d_def)
  ultimately show ?thesis using ctl_call_ok [OF im(2) assms(2)] by (simp add: refines_def)
qed

lemma calls_node:
  assumes "refines w W l" "w < 2 ^ 31" "w \<le> 16 * 1024 * 1024" "a \<noteq> ApiGoAway"
  shows "refines w (wnode_call W a) (node_call l a)"
proof -
  have im: "wnode W = with_decoder (decoder (wnode W)) (node l)" "link_ok w l" "all_short l" "implements W l"
    using assms(1) unfolding refines_def implements_def by blast+
  obtain s effs where e: "api_exec (node l) a = (s, effs)" by (cases "api_exec (node l) a")
  define d where "d = decoder (wnode W)"
  have c: "wnode W = with_decoder d (node l)" using im(1) by (simp add: d_def)
  have we: "api_exec (wnode W) a = (with_decoder d s, effs)" "accepted (wnode W) a = accepted (node l) a"
    by (simp_all add: c api_exec_decoder e)
  then have eq: "wnode_call W a = W\<lparr>wnode := with_decoder d s, down := down W @ encoded (sent effs),
      wn_sent := (\<lambda>i. wn_sent W i @ accepted (node l) a i)\<rparr>"
    by (simp add: wnode_call_def)
  have "short f" if "f \<in> set (sent effs)" for f
  proof (cases "\<exists>r. a = ApiOpen r")
    case True
    then have "effs = []" using e link_globals(4) [OF im(2)] by (auto simp: s_open_def)
    with that show ?thesis by simp
  next
    case False
    show ?thesis
    proof (rule api_exec_short [where s = "node l" and a = a])
      show "f \<in> set (sent (snd (api_exec (node l) a)))" using that e by simp
      show "cr st \<le> 16 * 1024 * 1024" if "streams (node l) i = Some st" for i st
        using node_credit [OF im(2) that] assms(3) by simp
      show "fitting a" using False by (cases a) (simp_all add: fitting_def)
    qed
  qed
  then have "all_short (node_call l a)" using im(3) e by (auto simp: all_short_def node_call_def)
  moreover have "implements (wnode_call W a) (node_call l a)"
    using im(4) unfolding eq by (simp add: implements_def node_call_def e buffers_append flip: d_def)
  ultimately show ?thesis using node_call_ok [OF im(2) assms(4)] by (simp add: refines_def)
qed

lemma wire_start_refines: "refines (unat w) (wire_start w cb nb) (link_start w cb nb)"
proof -
  have "with_decoder (FrameDecoder kDefaultMaxFramePayload) (s\<lparr>hasWritableCb := b\<rparr>) = s\<lparr>hasWritableCb := b\<rparr>"
    if "decoder s = FrameDecoder kDefaultMaxFramePayload" for s :: session and b
    using that by (cases s) (simp add: with_decoder_def)
  moreover have "buffers (FrameDecoder kDefaultMaxFramePayload) [] []"
    by (simp add: buffers_def) (simp add: FrameDecoder_def)
  ultimately have "implements (wire_start w cb nb) (link_start w cb nb)"
    by (simp add: implements_def wire_start_def link_start_def Session_def)
  then show ?thesis
    using link_start_ok by (simp add: refines_def all_short_def link_start_def)
qed

text \<open>The refinement: every run of the wire system is a run of the frame-wise system.\<close>

lemma wire_refines:
  assumes "wire_step\<^sup>*\<^sup>* (wire_start w cb nb) W" "unat w < 2 ^ 31" "unat w \<le> 16 * 1024 * 1024"
  shows "\<exists>l. link_step\<^sup>*\<^sup>* (link_start w cb nb) l \<and> refines (unat w) W l"
  using assms(1)
proof (induction rule: rtranclp_induct)
  case base
  then show ?case using wire_start_refines by blast
next
  case (step W W')
  then obtain l where l: "link_step\<^sup>*\<^sup>* (link_start w cb nb) l" "refines (unat w) W l" by blast
  from step(2) show ?case
  proof cases
    case (wctl_calls a)
    then show ?thesis
      using calls_ctl [OF l(2) assms(2,3)] l(1) link_step.ctl_calls [of l a]
      by (blast intro: rtranclp.rtrancl_into_rtrancl)
  next
    case (wnode_calls a)
    then show ?thesis
      using calls_node [OF l(2) assms(2,3)] l(1) link_step.node_calls [of a l]
      by (blast intro: rtranclp.rtrancl_into_rtrancl)
  next
    case (wnode_receives k)
    then show ?thesis
      using receives_node [OF l(2) assms(2,3), of k] l(1) by (metis rtranclp_trans)
  next
    case (wctl_receives k)
    then show ?thesis
      using receives_ctl [OF l(2) assms(2,3), of k] l(1) by (metis rtranclp_trans)
  qed
qed

subsection \<open>An OPEN that does not fit\<close>

lemma decode_oversized:
  assumes "unat m < length (payload f)" "length (payload f) < 2 ^ 32"
  shows "decode_loop m (encodeFrame f) = ([], encodeFrame f, True)"
proof -
  have "readU32BE (drop 6 (encodeFrame f)) = of_nat (length (payload f))"
    using header_reads(4) [of f] by simp
  moreover have "(of_nat (length (payload f)) :: u32) > m"
    using assms by (simp add: word_less_nat_alt unat_of_nat)
  ultimately show ?thesis
    by (simp add: decode_loop.simps [of m "encodeFrame f"] length_encodeFrame Let_def)
qed

lemma length_huge: "length (encodeOpen huge_request) = 9 + 200 * 131076"
  unfolding length_encodeOpen huge_request_def by (simp add: sum_list_replicate)

definition wopened_huge :: "u32 \<Rightarrow> wire" where
  "wopened_huge w = wctl_call (wire_start w False False) (ApiOpen huge_request)"

theorem oversized_open_poisons:
  "protocolFailed (wnode (wto_node (wopened_huge w) (length (up (wopened_huge w)))))"
proof -
  let ?f = "open_frame 1 huge_request"
  have up: "up (wopened_huge w) = encodeFrame ?f" "wnode (wopened_huge w) = (Session Node w)\<lparr>hasWritableCb := False\<rparr>"
    using valid_request_exceeds_frame
    by (auto simp: wopened_huge_def wctl_call_def wire_start_def s_open_def Session_def send_def Let_def
        encoded_def split_def)
  have "decode_loop kDefaultMaxFramePayload (encodeFrame ?f) = ([], encodeFrame ?f, True)"
    by (rule decode_oversized) (simp_all add: length_huge kDefaultMaxFramePayload_def)
  then show ?thesis
    by (simp add: wto_node_def up receive_def Session_def FrameDecoder_def fd_push_def Let_def split_def)
qed

subsection \<open>Properties\<close>

text \<open>
  C1: whatever the two applications do, and however the bytes on the wire are cut into chunks, in
  every interleaving, no session meets a protocol error: neither end is poisoned, and \<open>receive\<close>
  accepts whatever bytes come next.  The window is any value both ends agree on up to the frame
  limit of 16 MiB (the default is 256 KiB); the node does not announce GOAWAY (\<open>goaway_race\<close>), and
  the controller opens streams only with requests whose OPEN fits into a frame: \<open>open\<close> itself does
  not check that (\<open>oversized_open_poisons\<close>).
\<close>

theorem link_safe:
  assumes "wire_step\<^sup>*\<^sup>* (wire_start w cb nb) W" "unat w \<le> unat kDefaultMaxFramePayload"
  shows "\<not> protocolFailed (wctl W) \<and> \<not> protocolFailed (wnode W) \<and>
    snd (snd (snd (receive silent () (wnode W) (take k (up W))))) = Inr () \<and>
    snd (snd (snd (receive silent () (wctl W) (take k (down W))))) = Inr ()"
proof -
  have w: "unat w < 2 ^ 31" "unat w \<le> 16 * 1024 * 1024" using assms(2) by (simp_all add: kDefaultMaxFramePayload_def)
  obtain l where l: "refines (unat w) W l" using wire_refines [OF assms(1) w] by blast
  then have "link_ok (unat w) l" "implements W l" by (simp_all add: refines_def)
  then have "\<not> protocolFailed (wctl W)" "\<not> protocolFailed (wnode W)"
    using link_globals(1,2) by (metis implements_def with_decoder_simps(2))+
  then show ?thesis
    using receives_node [OF l w, of k] receives_ctl [OF l w, of k] by (metis snd_conv)
qed

definition wopened :: wire where
  "wopened = wctl_call (wire_start kDefaultStreamWindow False False) (ApiOpen ls_request)"

lemma wopened_reachable: "wire_step\<^sup>*\<^sup>* (wire_start kDefaultStreamWindow False False) wopened"
proof -
  have "length (encodeOpen ls_request) = 15"
    by (simp add: length_encodeOpen ls_request_def)
  then have "fitting (ApiOpen ls_request)" by (simp add: fitting_def kDefaultMaxFramePayload_def)
  then show ?thesis
    unfolding wopened_def by (intro r_into_rtranclp wctl_calls)
qed

theorem link_safe_witness:
  "up wopened = encodeFrame (open_frame 1 ls_request) \<and> \<not> protocolFailed (wnode wopened) \<and>
   snd (snd (snd (receive silent () (wnode wopened) (take 7 (up wopened))))) = Inr ()"
proof -
  have "is_ok (validateOpenRequest ls_request)" by (simp add: validateOpenRequest_ok)
  then have "up wopened = encodeFrame (open_frame 1 ls_request)"
    by (simp add: wopened_def wctl_call_def wire_start_def s_open_def Session_def send_def Let_def encoded_def)
  moreover have "unat kDefaultStreamWindow \<le> unat kDefaultMaxFramePayload"
    by (simp add: kDefaultStreamWindow_def kDefaultMaxFramePayload_def)
  ultimately show ?thesis
    using link_safe [OF wopened_reachable, of 7] by simp
qed

end
