(* ===== verification/Session_Guard.thy ===== *)
theory Session_Guard
  imports Session_Flow
begin

text \<open>
  One session against an arbitrary peer: whatever bytes arrive and whatever the application calls
  in between, every stream keeps its invariant, and the application is never handed more than the
  window of bytes per stream beyond those it has consumed; after a protocol error the session is
  silent.
\<close>

subsection \<open>An application that uses the session's operations\<close>

fun api_run :: "session \<Rightarrow> api list \<Rightarrow> session \<times> effect list" where
  "api_run s [] = (s, [])"
| "api_run s (a # as) = (let (s1, e1) = api_exec s a; (s2, e2) = api_run s1 as in (s2, e1 @ e2))"

lemma fst_api_run [simp]: "fst (api_run s (a # as)) = fst (api_run (fst (api_exec s a)) as)"
  by (simp add: split_def Let_def)

declare api_run.simps(2) [simp del]

definition api_observer :: "('a \<Rightarrow> callback \<Rightarrow> 'a \<times> api list) \<Rightarrow> 'a observer" where
  "api_observer h a c s = (let (a', calls) = h a c; (s', effs) = api_run s calls in (a', s', effs))"

subsection \<open>The invariant\<close>

definition session_ok :: "nat \<Rightarrow> session \<Rightarrow> bool" where
  "session_ok w s \<longleftrightarrow> unat (initialWindow s) = w \<and>
     (\<forall>i st. streams s i = Some st \<longrightarrow> sstream_ok w (srole s) st)"

lemma session_okD: "session_ok w s \<Longrightarrow> streams s i = Some st \<Longrightarrow> sstream_ok w (srole s) st"
  by (simp add: session_ok_def)

lemma session_ok_upd:
  "session_ok w s \<Longrightarrow> sstream_ok w (srole s) st \<Longrightarrow> session_ok w (s\<lparr>streams := (streams s)(i \<mapsto> st)\<rparr>)"
  by (simp add: session_ok_def)

lemma session_ok_close: "session_ok w s \<Longrightarrow> session_ok w (closeLocally s i c)"
  by (simp add: session_ok_def closeLocally_def)

lemma session_ok_new:
  assumes "unat W = w" "w < 2 ^ 31"
  shows "sstream_ok w r (new_sstream W)"
  using assms credit_fits_default [of W] credit_inv_new [of W 0]
  by (simp add: new_sstream_def sstream_ok_def sstream_base_def credit_ok_def segments_ok_def CreditWindow_def)

lemma sstream_ok_recv:
  assumes "sstream_ok w r st" "credit_ok cw" "window cw = window (recvWindow st)"
  shows "sstream_ok w r (st\<lparr>recvWindow := cw\<rparr>)" "sstream_ok w r (st\<lparr>recvWindow := cw, peerDataClosed := e\<rparr>)"
  using assms by (auto simp: sstream_ok_def sstream_base_def)

lemma api_exec_ok:
  assumes "session_ok w s" "w < 2 ^ 31"
  shows "session_ok w (fst (api_exec s a))"
proof (cases a)
  case (ApiOpen r)
  then show ?thesis
    using assms session_ok_new [of "initialWindow s" w] by (auto simp: s_open_def session_ok_def Let_def)
next
  case (ApiSend i b e ch)
  show ?thesis
  proof (cases "accepts_data s i ch")
    case True
    then obtain st where st: "\<not> protocolFailed s" "streams s i = Some st"
      by (auto simp: accepts_data_def split: option.splits)
    obtain s' effs where d: "sendData s i b e ch = (s', effs)" by (cases "sendData s i b e ch")
    from sendData_pushed [OF st(1) True st(2) session_okD [OF assms(1) st(2)] d] show ?thesis
      using ApiSend d session_ok_upd [OF assms(1)] by (auto simp: pushed_def)
  qed (use ApiSend assms in \<open>simp add: sendData_def\<close>)
next
  case (ApiConsume i n)
  show ?thesis
  proof (cases "protocolFailed s \<or> streams s i = None")
    case False
    then obtain st where st: "streams s i = Some st" "\<not> protocolFailed s" by auto
    obtain cw d where c: "cw_onConsumed (recvWindow st) n = (cw, d)" by (cases "cw_onConsumed (recvWindow st) n")
    have ok: "sstream_ok w (srole s) st" using session_okD [OF assms(1) st(1)] .
    then have cr: "credit_inv (recvWindow st)" "credit_fits (recvWindow st)"
      by (simp_all add: sstream_ok_def sstream_base_def credit_ok_def)
    have "credit_ok cw" using cw_onConsumed_ledger [of "recvWindow st" n] c cr by (simp add: credit_ok_def)
    then have "sstream_ok w (srole s) (st\<lparr>recvWindow := cw\<rparr>)"
      using sstream_ok_recv(1) [OF ok] cw_onConsumed_spec(4) [OF cr c] by simp
    then show ?thesis using ApiConsume st c session_ok_upd [OF assms(1)] by (simp add: consume_def)
  qed (use ApiConsume assms in \<open>auto simp: consume_def\<close>)
next
  case (ApiExit i ex)
  then show ?thesis
    using assms(1) session_okD [OF assms(1), of i]
    by (auto simp: sendExit_def session_ok_close sstream_ok_def sstream_base_def
        intro!: session_ok_upd split: option.split)
next
  case ApiPing
  then show ?thesis using assms by (simp add: s_ping_def)
next
  case ApiGoAway
  then show ?thesis using assms by (simp add: goAway_def session_ok_def)
qed

text \<open>No operation and no frame sets the failure flag itself: \<open>receive\<close> does.\<close>

lemma flushStream_failed: "protocolFailed (fst (flushStream s i st)) = protocolFailed s"
  by (simp add: flushStream_def closeLocally_def Let_def split: prod.split)

lemma api_exec_failed: "protocolFailed (fst (api_exec s a)) = protocolFailed s"
  by (cases a) (auto simp: s_open_def sendData_def consume_def sendExit_def s_ping_def goAway_def
      closeLocally_def flushStream_failed Let_def split: option.split prod.split)

lemma dispatch_failed: "protocolFailed (fst (dispatch s f)) = protocolFailed s"
proof -
  have "protocolFailed (fst (dispatch_update s f)) = protocolFailed s"
    by (auto simp: dispatch_update_def refuse_def Let_def split_def flushStream_failed
        split: sum.split option.split)
  moreover have "protocolFailed (fst (dispatch_data s f)) = protocolFailed s"
    "protocolFailed (fst (dispatch_open s f)) = protocolFailed s"
    "protocolFailed (fst (dispatch_exit s f)) = protocolFailed s"
    by (auto simp: dispatch_data_def dispatch_open_def dispatch_exit_def refuse_def Let_def
        split: sum.split option.split prod.split)
  ultimately show ?thesis by (auto simp: dispatch_def dispatch_conn_def refuse_def split: sum.split)
qed

text \<open>A live session that keeps its invariant.\<close>

definition running :: "nat \<Rightarrow> session \<Rightarrow> bool" where
  "running w s \<longleftrightarrow> session_ok w s \<and> \<not> protocolFailed s"

lemma api_run_running: "running w s \<Longrightarrow> w < 2 ^ 31 \<Longrightarrow> running w (fst (api_run s as))"
proof (induction as arbitrary: s)
  case (Cons a as)
  then have "running w (fst (api_exec s a))"
    using api_exec_ok [of w s a] api_exec_failed [of s a] by (simp add: running_def)
  from Cons.IH [OF this Cons.prems(2)] show ?case by simp
qed simp

subsection \<open>Arbitrary frames\<close>

lemma flags_only_zero: "hasOnlyFlags f 0 \<longleftrightarrow> flags f = 0"
  by (simp add: hasOnlyFlags_def)

lemma update_flags: "flags (update_frame i d) = 0"
  by (simp add: update_frame_def)

lemma dispatch_update_ok:
  assumes "session_ok w s" "\<not> protocolFailed s"
  shows "session_ok w (fst (dispatch_update s f))"
proof (cases "\<exists>st d. streams s (streamId f) = Some st \<and> streamId f \<noteq> 0 \<and> flags f = 0 \<and>
    decodeWindowUpdate (payload f) = Inr d \<and> unat (sendCredit st) + unat d \<le> unat kMaxStreamWindow")
  case False
  then show ?thesis
    using assms(1)
    by (auto simp: dispatch_update_def validateStreamFrame_def flags_only_zero refuse_def split: sum.splits option.splits)
next
  case True
  then obtain st d where st: "streams s (streamId f) = Some st" "streamId f \<noteq> 0" "flags f = 0"
    "decodeWindowUpdate (payload f) = Inr d" "unat (sendCredit st) + unat d \<le> unat kMaxStreamWindow" by blast
  have f: "dispatch_update s f = dispatch s (update_frame (streamId f) d)" "d \<noteq> 0"
    using st decodeWindowUpdate_sound [OF st(4)]
    by (simp_all add: dispatch_def dispatch_update_def validateStreamFrame_def flags_only_zero frame_types
        decodeWindowUpdate_encode update_flags)
  obtain s' effs r where d: "dispatch s (update_frame (streamId f) d) = (s', effs, r)" by (metis prod_cases3)
  have "unat (sendCredit st) + unat d < 2 ^ 31" using st(5) by (simp add: kMaxStreamWindow_def)
  from update_pushed [OF assms(2) st(1) session_okD [OF assms(1) st(1)] this f(2) d st(2)]
  show ?thesis
    unfolding f(1) d using session_ok_upd [OF assms(1)] session_ok_close [OF assms(1)]
    by (auto simp: pushed_def)
qed

lemma dispatch_data_ok:
  assumes "session_ok w s"
  shows "session_ok w (fst (dispatch_data s f))"
proof -
  have "session_ok w (s\<lparr>streams := (streams s)(streamId f \<mapsto> st\<lparr>recvWindow := cw, peerDataClosed := e\<rparr>)\<rparr>)"
    if "streams s (streamId f) = Some st" "cw_onData (recvWindow st) n = (cw, True)" for st cw e n
  proof (rule session_ok_upd [OF assms])
    have ok: "sstream_ok w (srole s) st" using session_okD [OF assms that(1)] .
    then have c: "credit_ok (recvWindow st)" by (simp add: sstream_ok_def sstream_base_def)
    then show "sstream_ok w (srole s) (st\<lparr>recvWindow := cw, peerDataClosed := e\<rparr>)"
      using sstream_ok_recv(2) [OF ok] cw_onData_ledger [OF c, of n] that(2) cw_onData_spec(4) [OF _ that(2)]
      by (simp add: credit_ok_def)
  qed
  moreover have "session_ok w (s\<lparr>locallyClosed := x\<rparr>)" for x using assms by (simp add: session_ok_def)
  ultimately show ?thesis
    using assms by (auto simp: dispatch_data_def refuse_def Let_def split: sum.split option.split prod.split)
qed

lemma dispatch_ok:
  assumes "session_ok w s" "\<not> protocolFailed s" "w < 2 ^ 31"
  shows "session_ok w (fst (dispatch s f))"
proof -
  have "session_ok w (fst (dispatch_open s f))" "session_ok w (fst (dispatch_exit s f))"
    "session_ok w (s\<lparr>receivedGoAway := True\<rparr>)"
    using assms session_ok_new [of "initialWindow s" w "srole s"]
    by (auto simp: dispatch_open_def dispatch_exit_def refuse_def session_ok_def split: sum.splits)
  then show ?thesis
    using assms dispatch_update_ok [OF assms(1,2), of f] dispatch_data_ok [OF assms(1), of f]
    by (auto simp: dispatch_def dispatch_conn_def refuse_def split: sum.split)
qed

lemma dispatch_running: "running w s \<Longrightarrow> w < 2 ^ 31 \<Longrightarrow> running w (fst (dispatch s f))"
  using dispatch_ok [of w s f] dispatch_failed [of s f] by (simp add: running_def)

lemma react_all_running:
  "running w s \<Longrightarrow> w < 2 ^ 31 \<Longrightarrow> running w (fst (snd (react_all (api_observer h) a effs s)))"
proof (induction "api_observer h" a effs s rule: react_all.induct)
  case (3 a c effs s)
  obtain a1 s1 o1 where r: "api_observer h a c s = (a1, s1, o1)" by (metis prod_cases3)
  then have "running w s1"
    using api_run_running [OF 3(2,3), of "snd (h a c)"] by (auto simp: api_observer_def split_def Let_def)
  with 3(1) [OF r [symmetric] refl refl] 3(3) r show ?case by (simp add: split_def Let_def)
qed (simp_all add: split_def Let_def)

lemma dispatch_all_running:
  "running w s \<Longrightarrow> w < 2 ^ 31 \<Longrightarrow> running w (fst (snd (dispatch_all (api_observer h) a s fs)))"
proof (induction fs arbitrary: a s)
  case (Cons f fs)
  obtain s1 effs r where d: "dispatch s f = (s1, effs, r)" by (metis prod_cases3)
  obtain a1 s2 out1 where e: "react_all (api_observer h) a effs s1 = (a1, s2, out1)" by (metis prod_cases3)
  have "running w s1" using dispatch_running [OF Cons.prems, of f] d by simp
  then have "running w s2" using react_all_running [of w s1 h a effs] e Cons.prems(2) by simp
  from Cons.IH [OF this Cons.prems(2), of a1] show ?case
    using \<open>running w s2\<close> by (simp add: d e split_def Let_def split: sum.split)
qed simp

lemma receive_ok:
  assumes "session_ok w s" "w < 2 ^ 31"
  shows "session_ok w (fst (snd (receive (api_observer h) a s bytes)))"
proof (cases "protocolFailed s")
  case True
  then show ?thesis using assms by (simp add: receive_def)
next
  case False
  obtain d fs r where p: "fd_push (decoder s) bytes = (d, fs, r)" by (metis prod_cases3)
  have "running w (s\<lparr>decoder := d\<rparr>)" using assms False by (simp add: running_def session_ok_def)
  from dispatch_all_running [OF this assms(2), of h a fs]
  have "session_ok w (fst (snd (dispatch_all (api_observer h) a (s\<lparr>decoder := d\<rparr>) fs)))"
    by (simp only: running_def)
  moreover obtain a' s' out r' where d:
    "dispatch_all (api_observer h) a (s\<lparr>decoder := d\<rparr>) fs = (a', s', out, r')" by (metis prod_cases4)
  ultimately have "session_ok w s'" "session_ok w (s'\<lparr>protocolFailed := True\<rparr>)"
    by (simp_all add: session_ok_def)
  then show ?thesis by (simp add: receive_def False p d split: sum.split)
qed

lemma session_ok_start: "unat W = w \<Longrightarrow> session_ok w (Session r W)"
  by (simp add: session_ok_def Session_def)

text \<open>
  A session as its owner drives it: chunks of bytes from the peer and calls of the application.  The
  application's own record of them goes along: the bytes it was handed by \<open>onData\<close>, and the bytes
  it gave back by \<open>consume\<close>.  The calls of one callback stand for those of the callbacks these calls
  trigger as well: the application is arbitrary.
\<close>

datatype app_event = Handed u32 nat | Used u32 nat

definition handed :: "callback \<Rightarrow> app_event list" where
  "handed c = (case c of OnData i b e ch \<Rightarrow> [Handed i (length b)] | _ \<Rightarrow> [])"

fun used :: "api list \<Rightarrow> app_event list" where
  "used [] = []"
| "used (ApiConsume i n # as) = Used i (unat n) # used as"
| "used (a # as) = used as"

definition recorded :: "('a \<Rightarrow> callback \<Rightarrow> 'a \<times> api list) \<Rightarrow> 'a \<times> app_event list \<Rightarrow> callback \<Rightarrow>
    ('a \<times> app_event list) \<times> api list" where
  "recorded h x c = (let (a', calls) = h (fst x) c in ((a', snd x @ handed c @ used calls), calls))"

text \<open>The bytes of a stream the application holds: handed over, and not given back.\<close>

fun held :: "u32 \<Rightarrow> nat \<Rightarrow> app_event list \<Rightarrow> nat" where
  "held i n [] = n"
| "held i n (Handed j k # es) = held i (if i = j then n + k else n) es"
| "held i n (Used j k # es) = held i (if i = j then n - k else n) es"

datatype drive = Bytes string | Calls "api list"

fun drive_session :: "('a \<Rightarrow> callback \<Rightarrow> 'a \<times> api list) \<Rightarrow> 'a \<times> app_event list \<Rightarrow> session \<Rightarrow> drive list \<Rightarrow>
    session \<times> app_event list" where
  "drive_session h x s [] = (s, snd x)"
| "drive_session h x s (Bytes b # ds) =
     (let (x', s', out, r) = receive (api_observer (recorded h)) x s b in drive_session h x' s' ds)"
| "drive_session h x s (Calls as # ds) =
     drive_session h (fst x, snd x @ used as) (fst (api_run s as)) ds"

subsection \<open>The record against the receive windows\<close>

lemma held_append [simp]: "held i n (es @ fs) = held i (held i n es) fs"
  by (induction i n es rule: held.induct) simp_all

definition within :: "nat \<Rightarrow> app_event list \<Rightarrow> bool" where
  "within w es \<longleftrightarrow> (\<forall>i k. held i 0 (take k es) \<le> w)"

lemma within_Nil [simp]: "within w []"
  by (simp add: within_def)

lemma within_snoc: "within w (es @ [e]) \<longleftrightarrow> within w es \<and> (\<forall>i. held i 0 (es @ [e]) \<le> w)"
proof
  assume *: "within w (es @ [e])"
  have "held i 0 (take k es) \<le> w" for i k
    using * [unfolded within_def, rule_format, of i "min k (length es)"] by (cases "k \<le> length es") simp_all
  moreover have "held i 0 (es @ [e]) \<le> w" for i
    using * [unfolded within_def, rule_format, of i "Suc (length es)"] by simp
  ultimately show "within w es \<and> (\<forall>i. held i 0 (es @ [e]) \<le> w)" by (simp add: within_def)
next
  assume *: "within w es \<and> (\<forall>i. held i 0 (es @ [e]) \<le> w)"
  have "held i 0 (take k (es @ [e])) \<le> w" for i k
    using * by (cases "k \<le> length es") (simp_all add: within_def)
  then show "within w (es @ [e])" by (simp add: within_def)
qed

lemma within_held: "within w es \<Longrightarrow> held i 0 es \<le> w"
  unfolding within_def by (metis take_all_iff order_refl)

lemma within_used: "within w es \<Longrightarrow> within w (es @ [Used i n])"
  using within_held [of w es] by (auto simp: within_snoc intro: order_trans [OF diff_le_self])

text \<open>The identifier the next stream will have, at whichever end opens them.\<close>

definition next_id :: "session \<Rightarrow> u32" where
  "next_id s = (if srole s = Controller then nextStreamId s else nextPeerStreamId s)"

definition exact :: "session \<Rightarrow> app_event list \<Rightarrow> bool" where
  "exact s es \<longleftrightarrow>
     (\<forall>i st. streams s i = Some st \<longrightarrow> held i 0 es = unat (outstanding (recvWindow st))) \<and>
     (next_id s \<noteq> 0 \<longrightarrow> (\<forall>i. next_id s \<le> i \<longrightarrow> streams s i = None \<and> held i 0 es = 0))"

lemma exactD:
  "exact s es \<Longrightarrow> streams s i = Some st \<Longrightarrow> held i 0 es = unat (outstanding (recvWindow st))"
  "exact s es \<Longrightarrow> next_id s \<noteq> 0 \<Longrightarrow> next_id s \<le> i \<Longrightarrow> streams s i = None"
  "exact s es \<Longrightarrow> next_id s \<noteq> 0 \<Longrightarrow> next_id s \<le> i \<Longrightarrow> held i 0 es = 0"
  by (auto simp: exact_def)

text \<open>A step that opens no stream and leaves the receive windows alone.\<close>

definition windows_kept :: "session \<Rightarrow> session \<Rightarrow> bool" where
  "windows_kept s s' \<longleftrightarrow> next_id s' = next_id s \<and>
     (\<forall>i st'. streams s' i = Some st' \<longrightarrow>
        (\<exists>st. streams s i = Some st \<and> outstanding (recvWindow st') = outstanding (recvWindow st)))"

lemma windows_kept_refl [simp]: "windows_kept s s"
  by (simp add: windows_kept_def)

lemma exact_kept: "exact s es \<Longrightarrow> windows_kept s s' \<Longrightarrow> exact s' es"
  unfolding exact_def windows_kept_def by (metis not_None_eq)

lemma flush_loop_window: "recvWindow (fst (flush_loop i st)) = recvWindow st"
proof (induction i st rule: flush_loop.induct)
  case (1 i st)
  show ?case
  proof (cases "sendQueue st \<noteq> [] \<and> sendCredit st > 0")
    case True
    obtain st1 f where o: "flush_once i st = (st1, f)" by (cases "flush_once i st")
    then have "recvWindow st1 = recvWindow st" by (auto simp: flush_once_def Let_def split_def)
    with "1.IH" [OF True o [symmetric] refl] True o show ?thesis
      by (simp add: flush_loop.simps [of i st] split_def Let_def)
  qed (auto simp: flush_loop.simps [of i st])
qed

lemma closeLocally_kept: "windows_kept s (closeLocally s i c)"
  by (simp add: windows_kept_def closeLocally_def next_id_def)

lemma flushStream_kept:
  assumes "streams s i = Some st0" "outstanding (recvWindow st) = outstanding (recvWindow st0)"
  shows "windows_kept s (fst (flushStream s i st))"
proof -
  have "windows_kept s (s\<lparr>streams := (streams s)(i \<mapsto> st2)\<rparr>)"
    if "recvWindow st2 = recvWindow st" for st2
    using that assms by (simp add: windows_kept_def next_id_def)
  then show ?thesis
    using flush_loop_window [of i st] closeLocally_kept [of s i]
    by (auto simp: flushStream_def Let_def split_def)
qed

lemma above_next: "m + 1 \<le> j \<Longrightarrow> m + 1 \<noteq> 0 \<Longrightarrow> m < j" for m j :: u32
  using unatSuc [of m] by (simp add: word_le_nat_alt word_less_nat_alt add.commute)

lemma above_next_iff: "m + 1 \<noteq> 0 \<Longrightarrow> m + 1 \<le> j \<longleftrightarrow> m < j" for m j :: u32
  using unatSuc [of m] by (simp add: word_le_nat_alt word_less_nat_alt add.commute Suc_le_eq)

lemma api_exec_exact:
  assumes "running w s" "exact s es" "w < 2 ^ 31"
  shows "exact (fst (api_exec s a)) (es @ used [a])"
proof -
  have ok: "session_ok w s" using assms(1) by (simp add: running_def)
  show ?thesis
  proof (cases a)
    case (ApiOpen r)
    have "held j 0 es = unat (outstanding (recvWindow (new_sstream (initialWindow s))))"
      if "srole s = Controller" "nextStreamId s \<noteq> 0" "j = nextStreamId s" for j
      using exactD(3) [OF assms(2), of j] that by (simp add: next_id_def new_sstream_def CreditWindow_def)
    then show ?thesis
      using ApiOpen assms(2)
      by (auto simp: s_open_def Let_def exact_def next_id_def dest: above_next intro: less_imp_le)
  next
    case (ApiSend i b e ch)
    have "windows_kept s (fst (sendData s i b e ch))"
      by (auto simp: sendData_def accepts_data_def Let_def intro!: flushStream_kept split: option.splits)
    then show ?thesis using ApiSend exact_kept [OF assms(2)] by simp
  next
    case (ApiConsume i n)
    show ?thesis
    proof (cases "streams s i")
      case (Some st)
      obtain cw d where c: "cw_onConsumed (recvWindow st) n = (cw, d)" by (cases "cw_onConsumed (recvWindow st) n")
      have "credit_inv (recvWindow st)" "credit_fits (recvWindow st)"
        using session_okD [OF ok Some] by (simp_all add: sstream_ok_def sstream_base_def credit_ok_def)
      from cw_onConsumed_spec(1) [OF this c] show ?thesis
        using ApiConsume Some c assms(1,2) by (auto simp: consume_def running_def exact_def next_id_def)
    qed (use ApiConsume assms(1,2) in \<open>auto simp: consume_def running_def exact_def next_id_def\<close>)
  next
    case (ApiExit i ex)
    have "windows_kept s (fst (sendExit s i ex))"
      by (auto simp: sendExit_def closeLocally_kept windows_kept_def next_id_def split: option.split)
        (auto simp: closeLocally_def next_id_def split: if_splits)
    then show ?thesis using ApiExit exact_kept [OF assms(2)] by simp
  next
    case ApiPing
    then show ?thesis using assms(2) by (simp add: s_ping_def)
  next
    case ApiGoAway
    then show ?thesis using exact_kept [OF assms(2)] by (auto simp: goAway_def windows_kept_def next_id_def)
  qed
qed

lemma used_append: "used (as @ bs) = used as @ used bs"
  by (induction as rule: used.induct) simp_all

text \<open>
  The record and the session agree: the application never held more than \<open>w\<close> bytes of a stream, and
  in a live session it holds exactly what the receive window counts.
\<close>

definition agrees :: "nat \<Rightarrow> session \<Rightarrow> app_event list \<Rightarrow> bool" where
  "agrees w s es \<longleftrightarrow> within w es \<and> (\<not> protocolFailed s \<longrightarrow> running w s \<and> exact s es)"

lemma api_run_agrees:
  assumes "agrees w s es" "w < 2 ^ 31"
  shows "agrees w (fst (api_run s as)) (es @ used as)"
  using assms(1)
proof (induction as arbitrary: s es)
  case (Cons a as)
  have "within w (es @ used [a])"
    using Cons.prems within_used [of w es] by (cases a) (simp_all add: agrees_def)
  then have "agrees w (fst (api_exec s a)) (es @ used [a])"
    using Cons.prems api_run_running [of w s "[a]"] api_exec_exact [of w s es a] assms(2)
    by (simp add: agrees_def api_exec_failed)
  from Cons.IH [OF this] show ?case
    using used_append [of "[a]" as] by simp
qed simp

text \<open>What a frame hands to the application is held in the window it came through.\<close>

definition pending :: "effect list \<Rightarrow> app_event list" where
  "pending effs = concat (map (\<lambda>e. case e of Write f \<Rightarrow> [] | Call c \<Rightarrow> handed c) effs)"

lemma pending_simps [simp]:
  "pending [] = []" "pending (Write f # effs) = pending effs"
  "pending (Call c # effs) = handed c @ pending effs" "pending (effs @ effs') = pending effs @ pending effs'"
  by (simp_all add: pending_def)

lemma pending_writes [simp]: "pending (map Write fs) = []" "pending (send s f) = []"
  by (induction fs) (simp_all add: send_def)

lemma pending_sends [simp]: "pending (concat (map (send s) fs)) = []"
  by (induction fs) simp_all

lemma flushStream_pending: "pending (snd (flushStream s i st)) = []"
  by (auto simp: flushStream_def Let_def split_def handed_def)

lemma dispatch_data_agrees:
  assumes "running w s" "agrees w s es" "length (payload f) < 2 ^ 32" "dispatch_data s f = (s', effs, r)"
  shows "within w (es @ pending effs) \<and> exact s' (es @ pending effs) \<and> length effs \<le> 1"
proof (cases "effs = []")
  case True
  then have "windows_kept s s'"
    using assms(4)
    by (auto simp: dispatch_data_def refuse_def Let_def windows_kept_def next_id_def
        split: sum.splits option.splits prod.splits if_splits)
  with True assms(1,2) show ?thesis using exact_kept by (auto simp: agrees_def running_def)
next
  case False
  then obtain st cw e ch where d: "streams s (streamId f) = Some st"
    "cw_onData (recvWindow st) (of_nat (length (payload f))) = (cw, True)"
    "s' = s\<lparr>streams := (streams s)(streamId f \<mapsto> st\<lparr>recvWindow := cw, peerDataClosed := e\<rparr>)\<rparr>"
    "effs = [Call (OnData (streamId f) (payload f) e ch)]"
    using assms(4)
    by (auto simp: dispatch_data_def refuse_def Let_def split: sum.splits option.splits prod.splits if_splits)
  have x: "within w es" "exact s es" using assms(1,2) by (auto simp: agrees_def running_def)
  have cr: "credit_inv (recvWindow st)" "unat (window (recvWindow st)) = w"
    using session_okD [of w s] d(1) assms(1) by (auto simp: running_def sstream_ok_def sstream_base_def credit_ok_def)
  note o = cw_onData_spec(1,2,4) [OF cr(1) d(2)]
  have "held (streamId f) 0 es + length (payload f) = unat (outstanding cw)"
    using o(1) exactD(1) [OF x(2) d(1)] assms(3) by (simp add: unat_of_nat)
  moreover have "unat (outstanding cw) \<le> w"
    using o(2,3) cr(2) by (simp add: credit_inv_def word_le_nat_alt)
  moreover have "exact s' (es @ pending effs)"
    using x(2) d calculation(1) by (auto simp: exact_def next_id_def handed_def)
  ultimately show ?thesis
    using d(4) x(1) within_held [OF x(1)] by (simp add: handed_def within_snoc)
qed

lemma dispatch_agrees:
  assumes "running w s" "agrees w s es" "length (payload f) < 2 ^ 32" "dispatch s f = (s', effs, r)"
  shows "within w (es @ pending effs) \<and> exact s' (es @ pending effs) \<and> (pending effs = [] \<or> length effs \<le> 1)"
proof -
  have x: "within w es" "exact s es" using assms(1,2) by (auto simp: agrees_def running_def)
  have plain: ?thesis if "windows_kept s s'" "pending effs = []"
    using that x exact_kept by simp
  consider "ftype f = FT_Data" | "ftype f = FT_Open" | "ftype f \<noteq> FT_Data" "ftype f \<noteq> FT_Open" by blast
  then show ?thesis
  proof cases
    case 1
    then have "dispatch_data s f = (s', effs, r)" using assms(4) by (simp add: dispatch_def)
    with dispatch_data_agrees [OF assms(1-3)] show ?thesis by blast
  next
    case 2
    then have o: "dispatch_open s f = (s', effs, r)" using assms(4) by (simp add: dispatch_def)
    then have "exact s' es"
      using x(2) exactD(3) [OF x(2)]
      by (auto simp: dispatch_open_def refuse_def exact_def next_id_def new_sstream_def CreditWindow_def
          validateStreamFrame_def above_next_iff intro: less_imp_le split: sum.splits if_splits)
    moreover have "pending effs = []"
      using o by (auto simp: dispatch_open_def refuse_def handed_def split: sum.splits if_splits)
    ultimately show ?thesis using x(1) by simp
  next
    case 3
    have "windows_kept s s' \<and> pending effs = []"
    proof (cases "ftype f = FT_WindowUpdate")
      case True
      then have u: "dispatch_update s f = (s', effs, r)" using assms(4) by (simp add: dispatch_def frame_types)
      show ?thesis
      proof (cases "\<exists>st d. streams s (streamId f) = Some st \<and>
          (s', effs) = flushStream s (streamId f) (st\<lparr>sendCredit := d\<rparr>)")
        case True
        then obtain st d where f: "streams s (streamId f) = Some st"
          "(s', effs) = flushStream s (streamId f) (st\<lparr>sendCredit := d\<rparr>)" by blast
        have "windows_kept s (fst (flushStream s (streamId f) (st\<lparr>sendCredit := d\<rparr>)))"
          by (rule flushStream_kept [OF f(1)]) simp
        then show ?thesis
          using flushStream_pending [of s "streamId f" "st\<lparr>sendCredit := d\<rparr>"] by (simp flip: f(2))
      next
        case False
        have no: "flushStream s (streamId f) (st\<lparr>sendCredit := d\<rparr>) \<noteq> (s', effs)"
          if "streams s (streamId f) = Some st" for st d using False that by metis
        then show ?thesis
          using u by (cases "streams s (streamId f)"; cases "validateStreamFrame f 0";
              cases "decodeWindowUpdate (payload f)")
            (auto simp: dispatch_update_def refuse_def Let_def split: prod.splits if_splits)
      qed
    next
      case False
      with 3 assms(4) show ?thesis
        by (auto simp: dispatch_def dispatch_conn_def dispatch_exit_def refuse_def windows_kept_def next_id_def
            handed_def split: sum.splits if_splits)
    qed
    then show ?thesis using plain by blast
  qed
qed

text \<open>Afterwards the application reacts, and goes on with the next frame.\<close>

abbreviation "recorder h \<equiv> api_observer (recorded h)"

lemma recorder_reacts:
  "recorder h x c s = (let (a', calls) = h (fst x) c; (s', effs) = api_run s calls
     in ((a', (snd x @ handed c) @ used calls), s', effs))"
  by (simp add: api_observer_def recorded_def Let_def split_def)

lemma react_all_agrees:
  assumes "agrees w s (snd x @ pending effs)" "pending effs = [] \<or> length effs \<le> 1" "w < 2 ^ 31"
    "react_all (recorder h) x effs s = (x', s', out)"
  shows "agrees w s' (snd x')"
  using assms
proof (induction effs arbitrary: x s x' s' out)
  case (Cons e effs)
  show ?case
  proof (cases e)
    case (Write f)
    then show ?thesis
      using Cons.prems Cons.IH [of s x] by (auto simp: Let_def split: prod.splits)
  next
    case (Call c)
    obtain a1 calls where h: "h (fst x) c = (a1, calls)" by (cases "h (fst x) c")
    obtain s1 e1 where r: "api_run s calls = (s1, e1)" by (cases "api_run s calls")
    obtain x2 s2 o2 where rest: "react_all (recorder h) (a1, snd x @ handed c @ used calls) effs s1 = (x2, s2, o2)"
      by (metis prod_cases3)
    have none: "pending effs = []" using Cons.prems(2) Call by (cases effs) auto
    with Cons.prems(1) Call have "agrees w s (snd x @ handed c)" by simp
    from api_run_agrees [OF this assms(3), of calls]
    have "agrees w s1 (snd x @ handed c @ used calls)" using r by simp
    with Cons.IH [OF _ _ Cons.prems(3) rest] none have "agrees w s2 (snd x2)" by simp
    moreover have "recorder h x c s = ((a1, snd x @ handed c @ used calls), s1, e1)"
      by (simp add: recorder_reacts h r)
    ultimately show ?thesis
      using Cons.prems(4) Call rest by simp
  qed
qed simp

lemma dispatch_all_agrees:
  assumes "running w s" "agrees w s (snd x)" "\<forall>f \<in> set fs. length (payload f) < 2 ^ 32" "w < 2 ^ 31"
    "dispatch_all (recorder h) x s fs = (x', s', out, r)"
  shows "agrees w s' (snd x') \<and> running w s'"
  using assms
proof (induction fs arbitrary: x s x' s' out r)
  case (Cons f fs)
  obtain s1 effs r1 where d: "dispatch s f = (s1, effs, r1)" by (metis prod_cases3)
  obtain x1 s2 out1 where e: "react_all (recorder h) x effs s1 = (x1, s2, out1)" by (metis prod_cases3)
  have run: "running w s1" "running w s2"
    using dispatch_running [OF Cons.prems(1,4), of f] react_all_running [of w s1 "recorded h" x effs] d e
      Cons.prems(4) by simp_all
  have "agrees w s1 (snd x @ pending effs)" "pending effs = [] \<or> length effs \<le> 1"
    using dispatch_agrees [OF Cons.prems(1,2) _ d] Cons.prems(3) run(1) by (auto simp: agrees_def)
  from react_all_agrees [OF this Cons.prems(4) e] have s2: "agrees w s2 (snd x1)" .
  note ih = Cons.IH [OF run(2) s2 _ Cons.prems(4)]
  show ?case
    using ih Cons.prems(3,5) run(2) s2 by (auto simp: d e Let_def split: sum.splits prod.splits)
qed auto

lemma fd_push_short: "fd_push d bytes = (d', fs, r) \<Longrightarrow> f \<in> set fs \<Longrightarrow> length (payload f) < 2 ^ 32"
  using decode_loop_sound [of "maxPayload d"] u32_bound [of "maxPayload d"]
  by (fastforce simp: fd_push_def fits_def Let_def split: if_splits prod.splits)

lemma receive_agrees:
  assumes "agrees w s (snd x)" "w < 2 ^ 31" "receive (recorder h) x s bytes = (x', s', out, r)"
  shows "agrees w s' (snd x')"
proof (cases "protocolFailed s")
  case True
  then show ?thesis using assms by (auto simp: receive_def)
next
  case False
  obtain d fs r1 where p: "fd_push (decoder s) bytes = (d, fs, r1)" by (metis prod_cases3)
  obtain x1 s1 out1 r2 where e: "dispatch_all (recorder h) x (s\<lparr>decoder := d\<rparr>) fs = (x1, s1, out1, r2)"
    by (metis prod_cases4)
  have "running w (s\<lparr>decoder := d\<rparr>)" "agrees w (s\<lparr>decoder := d\<rparr>) (snd x)"
    using assms(1) False by (simp_all add: agrees_def running_def session_ok_def exact_def next_id_def)
  from dispatch_all_agrees [OF this _ assms(2) e] fd_push_short [OF p]
  have "agrees w s1 (snd x1)" by blast
  then show ?thesis
    using assms(3) False p e by (auto simp: receive_def agrees_def split: sum.splits)
qed

lemma drive_agrees:
  "agrees w s (snd x) \<Longrightarrow> w < 2 ^ 31 \<Longrightarrow> drive_session h x s ds = (s', es) \<Longrightarrow> agrees w s' es"
proof (induction h x s ds rule: drive_session.induct)
  case (2 h x s b ds)
  obtain x1 s1 out r where r: "receive (recorder h) x s b = (x1, s1, out, r)" by (metis prod_cases4)
  have "agrees w s1 (snd x1)" using receive_agrees [of w s x h b] r "2.prems" by simp
  with "2.IH" [OF r [symmetric] refl refl refl] "2.prems" r show ?case by simp
next
  case (3 h x s as ds)
  have "agrees w (fst (api_run s as)) (snd x @ used as)" by (rule api_run_agrees [OF 3(2,3)])
  with 3 show ?case by simp
qed simp

lemma agrees_start: "unat W = w \<Longrightarrow> agrees w (Session r W) []"
  using session_ok_start [of W w r] by (auto simp: agrees_def running_def exact_def Session_def)

lemma drive_session_ok:
  "session_ok w s \<Longrightarrow> w < 2 ^ 31 \<Longrightarrow> session_ok w (fst (drive_session h x s ds))"
proof (induction h x s ds rule: drive_session.induct)
  case (2 h x s b ds)
  then show ?case using receive_ok [of w s "recorded h" x b] by (auto split: prod.splits)
next
  case (3 h x s as ds)
  have "session_ok w (fst (api_run s as))"
    using "3.prems"
  proof (induction as arbitrary: s)
    case (Cons x xs)
    then show ?case using api_exec_ok [of w s x] by simp
  qed simp
  with 3 show ?case by simp
qed simp

subsection \<open>Properties\<close>

text \<open>
  C24: no peer can overrun a session: from a fresh session, whatever bytes arrive (valid or not) and
  whatever the application calls, at every moment the application was handed at most one window of
  bytes of each stream beyond those it had consumed until then; a stream of a live session counts
  exactly these bytes; and the send queue of a stream is accounted for.
\<close>

theorem session_bounded:
  assumes "unat W < 2 ^ 31" "drive_session h (a, []) (Session r W) ds = (s, es)"
  shows "held i 0 (take k es) \<le> unat W \<and>
    (case streams s i of None \<Rightarrow> True | Some st \<Rightarrow>
       (protocolFailed s \<or> unat (outstanding (recvWindow st)) = held i 0 es) \<and>
       sendBytes st = length (qbytes (sendQueue st)) \<and> (sendQueue st = [] \<or> sendCredit st = 0))"
proof -
  have "agrees (unat W) s es"
    using drive_agrees [OF _ assms(1,2)] agrees_start [of W] by simp
  moreover have "session_ok (unat W) s"
    using drive_session_ok [OF session_ok_start [OF refl] assms(1), of h "(a, [])" r ds] assms(2) by simp
  ultimately show ?thesis
    using session_okD [of "unat W" s i]
    by (auto simp: agrees_def within_def sstream_ok_def dest: exactD(1) split: option.split)
qed

theorem session_bounded_witness:
  "\<exists>s. drive_session (\<lambda>a c. (a, [])) ((), []) (Session Controller 8)
      [Calls [ApiOpen \<lparr>argv = [''ls''], cwd = []\<rparr>], Bytes (encodeFrame (data_frame 1 Stdout False ''abc'')),
       Calls [ApiConsume 1 2]] = (s, [Handed 1 3, Used 1 2]) \<and>
     held 1 0 (take 1 [Handed 1 3, Used 1 2]) \<le> unat (8 :: u32)"
proof -
  let ?ds = "[Calls [ApiOpen \<lparr>argv = [''ls''], cwd = []\<rparr>],
      Bytes (encodeFrame (data_frame 1 Stdout False ''abc'')), Calls [ApiConsume 1 2]]"
  let ?s = "(Session Controller 8)\<lparr>nextStreamId := 2, streams := [1 \<mapsto> new_sstream 8]\<rparr>"
  let ?f = "data_frame 1 Stdout False ''abc''"
  have "is_ok (validateOpenRequest \<lparr>argv = [''ls''], cwd = []\<rparr>)"
    by (simp add: validateOpenRequest_ok valid_open_def)
  then have open1: "fst (api_run (Session Controller 8) [ApiOpen \<lparr>argv = [''ls''], cwd = []\<rparr>]) = ?s"
    by (simp add: s_open_def Session_def Let_def)
  have "decode_loop kDefaultMaxFramePayload (encodeFrame ?f @ []) = ([?f], [], False)"
    by (subst decode_loop_frame)
      (simp_all add: fits_def kDefaultMaxFramePayload_def decode_loop.simps [of _ "[]"] kFrameHeaderSize_def)
  then have push: "fd_push (decoder ?s) (encodeFrame ?f) = (decoder ?s, [?f], Inr ())"
    by (simp add: Session_def fd_push_def FrameDecoder_def)
  have run: "\<not> protocolFailed ?s" "?s\<lparr>decoder := decoder ?s\<rparr> = ?s" by (simp_all add: Session_def)
  obtain s' where data: "dispatch ?s ?f = (s', [Call (OnData 1 ''abc'' False Stdout)], Inr ())"
    by (simp add: dispatch_def frame_types_distinct Session_def dispatch_data_def validateStreamFrame_def
        new_sstream_def CreditWindow_def cw_onData_def sendable_def)
  have "receive (recorder (\<lambda>a c. (a, []))) ((), []) ?s (encodeFrame ?f) =
      (((), [Handed 1 3]), s', [Call (OnData 1 ''abc'' False Stdout)], Inr ())"
    unfolding receive_def push run(2) by (simp add: run(1) [simplified] data recorder_reacts handed_def)
  then obtain s where d: "drive_session (\<lambda>a c. (a, [])) ((), []) (Session Controller 8) ?ds =
      (s, [Handed 1 3, Used 1 2])"
    by (simp add: open1 del: fst_api_run)
  show ?thesis
    using d session_bounded [OF _ d, of 1 1] by auto
qed

text \<open>
  C33: a poisoned session is silent: every operation and every further byte leaves it as it is,
  writes nothing and calls nobody; \<open>receive\<close> reports an error.
\<close>

theorem poisoned_silent:
  assumes "protocolFailed s"
  shows "api_exec s a = (s, []) \<and> receive react x s bytes =
    (x, s, [], Inl (protocolError ''session poisoned by an earlier protocol error''))"
  using assms
  by (cases a) (auto simp: s_open_def sendData_def accepts_data_def consume_def sendExit_def s_ping_def
      goAway_def receive_def)

theorem poisoned_silent_witness:
  "\<exists>s. protocolFailed s \<and> streams s 1 = Some (new_sstream 8) \<and> api_exec s (ApiConsume 1 5) = (s, [])"
proof -
  let ?s = "(Session Node 8)\<lparr>protocolFailed := True, streams := [1 \<mapsto> new_sstream 8]\<rparr>"
  have "protocolFailed ?s" by simp
  from poisoned_silent [OF this, of "ApiConsume 1 5" "\<lambda>a c s. (a, s, [])" "()" "[]"]
  have "protocolFailed ?s \<and> streams ?s 1 = Some (new_sstream 8) \<and>
      api_exec ?s (ApiConsume 1 5) = (?s, [])"
    by (simp del: api_exec.simps)
  then show ?thesis by blast
qed

end
