(* ===== verification/Byte_Fifo.thy ===== *)
theory Byte_Fifo
  imports Prelude
begin

text \<open>
  The contract the byte channels of the stream layer share: bytes accepted by a \<open>put\<close> come out
  of later \<open>get\<close>s once, unchanged and in order, and no operation leaves its domain.  The
  in-memory ring, the disk spill and the stream built from both are instances.
\<close>

datatype fifo_op = Put string | Get nat

text \<open>A run of a channel, with all bytes it accepted and all bytes it delivered.\<close>

fun fifo_run :: "('s \<Rightarrow> string \<Rightarrow> ('s \<times> nat) option) \<Rightarrow> ('s \<Rightarrow> nat \<Rightarrow> ('s \<times> string) option) \<Rightarrow>
    's \<Rightarrow> fifo_op list \<Rightarrow> ('s \<times> string \<times> string) option" where
  "fifo_run put get s [] = Some (s, [], [])"
| "fifo_run put get s (Put d # ops) = do {
     (s1, n) \<leftarrow> put s d;
     (s2, accepted, delivered) \<leftarrow> fifo_run put get s1 ops;
     Some (s2, take n d @ accepted, delivered)
   }"
| "fifo_run put get s (Get k # ops) = do {
     (s1, out) \<leftarrow> get s k;
     (s2, accepted, delivered) \<leftarrow> fifo_run put get s1 ops;
     Some (s2, accepted, out @ delivered)
   }"

locale byte_fifo =
  fixes inv :: "'s \<Rightarrow> bool"
    and bytes :: "'s \<Rightarrow> string"
    and put :: "'s \<Rightarrow> string \<Rightarrow> ('s \<times> nat) option"
    and get :: "'s \<Rightarrow> nat \<Rightarrow> ('s \<times> string) option"
  assumes put_law: "inv s \<Longrightarrow> \<exists>s' n. put s d = Some (s', n) \<and> inv s' \<and> n \<le> length d \<and>
      bytes s' = bytes s @ take n d"
    and get_law: "inv s \<Longrightarrow> \<exists>s' out. get s k = Some (s', out) \<and> inv s' \<and> length out \<le> k \<and>
      bytes s = out @ bytes s'"
begin

lemma fifo_order:
  assumes "inv s"
  shows "\<exists>s' accepted delivered. fifo_run put get s ops = Some (s', accepted, delivered) \<and>
    inv s' \<and> bytes s @ accepted = delivered @ bytes s'"
  using assms
proof (induction ops arbitrary: s)
  case Nil
  then show ?case by simp
next
  case (Cons op ops)
  show ?case
  proof (cases op)
    case (Put d)
    obtain s1 n where s1: "put s d = Some (s1, n)" "inv s1" "bytes s1 = bytes s @ take n d"
      using put_law [OF Cons.prems] by blast
    then show ?thesis using Cons.IH [of s1] Put by force
  next
    case (Get k)
    obtain s1 out where s1: "get s k = Some (s1, out)" "inv s1" "bytes s = out @ bytes s1"
      using get_law [OF Cons.prems] by blast
    then show ?thesis using Cons.IH [of s1] Get by force
  qed
qed

text \<open>From an empty channel, what has been delivered is always a prefix of what was accepted.\<close>

lemma delivered_prefix:
  assumes "inv s" "bytes s = []"
  shows "\<exists>s' accepted delivered. fifo_run put get s ops = Some (s', accepted, delivered) \<and>
    accepted = delivered @ bytes s'"
  using fifo_order [OF assms(1), of ops] assms(2) by auto

end

text \<open>
  A channel whose \<open>get\<close> never returns fewer bytes than it could: then asking for enough
  bytes empties it.
\<close>

locale eager_fifo = byte_fifo +
  assumes get_eager: "inv s \<Longrightarrow> get s k = Some (s', out) \<Longrightarrow> length out < k \<Longrightarrow> bytes s' = []"
begin

lemma drain:
  assumes "inv s" "length (bytes s) \<le> k"
  shows "\<exists>s'. get s k = Some (s', bytes s) \<and> inv s' \<and> bytes s' = []"
proof -
  obtain s' out where s': "get s k = Some (s', out)" "inv s'" "length out \<le> k"
      "bytes s = out @ bytes s'"
    using get_law [OF assms(1)] by blast
  have "bytes s' = []"
  proof (cases "length out < k")
    case True
    with get_eager [OF assms(1) s'(1)] show ?thesis by simp
  next
    case False
    with s' assms(2) have "length (bytes s') = 0" by simp
    then show ?thesis by simp
  qed
  with s' show ?thesis by simp
qed

lemma get_front:
  assumes "inv s"
  shows "\<exists>s'. get s k = Some (s', take k (bytes s)) \<and> inv s' \<and> bytes s' = drop k (bytes s)"
proof -
  obtain s' out where s': "get s k = Some (s', out)" "inv s'" "length out \<le> k"
      "bytes s = out @ bytes s'"
    using get_law [OF assms] by blast
  have "length out = k \<or> bytes s' = []"
    using get_eager [OF assms s'(1)] s'(3) by linarith
  with s' show ?thesis by auto
qed

end

end
