(* ===== verification/Bounded_Buffer.thy ===== *)
theory Bounded_Buffer
  imports Byte_Fifo
begin

text \<open>
  \<open>psx::stream::BoundedBuffer\<close> (\<open>include/psx/stream/bounded_buffer.hpp\<close>,
  \<open>src/stream/bounded_buffer.cpp\<close>): a fixed allocation used as a ring.  The model keeps the
  ring: the storage, the head index and the bb_size, the two-part copies and the remainders.
  \<open>content\<close> reads the ring as the byte sequence it stands for, and the lemmas show that
  every operation acts on that sequence as its policy promises and never leaves the allocation.
\<close>

subsection \<open>State\<close>

datatype OverflowPolicy = Block | DropNewest | DropOldest | Spool

definition dropsOnOverflow :: "OverflowPolicy \<Rightarrow> bool" where
  "dropsOnOverflow policy \<longleftrightarrow> policy = DropNewest \<or> policy = DropOldest"

record bounded_buffer =
  storage :: string
  capacity :: nat
  head :: nat
  bb_size :: nat
  dropped :: u64
  policy :: OverflowPolicy

definition BoundedBuffer :: "nat \<Rightarrow> OverflowPolicy \<Rightarrow> bounded_buffer" where
  "BoundedBuffer cap pol =
     \<lparr>storage = replicate cap (CHR 0x00), capacity = cap, head = 0, bb_size = 0,
      dropped = 0, policy = pol\<rparr>"

definition available :: "bounded_buffer \<Rightarrow> nat" where
  "available b = capacity b - bb_size b"

definition bb_empty :: "bounded_buffer \<Rightarrow> bool" where
  "bb_empty b \<longleftrightarrow> bb_size b = 0"

definition bb_full :: "bounded_buffer \<Rightarrow> bool" where
  "bb_full b \<longleftrightarrow> bb_size b = capacity b"

subsection \<open>Operations\<close>

text \<open>\<open>appendUpTo\<close>: copy what fits behind the tail, in at most two runs.\<close>

definition appendUpTo :: "bounded_buffer \<Rightarrow> string \<Rightarrow> (bounded_buffer \<times> nat) option" where
  "appendUpTo b data =
     (let n = min (length data) (available b) in
      if n = 0 then Some (b, 0)
      else do {
        tail \<leftarrow> checked_mod (head b + bb_size b) (capacity b);
        let firstRun = min n (capacity b - tail);
        st \<leftarrow> memcpy_to (storage b) tail (take firstRun data);
        st' \<leftarrow> (if n > firstRun
               then memcpy_to st 0 (take (n - firstRun) (drop firstRun data)) else Some st);
        Some (b\<lparr>storage := st', bb_size := bb_size b + n\<rparr>, n)
      })"

definition discardFront :: "bounded_buffer \<Rightarrow> nat \<Rightarrow> bounded_buffer" where
  "discardFront b n0 =
     (let n = min n0 (bb_size b) in
      b\<lparr>head := (head b + n) mod (if capacity b = 0 then 1 else capacity b),
        bb_size := bb_size b - n\<rparr>)"

definition bb_clear :: "bounded_buffer \<Rightarrow> bounded_buffer" where
  "bb_clear b = b\<lparr>head := 0, bb_size := 0\<rparr>"

text \<open>\<open>bb_append\<close>: the policy decides what happens to the bytes that do not fit.\<close>

definition bb_append :: "bounded_buffer \<Rightarrow> string \<Rightarrow> (bounded_buffer \<times> nat) option" where
  "bb_append b data =
     (if capacity b = 0 \<or> data = [] then
        (if dropsOnOverflow (policy b)
         then Some (b\<lparr>dropped := dropped b + of_nat (length data)\<rparr>, length data)
         else Some (b, 0))
      else case policy b of
        Block \<Rightarrow> appendUpTo b data
      | Spool \<Rightarrow> appendUpTo b data
      | DropNewest \<Rightarrow> do {
          (b', accepted) \<leftarrow> appendUpTo b data;
          Some (b'\<lparr>dropped := dropped b' + of_nat (length data - accepted)\<rparr>, length data)
        }
      | DropOldest \<Rightarrow>
          (if length data \<ge> capacity b then do {
             let b1 = b\<lparr>dropped := dropped b + of_nat (bb_size b + (length data - capacity b))\<rparr>;
             (b', accepted) \<leftarrow> appendUpTo (bb_clear b1) (drop (length data - capacity b) data);
             Some (b', length data)
           }
           else do {
             let b1 =
               (if length data > available b
                then let evict = length data - available b in
                     discardFront (b\<lparr>dropped := dropped b + of_nat evict\<rparr>) evict
                else b);
             (b', accepted) \<leftarrow> appendUpTo b1 data;
             Some (b', length data)
           }))"

text \<open>
  \<open>bb_consume\<close>: the copy loop runs until \<open>n\<close> bytes have been copied; the recursion carries
  the bytes copied so far (\<open>out.data()\<close> up to \<open>copied\<close>).
\<close>

partial_function (option) bb_consume_loop ::
  "bounded_buffer \<Rightarrow> nat \<Rightarrow> string \<Rightarrow> (bounded_buffer \<times> string) option" where
  "bb_consume_loop b n out =
     (if length out < n then do {
        let run = min (n - length out) (capacity b - head b);
        bytes \<leftarrow> memcpy_from (storage b) (head b) run;
        h \<leftarrow> checked_mod (head b + run) (capacity b);
        bb_consume_loop (b\<lparr>head := h\<rparr>) n (out @ bytes)
      } else Some (b, out))"

definition bb_consume :: "bounded_buffer \<Rightarrow> nat \<Rightarrow> (bounded_buffer \<times> string) option" where
  "bb_consume b outSize =
     (let n = min outSize (bb_size b) in do {
        (b', out) \<leftarrow> bb_consume_loop b n [];
        Some (b'\<lparr>bb_size := bb_size b' - n\<rparr>, out)
      })"

definition bb_peek :: "bounded_buffer \<Rightarrow> string option" where
  "bb_peek b =
     (if bb_size b = 0 then Some []
      else memcpy_from (storage b) (head b) (min (bb_size b) (capacity b - head b)))"

subsection \<open>Invariant and abstraction\<close>

definition buffer_inv :: "bounded_buffer \<Rightarrow> bool" where
  "buffer_inv b \<longleftrightarrow> length (storage b) = capacity b \<and> bb_size b \<le> capacity b \<and>
     (capacity b = 0 \<longrightarrow> head b = 0) \<and> (0 < capacity b \<longrightarrow> head b < capacity b)"

definition content :: "bounded_buffer \<Rightarrow> string" where
  "content b = map (\<lambda>i. storage b ! ((head b + i) mod capacity b)) [0..<bb_size b]"

lemma length_content [simp]: "length (content b) = bb_size b"
  by (simp add: content_def)

lemma content_nth: "i < bb_size b \<Longrightarrow> content b ! i = storage b ! ((head b + i) mod capacity b)"
  by (simp add: content_def)

lemma content_update_counters [simp]:
  "content (b\<lparr>dropped := d\<rparr>) = content b" "content (bb_clear b) = []"
  by (simp_all add: content_def bb_clear_def)

lemma buffer_inv_update_counters [simp]:
  "buffer_inv (b\<lparr>dropped := d\<rparr>) = buffer_inv b" "buffer_inv b \<Longrightarrow> buffer_inv (bb_clear b)"
  by (auto simp: buffer_inv_def bb_clear_def)

lemma bb_clear_fields [simp]:
  "capacity (bb_clear b) = capacity b" "bb_size (bb_clear b) = 0" "dropped (bb_clear b) = dropped b"
  "policy (bb_clear b) = policy b" "available (bb_clear b) = capacity b"
  by (simp_all add: bb_clear_def available_def)

lemma buffer_inv_new [simp]: "buffer_inv (BoundedBuffer cap pol)"
  by (simp add: buffer_inv_def BoundedBuffer_def)

lemma content_new [simp]: "content (BoundedBuffer cap pol) = []"
  by (simp add: content_def BoundedBuffer_def)

text \<open>Two positions of the ring differ when their offsets differ by less than the capacity.\<close>

lemma ring_offset_cases:
  fixes h i c :: nat
  assumes "h < c" "i < c"
  shows "(h + i) mod c = (if h + i < c then h + i else h + i - c)"
  using assms by (simp add: mod_if)

text \<open>Where the \<open>j\<close>-th of \<open>n\<close> appended bytes lands: in the first run or after the wrap.\<close>

lemma ring_write_index:
  fixes h s n c j t r :: nat
  assumes "h < c" "s + n \<le> c" "j < n" "t = (if h + s < c then h + s else h + s - c)"
    "r = min n (c - t)"
  shows "(t \<le> (h + (s + j)) mod c \<and> (h + (s + j)) mod c < t + r \<and> (h + (s + j)) mod c - t = j) \<or>
    ((h + (s + j)) mod c < t \<and> (h + (s + j)) mod c < n - r \<and> r + (h + (s + j)) mod c = j)"
proof (cases "h + (s + j) < c")
  case True
  then show ?thesis using assms by simp
next
  case False
  with assms have "(h + (s + j)) mod c = h + (s + j) - c"
    using ring_offset_cases [of h c "s + j"] by simp
  with False assms show ?thesis by (cases "h + s < c") auto
qed

lemma ring_keep_index:
  fixes h s n c i t r :: nat
  assumes "h < c" "s + n \<le> c" "i < s" "t = (if h + s < c then h + s else h + s - c)"
    "r = min n (c - t)"
  shows "\<not> (t \<le> (h + i) mod c \<and> (h + i) mod c < t + r) \<and> \<not> (h + i) mod c < n - r"
proof (cases "h + i < c")
  case True
  then show ?thesis using assms by auto
next
  case False
  with assms have "(h + i) mod c = h + i - c"
    using ring_offset_cases [of h c i] by simp
  with False assms show ?thesis by auto
qed

subsection \<open>appendUpTo\<close>

text \<open>The storage after the (at most two) copies of \<open>appendUpTo\<close>, position by position.\<close>

lemma two_part_copy:
  fixes old data :: string
  assumes "t < c" "length old = c" "n \<le> length data" "r = min n (c - t)" "n - r \<le> t"
  shows "\<exists>mid new. memcpy_to old t (take r data) = Some mid \<and>
    (if n > r then memcpy_to mid 0 (take (n - r) (drop r data)) else Some mid) = Some new \<and>
    length new = c \<and>
    (\<forall>k < c. new ! k = (if t \<le> k \<and> k < t + r then data ! (k - t)
                     else if k < n - r then data ! (r + k) else old ! k))"
proof -
  define mid where "mid = take t old @ take r data @ drop (t + r) old"
  define new where "new = (if n > r then take (n - r) (drop r data) @ drop (n - r) mid else mid)"
  have lens: "length (take r data) = r" "length mid = c" "t + r \<le> c"
    using assms by (auto simp: mid_def)
  then have "length new = c" using assms by (auto simp: new_def)
  moreover have "new ! k = (if t \<le> k \<and> k < t + r then data ! (k - t)
      else if k < n - r then data ! (r + k) else old ! k)" if "k < c" for k
  proof -
    have "mid ! k = (if t \<le> k \<and> k < t + r then data ! (k - t) else old ! k)"
      using nth_overwrite [of t "take r data" old k] that assms(2) lens by (auto simp: mid_def)
    with that assms(3,5) lens show ?thesis by (auto simp: new_def nth_append)
  qed
  moreover have "memcpy_to old t (take r data) = Some mid"
    using assms lens by (simp add: mid_def)
  moreover have "(if n > r then memcpy_to mid 0 (take (n - r) (drop r data)) else Some mid) = Some new"
    using assms(3,5) lens by (cases "r < n") (simp_all add: new_def)
  ultimately show ?thesis by blast
qed

lemma appendUpTo_nonempty:
  assumes inv: "buffer_inv b" and n: "n = min (length data) (available b)" "0 < n"
  shows "\<exists>st. appendUpTo b data = Some (b\<lparr>storage := st, bb_size := bb_size b + n\<rparr>, n) \<and>
    length st = capacity b \<and>
    (\<forall>i < bb_size b. st ! ((head b + i) mod capacity b) = storage b ! ((head b + i) mod capacity b)) \<and>
    (\<forall>j < n. st ! ((head b + (bb_size b + j)) mod capacity b) = data ! j)"
proof -
  define t where "t = (head b + bb_size b) mod capacity b"
  define r where "r = min n (capacity b - t)"
  have c: "length (storage b) = capacity b" "head b < capacity b" "bb_size b + n \<le> capacity b"
    "n \<le> length data"
    using inv n by (auto simp: buffer_inv_def available_def)
  then have t: "t < capacity b" by (simp add: t_def)
  have t_cases: "t = (if head b + bb_size b < capacity b then head b + bb_size b
      else head b + bb_size b - capacity b)"
    using c n(2) ring_offset_cases [of "head b" "capacity b" "bb_size b"] by (simp add: t_def)
  then have wrap: "n - r \<le> t" using c by (auto simp: r_def split: if_splits)
  obtain mid st where copies: "memcpy_to (storage b) t (take r data) = Some mid"
      "(if n > r then memcpy_to mid 0 (take (n - r) (drop r data)) else Some mid) = Some st"
    and st: "length st = capacity b"
      "\<forall>k < capacity b. st ! k = (if t \<le> k \<and> k < t + r then data ! (k - t)
          else if k < n - r then data ! (r + k) else storage b ! k)"
    using two_part_copy [OF t c(1,4) r_def wrap] by blast
  have "appendUpTo b data = Some (b\<lparr>storage := st, bb_size := bb_size b + n\<rparr>, n)"
    using c n(2) copies
    by (cases "r < n") (simp_all add: appendUpTo_def Let_def n(1) [symmetric] t_def [symmetric] r_def [symmetric])
  moreover have "st ! ((head b + i) mod capacity b) = storage b ! ((head b + i) mod capacity b)"
    if "i < bb_size b" for i
    using st(2) ring_keep_index [OF c(2,3) that t_cases r_def] c(2) by (simp; blast)
  moreover have "st ! ((head b + (bb_size b + j)) mod capacity b) = data ! j" if "j < n" for j
  proof -
    define k where "k = (head b + (bb_size b + j)) mod capacity b"
    have "k < capacity b" using c(2) by (simp add: k_def)
    from ring_write_index [OF c(2,3) that t_cases r_def, folded k_def]
    have "st ! k = data ! j"
      by (rule disjE) (use st(2) \<open>k < capacity b\<close> in simp_all)
    then show ?thesis by (simp add: k_def)
  qed
  ultimately show ?thesis using st(1) by blast
qed

lemma appendUpTo_spec:
  assumes inv: "buffer_inv b"
  shows "\<exists>b'. appendUpTo b data = Some (b', min (length data) (available b)) \<and>
    buffer_inv b' \<and> content b' = content b @ take (available b) data \<and>
    capacity b' = capacity b \<and> dropped b' = dropped b \<and> policy b' = policy b"
proof (cases "min (length data) (available b) = 0")
  case True
  then show ?thesis using inv by (auto simp: appendUpTo_def min_def split: if_splits)
next
  case False
  define n where "n = min (length data) (available b)"
  obtain st where eq: "appendUpTo b data = Some (b\<lparr>storage := st, bb_size := bb_size b + n\<rparr>, n)"
    and st: "length st = capacity b"
      "\<forall>i < bb_size b. st ! ((head b + i) mod capacity b) = storage b ! ((head b + i) mod capacity b)"
      "\<forall>j < n. st ! ((head b + (bb_size b + j)) mod capacity b) = data ! j"
    using appendUpTo_nonempty [OF inv n_def] False by (auto simp: n_def)
  have "content (b\<lparr>storage := st, bb_size := bb_size b + n\<rparr>) = content b @ take n data"
  proof (rule nth_equalityI)
    fix i assume "i < length (content (b\<lparr>storage := st, bb_size := bb_size b + n\<rparr>))"
    then have i: "i < bb_size b + n" by simp
    show "content (b\<lparr>storage := st, bb_size := bb_size b + n\<rparr>) ! i = (content b @ take n data) ! i"
    proof (cases "i < bb_size b")
      case True
      with i st(2) show ?thesis by (simp add: content_nth nth_append)
    next
      case False
      with i st(3) [rule_format, of "i - bb_size b"] show ?thesis
        by (simp add: content_nth nth_append)
    qed
  qed (simp add: n_def)
  moreover have "take n data = take (available b) data"
    by (auto simp: n_def min_def)
  moreover have "buffer_inv (b\<lparr>storage := st, bb_size := bb_size b + n\<rparr>)"
    using inv st(1) by (auto simp: buffer_inv_def n_def available_def)
  ultimately show ?thesis using eq by (simp add: n_def)
qed

subsection \<open>Dropping and consuming at the front\<close>

lemma discardFront_fields [simp]:
  "capacity (discardFront b n) = capacity b" "dropped (discardFront b n) = dropped b"
  "policy (discardFront b n) = policy b" "bb_size (discardFront b n) = bb_size b - n"
  "storage (discardFront b n) = storage b"
  by (auto simp: discardFront_def Let_def)

lemma discardFront_inv [simp]: "buffer_inv b \<Longrightarrow> buffer_inv (discardFront b n)"
  by (auto simp: buffer_inv_def discardFront_def Let_def)

lemma content_discardFront: "buffer_inv b \<Longrightarrow> content (discardFront b n) = drop n (content b)"
proof (rule nth_equalityI)
  assume inv: "buffer_inv b"
  fix i assume "i < length (content (discardFront b n))"
  then have i: "i < bb_size b - n" by simp
  with inv have "0 < capacity b" by (auto simp: buffer_inv_def)
  with i show "content (discardFront b n) ! i = drop n (content b) ! i"
    by (simp add: content_nth discardFront_def Let_def mod_simps ac_simps)
qed simp

text \<open>A contiguous run of the ring starting at the head.\<close>

lemma ring_run:
  assumes "buffer_inv b" "r \<le> bb_size b" "head b + r \<le> capacity b"
  shows "memcpy_from (storage b) (head b) r = Some (take r (content b))"
proof -
  have "take r (drop (head b) (storage b)) = take r (content b)"
    using assms by (auto intro!: nth_equalityI simp: content_nth buffer_inv_def)
  with assms show ?thesis by (simp add: buffer_inv_def)
qed

lemma bb_peek_spec:
  assumes "buffer_inv b"
  shows "\<exists>bytes rest. bb_peek b = Some bytes \<and> content b = bytes @ rest \<and>
    (bytes = [] \<longleftrightarrow> content b = [])"
proof (cases "bb_size b = 0")
  case True
  then show ?thesis by (simp add: bb_peek_def flip: length_0_conv)
next
  case False
  define r where "r = min (bb_size b) (capacity b - head b)"
  have "0 < r" "r \<le> bb_size b" "head b + r \<le> capacity b"
    using assms False by (auto simp: r_def buffer_inv_def)
  then have "bb_peek b = Some (take r (content b))" "take r (content b) \<noteq> []"
    using False ring_run [OF assms] by (auto simp: bb_peek_def r_def simp flip: length_greater_0_conv)
  moreover have "content b = take r (content b) @ drop r (content b)" by simp
  ultimately show ?thesis by (metis append_is_Nil_conv)
qed

lemma head_size_commute: "b\<lparr>bb_size := s, head := h\<rparr> = b\<lparr>head := h, bb_size := s\<rparr>"
  by (cases b) simp

text \<open>
  The copy loop of \<open>consume\<close> ends and has copied the front of the ring.  The \<open>size_\<close> field is
  updated after the loop only, so the loop runs on a state whose size field is stale.
\<close>

lemma bb_consume_loop_spec:
  assumes "buffer_inv b" "n - length out \<le> bb_size b"
  shows "bb_consume_loop (b\<lparr>bb_size := s\<rparr>) n out =
    Some ((discardFront b (n - length out))\<lparr>bb_size := s\<rparr>, out @ take (n - length out) (content b))"
  using assms
proof (induction "n - length out" arbitrary: b out rule: less_induct)
  case less
  show ?case
  proof (cases "length out < n")
    case False
    then show ?thesis
      using less.prems
      by (auto simp: bb_consume_loop.simps [of _ n out] discardFront_def buffer_inv_def)
  next
    case True
    define r where "r = min (n - length out) (capacity b - head b)"
    have r: "0 < r" "r \<le> bb_size b" "head b + r \<le> capacity b" "r \<le> n - length out" "0 < capacity b"
      using less.prems True by (auto simp: r_def buffer_inv_def)
    have len: "length (take r (content b)) = r" using r by simp
    have "bb_consume_loop (b\<lparr>bb_size := s\<rparr>) n out =
        bb_consume_loop ((discardFront b r)\<lparr>bb_size := s\<rparr>) n (out @ take r (content b))"
      using True r ring_run [OF less.prems(1) r(2,3)]
      by (simp add: bb_consume_loop.simps [of _ n out] r_def [symmetric] discardFront_def
          head_size_commute)
    also have "\<dots> = Some ((discardFront (discardFront b r) (n - length out - r))\<lparr>bb_size := s\<rparr>,
        (out @ take r (content b)) @ take (n - length out - r) (content (discardFront b r)))"
      using less.hyps [of "out @ take r (content b)" "discardFront b r"] less.prems True r len
      by simp
    also have "discardFront (discardFront b r) (n - length out - r) = discardFront b (n - length out)"
      using r less.prems by (simp add: discardFront_def mod_simps ac_simps)
    also have "(out @ take r (content b)) @ take (n - length out - r) (content (discardFront b r)) =
        out @ take (n - length out) (content b)"
      using r less.prems(1) take_add [of r "n - length out - r" "content b"]
      by (simp add: content_discardFront)
    finally show ?thesis .
  qed
qed

lemma bb_consume_spec:
  assumes "buffer_inv b"
  shows "bb_consume b k = Some (discardFront b k, take k (content b))"
proof -
  have "bb_consume_loop (b\<lparr>bb_size := bb_size b\<rparr>) (min k (bb_size b)) [] =
      Some ((discardFront b (min k (bb_size b)))\<lparr>bb_size := bb_size b\<rparr>,
            [] @ take (min k (bb_size b)) (content b))"
    using bb_consume_loop_spec [OF assms, of "min k (bb_size b)" "[]" "bb_size b"] by simp
  moreover have "take (min k (bb_size b)) (content b) = take k (content b)"
    by (auto simp: min_def)
  ultimately show ?thesis
    by (simp add: bb_consume_def Let_def discardFront_def min_def)
qed

subsection \<open>append, policy by policy\<close>

text \<open>
  The specification of \<open>append\<close> on byte sequences: the bytes kept, how many bytes of the
  argument the caller may forget, and how many bytes were lost.
\<close>

definition append_spec :: "OverflowPolicy \<Rightarrow> nat \<Rightarrow> string \<Rightarrow> string \<Rightarrow> string \<times> nat \<times> nat" where
  "append_spec pol cap old data =
     (let room = cap - length old in
      case pol of
        Block \<Rightarrow> (old @ take room data, min (length data) room, 0)
      | Spool \<Rightarrow> (old @ take room data, min (length data) room, 0)
      | DropNewest \<Rightarrow> (old @ take room data, length data, length data - room)
      | DropOldest \<Rightarrow> (drop (length (old @ data) - cap) (old @ data), length data,
                      length (old @ data) - cap))"

lemma bb_append_refines:
  assumes inv: "buffer_inv b"
  shows "\<exists>b'. case append_spec (policy b) (capacity b) (content b) data of (new, n, lost) \<Rightarrow>
    bb_append b data = Some (b', n) \<and> buffer_inv b' \<and> content b' = new \<and>
    capacity b' = capacity b \<and> policy b' = policy b \<and> dropped b' = dropped b + of_nat lost"
proof (cases "capacity b = 0 \<or> data = []")
  case True
  moreover have "bb_size b \<le> capacity b" using inv by (simp add: buffer_inv_def)
  moreover have "bb_size b = 0 \<Longrightarrow> content b = []" by (simp flip: length_0_conv)
  ultimately show ?thesis
    using inv
    by (cases "policy b") (auto simp: bb_append_def append_spec_def dropsOnOverflow_def)
next
  case False
  have sz: "bb_size b \<le> capacity b" using inv by (simp add: buffer_inv_def)
  have room: "available b = capacity b - length (content b)" by (simp add: available_def)
  show ?thesis
  proof (cases "policy b")
    case Block
    with False appendUpTo_spec [OF inv, of data] show ?thesis
      by (auto simp: bb_append_def append_spec_def room Let_def)
  next
    case Spool
    with False appendUpTo_spec [OF inv, of data] show ?thesis
      by (auto simp: bb_append_def append_spec_def room Let_def)
  next
    case DropNewest
    with False appendUpTo_spec [OF inv, of data] show ?thesis
      by (auto simp: bb_append_def append_spec_def room Let_def min_def)
  next
    case DropOldest
    show ?thesis
    proof (cases "length data \<ge> capacity b")
      case True
      define b1 where "b1 = bb_clear (b\<lparr>dropped := dropped b + of_nat (bb_size b + (length data - capacity b))\<rparr>)"
      have "buffer_inv b1" "available b1 = capacity b" "content b1 = []"
        "dropped b1 = dropped b + of_nat (bb_size b + (length data - capacity b))"
        "policy b1 = policy b" "capacity b1 = capacity b"
        using inv by (simp_all add: b1_def)
      with appendUpTo_spec [of b1 "drop (length data - capacity b) data"] False DropOldest True sz
      show ?thesis by (auto simp: bb_append_def append_spec_def b1_def Let_def)
    next
      case small: False
      define lost where "lost = length data - available b"
      define b1 where "b1 = (if length data > available b
          then discardFront (b\<lparr>dropped := dropped b + of_nat lost\<rparr>) lost else b)"
      have "buffer_inv b1" "content b1 = drop lost (content b)" "policy b1 = policy b"
        "capacity b1 = capacity b" "dropped b1 = dropped b + of_nat lost"
        using inv by (auto simp: b1_def content_discardFront lost_def)
      moreover have "length data \<le> available b1" "lost \<le> bb_size b"
        using small sz by (auto simp: b1_def lost_def available_def)
      ultimately show ?thesis
        using appendUpTo_spec [of b1 data] False DropOldest small sz
        by (auto simp: bb_append_def append_spec_def Let_def b1_def lost_def available_def
            add.commute)
    qed
  qed
qed

subsection \<open>The ring as a byte channel\<close>

text \<open>
  With a lossless policy the ring is an eager byte channel: what \<open>append\<close> accepted leaves
  through \<open>consume\<close> in order.
\<close>

definition lossless_buffer :: "bounded_buffer \<Rightarrow> bool" where
  "lossless_buffer b \<longleftrightarrow> buffer_inv b \<and> \<not> dropsOnOverflow (policy b)"

lemma lossless_append:
  assumes "lossless_buffer b"
  shows "\<exists>b'. bb_append b data = Some (b', min (length data) (available b)) \<and>
    lossless_buffer b' \<and> content b' = content b @ take (available b) data \<and>
    capacity b' = capacity b \<and> policy b' = policy b"
proof -
  have "policy b = Block \<or> policy b = Spool" and inv: "buffer_inv b"
    using assms by (auto simp: lossless_buffer_def dropsOnOverflow_def intro: OverflowPolicy.exhaust)
  then show ?thesis
    using bb_append_refines [OF inv, of data]
    by (auto simp: append_spec_def lossless_buffer_def dropsOnOverflow_def available_def Let_def)
qed

interpretation ring: eager_fifo lossless_buffer content bb_append bb_consume
proof
  fix b d assume "lossless_buffer b"
  from lossless_append [OF this, of d]
  show "\<exists>b' n. bb_append b d = Some (b', n) \<and> lossless_buffer b' \<and> n \<le> length d \<and>
      content b' = content b @ take n d"
    by (auto simp: min_def)
next
  fix b k assume "lossless_buffer b"
  then show "\<exists>b' out. bb_consume b k = Some (b', out) \<and> lossless_buffer b' \<and> length out \<le> k \<and>
      content b = out @ content b'"
    by (auto simp: lossless_buffer_def bb_consume_spec content_discardFront)
next
  fix b k b' out
  assume "lossless_buffer b" "bb_consume b k = Some (b', out)" "length out < k"
  then show "content b' = []"
    by (auto simp: lossless_buffer_def bb_consume_spec content_discardFront)
qed

subsection \<open>Properties\<close>

text \<open>
  C27: appending to the ring is exactly its specification, for every policy: Block and Spool store what
  fits and report it, DropNewest stores what fits and counts the rest as lost, DropOldest keeps the
  newest bytes and counts the oldest ones as lost.  No memory access leaves the storage.
\<close>

theorem append_refines:
  assumes "buffer_inv b"
  shows "\<exists>b'. case append_spec (policy b) (capacity b) (content b) data of (new, n, lost) \<Rightarrow>
    bb_append b data = Some (b', n) \<and> buffer_inv b' \<and> content b' = new \<and>
    capacity b' = capacity b \<and> policy b' = policy b \<and> dropped b' = dropped b + of_nat lost"
  using bb_append_refines [OF assms] .

theorem append_refines_witness:
  "\<exists>b'. bb_append (BoundedBuffer 4 DropOldest) ''abcdef'' = Some (b', 6) \<and> content b' = ''cdef'' \<and> dropped b' = 2"
proof -
  have i: "buffer_inv (BoundedBuffer 4 DropOldest)" by simp
  have c: "content (BoundedBuffer 4 DropOldest) = []"
    by (simp add: BoundedBuffer_def content_def)
  show ?thesis
    using append_refines [OF i, of "''abcdef''"] c by (auto simp: append_spec_def BoundedBuffer_def)
qed

text \<open>
  the ring is a byte channel: after any sequence of appends and reads of a lossless ring, the bytes
  delivered followed by the bytes still held are the bytes accepted, in order.
\<close>

theorem ring_in_order:
  assumes "cap > 0" "\<not> dropsOnOverflow pol"
  shows "\<exists>b accepted delivered. fifo_run bb_append bb_consume (BoundedBuffer cap pol) ops =
      Some (b, accepted, delivered) \<and> buffer_inv b \<and> accepted = delivered @ content b"
proof -
  have "lossless_buffer (BoundedBuffer cap pol)" "content (BoundedBuffer cap pol) = []"
    using assms by (simp_all add: lossless_buffer_def) (simp_all add: BoundedBuffer_def content_def)
  from ring.fifo_order [OF this(1), of ops] this(2) show ?thesis
    by (auto simp: lossless_buffer_def)
qed

theorem ring_in_order_witness:
  "\<exists>b accepted delivered. fifo_run bb_append bb_consume (BoundedBuffer 3 Block) [Put ''abcd'', Get 2, Put ''xy''] =
     Some (b, accepted, delivered) \<and> accepted = delivered @ content b"
  using ring_in_order [of 3 Block "[Put ''abcd'', Get 2, Put ''xy'']"] by (auto simp: dropsOnOverflow_def)

end
