(* ===== verification/Spool_Buffer.thy ===== *)
theory Spool_Buffer
  imports Byte_Fifo
begin

text \<open>
  \<open>psx::stream::SpoolBuffer\<close> (\<open>include/psx/stream/spool_buffer.hpp\<close>): bytes spilled to an
  anonymous temporary file.  The file is its byte content; the position of the \<open>FILE\<close> is set
  by an \<open>fseek\<close> before every transfer, so it needs no state of its own.

  The outcome of the library calls is decided by the environment: an argument
  \<open>w :: nat \<Rightarrow> io\<close> says, for the \<open>k\<close>-th spool call of a run that reaches the library,
  whether \<open>tmpfile\<close>, \<open>fseek\<close> and \<open>fflush\<close> succeed and how many bytes a short transfer moves.
  The field \<open>sp_clock\<close> counts those calls; it is the only part of the state the code does not have.
  The byte counts \<open>size_\<close> and \<open>readOffset_\<close> are natural numbers: they count bytes of one
  file and cannot reach the range of \<open>std::uint64_t\<close>.
\<close>

record io =
  tmpfile_ok :: bool
  seek_ok :: bool
  flush_ok :: bool
  short_count :: "nat option"

definition transferred :: "io \<Rightarrow> nat \<Rightarrow> nat" where
  "transferred r n = (case short_count r of None \<Rightarrow> n | Some k \<Rightarrow> min k n)"

definition healthy :: "(nat \<Rightarrow> io) \<Rightarrow> bool" where
  "healthy w \<longleftrightarrow> (\<forall>t. tmpfile_ok (w t) \<and> seek_ok (w t) \<and> flush_ok (w t) \<and> short_count (w t) = None)"

record spool_buffer =
  sp_file :: "string option"
  sp_size :: nat
  readOffset :: nat
  sp_failed :: bool
  sp_clock :: nat

definition SpoolBuffer :: spool_buffer where
  "SpoolBuffer = \<lparr>sp_file = None, sp_size = 0, readOffset = 0, sp_failed = False, sp_clock = 0\<rparr>"

definition sp_remaining :: "spool_buffer \<Rightarrow> nat" where
  "sp_remaining s = sp_size s - readOffset s"

definition sp_empty :: "spool_buffer \<Rightarrow> bool" where
  "sp_empty s \<longleftrightarrow> sp_remaining s = 0"

subsection \<open>Operations\<close>

definition sp_append :: "(nat \<Rightarrow> io) \<Rightarrow> spool_buffer \<Rightarrow> string \<Rightarrow> spool_buffer \<times> bool" where
  "sp_append w s bytes =
     (if bytes = [] then (s, True)
      else if sp_failed s then (s, False)
      else let r = w (sp_clock s); s0 = s\<lparr>sp_clock := Suc (sp_clock s)\<rparr> in
        if sp_file s = None \<and> \<not> tmpfile_ok r then (s0\<lparr>sp_failed := True\<rparr>, False)
        else let file = (case sp_file s of None \<Rightarrow> [] | Some c \<Rightarrow> c);
                 s1 = s0\<lparr>sp_file := Some file\<rparr> in
          if \<not> seek_ok r then (s1\<lparr>sp_failed := True\<rparr>, False)
          else let k = transferred r (length bytes); s2 = s1\<lparr>sp_file := Some (file @ take k bytes)\<rparr> in
            if k \<noteq> length bytes then (s2\<lparr>sp_failed := True\<rparr>, False)
            else (s2\<lparr>sp_size := sp_size s2 + length bytes\<rparr>, True))"

definition sp_read :: "(nat \<Rightarrow> io) \<Rightarrow> spool_buffer \<Rightarrow> nat \<Rightarrow> spool_buffer \<times> string" where
  "sp_read w s outSize =
     (case sp_file s of
        None \<Rightarrow> (s, [])
      | Some file \<Rightarrow>
          if outSize = 0 \<or> sp_empty s \<or> sp_failed s then (s, [])
          else let r = w (sp_clock s); s0 = s\<lparr>sp_clock := Suc (sp_clock s)\<rparr> in
            if \<not> flush_ok r \<or> \<not> seek_ok r then (s0, [])
            else let n = min outSize (sp_remaining s);
                     got = take (transferred r n) (take n (drop (readOffset s) file))
                 in (s0\<lparr>readOffset := readOffset s + length got\<rparr>, got))"

definition sp_readAll :: "(nat \<Rightarrow> io) \<Rightarrow> spool_buffer \<Rightarrow> spool_buffer \<times> string" where
  "sp_readAll w s =
     (case sp_file s of
        None \<Rightarrow> (s, [])
      | Some file \<Rightarrow>
          if sp_size s = 0 then (s, [])
          else let r = w (sp_clock s); s0 = s\<lparr>sp_clock := Suc (sp_clock s)\<rparr> in
            if \<not> flush_ok r \<or> \<not> seek_ok r then (s0, [])
            else (s0, take (transferred r (sp_size s)) (take (sp_size s) file)))"

text \<open>\<open>reset()\<close> is \<open>close()\<close>; the move constructor hands every field over and empties the source.\<close>

definition sp_reset :: "spool_buffer \<Rightarrow> spool_buffer" where
  "sp_reset s = s\<lparr>sp_file := None, sp_size := 0, readOffset := 0, sp_failed := False\<rparr>"

definition sp_moveFrom :: "spool_buffer \<Rightarrow> spool_buffer \<times> spool_buffer" where
  "sp_moveFrom other = (other, sp_reset other)"

subsection \<open>Invariant and abstraction\<close>

text \<open>
  Everything up to \<open>size_\<close> is in the file; a short write may leave orphan bytes behind that point, and
  then the buffer is poisoned.
\<close>

definition spool_inv :: "spool_buffer \<Rightarrow> bool" where
  "spool_inv s \<longleftrightarrow> readOffset s \<le> sp_size s \<and>
     (case sp_file s of
        None \<Rightarrow> sp_size s = 0
      | Some c \<Rightarrow> sp_size s \<le> length c \<and> (\<not> sp_failed s \<longrightarrow> sp_size s = length c))"

definition sp_bytes :: "spool_buffer \<Rightarrow> string" where
  "sp_bytes s = (case sp_file s of None \<Rightarrow> [] | Some c \<Rightarrow> drop (readOffset s) (take (sp_size s) c))"

lemma spool_new [simp]: "spool_inv SpoolBuffer" "sp_bytes SpoolBuffer = []"
  by (simp_all add: spool_inv_def sp_bytes_def SpoolBuffer_def)

lemma sp_reset_simps [simp]: "spool_inv (sp_reset s)" "sp_bytes (sp_reset s) = []"
  "sp_empty (sp_reset s)" "\<not> sp_failed (sp_reset s)"
  by (simp_all add: spool_inv_def sp_bytes_def sp_reset_def sp_empty_def sp_remaining_def)

lemma sp_bytes_clock [simp]: "sp_bytes (s\<lparr>sp_clock := t\<rparr>) = sp_bytes s"
  "spool_inv (s\<lparr>sp_clock := t\<rparr>) = spool_inv s"
  by (simp_all add: sp_bytes_def spool_inv_def split: option.split)

lemma length_sp_bytes: "spool_inv s \<Longrightarrow> length (sp_bytes s) = sp_remaining s"
  by (auto simp: spool_inv_def sp_bytes_def sp_remaining_def split: option.splits)

lemma sp_empty_iff: "spool_inv s \<Longrightarrow> sp_empty s \<longleftrightarrow> sp_bytes s = []"
  using length_sp_bytes by (auto simp: sp_empty_def simp flip: length_0_conv)

text \<open>
  Under every environment an append either stores all its bytes or leaves the stored sequence as it
  was and poisons the buffer.
\<close>

lemma sp_append_spec:
  assumes "spool_inv s" "sp_append w s d = (s', ok)"
  shows "spool_inv s'" "sp_bytes s' = sp_bytes s @ (if ok then d else [])"
    "\<not> ok \<Longrightarrow> sp_failed s'"
  using assms
  by (auto simp: sp_append_def Let_def spool_inv_def sp_bytes_def transferred_def
      split: if_splits option.splits)

text \<open>A read either moves nothing or takes a front part of what is left of the file.\<close>

lemma sp_read_cases:
  assumes "sp_read w s k = (s', out)"
  obtains (idle) t where "out = []" "s' = s\<lparr>sp_clock := t\<rparr>"
    | (some) c j t where "sp_file s = Some c" "\<not> sp_failed s" "j \<le> k" "j \<le> sp_remaining s"
        "out = take j (drop (readOffset s) c)"
        "s' = s\<lparr>sp_clock := t, readOffset := readOffset s + length out\<rparr>"
proof (cases "sp_file s = None \<or> k = 0 \<or> sp_empty s \<or> sp_failed s \<or>
    \<not> flush_ok (w (sp_clock s)) \<or> \<not> seek_ok (w (sp_clock s))")
  case True
  with assms have "out = [] \<and> (s' = s\<lparr>sp_clock := sp_clock s\<rparr> \<or> s' = s\<lparr>sp_clock := Suc (sp_clock s)\<rparr>)"
    by (auto simp: sp_read_def Let_def split: option.splits if_splits)
  then show thesis
    using idle [of "sp_clock s"] idle [of "Suc (sp_clock s)"] by blast
next
  case False
  then obtain c where c: "sp_file s = Some c" by auto
  define n where "n = min k (sp_remaining s)"
  define j where "j = min (transferred (w (sp_clock s)) n) n"
  have "(s', out) = (s\<lparr>sp_clock := Suc (sp_clock s),
      readOffset := readOffset s + length (take j (drop (readOffset s) c))\<rparr>,
      take j (drop (readOffset s) c))"
    using assms False c by (auto simp: sp_read_def Let_def n_def [symmetric] j_def)
  then show thesis using some [of c j "Suc (sp_clock s)"] c False by (auto simp: j_def n_def)
qed

lemma sp_read_effect:
  assumes "spool_inv s" "sp_read w s k = (s', out)"
  shows "spool_inv s' \<and> sp_bytes s = out @ sp_bytes s' \<and> length out \<le> k \<and> sp_failed s' = sp_failed s"
  using assms(2)
proof (cases rule: sp_read_cases)
  case (idle t)
  with assms(1) show ?thesis by simp
next
  case (some c j t)
  have size: "sp_size s = length c" "readOffset s \<le> length c"
    using assms(1) some by (auto simp: spool_inv_def)
  have len: "length out \<le> sp_size s - readOffset s" using some by (simp add: sp_remaining_def)
  have "drop (readOffset s) c = out @ drop (readOffset s + length out) c"
    by (metis some(5) append_eq_conv_conj append_take_drop_id drop_drop add.commute)
  then have "sp_bytes s = out @ sp_bytes s'" using some size by (simp add: sp_bytes_def)
  then show ?thesis using some assms(1) len by (auto simp: spool_inv_def)
qed

lemma sp_read_spec:
  assumes "spool_inv s" "sp_read w s k = (s', out)"
  shows "spool_inv s'" "sp_bytes s = out @ sp_bytes s'" "length out \<le> k" "sp_failed s' = sp_failed s"
  using sp_read_effect [OF assms] by simp_all

lemma sp_append_healthy:
  assumes "healthy w" "\<not> sp_failed s" "sp_append w s d = (s', ok)"
  shows "ok" "\<not> sp_failed s'"
  using assms
  by (auto simp: sp_append_def Let_def healthy_def transferred_def split: if_splits option.splits)

lemma sp_read_healthy:
  assumes "healthy w" "spool_inv s" "\<not> sp_failed s"
  shows "snd (sp_read w s k) = take k (sp_bytes s)"
proof (cases "k = 0 \<or> sp_empty s \<or> sp_file s = None")
  case True
  then show ?thesis
    using sp_empty_iff [OF assms(2)]
    by (auto simp: sp_read_def sp_bytes_def split: option.splits)
next
  case False
  then obtain c where c: "sp_file s = Some c" "sp_size s = length c" "readOffset s \<le> length c"
    using assms(2,3) by (auto simp: spool_inv_def)
  then show ?thesis
    using False assms
    by (auto simp: sp_read_def healthy_def transferred_def sp_bytes_def sp_remaining_def min_def)
qed

text \<open>The spill as a byte channel, whatever the disk does.\<close>

definition sp_put :: "(nat \<Rightarrow> io) \<Rightarrow> spool_buffer \<Rightarrow> string \<Rightarrow> (spool_buffer \<times> nat) option" where
  "sp_put w s d = (let (s', ok) = sp_append w s d in Some (s', if ok then length d else 0))"

definition sp_get :: "(nat \<Rightarrow> io) \<Rightarrow> spool_buffer \<Rightarrow> nat \<Rightarrow> (spool_buffer \<times> string) option" where
  "sp_get w s k = Some (sp_read w s k)"

interpretation spool: byte_fifo spool_inv sp_bytes "sp_put w" "sp_get w" for w
proof
  fix s d assume inv: "spool_inv s"
  obtain s' ok where a: "sp_append w s d = (s', ok)" by fastforce
  show "\<exists>s' n. sp_put w s d = Some (s', n) \<and> spool_inv s' \<and> n \<le> length d \<and>
      sp_bytes s' = sp_bytes s @ take n d"
    using sp_append_spec [OF inv a] by (cases ok) (auto simp: sp_put_def a)
next
  fix s k assume inv: "spool_inv s"
  obtain s' out where a: "sp_read w s k = (s', out)" by fastforce
  show "\<exists>s' out. sp_get w s k = Some (s', out) \<and> spool_inv s' \<and> length out \<le> k \<and>
      sp_bytes s = out @ sp_bytes s'"
    using sp_read_spec [OF inv a] by (auto simp: sp_get_def a)
qed

end
