(* ===== verification/Stream_Channel.thy ===== *)
theory Stream_Channel
  imports Bounded_Buffer Spool_Buffer
begin

text \<open>
  \<open>psx::stream::Stream\<close> (\<open>include/psx/stream/stream.hpp\<close>, \<open>src/stream/stream.cpp\<close>): the ring
  and the spill behind the half-close state machine of a pipe.  The two read loops are partial
  functions whose result \<^const>\<open>None\<close> would be non-termination or a bad memory access; the lemmas
  show that they always return, for every behaviour of the disk.
\<close>

subsection \<open>State\<close>

datatype StreamState = Open | HalfClosedRemote | HalfClosedLocal | Closed | Failed

record stream =
  st_buffer :: bounded_buffer
  st_spool :: spool_buffer
  st_state :: StreamState
  st_error :: "error option"

definition Stream :: "nat \<Rightarrow> OverflowPolicy \<Rightarrow> stream" where
  "Stream bufferCapacity pol =
     \<lparr>st_buffer = BoundedBuffer bufferCapacity pol, st_spool = SpoolBuffer, st_state = Open,
      st_error = None\<rparr>"

definition st_readable :: "stream \<Rightarrow> bool" where
  "st_readable s \<longleftrightarrow> bb_size (st_buffer s) > 0 \<or> \<not> sp_empty (st_spool s)"

definition st_writable :: "stream \<Rightarrow> bool" where
  "st_writable s =
     (if st_state s \<noteq> Open then False
      else if policy (st_buffer s) = Spool then True
      else dropsOnOverflow (policy (st_buffer s)) \<or> \<not> bb_full (st_buffer s))"

definition st_atEnd :: "stream \<Rightarrow> bool" where
  "st_atEnd s =
     (if st_state s = Closed \<or> st_state s = Failed \<or> st_state s = HalfClosedLocal then True
      else st_state s = HalfClosedRemote \<and> \<not> st_readable s)"

definition st_finished :: "stream \<Rightarrow> bool" where
  "st_finished s \<longleftrightarrow> st_state s = Closed \<or> st_state s = Failed"

subsection \<open>Moving bytes\<close>

definition kChunk :: nat where
  "kChunk = 64 * 1024"

definition fillFromSpool :: "(nat \<Rightarrow> io) \<Rightarrow> stream \<Rightarrow> stream option" where
  "fillFromSpool w s =
     (if \<not> bb_empty (st_buffer s) \<or> capacity (st_buffer s) = 0 \<or> sp_empty (st_spool s) then Some s
      else let (sp, chunk) = sp_read w (st_spool s) (min kChunk (capacity (st_buffer s))) in
        if chunk = [] then Some (s\<lparr>st_spool := sp\<rparr>)
        else do {
          (b, n) \<leftarrow> bb_append (st_buffer s) chunk;
          Some (s\<lparr>st_buffer := b, st_spool := (if sp_empty sp then sp_reset sp else sp)\<rparr>)
        })"

definition maybeCloseAfterDrain :: "stream \<Rightarrow> stream" where
  "maybeCloseAfterDrain s =
     (if st_state s = HalfClosedRemote \<and> \<not> st_readable s then s\<lparr>st_state := Closed\<rparr> else s)"

definition appendSpool :: "(nat \<Rightarrow> io) \<Rightarrow> stream \<Rightarrow> string \<Rightarrow> (stream \<times> nat) option" where
  "appendSpool w s data =
     (if data = [] then Some (s, 0)
      else if \<not> sp_empty (st_spool s) then
        let (sp, ok) = sp_append w (st_spool s) data
        in Some (s\<lparr>st_spool := sp\<rparr>, if ok then length data else 0)
      else do {
        (b, accepted) \<leftarrow> bb_append (st_buffer s) data;
        if accepted = length data then Some (s\<lparr>st_buffer := b\<rparr>, accepted)
        else let (sp, ok) = sp_append w (st_spool s) (drop accepted data)
             in Some (s\<lparr>st_buffer := b, st_spool := sp\<rparr>, if ok then length data else accepted)
      })"

definition st_write :: "(nat \<Rightarrow> io) \<Rightarrow> stream \<Rightarrow> string \<Rightarrow> (stream \<times> nat) option" where
  "st_write w s data =
     (if st_state s \<noteq> Open then Some (s, 0)
      else if policy (st_buffer s) = Spool then appendSpool w s data
      else do {
        (b, n) \<leftarrow> bb_append (st_buffer s) data;
        Some (s\<lparr>st_buffer := b\<rparr>, n)
      })"

text \<open>The loop of \<open>read\<close>; the last argument holds the bytes copied to \<open>out\<close> so far.\<close>

partial_function (option) st_read_loop ::
  "(nat \<Rightarrow> io) \<Rightarrow> stream \<Rightarrow> nat \<Rightarrow> string \<Rightarrow> (stream \<times> string) option" where
  "st_read_loop w s outSize out =
     (if length out < outSize then do {
        s1 \<leftarrow> fillFromSpool w s;
        if bb_empty (st_buffer s1) then
          if capacity (st_buffer s1) = 0 \<and> \<not> sp_empty (st_spool s1) then do {
            let (sp, got) = sp_read w (st_spool s1) (outSize - length out);
            let s2 = s1\<lparr>st_spool := (if sp_empty sp then sp_reset sp else sp)\<rparr>;
            if got = [] then Some (s2, out) else st_read_loop w s2 outSize (out @ got)
          } else Some (s1, out)
        else do {
          (b, got) \<leftarrow> bb_consume (st_buffer s1) (outSize - length out);
          st_read_loop w (s1\<lparr>st_buffer := b\<rparr>) outSize (out @ got)
        }
      } else Some (s, out))"

definition st_read :: "(nat \<Rightarrow> io) \<Rightarrow> stream \<Rightarrow> nat \<Rightarrow> (stream \<times> string) option" where
  "st_read w s outSize =
     (if st_state s = Failed then Some (s, [])
      else do {
        (s1, out) \<leftarrow> st_read_loop w s outSize [];
        Some (maybeCloseAfterDrain s1, out)
      })"

definition st_peek :: "(nat \<Rightarrow> io) \<Rightarrow> stream \<Rightarrow> (stream \<times> string) option" where
  "st_peek w s = do {
     s1 \<leftarrow> fillFromSpool w s;
     bytes \<leftarrow> bb_peek (st_buffer s1);
     Some (s1, bytes)
   }"

partial_function (option) st_drop_loop :: "(nat \<Rightarrow> io) \<Rightarrow> stream \<Rightarrow> nat \<Rightarrow> stream option" where
  "st_drop_loop w s n =
     (if n > 0 then do {
        s1 \<leftarrow> fillFromSpool w s;
        let fromBuffer = min n (bb_size (st_buffer s1));
        if fromBuffer > 0 then
          st_drop_loop w (s1\<lparr>st_buffer := discardFront (st_buffer s1) fromBuffer\<rparr>) (n - fromBuffer)
        else if capacity (st_buffer s1) = 0 \<and> \<not> sp_empty (st_spool s1) then do {
          let (sp, got) = sp_read w (st_spool s1) (min n kChunk);
          let s2 = s1\<lparr>st_spool := (if sp_empty sp then sp_reset sp else sp)\<rparr>;
          if got = [] then Some s2 else st_drop_loop w s2 (n - length got)
        } else Some s1
      } else Some s)"

definition st_drop :: "(nat \<Rightarrow> io) \<Rightarrow> stream \<Rightarrow> nat \<Rightarrow> stream option" where
  "st_drop w s n = do { s1 \<leftarrow> st_drop_loop w s n; Some (maybeCloseAfterDrain s1) }"

subsection \<open>Closing\<close>

definition closeRemote :: "stream \<Rightarrow> stream" where
  "closeRemote s =
     (case st_state s of
        Open \<Rightarrow> s\<lparr>st_state := HalfClosedRemote\<rparr>
      | HalfClosedLocal \<Rightarrow> s\<lparr>st_state := Closed\<rparr>
      | _ \<Rightarrow> s)"

definition closeLocal :: "stream \<Rightarrow> stream" where
  "closeLocal s =
     (case st_state s of
        Open \<Rightarrow> s\<lparr>st_state := HalfClosedLocal, st_buffer := bb_clear (st_buffer s),
                  st_spool := sp_reset (st_spool s)\<rparr>
      | HalfClosedRemote \<Rightarrow> s\<lparr>st_state := Closed, st_buffer := bb_clear (st_buffer s),
                  st_spool := sp_reset (st_spool s)\<rparr>
      | _ \<Rightarrow> s)"

definition st_fail :: "stream \<Rightarrow> error \<Rightarrow> stream" where
  "st_fail s e =
     (if st_state s = Closed \<or> st_state s = Failed then s
      else s\<lparr>st_state := Failed, st_error := Some e\<rparr>)"

subsection \<open>Invariant and abstraction\<close>

text \<open>The bytes still to be read: the ring first, then the spill.\<close>

definition st_bytes :: "stream \<Rightarrow> string" where
  "st_bytes s = content (st_buffer s) @ sp_bytes (st_spool s)"

definition stream_inv :: "stream \<Rightarrow> bool" where
  "stream_inv s \<longleftrightarrow> buffer_inv (st_buffer s) \<and> spool_inv (st_spool s) \<and>
     (policy (st_buffer s) \<noteq> Spool \<longrightarrow> sp_bytes (st_spool s) = []) \<and>
     (st_state s = Closed \<or> st_state s = HalfClosedLocal \<longrightarrow> st_bytes s = [])"

lemma stream_inv_new [simp]: "stream_inv (Stream cap pol)"
  by (simp add: stream_inv_def Stream_def)

lemma bb_size_pos: "0 < bb_size b \<longleftrightarrow> content b \<noteq> []"
  by (metis length_content length_greater_0_conv)

lemma bb_empty_iff: "bb_empty b \<longleftrightarrow> content b = []"
  using bb_size_pos [of b] by (auto simp: bb_empty_def)

lemma st_readable_iff: "stream_inv s \<Longrightarrow> st_readable s \<longleftrightarrow> st_bytes s \<noteq> []"
  by (simp add: st_readable_def st_bytes_def stream_inv_def bb_size_pos sp_empty_iff)

lemma sp_release [simp]: "spool_inv sp \<Longrightarrow> sp_bytes (if sp_empty sp then sp_reset sp else sp) = sp_bytes sp"
  "spool_inv sp \<Longrightarrow> spool_inv (if sp_empty sp then sp_reset sp else sp)"
  by (auto simp: sp_empty_iff)

text \<open>What every byte-moving step keeps: the invariant, the protocol state, the configuration.\<close>

definition same_frame :: "stream \<Rightarrow> stream \<Rightarrow> bool" where
  "same_frame s s' \<longleftrightarrow> st_state s' = st_state s \<and> st_error s' = st_error s \<and>
     capacity (st_buffer s') = capacity (st_buffer s) \<and> policy (st_buffer s') = policy (st_buffer s)"

lemma same_frame_refl [simp]: "same_frame s s"
  by (simp add: same_frame_def)

lemma same_frame_trans: "same_frame a b \<Longrightarrow> same_frame b c \<Longrightarrow> same_frame a c"
  by (simp add: same_frame_def)

lemma fillFromSpool_spec:
  assumes inv: "stream_inv s"
  shows "\<exists>s'. fillFromSpool w s = Some s' \<and> stream_inv s' \<and> same_frame s s' \<and> st_bytes s' = st_bytes s"
proof (cases "\<not> bb_empty (st_buffer s) \<or> capacity (st_buffer s) = 0 \<or> sp_empty (st_spool s)")
  case True
  with inv show ?thesis by (simp add: fillFromSpool_def)
next
  case False
  obtain sp chunk where r: "sp_read w (st_spool s) (min kChunk (capacity (st_buffer s))) = (sp, chunk)"
    by fastforce
  have spinv: "spool_inv (st_spool s)" and binv: "buffer_inv (st_buffer s)"
    and empty: "content (st_buffer s) = []"
    using inv False by (auto simp: stream_inv_def bb_empty_iff)
  note rs = sp_read_spec [OF spinv r]
  show ?thesis
  proof (cases "chunk = []")
    case True
    with False r rs inv show ?thesis
      by (auto simp: fillFromSpool_def stream_inv_def st_bytes_def same_frame_def)
  next
    case nonempty: False
    have "sp_bytes (st_spool s) \<noteq> []" using rs(2) nonempty by simp
    then have pol: "policy (st_buffer s) = Spool" and st: "st_state s \<noteq> Closed" "st_state s \<noteq> HalfClosedLocal"
      using inv by (auto simp: stream_inv_def st_bytes_def)
    have len: "length chunk \<le> available (st_buffer s)"
      using rs(3) empty bb_size_pos [of "st_buffer s"] by (simp add: available_def)
    obtain b n where b: "bb_append (st_buffer s) chunk = Some (b, n)" "buffer_inv b" "content b = chunk"
      "capacity b = capacity (st_buffer s)" "policy b = policy (st_buffer s)"
      using lossless_append [of "st_buffer s" chunk] pol binv len empty
      by (auto simp: lossless_buffer_def dropsOnOverflow_def)
    show ?thesis
      using False r nonempty b rs pol st empty
      by (auto simp: fillFromSpool_def stream_inv_def st_bytes_def same_frame_def)
  qed
qed

text \<open>With a disk that works, and a spill that never failed, refilling leaves no byte behind.\<close>

definition disk_ok :: "(nat \<Rightarrow> io) \<Rightarrow> stream \<Rightarrow> bool" where
  "disk_ok w s \<longleftrightarrow> healthy w \<and> \<not> sp_failed (st_spool s)"

lemma disk_ok_release:
  "disk_ok w s \<Longrightarrow> spool_inv (st_spool s) \<Longrightarrow> sp_read w (st_spool s) k = (sp, got) \<Longrightarrow>
   st_spool s' = (if sp_empty sp then sp_reset sp else sp) \<Longrightarrow> disk_ok w s'"
  by (simp add: disk_ok_def sp_read_spec(4))

lemma fillFromSpool_disk_ok:
  assumes inv: "stream_inv s" and ok: "disk_ok w s" and eq: "fillFromSpool w s = Some s'"
  shows "disk_ok w s' \<and> (content (st_buffer s') = [] \<longrightarrow> capacity (st_buffer s') = 0 \<or> st_bytes s' = [])"
proof (cases "\<not> bb_empty (st_buffer s) \<or> capacity (st_buffer s) = 0 \<or> sp_empty (st_spool s)")
  case True
  with eq ok inv show ?thesis
    by (auto simp: fillFromSpool_def bb_empty_iff st_bytes_def stream_inv_def sp_empty_iff)
next
  case False
  obtain sp chunk where r: "sp_read w (st_spool s) (min kChunk (capacity (st_buffer s))) = (sp, chunk)"
    by fastforce
  have spinv: "spool_inv (st_spool s)" using inv by (simp add: stream_inv_def)
  have "chunk = take (min kChunk (capacity (st_buffer s))) (sp_bytes (st_spool s))"
    using sp_read_healthy [OF _ spinv, of w] ok r by (metis disk_ok_def snd_conv)
  then have ne: "chunk \<noteq> []"
    using False spinv by (simp add: sp_empty_iff kChunk_def)
  obtain b n where b: "bb_append (st_buffer s) chunk = Some (b, n)"
    and s': "s' = s\<lparr>st_buffer := b, st_spool := (if sp_empty sp then sp_reset sp else sp)\<rparr>"
    using eq False r ne by (auto simp: fillFromSpool_def split: bind_splits)
  have "content b \<noteq> []"
    using lossless_append [of "st_buffer s" chunk] inv b False ne spinv
    by (auto simp: lossless_buffer_def dropsOnOverflow_def stream_inv_def available_def bb_empty_def
        sp_empty_iff)
  with s' ok r spinv show ?thesis using disk_ok_release [OF ok spinv r, of s'] by simp
qed

subsection \<open>Reading\<close>

text \<open>One read from the spill of a ring with no capacity.\<close>

lemma spool_direct_read:
  assumes inv: "stream_inv s" and r: "sp_read w (st_spool s) k = (sp, got)"
    and empty: "content (st_buffer s) = []"
  defines "s' \<equiv> s\<lparr>st_spool := (if sp_empty sp then sp_reset sp else sp)\<rparr>"
  shows "stream_inv s'" "same_frame s s'" "st_bytes s = got @ st_bytes s'" "length got \<le> k"
proof -
  have spinv: "spool_inv (st_spool s)" using inv by (simp add: stream_inv_def)
  note rs = sp_read_spec [OF spinv r]
  show "same_frame s s'" "length got \<le> k" using rs by (simp_all add: s'_def same_frame_def)
  show bytes: "st_bytes s = got @ st_bytes s'" using rs empty by (simp add: s'_def st_bytes_def)
  show "stream_inv s'"
    using inv rs bytes empty by (auto simp: s'_def stream_inv_def st_bytes_def)
qed

lemma ring_consume_step:
  assumes inv: "stream_inv s" and ne: "content (st_buffer s) \<noteq> []"
  shows "\<exists>b. bb_consume (st_buffer s) k = Some (b, take k (content (st_buffer s))) \<and>
    stream_inv (s\<lparr>st_buffer := b\<rparr>) \<and> same_frame s (s\<lparr>st_buffer := b\<rparr>) \<and>
    st_bytes s = take k (content (st_buffer s)) @ st_bytes (s\<lparr>st_buffer := b\<rparr>)"
proof -
  have binv: "buffer_inv (st_buffer s)" using inv by (simp add: stream_inv_def)
  have "st_state s \<noteq> Closed" "st_state s \<noteq> HalfClosedLocal"
    using inv ne by (auto simp: stream_inv_def st_bytes_def)
  then show ?thesis
    using bb_consume_spec [OF binv, of k] inv content_discardFront [OF binv]
    by (auto simp: stream_inv_def same_frame_def st_bytes_def)
qed

text \<open>The loop returns, and what it adds to \<open>out\<close> is the front of the stream.\<close>

definition reads_ok :: "(nat \<Rightarrow> io) \<Rightarrow> stream \<Rightarrow> nat \<Rightarrow> string \<Rightarrow> bool" where
  "reads_ok w s n out \<longleftrightarrow> (\<exists>s' got. st_read_loop w s n out = Some (s', out @ got) \<and> stream_inv s' \<and>
     same_frame s s' \<and> st_bytes s = got @ st_bytes s' \<and> length out + length got \<le> n \<and>
     (disk_ok w s \<longrightarrow> disk_ok w s' \<and> (length out + length got < n \<longrightarrow> st_bytes s' = [])))"

lemma reads_ok_stop:
  assumes "st_read_loop w s n out = Some (s', out)" "stream_inv s'" "same_frame s s'"
    "st_bytes s' = st_bytes s" "length out \<le> n"
    "disk_ok w s \<Longrightarrow> disk_ok w s'" "disk_ok w s \<Longrightarrow> length out < n \<Longrightarrow> st_bytes s' = []"
  shows "reads_ok w s n out"
  unfolding reads_ok_def using assms by (intro exI [of _ s'] exI [of _ "[]"]) simp

lemma reads_ok_step:
  assumes "st_read_loop w s n out = st_read_loop w s2 n (out @ got)" "reads_ok w s2 n (out @ got)"
    "same_frame s s2" "st_bytes s = got @ st_bytes s2" "disk_ok w s \<Longrightarrow> disk_ok w s2"
  shows "reads_ok w s n out"
proof -
  obtain s' more where "st_read_loop w s2 n (out @ got) = Some (s', (out @ got) @ more)" "stream_inv s'"
    "same_frame s2 s'" "st_bytes s2 = more @ st_bytes s'" "length (out @ got) + length more \<le> n"
    "disk_ok w s2 \<longrightarrow> disk_ok w s' \<and> (length (out @ got) + length more < n \<longrightarrow> st_bytes s' = [])"
    using assms(2) by (auto simp: reads_ok_def)
  with assms show ?thesis
    unfolding reads_ok_def
    by (intro exI [of _ s'] exI [of _ "got @ more"]) (auto intro: same_frame_trans)
qed

lemma reads_ok_loop: "stream_inv s \<Longrightarrow> length out \<le> n \<Longrightarrow> reads_ok w s n out"
proof (induction "n - length out" arbitrary: s out rule: less_induct)
  case less
  obtain s1 where s1: "fillFromSpool w s = Some s1" "stream_inv s1" "same_frame s s1"
    "st_bytes s1 = st_bytes s"
    using fillFromSpool_spec [OF less.prems(1)] by blast
  note eqs = st_read_loop.simps [of w s] s1(1) bb_empty_iff
  note ok = fillFromSpool_disk_ok [OF less.prems(1) _ s1(1)]
  have spinv: "spool_inv (st_spool s1)" using s1(2) by (simp add: stream_inv_def)
  consider (filled) "length out = n"
    | (ring) "length out < n" "content (st_buffer s1) \<noteq> []"
    | (direct) "length out < n" "content (st_buffer s1) = []" "capacity (st_buffer s1) = 0"
        "\<not> sp_empty (st_spool s1)"
    | (stop) "length out < n" "content (st_buffer s1) = []"
        "\<not> (capacity (st_buffer s1) = 0 \<and> \<not> sp_empty (st_spool s1))"
    using less.prems(2) by fastforce
  then show ?case
  proof cases
    case filled
    with less.prems show ?thesis by (intro reads_ok_stop) (simp_all add: st_read_loop.simps [of w s])
  next
    case ring
    define got where "got = take (n - length out) (content (st_buffer s1))"
    have got: "got \<noteq> []" "length (out @ got) \<le> n" using ring by (auto simp: got_def)
    obtain b where b: "bb_consume (st_buffer s1) (n - length out) = Some (b, got)"
      "stream_inv (s1\<lparr>st_buffer := b\<rparr>)" "same_frame s1 (s1\<lparr>st_buffer := b\<rparr>)"
      "st_bytes s1 = got @ st_bytes (s1\<lparr>st_buffer := b\<rparr>)"
      using ring_consume_step [OF s1(2) ring(2)] by (auto simp: got_def)
    have "reads_ok w (s1\<lparr>st_buffer := b\<rparr>) n (out @ got)"
      using less.hyps [OF remaining_less [OF got(1) ring(1)] b(2) got(2)] .
    with b s1 ring show ?thesis
      by (intro reads_ok_step [of w s n out "s1\<lparr>st_buffer := b\<rparr>" got])
        (use ok in \<open>auto simp: eqs disk_ok_def intro: same_frame_trans\<close>)
  next
    case direct
    obtain sp got where r: "sp_read w (st_spool s1) (n - length out) = (sp, got)" by fastforce
    define s2 where "s2 = s1\<lparr>st_spool := (if sp_empty sp then sp_reset sp else sp)\<rparr>"
    note d = spool_direct_read [OF s1(2) r direct(2), folded s2_def]
    have eq: "st_read_loop w s n out =
        (if got = [] then Some (s2, out) else st_read_loop w s2 n (out @ got))"
      using direct r by (simp add: eqs s2_def)
    have frame: "same_frame s s2" using s1(3) d(2) by (rule same_frame_trans)
    have ok2: "disk_ok w s2" if "disk_ok w s"
      using disk_ok_release [OF _ spinv r, of s2] ok that by (simp add: s2_def)
    have eager: "got = take (n - length out) (st_bytes s1)" if "disk_ok w s"
      using sp_read_healthy [OF _ spinv, of w "n - length out"] ok that r direct(2)
      by (simp add: disk_ok_def st_bytes_def)
    show ?thesis
    proof (cases "got = []")
      case True
      with eq d s1 frame less.prems direct(1) ok2 eager show ?thesis
        by (intro reads_ok_stop [of w s n out s2]) auto
    next
      case False
      then have "reads_ok w s2 n (out @ got)" 
        using less.hyps [OF remaining_less [OF False direct(1)] d(1)] d(4) direct(1) by simp
      with eq False d(3) s1 frame ok2 show ?thesis
        by (intro reads_ok_step [of w s n out s2 got]) simp_all
    qed
  next
    case stop
    then have "st_read_loop w s n out = Some (s1, out)" by (auto simp: eqs)
    with s1 less.prems ok stop spinv show ?thesis
      by (intro reads_ok_stop [of w s n out s1]) (auto simp: st_bytes_def sp_empty_iff)
  qed
qed

lemma maybeClose_spec:
  assumes "stream_inv s"
  shows "stream_inv (maybeCloseAfterDrain s)" "st_bytes (maybeCloseAfterDrain s) = st_bytes s"
    "policy (st_buffer (maybeCloseAfterDrain s)) = policy (st_buffer s)"
    "capacity (st_buffer (maybeCloseAfterDrain s)) = capacity (st_buffer s)"
    "st_state (maybeCloseAfterDrain s) =
       (if st_state s = HalfClosedRemote \<and> st_bytes s = [] then Closed else st_state s)"
  using assms st_readable_iff [OF assms]
  by (auto simp: maybeCloseAfterDrain_def stream_inv_def st_bytes_def)

lemma st_read_spec:
  assumes "stream_inv s"
  shows "\<exists>s' out. st_read w s n = Some (s', out) \<and> stream_inv s' \<and> st_bytes s = out @ st_bytes s' \<and>
    length out \<le> n \<and> policy (st_buffer s') = policy (st_buffer s) \<and>
    (disk_ok w s \<and> st_state s \<noteq> Failed \<longrightarrow> disk_ok w s' \<and> (length out < n \<longrightarrow> st_bytes s' = [])) \<and>
    st_state s' = (if st_state s = HalfClosedRemote \<and> st_bytes s' = [] then Closed else st_state s) \<and>
    st_error s' = st_error s"
proof (cases "st_state s = Failed")
  case True
  with assms show ?thesis by (simp add: st_read_def)
next
  case False
  obtain s1 got where s1: "st_read_loop w s n [] = Some (s1, got)" "stream_inv s1" "same_frame s s1"
    "st_bytes s = got @ st_bytes s1" "length got \<le> n"
    "disk_ok w s \<longrightarrow> disk_ok w s1 \<and> (length got < n \<longrightarrow> st_bytes s1 = [])"
    using reads_ok_loop [OF assms, of "[]" n w] by (auto simp: reads_ok_def)
  have "st_spool (maybeCloseAfterDrain s1) = st_spool s1" "st_error (maybeCloseAfterDrain s1) = st_error s1"
    by (simp_all add: maybeCloseAfterDrain_def)
  with False s1 maybeClose_spec [OF s1(2)] show ?thesis
    by (auto simp: st_read_def same_frame_def disk_ok_def)
qed

subsection \<open>Writing\<close>

lemma appendSpool_spec:
  assumes inv: "stream_inv s" and opn: "st_state s = Open" and pol: "policy (st_buffer s) = Spool"
  shows "\<exists>s' n. appendSpool w s d = Some (s', n) \<and> stream_inv s' \<and> same_frame s s' \<and>
    n \<le> length d \<and> st_bytes s' = st_bytes s @ take n d \<and>
    (disk_ok w s \<longrightarrow> n = length d \<and> disk_ok w s')"
proof (cases "d = [] \<or> \<not> sp_empty (st_spool s)")
  case True
  obtain sp ok where a: "sp_append w (st_spool s) d = (sp, ok)" by fastforce
  have "spool_inv (st_spool s)" using inv by (simp add: stream_inv_def)
  note as = sp_append_spec [OF this a]
  from True as opn pol inv a sp_append_healthy [OF _ _ a] show ?thesis
    by (auto simp: appendSpool_def stream_inv_def same_frame_def st_bytes_def disk_ok_def)
next
  case False
  define m where "m = min (length d) (available (st_buffer s))"
  have spinv: "spool_inv (st_spool s)" using inv by (simp add: stream_inv_def)
  then have noSp: "sp_bytes (st_spool s) = []" using False by (simp add: sp_empty_iff)
  obtain b where b: "bb_append (st_buffer s) d = Some (b, m)" "buffer_inv b" "policy b = Spool"
    "content b = content (st_buffer s) @ take m d" "capacity b = capacity (st_buffer s)"
    using lossless_append [of "st_buffer s" d] inv pol
    by (auto simp: lossless_buffer_def dropsOnOverflow_def stream_inv_def m_def min_def)
  show ?thesis
  proof (cases "m = length d")
    case True
    with False b opn pol inv noSp show ?thesis
      by (auto simp: appendSpool_def stream_inv_def same_frame_def st_bytes_def disk_ok_def)
  next
    case small: False
    obtain sp ok where a: "sp_append w (st_spool s) (drop m d) = (sp, ok)" by fastforce
    note as = sp_append_spec [OF spinv a]
    have "m \<le> length d" by (simp add: m_def)
    with False small b a as opn pol inv noSp sp_append_healthy [OF _ _ a] show ?thesis
      by (auto simp: appendSpool_def stream_inv_def same_frame_def st_bytes_def disk_ok_def)
  qed
qed

lemma st_write_spec:
  assumes inv: "stream_inv s"
  shows "\<exists>s' n. st_write w s d = Some (s', n) \<and> stream_inv s' \<and> same_frame s s' \<and> n \<le> length d \<and>
    (\<not> dropsOnOverflow (policy (st_buffer s)) \<longrightarrow> st_bytes s' = st_bytes s @ take n d) \<and>
    (disk_ok w s \<longrightarrow> disk_ok w s' \<and> (policy (st_buffer s) = Spool \<and> st_state s = Open \<longrightarrow> n = length d))"
proof (cases "st_state s \<noteq> Open \<or> policy (st_buffer s) = Spool")
  case True
  with inv appendSpool_spec [OF inv, of w d] show ?thesis by (auto simp: st_write_def)
next
  case False
  obtain b n where b: "bb_append (st_buffer s) d = Some (b, n)" "buffer_inv b" "n \<le> length d"
    "capacity b = capacity (st_buffer s)" "policy b = policy (st_buffer s)"
    "\<not> dropsOnOverflow (policy (st_buffer s)) \<longrightarrow> content b = content (st_buffer s) @ take n d"
    using bb_append_refines [of "st_buffer s" d] inv
    by (auto simp: stream_inv_def append_spec_def dropsOnOverflow_def Let_def min_def
        split: OverflowPolicy.splits)
  with False inv show ?thesis
    by (auto simp: st_write_def stream_inv_def same_frame_def st_bytes_def disk_ok_def)
qed

subsection \<open>Dropping\<close>

text \<open>The loop returns, and has removed a front part of at most \<open>n\<close> bytes.\<close>

definition drops_ok :: "(nat \<Rightarrow> io) \<Rightarrow> stream \<Rightarrow> nat \<Rightarrow> bool" where
  "drops_ok w s n \<longleftrightarrow> (\<exists>s' k. st_drop_loop w s n = Some s' \<and> stream_inv s' \<and> same_frame s s' \<and>
     k \<le> n \<and> st_bytes s' = drop k (st_bytes s))"

lemma drops_ok_stop:
  "st_drop_loop w s n = Some s' \<Longrightarrow> stream_inv s' \<Longrightarrow> same_frame s s' \<Longrightarrow> st_bytes s' = st_bytes s \<Longrightarrow>
   drops_ok w s n"
  unfolding drops_ok_def by (intro exI [of _ s'] exI [of _ 0]) simp

lemma drops_ok_step:
  assumes "st_drop_loop w s n = st_drop_loop w s2 (n - j)" "drops_ok w s2 (n - j)" "j \<le> n"
    "same_frame s s2" "st_bytes s2 = drop j (st_bytes s)"
  shows "drops_ok w s n"
proof -
  obtain s' k where "st_drop_loop w s2 (n - j) = Some s'" "stream_inv s'" "same_frame s2 s'"
    "k \<le> n - j" "st_bytes s' = drop k (st_bytes s2)"
    using assms(2) by (auto simp: drops_ok_def)
  with assms show ?thesis
    unfolding drops_ok_def
    by (intro exI [of _ s'] exI [of _ "k + j"]) (auto intro: same_frame_trans simp: add.commute)
qed

lemma ring_discard_step:
  assumes inv: "stream_inv s" and j: "j \<le> bb_size (st_buffer s)"
  defines "s' \<equiv> s\<lparr>st_buffer := discardFront (st_buffer s) j\<rparr>"
  shows "stream_inv s'" "same_frame s s'" "st_bytes s' = drop j (st_bytes s)"
proof -
  have binv: "buffer_inv (st_buffer s)" using inv by (simp add: stream_inv_def)
  show "same_frame s s'" by (simp add: s'_def same_frame_def)
  show bytes: "st_bytes s' = drop j (st_bytes s)"
    using j by (simp add: s'_def st_bytes_def content_discardFront [OF binv])
  have "st_bytes s = [] \<Longrightarrow> st_bytes s' = []" using bytes by simp
  with inv show "stream_inv s'" by (auto simp: stream_inv_def s'_def)
qed

lemma drops_ok_loop: "stream_inv s \<Longrightarrow> drops_ok w s n"
proof (induction n arbitrary: s rule: less_induct)
  case (less n)
  obtain s1 where s1: "fillFromSpool w s = Some s1" "stream_inv s1" "same_frame s s1"
    "st_bytes s1 = st_bytes s"
    using fillFromSpool_spec [OF less.prems] by blast
  note eqs = st_drop_loop.simps [of w s] s1(1)
  define j where "j = min n (bb_size (st_buffer s1))"
  consider (zero) "n = 0" | (ring) "n > 0" "j > 0"
    | (direct) "n > 0" "j = 0" "capacity (st_buffer s1) = 0" "\<not> sp_empty (st_spool s1)"
    | (stop) "n > 0" "j = 0" "\<not> (capacity (st_buffer s1) = 0 \<and> \<not> sp_empty (st_spool s1))"
    by auto
  then show ?case
  proof cases
    case zero
    with less.prems show ?thesis by (intro drops_ok_stop) (simp_all add: st_drop_loop.simps [of w s])
  next
    case ring
    have j: "j \<le> bb_size (st_buffer s1)" "j \<le> n" by (simp_all add: j_def)
    define s2 where "s2 = s1\<lparr>st_buffer := discardFront (st_buffer s1) j\<rparr>"
    note d = ring_discard_step [OF s1(2) j(1), folded s2_def]
    have "st_drop_loop w s n = st_drop_loop w s2 (n - j)"
      using ring by (simp add: eqs Let_def s2_def j_def)
    moreover have "drops_ok w s2 (n - j)" using less.IH [of "n - j" s2] d(1) ring by simp
    ultimately show ?thesis
      using j(2) d(3) s1(4) same_frame_trans [OF s1(3) d(2)]
      by (intro drops_ok_step [of w s n s2 j]) simp_all
  next
    case direct
    have empty: "content (st_buffer s1) = []"
      using direct(1,2) bb_size_pos [of "st_buffer s1"] by (auto simp: j_def)
    obtain sp got where r: "sp_read w (st_spool s1) (min n kChunk) = (sp, got)" by fastforce
    define s2 where "s2 = s1\<lparr>st_spool := (if sp_empty sp then sp_reset sp else sp)\<rparr>"
    note d = spool_direct_read [OF s1(2) r empty, folded s2_def]
    have eq: "st_drop_loop w s n =
        (if got = [] then Some s2 else st_drop_loop w s2 (n - length got))"
      using direct r by (auto simp: eqs Let_def s2_def j_def)
    show ?thesis
    proof (cases "got = []")
      case True
      with eq d s1 show ?thesis
        by (intro drops_ok_stop [of w s n s2]) (auto intro: same_frame_trans)
    next
      case False
      then have "drops_ok w s2 (n - length got)"
        using less.IH [of "n - length got" s2] d(1) direct(1) by simp
      with eq False d s1 show ?thesis
        by (intro drops_ok_step [of w s n s2 "length got"]) (auto intro: same_frame_trans)
    qed
  next
    case stop
    then have "st_drop_loop w s n = Some s1" by (auto simp: eqs Let_def j_def)
    with s1 show ?thesis by (intro drops_ok_stop)
  qed
qed

lemma st_drop_spec:
  assumes "stream_inv s"
  shows "\<exists>s' k. st_drop w s n = Some s' \<and> stream_inv s' \<and> k \<le> n \<and> st_bytes s' = drop k (st_bytes s) \<and>
    st_state s' = (if st_state s = HalfClosedRemote \<and> st_bytes s' = [] then Closed else st_state s) \<and>
    st_error s' = st_error s"
proof -
  obtain s1 k where s1: "st_drop_loop w s n = Some s1" "stream_inv s1" "same_frame s s1" "k \<le> n"
    "st_bytes s1 = drop k (st_bytes s)"
    using drops_ok_loop [OF assms, of w n] by (auto simp: drops_ok_def)
  have "st_error (maybeCloseAfterDrain s1) = st_error s1" by (simp add: maybeCloseAfterDrain_def)
  with s1 maybeClose_spec [OF s1(2)] show ?thesis
    by (auto simp: st_drop_def same_frame_def)
qed

lemma st_peek_spec:
  assumes "stream_inv s"
  shows "\<exists>s' bytes rest. st_peek w s = Some (s', bytes) \<and> stream_inv s' \<and> same_frame s s' \<and>
    st_bytes s' = st_bytes s \<and> st_bytes s = bytes @ rest"
proof -
  obtain s1 where s1: "fillFromSpool w s = Some s1" "stream_inv s1" "same_frame s s1"
    "st_bytes s1 = st_bytes s"
    using fillFromSpool_spec [OF assms] by blast
  then have "buffer_inv (st_buffer s1)" by (simp add: stream_inv_def)
  then obtain bytes rest where "bb_peek (st_buffer s1) = Some bytes" "content (st_buffer s1) = bytes @ rest"
    using bb_peek_spec by blast
  with s1 show ?thesis
    by (intro exI [of _ s1] exI [of _ bytes] exI [of _ "rest @ sp_bytes (st_spool s1)"])
      (simp add: st_peek_def st_bytes_def)
qed

subsection \<open>The half-close state machine\<close>

text \<open>Every call a user of the class can make.\<close>

datatype stream_op = Write string | Read nat | Peek | Drop nat | CloseRemote | CloseLocal | Fail error

fun st_exec :: "(nat \<Rightarrow> io) \<Rightarrow> stream \<Rightarrow> stream_op \<Rightarrow> stream option" where
  "st_exec w s (Write d) = map_option fst (st_write w s d)"
| "st_exec w s (Read n) = map_option fst (st_read w s n)"
| "st_exec w s Peek = map_option fst (st_peek w s)"
| "st_exec w s (Drop n) = st_drop w s n"
| "st_exec w s CloseRemote = Some (closeRemote s)"
| "st_exec w s CloseLocal = Some (closeLocal s)"
| "st_exec w s (Fail e) = Some (st_fail s e)"

fun st_run :: "(nat \<Rightarrow> io) \<Rightarrow> stream \<Rightarrow> stream_op list \<Rightarrow> stream option" where
  "st_run w s [] = Some s"
| "st_run w s (x # xs) = do { s1 \<leftarrow> st_exec w s x; st_run w s1 xs }"

text \<open>
  The state machine of the header, call by call, \<open>left\<close> being the bytes still to be read after the
  call: the writer's end waits for the last byte to be drained, the reader's end does not, and a
  failure is final but never downgrades a clean close.
\<close>

fun next_state :: "StreamState \<Rightarrow> stream_op \<Rightarrow> string \<Rightarrow> StreamState" where
  "next_state st (Read n) left = (if st = HalfClosedRemote \<and> left = [] then Closed else st)"
| "next_state st (Drop n) left = (if st = HalfClosedRemote \<and> left = [] then Closed else st)"
| "next_state Open CloseRemote left = HalfClosedRemote"
| "next_state HalfClosedLocal CloseRemote left = Closed"
| "next_state Open CloseLocal left = HalfClosedLocal"
| "next_state HalfClosedRemote CloseLocal left = Closed"
| "next_state Closed (Fail e) left = Closed"
| "next_state st (Fail e) left = Failed"
| "next_state st _ left = st"

text \<open>What a call does to the bytes: they are taken from the front, dropped at the reader's end, or kept.\<close>

fun next_bytes :: "stream \<Rightarrow> stream_op \<Rightarrow> string \<Rightarrow> bool" where
  "next_bytes s (Write d) left \<longleftrightarrow>
     (if st_state s \<noteq> Open then left = st_bytes s
      else dropsOnOverflow (policy (st_buffer s)) \<or> (\<exists>n \<le> length d. left = st_bytes s @ take n d))"
| "next_bytes s (Read n) left \<longleftrightarrow> (\<exists>k \<le> n. left = drop k (st_bytes s))"
| "next_bytes s (Drop n) left \<longleftrightarrow> (\<exists>k \<le> n. left = drop k (st_bytes s))"
| "next_bytes s CloseLocal left \<longleftrightarrow>
     left = (if st_state s = Open \<or> st_state s = HalfClosedRemote then [] else st_bytes s)"
| "next_bytes s _ left \<longleftrightarrow> left = st_bytes s"

fun next_error :: "stream \<Rightarrow> stream_op \<Rightarrow> error option" where
  "next_error s (Fail e) = (if st_finished s then st_error s else Some e)"
| "next_error s _ = st_error s"

definition call_ok :: "stream \<Rightarrow> stream_op \<Rightarrow> stream \<Rightarrow> bool" where
  "call_ok s x s' \<longleftrightarrow> st_state s' = next_state (st_state s) x (st_bytes s') \<and>
     next_bytes s x (st_bytes s') \<and> st_error s' = next_error s x"

lemma close_spec:
  assumes "stream_inv s"
  shows "stream_inv (closeRemote s)" "stream_inv (closeLocal s)" "stream_inv (st_fail s e)"
  using assms
  by (auto simp: closeRemote_def closeLocal_def st_fail_def stream_inv_def st_bytes_def
      split: StreamState.splits)

lemma same_frame_state: "same_frame s s' \<Longrightarrow> st_state s' = st_state s \<and> st_error s' = st_error s"
  by (simp add: same_frame_def)

lemma closes_ok:
  assumes "stream_inv s"
  shows "call_ok s CloseRemote (closeRemote s)" "call_ok s CloseLocal (closeLocal s)" "call_ok s (Fail e) (st_fail s e)"
  using assms
  by (cases "st_state s"; simp add: call_ok_def closeRemote_def closeLocal_def st_fail_def st_bytes_def st_finished_def
      stream_inv_def)+

lemma st_exec_spec:
  assumes inv: "stream_inv s"
  shows "\<exists>s'. st_exec w s x = Some s' \<and> stream_inv s' \<and> call_ok s x s'"
proof (cases x)
  case (Write d)
  obtain s' n where s': "st_write w s d = Some (s', n)" "stream_inv s'" "same_frame s s'" "n \<le> length d"
    "\<not> dropsOnOverflow (policy (st_buffer s)) \<longrightarrow> st_bytes s' = st_bytes s @ take n d"
    using st_write_spec [OF inv, of w d] by blast
  moreover have "st_state s \<noteq> Open \<Longrightarrow> s' = s" using s'(1) by (simp add: st_write_def)
  ultimately show ?thesis
    using Write same_frame_state [OF s'(3)] by (cases "st_state s") (auto simp: call_ok_def)
next
  case (Read n)
  obtain s' out where r: "st_read w s n = Some (s', out)" "stream_inv s'" "st_bytes s = out @ st_bytes s'"
    "length out \<le> n" "st_error s' = st_error s"
    "st_state s' = (if st_state s = HalfClosedRemote \<and> st_bytes s' = [] then Closed else st_state s)"
    using st_read_spec [OF inv, of w n] by blast
  then have "st_bytes s' = drop (length out) (st_bytes s)" by simp
  with Read r show ?thesis by (auto simp: call_ok_def)
next
  case Peek
  then show ?thesis
    using st_peek_spec [OF inv, of w] by (cases "st_state s") (auto simp: same_frame_def call_ok_def)
next
  case (Drop n)
  obtain s' k where "st_drop w s n = Some s'" "stream_inv s'" "k \<le> n" "st_bytes s' = drop k (st_bytes s)"
    "st_error s' = st_error s"
    "st_state s' = (if st_state s = HalfClosedRemote \<and> st_bytes s' = [] then Closed else st_state s)"
    using st_drop_spec [OF inv, of w n] by blast
  with Drop show ?thesis by (auto simp: call_ok_def)
qed (use close_spec [OF inv] closes_ok [OF inv] in simp_all)

lemma st_run_spec:
  assumes "stream_inv s"
  shows "\<exists>s'. st_run w s xs = Some s' \<and> stream_inv s'"
  using assms
proof (induction xs arbitrary: s)
  case (Cons x xs)
  obtain s1 where "st_exec w s x = Some s1" "stream_inv s1"
    using st_exec_spec [OF Cons.prems, of w x] by blast
  then show ?case using Cons.IH [of s1] by simp
qed simp

subsection \<open>The stream as a byte channel\<close>

definition lossless_stream :: "stream \<Rightarrow> bool" where
  "lossless_stream s \<longleftrightarrow> stream_inv s \<and> \<not> dropsOnOverflow (policy (st_buffer s))"

interpretation channel: byte_fifo lossless_stream st_bytes "st_write w" "st_read w" for w
proof
  fix s d assume "lossless_stream s"
  then show "\<exists>s' n. st_write w s d = Some (s', n) \<and> lossless_stream s' \<and> n \<le> length d \<and>
      st_bytes s' = st_bytes s @ take n d"
    using st_write_spec [of s w d] by (auto simp: lossless_stream_def same_frame_def)
next
  fix s k assume "lossless_stream s"
  then show "\<exists>s' out. st_read w s k = Some (s', out) \<and> lossless_stream s' \<and> length out \<le> k \<and>
      st_bytes s = out @ st_bytes s'"
    using st_read_spec [of s w k] by (auto simp: lossless_stream_def)
qed

subsection \<open>Properties\<close>

lemma stream_new:
  "st_bytes (Stream cap pol) = []" "policy (st_buffer (Stream cap pol)) = pol" "st_state (Stream cap pol) = Open"
  by (simp_all add: Stream_def st_bytes_def) (simp add: BoundedBuffer_def)


text \<open>
  C26: a stream with a lossless policy delivers the accepted bytes in order, also when they pass through
  the disk and when the disk fails: what was delivered is a prefix of what was accepted.
\<close>

theorem stream_in_order:
  assumes "\<not> dropsOnOverflow pol"
  shows "\<exists>s accepted delivered. fifo_run (st_write w) (st_read w) (Stream cap pol) ops =
    Some (s, accepted, delivered) \<and> accepted = delivered @ st_bytes s"
proof -
  have "lossless_stream (Stream cap pol)" using assms by (simp add: lossless_stream_def stream_new(2))
  from channel.delivered_prefix [OF this stream_new(1)] show ?thesis .
qed

theorem stream_in_order_witness:
  "\<exists>s accepted delivered.
     fifo_run (st_write (\<lambda>t. \<lparr>tmpfile_ok = True, seek_ok = True, flush_ok = True, short_count = Some 1\<rparr>))
       (st_read (\<lambda>t. \<lparr>tmpfile_ok = True, seek_ok = True, flush_ok = True, short_count = Some 1\<rparr>))
       (Stream 2 Spool) [Put ''abcd'', Get 3] = Some (s, accepted, delivered) \<and> accepted = delivered @ st_bytes s"
  by (rule stream_in_order) (simp add: dropsOnOverflow_def)

lemma closeRemote_open:
  assumes "stream_inv s" "st_state s = Open"
  shows "stream_inv (closeRemote s)" "st_state (closeRemote s) = HalfClosedRemote"
    "st_bytes (closeRemote s) = st_bytes s" "disk_ok w (closeRemote s) = disk_ok w s"
  using close_spec(1) [OF assms(1)] assms(2) by (simp_all add: closeRemote_def st_bytes_def disk_ok_def)

text \<open>
  With a working disk a spooling stream refuses nothing and loses nothing: a write is accepted whole,
  and after the writer's end a large enough read returns every byte and closes the stream.
\<close>

theorem spooling_complete:
  assumes "stream_inv s" "policy (st_buffer s) = Spool" "st_state s = Open" "disk_ok w s"
    "length (st_bytes s) + length d < k"
  shows "\<exists>s1 s2. st_write w s d = Some (s1, length d) \<and>
    st_read w (closeRemote s1) k = Some (s2, st_bytes s @ d) \<and> st_state s2 = Closed"
proof -
  obtain s1 n where s1: "st_write w s d = Some (s1, n)" "stream_inv s1" "same_frame s s1"
    "st_bytes s1 = st_bytes s @ take n d" "disk_ok w s1" "n = length d"
    using st_write_spec [OF assms(1), of w d] assms(2-4) by (auto simp: dropsOnOverflow_def)
  have opn: "st_state s1 = Open" using s1(3) assms(3) by (simp add: same_frame_def)
  note c = closeRemote_open [OF s1(2) opn]
  obtain s2 out where r: "st_read w (closeRemote s1) k = Some (s2, out)" "st_bytes s @ d = out @ st_bytes s2"
    "length out < k \<longrightarrow> st_bytes s2 = []"
    "st_state s2 = (if st_bytes s2 = [] then Closed else HalfClosedRemote)"
    using st_read_spec [OF c(1), of w k] c(2,3,4) s1(4,5,6) by auto
  have "length out \<le> length (st_bytes s @ d)" using r(2) by (metis length_append le_add1)
  with r(3) assms(5) have "st_bytes s2 = []" by simp
  with r s1 show ?thesis by auto
qed

theorem spooling_complete_witness:
  "\<exists>s1 s2. st_write (\<lambda>t. \<lparr>tmpfile_ok = True, seek_ok = True, flush_ok = True, short_count = None\<rparr>) (Stream 2 Spool) ''abcd'' = Some (s1, length ''abcd'') \<and>
     st_read (\<lambda>t. \<lparr>tmpfile_ok = True, seek_ok = True, flush_ok = True, short_count = None\<rparr>) (closeRemote s1) 9 = Some (s2, ''abcd'') \<and>
     st_state s2 = Closed"
proof -
  have "disk_ok (\<lambda>t. \<lparr>tmpfile_ok = True, seek_ok = True, flush_ok = True, short_count = None\<rparr>) (Stream 2 Spool)"
    by (simp add: disk_ok_def healthy_def Stream_def SpoolBuffer_def)
  moreover have "length (st_bytes (Stream 2 Spool)) + length ''abcd'' < 9" by (simp add: stream_new)
  ultimately show ?thesis
    using spooling_complete [OF stream_inv_new stream_new(2,3), of _ 2 "''abcd''" 9] by (simp add: stream_new(1))
qed

text \<open>
  a spill that failed once is never read again: a stream whose writer has ended while the spill
  still holds bytes returns nothing from any read, stays readable and never closes.
\<close>

theorem failed_spill_stuck:
  assumes "stream_inv s" "st_state s = HalfClosedRemote" "sp_failed (st_spool s)"
    "content (st_buffer s) = []" "st_bytes s \<noteq> []"
  shows "st_read w s n = Some (s, []) \<and> st_readable s"
proof -
  have e: "bb_empty (st_buffer s)" using assms(4) by (simp add: bb_empty_iff)
  have sp: "\<not> sp_empty (st_spool s)"
    using assms(1,4,5) sp_empty_iff [of "st_spool s"] by (simp add: stream_inv_def st_bytes_def)
  have r: "sp_read w (st_spool s) k = (st_spool s, [])" for k
    using assms(3) by (simp add: sp_read_def split: option.split)
  have f: "fillFromSpool w s = Some s" using e sp by (simp add: fillFromSpool_def r)
  have "st_read_loop w s n [] = Some (s, [])"
    using e sp by (simp add: st_read_loop.simps [of w s] f r)
  moreover have "st_readable s" using sp by (simp add: st_readable_def)
  ultimately show ?thesis using assms(2) by (simp add: st_read_def maybeCloseAfterDrain_def)
qed

theorem failed_spill_stuck_witness:
  "\<exists>s. st_state s = HalfClosedRemote \<and> st_read (\<lambda>t. \<lparr>tmpfile_ok = True, seek_ok = True, flush_ok = True, short_count = None\<rparr>) s 9 = Some (s, []) \<and> st_readable s"
proof -
  define s where "s = (Stream 1 Spool)\<lparr>st_spool := \<lparr>sp_file = Some ''b'', sp_size = 1, readOffset = 0,
      sp_failed = True, sp_clock = 2\<rparr>, st_state := HalfClosedRemote\<rparr>"
  have b: "buffer_inv (st_buffer s)" "content (st_buffer s) = []"
    by (simp_all add: s_def Stream_def)
  moreover have "policy (st_buffer s) = Spool" by (simp add: s_def Stream_def BoundedBuffer_def)
  ultimately have "stream_inv s" by (simp add: stream_inv_def spool_inv_def s_def)
  moreover have "st_bytes s \<noteq> []" using b(2) by (simp add: st_bytes_def) (simp add: s_def sp_bytes_def)
  ultimately show ?thesis using failed_spill_stuck [of s] b(2) by (intro exI [of _ s]) (simp add: s_def)
qed

end
