(* ===== verification/Line_Framer.thy ===== *)
theory Line_Framer
  imports Prelude
begin

text \<open>
  \<open>psx::stream::LineFramer\<close> (\<open>include/psx/stream/line_framer.hpp\<close>,
  \<open>src/stream/line_framer.cpp\<close>).  The sink callback of \<open>push\<close> and \<open>flush\<close> becomes the list of
  \<open>(line, truncated)\<close> events in the order of the calls.  The main lemma compares the byte by byte
  machine with a reference that looks at the whole text: normalise CRLF, split at LF, cut long lines.
\<close>

abbreviation LF :: char where "LF \<equiv> CHR 0x0A"
abbreviation CR :: char where "CR \<equiv> CHR 0x0D"

type_synonym line_event = "string \<times> bool"

record line_framer =
  pending :: string
  maxLineLength :: nat
  pendingCr :: bool

definition kDefaultMaxLineLength :: nat where
  "kDefaultMaxLineLength = 1024 * 1024"

definition LineFramer :: "nat \<Rightarrow> line_framer" where
  "LineFramer m =
     \<lparr>pending = [], maxLineLength = (if m = 0 then kDefaultMaxLineLength else m), pendingCr = False\<rparr>"

subsection \<open>push and flush\<close>

text \<open>The local function \<open>pushData\<close> of \<open>push\<close>.\<close>

definition pushData :: "line_framer \<Rightarrow> char \<Rightarrow> line_framer \<times> line_event list" where
  "pushData f byte =
     (if length (pending f) = maxLineLength f
      then (f\<lparr>pending := [byte]\<rparr>, [(pending f, True)])
      else (f\<lparr>pending := pending f @ [byte]\<rparr>, []))"

text \<open>The part of the loop body that treats a byte with no CR held back.\<close>

definition push_plain :: "line_framer \<Rightarrow> char \<Rightarrow> line_framer \<times> line_event list" where
  "push_plain f c =
     (if c = LF then (f\<lparr>pending := []\<rparr>, [(pending f, False)])
      else if c = CR then (f\<lparr>pendingCr := True\<rparr>, [])
      else pushData f c)"

definition push_byte :: "line_framer \<Rightarrow> char \<Rightarrow> line_framer \<times> line_event list" where
  "push_byte f c =
     (if pendingCr f then
        let f0 = f\<lparr>pendingCr := False\<rparr> in
        if c = LF then (f0\<lparr>pending := []\<rparr>, [(pending f0, False)])
        else let (f1, e1) = pushData f0 CR; (f2, e2) = push_plain f1 c in (f2, e1 @ e2)
      else push_plain f c)"

fun lf_push :: "line_framer \<Rightarrow> string \<Rightarrow> line_framer \<times> line_event list" where
  "lf_push f [] = (f, [])"
| "lf_push f (c # data) =
     (let (f1, e1) = push_byte f c; (f2, e2) = lf_push f1 data in (f2, e1 @ e2))"

definition lf_flush :: "line_framer \<Rightarrow> line_framer \<times> line_event list \<times> bool" where
  "lf_flush f =
     (let f1 = (if pendingCr f then f\<lparr>pending := pending f @ [CR], pendingCr := False\<rparr> else f)
      in if pending f1 = [] then (f1, [], False)
         else (f1\<lparr>pending := []\<rparr>, [(pending f1, False)], True))"

fun lf_push_chunks :: "line_framer \<Rightarrow> string list \<Rightarrow> line_framer \<times> line_event list" where
  "lf_push_chunks f [] = (f, [])"
| "lf_push_chunks f (d # ds) =
     (let (f1, e1) = lf_push f d; (f2, e2) = lf_push_chunks f1 ds in (f2, e1 @ e2))"

subsection \<open>Reference: framing a whole text\<close>

fun crlf_norm :: "string \<Rightarrow> string" where
  "crlf_norm [] = []"
| "crlf_norm [c] = [c]"
| "crlf_norm (c # d # s) = (if c = CR \<and> d = LF then LF # crlf_norm s else c # crlf_norm (d # s))"

text \<open>The terminated lines of a text and the unterminated rest.\<close>

fun split_lines :: "string \<Rightarrow> string list \<times> string" where
  "split_lines [] = ([], [])"
| "split_lines (c # s) =
     (case split_lines s of (ls, rest) \<Rightarrow>
        if c = LF then ([] # ls, rest)
        else case ls of [] \<Rightarrow> ([], c # rest) | l # ls' \<Rightarrow> ((c # l) # ls', rest))"

text \<open>A line cut into full pieces and a last piece of at most \<open>m\<close> bytes.\<close>

function cut_line :: "nat \<Rightarrow> string \<Rightarrow> string list \<times> string" where
  "cut_line m l =
     (if 0 < m \<and> m < length l
      then case cut_line m (drop m l) of (ps, r) \<Rightarrow> (take m l # ps, r) else ([], l))"
  by pat_completeness auto
termination by (relation "measure (length o snd)") auto

declare cut_line.simps [simp del]

definition cut_pieces :: "nat \<Rightarrow> string \<Rightarrow> line_event list" where
  "cut_pieces m l = map (\<lambda>p. (p, True)) (fst (cut_line m l))"

definition line_events :: "nat \<Rightarrow> string \<Rightarrow> line_event list" where
  "line_events m l = cut_pieces m l @ [(snd (cut_line m l), False)]"

text \<open>A CR at the very end is held back: whether it belongs to a terminator is not known yet.\<close>

definition held_cr :: "string \<Rightarrow> bool" where
  "held_cr s \<longleftrightarrow> s \<noteq> [] \<and> last s = CR"

definition settled :: "string \<Rightarrow> string" where
  "settled s = (if held_cr s then butlast s else s)"

definition framed :: "nat \<Rightarrow> string \<Rightarrow> line_framer \<times> line_event list" where
  "framed m s =
     (case split_lines (crlf_norm (settled s)) of (ls, rest) \<Rightarrow>
        (\<lparr>pending = snd (cut_line m rest), maxLineLength = m, pendingCr = held_cr s\<rparr>,
         concat (map (line_events m) ls) @ cut_pieces m rest))"

subsection \<open>Reference functions at the end of a text\<close>

lemma cut_line_snoc:
  assumes "0 < m"
  shows "cut_line m (l @ [c]) =
    (if length (snd (cut_line m l)) = m then (fst (cut_line m l) @ [snd (cut_line m l)], [c])
     else (fst (cut_line m l), snd (cut_line m l) @ [c]))"
  using assms
proof (induction m l rule: cut_line.induct)
  case (1 m l)
  show ?case
  proof (cases "m < length l")
    case True
    with 1 show ?thesis
      by (simp add: cut_line.simps [of m l] cut_line.simps [of m "l @ [c]"] split: prod.split)
  next
    case False
    with 1(2) show ?thesis
      by (auto simp: cut_line.simps [of m l] cut_line.simps [of m "l @ [c]"] cut_line.simps [of m "[c]"])
  qed
qed

lemma cut_line_length: "0 < m \<Longrightarrow> length (snd (cut_line m l)) \<le> m"
proof (induction m l rule: cut_line.induct)
  case (1 m l)
  then show ?case by (cases "m < length l") (auto simp: cut_line.simps [of m l] split: prod.split)
qed

lemma cut_line_full: "p \<in> set (fst (cut_line m l)) \<Longrightarrow> length p = m"
proof (induction m l rule: cut_line.induct)
  case (1 m l)
  then show ?case by (cases "0 < m \<and> m < length l") (auto simp: cut_line.simps [of m l] split: prod.splits)
qed

lemma cut_line_concat: "concat (fst (cut_line m l)) @ snd (cut_line m l) = l"
proof (induction m l rule: cut_line.induct)
  case (1 m l)
  then show ?case
    by (cases "0 < m \<and> m < length l") (auto simp: cut_line.simps [of m l] split: prod.splits)
qed

lemma cut_line_Nil [simp]: "cut_line m [] = ([], [])"
  by (simp add: cut_line.simps)

lemma split_lines_snoc:
  "split_lines (s @ [c]) =
     (case split_lines s of (ls, rest) \<Rightarrow>
        if c = LF then (ls @ [rest], []) else (ls, rest @ [c]))"
  by (induction s) (auto split: prod.splits list.splits)

lemma crlf_norm_snoc:
  "\<not> (c = LF \<and> held_cr s) \<Longrightarrow> crlf_norm (s @ [c]) = crlf_norm s @ [c]"
  by (induction s rule: crlf_norm.induct) (auto simp: held_cr_def split: if_splits)

lemma crlf_norm_crlf: "crlf_norm (s @ [CR, LF]) = crlf_norm s @ [LF]"
  by (induction s rule: crlf_norm.induct) auto

subsection \<open>The machine computes the reference\<close>

lemma lf_push_append:
  "lf_push f (a @ b) = (let (f1, e1) = lf_push f a; (f2, e2) = lf_push f1 b in (f2, e1 @ e2))"
  by (induction a arbitrary: f) (simp_all add: Let_def split: prod.splits)

lemma framed_step:
  assumes m: "0 < m"
  shows "framed m (s @ [c]) = (let (f, e) = framed m s; (f', e') = push_byte f c in (f', e @ e'))"
proof -
  obtain ls rest where sp: "split_lines (crlf_norm (settled s)) = (ls, rest)" by fastforce
  note step = framed_def cut_line_snoc [OF m] sp cut_pieces_def line_events_def push_byte_def
    push_plain_def pushData_def split_lines_snoc
  show ?thesis
  proof (cases "held_cr s")
    case True
    then obtain b where s: "s = b @ [CR]" "settled s = b"
      by (metis held_cr_def settled_def append_butlast_last_id)
    have "crlf_norm (settled (s @ [c])) =
        (if c = LF then crlf_norm b @ [LF] else if c = CR then crlf_norm b @ [CR]
         else crlf_norm b @ [CR, c])"
      using s crlf_norm_crlf [of b] crlf_norm_snoc [of CR b] crlf_norm_snoc [of c "b @ [CR]"]
      by (auto simp: settled_def held_cr_def butlast_append)
    with s sp True show ?thesis
      using split_lines_snoc [of "crlf_norm b @ [CR]" c] cut_line_snoc [OF m, of "rest @ [CR]" c]
      by (auto simp: step held_cr_def Let_def)
  next
    case False
    then have "settled s = s" by (simp add: settled_def)
    moreover have "crlf_norm (settled (s @ [c])) = (if c = CR then crlf_norm s else crlf_norm s @ [c])"
      using False crlf_norm_snoc [of c s] by (auto simp: settled_def held_cr_def)
    ultimately show ?thesis
      using sp False by (auto simp: step held_cr_def)
  qed
qed

lemma lf_push_framed: "0 < m \<Longrightarrow> lf_push (LineFramer m) s = framed m s"
proof (induction s rule: rev_induct)
  case Nil
  then show ?case
    by (simp add: framed_def settled_def held_cr_def LineFramer_def cut_pieces_def)
next
  case (snoc c s)
  then show ?case
    by (simp add: lf_push_append framed_step Let_def split: prod.splits)
qed

lemma lf_push_chunks_concat: "lf_push_chunks f ds = lf_push f (concat ds)"
  by (induction ds arbitrary: f) (simp_all add: lf_push_append Let_def split: prod.splits)

subsection \<open>Bounds\<close>

lemma lf_push_bounds:
  assumes "0 < m" "lf_push (LineFramer m) s = (f, events)"
  shows "length (pending f) \<le> m" "(l, t) \<in> set events \<Longrightarrow> length l \<le> m"
    "(l, True) \<in> set events \<Longrightarrow> length l = m"
proof -
  obtain ls rest where sp: "split_lines (crlf_norm (settled s)) = (ls, rest)" by fastforce
  have eq: "f = \<lparr>pending = snd (cut_line m rest), maxLineLength = m, pendingCr = held_cr s\<rparr>"
    "events = concat (map (line_events m) ls) @ cut_pieces m rest"
    using lf_push_framed [OF assms(1), of s] assms(2) sp by (simp_all add: framed_def)
  show "length (pending f) \<le> m" using cut_line_length [OF assms(1)] eq by simp
  have pieces: "length p = m" if "(p, b) \<in> set (cut_pieces m l)" for p b l
    using that cut_line_full by (auto simp: cut_pieces_def)
  show "length l = m" if "(l, True) \<in> set events"
    using that pieces eq by (auto simp: line_events_def)
  show "length l \<le> m" if "(l, t) \<in> set events"
    using that pieces eq cut_line_length [OF assms(1)] by (fastforce simp: line_events_def)
qed

subsection \<open>Properties\<close>

text \<open>
  C32: line framing does not depend on how the output arrives: for every cut of a text into chunks the
  events are those of framing the whole text, where CR LF counts as LF, a long line is cut into full
  pieces marked as truncated, and a CR at the end is held back.
\<close>

theorem framing_chunk_invariant:
  assumes "0 < m"
  shows "lf_push_chunks (LineFramer m) ds = framed m (concat ds)"
  using lf_push_framed [OF assms] by (simp add: lf_push_chunks_concat)

theorem framing_chunk_invariant_witness:
  "lf_push_chunks (LineFramer 80) [[CHR ''a'', CR], [LF, CHR ''b'']] = framed 80 [CHR ''a'', CR, LF, CHR ''b'']"
  using framing_chunk_invariant [of 80 "[[CHR ''a'', CR], [LF, CHR ''b'']]"] by simp

text \<open>Memory and line bounds: no line and no pending text ever exceeds the maximum while pushing.\<close>

theorem framing_bounded:
  assumes "0 < m" "lf_push_chunks (LineFramer m) ds = (f, events)"
  shows "length (pending f) \<le> m \<and> (\<forall>(l, truncated) \<in> set events. length l \<le> m \<and> (truncated \<longrightarrow> length l = m))"
  using lf_push_bounds [OF assms(1) assms(2) [unfolded lf_push_chunks_concat]] by fastforce

theorem framing_bounded_witness:
  "length (pending (fst (lf_push_chunks (LineFramer 2) [''abcde'']))) \<le> 2"
proof -
  obtain f es where r: "lf_push_chunks (LineFramer 2) [''abcde''] = (f, es)" by (cases "lf_push_chunks (LineFramer 2) [''abcde'']")
  have "(0 :: nat) < 2" by simp
  from framing_bounded [OF this r] r show ?thesis by simp
qed

text \<open>
  \<open>flush\<close> is the exception: it appends a held CR without the length check, and the last line can be
  one byte longer than the maximum without being marked as truncated.
\<close>

theorem flush_exceeds_maximum:
  "\<exists>f l. fst (lf_push (LineFramer 1) [CHR ''a'', CR]) = f \<and> fst (snd (lf_flush f)) = [(l, False)] \<and> length l = 2"
  by (simp add: LineFramer_def push_byte_def push_plain_def pushData_def lf_flush_def)

end
