(* ===== verification/Text.thy ===== *)
theory Text
  imports Prelude "HOL-Library.Char_ord" "HOL-Library.List_Lexorder"
begin

text \<open>
  What the parsers of the program use of \<open>std::string\<close> and \<open><cctype>\<close>: character classes, trimming,
  searching, splitting at a character, decimal numbers.
\<close>

abbreviation TAB :: char where "TAB \<equiv> CHR 0x09"
abbreviation NL :: char where "NL \<equiv> CHR 0x0A"
abbreviation RET :: char where "RET \<equiv> CHR 0x0D"
abbreviation SQ :: char where "SQ \<equiv> CHR 0x27"
abbreviation DQ :: char where "DQ \<equiv> CHR 0x22"
abbreviation BSL :: char where "BSL \<equiv> CHR 0x5C"

text \<open>\<open>std::isspace\<close> in the C locale.\<close>

definition isspace :: "char \<Rightarrow> bool" where
  "isspace c \<longleftrightarrow> c \<in> {CHR '' '', TAB, NL, CHR 0x0B, CHR 0x0C, RET}"

definition isdigit :: "char \<Rightarrow> bool" where
  "isdigit c \<longleftrightarrow> of_char c \<ge> (48 :: nat) \<and> of_char c \<le> (57 :: nat)"

definition isalpha :: "char \<Rightarrow> bool" where
  "isalpha c \<longleftrightarrow> of_char c \<ge> (65 :: nat) \<and> of_char c \<le> (90 :: nat) \<or> of_char c \<ge> (97 :: nat) \<and> of_char c \<le> (122 :: nat)"

definition isalnum :: "char \<Rightarrow> bool" where
  "isalnum c \<longleftrightarrow> isdigit c \<or> isalpha c"

subsection \<open>Trimming\<close>

definition trim_by :: "(char \<Rightarrow> bool) \<Rightarrow> string \<Rightarrow> string" where
  "trim_by P s = rev (dropWhile P (rev (dropWhile P s)))"

definition trim :: "string \<Rightarrow> string" where
  "trim = trim_by isspace"

subsection \<open>Searching\<close>

text \<open>\<open>find\<close>, \<open>find_first_of\<close>: the first position, or \<^const>\<open>None\<close> for \<open>npos\<close>.\<close>

definition find_if :: "(char \<Rightarrow> bool) \<Rightarrow> string \<Rightarrow> nat option" where
  "find_if P s = (if \<exists>c \<in> set s. P c then Some (length (takeWhile (\<lambda>c. \<not> P c) s)) else None)"

definition find_char :: "char \<Rightarrow> string \<Rightarrow> nat option" where
  "find_char c = find_if (\<lambda>x. x = c)"

definition contains_any :: "string \<Rightarrow> string \<Rightarrow> bool" where
  "contains_any cs s \<longleftrightarrow> (\<exists>c \<in> set s. c \<in> set cs)"

definition starts_with :: "string \<Rightarrow> string \<Rightarrow> bool" where
  "starts_with p s \<longleftrightarrow> take (length p) s = p"

subsection \<open>Splitting\<close>

text \<open>The pieces of a text between the occurrences of a character: always at least one.\<close>

fun split_on :: "char \<Rightarrow> string \<Rightarrow> string list" where
  "split_on c [] = [[]]"
| "split_on c (x # xs) =
     (if x = c then [] # split_on c xs
      else case split_on c xs of [] \<Rightarrow> [[x]] | p # ps \<Rightarrow> (x # p) # ps)"

text \<open>The words of a text, separated by characters of a class.\<close>

function words_by :: "(char \<Rightarrow> bool) \<Rightarrow> string \<Rightarrow> string list" where
  "words_by P s =
     (let s1 = dropWhile P s in
      if s1 = [] then []
      else takeWhile (\<lambda>c. \<not> P c) s1 # words_by P (dropWhile (\<lambda>c. \<not> P c) s1))"
  by pat_completeness auto
termination
proof (relation "measure (\<lambda>(P, s). length s)", simp, goal_cases)
  case (1 P s s1)
  then obtain c cs where "s1 = c # cs" "\<not> P c"
    by (metis hd_dropWhile list.collapse)
  moreover have "length s1 \<le> length s" using 1 by (simp add: length_dropWhile_le)
  ultimately show ?case using length_dropWhile_le [of "\<lambda>c. \<not> P c" cs] by simp
qed

declare words_by.simps [simp del]

definition words :: "string \<Rightarrow> string list" where
  "words = words_by isspace"

subsection \<open>Decimal numbers\<close>

definition digit_char :: "nat \<Rightarrow> char" where
  "digit_char d = char_of (48 + d)"

definition digit_val :: "char \<Rightarrow> nat" where
  "digit_val c = of_char c - 48"

text \<open>\<open>std::to_string\<close> of an unsigned number.\<close>

fun to_string :: "nat \<Rightarrow> string" where
  "to_string n = (if n < 10 then [digit_char n] else to_string (n div 10) @ [digit_char (n mod 10)])"

declare to_string.simps [simp del]

text \<open>The text of a signed number.\<close>

definition int_to_string :: "int \<Rightarrow> string" where
  "int_to_string i = (if i < 0 then ''-'' @ to_string (nat (- i)) else to_string (nat i))"

definition from_digits :: "string \<Rightarrow> nat" where
  "from_digits s = foldl (\<lambda>n c. 10 * n + digit_val c) 0 s"

text \<open>
  \<open>std::from_chars\<close> into an unsigned number of \<open>w\<close> bits, together with the callers' check that the
  whole text was consumed: \<^const>\<open>None\<close> is a failed conversion.
\<close>

definition from_chars :: "nat \<Rightarrow> string \<Rightarrow> nat option" where
  "from_chars w s = (if s \<noteq> [] \<and> list_all isdigit s \<and> from_digits s < 2 ^ w then Some (from_digits s) else None)"

text \<open>
  \<open>std::stoul\<close>: leading white space, a sign, digits; the value and the number of characters read.  The
  conversion fails without a digit and when the digits do not fit 64 bits; a minus sign negates modulo
  \<open>2 ^ 64\<close>.
\<close>

definition stoul :: "string \<Rightarrow> (nat \<times> nat) option" where
  "stoul s =
     (let s1 = dropWhile isspace s;
          sign = (s1 \<noteq> [] \<and> (hd s1 = CHR ''+'' \<or> hd s1 = CHR ''-''));
          s2 = (if sign then tl s1 else s1);
          digits = takeWhile isdigit s2;
          v = from_digits digits
      in if digits = [] \<or> 2 ^ 64 \<le> v then None
         else Some (if sign \<and> hd s1 = CHR ''-'' then (2 ^ 64 - v) mod 2 ^ 64 else v,
                    length s - length s2 + length digits))"

text \<open>An operation that throws: the message, or the value.\<close>

type_synonym 'a thrown = "string + 'a"

text \<open>The trimming of \<open>policy.cpp\<close> and \<open>inventory.cpp\<close>, on four characters only.\<close>

definition is_blank :: "char \<Rightarrow> bool" where
  "is_blank c \<longleftrightarrow> c \<in> {CHR '' '', TAB, RET, NL}"

definition trim_ws :: "string \<Rightarrow> string" where
  "trim_ws = trim_by is_blank"

subsection \<open>Lemmas\<close>

lemma trim_by_subset: "set (trim_by P s) \<subseteq> set s"
  by (auto simp: trim_by_def dest!: set_dropWhileD)

lemma trim_by_id: "s \<noteq> [] \<Longrightarrow> \<not> P (hd s) \<Longrightarrow> \<not> P (last s) \<Longrightarrow> trim_by P s = s"
proof -
  assume a: "s \<noteq> []" "\<not> P (hd s)" "\<not> P (last s)"
  then have "dropWhile P s = s" by (cases s) auto
  moreover have "dropWhile P (rev s) = rev s" using a by (cases "rev s") (auto simp: hd_rev [symmetric])
  ultimately show ?thesis by (simp add: trim_by_def)
qed

lemma trim_by_ends:
  assumes "trim_by P s \<noteq> []"
  shows "\<not> P (hd (trim_by P s))" "\<not> P (last (trim_by P s))"
proof -
  define t where "t = dropWhile P s"
  have t: "t \<noteq> []" using assms unfolding trim_by_def t_def [symmetric] by (metis dropWhile.simps(1) rev.simps(1))
  have ht: "\<not> P (hd t)" using t unfolding t_def by (rule hd_dropWhile)
  have r: "trim_by P s = rev (dropWhile P (rev t))" by (simp add: trim_by_def t_def)
  have ne: "dropWhile P (rev t) \<noteq> []" using assms r by auto
  then show "\<not> P (last (trim_by P s))" using hd_dropWhile [OF ne] by (simp add: r last_rev)
  have "last (dropWhile P (rev t)) = last (rev t)"
    using ne by (metis last_appendR takeWhile_dropWhile_id)
  then show "\<not> P (hd (trim_by P s))" using ht t by (simp add: r hd_rev last_rev)
qed

lemma trim_spaces: "\<forall>c \<in> set a. P c \<Longrightarrow> \<forall>c \<in> set b. P c \<Longrightarrow> trim_by P (a @ s @ b) = trim_by P s"
proof -
  assume a: "\<forall>c \<in> set a. P c" and b: "\<forall>c \<in> set b. P c"
  have "dropWhile P (a @ s @ b) = dropWhile P (s @ b)" using a by (simp add: dropWhile_append2)
  also have "rev (dropWhile P (rev (dropWhile P (s @ b)))) = trim_by P s"
  proof (cases "\<forall>c \<in> set s. P c")
    case True
    then have e: "dropWhile P (s @ b) = []" "dropWhile P s = []" using b by (auto simp: dropWhile_eq_Nil_conv)
    show ?thesis unfolding trim_by_def e by simp
  next
    case False
    then have "dropWhile P (s @ b) = dropWhile P s @ b" by (auto intro: dropWhile_append1)
    moreover have "dropWhile P (rev b @ x) = dropWhile P x" for x using b by (intro dropWhile_append2) simp
    ultimately show ?thesis by (simp add: trim_by_def)
  qed
  finally show ?thesis by (simp add: trim_by_def)
qed

lemma split_on_not_empty [simp]: "split_on c s \<noteq> []"
  by (induction s) (auto split: list.splits)

lemma split_on_none: "c \<notin> set s \<Longrightarrow> split_on c s = [s]"
  by (induction s) auto

lemma split_on_append: "c \<notin> set a \<Longrightarrow> split_on c (a @ c # s) = a # split_on c s"
  by (induction a) auto

lemma digit_val_char [simp]: "d < 10 \<Longrightarrow> digit_val (digit_char d) = d"
  by (simp add: digit_val_def digit_char_def)

lemma from_digits_snoc: "from_digits (s @ [c]) = 10 * from_digits s + digit_val c"
  by (simp add: from_digits_def)

lemma from_to_string [simp]: "from_digits (to_string n) = n"
proof (induction n rule: to_string.induct)
  case (1 n)
  show ?case
  proof (cases "n < 10")
    case True
    then show ?thesis by (simp add: to_string.simps [of n] from_digits_def)
  next
    case False
    then show ?thesis using 1 by (simp add: to_string.simps [of n] from_digits_snoc)
  qed
qed

lemma to_string_inj [simp]: "to_string m = to_string n \<longleftrightarrow> m = n"
  by (metis from_to_string)

lemma digit_char_isdigit: "d < 10 \<Longrightarrow> isdigit (digit_char d)"
  by (simp add: isdigit_def digit_char_def)

lemma to_string_digits: "c \<in> set (to_string n) \<Longrightarrow> isdigit c"
proof (induction n rule: to_string.induct)
  case (1 n)
  then show ?case
    by (cases "n < 10") (auto simp: to_string.simps [of n] digit_char_isdigit)
qed

lemma to_string_not_empty [simp]: "to_string n \<noteq> []"
  by (simp add: to_string.simps [of n])

lemma from_chars_to_string [simp]: "n < 2 ^ w \<Longrightarrow> from_chars w (to_string n) = Some n"
  using to_string_digits [of _ n] by (auto simp: from_chars_def list_all_iff)

lemma alnum_not_space: "isalnum c \<Longrightarrow> \<not> isspace c"
  by (auto simp: isalnum_def isalpha_def isdigit_def isspace_def)

lemma stoul_to_string: "n < 2 ^ 64 \<Longrightarrow> stoul (to_string n) = Some (n, length (to_string n))"
proof -
  assume n: "n < 2 ^ 64"
  have d: "\<forall>c \<in> set (to_string n). isdigit c" using to_string_digits by blast
  have h: "isdigit (hd (to_string n))" using d hd_in_set [OF to_string_not_empty] by blast
  have ns: "\<not> isspace (hd (to_string n))" "hd (to_string n) \<noteq> CHR ''+''" "hd (to_string n) \<noteq> CHR ''-''"
    using h by (auto simp: isspace_def isdigit_def)
  have "dropWhile isspace (to_string n) = to_string n" using ns(1) to_string_not_empty by (cases "to_string n") auto
  then show ?thesis
    using n ns by (simp add: stoul_def Let_def takeWhile_eq_all_conv [THEN iffD2, OF d])
qed

lemma find_if_append: "\<forall>c \<in> set a. \<not> P c \<Longrightarrow> P c \<Longrightarrow> find_if P (a @ c # s) = Some (length a)"
  by (simp add: find_if_def takeWhile_append2)

lemma find_if_None: "\<forall>c \<in> set s. \<not> P c \<Longrightarrow> find_if P s = None"
  by (simp add: find_if_def)

lemma find_char_append: "c \<notin> set a \<Longrightarrow> find_char c (a @ c # s) = Some (length a)"
  unfolding find_char_def by (rule find_if_append) auto

lemma find_char_None: "c \<notin> set s \<Longrightarrow> find_char c s = None"
  by (auto simp: find_char_def intro: find_if_None)

lemma starts_with_char: "starts_with p s \<Longrightarrow> c \<in> set p \<Longrightarrow> c \<in> set s"
  unfolding starts_with_def by (metis in_set_takeD)

lemma digit_not_blank: "isdigit c \<Longrightarrow> \<not> is_blank c"
  by (auto simp: is_blank_def isdigit_def)

lemma trim_ws_id: "s \<noteq> [] \<Longrightarrow> \<not> is_blank (hd s) \<Longrightarrow> \<not> is_blank (last s) \<Longrightarrow> trim_ws s = s"
  unfolding trim_ws_def by (rule trim_by_id)

lemma trim_ws_front: "is_blank c \<Longrightarrow> trim_ws (c # s) = trim_ws s"
  using trim_spaces [of "[c]" is_blank "[]" s] by (simp add: trim_ws_def)

lemma trim_ws_Nil [simp]: "trim_ws [] = []"
  by (simp add: trim_ws_def trim_by_def)

text \<open>Joining lines with a separator, and splitting the result again.\<close>

fun unlines :: "string list \<Rightarrow> string" where
  "unlines [] = []"
| "unlines [l] = l"
| "unlines (l # ls) = l @ NL # unlines ls"

lemma split_unlines: "\<forall>l \<in> set ls. NL \<notin> set l \<Longrightarrow> ls \<noteq> [] \<Longrightarrow> split_on NL (unlines ls) = ls"
proof (induction ls rule: induct_list012)
  case (3 l m ls)
  then show ?case using split_on_append [of NL l "unlines (m # ls)"] by simp
qed (simp_all add: split_on_none)

lemma words_by_not_empty: "w \<in> set (words_by P s) \<Longrightarrow> w \<noteq> [] \<and> (\<forall>c \<in> set w. \<not> P c)"
proof (induction P s rule: words_by.induct)
  case (1 P s)
  have "takeWhile (\<lambda>c. \<not> P c) (dropWhile P s) \<noteq> []" if "dropWhile P s \<noteq> []"
    using that hd_dropWhile [OF that] by (cases "dropWhile P s") auto
  moreover from "1.prems" have ne: "dropWhile P s \<noteq> []"
    by (auto simp: words_by.simps [of P s] Let_def split: if_splits)
  then have "w = takeWhile (\<lambda>c. \<not> P c) (dropWhile P s) \<or>
      w \<in> set (words_by P (dropWhile (\<lambda>c. \<not> P c) (dropWhile P s)))"
    using "1.prems" by (simp add: words_by.simps [of P s] Let_def split: if_splits)
  ultimately show ?case
    using "1.IH" [OF refl ne] ne by (metis set_takeWhileD)
qed

lemma words_by_word:
  assumes "w \<noteq> []" "\<forall>c \<in> set w. \<not> P c" "s = [] \<or> P (hd s)"
  shows "words_by P (w @ s) = w # words_by P s"
proof -
  have d: "dropWhile P (w @ s) = w @ s" using assms(1,2) by (cases w) auto
  have "takeWhile (\<lambda>c. \<not> P c) (w @ s) = w" "dropWhile (\<lambda>c. \<not> P c) (w @ s) = s"
    using assms(2,3) by (cases s; simp add: takeWhile_append2 dropWhile_append2)+
  with d assms(1) show ?thesis by (simp add: words_by.simps [of P "w @ s"])
qed

lemma words_by_space: "P c \<Longrightarrow> words_by P (c # s) = words_by P s"
  unfolding words_by.simps [of P "c # s"] words_by.simps [of P s] by simp

lemma words_by_Nil [simp]: "words_by P [] = []"
  by (simp add: words_by.simps)

lemma words_not_empty: "w \<in> set (words s) \<Longrightarrow> w \<noteq> [] \<and> (\<forall>c \<in> set w. \<not> isspace c)"
  unfolding words_def by (rule words_by_not_empty)

lemma words_word: "w \<noteq> [] \<Longrightarrow> \<forall>c \<in> set w. \<not> isspace c \<Longrightarrow> s = [] \<or> isspace (hd s) \<Longrightarrow> words (w @ s) = w # words s"
  unfolding words_def by (rule words_by_word)

lemma words_space: "isspace c \<Longrightarrow> words (c # s) = words s"
  unfolding words_def by (rule words_by_space)

lemma words_Nil [simp]: "words [] = []"
  by (simp add: words_def)

end
