(* ===== verification/Planner.thy ===== *)
theory Planner
  imports Text
begin

text \<open>
  Pipelines (\<open>include/psx/pipeline/pipeline.hpp\<close>) and \<open>Planner::plan\<close>
  (\<open>src/pipeline/planner.cpp\<close>): validation and Kahn's algorithm.  A plan exists exactly for
  well-formed acyclic pipelines, and it is a topological order of the stages.
\<close>

record stage =
  stage_id :: string
  stage_argv :: "string list"
  placement :: string

record edge =
  efrom :: string
  eto :: string

record pipeline =
  stages :: "stage list"
  edges :: "edge list"

subsection \<open>The algorithm\<close>

text \<open>The loop that indexes the stages; \<open>position.size()\<close> is the number of stages seen.\<close>

fun index_stages :: "(string \<rightharpoonup> nat) \<Rightarrow> nat \<Rightarrow> stage list \<Rightarrow> (string \<rightharpoonup> nat) result" where
  "index_stages pos k [] = Inr pos"
| "index_stages pos k (s # ss) =
     (if stage_id s = [] then Inl (invalid ''stage has an empty id'')
      else if stage_argv s = [] then Inl (invalid ''stage has an empty command'')
      else if pos (stage_id s) \<noteq> None then Inl (invalid ''duplicate stage id'')
      else index_stages (pos(stage_id s \<mapsto> k)) (Suc k) ss)"

record graph =
  successors :: "nat list list"
  indegree :: "int list"
  seen :: "(nat \<times> nat) list"

text \<open>The loop over the edges.  Vector accesses are checked: \<^const>\<open>None\<close> is out of bounds.\<close>

fun add_edges :: "(string \<rightharpoonup> nat) \<Rightarrow> graph \<Rightarrow> edge list \<Rightarrow> graph result option" where
  "add_edges pos g [] = Some (Inr g)"
| "add_edges pos g (e # es) =
     (case (pos (efrom e), pos (eto e)) of
        (Some u, Some v) \<Rightarrow>
          if u = v then Some (Inl (invalid ''edge is a self-loop''))
          else if (u, v) \<in> set (seen g) then add_edges pos g es
          else if u < length (successors g) \<and> v < length (indegree g) then
            add_edges pos (g\<lparr>seen := (u, v) # seen g,
              successors := (successors g)[u := successors g ! u @ [v]],
              indegree := (indegree g)[v := indegree g ! v + 1]\<rparr>) es
          else None
      | _ \<Rightarrow> Some (Inl (invalid ''edge references an unknown stage'')))"

text \<open>The inner loop over the successors of the current stage: new in-degrees and the stages made ready.\<close>

fun relax :: "int list \<Rightarrow> nat list \<Rightarrow> (int list \<times> nat list) option" where
  "relax deg [] = Some (deg, [])"
| "relax deg (v # vs) =
     (if v < length deg then do {
        let d = deg ! v - 1;
        (deg', more) \<leftarrow> relax (deg[v := d]) vs;
        Some (deg', if d = 0 then v # more else more)
      } else None)"

partial_function (option) kahn :: "nat list list \<Rightarrow> int list \<Rightarrow> nat list \<Rightarrow> nat list \<Rightarrow> nat list option" where
  "kahn succs deg ready order =
     (case ready of [] \<Rightarrow> Some order
      | current # rest \<Rightarrow>
        if current < length succs then do {
          (deg', more) \<leftarrow> relax deg (succs ! current);
          kahn succs deg' (rest @ more) (order @ [current])
        } else None)"

declare kahn.simps [code]

definition plan :: "pipeline \<Rightarrow> string list result option" where
  "plan p =
     (if stages p = [] then Some (Inl (invalid ''pipeline has no stages''))
      else case index_stages Map.empty 0 (stages p) of Inl e \<Rightarrow> Some (Inl e)
      | Inr pos \<Rightarrow>
        let n = length (stages p) in
        case add_edges pos \<lparr>successors = replicate n [], indegree = replicate n 0, seen = []\<rparr> (edges p) of
          None \<Rightarrow> None
        | Some (Inl e) \<Rightarrow> Some (Inl e)
        | Some (Inr g) \<Rightarrow> do {
            order \<leftarrow> kahn (successors g) (indegree g) (filter (\<lambda>i. indegree g ! i = 0) [0..<n]) [];
            if length order \<noteq> n then Some (Inl (invalid ''pipeline has a cycle''))
            else Some (Inr (map (\<lambda>i. stage_id (stages p ! i)) order))
          })"

subsection \<open>Specification\<close>

definition ids :: "pipeline \<Rightarrow> string list" where
  "ids p = map stage_id (stages p)"

text \<open>The data dependencies between stage ids.\<close>

definition deps :: "pipeline \<Rightarrow> (string \<times> string) set" where
  "deps p = (\<lambda>e. (efrom e, eto e)) ` set (edges p)"

definition well_formed :: "pipeline \<Rightarrow> bool" where
  "well_formed p \<longleftrightarrow> stages p \<noteq> [] \<and> distinct (ids p) \<and>
     (\<forall>s \<in> set (stages p). stage_id s \<noteq> [] \<and> stage_argv s \<noteq> []) \<and>
     (\<forall>e \<in> set (edges p). efrom e \<in> set (ids p) \<and> eto e \<in> set (ids p) \<and> efrom e \<noteq> eto e)"

definition before :: "'a list \<Rightarrow> 'a \<Rightarrow> 'a \<Rightarrow> bool" where
  "before xs a b \<longleftrightarrow> (\<exists>us vs ws. xs = us @ a # vs @ b # ws)"

definition topological :: "('a \<times> 'a) set \<Rightarrow> 'a list \<Rightarrow> bool" where
  "topological E xs \<longleftrightarrow> (\<forall>(a, b) \<in> E. before xs a b)"

subsection \<open>Indexing\<close>

lemma index_stages_ok:
  assumes "dom pos = set done_ids" "length done_ids = k" "distinct done_ids"
    "\<And>i. i < k \<Longrightarrow> pos (done_ids ! i) = Some i"
  shows "case index_stages pos k ss of
      Inr pos' \<Rightarrow> (let all = done_ids @ map stage_id ss in
        distinct all \<and> dom pos' = set all \<and> (\<forall>i < length all. pos' (all ! i) = Some i)) \<and>
        (\<forall>s \<in> set ss. stage_id s \<noteq> [] \<and> stage_argv s \<noteq> [])
    | Inl e \<Rightarrow> \<not> (distinct (done_ids @ map stage_id ss) \<and> (\<forall>s \<in> set ss. stage_id s \<noteq> [] \<and> stage_argv s \<noteq> []))"
  using assms
proof (induction ss arbitrary: pos k done_ids)
  case Nil
  then show ?case by simp
next
  case (Cons s ss)
  show ?case
  proof (cases "stage_id s = [] \<or> stage_argv s = [] \<or> pos (stage_id s) \<noteq> None")
    case True
    then show ?thesis using Cons.prems(1) by auto
  next
    case False
    define pos' where "pos' = pos(stage_id s \<mapsto> k)"
    have "stage_id s \<notin> set done_ids" using False Cons.prems(1) by auto
    then have "dom pos' = set (done_ids @ [stage_id s])" "length (done_ids @ [stage_id s]) = Suc k"
      "distinct (done_ids @ [stage_id s])"
      "\<And>i. i < Suc k \<Longrightarrow> pos' ((done_ids @ [stage_id s]) ! i) = Some i"
      using Cons.prems by (auto simp: pos'_def nth_append less_Suc_eq dest: nth_mem)
    from Cons.IH [OF this] False show ?thesis
      by (auto simp: pos'_def [symmetric] split: sum.splits)
  qed
qed

subsection \<open>Edges\<close>

definition graph_inv :: "nat \<Rightarrow> graph \<Rightarrow> bool" where
  "graph_inv n g \<longleftrightarrow> length (successors g) = n \<and> length (indegree g) = n \<and>
     set (seen g) \<subseteq> {..<n} \<times> {..<n} \<and>
     (\<forall>u < n. distinct (successors g ! u) \<and> set (successors g ! u) = {v. (u, v) \<in> set (seen g)}) \<and>
     (\<forall>v < n. indegree g ! v = int (card {u. (u, v) \<in> set (seen g)}))"

lemma graph_inv_start: "graph_inv n \<lparr>successors = replicate n [], indegree = replicate n 0, seen = []\<rparr>"
  by (simp add: graph_inv_def)

lemma finite_preds: "finite {u. (u, v) \<in> set xs}"
  by (rule finite_subset [of _ "fst ` set xs"]) force+

lemma graph_inv_add:
  assumes "graph_inv n g" "u < n" "v < n" "(u, v) \<notin> set (seen g)"
  shows "graph_inv n (g\<lparr>seen := (u, v) # seen g, successors := (successors g)[u := successors g ! u @ [v]],
    indegree := (indegree g)[v := indegree g ! v + 1]\<rparr>)"
proof -
  have "{u'. (u', v) \<in> set ((u, v) # seen g)} = insert u {u'. (u', v) \<in> set (seen g)}" by auto
  then have "card {u'. (u', v) \<in> set ((u, v) # seen g)} = Suc (card {u'. (u', v) \<in> set (seen g)})"
    using assms(4) finite_preds [of v "seen g"] by (simp only: card_insert_disjoint mem_Collect_eq not_False_eq_True)
  moreover have "{u'. (u', x) \<in> set ((u, v) # seen g)} = {u'. (u', x) \<in> set (seen g)}" if "x \<noteq> v" for x
    using that by auto
  ultimately have "(indegree g)[v := indegree g ! v + 1] ! x = int (card {u'. (u', x) \<in> set ((u, v) # seen g)})"
    if "x < n" for x
    using assms(1,3) that by (cases "x = v") (simp_all add: graph_inv_def del: set_simps)
  then show ?thesis
    using assms unfolding graph_inv_def by (auto simp: nth_list_update)
qed

definition edge_ok :: "(string \<rightharpoonup> nat) \<Rightarrow> edge \<Rightarrow> bool" where
  "edge_ok pos e \<longleftrightarrow> efrom e \<in> dom pos \<and> eto e \<in> dom pos \<and> pos (efrom e) \<noteq> pos (eto e)"

definition arcs :: "(string \<rightharpoonup> nat) \<Rightarrow> edge list \<Rightarrow> (nat \<times> nat) set" where
  "arcs pos es = (\<lambda>e. (the (pos (efrom e)), the (pos (eto e)))) ` set es"

lemma add_edges_ok:
  assumes "graph_inv n g" "ran pos \<subseteq> {..<n}"
  shows "\<exists>r. add_edges pos g es = Some r \<and>
    (case r of Inr g' \<Rightarrow> graph_inv n g' \<and> set (seen g') = set (seen g) \<union> arcs pos es \<and> (\<forall>e \<in> set es. edge_ok pos e)
     | Inl _ \<Rightarrow> \<exists>e \<in> set es. \<not> edge_ok pos e)"
  using assms(1)
proof (induction es arbitrary: g)
  case Nil
  then show ?case by (simp add: arcs_def)
next
  case (Cons e es)
  show ?case
  proof (cases "edge_ok pos e")
    case False
    then show ?thesis
      by (auto simp: edge_ok_def split: option.splits)
  next
    case True
    then obtain u v where uv: "pos (efrom e) = Some u" "pos (eto e) = Some v" "u \<noteq> v"
      by (auto simp: edge_ok_def)
    then have lt: "u < n" "v < n" using assms(2) by (auto simp: ran_def)
    have arcs: "arcs pos (e # es) = insert (u, v) (arcs pos es)" using uv by (simp add: arcs_def)
    show ?thesis
    proof (cases "(u, v) \<in> set (seen g)")
      case True
      with Cons.IH [OF Cons.prems] uv arcs \<open>edge_ok pos e\<close> show ?thesis
        by (auto split: sum.splits)
    next
      case False
      have len: "length (successors g) = n" "length (indegree g) = n"
        using Cons.prems by (simp_all add: graph_inv_def)
      from Cons.IH [OF graph_inv_add [OF Cons.prems lt False]] uv lt False arcs len \<open>edge_ok pos e\<close> show ?thesis
        by (auto split: sum.splits)
    qed
  qed
qed

subsection \<open>Kahn's loop\<close>

lemma relax_ok:
  assumes "distinct vs" "\<forall>v \<in> set vs. v < length deg"
  shows "\<exists>deg'. relax deg vs = Some (deg', filter (\<lambda>v. deg ! v = 1) vs) \<and> length deg' = length deg \<and>
    (\<forall>i < length deg. deg' ! i = (if i \<in> set vs then deg ! i - 1 else deg ! i))"
  using assms
proof (induction vs arbitrary: deg)
  case (Cons v vs)
  obtain deg' where d: "relax (deg[v := deg ! v - 1]) vs = Some (deg', filter (\<lambda>x. deg[v := deg ! v - 1] ! x = 1) vs)"
    "length deg' = length deg"
    "\<forall>i < length deg. deg' ! i = (if i \<in> set vs then deg[v := deg ! v - 1] ! i - 1 else deg[v := deg ! v - 1] ! i)"
    using Cons.IH [of "deg[v := deg ! v - 1]"] Cons.prems by auto
  have "filter (\<lambda>x. deg[v := deg ! v - 1] ! x = 1) vs = filter (\<lambda>x. deg ! x = 1) vs"
    using Cons.prems(1) by (intro filter_cong refl) (metis distinct.simps(2) nth_list_update_neq)
  with d Cons.prems show ?case by (auto simp: nth_list_update)
qed simp

text \<open>
  The state of the loop: the stages placed and the stages ready are exactly those without unplaced
  producers, and every placed stage comes after its producers.
\<close>

definition kahn_inv :: "nat \<Rightarrow> (nat \<times> nat) set \<Rightarrow> int list \<Rightarrow> nat list \<Rightarrow> nat list \<Rightarrow> bool" where
  "kahn_inv n E deg ready order \<longleftrightarrow> length deg = n \<and> distinct (order @ ready) \<and>
     (\<forall>v < n. deg ! v = int (card {u. (u, v) \<in> E \<and> u \<notin> set order})) \<and>
     set (order @ ready) = {v. v < n \<and> deg ! v = 0} \<and>
     (\<forall>(a, b) \<in> E. b \<in> set order \<longrightarrow> before order a b)"

lemma before_append: "before xs a b \<Longrightarrow> before (xs @ ys) a b"
  unfolding before_def by (metis append.assoc append_Cons)

lemma before_last: "a \<in> set xs \<Longrightarrow> before (xs @ [b]) a b"
  unfolding before_def by (metis append.assoc append_Cons in_set_conv_decomp)

lemma kahn_step:
  assumes inv: "kahn_inv n E deg (current # rest) order"
    and E: "E \<subseteq> {..<n} \<times> {..<n}" "finite E"
    and succ: "distinct vs" "set vs = {v. (current, v) \<in> E}"
  shows "\<exists>deg'. relax deg vs = Some (deg', filter (\<lambda>v. deg ! v = 1) vs) \<and>
    kahn_inv n E deg' (rest @ filter (\<lambda>v. deg ! v = 1) vs) (order @ [current])"
proof -
  have len: "length deg = n" and dist: "distinct (order @ current # rest)"
    and deg: "\<And>v. v < n \<Longrightarrow> deg ! v = int (card {u. (u, v) \<in> E \<and> u \<notin> set order})"
    and zero: "set (order @ current # rest) = {v. v < n \<and> deg ! v = 0}"
    and ord: "\<And>a b. (a, b) \<in> E \<Longrightarrow> b \<in> set order \<Longrightarrow> before order a b"
    using inv unfolding kahn_inv_def by blast+
  have fin: "finite {u. (u, v) \<in> E \<and> P u}" for v P
    by (rule finite_subset [of _ "fst ` E"]) (use E(2) in force)+
  have cur: "current < n" "deg ! current = 0" "current \<notin> set order" using zero dist by auto
  have preds: "a \<in> set order" if "(a, b) \<in> E" "b < n" "deg ! b = 0" for a b
  proof -
    have "{u. (u, b) \<in> E \<and> u \<notin> set order} = {}" using deg [OF that(2)] that(3) fin [of b "\<lambda>u. u \<notin> set order"] by (metis card_0_eq of_nat_eq_0_iff)
    with that(1) show ?thesis by blast
  qed
  obtain deg' where r: "relax deg vs = Some (deg', filter (\<lambda>v. deg ! v = 1) vs)" "length deg' = n"
    "\<And>i. i < n \<Longrightarrow> deg' ! i = (if (current, i) \<in> E then deg ! i - 1 else deg ! i)"
    using relax_ok [OF succ(1), of deg] succ(2) E(1) len by auto
  have new: "v \<in> set (filter (\<lambda>v. deg ! v = 1) vs) \<longleftrightarrow> (current, v) \<in> E \<and> deg ! v = 1" for v
    using succ(2) by auto
  have "deg' ! v = int (card {u. (u, v) \<in> E \<and> u \<notin> set (order @ [current])})" if "v < n" for v
  proof -
    have "{u. (u, v) \<in> E \<and> u \<notin> set (order @ [current])} = {u. (u, v) \<in> E \<and> u \<notin> set order} - {current}" by auto
    moreover have "card ({u. (u, v) \<in> E \<and> u \<notin> set order} - {current}) = (if (current, v) \<in> E
        then card {u. (u, v) \<in> E \<and> u \<notin> set order} - 1 else card {u. (u, v) \<in> E \<and> u \<notin> set order})"
      using cur(3) by (auto simp: card_Diff_singleton_if)
    moreover have "(current, v) \<in> E \<Longrightarrow> 0 < card {u. (u, v) \<in> E \<and> u \<notin> set order}"
      using cur(3) fin by (auto simp: card_gt_0_iff)
    ultimately show ?thesis
      using r(3) [OF that] deg [OF that] by (cases "(current, v) \<in> E") (simp_all add: of_nat_diff Suc_leI)
  qed
  moreover have "{v. v < n \<and> deg' ! v = 0} = set ((order @ [current]) @ rest @ filter (\<lambda>v. deg ! v = 1) vs)"
  proof -
    have "deg' ! v = 0 \<longleftrightarrow> deg ! v = 0 \<or> (current, v) \<in> E \<and> deg ! v = 1" if "v < n" for v
      using r(3) [OF that] preds [of current v] that cur(3) by auto
    moreover have "(current, v) \<in> E \<Longrightarrow> v < n" for v using E(1) by auto
    ultimately have "{v. v < n \<and> deg' ! v = 0} = set (order @ current # rest) \<union> set (filter (\<lambda>v. deg ! v = 1) vs)"
      unfolding zero using new by auto
    then show ?thesis by auto
  qed
  moreover have "distinct ((order @ [current]) @ rest @ filter (\<lambda>v. deg ! v = 1) vs)"
  proof -
    have "deg ! x = 0" if "x \<in> set (order @ current # rest)" for x using that unfolding zero by simp
    then have "set (order @ current # rest) \<inter> set (filter (\<lambda>v. deg ! v = 1) vs) = {}" by force
    with dist succ(1) show ?thesis by auto
  qed
  moreover have "before (order @ [current]) a b" if "(a, b) \<in> E" "b \<in> set (order @ [current])" for a b
    using that ord before_append before_last preds [of a current] cur by (metis Un_iff empty_iff empty_set insert_iff list.simps(15) set_append)
  ultimately have "kahn_inv n E deg' (rest @ filter (\<lambda>v. deg ! v = 1) vs) (order @ [current])"
    using r(2) unfolding kahn_inv_def by blast
  with r(1) show ?thesis by blast
qed

lemma kahn_ok:
  assumes "kahn_inv n E deg ready order" "E \<subseteq> {..<n} \<times> {..<n}" "length succs = n"
    "\<And>u. u < n \<Longrightarrow> distinct (succs ! u) \<and> set (succs ! u) = {v. (u, v) \<in> E}"
  shows "\<exists>deg' order'. kahn succs deg ready order = Some order' \<and> kahn_inv n E deg' [] order'"
  using assms(1)
proof (induction "n - length order" arbitrary: deg ready order rule: less_induct)
  case less
  have fin: "finite E" using assms(2) finite_subset by blast
  show ?case
  proof (cases ready)
    case Nil
    with less.prems show ?thesis by (auto simp: kahn.simps [of succs deg "[]"])
  next
    case (Cons current rest)
    have c: "current < n" "distinct (order @ current # rest)" "set (order @ current # rest) \<subseteq> {..<n}"
      using less.prems Cons by (auto simp: kahn_inv_def)
    then have "length (order @ current # rest) \<le> n"
      by (metis card_lessThan card_mono distinct_card finite_lessThan)
    then have lt: "n - length (order @ [current]) < n - length order" by simp
    obtain deg' where s: "relax deg (succs ! current) = Some (deg', filter (\<lambda>v. deg ! v = 1) (succs ! current))"
      "kahn_inv n E deg' (rest @ filter (\<lambda>v. deg ! v = 1) (succs ! current)) (order @ [current])"
      using kahn_step [OF less.prems [unfolded Cons] assms(2) fin] assms(4) [OF c(1)] by blast
    from less.hyps [OF lt s(2)] s(1) c(1) assms(3) Cons show ?thesis
      by (simp add: kahn.simps [of succs deg "current # rest"])
  qed
qed

lemma kahn_done:
  assumes "kahn_inv n E deg [] order"
  shows "distinct order" "set order \<subseteq> {..<n}" "(a, b) \<in> E \<Longrightarrow> b \<in> set order \<Longrightarrow> before order a b"
proof -
  have k: "distinct (order @ [])" "set (order @ []) = {v. v < n \<and> deg ! v = 0}"
    "\<forall>(a, b) \<in> E. b \<in> set order \<longrightarrow> before order a b"
    using assms unfolding kahn_inv_def by blast+
  from k(1) show "distinct order" by simp
  from k(2) show "set order \<subseteq> {..<n}" by auto
  from k(3) show "(a, b) \<in> E \<Longrightarrow> b \<in> set order \<Longrightarrow> before order a b" by blast
qed

text \<open>When no stage is ready and some are not placed, these form a cycle.\<close>

lemma kahn_stuck_cycle:
  assumes "kahn_inv n E deg [] order" "E \<subseteq> {..<n} \<times> {..<n}" "length order \<noteq> n"
  shows "\<not> acyclic E"
proof
  assume "acyclic E"
  moreover have fin: "finite E" using assms(2) finite_subset by blast
  ultimately have wf: "wf E" by (simp add: finite_acyclic_wf)
  define S where "S = {..<n} - set order"
  have ord: "distinct order" "set order \<subseteq> {..<n}" "set order = {v. v < n \<and> deg ! v = 0}"
    using assms(1) by (auto simp: kahn_inv_def)
  have "S \<noteq> {}"
  proof
    assume "S = {}"
    then have "set order = {..<n}" using ord(2) by (auto simp: S_def)
    then show False using ord(1) assms(3) by (metis card_lessThan distinct_card)
  qed
  then obtain v where v: "v \<in> S" "\<And>u. (u, v) \<in> E \<Longrightarrow> u \<notin> S"
    using wf by (meson ex_in_conv wfE_min)
  then have "{u. (u, v) \<in> E \<and> u \<notin> set order} = {}" using assms(2) by (auto simp: S_def)
  moreover have "deg ! v = int (card {u. (u, v) \<in> E \<and> u \<notin> set order})"
    using assms(1) v(1) unfolding kahn_inv_def S_def by blast
  ultimately have "deg ! v = 0" by (simp only: card.empty of_nat_0)
  with v(1) ord(3) show False by (auto simp: S_def)
qed

subsection \<open>The plan\<close>

lemma before_map: "before xs a b \<Longrightarrow> before (map f xs) (f a) (f b)"
  unfolding before_def by (metis list.simps(9) map_append)

lemma topological_acyclic:
  assumes "topological E xs" "distinct xs"
  shows "acyclic E"
proof -
  define ix where "ix a = length (takeWhile (\<lambda>x. x \<noteq> a) xs)" for a
  have "ix a < ix b" if b: "before xs a b" for a b
  proof -
    obtain us vs ws where xs: "xs = us @ a # vs @ b # ws" using b unfolding before_def by blast
    then have "a \<notin> set us" "b \<notin> set us" "a \<noteq> b" "b \<notin> set vs" using assms(2) by auto
    then have "ix a = length us" "ix b = length us + Suc (length vs)"
      unfolding ix_def xs by (auto simp: takeWhile_append)
    then show ?thesis by simp
  qed
  then have "E \<subseteq> inv_image less_than ix" using assms(1) by (auto simp: topological_def)
  moreover have "acyclic (inv_image less_than ix)" by (simp add: wf_acyclic)
  ultimately show ?thesis by (rule acyclic_subset [rotated])
qed

lemma trancl_image: "(u, v) \<in> A\<^sup>+ \<Longrightarrow> (\<And>x y. (x, y) \<in> A \<Longrightarrow> (f x, f y) \<in> B) \<Longrightarrow> (f u, f v) \<in> B\<^sup>+"
  by (induction rule: trancl_induct) (auto intro: trancl_into_trancl)

lemma index_stages_start:
  "case index_stages Map.empty 0 ss of
      Inr pos \<Rightarrow> distinct (map stage_id ss) \<and> dom pos = set (map stage_id ss) \<and>
        (\<forall>i < length ss. pos (stage_id (ss ! i)) = Some i) \<and>
        (\<forall>s \<in> set ss. stage_id s \<noteq> [] \<and> stage_argv s \<noteq> [])
    | Inl e \<Rightarrow> \<not> (distinct (map stage_id ss) \<and> (\<forall>s \<in> set ss. stage_id s \<noteq> [] \<and> stage_argv s \<noteq> []))"
  using index_stages_ok [of Map.empty "[]" 0 ss] by (auto simp: Let_def split: sum.splits)

definition plan_spec :: "pipeline \<Rightarrow> string list result \<Rightarrow> bool" where
  "plan_spec p r \<longleftrightarrow> (case r of
     Inr order \<Rightarrow> well_formed p \<and> acyclic (deps p) \<and> distinct order \<and> set order = set (ids p) \<and>
       topological (deps p) order
   | Inl _ \<Rightarrow> \<not> (well_formed p \<and> acyclic (deps p)))"

text \<open>The numbering of the stages of a pipeline whose ids are distinct.\<close>

lemma pos_facts:
  assumes "dom pos = set (ids p)" "\<forall>i < length (stages p). pos (stage_id (stages p ! i)) = Some i"
    "\<forall>e \<in> set (edges p). edge_ok pos e"
  defines "f \<equiv> \<lambda>i. stage_id (stages p ! i)"
  shows "ran pos \<subseteq> {..<length (stages p)}" "\<And>a i. pos a = Some i \<Longrightarrow> f i = a"
    "deps p = (\<lambda>(u, v). (f u, f v)) ` arcs pos (edges p)"
proof -
  have 1: "i < length (stages p) \<and> f i = a" if "pos a = Some i" for a i
  proof -
    have "a \<in> set (ids p)" using that assms(1) by blast
    then obtain j where "j < length (stages p)" "a = f j" by (auto simp: ids_def in_set_conv_nth f_def)
    with assms(2) that show ?thesis by (auto simp: f_def)
  qed
  then show "ran pos \<subseteq> {..<length (stages p)}" by (auto simp: ran_def)
  show 2: "\<And>a i. pos a = Some i \<Longrightarrow> f i = a" using 1 by blast
  have "(efrom e, eto e) = (f (the (pos (efrom e))), f (the (pos (eto e))))" if "e \<in> set (edges p)" for e
    using assms(3) that 2 by (fastforce simp: edge_ok_def)
  then show "deps p = (\<lambda>(u, v). (f u, f v)) ` arcs pos (edges p)"
    by (auto simp: deps_def arcs_def image_iff)
qed

lemma plan_kahn:
  assumes g: "graph_inv n g" "set (seen g) = arcs pos (edges p)" and eok: "\<forall>e \<in> set (edges p). edge_ok pos e"
    and pos: "distinct (ids p)" "dom pos = set (ids p)" "\<forall>i < length (stages p). pos (stage_id (stages p ! i)) = Some i"
    and wf: "well_formed p"
  assumes n: "n = length (stages p)"
  shows "\<exists>order. kahn (successors g) (indegree g) (filter (\<lambda>i. indegree g ! i = 0) [0..<n]) [] = Some order \<and>
    plan_spec p (if length order \<noteq> n then Inl e else Inr (map (\<lambda>i. stage_id (stages p ! i)) order))"
proof -
  define E where "E = arcs pos (edges p)"
  define f where "f = (\<lambda>i. stage_id (stages p ! i))"
  note pf = pos_facts [OF pos(2,3) eok, folded f_def E_def]
  have E: "E \<subseteq> {..<n} \<times> {..<n}" using g by (simp add: graph_inv_def E_def)
  have start: "kahn_inv n E (indegree g) (filter (\<lambda>i. indegree g ! i = 0) [0..<n]) []"
    using g by (auto simp: kahn_inv_def graph_inv_def E_def)
  have len: "length (successors g) = n"
    and sc: "\<And>u. u < n \<Longrightarrow> distinct (successors g ! u) \<and> set (successors g ! u) = {v. (u, v) \<in> E}"
    using g by (auto simp: graph_inv_def E_def)
  obtain deg order where k: "kahn (successors g) (indegree g) (filter (\<lambda>i. indegree g ! i = 0) [0..<n]) [] = Some order"
    "kahn_inv n E deg [] order"
    using kahn_ok [OF start E len sc] by blast
  have acyc: "acyclic (deps p) \<Longrightarrow> acyclic E"
  proof -
    assume a: "acyclic (deps p)"
    have step: "(f u, f v) \<in> deps p" if "(u, v) \<in> E" for u v
      unfolding pf(3) by (rule image_eqI [OF _ that]) (simp add: f_def)
    have "(f u, f v) \<in> (deps p)\<^sup>+" if "(u, v) \<in> E\<^sup>+" for u v by (rule trancl_image [OF that step])
    then show ?thesis using a unfolding acyclic_def by blast
  qed
  have "plan_spec p (Inr (map f order))" if "length order = n"
  proof -
    have d: "distinct order" "set order \<subseteq> {..<n}" "\<And>a b. (a, b) \<in> E \<Longrightarrow> b \<in> set order \<Longrightarrow> before order a b"
      using kahn_done [OF k(2)] by blast+
    have all: "set order = {..<n}"
      using d(1,2) that by (metis card_lessThan card_subset_eq distinct_card finite_lessThan)
    have fn: "map f [0..<n] = ids p" by (auto simp: f_def ids_def n intro: nth_equalityI)
    have inj: "inj_on f {..<n}"
      using pos(1) fn by (metis distinct_map lessThan_atLeast0 set_upt)
    have dist: "distinct (map f order)" using d(1) inj all by (simp add: distinct_map)
    have "set (map f order) = set (ids p)" using all fn by (metis lessThan_atLeast0 set_map set_upt)
    moreover have top: "topological (deps p) (map f order)"
    proof -
      have "before (map f order) (f u) (f v)" if "(u, v) \<in> E" for u v
        using before_map [OF d(3) [OF that]] all that E by blast
      then show ?thesis unfolding topological_def pf(3) by (auto simp: f_def)
    qed
    ultimately show ?thesis
      using wf dist topological_acyclic [OF top dist] by (simp add: plan_spec_def)
  qed
  moreover have "plan_spec p (Inl e)" if "length order \<noteq> n"
    using kahn_stuck_cycle [OF k(2) E that] acyc by (auto simp: plan_spec_def)
  ultimately show ?thesis using k(1) by (auto simp: f_def)
qed

lemma plan_ok: "\<exists>r. plan p = Some r \<and> plan_spec p r"
proof (cases "stages p = []")
  case True
  then show ?thesis by (simp add: plan_def plan_spec_def well_formed_def)
next
  case False
  define n where "n = length (stages p)"
  show ?thesis
  proof (cases "index_stages Map.empty 0 (stages p)")
    case (Inl e)
    with index_stages_start [of "stages p"] False show ?thesis
      by (auto simp: plan_def plan_spec_def well_formed_def ids_def)
  next
    case (Inr pos)
    have pos: "distinct (ids p)" "dom pos = set (ids p)" "\<forall>i < length (stages p). pos (stage_id (stages p ! i)) = Some i"
      "\<forall>s \<in> set (stages p). stage_id s \<noteq> [] \<and> stage_argv s \<noteq> []"
      using index_stages_start [of "stages p"] Inr by (auto simp: ids_def)
    have ran: "ran pos \<subseteq> {..<n}"
      using pos_facts(1) [of pos "p\<lparr>edges := []\<rparr>"] pos by (simp add: n_def ids_def)
    define g0 where "g0 = \<lparr>successors = replicate n [], indegree = replicate n 0, seen = []\<rparr>"
    have g0: "graph_inv n g0" by (simp add: g0_def graph_inv_start)
    obtain r where r: "add_edges pos g0 (edges p) = Some r"
      "case r of Inr g' \<Rightarrow> graph_inv n g' \<and> set (seen g') = set (seen g0) \<union> arcs pos (edges p) \<and>
          (\<forall>e \<in> set (edges p). edge_ok pos e)
       | Inl _ \<Rightarrow> \<exists>e \<in> set (edges p). \<not> edge_ok pos e"
      using add_edges_ok [OF g0 ran] by blast
    have eok: "edge_ok pos e \<longleftrightarrow> efrom e \<in> set (ids p) \<and> eto e \<in> set (ids p) \<and> efrom e \<noteq> eto e" for e
    proof -
      have inv: "pos a = Some i \<Longrightarrow> stage_id (stages p ! i) = a" for a i
        using pos_facts(2) [of pos "p\<lparr>edges := []\<rparr>" a i] pos by (simp add: ids_def)
      have "a = b" if "pos a = pos b" "a \<in> dom pos" for a b
        using that inv by (metis domD)
      then show ?thesis by (auto simp: edge_ok_def pos(2))
    qed
    show ?thesis
    proof (cases r)
      case (Inl e)
      with r Inr False eok show ?thesis
        by (auto simp: plan_def plan_spec_def well_formed_def g0_def n_def Let_def)
    next
      case g: (Inr g)
      then have gi: "graph_inv n g" "set (seen g) = arcs pos (edges p)" "\<forall>e \<in> set (edges p). edge_ok pos e"
        using r(2) by (simp_all add: g0_def)
      have "well_formed p" using False pos gi(3) eok by (simp add: well_formed_def)
      from plan_kahn [OF gi pos(1-3) this] obtain order where
        "kahn (successors g) (indegree g) (filter (\<lambda>i. indegree g ! i = 0) [0..<n]) [] = Some order"
        "plan_spec p (if length order \<noteq> n then Inl (invalid ''pipeline has a cycle'')
           else Inr (map (\<lambda>i. stage_id (stages p ! i)) order))"
        by (auto simp: n_def)
      then show ?thesis
        using False Inr r(1) g by (cases "length order = n") (simp_all add: plan_def g0_def n_def Let_def)
    qed
  qed
qed

subsection \<open>Properties\<close>

text \<open>
  C5: the planner always returns, touches no vector out of bounds, and decides exactly the
  well-formed acyclic pipelines: it returns a plan for those and an error for all others, and the plan
  lists every stage once, each producer before its consumers.
\<close>

theorem plan_correct:
  "\<exists>r. plan p = Some r \<and>
     (case r of
        Inr order \<Rightarrow> well_formed p \<and> acyclic (deps p) \<and> distinct order \<and> set order = set (ids p) \<and>
          topological (deps p) order
      | Inl _ \<Rightarrow> \<not> (well_formed p \<and> acyclic (deps p)))"
  using plan_ok [of p] unfolding plan_spec_def .

end
