(* ===== verification/Pipe_Spec.thy ===== *)
theory Pipe_Spec
  imports Planner
begin

text \<open>
  \<open>parsePipeSpec\<close> (\<open>src/pipeline/parser.cpp\<close>): the command line form of a linear pipeline.  What it
  accepts can be planned, and every pipeline of plain words written out is read back as it was.
\<close>

subsection \<open>The parser\<close>

text \<open>
  The loop that splits at the \<open>|\<close> outside quotes, from state (\<open>inQuote\<close>, \<open>current\<close>): the segments
  pushed, the last one, and whether a quote is left open.
\<close>

fun split_spec :: "bool \<Rightarrow> string \<Rightarrow> string \<Rightarrow> string list \<times> string \<times> bool" where
  "split_spec q cur [] = ([], cur, q)"
| "split_spec q cur (c # cs) =
     (if c = SQ then split_spec (\<not> q) (cur @ [c]) cs
      else if c = CHR ''|'' \<and> \<not> q then
        let (segs, l, q') = split_spec q [] cs in (cur # segs, l, q')
      else split_spec q (cur @ [c]) cs)"

text \<open>\<open>tokenize\<close> is \<^const>\<open>words\<close>.  One segment: the command line and the placement.\<close>

definition parse_segment :: "string \<Rightarrow> (string list \<times> string) result" where
  "parse_segment segment =
     (let seg = trim segment in
      if seg = [] then Inl (invalid ''empty stage in pipe spec'')
      else
        let parsed =
          (if hd seg = SQ then
             case find_char SQ (tl seg) of
               None \<Rightarrow> Inl (invalid ''unterminated quote in pipe spec'')
             | Some k \<Rightarrow>
               let command = take k (tl seg); rest = trim (drop (k + 1) (tl seg)) in
               if rest \<noteq> [] then
                 if hd rest \<noteq> CHR ''@'' then Inl (invalid ''expected @placement after a quoted command'')
                 else let place = trim (tl rest) in
                   if place = [] then Inl (invalid ''empty placement after @'') else Inr (command, place)
               else Inr (command, [])
           else if contains_any [CHR '' '', TAB] seg then
             Inl (invalid ''unquoted command contains spaces; wrap it in single quotes'')
           else case find_char (CHR ''@'') seg of
               None \<Rightarrow> Inr (seg, [])
             | Some k \<Rightarrow>
               if drop (k + 1) seg = [] then Inl (invalid ''empty placement after @'')
               else Inr (take k seg, drop (k + 1) seg))
        in case parsed of Inl e \<Rightarrow> Inl e
           | Inr (command, place) \<Rightarrow>
             if words command = [] then Inl (invalid ''empty command in pipe spec'')
             else Inr (words command, place))"

definition stage_name :: "nat \<Rightarrow> string" where
  "stage_name i = ''s'' @ to_string i"

text \<open>The loop over the segments appends to the pipeline built so far.\<close>

fun parse_segments :: "nat \<Rightarrow> pipeline \<Rightarrow> string list \<Rightarrow> pipeline result" where
  "parse_segments idx p [] = Inr p"
| "parse_segments idx p (seg # segs) =
     (case parse_segment seg of Inl e \<Rightarrow> Inl e
      | Inr (args, place) \<Rightarrow>
        parse_segments (Suc idx) (p\<lparr>
          stages := stages p @ [\<lparr>stage_id = stage_name idx, stage_argv = args, placement = place\<rparr>],
          edges := edges p @ (if idx > 0 then [\<lparr>efrom = stage_name (idx - 1), eto = stage_name idx\<rparr>] else [])\<rparr>) segs)"

definition parsePipeSpec :: "string \<Rightarrow> pipeline result" where
  "parsePipeSpec spec =
     (let (segs, l, inQuote) = split_spec False [] spec in
      if inQuote then Inl (invalid ''unterminated quote in pipe spec'')
      else parse_segments 0 \<lparr>stages = [], edges = []\<rparr> (segs @ [l]))"

subsection \<open>Linear pipelines\<close>

definition chain_stage :: "nat \<Rightarrow> string list \<times> string \<Rightarrow> stage" where
  "chain_stage i c = \<lparr>stage_id = stage_name i, stage_argv = fst c, placement = snd c\<rparr>"

definition chain_edge :: "nat \<Rightarrow> edge" where
  "chain_edge i = \<lparr>efrom = stage_name i, eto = stage_name (Suc i)\<rparr>"

definition chain :: "(string list \<times> string) list \<Rightarrow> pipeline" where
  "chain cs = \<lparr>stages = map (\<lambda>i. chain_stage i (cs ! i)) [0..<length cs],
     edges = map chain_edge [0..<length cs - 1]\<rparr>"

lemma chain_snoc:
  "chain (cs @ [c]) = \<lparr>stages = stages (chain cs) @ [chain_stage (length cs) c],
     edges = edges (chain cs) @ (if cs = [] then [] else [chain_edge (length cs - 1)])\<rparr>"
proof -
  have "map (\<lambda>i. chain_stage i ((cs @ [c]) ! i)) [0..<length cs] = map (\<lambda>i. chain_stage i (cs ! i)) [0..<length cs]"
    by (auto simp: nth_append)
  moreover have "map chain_edge [0..<length cs] = map chain_edge [0..<length cs - 1] @ [chain_edge (length cs - 1)]"
    if "cs \<noteq> []"
    using that by (cases cs rule: rev_cases) auto
  ultimately show ?thesis by (auto simp: chain_def)
qed

lemma stage_name_inj [simp]: "stage_name i = stage_name j \<longleftrightarrow> i = j"
  by (simp add: stage_name_def)

lemma stage_name_not_empty [simp]: "stage_name i \<noteq> []"
  by (simp add: stage_name_def)

fun parse_all :: "string list \<Rightarrow> (string list \<times> string) list result" where
  "parse_all [] = Inr []"
| "parse_all (seg # segs) =
     (case parse_segment seg of Inl e \<Rightarrow> Inl e
      | Inr c \<Rightarrow> (case parse_all segs of Inl e \<Rightarrow> Inl e | Inr cs \<Rightarrow> Inr (c # cs)))"

lemma parse_segments_chain:
  "parse_segments (length done_cs) (chain done_cs) segs =
     (case parse_all segs of Inl e \<Rightarrow> Inl e | Inr cs \<Rightarrow> Inr (chain (done_cs @ cs)))"
proof (induction segs arbitrary: done_cs)
  case Nil
  then show ?case by simp
next
  case (Cons seg segs)
  show ?case
  proof (cases "parse_segment seg")
    case (Inr c)
    obtain args place where c: "c = (args, place)" by (cases c)
    have "(chain done_cs)\<lparr>stages := stages (chain done_cs) @ [\<lparr>stage_id = stage_name (length done_cs),
          stage_argv = args, placement = place\<rparr>],
        edges := edges (chain done_cs) @ (if length done_cs > 0
          then [\<lparr>efrom = stage_name (length done_cs - 1), eto = stage_name (length done_cs)\<rparr>] else [])\<rparr> =
        chain (done_cs @ [c])"
      by (auto simp: chain_snoc chain_stage_def chain_edge_def c)
    with Cons.IH [of "done_cs @ [c]"] Inr c show ?thesis by (simp split: sum.splits)
  qed simp
qed

lemma parsePipeSpec_chain:
  "parsePipeSpec spec =
     (let (segs, l, q) = split_spec False [] spec in
      if q then Inl (invalid ''unterminated quote in pipe spec'')
      else case parse_all (segs @ [l]) of Inl e \<Rightarrow> Inl e | Inr cs \<Rightarrow> Inr (chain cs))"
proof -
  have "\<lparr>stages = [], edges = []\<rparr> = chain []" by (simp add: chain_def)
  then show ?thesis
    using parse_segments_chain [of "[]"]
    by (simp add: parsePipeSpec_def Let_def split: prod.split sum.split)
qed

lemma parse_segment_argv: "parse_segment seg = Inr (args, place) \<Longrightarrow> args \<noteq> []"
  by (auto simp: parse_segment_def Let_def split: if_splits option.splits)

lemma parse_all_ok: "parse_all segs = Inr cs \<Longrightarrow> length cs = length segs \<and> (\<forall>c \<in> set cs. fst c \<noteq> [])"
proof (induction segs arbitrary: cs)
  case (Cons seg segs)
  then obtain c cs' where "parse_segment seg = Inr c" "parse_all segs = Inr cs'" "cs = c # cs'"
    by (auto split: sum.splits)
  with Cons.IH [OF this(2)] parse_segment_argv [of seg "fst c" "snd c"] show ?case by simp
qed simp

subsection \<open>A chain has one order\<close>

lemma before_butlast: "before (xs @ [z]) a b \<Longrightarrow> b \<noteq> z \<Longrightarrow> before xs a b"
proof -
  assume "before (xs @ [z]) a b" "b \<noteq> z"
  then obtain us vs ws where eq: "xs @ [z] = us @ a # vs @ b # ws" by (auto simp: before_def)
  with \<open>b \<noteq> z\<close> obtain ws' where "ws = ws' @ [z]" by (cases ws rule: rev_cases) auto
  with eq show ?thesis unfolding before_def by auto
qed

lemma before_last_not: "distinct (xs @ [z]) \<Longrightarrow> \<not> before (xs @ [z]) z b"
proof
  assume d: "distinct (xs @ [z])" and "before (xs @ [z]) z b"
  then obtain us vs ws where eq: "xs @ [z] = us @ z # vs @ b # ws" by (auto simp: before_def)
  then have "last (vs @ b # ws) = z" by (metis append_is_Nil_conv last_ConsR last_appendR last_snoc list.discI)
  then have "z \<in> set (vs @ b # ws)" using last_in_set [of "vs @ b # ws"] by auto
  then have "\<not> distinct (us @ z # vs @ b # ws)" by auto
  with d eq show False by simp
qed

lemma chain_unique:
  assumes "distinct xs" "distinct ys" "set xs = set ys" "\<And>i. Suc i < length ys \<Longrightarrow> before xs (ys ! i) (ys ! Suc i)"
  shows "xs = ys"
  using assms
proof (induction ys arbitrary: xs rule: rev_induct)
  case Nil
  then show ?case by simp
next
  case (snoc y ys)
  then obtain xs' x where xs: "xs = xs' @ [x]" by (cases xs rule: rev_cases) auto
  have "x = y"
  proof (rule ccontr)
    assume "x \<noteq> y"
    then have "x \<in> set ys" using snoc.prems(3) xs by auto
    then obtain i where i: "i < length ys" "ys ! i = x" by (auto simp: in_set_conv_nth)
    then have "before xs x ((ys @ [y]) ! Suc i)" using snoc.prems(4) [of i] by (simp add: nth_append)
    with snoc.prems(1) xs before_last_not show False by metis
  qed
  moreover have "xs' = ys"
  proof (rule snoc.IH)
    show "distinct xs'" "distinct ys" "set xs' = set ys"
      using snoc.prems(1-3) xs \<open>x = y\<close> by auto
    fix i assume i: "Suc i < length ys"
    then have "before xs (ys ! i) (ys ! Suc i)" using snoc.prems(4) [of i] by (simp add: nth_append)
    moreover have "ys ! Suc i \<noteq> y" using snoc.prems(2) i by (auto simp: in_set_conv_nth)
    ultimately show "before xs' (ys ! i) (ys ! Suc i)" using before_butlast xs \<open>x = y\<close> by metis
  qed
  ultimately show ?case by (simp add: xs)
qed

lemma ids_chain: "ids (chain cs) = map stage_name [0..<length cs]"
  by (simp add: ids_def chain_def chain_stage_def)

lemma deps_chain: "deps (chain cs) = (\<lambda>i. (stage_name i, stage_name (Suc i))) ` {..<length cs - 1}"
  by (simp add: deps_def chain_def chain_edge_def image_image lessThan_atLeast0)

lemma before_upt: "Suc i < n \<Longrightarrow> before [0..<n] i (Suc i)"
proof -
  assume "Suc i < n"
  then have "[0..<n] = [0..<i] @ i # [] @ Suc i # [Suc (Suc i)..<n]"
    using upt_add_eq_append [of 0 i "n - i"] by (simp add: upt_conv_Cons)
  then show ?thesis unfolding before_def by blast
qed

lemma chain_plan:
  assumes "cs \<noteq> []" "\<forall>c \<in> set cs. fst c \<noteq> []"
  shows "plan (chain cs) = Some (Inr (ids (chain cs)))"
proof -
  have dist: "distinct (ids (chain cs))" by (simp add: ids_chain distinct_map inj_on_def)
  have "before (ids (chain cs)) (stage_name i) (stage_name (Suc i))" if "i < length cs - 1" for i
    unfolding ids_chain using that by (intro before_map before_upt) simp
  then have top: "topological (deps (chain cs)) (ids (chain cs))"
    by (auto simp: topological_def deps_chain)
  have "well_formed (chain cs)"
    using assms dist unfolding well_formed_def ids_chain
    by (auto simp: chain_def chain_stage_def chain_edge_def)
  moreover obtain r where r: "plan (chain cs) = Some r" "plan_spec (chain cs) r" using plan_ok by blast
  ultimately obtain order where o: "plan (chain cs) = Some (Inr order)" "distinct order"
      "set order = set (ids (chain cs))" "topological (deps (chain cs)) order"
    using topological_acyclic [OF top dist] by (cases r) (auto simp: plan_spec_def)
  have "order = ids (chain cs)"
  proof (rule chain_unique [OF o(2) dist o(3)])
    fix i assume "Suc i < length (ids (chain cs))"
    then have "(ids (chain cs) ! i, ids (chain cs) ! Suc i) \<in> deps (chain cs)"
      by (auto simp: ids_chain deps_chain)
    then show "before order (ids (chain cs) ! i) (ids (chain cs) ! Suc i)"
      using o(4) by (auto simp: topological_def)
  qed
  with o(1) show ?thesis by simp
qed

lemma parsed_plan:
  assumes "parsePipeSpec spec = Inr p"
  shows "plan p = Some (Inr (ids p))"
proof -
  obtain segs l cs where s: "parse_all (segs @ [l]) = Inr cs" "p = chain cs"
    using assms unfolding parsePipeSpec_chain by (auto simp: Let_def split: prod.splits if_splits sum.splits)
  then have "cs \<noteq> []" "\<forall>c \<in> set cs. fst c \<noteq> []" using parse_all_ok [OF s(1)] by auto
  with s(2) show ?thesis by (simp add: chain_plan)
qed

subsection \<open>Writing a pipeline\<close>

fun join :: "string \<Rightarrow> string list \<Rightarrow> string" where
  "join sep [] = []"
| "join sep [w] = w"
| "join sep (w # ws) = w @ sep @ join sep ws"

definition render_stage :: "string list \<times> string \<Rightarrow> string" where
  "render_stage c = [SQ] @ join '' '' (fst c) @ [SQ] @ (if snd c = [] then [] else ''@'' @ snd c)"

definition render :: "(string list \<times> string) list \<Rightarrow> string" where
  "render cs = join '' | '' (map render_stage cs)"

text \<open>Words without white space and quotes; placements that are trimmed and hold no quote or bar.\<close>

definition plain_stage :: "string list \<times> string \<Rightarrow> bool" where
  "plain_stage c \<longleftrightarrow> fst c \<noteq> [] \<and> (\<forall>w \<in> set (fst c). w \<noteq> [] \<and> (\<forall>x \<in> set w. \<not> isspace x \<and> x \<noteq> SQ)) \<and>
     (snd c \<noteq> [] \<longrightarrow> \<not> isspace (hd (snd c)) \<and> \<not> isspace (last (snd c))) \<and>
     SQ \<notin> set (snd c) \<and> CHR ''|'' \<notin> set (snd c)"

lemma words_join:
  "\<forall>w \<in> set ws. w \<noteq> [] \<and> (\<forall>c \<in> set w. \<not> isspace c) \<Longrightarrow> words (join '' '' ws) = ws"
proof (induction ws rule: induct_list012)
  case (2 w)
  then show ?case using words_word [of w "[]"] by simp
next
  case (3 w v ws)
  have sp: "isspace (CHR '' '')" by (simp add: isspace_def)
  have "words (join '' '' (w # v # ws)) = w # words (CHR '' '' # join '' '' (v # ws))"
    using 3 sp words_word [of w "CHR '' '' # join '' '' (v # ws)"] by simp
  with 3 sp show ?case by (simp add: words_space)
qed simp

lemma join_no_quote: "\<forall>w \<in> set ws. SQ \<notin> set w \<Longrightarrow> SQ \<notin> set (join '' '' ws)"
  by (induction ws rule: induct_list012) auto

lemma split_spec_quoted: "SQ \<notin> set xs \<Longrightarrow> split_spec True cur (xs @ ys) = split_spec True (cur @ xs) ys"
  by (induction xs arbitrary: cur) auto

lemma split_spec_plain:
  "SQ \<notin> set xs \<Longrightarrow> CHR ''|'' \<notin> set xs \<Longrightarrow> split_spec False cur (xs @ ys) = split_spec False (cur @ xs) ys"
  by (induction xs arbitrary: cur) auto

lemma plain_no_quote: "plain_stage c \<Longrightarrow> SQ \<notin> set (join '' '' (fst c))"
  by (rule join_no_quote) (auto simp: plain_stage_def)

lemma split_spec_stage:
  assumes "plain_stage c"
  shows "split_spec False cur (render_stage c @ ys) = split_spec False (cur @ render_stage c) ys"
proof -
  have "split_spec False cur (render_stage c @ ys) =
    split_spec True (cur @ [SQ]) (join '' '' (fst c) @ SQ # (if snd c = [] then [] else ''@'' @ snd c) @ ys)"
    by (simp add: render_stage_def)
  also have "\<dots> = split_spec False (cur @ [SQ] @ join '' '' (fst c) @ [SQ]) ((if snd c = [] then [] else ''@'' @ snd c) @ ys)"
    using split_spec_quoted [OF plain_no_quote [OF assms]] by simp
  also have "\<dots> = split_spec False (cur @ render_stage c) ys"
    using assms by (subst split_spec_plain) (auto simp: plain_stage_def render_stage_def)
  finally show ?thesis .
qed

text \<open>A stage between spaces.\<close>

definition spaced :: "string list \<times> string \<Rightarrow> string \<Rightarrow> bool" where
  "spaced c seg \<longleftrightarrow> (\<exists>a b. seg = a @ render_stage c @ b \<and> (\<forall>x \<in> set (a @ b). isspace x))"

lemma spaced_intro: "\<forall>x \<in> set a. isspace x \<Longrightarrow> \<forall>x \<in> set b. isspace x \<Longrightarrow> spaced c (a @ render_stage c @ b)"
  unfolding spaced_def by auto

lemma split_render:
  assumes "cs \<noteq> []" "\<forall>c \<in> set cs. plain_stage c" "\<forall>x \<in> set cur. isspace x"
  shows "\<exists>segs l. split_spec False cur (render cs) = (segs, l, False) \<and> list_all2 spaced cs (segs @ [l])"
  using assms
proof (induction cs arbitrary: cur rule: induct_list012)
  case (2 c)
  have "split_spec False cur (render [c]) = ([], cur @ render_stage c, False)"
    using split_spec_stage [of c cur "[]"] 2 by (simp add: render_def)
  moreover have "spaced c (cur @ render_stage c)" using 2 spaced_intro [of cur "[]" c] by simp
  ultimately show ?case by simp
next
  case (3 c d cs)
  have sp: "isspace (CHR '' '')" by (simp add: isspace_def)
  obtain segs l where ih: "split_spec False '' '' (render (d # cs)) = (segs, l, False)"
    "list_all2 spaced (d # cs) (segs @ [l])"
  proof -
    have "\<forall>x \<in> set '' ''. isspace x" using sp by simp
    from 3(2) [OF _ _ this] 3(4) that show thesis by auto
  qed
  have "split_spec False cur (render (c # d # cs)) =
      split_spec False (cur @ render_stage c) ('' | '' @ render (d # cs))"
    using split_spec_stage [of c cur "'' | '' @ render (d # cs)"] 3 by (simp add: render_def)
  also have "\<dots> = ((cur @ render_stage c @ '' '') # segs, l, False)"
    using ih(1) by simp
  finally show ?case
    using ih(2) 3 sp spaced_intro [of cur "'' ''" c] by auto
qed simp

lemma trim_id: "s \<noteq> [] \<Longrightarrow> \<not> isspace (hd s) \<Longrightarrow> \<not> isspace (last s) \<Longrightarrow> trim s = s"
  unfolding trim_def by (rule trim_by_id)

lemma parse_spaced:
  assumes "plain_stage c" "spaced c seg"
  shows "parse_segment seg = Inr c"
proof -
  obtain a b where seg: "seg = a @ render_stage c @ b" "\<forall>x \<in> set a. isspace x" "\<forall>x \<in> set b. isspace x"
    using assms(2) by (auto simp: spaced_def)
  have nsp: "\<not> isspace SQ" "\<not> isspace (CHR ''@'')" by (simp_all add: isspace_def)
  define tail where "tail = (if snd c = [] then [] else ''@'' @ snd c)"
  have rs: "render_stage c = SQ # join '' '' (fst c) @ SQ # tail" by (simp add: render_stage_def tail_def)
  have "trim seg = trim (render_stage c)" unfolding trim_def seg(1) by (rule trim_spaces [OF seg(2,3)])
  also have "\<dots> = render_stage c"
    using assms(1) nsp by (intro trim_id) (auto simp: rs tail_def plain_stage_def)
  finally have t: "trim seg = render_stage c" .
  have f: "find_char SQ (join '' '' (fst c) @ SQ # tail) = Some (length (join '' '' (fst c)))"
    by (rule find_char_append [OF plain_no_quote [OF assms(1)]])
  have w: "words (join '' '' (fst c)) = fst c" "fst c \<noteq> []"
    using assms(1) by (auto simp: plain_stage_def intro!: words_join)
  show ?thesis
  proof (cases "snd c = []")
    case True
    then have "tail = []" "trim [] = []" by (simp_all add: tail_def trim_def trim_by_def)
    with f w True show ?thesis by (simp add: parse_segment_def t rs prod_eq_iff)
  next
    case False
    then have tl: "tail = CHR ''@'' # snd c" by (simp add: tail_def)
    have "trim tail = tail" "trim (snd c) = snd c"
      using assms(1) nsp False by (intro trim_id; simp add: tl plain_stage_def)+
    with f w False show ?thesis by (simp add: parse_segment_def t rs prod_eq_iff tl)
  qed
qed

lemma parse_all_spaced: "list_all2 spaced cs segs \<Longrightarrow> \<forall>c \<in> set cs. plain_stage c \<Longrightarrow> parse_all segs = Inr cs"
  by (induction cs segs rule: list_all2_induct) (auto simp: parse_spaced)

subsection \<open>Properties\<close>

text \<open>
  every pipe specification the parser accepts is a pipeline the planner accepts, and the plan runs
  the stages in the order in which they are written.
\<close>

theorem pipe_spec_plans:
  assumes "parsePipeSpec spec = Inr p"
  shows "plan p = Some (Inr (ids p))"
  using parsed_plan [OF assms] .

text \<open>
  C30: writing and reading a pipe specification are inverse: for stages of plain words with plain
  placements, the text with quoted commands, placements behind \<open>@\<close> and bars in between is parsed to
  exactly these stages, chained one after the other.
\<close>

theorem pipe_spec_roundtrip:
  assumes "cs \<noteq> []" "\<forall>c \<in> set cs. plain_stage c"
  shows "parsePipeSpec (render cs) = Inr (chain cs)"
proof -
  obtain segs l where s: "split_spec False [] (render cs) = (segs, l, False)" "list_all2 spaced cs (segs @ [l])"
    using split_render [OF assms, of "[]"] by auto
  then have "parse_all (segs @ [l]) = Inr cs" using assms(2) parse_all_spaced by blast
  with s(1) show ?thesis by (simp add: parsePipeSpec_chain)
qed

theorem pipe_spec_roundtrip_witness:
  "parsePipeSpec (render [([''grep'', ''ERR|OR''], ''web''), ([''wc''], [])]) =
   Inr (chain [([''grep'', ''ERR|OR''], ''web''), ([''wc''], [])])"
  by (rule pipe_spec_roundtrip) (auto simp: plain_stage_def isspace_def)

theorem pipe_spec_plans_witness:
  "\<exists>p. parsePipeSpec ''ps|wc'' = Inr p \<and> plan p = Some (Inr (ids p))"
proof -
  have "parsePipeSpec ''ps|wc'' = Inr (chain [([''ps''], []), ([''wc''], [])])"
    by code_simp
  with pipe_spec_plans [OF this] show ?thesis by blast
qed

end
