(* ===== verification/Pipeline_Yaml.thy ===== *)
theory Pipeline_Yaml
  imports Planner
begin

text \<open>
  \<open>loadPipelineYaml\<close> (\<open>src/pipeline/pipeline_yaml.cpp\<close>): the restricted YAML form of a pipeline.  The
  loader always returns; what it accepts is a well-formed acyclic pipeline; and a pipeline written as
  YAML with quoted scalars is loaded as it was.
\<close>

subsection \<open>Lines\<close>

record line =
  indent :: nat
  ltext :: string

record field =
  key :: string
  fvalue :: string

record scalar =
  svalue :: string
  quoted :: bool

text \<open>
  The loop of \<open>stripComment\<close> from state (\<open>quote\<close>, \<open>escaped\<close>); \<open>prev\<close> is the character before, if any.
\<close>

fun strip_from :: "char option \<Rightarrow> bool \<Rightarrow> char option \<Rightarrow> string \<Rightarrow> string" where
  "strip_from q esc prev [] = []"
| "strip_from (Some qc) esc prev (c # cs) =
     (if qc = DQ \<and> esc then c # strip_from (Some qc) False (Some c) cs
      else if qc = DQ \<and> c = BSL then c # strip_from (Some qc) True (Some c) cs
      else if c = qc then c # strip_from None esc (Some c) cs
      else c # strip_from (Some qc) esc (Some c) cs)"
| "strip_from None esc prev (c # cs) =
     (if c = SQ \<or> c = DQ then c # strip_from (Some c) esc (Some c) cs
      else if c = CHR ''#'' \<and> (case prev of None \<Rightarrow> True | Some p \<Rightarrow> isspace p) then []
      else c # strip_from None esc (Some c) cs)"

definition stripComment :: "string \<Rightarrow> string" where
  "stripComment = strip_from None False None"

definition tokenize_line :: "string \<Rightarrow> line list result" where
  "tokenize_line l =
     (let raw0 = stripComment l;
          raw = (if raw0 \<noteq> [] \<and> last raw0 = RET then butlast raw0 else raw0);
          ind = length (takeWhile (\<lambda>c. c = CHR '' '') raw);
          body = drop ind raw
      in if body \<noteq> [] \<and> hd body = TAB then Inl (invalid ''pipeline YAML: tabs are not valid indentation'')
         else let content = trim body in
           Inr (if content \<noteq> [] then [\<lparr>indent = ind, ltext = content\<rparr>] else []))"

fun tokenize_all :: "string list \<Rightarrow> line list result" where
  "tokenize_all [] = Inr []"
| "tokenize_all (l # ls) =
     (case tokenize_line l of Inl e \<Rightarrow> Inl e
      | Inr x \<Rightarrow> (case tokenize_all ls of Inl e \<Rightarrow> Inl e | Inr xs \<Rightarrow> Inr (x @ xs)))"

definition tokenizeLines :: "string \<Rightarrow> line list result" where
  "tokenizeLines yaml = tokenize_all (split_on NL yaml)"

subsection \<open>Fields and scalars\<close>

definition parseField :: "string \<Rightarrow> field result" where
  "parseField text =
     (case find_char (CHR '':'') text of
        None \<Rightarrow> Inl (invalid ''pipeline YAML: expected key: value'')
      | Some colon \<Rightarrow>
        let k = trim (take colon text) in
        if k = [] \<or> contains_any [CHR '' '', TAB] k then Inl (invalid ''pipeline YAML: invalid mapping key'')
        else Inr \<lparr>key = k, fvalue = trim (drop (colon + 1) text)\<rparr>)"

text \<open>The loop over a quoted scalar: its value and the text behind the closing quote.\<close>

fun scan_quoted :: "char \<Rightarrow> bool \<Rightarrow> string \<Rightarrow> (string \<times> string) option" where
  "scan_quoted q esc [] = None"
| "scan_quoted q esc (c # cs) =
     (if q = DQ \<and> esc then map_option (\<lambda>(v, r). (c # v, r)) (scan_quoted q False cs)
      else if q = DQ \<and> c = BSL then scan_quoted q True cs
      else if c = q then Some ([], cs)
      else map_option (\<lambda>(v, r). (c # v, r)) (scan_quoted q esc cs))"

definition parseScalar :: "string \<Rightarrow> scalar result" where
  "parseScalar text =
     (let v = trim text in
      if v = [] then Inl (invalid ''pipeline YAML: scalar cannot be empty'')
      else if hd v \<noteq> SQ \<and> hd v \<noteq> DQ then
        if contains_any [SQ, DQ] v then Inl (invalid ''pipeline YAML: quotes must enclose the whole scalar'')
        else Inr \<lparr>svalue = v, quoted = False\<rparr>
      else case scan_quoted (hd v) False (tl v) of
          None \<Rightarrow> Inl (invalid ''pipeline YAML: unterminated quoted scalar'')
        | Some (r, rest) \<Rightarrow>
          if trim rest \<noteq> [] then Inl (invalid ''pipeline YAML: trailing text after quoted scalar'')
          else if r = [] then Inl (invalid ''pipeline YAML: scalar cannot be empty'')
          else Inr \<lparr>svalue = r, quoted = True\<rparr>)"

definition parse_item :: "string \<Rightarrow> string result" where
  "parse_item text =
     (case parseScalar text of Inl e \<Rightarrow> Inl e
      | Inr item \<Rightarrow>
        if \<not> quoted item \<and> contains_any [CHR '' '', TAB] (svalue item)
        then Inl (invalid ''pipeline YAML: run list items cannot contain spaces'')
        else Inr (svalue item))"

text \<open>The loop over a run list; \<open>cur\<close> is the item read so far.\<close>

fun parse_items :: "char option \<Rightarrow> bool \<Rightarrow> string \<Rightarrow> string \<Rightarrow> string list result" where
  "parse_items q esc cur [] =
     (if q \<noteq> None then Inl (invalid ''pipeline YAML: unterminated quoted run list item'')
      else case parse_item cur of Inl e \<Rightarrow> Inl e | Inr a \<Rightarrow> Inr [a])"
| "parse_items (Some qc) esc cur (c # cs) =
     (if qc = DQ \<and> esc then parse_items (Some qc) False (cur @ [c]) cs
      else if qc = DQ \<and> c = BSL then parse_items (Some qc) True (cur @ [c]) cs
      else if c = qc then parse_items None esc (cur @ [c]) cs
      else parse_items (Some qc) esc (cur @ [c]) cs)"
| "parse_items None esc cur (c # cs) =
     (if c = SQ \<or> c = DQ then parse_items (Some c) esc (cur @ [c]) cs
      else if c = CHR '','' then
        (case parse_item cur of Inl e \<Rightarrow> Inl e
         | Inr a \<Rightarrow> (case parse_items None esc [] cs of Inl e \<Rightarrow> Inl e | Inr as \<Rightarrow> Inr (a # as)))
      else parse_items None esc (cur @ [c]) cs)"

definition parseArgv :: "string \<Rightarrow> string list result" where
  "parseArgv text =
     (let v = trim text in
      if v = [] then Inl (invalid ''pipeline YAML: run cannot be empty'')
      else if hd v \<noteq> CHR ''['' then
        (case parseScalar v of Inl e \<Rightarrow> Inl e
         | Inr sc \<Rightarrow>
           if \<not> quoted sc \<and> contains_any [CHR '' '', TAB] (svalue sc)
           then Inl (invalid ''pipeline YAML: run with spaces must be quoted or a YAML list'')
           else Inr (words (svalue sc)))
      else if last v \<noteq> CHR '']'' then Inl (invalid ''pipeline YAML: unterminated run list'')
      else case parse_items None False [] (butlast (tl v)) of Inl e \<Rightarrow> Inl e
        | Inr args \<Rightarrow>
          if length args = 1 \<and> hd args = [] then Inl (invalid ''pipeline YAML: run list cannot be empty'')
          else Inr args)"

subsection \<open>Sections\<close>

text \<open>The fields of a stage, with the flags \<open>hasId\<close>, \<open>hasRun\<close>, \<open>hasPlacement\<close>.\<close>

fun stage_fields :: "stage \<Rightarrow> bool \<Rightarrow> bool \<Rightarrow> bool \<Rightarrow> field list \<Rightarrow> stage result" where
  "stage_fields s hasId hasRun hasAt [] =
     (if \<not> hasId \<or> \<not> hasRun then Inl (invalid ''pipeline YAML: stage needs id and run'') else Inr s)"
| "stage_fields s hasId hasRun hasAt (f # fs) =
     (if key f = ''id'' then
        if hasId then Inl (invalid ''pipeline YAML: duplicate stage key'')
        else (case parseScalar (fvalue f) of Inl e \<Rightarrow> Inl e
              | Inr v \<Rightarrow> stage_fields (s\<lparr>stage_id := svalue v\<rparr>) True hasRun hasAt fs)
      else if key f = ''run'' then
        if hasRun then Inl (invalid ''pipeline YAML: duplicate stage key'')
        else (case parseArgv (fvalue f) of Inl e \<Rightarrow> Inl e
              | Inr v \<Rightarrow> stage_fields (s\<lparr>stage_argv := v\<rparr>) hasId True hasAt fs)
      else if key f = ''at'' then
        if hasAt then Inl (invalid ''pipeline YAML: duplicate stage key'')
        else (case parseScalar (fvalue f) of Inl e \<Rightarrow> Inl e
              | Inr v \<Rightarrow> stage_fields (s\<lparr>placement := svalue v\<rparr>) hasId hasRun True fs)
      else Inl (invalid ''pipeline YAML: unknown key in stage''))"

fun edge_fields :: "edge \<Rightarrow> bool \<Rightarrow> bool \<Rightarrow> field list \<Rightarrow> edge result" where
  "edge_fields d hasFrom hasTo [] =
     (if \<not> hasFrom \<or> \<not> hasTo then Inl (invalid ''pipeline YAML: edge needs from and to'') else Inr d)"
| "edge_fields d hasFrom hasTo (f # fs) =
     (if key f = ''from'' then
        if hasFrom then Inl (invalid ''pipeline YAML: duplicate edge key'')
        else (case parseScalar (fvalue f) of Inl e \<Rightarrow> Inl e
              | Inr v \<Rightarrow> edge_fields (d\<lparr>efrom := svalue v\<rparr>) True hasTo fs)
      else if key f = ''to'' then
        if hasTo then Inl (invalid ''pipeline YAML: duplicate edge key'')
        else (case parseScalar (fvalue f) of Inl e \<Rightarrow> Inl e
              | Inr v \<Rightarrow> edge_fields (d\<lparr>eto := svalue v\<rparr>) hasFrom True fs)
      else Inl (invalid ''pipeline YAML: unknown key in edge''))"

definition empty_stage :: stage where
  "empty_stage = \<lparr>stage_id = [], stage_argv = [], placement = ''local''\<rparr>"

definition empty_edge :: edge where
  "empty_edge = \<lparr>efrom = [], eto = []\<rparr>"

text \<open>The further fields of a list item, and the lines behind it.\<close>

fun item_fields :: "line list \<Rightarrow> (field list \<times> line list) result" where
  "item_fields [] = Inr ([], [])"
| "item_fields (l # ls) =
     (if indent l > 2 then
        if indent l \<noteq> 4 \<or> starts_with ''- '' (ltext l) then Inl (invalid ''pipeline YAML: bad indentation'')
        else case parseField (ltext l) of Inl e \<Rightarrow> Inl e
          | Inr f \<Rightarrow> (case item_fields ls of Inl e \<Rightarrow> Inl e | Inr (fs, rest) \<Rightarrow> Inr (f # fs, rest))
      else Inr ([], l # ls))"

definition add_item :: "bool \<Rightarrow> pipeline \<Rightarrow> field list \<Rightarrow> pipeline result" where
  "add_item isStages p fs =
     (if isStages then
        case stage_fields empty_stage False False False fs of Inl e \<Rightarrow> Inl e
        | Inr s \<Rightarrow> Inr (p\<lparr>stages := stages p @ [s]\<rparr>)
      else case edge_fields empty_edge False False fs of Inl e \<Rightarrow> Inl e
        | Inr d \<Rightarrow> Inr (p\<lparr>edges := edges p @ [d]\<rparr>))"

lemma item_fields_length: "item_fields ls = Inr (fs, rest) \<Longrightarrow> length rest \<le> length ls"
  by (induction ls arbitrary: fs) (fastforce split: if_splits sum.splits prod.splits)+

function section_items :: "bool \<Rightarrow> pipeline \<Rightarrow> line list \<Rightarrow> (pipeline \<times> line list) result" where
  "section_items isStages p [] = Inr (p, [])"
| "section_items isStages p (l # ls) =
     (if indent l > 0 then
        if indent l \<noteq> 2 \<or> \<not> starts_with ''- '' (ltext l) then
          Inl (invalid ''pipeline YAML: bad indentation or expected list item'')
        else case parseField (drop 2 (ltext l)) of Inl e \<Rightarrow> Inl e
          | Inr f \<Rightarrow> (case item_fields ls of Inl e \<Rightarrow> Inl e
              | Inr (fs, rest) \<Rightarrow> (case add_item isStages p (f # fs) of Inl e \<Rightarrow> Inl e
                  | Inr p' \<Rightarrow> section_items isStages p' rest))
      else Inr (p, l # ls))"
  by pat_completeness auto
termination
  by (relation "measure (\<lambda>(b, p, ls). length ls)") (auto dest!: item_fields_length simp: less_Suc_eq_le)

lemma section_items_length: "section_items b p ls = Inr (p', rest) \<Longrightarrow> length rest \<le> length ls"
proof (induction b p ls arbitrary: p' rest rule: section_items.induct)
  case (2 b p l ls)
  show ?case
  proof (cases "indent l > 0")
    case True
    then obtain f fs r p1 where s: "\<not> (indent l \<noteq> 2 \<or> \<not> starts_with ''- '' (ltext l))"
      "parseField (drop 2 (ltext l)) = Inr f" "item_fields ls = Inr (fs, r)" "add_item b p (f # fs) = Inr p1"
      "section_items b p1 r = Inr (p', rest)"
      using 2(2) by (auto split: if_splits sum.splits prod.splits)
    from 2(1) [OF True s(1,2,3) refl s(4,5)] item_fields_length [OF s(3)] show ?thesis by simp
  qed (use 2(2) in auto)
qed auto

function parse_sections :: "pipeline \<Rightarrow> bool \<Rightarrow> bool \<Rightarrow> line list \<Rightarrow> (pipeline \<times> bool) result" where
  "parse_sections p sawStages sawEdges [] = Inr (p, sawStages)"
| "parse_sections p sawStages sawEdges (l # ls) =
     (if indent l \<noteq> 0 then Inl (invalid ''pipeline YAML: bad indentation'')
      else case parseField (ltext l) of Inl e \<Rightarrow> Inl e
      | Inr f \<Rightarrow>
        if fvalue f \<noteq> [] then Inl (invalid ''pipeline YAML: top-level sections must be block lists'')
        else let isStages = (key f = ''stages''); isEdges = (key f = ''edges'') in
          if \<not> isStages \<and> \<not> isEdges then Inl (invalid ''pipeline YAML: unknown top-level key'')
          else if (if isStages then sawStages else sawEdges) then
            Inl (invalid ''pipeline YAML: duplicate top-level key'')
          else case section_items isStages p ls of Inl e \<Rightarrow> Inl e
            | Inr (p', rest) \<Rightarrow> parse_sections p' (sawStages \<or> isStages) (sawEdges \<or> \<not> isStages) rest)"
  by pat_completeness auto
termination
  by (relation "measure (\<lambda>(p, a, b, ls). length ls)") (auto dest!: section_items_length simp: less_Suc_eq_le)

definition parseDocument :: "line list \<Rightarrow> pipeline result option" where
  "parseDocument ls =
     (case parse_sections \<lparr>stages = [], edges = []\<rparr> False False ls of Inl e \<Rightarrow> Some (Inl e)
      | Inr (p, sawStages) \<Rightarrow>
        if \<not> sawStages then Some (Inl (invalid ''pipeline YAML: missing stages section''))
        else do {
          r \<leftarrow> plan p;
          case r of Inl e \<Rightarrow> Some (Inl e) | Inr _ \<Rightarrow> Some (Inr p)
        })"

definition loadPipelineYaml :: "string \<Rightarrow> pipeline result option" where
  "loadPipelineYaml yaml =
     (case tokenizeLines yaml of Inl e \<Rightarrow> Some (Inl e) | Inr ls \<Rightarrow> parseDocument ls)"

declare section_items.simps(2) [simp del] parse_sections.simps(2) [simp del]

subsection \<open>Writing a pipeline as YAML\<close>

definition escape :: "string \<Rightarrow> string" where
  "escape s = concat (map (\<lambda>c. if c = DQ \<or> c = BSL then [BSL, c] else [c]) s)"

definition quote_dq :: "string \<Rightarrow> string" where
  "quote_dq s = DQ # escape s @ [DQ]"

fun run_list :: "string list \<Rightarrow> string" where
  "run_list [] = []"
| "run_list [a] = quote_dq a"
| "run_list (a # as) = quote_dq a @ '','' @ run_list as"

definition stage_lines :: "stage \<Rightarrow> string list" where
  "stage_lines s = [''  - id: '' @ quote_dq (stage_id s),
     ''    run: ['' @ run_list (stage_argv s) @ '']'',
     ''    at: '' @ quote_dq (placement s)]"

definition edge_lines :: "edge \<Rightarrow> string list" where
  "edge_lines e = [''  - from: '' @ quote_dq (efrom e), ''    to: '' @ quote_dq (eto e)]"

definition yaml_lines :: "pipeline \<Rightarrow> string list" where
  "yaml_lines p = [''stages:''] @ concat (map stage_lines (stages p)) @
     [''edges:''] @ concat (map edge_lines (edges p))"

definition render_yaml :: "pipeline \<Rightarrow> string" where
  "render_yaml p = unlines (yaml_lines p)"

text \<open>Strings that can be written: not empty, on one line.\<close>

definition writable :: "string \<Rightarrow> bool" where
  "writable s \<longleftrightarrow> s \<noteq> [] \<and> NL \<notin> set s"

definition printable :: "pipeline \<Rightarrow> bool" where
  "printable p \<longleftrightarrow> (\<forall>s \<in> set (stages p). writable (stage_id s) \<and> writable (placement s) \<and>
       (\<forall>a \<in> set (stage_argv s). writable a)) \<and>
     (\<forall>e \<in> set (edges p). writable (efrom e) \<and> writable (eto e))"

lemma escape_simps [simp]:
  "escape [] = []" "escape (c # s) = (if c = DQ \<or> c = BSL then [BSL, c] else [c]) @ escape s"
  by (simp_all add: escape_def)

lemma strip_escaped: "strip_from (Some DQ) False prev (escape s @ DQ # rest) = escape s @ DQ # strip_from None False (Some DQ) rest"
  by (induction s arbitrary: prev) auto

lemma strip_quoted: "strip_from None False prev (quote_dq s @ rest) = quote_dq s @ strip_from None False (Some DQ) rest"
  by (simp add: quote_dq_def strip_escaped)

lemma scan_escaped: "scan_quoted DQ False (escape s @ DQ # rest) = Some (s, rest)"
  by (induction s) auto

lemma quote_ends [simp]: "quote_dq s \<noteq> []" "hd (quote_dq s) = DQ" "last (quote_dq s) = DQ"
  by (simp_all add: quote_dq_def)

lemma not_space [simp]: "\<not> isspace DQ" "\<not> isspace (CHR ''['')" "\<not> isspace (CHR '']'')" "isspace (CHR '' '')"
  by (simp_all add: isspace_def)

lemma trim_quote [simp]: "trim (quote_dq s) = quote_dq s"
  unfolding trim_def by (rule trim_by_id) simp_all

lemma trim_space_front: "isspace c \<Longrightarrow> trim (c # s) = trim s"
  unfolding trim_def using trim_spaces [of "[c]" isspace "[]" s] by simp

lemma parseScalar_quote: "s \<noteq> [] \<Longrightarrow> parseScalar (quote_dq s) = Inr \<lparr>svalue = s, quoted = True\<rparr>"
  by (simp add: parseScalar_def) (simp add: quote_dq_def scan_escaped trim_def trim_by_def)

lemma parse_items_escaped:
  "parse_items (Some DQ) False cur (escape s @ DQ # rest) = parse_items None False (cur @ escape s @ [DQ]) rest"
  by (induction s arbitrary: cur) auto

lemma parse_items_quote: "parse_items None False cur (quote_dq s @ rest) = parse_items None False (cur @ quote_dq s) rest"
  by (simp add: quote_dq_def parse_items_escaped)

lemma parse_item_quote: "s \<noteq> [] \<Longrightarrow> parse_item (quote_dq s) = Inr s"
  by (simp add: parse_item_def parseScalar_quote)

lemma parse_run_list:
  "as \<noteq> [] \<Longrightarrow> \<forall>a \<in> set as. a \<noteq> [] \<Longrightarrow> parse_items None False [] (run_list as) = Inr as"
proof (induction as rule: induct_list012)
  case (2 a)
  then show ?case using parse_items_quote [of "[]" a "[]"] by (simp add: parse_item_quote)
next
  case (3 a b as)
  then show ?case using parse_items_quote [of "[]" a "'','' @ run_list (b # as)"] by (simp add: parse_item_quote)
qed simp

lemma strip_run_list: "strip_from None False prev (run_list as @ '']'') = run_list as @ '']''"
  by (induction as arbitrary: prev rule: induct_list012) (simp_all add: strip_quoted)

lemma parseArgv_list:
  assumes "as \<noteq> []" "\<forall>a \<in> set as. a \<noteq> []"
  shows "parseArgv (''['' @ run_list as @ '']'') = Inr as"
proof -
  have "trim (''['' @ run_list as @ '']'') = ''['' @ run_list as @ '']''"
    unfolding trim_def by (rule trim_by_id) simp_all
  moreover have "\<not> (length as = 1 \<and> hd as = [])" using assms by (cases as) auto
  ultimately show ?thesis using parse_run_list [OF assms] by (simp add: parseArgv_def)
qed

subsection \<open>The written lines are read back\<close>

text \<open>A text that comment stripping leaves alone after any character.\<close>

definition unstripped :: "string \<Rightarrow> bool" where
  "unstripped v \<longleftrightarrow> (\<forall>prev. strip_from None False prev v = v)"

lemma unstripped_quote [simp]: "unstripped (quote_dq s)"
  using strip_quoted [of _ s "[]"] by (simp add: unstripped_def)

lemma unstripped_list [simp]: "unstripped (CHR ''['' # run_list as @ '']'')"
  using strip_run_list by (simp add: unstripped_def)

lemma unstripped_Nil [simp]: "unstripped []"
  by (simp add: unstripped_def)

definition plain_text :: "string \<Rightarrow> bool" where
  "plain_text w \<longleftrightarrow> (\<forall>c \<in> set w. c \<noteq> SQ \<and> c \<noteq> DQ \<and> c \<noteq> CHR ''#'')"

lemma strip_plain: "plain_text w \<Longrightarrow> unstripped v \<Longrightarrow> strip_from None False prev (w @ v) = w @ v"
  by (induction w arbitrary: prev) (auto simp: plain_text_def unstripped_def)

lemma tokenize_written:
  assumes "plain_text w" "w \<noteq> []" "\<not> isspace (hd w)" "unstripped v" "\<not> isspace (last (w @ v))"
  shows "tokenize_line (replicate k (CHR '' '') @ w @ v) = Inr [\<lparr>indent = k, ltext = w @ v\<rparr>]"
proof -
  have "plain_text (replicate k (CHR '' ''))" unfolding plain_text_def set_replicate_conv_if by simp
  then have "plain_text (replicate k (CHR '' '') @ w)"
    using assms(1) unfolding plain_text_def set_append by blast
  from strip_plain [OF this assms(4), of None]
  have st: "stripComment (replicate k (CHR '' '') @ w @ v) = replicate k (CHR '' '') @ w @ v"
    by (simp add: stripComment_def)
  have l: "last (replicate k (CHR '' '') @ w @ v) = last (w @ v)" using assms(2) by simp
  have nr: "last (w @ v) \<noteq> RET" using assms(5) by (auto simp: isspace_def)
  have h: "hd (w @ v) = hd w" "hd w \<noteq> CHR '' ''" "hd w \<noteq> TAB"
    using assms(2,3) by (auto simp: isspace_def)
  have tw: "takeWhile (\<lambda>c. c = CHR '' '') (replicate k (CHR '' '') @ w @ v) = replicate k (CHR '' '')"
  proof -
    obtain c w' where "w = c # w'" "c \<noteq> CHR '' ''" using assms(2) h(2) by (cases w) auto
    then show ?thesis by (induction k) auto
  qed
  have "trim (w @ v) = w @ v" unfolding trim_def using assms(2,3,5) by (intro trim_by_id) auto
  moreover have "w @ v \<noteq> []" using assms(2) by simp
  moreover define raw where "raw = replicate k (CHR '' '') @ w @ v"
  have raw: "stripComment raw = raw" "\<not> (raw \<noteq> [] \<and> last raw = RET)"
    "takeWhile (\<lambda>c. c = CHR '' '') raw = replicate k (CHR '' '')" "drop k raw = w @ v"
    using st l nr tw unfolding raw_def by simp_all
  ultimately show ?thesis using h
    unfolding raw_def [symmetric] tokenize_line_def raw(1) Let_def if_not_P [OF raw(2)] raw(3) length_replicate raw(4)
    by simp
qed

lemma parseField_written:
  assumes "CHR '':'' \<notin> set k" "k \<noteq> []" "\<forall>c \<in> set k. \<not> isspace c" "trim v = v"
  shows "parseField (k @ '': '' @ v) = Inr \<lparr>key = k, fvalue = v\<rparr>"
proof -
  have "takeWhile (\<lambda>c. c \<noteq> CHR '':'') (k @ '': '' @ v) = k" using assms(1) by (subst takeWhile_append2) auto
  then have "find_char (CHR '':'') (k @ '': '' @ v) = Some (length k)" by (simp add: find_char_def find_if_def)
  moreover have "trim k = k" unfolding trim_def using assms(2,3) by (intro trim_by_id) auto
  moreover have "\<not> contains_any [CHR '' '', TAB] k" using assms(3) by (auto simp: contains_any_def isspace_def)
  moreover have "trim ('' '' @ v) = v" using trim_space_front [of "CHR '' ''" v] assms(4) by simp
  ultimately show ?thesis using assms(2) by (simp add: parseField_def)
qed

lemma parseField_section: "parseField ''stages:'' = Inr \<lparr>key = ''stages'', fvalue = []\<rparr>"
  "parseField ''edges:'' = Inr \<lparr>key = ''edges'', fvalue = []\<rparr>"
  by code_simp+

abbreviation ln :: "nat \<Rightarrow> string \<Rightarrow> line" where
  "ln k t \<equiv> \<lparr>indent = k, ltext = t\<rparr>"

definition stage_doc :: "stage \<Rightarrow> line list" where
  "stage_doc s = [ln 2 (''- id: '' @ quote_dq (stage_id s)),
     ln 4 (''run: ['' @ run_list (stage_argv s) @ '']''), ln 4 (''at: '' @ quote_dq (placement s))]"

definition edge_doc :: "edge \<Rightarrow> line list" where
  "edge_doc e = [ln 2 (''- from: '' @ quote_dq (efrom e)), ln 4 (''to: '' @ quote_dq (eto e))]"

definition doc_lines :: "pipeline \<Rightarrow> line list" where
  "doc_lines p = ln 0 ''stages:'' # concat (map stage_doc (stages p)) @
     ln 0 ''edges:'' # concat (map edge_doc (edges p))"

lemma tokenize_stage: "tokenize_all (stage_lines s) = Inr (stage_doc s)"
  using tokenize_written [of "''- id: ''" "quote_dq (stage_id s)" 2]
    tokenize_written [of "''run: ''" "CHR ''['' # run_list (stage_argv s) @ '']''" 4]
    tokenize_written [of "''at: ''" "quote_dq (placement s)" 4]
  by (simp add: stage_lines_def stage_doc_def plain_text_def isspace_def numeral_eq_Suc)

lemma tokenize_edge: "tokenize_all (edge_lines e) = Inr (edge_doc e)"
  using tokenize_written [of "''- from: ''" "quote_dq (efrom e)" 2]
    tokenize_written [of "''to: ''" "quote_dq (eto e)" 4]
  by (simp add: edge_lines_def edge_doc_def plain_text_def isspace_def numeral_eq_Suc)

lemma tokenize_all_append:
  "tokenize_all xs = Inr a \<Longrightarrow> tokenize_all ys = Inr b \<Longrightarrow> tokenize_all (xs @ ys) = Inr (a @ b)"
  by (induction xs arbitrary: a) (auto split: sum.splits)

lemma tokenize_concat: "(\<And>x. tokenize_all (f x) = Inr (g x)) \<Longrightarrow> tokenize_all (concat (map f xs)) = Inr (concat (map g xs))"
  by (induction xs) (auto intro: tokenize_all_append)

lemma tokenize_doc: "tokenize_all (yaml_lines p) = Inr (doc_lines p)"
proof -
  have s: "tokenize_all [''stages:''] = Inr [ln 0 ''stages:'']" "tokenize_all [''edges:''] = Inr [ln 0 ''edges:'']"
    using tokenize_written [of "''stages:''" "[]" 0] tokenize_written [of "''edges:''" "[]" 0]
    by (simp_all add: plain_text_def isspace_def)
  show ?thesis
    unfolding yaml_lines_def doc_lines_def
    using tokenize_all_append [OF s(1) tokenize_all_append [OF tokenize_concat [OF tokenize_stage]
          tokenize_all_append [OF s(2) tokenize_concat [OF tokenize_edge]]]]
    by simp
qed

text \<open>The next line, if any, starts a new item or section.\<close>

definition item_end :: "line list \<Rightarrow> bool" where
  "item_end ls \<longleftrightarrow> ls = [] \<or> indent (hd ls) \<le> 2"

lemma item_fields_end: "item_end ls \<Longrightarrow> item_fields ls = Inr ([], ls)"
  by (cases ls) (auto simp: item_end_def)

lemma read_stage:
  assumes "writable (stage_id s)" "writable (placement s)" "stage_argv s \<noteq> []" "\<forall>a \<in> set (stage_argv s). writable a"
    "item_end rest"
  shows "section_items True p (stage_doc s @ rest) = section_items True (p\<lparr>stages := stages p @ [s]\<rparr>) rest"
proof -
  have a: "parseArgv (''['' @ run_list (stage_argv s) @ '']'') = Inr (stage_argv s)"
    using assms(3,4) by (intro parseArgv_list) (auto simp: writable_def)
  have tr: "trim (''['' @ run_list (stage_argv s) @ '']'') = ''['' @ run_list (stage_argv s) @ '']''"
    unfolding trim_def by (rule trim_by_id) simp_all
  have f: "parseField (''id: '' @ quote_dq (stage_id s)) = Inr \<lparr>key = ''id'', fvalue = quote_dq (stage_id s)\<rparr>"
    "parseField (''run: '' @ ''['' @ run_list (stage_argv s) @ '']'') =
       Inr \<lparr>key = ''run'', fvalue = ''['' @ run_list (stage_argv s) @ '']''\<rparr>"
    "parseField (''at: '' @ quote_dq (placement s)) = Inr \<lparr>key = ''at'', fvalue = quote_dq (placement s)\<rparr>"
    using parseField_written [of "''id''" "quote_dq (stage_id s)"] parseField_written [of "''run''", OF _ _ _ tr]
      parseField_written [of "''at''" "quote_dq (placement s)"]
    by (simp_all add: isspace_def)
  have sc: "parseScalar (quote_dq (stage_id s)) = Inr \<lparr>svalue = stage_id s, quoted = True\<rparr>"
    "parseScalar (quote_dq (placement s)) = Inr \<lparr>svalue = placement s, quoted = True\<rparr>"
    using assms(1,2) by (simp_all add: writable_def parseScalar_quote)
  show ?thesis
    using f sc a item_fields_end [OF assms(5)]
    by (cases s) (simp add: stage_doc_def section_items.simps(2) starts_with_def add_item_def empty_stage_def)
qed

lemma read_edge:
  assumes "writable (efrom e)" "writable (eto e)" "item_end rest"
  shows "section_items False p (edge_doc e @ rest) = section_items False (p\<lparr>edges := edges p @ [e]\<rparr>) rest"
proof -
  have f: "parseField (''from: '' @ quote_dq (efrom e)) = Inr \<lparr>key = ''from'', fvalue = quote_dq (efrom e)\<rparr>"
    "parseField (''to: '' @ quote_dq (eto e)) = Inr \<lparr>key = ''to'', fvalue = quote_dq (eto e)\<rparr>"
    using parseField_written [of "''from''" "quote_dq (efrom e)"] parseField_written [of "''to''" "quote_dq (eto e)"]
    by (simp_all add: isspace_def)
  have sc: "parseScalar (quote_dq (efrom e)) = Inr \<lparr>svalue = efrom e, quoted = True\<rparr>"
    "parseScalar (quote_dq (eto e)) = Inr \<lparr>svalue = eto e, quoted = True\<rparr>"
    using assms(1,2) by (simp_all add: writable_def parseScalar_quote)
  show ?thesis
    using f sc item_fields_end [OF assms(3)]
    by (cases e) (simp add: edge_doc_def section_items.simps(2) starts_with_def add_item_def empty_edge_def)
qed

text \<open>All items of a section are read in order, up to the line that starts the next section.\<close>

definition section_end :: "line list \<Rightarrow> bool" where
  "section_end ls \<longleftrightarrow> ls = [] \<or> indent (hd ls) = 0"

lemma section_stops: "section_end ls \<Longrightarrow> section_items b p ls = Inr (p, ls)"
  by (cases ls) (auto simp: section_end_def section_items.simps(2))

lemma item_end_stages: "section_end rest \<Longrightarrow> item_end (concat (map stage_doc ss) @ rest)"
  by (cases ss) (auto simp: item_end_def section_end_def stage_doc_def)

lemma item_end_edges: "section_end rest \<Longrightarrow> item_end (concat (map edge_doc es) @ rest)"
  by (cases es) (auto simp: item_end_def section_end_def edge_doc_def)

definition stage_ok :: "stage \<Rightarrow> bool" where
  "stage_ok s \<longleftrightarrow> writable (stage_id s) \<and> writable (placement s) \<and> stage_argv s \<noteq> [] \<and>
     (\<forall>a \<in> set (stage_argv s). writable a)"

lemma read_stages:
  assumes "\<forall>s \<in> set ss. stage_ok s" "section_end rest"
  shows "section_items True p (concat (map stage_doc ss) @ rest) = Inr (p\<lparr>stages := stages p @ ss\<rparr>, rest)"
  using assms
proof (induction ss arbitrary: p)
  case Nil
  then show ?case using section_stops by simp
next
  case (Cons s ss)
  have ok: "stage_ok s" using Cons.prems by simp
  have "section_items True p (stage_doc s @ concat (map stage_doc ss) @ rest) =
      section_items True (p\<lparr>stages := stages p @ [s]\<rparr>) (concat (map stage_doc ss) @ rest)"
    using ok item_end_stages [OF Cons.prems(2)] unfolding stage_ok_def by (intro read_stage) blast+
  then show ?case using Cons by simp
qed

lemma read_edges:
  assumes "\<forall>e \<in> set es. writable (efrom e) \<and> writable (eto e)" "section_end rest"
  shows "section_items False p (concat (map edge_doc es) @ rest) = Inr (p\<lparr>edges := edges p @ es\<rparr>, rest)"
  using assms
proof (induction es arbitrary: p)
  case Nil
  then show ?case using section_stops by simp
next
  case (Cons e es)
  have "section_items False p (edge_doc e @ concat (map edge_doc es) @ rest) =
      section_items False (p\<lparr>edges := edges p @ [e]\<rparr>) (concat (map edge_doc es) @ rest)"
    using Cons.prems item_end_edges [OF Cons.prems(2)] by (intro read_edge) simp_all
  then show ?case using Cons by simp
qed

lemma read_doc:
  assumes "\<forall>s \<in> set (stages p). stage_ok s" "\<forall>e \<in> set (edges p). writable (efrom e) \<and> writable (eto e)"
  shows "parse_sections \<lparr>stages = [], edges = []\<rparr> False False (doc_lines p) = Inr (p, True)"
proof -
  define es where "es = concat (map edge_doc (edges p))"
  have e: "section_items False q es = Inr (q\<lparr>edges := edges q @ edges p\<rparr>, [])" for q
    using read_edges [OF assms(2), of "[]" q] by (simp add: section_end_def es_def)
  have s: "section_items True q (concat (map stage_doc (stages p)) @ ln 0 ''edges:'' # es) =
      Inr (q\<lparr>stages := stages q @ stages p\<rparr>, ln 0 ''edges:'' # es)" for q
    using read_stages [OF assms(1), of "ln 0 ''edges:'' # es"] by (simp add: section_end_def)
  show ?thesis unfolding doc_lines_def es_def [symmetric]
    by (simp add: parse_sections.simps(2) parseField_section s e)
qed

lemma quote_no_NL: "writable s \<Longrightarrow> NL \<notin> set (quote_dq s)"
  by (auto simp: writable_def quote_dq_def escape_def)

lemma run_list_no_NL: "\<forall>a \<in> set as. writable a \<Longrightarrow> NL \<notin> set (run_list as)"
  by (induction as rule: run_list.induct) (auto simp: quote_no_NL)

lemma yaml_lines_no_NL:
  assumes "\<forall>s \<in> set (stages p). stage_ok s" "\<forall>e \<in> set (edges p). writable (efrom e) \<and> writable (eto e)"
  shows "\<forall>l \<in> set (yaml_lines p). NL \<notin> set l"
proof -
  have "\<forall>l \<in> set (stage_lines s). NL \<notin> set l" if "stage_ok s" for s
    using that by (simp add: stage_lines_def stage_ok_def quote_no_NL run_list_no_NL)
  moreover have "\<forall>l \<in> set (edge_lines e). NL \<notin> set l" if "writable (efrom e)" "writable (eto e)" for e
    using that by (simp add: edge_lines_def quote_no_NL)
  ultimately show ?thesis using assms by (simp add: yaml_lines_def) blast
qed

text \<open>
  C28: A pipeline written as YAML with double-quoted scalars is loaded as it was: for every well-formed
  acyclic pipeline whose names, arguments and placements are non-empty one-line texts (whatever quotes,
  backslashes, \<open>#\<close>, colons or commas they contain) the loader returns exactly that pipeline.
\<close>

theorem yaml_roundtrip:
  assumes "printable p" "well_formed p" "acyclic (deps p)"
  shows "loadPipelineYaml (render_yaml p) = Some (Inr p)"
proof -
  have s: "\<forall>s \<in> set (stages p). stage_ok s" using assms(1,2) by (auto simp: printable_def well_formed_def stage_ok_def)
  have e: "\<forall>e \<in> set (edges p). writable (efrom e) \<and> writable (eto e)" using assms(1) by (simp add: printable_def)
  have "split_on NL (render_yaml p) = yaml_lines p"
    unfolding render_yaml_def by (rule split_unlines [OF yaml_lines_no_NL [OF s e]]) (simp add: yaml_lines_def)
  then have t: "tokenizeLines (render_yaml p) = Inr (doc_lines p)" by (simp add: tokenizeLines_def tokenize_doc)
  obtain r where r: "plan p = Some r" "plan_spec p r" using plan_ok by blast
  then obtain order where "r = Inr order" using assms(2,3) by (cases r) (auto simp: plan_spec_def)
  then show ?thesis using r(1) read_doc [OF s e] by (simp add: loadPipelineYaml_def t parseDocument_def)
qed

text \<open>
  C29: The loader returns on every input text, and what it accepts can be planned: the loaded pipeline has
  stages, distinct stage names, a command for every stage and no edge to an unknown stage, and its
  edges form no cycle.
\<close>

theorem yaml_accepts_only_plannable:
  "\<exists>r. loadPipelineYaml yaml = Some r \<and> (case r of Inl _ \<Rightarrow> True | Inr p \<Rightarrow> well_formed p \<and> acyclic (deps p))"
proof -
  have "\<exists>r. parseDocument ls = Some r \<and> (case r of Inl _ \<Rightarrow> True | Inr p \<Rightarrow> well_formed p \<and> acyclic (deps p))" for ls
  proof (cases "parse_sections \<lparr>stages = [], edges = []\<rparr> False False ls")
    case (Inl e)
    then show ?thesis by (simp add: parseDocument_def)
  next
    case (Inr ps)
    obtain p saw where ps: "ps = (p, saw)" by (cases ps)
    obtain r where r: "plan p = Some r" "plan_spec p r" using plan_ok by blast
    show ?thesis using Inr ps r by (cases r) (auto simp: parseDocument_def plan_spec_def)
  qed
  then show ?thesis by (cases "tokenizeLines yaml") (auto simp: loadPipelineYaml_def)
qed

definition sample_pipeline :: pipeline where
  "sample_pipeline = \<lparr>stages = [\<lparr>stage_id = ''gen'', stage_argv = [''seq'', ''10''], placement = ''local''\<rparr>,
      \<lparr>stage_id = ''sum # 1'', stage_argv = [''awk'', ''{s+=$1, n++}''], placement = ''all''\<rparr>],
     edges = [\<lparr>efrom = ''gen'', eto = ''sum # 1''\<rparr>]\<rparr>"

lemma sample_pipeline_ok: "printable sample_pipeline" "well_formed sample_pipeline" "acyclic (deps sample_pipeline)"
proof -
  show "printable sample_pipeline" by (simp add: sample_pipeline_def printable_def writable_def)
  show "well_formed sample_pipeline" by (simp add: sample_pipeline_def well_formed_def ids_def)
  have "topological (deps sample_pipeline) [''gen'', ''sum # 1'']"
    by (simp add: sample_pipeline_def deps_def topological_def before_def) (rule exI [of _ "[]"], rule exI [of _ "[]"], simp)
  then show "acyclic (deps sample_pipeline)" by (rule topological_acyclic) simp
qed

theorem yaml_roundtrip_witness: "loadPipelineYaml (render_yaml sample_pipeline) = Some (Inr sample_pipeline)"
  using yaml_roundtrip [OF sample_pipeline_ok] .

end
