(* ===== verification/Policy.thy ===== *)
theory Policy
  imports Text
begin

text \<open>
  \<open>psx::policy::Policy\<close> (\<open>include/psx/policy/policy.hpp\<close>, \<open>src/policy/policy.cpp\<close>): the optional
  command policy of a run.  A policy file written from directives is parsed, and the parsed policy
  permits exactly the commands the directives describe.
\<close>

record policy =
  allowed :: "string set"
  maxArgs :: "nat option"
  allowShellMetacharacters :: bool

definition Policy :: policy where
  "Policy = \<lparr>allowed = {}, maxArgs = None, allowShellMetacharacters = False\<rparr>"

definition policy_empty :: "policy \<Rightarrow> bool" where
  "policy_empty p \<longleftrightarrow> allowed p = {} \<and> maxArgs p = None"

definition shell_chars :: string where
  "shell_chars = '';|&$`<>'' @ [BSL]"

definition hasShellMetacharacter :: "string \<Rightarrow> bool" where
  "hasShellMetacharacter = contains_any shell_chars"

definition policy_fail :: "nat \<Rightarrow> string \<Rightarrow> 'a thrown" where
  "policy_fail n message = Inl (''policy: line '' @ to_string n @ '': '' @ message)"

text \<open>One line of the policy text, with its number.\<close>

definition policy_line :: "policy \<Rightarrow> nat \<Rightarrow> string \<Rightarrow> policy thrown" where
  "policy_line p n raw =
     (let line = trim_ws raw in
      if line = [] \<or> hd line = CHR ''#'' \<or> hd line = CHR '';'' then Inr p
      else
        let space = find_if (\<lambda>c. c = CHR '' '' \<or> c = TAB) line;
            directive = (case space of None \<Rightarrow> line | Some k \<Rightarrow> take k line);
            argument = (case space of None \<Rightarrow> [] | Some k \<Rightarrow> trim_ws (drop k line))
        in if directive = ''allow'' then
             if argument = [] then policy_fail n ''allow needs a command name''
             else Inr (p\<lparr>allowed := insert argument (allowed p)\<rparr>)
           else if directive = ''max-args'' then
             (case from_chars 64 argument of
                None \<Rightarrow> policy_fail n ''max-args needs a non-negative integer''
              | Some value \<Rightarrow> Inr (p\<lparr>maxArgs := Some value\<rparr>))
           else if directive = ''allow-shell-metacharacters'' then
             Inr (p\<lparr>allowShellMetacharacters := True\<rparr>)
           else policy_fail n (''unknown directive '' @ [SQ] @ directive @ [SQ]))"

fun policy_lines :: "policy \<Rightarrow> nat \<Rightarrow> string list \<Rightarrow> policy thrown" where
  "policy_lines p n [] = Inr p"
| "policy_lines p n (raw # raws) =
     (case policy_line p n raw of Inl e \<Rightarrow> Inl e | Inr p' \<Rightarrow> policy_lines p' (n + 1) raws)"

definition policy_parse :: "string \<Rightarrow> policy thrown" where
  "policy_parse text = policy_lines Policy 1 (split_on NL text)"

text \<open>The file is an argument: its content, or \<^const>\<open>None\<close> when it cannot be opened.\<close>

definition policy_loadFromFile :: "(string \<Rightarrow> string option) \<Rightarrow> string \<Rightarrow> policy thrown" where
  "policy_loadFromFile files path =
     (case files path of None \<Rightarrow> Inl (''policy: cannot open '' @ [SQ] @ path @ [SQ]) | Some text \<Rightarrow> policy_parse text)"

definition policy_validate :: "policy \<Rightarrow> string list \<Rightarrow> string option" where
  "policy_validate p argv =
     (case argv of [] \<Rightarrow> Some ''empty command''
      | command # _ \<Rightarrow>
        if allowed p \<noteq> {} \<and> CHR ''/'' \<in> set command then
          Some (''explicit paths are not allowed by the policy: '' @ [SQ] @ command @ [SQ])
        else if allowed p \<noteq> {} \<and> command \<notin> allowed p then
          Some (''command '' @ [SQ] @ command @ [SQ] @ '' is not allowed by the policy'')
        else if maxArgs p \<noteq> None \<and> length argv > the (maxArgs p) then
          Some (''too many arguments ('' @ to_string (length argv) @ '' > '' @ to_string (the (maxArgs p)) @ '')'')
        else if \<not> allowShellMetacharacters p then
          map_option (\<lambda>t. ''argument contains an unsafe shell metacharacter: '' @ [SQ] @ t @ [SQ])
            (find hasShellMetacharacter argv)
        else None)"

subsection \<open>Directives\<close>

datatype directive = Allow string | MaxArgs nat | AllowShell

fun directive_text :: "directive \<Rightarrow> string" where
  "directive_text (Allow name) = ''allow '' @ name"
| "directive_text (MaxArgs n) = ''max-args '' @ to_string n"
| "directive_text AllowShell = ''allow-shell-metacharacters''"

fun directive_ok :: "directive \<Rightarrow> bool" where
  "directive_ok (Allow name) \<longleftrightarrow> name \<noteq> [] \<and> NL \<notin> set name \<and> \<not> is_blank (hd name) \<and> \<not> is_blank (last name)"
| "directive_ok (MaxArgs n) \<longleftrightarrow> n < 2 ^ 64"
| "directive_ok AllowShell \<longleftrightarrow> True"

text \<open>What a list of directives permits; the last maximum counts.\<close>

definition names :: "directive list \<Rightarrow> string set" where
  "names ds = {name. Allow name \<in> set ds}"

fun limit :: "directive list \<Rightarrow> nat option" where
  "limit [] = None"
| "limit (d # ds) = (case limit ds of Some m \<Rightarrow> Some m | None \<Rightarrow> (case d of MaxArgs n \<Rightarrow> Some n | _ \<Rightarrow> None))"

definition permits :: "directive list \<Rightarrow> string list \<Rightarrow> bool" where
  "permits ds argv \<longleftrightarrow> argv \<noteq> [] \<and>
     (names ds = {} \<or> hd argv \<in> names ds \<and> CHR ''/'' \<notin> set (hd argv)) \<and>
     (case limit ds of None \<Rightarrow> True | Some m \<Rightarrow> length argv \<le> m) \<and>
     (AllowShell \<in> set ds \<or> (\<forall>t \<in> set argv. set t \<inter> set shell_chars = {}))"

definition of_directives :: "policy \<Rightarrow> directive list \<Rightarrow> policy" where
  "of_directives p ds = \<lparr>allowed = allowed p \<union> names ds,
     maxArgs = (case limit ds of None \<Rightarrow> maxArgs p | Some m \<Rightarrow> Some m),
     allowShellMetacharacters = (allowShellMetacharacters p \<or> AllowShell \<in> set ds)\<rparr>"

subsection \<open>Parsing\<close>

lemma trim_written: "k \<noteq> [] \<Longrightarrow> \<not> is_blank (hd k) \<Longrightarrow> a \<noteq> [] \<Longrightarrow> \<not> is_blank (last a) \<Longrightarrow> trim_ws (k @ a) = k @ a"
  by (rule trim_ws_id) simp_all

lemma blank_simps: "\<not> is_blank (CHR ''a'')" "\<not> is_blank (CHR ''m'')" "\<not> is_blank (CHR ''s'')" "is_blank (CHR '' '')"
  by (simp_all add: is_blank_def)

lemma to_string_ends: "\<not> is_blank (hd (to_string n))" "\<not> is_blank (last (to_string n))"
  using digit_not_blank [OF to_string_digits] hd_in_set [OF to_string_not_empty] last_in_set [OF to_string_not_empty]
  by blast+

lemma line_allow:
  assumes "directive_ok (Allow name)"
  shows "policy_line p n (directive_text (Allow name)) = Inr (p\<lparr>allowed := insert name (allowed p)\<rparr>)"
proof -
  have t: "trim_ws (''allow '' @ name) = ''allow '' @ name"
    using assms by (intro trim_written) (simp_all add: blank_simps)
  have f: "find_if (\<lambda>c. c = CHR '' '' \<or> c = TAB) (''allow '' @ name) = Some (length ''allow'')"
    using find_if_append [of "''allow''" "\<lambda>c. c = CHR '' '' \<or> c = TAB" "CHR '' ''" name] by simp
  have a: "trim_ws (CHR '' '' # name) = name" using assms by (simp add: trim_ws_front blank_simps trim_ws_id)
  show ?thesis using t f a assms by (simp add: policy_line_def)
qed

lemma line_max:
  assumes "m < 2 ^ 64"
  shows "policy_line p n (directive_text (MaxArgs m)) = Inr (p\<lparr>maxArgs := Some m\<rparr>)"
proof -
  have t: "trim_ws (''max-args '' @ to_string m) = ''max-args '' @ to_string m"
    by (intro trim_written) (simp_all add: blank_simps to_string_ends)
  have f: "find_if (\<lambda>c. c = CHR '' '' \<or> c = TAB) (''max-args '' @ to_string m) = Some (length ''max-args'')"
    using find_if_append [of "''max-args''" "\<lambda>c. c = CHR '' '' \<or> c = TAB" "CHR '' ''" "to_string m"] by simp
  have a: "trim_ws (CHR '' '' # to_string m) = to_string m" by (simp add: trim_ws_front blank_simps trim_ws_id to_string_ends)
  show ?thesis using t f a assms by (simp add: policy_line_def)
qed

lemma line_shell: "policy_line p n (directive_text AllowShell) = Inr (p\<lparr>allowShellMetacharacters := True\<rparr>)"
proof -
  have t: "trim_ws ''allow-shell-metacharacters'' = ''allow-shell-metacharacters''"
    by (rule trim_ws_id) (simp_all add: blank_simps)
  have "find_if (\<lambda>c. c = CHR '' '' \<or> c = TAB) ''allow-shell-metacharacters'' = None" by (simp add: find_if_None)
  then show ?thesis using t by (simp add: policy_line_def)
qed

lemma lines_of_directives:
  "\<forall>d \<in> set ds. directive_ok d \<Longrightarrow> policy_lines p n (map directive_text ds) = Inr (of_directives p ds)"
proof (induction ds arbitrary: p n)
  case Nil
  then show ?case by (cases p) (simp add: of_directives_def names_def)
next
  case (Cons d ds)
  have ok: "directive_ok d" using Cons.prems by simp
  show ?case
  proof (cases d)
    case (Allow name)
    then have "names (d # ds) = insert name (names ds)" by (auto simp: names_def)
    with Allow line_allow [of name p n] ok Cons show ?thesis by (auto simp: of_directives_def split: option.splits)
  next
    case (MaxArgs m)
    then have "names (d # ds) = names ds" by (auto simp: names_def)
    with MaxArgs line_max [of m p n] ok Cons show ?thesis by (auto simp: of_directives_def split: option.splits)
  next
    case AllowShell
    then have "names (d # ds) = names ds" by (auto simp: names_def)
    with AllowShell line_shell [of p n] Cons show ?thesis by (auto simp: of_directives_def split: option.splits)
  qed
qed

lemma directive_no_NL: "directive_ok d \<Longrightarrow> NL \<notin> set (directive_text d)"
  by (cases d) (auto dest: to_string_digits simp: isdigit_def)

lemma metacharacter_iff: "hasShellMetacharacter t \<longleftrightarrow> set t \<inter> set shell_chars \<noteq> {}"
  by (auto simp: hasShellMetacharacter_def contains_any_def)

lemma validate_of_directives: "policy_validate (of_directives Policy ds) argv = None \<longleftrightarrow> permits ds argv"
proof (cases argv)
  case (Cons c args)
  have "find hasShellMetacharacter (c # args) = None \<longleftrightarrow> (\<forall>t \<in> set argv. set t \<inter> set shell_chars = {})"
    unfolding find_None_iff Cons metacharacter_iff by blast
  then show ?thesis
    by (cases "limit ds") (auto simp: Cons policy_validate_def permits_def of_directives_def Policy_def simp del: find.simps)
qed (simp add: policy_validate_def permits_def)

text \<open>
  C39: a policy file is enforced as written: for every list of directives, the text with one directive per
  line is parsed, and the parsed policy permits a command exactly when the directives do: the command
  is one of the allowed names and no path (any command when no name is given), its words respect the
  last maximum, and no word has a shell metacharacter unless the policy allows them.
\<close>

theorem policy_enforced:
  assumes "ds \<noteq> []" "\<forall>d \<in> set ds. directive_ok d"
  shows "\<exists>p. policy_parse (unlines (map directive_text ds)) = Inr p \<and>
    (policy_validate p argv = None \<longleftrightarrow> permits ds argv)"
proof -
  have "split_on NL (unlines (map directive_text ds)) = map directive_text ds"
    using assms directive_no_NL by (intro split_unlines) auto
  then have "policy_parse (unlines (map directive_text ds)) = Inr (of_directives Policy ds)"
    using lines_of_directives [OF assms(2)] by (simp add: policy_parse_def)
  then show ?thesis using validate_of_directives by blast
qed

theorem policy_enforced_witness:
  "\<exists>p. policy_parse (unlines (map directive_text [Allow ''ls'', MaxArgs 3])) = Inr p \<and>
    policy_validate p [''ls'', ''-l''] = None"
proof -
  have "\<forall>d \<in> set [Allow ''ls'', MaxArgs 3]. directive_ok d" by (simp add: is_blank_def)
  moreover have "permits [Allow ''ls'', MaxArgs 3] [''ls'', ''-l'']"
    by (simp add: permits_def names_def shell_chars_def)
  ultimately show ?thesis
    using policy_enforced [of "[Allow ''ls'', MaxArgs 3]" "[''ls'', ''-l'']"] by blast
qed

text \<open>The default policy is not permissive: shell metacharacters are rejected.\<close>

lemma default_policy_guards: "policy_empty Policy \<and> policy_validate Policy [''echo'', ''a;b''] \<noteq> None"
  by (simp add: policy_empty_def Policy_def policy_validate_def hasShellMetacharacter_def contains_any_def shell_chars_def)

end
