(* ===== verification/Client_Config.thy ===== *)
theory Client_Config
  imports Text
begin

text \<open>
  \<open>ClientEntry\<close> and \<open>ClientConfig\<close> (\<open>include/client_config.hpp\<close>, \<open>src/client_config.cpp\<close>): the
  \<open>user@host\<close> and \<open>ssh://\<close> forms of a client, their canonical text, and the client file.  Whatever
  entry the parser accepts is read back from its canonical text, and a loaded file survives being
  saved and loaded again.
\<close>

subsection \<open>Entries\<close>

record client_entry =
  ce_raw :: string
  ce_user :: string
  ce_host :: string
  ce_port :: nat
  identityFile :: string
  password :: string
  knownHostsFile :: string
  expectedSan :: string
  ce_nativePort :: nat
  ce_transport :: string

definition ClientEntry :: client_entry where
  "ClientEntry = \<lparr>ce_raw = [], ce_user = [], ce_host = [], ce_port = 22, identityFile = [], password = [],
     knownHostsFile = [], expectedSan = [], ce_nativePort = 0, ce_transport = ''ssh''\<rparr>"

definition isValidUserChar :: "char \<Rightarrow> bool" where
  "isValidUserChar c \<longleftrightarrow> isalnum c \<or> c = CHR ''_'' \<or> c = CHR ''-'' \<or> c = CHR ''.''"

definition isValidHostChar :: "char \<Rightarrow> bool" where
  "isValidHostChar c \<longleftrightarrow> isalnum c \<or> c = CHR ''.'' \<or> c = CHR ''-'' \<or> c = CHR ''_''"

definition isValidPathChar :: "char \<Rightarrow> bool" where
  "isValidPathChar c \<longleftrightarrow> isalnum c \<or> c = CHR ''/'' \<or> c = CHR ''_'' \<or> c = CHR ''-'' \<or> c = CHR ''.'' \<or> c = CHR ''~''"

definition isValidSanChar :: "char \<Rightarrow> bool" where
  "isValidSanChar c \<longleftrightarrow> isalnum c \<or> c = CHR '':'' \<or> c = CHR ''/'' \<or> c = CHR ''.'' \<or> c = CHR ''-'' \<or>
     c = CHR ''_'' \<or> c = CHR ''~''"

definition splitOnce :: "string \<Rightarrow> char \<Rightarrow> string \<times> string" where
  "splitOnce value separator =
     (case find_char separator value of None \<Rightarrow> (value, [])
      | Some position \<Rightarrow> (take position value, drop (position + 1) value))"

definition parseLegacyEntry :: "string \<Rightarrow> client_entry thrown" where
  "parseLegacyEntry trimmed =
     (case find_char (CHR ''@'') trimmed of
        None \<Rightarrow> Inl ''entry must be in the form user@host''
      | Some atPos \<Rightarrow>
        if atPos = 0 \<or> atPos = length trimmed - 1 then Inl ''entry must be in the form user@host''
        else if CHR ''@'' \<in> set (drop (atPos + 1) trimmed) then Inl (''entry contains multiple '' @ [SQ] @ ''@'' @ [SQ] @ '' separators'')
        else Inr (ClientEntry\<lparr>ce_user := take atPos trimmed, ce_host := drop (atPos + 1) trimmed\<rparr>))"

text \<open>The port of an authority and of \<open>native_port\<close>: every exception inside becomes the given message.\<close>

definition parse_port :: "string \<Rightarrow> string \<Rightarrow> nat thrown" where
  "parse_port message text =
     (case stoul text of None \<Rightarrow> Inl message
      | Some (port, consumed) \<Rightarrow>
        if consumed \<noteq> length text \<or> port = 0 \<or> port > 65535 then Inl message else Inr port)"

definition url_parameter :: "client_entry \<Rightarrow> string \<Rightarrow> client_entry thrown" where
  "url_parameter entry parameter =
     (let (key, value) = splitOnce parameter (CHR ''='') in
      if key = [] then Inl ''unsupported SSH URL query parameter''
      else if key = ''identity'' \<or> key = ''key'' then
        if value = [] then Inl ''identity file path is empty''
        else if \<not> list_all isValidPathChar value then Inl ''identity file contains invalid characters''
        else Inr (entry\<lparr>identityFile := value\<rparr>)
      else if key = ''san'' then
        if value = [] then Inl ''san is empty''
        else if \<not> list_all isValidSanChar value then Inl ''san contains invalid characters''
        else Inr (entry\<lparr>expectedSan := value\<rparr>)
      else if key = ''native_port'' then
        (case parse_port ''invalid native_port'' value of Inl e \<Rightarrow> Inl e
         | Inr port \<Rightarrow> Inr (entry\<lparr>ce_nativePort := port\<rparr>))
      else if key = ''password'' then
        Inl ''passwords are not allowed in client configuration; use interactive prompt''
      else Inl ''unsupported SSH URL query parameter'')"

fun url_parameters :: "client_entry \<Rightarrow> string list \<Rightarrow> client_entry thrown" where
  "url_parameters entry [] = Inr entry"
| "url_parameters entry (p # ps) =
     (case url_parameter entry p of Inl e \<Rightarrow> Inl e | Inr entry' \<Rightarrow> url_parameters entry' ps)"

definition parseUrlEntry :: "string \<Rightarrow> client_entry thrown" where
  "parseUrlEntry trimmed =
     (if \<not> starts_with ''ssh://'' trimmed then Inl ''unsupported URL scheme''
      else
        let remainder = drop (length ''ssh://'') trimmed;
            (authority, query) = splitOnce remainder (CHR ''?'')
        in case parseLegacyEntry authority of Inl e \<Rightarrow> Inl e
          | Inr entry \<Rightarrow>
            let (hostPart, portPart) = splitOnce (ce_host entry) (CHR '':'');
                entry1 = entry\<lparr>ce_host := hostPart\<rparr>;
                ported = (if portPart = [] then Inr entry1
                          else case parse_port ''invalid port'' portPart of Inl e \<Rightarrow> Inl e
                            | Inr port \<Rightarrow> Inr (entry1\<lparr>ce_port := port\<rparr>))
            in case ported of Inl e \<Rightarrow> Inl e
              | Inr entry2 \<Rightarrow> if query = [] then Inr entry2 else url_parameters entry2 (split_on (CHR ''&'') query))"

definition validateEntryFields :: "client_entry \<Rightarrow> unit thrown" where
  "validateEntryFields entry =
     (let user = ce_user entry; host = ce_host entry in
      if user = [] \<or> host = [] then Inl ''entry must include both user and host''
      else if \<not> list_all isValidUserChar user then Inl ''user contains invalid characters''
      else if \<not> list_all isValidHostChar host then Inl ''host contains invalid characters''
      else if hd host = CHR ''.'' \<or> last host = CHR ''.'' \<or> hd host = CHR ''-'' \<or> last host = CHR ''-''
        then Inl ''host has an invalid boundary character''
      else Inr ())"

definition sshTarget :: "client_entry \<Rightarrow> string" where
  "sshTarget e = (if ce_user e = [] then ce_host e else ce_user e @ ''@'' @ ce_host e)"

definition clientId :: "client_entry \<Rightarrow> string" where
  "clientId e = (if ce_port e = 22 then sshTarget e else sshTarget e @ '':'' @ to_string (ce_port e))"

fun join_with :: "string \<Rightarrow> string list \<Rightarrow> string" where
  "join_with sep [] = []"
| "join_with sep [x] = x"
| "join_with sep (x # xs) = x @ sep @ join_with sep xs"

definition query_parameters :: "client_entry \<Rightarrow> string list" where
  "query_parameters e =
     (if identityFile e \<noteq> [] then [''identity='' @ identityFile e] else []) @
     (if expectedSan e \<noteq> [] then [''san='' @ expectedSan e] else []) @
     (if ce_nativePort e \<noteq> 0 then [''native_port='' @ to_string (ce_nativePort e)] else [])"

definition ce_serialize :: "client_entry \<Rightarrow> string" where
  "ce_serialize e =
     (if ce_port e = 22 \<and> identityFile e = [] \<and> expectedSan e = [] \<and> ce_nativePort e = 0
      then ce_user e @ ''@'' @ ce_host e
      else ''ssh://'' @ ce_user e @ ''@'' @ ce_host e @
        (if ce_port e \<noteq> 22 then '':'' @ to_string (ce_port e) else []) @
        (if query_parameters e \<noteq> [] then ''?'' @ join_with ''&'' (query_parameters e) else []))"

definition parseEntry :: "string \<Rightarrow> client_entry thrown" where
  "parseEntry line =
     (let trimmed = trim line in
      if trimmed = [] then Inl ''entry is empty''
      else case (if starts_with ''ssh://'' trimmed then parseUrlEntry trimmed else parseLegacyEntry trimmed) of
          Inl e \<Rightarrow> Inl e
        | Inr entry \<Rightarrow> (case validateEntryFields entry of Inl e \<Rightarrow> Inl e
            | Inr _ \<Rightarrow> Inr (entry\<lparr>ce_raw := ce_serialize entry\<rparr>)))"

definition isValidEntry :: "string \<Rightarrow> bool" where
  "isValidEntry line \<longleftrightarrow> \<not> isl (parseEntry line)"

subsection \<open>The client file\<close>

text \<open>
  \<open>knownHostsPathFor\<close> asks the file system for the absolute path; it is the argument \<open>kh\<close>.  The files are
  a map from paths to contents.
\<close>

record client_config =
  inventoryPath :: string
  clients :: "client_entry list"

definition makeEntry :: "(string \<Rightarrow> string) \<Rightarrow> client_config \<Rightarrow> string \<Rightarrow> client_entry thrown" where
  "makeEntry kh c specification =
     (case parseEntry specification of Inl e \<Rightarrow> Inl e
      | Inr entry \<Rightarrow> Inr (if inventoryPath c \<noteq> [] then entry\<lparr>knownHostsFile := kh (inventoryPath c)\<rparr> else entry))"

text \<open>\<open>std::getline\<close>: the lines of a text; a final newline starts no further line.\<close>

definition getlines :: "string \<Rightarrow> string list" where
  "getlines text = (let ls = split_on NL text in if last ls = [] then butlast ls else ls)"

fun load_lines :: "string \<Rightarrow> nat \<Rightarrow> string set \<Rightarrow> string list \<Rightarrow> client_entry list thrown" where
  "load_lines known n seen [] = Inr []"
| "load_lines known n seen (l # ls) =
     (let trimmed = trim l in
      if trimmed = [] \<or> hd trimmed = CHR ''#'' then load_lines known (n + 1) seen ls
      else case parseEntry trimmed of
          Inl what \<Rightarrow> Inl (''Invalid client entry at line '' @ to_string n @ '': '' @ what)
        | Inr entry \<Rightarrow>
          if clientId entry \<in> seen then
            Inl (''Duplicate client entry at line '' @ to_string n @ '': '' @ clientId entry)
          else case load_lines known (n + 1) (insert (clientId entry) seen) ls of Inl e \<Rightarrow> Inl e
            | Inr es \<Rightarrow> Inr (entry\<lparr>knownHostsFile := known\<rparr> # es))"

definition cc_loadFromFile :: "(string \<Rightarrow> string) \<Rightarrow> (string \<rightharpoonup> string) \<Rightarrow> client_config \<Rightarrow> string \<Rightarrow> client_config \<times> unit thrown" where
  "cc_loadFromFile kh files c path =
     (case files path of
        None \<Rightarrow> (c, Inl (''Failed to open client configuration file: '' @ path))
      | Some text \<Rightarrow>
        let c1 = c\<lparr>inventoryPath := path\<rparr> in
        case load_lines (kh path) 1 {} (getlines text) of Inl e \<Rightarrow> (c1, Inl e)
        | Inr es \<Rightarrow> (c1\<lparr>clients := es\<rparr>, Inr ()))"

definition saveToFile :: "client_config \<Rightarrow> (string \<rightharpoonup> string) \<Rightarrow> string \<Rightarrow> (string \<rightharpoonup> string)" where
  "saveToFile c files path = files(path \<mapsto> concat (map (\<lambda>e. ce_serialize e @ [NL]) (clients c)))"

definition setClients :: "client_config \<Rightarrow> client_entry list \<Rightarrow> client_config" where
  "setClients c es = c\<lparr>clients := es\<rparr>"

subsection \<open>What the parser accepts\<close>

definition ce_valid :: "client_entry \<Rightarrow> bool" where
  "ce_valid e \<longleftrightarrow> validateEntryFields e = Inr () \<and> 0 < ce_port e \<and> ce_port e \<le> 65535 \<and>
     list_all isValidPathChar (identityFile e) \<and> list_all isValidSanChar (expectedSan e) \<and>
     ce_nativePort e \<le> 65535 \<and> password e = [] \<and> knownHostsFile e = [] \<and> ce_transport e = ''ssh'' \<and>
     ce_raw e = ce_serialize e"

text \<open>The part of it that the parsing steps maintain.\<close>

definition ce_fields :: "client_entry \<Rightarrow> bool" where
  "ce_fields e \<longleftrightarrow> 0 < ce_port e \<and> ce_port e \<le> 65535 \<and>
     list_all isValidPathChar (identityFile e) \<and> list_all isValidSanChar (expectedSan e) \<and>
     ce_nativePort e \<le> 65535 \<and> password e = [] \<and> knownHostsFile e = [] \<and> ce_transport e = ''ssh''"

lemma ClientEntry_fields: "ce_fields ClientEntry"
  by (simp add: ce_fields_def ClientEntry_def)

lemma legacy_fields: "parseLegacyEntry s = Inr e \<Longrightarrow> ce_fields e"
  using ClientEntry_fields by (auto simp: parseLegacyEntry_def ce_fields_def split: option.splits if_splits)

lemma parse_port_range: "parse_port m s = Inr port \<Longrightarrow> 0 < port \<and> port \<le> 65535"
  by (auto simp: parse_port_def split: option.splits prod.splits if_splits)

lemma url_parameter_fields: "url_parameter e p = Inr e' \<Longrightarrow> ce_fields e \<Longrightarrow> ce_fields e'"
  by (auto simp: url_parameter_def ce_fields_def dest!: parse_port_range split: prod.splits if_splits sum.splits)

lemma url_parameters_fields: "url_parameters e ps = Inr e' \<Longrightarrow> ce_fields e \<Longrightarrow> ce_fields e'"
proof (induction ps arbitrary: e)
  case (Cons p ps)
  then obtain e1 where "url_parameter e p = Inr e1" "url_parameters e1 ps = Inr e'"
    by (auto split: sum.splits)
  with Cons url_parameter_fields show ?case by blast
qed simp

lemma parseUrlEntry_fields: "parseUrlEntry s = Inr e \<Longrightarrow> ce_fields e"
proof -
  assume u: "parseUrlEntry s = Inr e"
  obtain authority query where q: "splitOnce (drop (length ''ssh://'') s) (CHR ''?'') = (authority, query)"
    by (cases "splitOnce (drop (length ''ssh://'') s) (CHR ''?'')")
  then obtain e0 where e0: "parseLegacyEntry authority = Inr e0"
    using u by (auto simp: parseUrlEntry_def split: if_splits sum.splits)
  obtain h pp where h: "splitOnce (ce_host e0) (CHR '':'') = (h, pp)" by (cases "splitOnce (ce_host e0) (CHR '':'')")
  have f0: "ce_fields (e0\<lparr>ce_host := h\<rparr>)" using legacy_fields [OF e0] by (simp add: ce_fields_def)
  have ported: "\<exists>e2. ce_fields e2 \<and> (e = e2 \<or> url_parameters e2 (split_on (CHR ''&'') query) = Inr e)"
  proof (cases "pp = []")
    case True
    then show ?thesis using u q e0 h f0
      by (intro exI [of _ "e0\<lparr>ce_host := h\<rparr>"]) (auto simp: parseUrlEntry_def Let_def split: if_splits sum.splits)
  next
    case False
    then obtain port where port: "parse_port ''invalid port'' pp = Inr port"
      using u q e0 h by (auto simp: parseUrlEntry_def split: if_splits sum.splits)
    have "ce_fields (e0\<lparr>ce_host := h, ce_port := port\<rparr>)"
      using f0 parse_port_range [OF port] by (simp add: ce_fields_def)
    then show ?thesis using u q e0 h False port
      by (intro exI [of _ "e0\<lparr>ce_host := h, ce_port := port\<rparr>"]) (auto simp: parseUrlEntry_def Let_def split: if_splits sum.splits)
  qed
  then show ?thesis using url_parameters_fields by blast
qed

lemma parseEntry_valid: "parseEntry line = Inr e \<Longrightarrow> ce_valid e"
proof -
  assume p: "parseEntry line = Inr e"
  then obtain e0 where e0: "(if starts_with ''ssh://'' (trim line) then parseUrlEntry (trim line)
      else parseLegacyEntry (trim line)) = Inr e0" "validateEntryFields e0 = Inr ()" "e = e0\<lparr>ce_raw := ce_serialize e0\<rparr>"
    by (auto simp: parseEntry_def Let_def split: if_splits sum.splits)
  have "ce_fields e0" using e0(1) legacy_fields parseUrlEntry_fields by (auto split: if_splits)
  then show ?thesis using e0(2,3)
    by (simp add: ce_valid_def ce_fields_def validateEntryFields_def ce_serialize_def query_parameters_def)
qed

subsection \<open>The canonical text is read back\<close>

lemma valid_chars:
  "isValidUserChar c \<Longrightarrow> \<not> isspace c \<and> c \<notin> {CHR ''@'', CHR ''?'', CHR '':'', CHR ''#'', CHR ''&'', NL}"
  "isValidHostChar c \<Longrightarrow> \<not> isspace c \<and> c \<notin> {CHR ''@'', CHR ''?'', CHR '':'', CHR ''#'', CHR ''&'', NL}"
  "isValidPathChar c \<Longrightarrow> \<not> isspace c \<and> c \<notin> {CHR ''&'', NL}"
  "isValidSanChar c \<Longrightarrow> \<not> isspace c \<and> c \<notin> {CHR ''&'', NL}"
  "isdigit c \<Longrightarrow> \<not> isspace c \<and> c \<notin> {CHR ''@'', CHR ''?'', CHR '':'', CHR ''&'', NL}"
  by (auto simp: isValidUserChar_def isValidHostChar_def isValidPathChar_def isValidSanChar_def isalnum_def
      isalpha_def isdigit_def isspace_def)

lemma splitOnce_append: "c \<notin> set a \<Longrightarrow> splitOnce (a @ c # s) c = (a, s)"
  by (simp add: splitOnce_def find_char_append)

lemma splitOnce_none: "c \<notin> set a \<Longrightarrow> splitOnce a c = (a, [])"
  by (simp add: splitOnce_def find_char_None)

lemma parse_port_to_string: "0 < n \<Longrightarrow> n \<le> 65535 \<Longrightarrow> parse_port m (to_string n) = Inr n"
  by (simp add: parse_port_def stoul_to_string)

lemma legacy_written:
  assumes "u \<noteq> []" "h \<noteq> []" "CHR ''@'' \<notin> set u" "CHR ''@'' \<notin> set h"
  shows "parseLegacyEntry (u @ ''@'' @ h) = Inr (ClientEntry\<lparr>ce_user := u, ce_host := h\<rparr>)"
  using assms find_char_append [of "CHR ''@''" u h] by (simp add: parseLegacyEntry_def)

text \<open>Facts on a valid entry, in the form the parsing steps need.\<close>

lemma valid_user_host:
  assumes "ce_valid e"
  shows "ce_user e \<noteq> []" "ce_host e \<noteq> []" "\<forall>c \<in> set (ce_user e). isValidUserChar c"
    "\<forall>c \<in> set (ce_host e). isValidHostChar c"
  using assms by (auto simp: ce_valid_def validateEntryFields_def Let_def list_all_iff split: if_splits)

lemma valid_excludes:
  assumes "ce_valid e" "x \<in> {CHR ''@'', CHR ''?'', CHR '':'', CHR ''#'', CHR ''&'', NL}"
  shows "x \<notin> set (ce_user e)" "x \<notin> set (ce_host e)"
  using assms(2) valid_user_host(3,4) [OF assms(1)] valid_chars(1,2) by blast+

lemma to_string_excludes: "x \<in> {CHR ''@'', CHR ''?'', CHR '':'', CHR ''&'', NL} \<Longrightarrow> x \<notin> set (to_string n)"
  using to_string_digits valid_chars(5) by blast

lemma identity_written:
  "s \<noteq> [] \<Longrightarrow> list_all isValidPathChar s \<Longrightarrow> url_parameter e (''identity='' @ s) = Inr (e\<lparr>identityFile := s\<rparr>)"
  using splitOnce_append [of "CHR ''=''" "''identity''" s] by (simp add: url_parameter_def)

lemma san_written:
  "s \<noteq> [] \<Longrightarrow> list_all isValidSanChar s \<Longrightarrow> url_parameter e (''san='' @ s) = Inr (e\<lparr>expectedSan := s\<rparr>)"
  using splitOnce_append [of "CHR ''=''" "''san''" s] by (simp add: url_parameter_def)

lemma native_port_written:
  "0 < n \<Longrightarrow> n \<le> 65535 \<Longrightarrow> url_parameter e (''native_port='' @ to_string n) = Inr (e\<lparr>ce_nativePort := n\<rparr>)"
  using splitOnce_append [of "CHR ''=''" "''native_port''" "to_string n"]
  by (simp add: url_parameter_def parse_port_to_string)

lemma split_join:
  "xs \<noteq> [] \<Longrightarrow> \<forall>x \<in> set xs. c \<notin> set x \<Longrightarrow> split_on c (join_with [c] xs) = xs"
proof (induction xs rule: induct_list012)
  case (3 x y zs)
  then show ?case using split_on_append [of c x "join_with [c] (y # zs)"] by simp
qed (simp_all add: split_on_none)

lemma last_join: "xs \<noteq> [] \<Longrightarrow> \<forall>x \<in> set xs. x \<noteq> [] \<Longrightarrow> last (join_with sep xs) = last (last xs)"
proof (induction xs rule: induct_list012)
  case (3 x y zs)
  have "join_with sep (y # zs) \<noteq> []" using 3(4) by (cases zs) auto
  with 3 show ?case by simp
qed simp_all

lemma query_excludes:
  assumes "ce_valid e" "p \<in> set (query_parameters e)"
  shows "CHR ''&'' \<notin> set p" "NL \<notin> set p" "p \<noteq> []" "\<not> isspace (last p)"
proof -
  have pc: "\<forall>c \<in> set (identityFile e). isValidPathChar c" "\<forall>c \<in> set (expectedSan e). isValidSanChar c"
    using assms(1) by (simp_all add: ce_valid_def list_all_iff)
  consider "p = ''identity='' @ identityFile e" "identityFile e \<noteq> []" | "p = ''san='' @ expectedSan e" "expectedSan e \<noteq> []"
    | "p = ''native_port='' @ to_string (ce_nativePort e)"
    using assms(2) by (auto simp: query_parameters_def split: if_splits)
  then have "CHR ''&'' \<notin> set p \<and> NL \<notin> set p \<and> p \<noteq> [] \<and> \<not> isspace (last p)"
  proof cases
    case 1
    then show ?thesis using pc(1) valid_chars(3) last_in_set [of "identityFile e"] by auto
  next
    case 2
    then show ?thesis using pc(2) valid_chars(4) last_in_set [of "expectedSan e"] by auto
  next
    case 3
    have "\<not> isspace (last (to_string (ce_nativePort e)))"
      using to_string_digits valid_chars(5) last_in_set [OF to_string_not_empty] by blast
    with 3 show ?thesis
      using to_string_excludes [of "CHR ''&''" "ce_nativePort e"] to_string_excludes [of NL "ce_nativePort e"] by simp
  qed
  then show "CHR ''&'' \<notin> set p" "NL \<notin> set p" "p \<noteq> []" "\<not> isspace (last p)" by blast+
qed

lemmas parameter_written = identity_written [simplified] san_written [simplified] native_port_written [simplified]

lemma parameters_written:
  assumes "ce_valid e"
  shows "url_parameters e0 (query_parameters e) = Inr (e0\<lparr>identityFile := if identityFile e \<noteq> [] then identityFile e else identityFile e0,
     expectedSan := if expectedSan e \<noteq> [] then expectedSan e else expectedSan e0,
     ce_nativePort := if ce_nativePort e \<noteq> 0 then ce_nativePort e else ce_nativePort e0\<rparr>)"
proof -
  have v: "list_all isValidPathChar (identityFile e)" "list_all isValidSanChar (expectedSan e)" "ce_nativePort e \<le> 65535"
    using assms by (simp_all add: ce_valid_def)
  show ?thesis
    using v by (cases "identityFile e = []"; cases "expectedSan e = []"; cases "ce_nativePort e = 0")
      (simp_all add: query_parameters_def parameter_written)
qed

lemma query_written:
  assumes "ce_valid e" "query_parameters e \<noteq> []"
  shows "join_with ''&'' (query_parameters e) \<noteq> []"
    "split_on (CHR ''&'') (join_with ''&'' (query_parameters e)) = query_parameters e"
proof -
  show "split_on (CHR ''&'') (join_with ''&'' (query_parameters e)) = query_parameters e"
    using assms query_excludes(1) by (intro split_join) auto
  then show "join_with ''&'' (query_parameters e) \<noteq> []"
    using query_excludes(3) [OF assms(1)] assms(2) by (metis list.set_intros(1) split_on.simps(1))
qed

lemma serialize_ends:
  assumes "ce_valid e"
  shows "ce_serialize e \<noteq> []" "\<not> isspace (hd (ce_serialize e))" "\<not> isspace (last (ce_serialize e))"
proof -
  note uh = valid_user_host [OF assms]
  show "ce_serialize e \<noteq> []" by (simp add: ce_serialize_def)
  show "\<not> isspace (hd (ce_serialize e))"
    using valid_chars(1) uh(3) hd_in_set [OF uh(1)] uh(1) by (auto simp: ce_serialize_def isspace_def)
  have d: "\<not> isspace (last (to_string (ce_port e)))"
    using to_string_digits valid_chars(5) last_in_set [OF to_string_not_empty] by blast
  have h: "\<not> isspace (last (ce_host e))" using uh valid_chars(2) last_in_set [OF uh(2)] by blast
  show "\<not> isspace (last (ce_serialize e))"
  proof (cases "query_parameters e = []")
    case True
    then show ?thesis using d h uh(2) by (simp add: ce_serialize_def)
  next
    case False
    then have x: "\<not> (ce_port e = 22 \<and> identityFile e = [] \<and> expectedSan e = [] \<and> ce_nativePort e = 0)"
      by (auto simp: query_parameters_def split: if_splits)
    have "last (join_with ''&'' (query_parameters e)) = last (last (query_parameters e))"
      using query_excludes(3) [OF assms] False by (intro last_join) blast+
    then show ?thesis
      using query_written(1) [OF assms False] False query_excludes(4) [OF assms last_in_set [OF False]]
      unfolding ce_serialize_def if_not_P [OF x] by simp
  qed
qed

lemma serialize_trim: "ce_valid e \<Longrightarrow> trim (ce_serialize e) = ce_serialize e"
  unfolding trim_def using serialize_ends by (intro trim_by_id) blast+

lemma serialize_legacy:
  assumes "ce_valid e" "ce_port e = 22" "query_parameters e = []"
  shows "parseEntry (ce_serialize e) = Inr e"
proof -
  let ?t = "ce_user e @ ''@'' @ ce_host e"
  have q: "identityFile e = []" "expectedSan e = []" "ce_nativePort e = 0"
    using assms(3) by (auto simp: query_parameters_def split: if_splits)
  note uh = valid_user_host [OF assms(1)]
  have t: "ce_serialize e = ?t" using assms(2) q by (simp add: ce_serialize_def)
  have tr: "trim ?t = ?t" using serialize_trim [OF assms(1)] t by simp
  have ns: "\<not> starts_with ''ssh://'' ?t"
  proof
    assume "starts_with ''ssh://'' ?t"
    then have "CHR '':'' \<in> set ?t" by (rule starts_with_char) simp
    then show False using valid_excludes [OF assms(1), of "CHR '':''"] by auto
  qed
  have l: "parseLegacyEntry ?t = Inr (ClientEntry\<lparr>ce_user := ce_user e, ce_host := ce_host e\<rparr>)"
    using uh valid_excludes [OF assms(1), of "CHR ''@''"] by (intro legacy_written) simp_all
  define e0 where "e0 = ClientEntry\<lparr>ce_user := ce_user e, ce_host := ce_host e\<rparr>"
  have v: "validateEntryFields e0 = Inr ()"
    using assms(1) by (simp add: ce_valid_def validateEntryFields_def e0_def)
  have "e = e0\<lparr>ce_raw := ?t\<rparr>" using assms(1,2) q t by (simp add: ce_valid_def e0_def ClientEntry_def)
  moreover have "ce_serialize e0 = ?t" using q by (simp add: ce_serialize_def e0_def ClientEntry_def)
  ultimately show ?thesis
    unfolding t parseEntry_def tr using l ns v by (simp add: Let_def e0_def [symmetric])
qed

lemma serialize_url:
  assumes "ce_valid e" "\<not> (ce_port e = 22 \<and> query_parameters e = [])"
  shows "parseEntry (ce_serialize e) = Inr e"
proof -
  define pp where "pp = (if ce_port e \<noteq> 22 then '':'' @ to_string (ce_port e) else [])"
  define qq where "qq = (if query_parameters e \<noteq> [] then ''?'' @ join_with ''&'' (query_parameters e) else [])"
  define auth where "auth = ce_user e @ ''@'' @ ce_host e @ pp"
  have t: "ce_serialize e = ''ssh://'' @ auth @ qq"
    using assms(2) by (auto simp: ce_serialize_def pp_def qq_def auth_def query_parameters_def split: if_splits)
  note uh = valid_user_host [OF assms(1)] and ex = valid_excludes [OF assms(1)]
  have port: "0 < ce_port e" "ce_port e \<le> 65535" using assms(1) by (simp_all add: ce_valid_def)
  have ppx: "x \<in> {CHR ''@'', CHR ''?'', NL} \<Longrightarrow> x \<notin> set pp" for x
    using to_string_excludes by (auto simp: pp_def)
  have q: "splitOnce (auth @ qq) (CHR ''?'') = (auth, tl qq)"
  proof -
    have n: "CHR ''?'' \<notin> set auth" using ex [of "CHR ''?''"] ppx by (simp add: auth_def)
    show ?thesis
      using splitOnce_append [OF n, of "join_with ''&'' (query_parameters e)"] splitOnce_none [OF n] by (simp add: qq_def)
  qed
  define e1 where "e1 = ClientEntry\<lparr>ce_user := ce_user e, ce_host := ce_host e @ pp\<rparr>"
  have l: "parseLegacyEntry auth = Inr e1"
    using legacy_written [of "ce_user e" "ce_host e @ pp"] uh ex [of "CHR ''@''"] ppx by (simp add: auth_def e1_def)
  have h: "splitOnce (ce_host e1) (CHR '':'') = (ce_host e, tl pp)"
    using splitOnce_append [of "CHR '':''" "ce_host e" "to_string (ce_port e)"] splitOnce_none [of "CHR '':''" "ce_host e"]
      ex(2) [of "CHR '':''"] by (simp add: e1_def pp_def)
  define e2 where "e2 = ClientEntry\<lparr>ce_user := ce_user e, ce_host := ce_host e, ce_port := ce_port e\<rparr>"
  have e2: "(if tl pp = [] then Inr (e1\<lparr>ce_host := ce_host e\<rparr>)
      else case parse_port ''invalid port'' (tl pp) of Inl m \<Rightarrow> Inl m
        | Inr port \<Rightarrow> Inr (e1\<lparr>ce_host := ce_host e, ce_port := port\<rparr>)) = (Inr e2 :: client_entry thrown)"
    using parse_port_to_string [OF port] by (simp add: pp_def e1_def e2_def ClientEntry_def)
  define e3 where "e3 = e2\<lparr>identityFile := identityFile e, expectedSan := expectedSan e, ce_nativePort := ce_nativePort e\<rparr>"
  have e3: "(if tl qq = [] then Inr e2 else url_parameters e2 (split_on (CHR ''&'') (tl qq))) = Inr e3"
  proof (cases "query_parameters e = []")
    case True
    then have "identityFile e = []" "expectedSan e = []" "ce_nativePort e = 0"
      by (auto simp: query_parameters_def split: if_splits)
    then show ?thesis using True by (simp add: qq_def e3_def e2_def ClientEntry_def)
  next
    case False
    then have "tl qq = join_with ''&'' (query_parameters e)" by (simp add: qq_def)
    then show ?thesis using query_written [OF assms(1) False] parameters_written [OF assms(1), of e2]
      by (simp add: e3_def e2_def ClientEntry_def)
  qed
  have u: "parseUrlEntry (''ssh://'' @ auth @ qq) = Inr e3"
  proof -
    have d: "drop (length ''ssh://'') (''ssh://'' @ auth @ qq) = auth @ qq" by simp
    have s: "starts_with ''ssh://'' (''ssh://'' @ auth @ qq)" by (simp add: starts_with_def)
    show ?thesis using s l h e2 e3 q unfolding parseUrlEntry_def Let_def d by simp
  qed
  have v: "validateEntryFields e3 = Inr ()"
    using assms(1) by (simp add: ce_valid_def validateEntryFields_def e3_def e2_def)
  have s3: "ce_serialize e3 = ce_serialize e"
    by (simp add: ce_serialize_def query_parameters_def e3_def e2_def)
  have "e = e3\<lparr>ce_raw := ce_serialize e\<rparr>"
    using assms(1) by (simp add: ce_valid_def e3_def e2_def ClientEntry_def)
  moreover have "starts_with ''ssh://'' (ce_serialize e)" unfolding t by (simp add: starts_with_def)
  moreover have "parseUrlEntry (ce_serialize e) = Inr e3" using u t by simp
  moreover obtain T where T: "ce_serialize e = T" by simp
  ultimately show ?thesis
    using serialize_trim [OF assms(1)] serialize_ends(1) [OF assms(1)] v s3 unfolding T by (simp add: parseEntry_def)
qed

lemma serialize_parsed: "ce_valid e \<Longrightarrow> parseEntry (ce_serialize e) = Inr e"
  using serialize_legacy serialize_url by blast

subsection \<open>Saving and loading\<close>

text \<open>The canonical text is one line that the loader does not skip.\<close>

lemma serialize_line:
  assumes "ce_valid e"
  shows "NL \<notin> set (ce_serialize e)" "ce_serialize e \<noteq> []" "trim (ce_serialize e) = ce_serialize e"
    "hd (ce_serialize e) \<noteq> CHR ''#''"
proof -
  note uh = valid_user_host [OF assms] and ex = valid_excludes [OF assms]
  have q: "NL \<notin> set (join_with ''&'' ps)" if "\<forall>p \<in> set ps. NL \<notin> set p" for ps
    using that by (induction ps rule: induct_list012) auto
  show "NL \<notin> set (ce_serialize e)"
    using ex [of NL] to_string_excludes [of NL] q query_excludes(2) [OF assms] by (simp add: ce_serialize_def)
  show "ce_serialize e \<noteq> []" by (simp add: ce_serialize_def)
  have "hd (ce_user e) \<noteq> CHR ''#''" using ex(1) [of "CHR ''#''"] hd_in_set [OF uh(1)] by auto
  then show "hd (ce_serialize e) \<noteq> CHR ''#''" using uh(1) by (simp add: ce_serialize_def)
  show "trim (ce_serialize e) = ce_serialize e" using serialize_trim [OF assms] .
qed

lemma reload_lines:
  assumes "load_lines known n seen ls = Inr es"
  shows "load_lines known m seen (map ce_serialize es) = Inr es"
  using assms
proof (induction ls arbitrary: n m seen es)
  case (Cons l ls)
  show ?case
  proof (cases "trim l = [] \<or> hd (trim l) = CHR ''#''")
    case True
    with Cons show ?thesis by (auto simp: Let_def)
  next
    case False
    then obtain e es' where e: "parseEntry (trim l) = Inr e" "clientId e \<notin> seen"
      "load_lines known (n + 1) (insert (clientId e) seen) ls = Inr es'" "es = e\<lparr>knownHostsFile := known\<rparr> # es'"
      using Cons.prems by (auto simp: Let_def split: sum.splits if_splits)
    have v: "ce_valid e" using parseEntry_valid [OF e(1)] .
    have t: "ce_serialize (e\<lparr>knownHostsFile := known\<rparr>) = ce_serialize e"
      by (simp add: ce_serialize_def query_parameters_def)
    show ?thesis
      using Cons.IH [OF e(3), of "m + 1"] serialize_line [OF v] serialize_parsed [OF v] e(2,4) by (simp add: t)
  qed
qed simp

lemma loaded_no_NL: "load_lines known n seen ls = Inr es \<Longrightarrow> e \<in> set es \<Longrightarrow> NL \<notin> set (ce_serialize e)"
proof (induction ls arbitrary: n seen es)
  case (Cons l ls)
  show ?case
  proof (cases "trim l = [] \<or> hd (trim l) = CHR ''#''")
    case True
    with Cons show ?thesis by (auto simp: Let_def)
  next
    case False
    then obtain e0 es' where e0: "parseEntry (trim l) = Inr e0" "es = e0\<lparr>knownHostsFile := known\<rparr> # es'"
      "load_lines known (n + 1) (insert (clientId e0) seen) ls = Inr es'"
      using Cons.prems by (auto simp: Let_def split: sum.splits if_splits)
    have "ce_serialize (e0\<lparr>knownHostsFile := known\<rparr>) = ce_serialize e0"
      by (simp add: ce_serialize_def query_parameters_def)
    then show ?thesis
      using Cons.IH [OF e0(3)] Cons.prems(2) e0(2) serialize_line(1) [OF parseEntry_valid [OF e0(1)]] by auto
  qed
qed simp

lemma getlines_written: "\<forall>x \<in> set xs. NL \<notin> set x \<Longrightarrow> getlines (concat (map (\<lambda>x. x @ [NL]) xs)) = xs"
proof -
  assume a: "\<forall>x \<in> set xs. NL \<notin> set x"
  then have "split_on NL (concat (map (\<lambda>x. x @ [NL]) xs)) = xs @ [[]]"
    by (induction xs) (simp_all add: split_on_append)
  then show ?thesis by (simp add: getlines_def)
qed

text \<open>
  C31: saving loses nothing: when a client file loads, writing the loaded clients back to it and loading
  it again gives the same configuration.
\<close>

theorem client_file_roundtrip:
  assumes "cc_loadFromFile kh files c path = (c', Inr ())"
  shows "cc_loadFromFile kh (saveToFile c' files path) c path = (c', Inr ())"
proof -
  obtain txt0 es where t: "files path = Some txt0" "load_lines (kh path) 1 {} (getlines txt0) = Inr es"
    "c' = c\<lparr>inventoryPath := path, clients := es\<rparr>"
    using assms by (auto simp: cc_loadFromFile_def Let_def split: option.splits sum.splits)
  have "getlines (concat (map (\<lambda>e. ce_serialize e @ [NL]) es)) = map ce_serialize es"
    using getlines_written [of "map ce_serialize es"] loaded_no_NL [OF t(2)] by (simp add: comp_def)
  then show ?thesis using reload_lines [OF t(2), of 1] t(3) by (simp add: cc_loadFromFile_def saveToFile_def)
qed

theorem client_file_roundtrip_witness:
  "\<exists>c'. cc_loadFromFile (\<lambda>p. p @ ''.known_hosts'') [''clients.txt'' \<mapsto> ''u@h''] \<lparr>inventoryPath = [], clients = []\<rparr> ''clients.txt'' = (c', Inr ()) \<and>
     cc_loadFromFile (\<lambda>p. p @ ''.known_hosts'') (saveToFile c' [''clients.txt'' \<mapsto> ''u@h''] ''clients.txt'')
       \<lparr>inventoryPath = [], clients = []\<rparr> ''clients.txt'' = (c', Inr ())"
proof -
  have "parseEntry ''u@h'' = Inr (ClientEntry\<lparr>ce_raw := ''u@h'', ce_user := ''u'', ce_host := ''h''\<rparr>)" by code_simp
  moreover have "trim ''u@h'' = ''u@h''" by code_simp
  ultimately obtain c' where "cc_loadFromFile (\<lambda>p. p @ ''.known_hosts'') [''clients.txt'' \<mapsto> ''u@h'']
      \<lparr>inventoryPath = [], clients = []\<rparr> ''clients.txt'' = (c', Inr ())"
    by (simp add: cc_loadFromFile_def getlines_def split_on_none)
  with client_file_roundtrip [OF this] show ?thesis by blast
qed

subsection \<open>Properties\<close>

text \<open>
  the canonical text of a client is exact: whatever line the parser accepts, the entry it returns is
  read back from its canonical text unchanged; it has a user and a host of safe characters, ports in
  range, and never a password.
\<close>

theorem client_entry_roundtrip:
  assumes "parseEntry line = Inr e"
  shows "parseEntry (ce_serialize e) = Inr e \<and> ce_valid e \<and> password e = []"
  using serialize_parsed parseEntry_valid [OF assms] by (simp add: ce_valid_def)

lemma sample_entry: "parseEntry '' u@h '' = Inr (ClientEntry\<lparr>ce_raw := ''u@h'', ce_user := ''u'', ce_host := ''h''\<rparr>)"
  by code_simp

theorem client_entry_roundtrip_witness:
  "parseEntry '' u@h '' = Inr (ClientEntry\<lparr>ce_raw := ''u@h'', ce_user := ''u'', ce_host := ''h''\<rparr>) \<and>
   password (ClientEntry\<lparr>ce_raw := ''u@h'', ce_user := ''u'', ce_host := ''h''\<rparr>) = []"
  using client_entry_roundtrip [OF sample_entry] sample_entry by blast

end
