(* ===== verification/Ssh_Auth.thy ===== *)
theory Ssh_Auth
  imports Client_Config
begin

text \<open>
  \<open>src/ssh_auth.cpp\<close>: quoting a command for the remote shell, the \<open>ssh\<close> command line of a client, and the
  classification of \<open>ssh\<close> failures.  Quoting is inverted by the word rules of each shell; the command
  line does not depend on the password.
\<close>

subsection \<open>Failure classes\<close>

definition tolower :: "char \<Rightarrow> char" where
  "tolower c = (if of_char c \<ge> (65 :: nat) \<and> of_char c \<le> (90 :: nat) then char_of (of_char c + 32 :: nat) else c)"

definition toLowerCopy :: "string \<Rightarrow> string" where
  "toLowerCopy = map tolower"

text \<open>\<open>text.find(needle) != npos\<close>.\<close>

definition contains_text :: "string \<Rightarrow> string \<Rightarrow> bool" where
  "contains_text s needle \<longleftrightarrow> list_ex (\<lambda>k. starts_with needle (drop k s)) [0..<length s + 1]"

definition containsAny :: "string \<Rightarrow> string list \<Rightarrow> bool" where
  "containsAny loweredText needles \<longleftrightarrow> list_ex (contains_text loweredText) needles"

definition kHostKeyChangedNeedles :: "string list" where
  "kHostKeyChangedNeedles = [''remote host identification has changed'']"

definition kHostKeyFailedNeedles :: "string list" where
  "kHostKeyFailedNeedles = [''host key verification failed'']"

definition kUnreachableNeedles :: "string list" where
  "kUnreachableNeedles = [''could not resolve hostname'', ''name or service not known'',
     ''temporary failure in name resolution'']"

definition kConnectionNeedles :: "string list" where
  "kConnectionNeedles = [''connection refused'', ''connection timed out'', ''no route to host'',
     ''operation not permitted'', ''connection reset'', ''connection closed'']"

definition kAuthNeedles :: "string list" where
  "kAuthNeedles = [''permission denied'', ''authentication failed'', ''no more authentication methods'']"

definition classifySshFailure :: "string \<Rightarrow> string option" where
  "classifySshFailure stderrText =
     (let lowered = toLowerCopy stderrText in
      if containsAny lowered kHostKeyChangedNeedles then
        Some (''host key changed (possible MITM) '' @ [CHR 0xE2, CHR 0x80, CHR 0x94] @
              '' verify the new key, then clear the old one with ssh-keygen -R'')
      else if containsAny lowered kHostKeyFailedNeedles then Some ''host key verification failed''
      else if containsAny lowered kUnreachableNeedles then Some ''unreachable host''
      else if containsAny lowered kConnectionNeedles then Some ''connection failed''
      else if containsAny lowered kAuthNeedles then Some ''authentication failed''
      else None)"

definition isSshAuthenticationFailure :: "string \<Rightarrow> bool" where
  "isSshAuthenticationFailure stderrText \<longleftrightarrow> containsAny (toLowerCopy stderrText) kAuthNeedles"

definition isSshHostKeyFailure :: "string \<Rightarrow> bool" where
  "isSshHostKeyFailure stderrText \<longleftrightarrow> containsAny (toLowerCopy stderrText) kHostKeyChangedNeedles \<or>
     containsAny (toLowerCopy stderrText) kHostKeyFailedNeedles"

definition isSshHostKeyChanged :: "string \<Rightarrow> bool" where
  "isSshHostKeyChanged stderrText \<longleftrightarrow> containsAny (toLowerCopy stderrText) kHostKeyChangedNeedles"

definition isRetryableSshFailure :: "string \<Rightarrow> bool" where
  "isRetryableSshFailure stderrText \<longleftrightarrow> containsAny (toLowerCopy stderrText) kUnreachableNeedles \<or>
     containsAny (toLowerCopy stderrText) kConnectionNeedles"

subsection \<open>Quoting\<close>

definition quoteSshOptionValue :: "string \<Rightarrow> bool \<Rightarrow> string thrown" where
  "quoteSshOptionValue value escapePercent =
     (if \<exists>c \<in> set value. c = DQ \<or> c = NL \<or> c = RET
      then Inl (''ssh option value contains an unrepresentable character: '' @ value)
      else Inr ([DQ] @ concat (map (\<lambda>c. if c = CHR ''%'' \<and> escapePercent then ''%%'' else [c]) value) @ [DQ]))"

datatype RemoteShell = Posix | Cmd | PowerShell

definition quotePosixArg :: "string \<Rightarrow> string" where
  "quotePosixArg arg = [SQ] @ concat (map (\<lambda>c. if c = SQ then [SQ, BSL, SQ, SQ] else [c]) arg) @ [SQ]"

definition quotePowerShellArg :: "string \<Rightarrow> string" where
  "quotePowerShellArg arg = [SQ] @ concat (map (\<lambda>c. if c = SQ then [SQ, SQ] else [c]) arg) @ [SQ]"

text \<open>The loop of \<open>quoteCmdArg\<close> behind the opening quote.\<close>

function cmd_loop :: "string \<Rightarrow> string" where
  "cmd_loop arg =
     (if arg = [] then []
      else let backslashes = length (takeWhile (\<lambda>c. c = BSL) arg) in
        case drop backslashes arg of
          [] \<Rightarrow> replicate (backslashes * 2) BSL
        | c # cs \<Rightarrow>
          if c = DQ then replicate (backslashes * 2 + 1) BSL @ [DQ] @ cmd_loop cs
          else replicate backslashes BSL @ [c] @ cmd_loop cs)"
  by pat_completeness auto
termination
proof (relation "measure length", simp, goal_cases)
  case (1 arg n c cs)
  have "length (drop n arg) \<le> length arg" by simp
  with 1 show ?case by simp
next
  case (2 arg n c cs)
  have "length (drop n arg) \<le> length arg" by simp
  with 2 show ?case by simp
qed

declare cmd_loop.simps [simp del]

definition quoteCmdArg :: "string \<Rightarrow> string" where
  "quoteCmdArg arg =
     (if arg = [] \<or> contains_any [CHR '' '', TAB, NL, CHR 0x0B, DQ] arg then [DQ] @ cmd_loop arg @ [DQ] else arg)"

fun quote_arg :: "RemoteShell \<Rightarrow> string \<Rightarrow> string" where
  "quote_arg Cmd = quoteCmdArg"
| "quote_arg PowerShell = quotePowerShellArg"
| "quote_arg Posix = quotePosixArg"

definition quoteRemoteCommand :: "string list \<Rightarrow> RemoteShell \<Rightarrow> string" where
  "quoteRemoteCommand argv shell = join_with '' '' (map (quote_arg shell) argv)"

subsection \<open>The command line of ssh\<close>

record ssh_options =
  controlPath :: string
  controlPersistSeconds :: int

definition addOption :: "string list \<Rightarrow> string \<Rightarrow> string list" where
  "addOption args opt = args @ [''-o'', opt]"

definition control_options :: "string list \<Rightarrow> ssh_options \<Rightarrow> string list thrown" where
  "control_options args opts =
     (if controlPath opts = [] then Inr args
      else case quoteSshOptionValue (controlPath opts) False of Inl e \<Rightarrow> Inl e
        | Inr v \<Rightarrow> Inr (addOption (addOption (addOption args ''ControlMaster=auto'')
            (''ControlPersist='' @ int_to_string (controlPersistSeconds opts) @ ''s''))
            (''ControlPath='' @ v)))"

definition known_hosts_option :: "string list \<Rightarrow> client_entry \<Rightarrow> string list thrown" where
  "known_hosts_option args client =
     (if knownHostsFile client = [] then Inr args
      else case quoteSshOptionValue (knownHostsFile client) True of Inl e \<Rightarrow> Inl e
        | Inr v \<Rightarrow> Inr (addOption args (''UserKnownHostsFile='' @ v)))"

definition buildSshBaseArguments :: "client_entry \<Rightarrow> ssh_options \<Rightarrow> string list thrown" where
  "buildSshBaseArguments client opts =
     (case control_options (addOption [''ssh''] ''StrictHostKeyChecking=accept-new'') opts of Inl e \<Rightarrow> Inl e
      | Inr args1 \<Rightarrow>
        (case known_hosts_option args1 client of Inl e \<Rightarrow> Inl e
         | Inr args2 \<Rightarrow>
           let args3 = (if password client = [] then addOption args2 ''BatchMode=yes'' else args2);
               args4 = addOption (addOption args3 ''ConnectTimeout=5'') ''ServerAliveInterval=15'';
               args5 = (if ce_port client \<noteq> 22 then args4 @ [''-p'', to_string (ce_port client)] else args4);
               args6 = (if identityFile client \<noteq> [] then args5 @ [''-i'', identityFile client] else args5)
           in Inr (args6 @ [sshTarget client])))"

definition buildSshCommandArguments :: "client_entry \<Rightarrow> string \<Rightarrow> int \<Rightarrow> ssh_options \<Rightarrow> string list thrown" where
  "buildSshCommandArguments client remoteCommand passwordFd opts =
     (if password client \<noteq> [] \<and> passwordFd < 0
      then Inl ''password-backed client requires a password file descriptor''
      else case buildSshBaseArguments client opts of Inl e \<Rightarrow> Inl e
        | Inr sshArgs \<Rightarrow>
          Inr ((if password client \<noteq> [] then [''sshpass'', ''-d'', int_to_string passwordFd] else []) @
               sshArgs @ [remoteCommand]))"

subsection \<open>The word rules of the shells\<close>

text \<open>
  POSIX: blanks separate words; between single quotes every character stands for itself; outside, a
  backslash quotes the next character.  The words of a line of quoted texts; \<^const>\<open>None\<close> for a
  character the rules would interpret, or an unclosed quote.  \<open>cur\<close> is the word being read, if any.
\<close>

fun posix_words :: "bool \<Rightarrow> string option \<Rightarrow> string \<Rightarrow> string list option" where
  "posix_words True cur [] = None"
| "posix_words False cur [] = Some (case cur of None \<Rightarrow> [] | Some w \<Rightarrow> [w])"
| "posix_words True cur (c # cs) =
     (if c = SQ then posix_words False cur cs
      else posix_words True (Some (case cur of None \<Rightarrow> [c] | Some w \<Rightarrow> w @ [c])) cs)"
| "posix_words False cur (c # cs) =
     (if c = SQ then posix_words True (Some (case cur of None \<Rightarrow> [] | Some w \<Rightarrow> w)) cs
      else if c = BSL then (case cs of [] \<Rightarrow> None
        | d # ds \<Rightarrow> posix_words False (Some (case cur of None \<Rightarrow> [d] | Some w \<Rightarrow> w @ [d])) ds)
      else if c = CHR '' '' then
        map_option (\<lambda>ws. (case cur of None \<Rightarrow> ws | Some w \<Rightarrow> w # ws)) (posix_words False None cs)
      else None)"

text \<open>PowerShell: single-quoted texts, in which two quotes stand for one.\<close>

fun powershell_words :: "bool \<Rightarrow> string option \<Rightarrow> string \<Rightarrow> string list option" where
  "powershell_words True cur [] = None"
| "powershell_words False cur [] = Some (case cur of None \<Rightarrow> [] | Some w \<Rightarrow> [w])"
| "powershell_words True cur (c # cs) =
     (if c = SQ then
        (if cs \<noteq> [] \<and> hd cs = SQ then powershell_words True (Some (case cur of None \<Rightarrow> [SQ] | Some w \<Rightarrow> w @ [SQ])) (tl cs)
         else powershell_words False cur cs)
      else powershell_words True (Some (case cur of None \<Rightarrow> [c] | Some w \<Rightarrow> w @ [c])) cs)"
| "powershell_words False cur (c # cs) =
     (if c = SQ then powershell_words True (Some (case cur of None \<Rightarrow> [] | Some w \<Rightarrow> w)) cs
      else if c = CHR '' '' then
        map_option (\<lambda>ws. (case cur of None \<Rightarrow> ws | Some w \<Rightarrow> w # ws)) (powershell_words False None cs)
      else None)"

text \<open>
  \<open>CommandLineToArgvW\<close>, for the arguments: blanks outside double quotes separate; \<open>2n\<close> backslashes before
  a quote are \<open>n\<close> backslashes and the quote delimits, \<open>2n+1\<close> are \<open>n\<close> backslashes and a literal quote, other
  backslashes are literal.  \<open>n\<close> counts the backslashes just read.
\<close>

fun windows_args :: "bool \<Rightarrow> nat \<Rightarrow> string option \<Rightarrow> string \<Rightarrow> string list" where
  "windows_args q n cur [] = (case cur of None \<Rightarrow> [] | Some w \<Rightarrow> [w @ replicate n BSL])"
| "windows_args q n cur (c # cs) =
     (let w = (case cur of None \<Rightarrow> [] | Some v \<Rightarrow> v) in
      if c = BSL then windows_args q (n + 1) (Some w) cs
      else if c = DQ then
        (if even n then windows_args (\<not> q) 0 (Some (w @ replicate (n div 2) BSL)) cs
         else windows_args q 0 (Some (w @ replicate (n div 2) BSL @ [DQ])) cs)
      else if (c = CHR '' '' \<or> c = TAB) \<and> \<not> q then
        (case cur of None \<Rightarrow> [] | Some v \<Rightarrow> [v @ replicate n BSL]) @ windows_args False 0 None cs
      else windows_args q 0 (Some (w @ replicate n BSL @ [c])) cs)"

fun shell_words :: "RemoteShell \<Rightarrow> string \<Rightarrow> string list option" where
  "shell_words Posix line = posix_words False None line"
| "shell_words PowerShell line = powershell_words False None line"
| "shell_words Cmd line = Some (windows_args False 0 None line)"

subsection \<open>Quoting is inverted\<close>

text \<open>The contract of a quoting function against the rule that splits a line into words.\<close>

locale quoting =
  fixes quote :: "string \<Rightarrow> string" and split :: "string \<Rightarrow> string list option"
  assumes split_empty: "split [] = Some []"
    and split_last: "split (quote a) = Some [a]"
    and split_more: "split (quote a @ CHR '' '' # rest) = map_option (\<lambda>ws. a # ws) (split rest)"
begin

lemma split_joined: "split (join_with '' '' (map quote argv)) = Some argv"
proof (induction argv rule: induct_list012)
  case (3 a b argv)
  then show ?case using split_more [of a "join_with '' '' (map quote (b # argv))"] by simp
qed (simp_all add: split_empty split_last)

end

lemma posix_quoted:
  "posix_words True (Some w) (concat (map (\<lambda>c. if c = SQ then [SQ, BSL, SQ, SQ] else [c]) a) @ SQ # rest) =
   posix_words False (Some (w @ a)) rest"
  by (induction a arbitrary: w) auto

interpretation posix: quoting quotePosixArg "shell_words Posix"
  by unfold_locales (simp_all add: quotePosixArg_def posix_quoted)

lemma powershell_quoted:
  assumes "rest = [] \<or> hd rest \<noteq> SQ"
  shows "powershell_words True (Some w) (concat (map (\<lambda>c. if c = SQ then [SQ, SQ] else [c]) a) @ SQ # rest) =
    powershell_words False (Some (w @ a)) rest"
  using assms by (induction a arbitrary: w) auto

interpretation powershell: quoting quotePowerShellArg "shell_words PowerShell"
  by unfold_locales (simp_all add: quotePowerShellArg_def powershell_quoted)

lemma windows_backslashes:
  "windows_args q n (Some w) (replicate k BSL @ s) = windows_args q (n + k) (Some w) s"
  by (induction k arbitrary: n) simp_all

lemma backslash_run:
  obtains k r where "arg = replicate k BSL @ r" "k = length (takeWhile (\<lambda>c. c = BSL) arg)" "r = [] \<or> hd r \<noteq> BSL"
proof -
  have "takeWhile (\<lambda>c. c = BSL) arg = replicate (length (takeWhile (\<lambda>c. c = BSL) arg)) BSL"
    by (rule replicate_eqI) (auto dest: set_takeWhileD)
  moreover have "dropWhile (\<lambda>c. c = BSL) arg = [] \<or> hd (dropWhile (\<lambda>c. c = BSL) arg) \<noteq> BSL"
    by (metis (mono_tags, lifting) hd_dropWhile)
  ultimately show ?thesis using that by (metis takeWhile_dropWhile_id)
qed

lemma windows_quoted:
  "windows_args True 0 (Some w) (cmd_loop arg @ DQ # rest) = windows_args False 0 (Some (w @ arg)) rest"
proof (induction arg arbitrary: w rule: cmd_loop.induct)
  case (1 arg)
  obtain k r where a: "arg = replicate k BSL @ r" and k: "k = length (takeWhile (\<lambda>c. c = BSL) arg)"
    and r: "r = [] \<or> hd r \<noteq> BSL" by (rule backslash_run)
  have "drop k arg = r" using a by simp
  then have d: "drop (length (takeWhile (\<lambda>c. c = BSL) arg)) arg = r" unfolding k .
  show ?case
  proof (cases "arg = []")
    case False
    note IH = 1(1) [OF False refl] 1(2) [OF False refl]
    show ?thesis
    proof (cases r)
      case Nil
      have "cmd_loop arg = replicate (k * 2) BSL" using False d k Nil by (simp add: cmd_loop.simps [of arg])
      then show ?thesis using a Nil windows_backslashes [of True 0 w "k * 2" "DQ # rest"] by simp
    next
      case (Cons c cs)
      show ?thesis
      proof (cases "c = DQ")
        case True
        have "cmd_loop arg = replicate (k * 2 + 1) BSL @ [DQ] @ cmd_loop cs"
          using False d k Cons True by (simp add: cmd_loop.simps [of arg])
        then show ?thesis
          using windows_backslashes [of True 0 w "k * 2 + 1" "DQ # cmd_loop cs @ DQ # rest"] a Cons True
            IH(1) [OF d [unfolded Cons] True] by simp
      next
        case False
        have "cmd_loop arg = replicate k BSL @ [c] @ cmd_loop cs"
          using \<open>arg \<noteq> []\<close> d k Cons False by (simp add: cmd_loop.simps [of arg])
        then show ?thesis
          using windows_backslashes [of True 0 w k "c # cmd_loop cs @ DQ # rest"] a Cons False r
            IH(2) [OF d [unfolded Cons] False] by simp
      qed
    qed
  qed (simp add: cmd_loop.simps [of "[]"])
qed

lemma windows_bare:
  assumes "\<forall>c \<in> set arg. c \<noteq> DQ \<and> c \<noteq> CHR '' '' \<and> c \<noteq> TAB" "rest = [] \<or> hd rest = CHR '' ''"
  shows "windows_args False n (Some w) (arg @ rest) =
    (w @ replicate n BSL @ arg) # windows_args False 0 None (tl rest)"
  using assms(1)
proof (induction arg arbitrary: w n)
  case Nil
  then show ?case using assms(2) by (cases rest) auto
next
  case (Cons c arg)
  show ?case
  proof (cases "c = BSL")
    case True
    have "replicate n BSL @ BSL # arg = replicate (Suc n) BSL @ arg" by (simp add: replicate_app_Cons_same)
    with True Cons show ?thesis by simp
  next
    case False
    with Cons show ?thesis by simp
  qed
qed

lemma windows_word:
  assumes "rest = [] \<or> hd rest = CHR '' ''"
  shows "windows_args False 0 None (quoteCmdArg a @ rest) = a # windows_args False 0 None (tl rest)"
proof (cases "a = [] \<or> contains_any [CHR '' '', TAB, NL, CHR 0x0B, DQ] a")
  case True
  then show ?thesis
    using windows_quoted [of "[]" a rest] assms by (cases rest) (auto simp: quoteCmdArg_def)
next
  case False
  then obtain c cs where a: "a = c # cs" by (cases a) auto
  have n: "\<forall>c \<in> set a. c \<noteq> DQ \<and> c \<noteq> CHR '' '' \<and> c \<noteq> TAB" using False by (auto simp: contains_any_def)
  have "windows_args False 0 None (a @ rest) = windows_args False 0 (Some []) (a @ rest)"
    using n by (simp add: a)
  then show ?thesis using windows_bare [OF n assms, of 0 "[]"] False by (simp add: quoteCmdArg_def)
qed

interpretation windows: quoting quoteCmdArg "shell_words Cmd"
  using windows_word [of "[]"] windows_word [of "CHR '' '' # rest" for rest]
  by unfold_locales simp_all

lemma quoted_words: "shell_words shell (quoteRemoteCommand argv shell) = Some argv"
  unfolding quoteRemoteCommand_def
  by (cases shell) (simp_all only: quote_arg.simps posix.split_joined powershell.split_joined windows.split_joined)


lemma base_arguments_password:
  assumes "password client \<noteq> []" "pw \<noteq> []"
  shows "buildSshBaseArguments (client\<lparr>password := pw\<rparr>) opts = buildSshBaseArguments client opts"
proof -
  have k: "known_hosts_option args (client\<lparr>password := pw\<rparr>) = known_hosts_option args client" for args
    by (simp add: known_hosts_option_def)
  show ?thesis
  proof (cases "control_options (addOption [''ssh''] ''StrictHostKeyChecking=accept-new'') opts")
    case (Inr args)
    then show ?thesis
      using assms by (cases "known_hosts_option args client") (simp_all add: buildSshBaseArguments_def k sshTarget_def Let_def)
  qed (simp add: buildSshBaseArguments_def)
qed

text \<open>
  A password never reaches a command line: the arguments built for a client with a password are the
  same for every password, and nothing is built without a descriptor to hand it over.
\<close>

theorem password_not_in_arguments:
  assumes "password client \<noteq> []" "pw \<noteq> []"
  shows "buildSshCommandArguments (client\<lparr>password := pw\<rparr>) cmd fd opts = buildSshCommandArguments client cmd fd opts \<and>
    (fd < 0 \<longrightarrow> isl (buildSshCommandArguments client cmd fd opts))"
  using assms base_arguments_password [OF assms, of opts] by (simp add: buildSshCommandArguments_def)

theorem password_not_in_arguments_witness:
  "buildSshCommandArguments (ClientEntry\<lparr>password := ''hunter2''\<rparr>) ''ls'' 3 \<lparr>controlPath = [], controlPersistSeconds = 60\<rparr> =
   buildSshCommandArguments (ClientEntry\<lparr>password := ''secret''\<rparr>) ''ls'' 3 \<lparr>controlPath = [], controlPersistSeconds = 60\<rparr>"
  using password_not_in_arguments [of "ClientEntry\<lparr>password := ''secret''\<rparr>" "''hunter2''"] by simp

text \<open>
  \<open>cmd.exe\<close> itself interprets characters that \<open>CommandLineToArgvW\<close> does not know: an argument with an
  ampersand is left bare, so the remote \<open>cmd.exe\<close> runs two commands.
\<close>

lemma cmd_metacharacter_bare: "quoteRemoteCommand [''echo'', ''a&calc''] Cmd = ''echo a&calc''"
  by (simp add: quoteRemoteCommand_def quoteCmdArg_def contains_any_def)

text \<open>A transient failure is retried even when the text also reports a permanent one.\<close>

lemma classified_retryable:
  "isRetryableSshFailure t \<and> \<not> isSshHostKeyFailure t \<longleftrightarrow>
   classifySshFailure t = Some ''unreachable host'' \<or> classifySshFailure t = Some ''connection failed''"
  by (auto simp: isRetryableSshFailure_def isSshHostKeyFailure_def classifySshFailure_def Let_def)

end
