(* ===== verification/Command_Executor.thy ===== *)
theory Command_Executor
  imports Ssh_Auth
begin

text \<open>
  \<open>CommandExecutor\<close> (\<open>src/command_executor.cpp\<close>): the interactive shell's path from a typed command to
  what is launched.  The launch itself (\<open>ProcessManager\<close>) is the result: a command line for the
  configured clients, or a local argument vector.
\<close>

definition kMaxCommandLength :: nat where "kMaxCommandLength = 1024"
definition kMaxArgumentLength :: nat where "kMaxArgumentLength = 256"

definition allowedCommands :: "string list" where
  "allowedCommands = [''ls'', ''cat'', ''echo'', ''pwd'', ''whoami'', ''date'', ''uptime'', ''df'', ''du'', ''ps'',
     ''id'', ''hostname'']"

definition trustedExecutableDirs :: "string list" where
  "trustedExecutableDirs = [''/bin'', ''/usr/bin'']"

definition isVisibleAscii :: "char \<Rightarrow> bool" where
  "isVisibleAscii c \<longleftrightarrow> of_char c \<ge> (0x20 :: nat) \<and> of_char c \<le> (0x7e :: nat)"

definition shellQuote :: "string \<Rightarrow> string" where
  "shellQuote value = [SQ] @ concat (map (\<lambda>c. if c = SQ then [SQ, BSL, SQ, SQ] else [c]) value) @ [SQ]"

definition joinArgs :: "string list \<Rightarrow> string" where
  "joinArgs args = join_with '' '' args"

definition isAllowedArgument :: "string \<Rightarrow> bool" where
  "isAllowedArgument argument \<longleftrightarrow> length argument \<le> kMaxArgumentLength \<and>
     list_all (\<lambda>c. isVisibleAscii c \<and> c \<notin> set ('';&|`$<>'' @ [BSL])) argument"

definition validateCommand :: "string list \<Rightarrow> unit thrown" where
  "validateCommand args =
     (case args of [] \<Rightarrow> Inl ''No command provided''
      | commandName # rest \<Rightarrow>
        if commandName = [] \<or> length commandName > kMaxArgumentLength then Inl ''Invalid command name''
        else if CHR ''/'' \<in> set commandName then Inl ''Explicit paths are not allowed''
        else if commandName \<notin> set allowedCommands then Inl ''Command is not in the allowlist''
        else if \<exists>c \<in> set commandName. \<not> isalnum c \<and> c \<noteq> CHR ''_'' \<and> c \<noteq> CHR ''-'' \<and> c \<noteq> CHR ''.''
          then Inl ''Command name contains invalid characters''
        else if \<exists>a \<in> set rest. \<not> isAllowedArgument a then Inl ''Command argument contains unsupported characters''
        else Inr ())"

text \<open>The loop of \<open>parseCommand\<close>; a word is pushed when it is not empty.\<close>

definition push_word :: "string list \<Rightarrow> string \<Rightarrow> string list" where
  "push_word args current = (if current \<noteq> [] then args @ [current] else args)"

fun parse_loop :: "bool \<Rightarrow> string \<Rightarrow> string list \<Rightarrow> string \<Rightarrow> string list thrown" where
  "parse_loop inQuotes current args [] =
     (if inQuotes then Inl ''Unterminated quoted argument'' else Inr (push_word args current))"
| "parse_loop inQuotes current args (c # cs) =
     (if c = DQ then parse_loop (\<not> inQuotes) current args cs
      else if \<not> isVisibleAscii c \<and> \<not> isspace c then Inl ''Command contains non-printable characters''
      else if isspace c \<and> \<not> inQuotes then parse_loop inQuotes [] (push_word args current) cs
      else parse_loop inQuotes (current @ [c]) args cs)"

definition parseCommand :: "string \<Rightarrow> string list thrown" where
  "parseCommand command =
     (if command = [] \<or> length command > kMaxCommandLength then Inl ''Command length is invalid''
      else parse_loop False [] [] command)"

text \<open>\<open>psx::os::isExecutableFile\<close> is the argument \<open>isExec\<close>.\<close>

definition resolveExecutablePath :: "(string \<Rightarrow> bool) \<Rightarrow> string \<Rightarrow> string thrown" where
  "resolveExecutablePath isExec commandName =
     (case find isExec (map (\<lambda>directory. directory @ ''/'' @ commandName) trustedExecutableDirs) of
        None \<Rightarrow> Inl ''Allowed command was not found in trusted system paths''
      | Some candidate \<Rightarrow> Inr candidate)"

definition buildRemoteCommand :: "string list \<Rightarrow> string" where
  "buildRemoteCommand args = join_with '' '' (map shellQuote args)"

text \<open>\<open>clients.txt\<close> in the working directory, when it exists.\<close>

definition loadConfiguredClients :: "(string \<Rightarrow> string) \<Rightarrow> (string \<rightharpoonup> string) \<Rightarrow> client_entry list thrown" where
  "loadConfiguredClients kh files =
     (if files ''clients.txt'' = None then Inr []
      else case cc_loadFromFile kh files \<lparr>inventoryPath = [], clients = []\<rparr> ''clients.txt'' of
          (c, Inl e) \<Rightarrow> Inl e
        | (c, Inr _) \<Rightarrow> Inr (clients c))"

datatype launch = Remote "client_entry list" string | Local "string list"

definition executor_execute :: "(string \<Rightarrow> bool) \<Rightarrow> (string \<Rightarrow> string) \<Rightarrow> (string \<rightharpoonup> string) \<Rightarrow> string \<Rightarrow> launch thrown" where
  "executor_execute isExec kh files command =
     (case parseCommand command of Inl e \<Rightarrow> Inl e
      | Inr args \<Rightarrow>
        (case validateCommand args of Inl e \<Rightarrow> Inl e
         | Inr _ \<Rightarrow>
           (case loadConfiguredClients kh files of Inl e \<Rightarrow> Inl e
            | Inr cs \<Rightarrow>
              if cs \<noteq> [] then Inr (Remote cs (buildRemoteCommand args))
              else case resolveExecutablePath isExec (hd args) of Inl e \<Rightarrow> Inl e
                | Inr path \<Rightarrow> Inr (Local (path # tl args)))))"

definition executeOnClients :: "string \<Rightarrow> client_entry list \<Rightarrow> launch thrown" where
  "executeOnClients command cs =
     (if cs = [] then Inl ''No clients selected for remote execution''
      else case parseCommand command of Inl e \<Rightarrow> Inl e
        | Inr args \<Rightarrow> (case validateCommand args of Inl e \<Rightarrow> Inl e
            | Inr _ \<Rightarrow> Inr (Remote cs (buildRemoteCommand args))))"

subsection \<open>Delivering the output\<close>

text \<open>
  The callback receives lines with a flag for standard output.  \<open>stream_lines\<close> is the loop over the
  captured data: a line per newline, and a last line when the data does not end with one.
\<close>

function stream_lines :: "string \<Rightarrow> string list" where
  "stream_lines data =
     (if data = [] then []
      else case find_char NL data of
          None \<Rightarrow> [data]
        | Some end_ \<Rightarrow> take end_ data # stream_lines (drop (end_ + 1) data))"
  by pat_completeness auto
termination
  by (relation "measure length") auto

declare stream_lines.simps [simp del]

record client_result =
  cr_clientId :: string
  stdoutData :: string
  stderrData :: string
  errorMessage :: string

definition stream_client :: "client_result \<Rightarrow> (string \<times> bool) list" where
  "stream_client r =
     [(''CLIENT '' @ cr_clientId r, True)] @ map (\<lambda>l. (l, True)) (stream_lines (stdoutData r)) @
     (if errorMessage r \<noteq> [] then [(errorMessage r, False)] else map (\<lambda>l. (l, False)) (stream_lines (stderrData r)))"

definition stream_local :: "string \<Rightarrow> string \<Rightarrow> (string \<times> bool) list" where
  "stream_local out err = map (\<lambda>l. (l, True)) (stream_lines out) @ map (\<lambda>l. (l, False)) (stream_lines err)"

subsection \<open>Properties\<close>

text \<open>A command the executor lets through.\<close>

definition safe_command :: "string list \<Rightarrow> bool" where
  "safe_command args \<longleftrightarrow> args \<noteq> [] \<and> hd args \<in> set allowedCommands \<and>
     (\<forall>a \<in> set (tl args). length a \<le> 256 \<and> (\<forall>c \<in> set a. isVisibleAscii c) \<and> set a \<inter> set ('';&|`$<>'' @ [BSL]) = {})"

lemma validated_safe: "validateCommand args = Inr () \<Longrightarrow> safe_command args"
  unfolding validateCommand_def safe_command_def isAllowedArgument_def kMaxArgumentLength_def list_all_iff
  by (auto split: list.splits if_splits)

lemma remote_command_words: "shell_words Posix (buildRemoteCommand args) = Some args"
proof -
  have "shellQuote = quotePosixArg" by (rule ext) (simp add: shellQuote_def quotePosixArg_def)
  then show ?thesis using posix.split_joined by (simp add: buildRemoteCommand_def)
qed

lemma resolved_trusted:
  assumes "resolveExecutablePath isExec name = Inr path"
  shows "\<exists>directory \<in> set trustedExecutableDirs. path = directory @ ''/'' @ name \<and> isExec path"
proof -
  have f: "find isExec (map (\<lambda>directory. directory @ ''/'' @ name) trustedExecutableDirs) = Some path"
    using assms by (auto simp: resolveExecutablePath_def split: option.splits)
  then have "isExec path" "path \<in> set (map (\<lambda>directory. directory @ ''/'' @ name) trustedExecutableDirs)"
    by (auto simp: find_Some_iff simp del: upt_Suc)
  then show ?thesis by auto
qed

text \<open>What a launch may run, for a safe command.\<close>

fun launches :: "(string \<Rightarrow> bool) \<Rightarrow> string list \<Rightarrow> launch \<Rightarrow> bool" where
  "launches isExec args (Remote cs line) \<longleftrightarrow> cs \<noteq> [] \<and> shell_words Posix line = Some args"
| "launches isExec args (Local argv) \<longleftrightarrow> argv \<noteq> [] \<and> tl argv = tl args \<and> isExec (hd argv) \<and>
     (\<exists>directory \<in> set [''/bin'', ''/usr/bin'']. hd argv = directory @ ''/'' @ hd args)"

text \<open>
  C35: whatever is typed, only safe commands are launched: the program is on the allowlist and its
  arguments are short visible ASCII without shell metacharacters; remotely the shell of each client
  sees exactly these arguments, locally the program comes from a trusted directory.
\<close>

theorem executor_launches_only_safe:
  assumes "executor_execute isExec kh files command = Inr l"
  shows "\<exists>args. parseCommand command = Inr args \<and> safe_command args \<and> launches isExec args l"
proof -
  obtain args cs where a: "parseCommand command = Inr args" "validateCommand args = Inr ()"
    "loadConfiguredClients kh files = Inr cs"
    using assms by (auto simp: executor_execute_def split: sum.splits)
  have "launches isExec args l"
  proof (cases "cs = []")
    case True
    then obtain path where p: "resolveExecutablePath isExec (hd args) = Inr path" "l = Local (path # tl args)"
      using assms a by (auto simp: executor_execute_def split: sum.splits)
    then show ?thesis using resolved_trusted [OF p(1)] by (auto simp: trustedExecutableDirs_def)
  next
    case False
    then have "l = Remote cs (buildRemoteCommand args)" using assms a by (simp add: executor_execute_def)
    then show ?thesis using False remote_command_words by simp
  qed
  then show ?thesis using a validated_safe by blast
qed

lemma sample_execute:
  "executor_execute (\<lambda>p. p = ''/bin/echo'') (\<lambda>p. p) Map.empty [CHR ''e'', CHR ''c'', CHR ''h'', CHR ''o'', CHR '' '', DQ, CHR ''a'', CHR '' '', CHR ''b'', DQ] =
   Inr (Local [''/bin/echo'', ''a b''])"
  by code_simp

theorem executor_launches_only_safe_witness:
  "\<exists>args. parseCommand [CHR ''e'', CHR ''c'', CHR ''h'', CHR ''o'', CHR '' '', DQ, CHR ''a'', CHR '' '', CHR ''b'', DQ] = Inr args \<and>
     safe_command args \<and> launches (\<lambda>p. p = ''/bin/echo'') args (Local [''/bin/echo'', ''a b''])"
  by (rule executor_launches_only_safe [OF sample_execute])

text \<open>The lines delivered are the lines of the captured data.\<close>

lemma stream_lines_unlines:
  assumes "\<forall>l \<in> set ls. NL \<notin> set l"
  shows "stream_lines (concat (map (\<lambda>l. l @ [NL]) ls)) = ls"
  using assms
proof (induction ls)
  case Nil
  then show ?case by (simp add: stream_lines.simps)
next
  case (Cons l ls)
  then show ?case
    using find_char_append [of NL l "concat (map (\<lambda>l. l @ [NL]) ls)"] by (simp add: stream_lines.simps [of "l @ NL # _"])
qed

end
