(* ===== verification/Run_Options.thy ===== *)
theory Run_Options
  imports Ssh_Auth Bounded_Buffer
begin

text \<open>
  The command line of \<open>pipeshellx run\<close> (\<open>include/psx/cli/run_command.hpp\<close>, the first part of \<open>src/cli/run_command.cpp\<close>):
  the grammar, the sizes, and the number of canary hosts on 64 bit words.  A thrown \<open>CliError\<close> is its message.
\<close>

subsection \<open>Data\<close>

datatype SinkMode = Group | Stream | Json | Consensus
datatype SelectorKind = AllHosts | ByGroup | ByTag | ByHosts

record selector =
  sel_kind :: SelectorKind
  sel_value :: string
  sel_hosts :: "string list"

record run_invocation =
  ri_inventoryPath :: string
  ri_selector :: selector
  ri_sink :: SinkMode
  consensusJson :: bool
  ordered :: bool
  timeoutSec :: int
  concurrency :: int
  ri_policy :: OverflowPolicy
  ringBytes :: u64
  policyPath :: string
  reuse :: bool
  retries :: int
  retriesExplicit :: bool
  idempotent :: bool
  ri_shell :: RemoteShell
  shellExplicit :: bool
  failFast :: bool
  auditPath :: string
  native :: bool
  transportExplicit :: bool
  certPath :: string
  certExplicit :: bool
  keyPath :: string
  keyExplicit :: bool
  caPath :: string
  caExplicit :: bool
  crlPath :: string
  crlExplicit :: bool
  ri_nativePort :: int
  nativePortExplicit :: bool
  canary :: string
  canaryExplicit :: bool
  colour :: bool
  ri_command :: "string list"

definition RunInvocation :: run_invocation where
  "RunInvocation = \<lparr>ri_inventoryPath = [], ri_selector = \<lparr>sel_kind = AllHosts, sel_value = [], sel_hosts = []\<rparr>,
     ri_sink = Group, consensusJson = False, ordered = False, timeoutSec = 0, concurrency = 64, ri_policy = Block,
     ringBytes = 0, policyPath = [], reuse = False, retries = 0, retriesExplicit = False, idempotent = False,
     ri_shell = Posix, shellExplicit = False, failFast = False, auditPath = [], native = False,
     transportExplicit = False, certPath = [], certExplicit = False, keyPath = [], keyExplicit = False, caPath = [],
     caExplicit = False, crlPath = [], crlExplicit = False, ri_nativePort = 7433, nativePortExplicit = False,
     canary = [], canaryExplicit = False, colour = True, ri_command = []\<rparr>"

subsection \<open>Values\<close>

definition splitCsv :: "string \<Rightarrow> string list" where
  "splitCsv value = filter (\<lambda>item. item \<noteq> []) (split_on (CHR '','') value)"

text \<open>\<open>std::from_chars\<close> into an \<open>int\<close> of 32 bits, with the callers' check that the whole text was consumed.\<close>

definition from_chars_int :: "string \<Rightarrow> int option" where
  "from_chars_int s =
     (case s of [] \<Rightarrow> None
      | c # cs \<Rightarrow>
        if c = CHR ''-'' then
          (if cs \<noteq> [] \<and> list_all isdigit cs \<and> from_digits cs \<le> 2 ^ 31 then Some (- int (from_digits cs)) else None)
        else if list_all isdigit s \<and> from_digits s < 2 ^ 31 then Some (int (from_digits s)) else None)"

definition parseIntArg :: "string \<Rightarrow> string \<Rightarrow> int thrown" where
  "parseIntArg value flag =
     (case from_chars_int value of
        Some n \<Rightarrow> if n < 0 then Inl (flag @ '' expects a non-negative integer, got '' @ [SQ] @ value @ [SQ]) else Inr n
      | None \<Rightarrow> Inl (flag @ '' expects a non-negative integer, got '' @ [SQ] @ value @ [SQ]))"

definition setSelector :: "selector \<Rightarrow> SelectorKind \<Rightarrow> string \<Rightarrow> selector thrown" where
  "setSelector sel kind raw =
     (if sel_kind sel \<noteq> AllHosts then Inl ''selectors -g/-t/-H are mutually exclusive''
      else if kind = ByHosts then Inr (sel\<lparr>sel_kind := kind, sel_hosts := splitCsv raw\<rparr>)
      else Inr (sel\<lparr>sel_kind := kind, sel_value := raw\<rparr>))"

definition parsePolicy :: "string \<Rightarrow> OverflowPolicy thrown" where
  "parsePolicy value =
     (if value = ''block'' then Inr Block
      else if value = ''drop-oldest'' then Inr DropOldest
      else if value = ''drop-newest'' then Inr DropNewest
      else if value = ''spool'' then Inr Spool
      else Inl (''--overflow must be block, drop-oldest, drop-newest or spool, got '' @ [SQ] @ value @ [SQ]))"

definition parseShell :: "string \<Rightarrow> RemoteShell thrown" where
  "parseShell value =
     (if value = ''posix'' then Inr Posix
      else if value = ''cmd'' then Inr Cmd
      else if value = ''powershell'' \<or> value = ''pwsh'' then Inr PowerShell
      else Inl (''--shell must be posix, cmd or powershell, got '' @ [SQ] @ value @ [SQ]))"

definition size_multiplier :: "string \<Rightarrow> u64 option" where
  "size_multiplier suffix =
     (if suffix = [] \<or> suffix = ''B'' then Some 1
      else if suffix = ''K'' \<or> suffix = ''KiB'' then Some 1024
      else if suffix = ''M'' \<or> suffix = ''MiB'' then Some (1024 * 1024)
      else if suffix = ''G'' \<or> suffix = ''GiB'' then Some (1024 * 1024 * 1024)
      else None)"

definition parseSize :: "string \<Rightarrow> u64 thrown" where
  "parseSize value =
     (let digits = takeWhile isdigit value; suffix = dropWhile isdigit value in
      if digits = [] then Inl (''--ring expects a size like 1MiB, got '' @ [SQ] @ value @ [SQ])
      else case from_chars 64 digits of
          None \<Rightarrow> Inl (''--ring size is out of range: '' @ [SQ] @ value @ [SQ])
        | Some n \<Rightarrow>
          (case size_multiplier suffix of
             None \<Rightarrow> Inl (''--ring: unknown size suffix '' @ [SQ] @ suffix @ [SQ])
           | Some multiplier \<Rightarrow>
             let count = of_nat n :: u64 in
             if count > (- 1) div multiplier then Inl (''--ring size is out of range: '' @ [SQ] @ value @ [SQ])
             else Inr (count * multiplier)))"

definition is_percent :: "string \<Rightarrow> bool" where
  "is_percent s \<longleftrightarrow> s \<noteq> [] \<and> last s = CHR ''%''"

definition canary_digits :: "string \<Rightarrow> string" where
  "canary_digits s = (if is_percent s then butlast s else s)"

definition validateCanarySpec :: "string \<Rightarrow> unit thrown" where
  "validateCanarySpec value =
     (case from_chars 64 (canary_digits value) of
        Some n \<Rightarrow> if n = 0
          then Inl (''--canary expects a positive integer or positive integer percentage, got '' @ [SQ] @ value @ [SQ])
          else Inr ()
      | None \<Rightarrow> Inl (''--canary expects a positive integer or positive integer percentage, got '' @ [SQ] @ value @ [SQ]))"

definition canary_value :: "string \<Rightarrow> u64" where
  "canary_value spec = (case from_chars 64 (canary_digits spec) of None \<Rightarrow> 1 | Some n \<Rightarrow> if n = 0 then 1 else of_nat n)"

definition canaryCount :: "string \<Rightarrow> u64 \<Rightarrow> u64" where
  "canaryCount spec hostTotal =
     (if hostTotal = 0 then 0
      else
        let value = canary_value spec;
            count = (if is_percent spec then
                       if value \<ge> 100 then hostTotal
                       else let remainder = (hostTotal mod 100) * value in
                         (hostTotal div 100) * value + (remainder div 100 + (if remainder mod 100 = 0 then 0 else 1))
                     else if value \<ge> hostTotal then hostTotal else value)
        in if count < 1 then 1 else if hostTotal < count then hostTotal else count)"

subsection \<open>The grammar\<close>

definition setSink :: "run_invocation \<Rightarrow> SinkMode \<Rightarrow> bool \<Rightarrow> (run_invocation \<times> bool) thrown" where
  "setSink iv mode sinkSet =
     (if sinkSet then Inl ''only one primary sink mode may be given'' else Inr (iv\<lparr>ri_sink := mode\<rparr>, True))"

definition takes_value :: "string \<Rightarrow> bool" where
  "takes_value arg \<longleftrightarrow> arg \<in> set [''-g'', ''--group-name'', ''-t'', ''--tag'', ''-H'', ''--hosts'', ''-i'', ''--inventory'', ''--timeout'',
     ''-c'', ''--concurrency'', ''--overflow'', ''--ring'', ''--policy'', ''--retries'', ''--canary'', ''--shell'', ''--audit-log'',
     ''--transport'', ''--cert'', ''--key'', ''--ca'', ''--crl'', ''--native-port'']"

text \<open>The selector of a flag, kept in the invocation.\<close>

definition with_selector :: "run_invocation \<Rightarrow> SelectorKind \<Rightarrow> string \<Rightarrow> run_invocation thrown" where
  "with_selector iv kind v =
     (case setSelector (ri_selector iv) kind v of Inl e \<Rightarrow> Inl e | Inr sel \<Rightarrow> Inr (iv\<lparr>ri_selector := sel\<rparr>))"

definition run_value :: "run_invocation \<Rightarrow> string \<Rightarrow> string \<Rightarrow> run_invocation thrown" where
  "run_value iv arg v =
     (if arg = ''-g'' \<or> arg = ''--group-name'' then with_selector iv ByGroup v
      else if arg = ''-t'' \<or> arg = ''--tag'' then with_selector iv ByTag v
      else if arg = ''-H'' \<or> arg = ''--hosts'' then with_selector iv ByHosts v
      else if arg = ''-i'' \<or> arg = ''--inventory'' then Inr (iv\<lparr>ri_inventoryPath := v\<rparr>)
      else if arg = ''--timeout'' then map_sum id (\<lambda>n. iv\<lparr>timeoutSec := n\<rparr>) (parseIntArg v ''--timeout'')
      else if arg = ''-c'' \<or> arg = ''--concurrency'' then
        map_sum id (\<lambda>n. iv\<lparr>concurrency := n\<rparr>) (parseIntArg v ''--concurrency'')
      else if arg = ''--overflow'' then map_sum id (\<lambda>p. iv\<lparr>ri_policy := p\<rparr>) (parsePolicy v)
      else if arg = ''--ring'' then map_sum id (\<lambda>n. iv\<lparr>ringBytes := n\<rparr>) (parseSize v)
      else if arg = ''--policy'' then Inr (iv\<lparr>policyPath := v\<rparr>)
      else if arg = ''--retries'' then
        map_sum id (\<lambda>n. iv\<lparr>retriesExplicit := True, retries := n\<rparr>) (parseIntArg v ''--retries'')
      else if arg = ''--canary'' then map_sum id (\<lambda>_. iv\<lparr>canaryExplicit := True, canary := v\<rparr>) (validateCanarySpec v)
      else if arg = ''--shell'' then map_sum id (\<lambda>s. iv\<lparr>shellExplicit := True, ri_shell := s\<rparr>) (parseShell v)
      else if arg = ''--audit-log'' then Inr (iv\<lparr>auditPath := v\<rparr>)
      else if arg = ''--transport'' then
        if v = ''native'' then Inr (iv\<lparr>transportExplicit := True, native := True\<rparr>)
        else if v = ''ssh'' then Inr (iv\<lparr>transportExplicit := True, native := False\<rparr>)
        else Inl (''--transport must be ssh or native, got '' @ [SQ] @ v @ [SQ])
      else if arg = ''--cert'' then Inr (iv\<lparr>certExplicit := True, certPath := v\<rparr>)
      else if arg = ''--key'' then Inr (iv\<lparr>keyExplicit := True, keyPath := v\<rparr>)
      else if arg = ''--ca'' then Inr (iv\<lparr>caExplicit := True, caPath := v\<rparr>)
      else if arg = ''--crl'' then Inr (iv\<lparr>crlExplicit := True, crlPath := v\<rparr>)
      else if arg = ''--native-port'' then
        map_sum id (\<lambda>n. iv\<lparr>nativePortExplicit := True, ri_nativePort := n\<rparr>) (parseIntArg v ''--native-port'')
      else Inl (''unknown option: '' @ arg))"

definition run_flag :: "run_invocation \<Rightarrow> bool \<Rightarrow> string \<Rightarrow> (run_invocation \<times> bool) thrown" where
  "run_flag iv sinkSet arg =
     (if arg = ''--stream'' then setSink iv Stream sinkSet
      else if arg = ''--group'' then setSink iv Group sinkSet
      else if arg = ''--json'' then
        if sinkSet \<and> ri_sink iv = Consensus then Inr (iv\<lparr>consensusJson := True\<rparr>, sinkSet)
        else setSink iv Json sinkSet
      else if arg = ''--consensus'' then
        if sinkSet \<and> ri_sink iv \<noteq> Json then Inl ''only one primary sink mode may be given''
        else Inr (iv\<lparr>consensusJson := (sinkSet \<and> ri_sink iv = Json), ri_sink := Consensus\<rparr>, True)
      else if arg = ''--ordered'' then Inr (iv\<lparr>ordered := True\<rparr>, sinkSet)
      else if arg = ''--reuse'' then Inr (iv\<lparr>reuse := True\<rparr>, sinkSet)
      else if arg = ''--fail-fast'' then Inr (iv\<lparr>failFast := True\<rparr>, sinkSet)
      else if arg = ''--idempotent'' then Inr (iv\<lparr>idempotent := True\<rparr>, sinkSet)
      else if arg = ''--no-color'' \<or> arg = ''--no-colour'' then Inr (iv\<lparr>colour := False\<rparr>, sinkSet)
      else Inl (''unknown option: '' @ arg))"

text \<open>The options up to \<open>--\<close>, and what follows it.\<close>

fun run_options :: "run_invocation \<Rightarrow> bool \<Rightarrow> string list \<Rightarrow> (run_invocation \<times> string list) thrown" where
  "run_options iv sinkSet [] = Inl ''expected `-- <command>` (a `--` before the command to run)''"
| "run_options iv sinkSet (arg # args) =
     (if arg = ''--'' then Inr (iv, args)
      else if takes_value arg then
        (case args of [] \<Rightarrow> Inl (arg @ '' requires a value'')
         | v # args' \<Rightarrow> (case run_value iv arg v of Inl e \<Rightarrow> Inl e | Inr iv' \<Rightarrow> run_options iv' sinkSet args'))
      else (case run_flag iv sinkSet arg of Inl e \<Rightarrow> Inl e | Inr (iv', sinkSet') \<Rightarrow> run_options iv' sinkSet' args))"

definition check_transport :: "run_invocation \<Rightarrow> run_invocation thrown" where
  "check_transport iv =
     (if native iv then
        if ri_nativePort iv \<le> 0 \<or> ri_nativePort iv > 65535 then Inl ''--native-port must be in the range 1..65535''
        else if reuse iv then Inl ''--reuse is only supported with --transport ssh''
        else if idempotent iv then Inl ''--idempotent is only supported with --transport ssh''
        else if retriesExplicit iv then Inl ''--retries is only supported with --transport ssh''
        else if shellExplicit iv then Inl ''--shell is only supported with --transport ssh''
        else Inr iv
      else if transportExplicit iv then
        if canaryExplicit iv then Inl ''--canary is only supported with --transport native''
        else if certExplicit iv then Inl ''--cert is only supported with --transport native''
        else if keyExplicit iv then Inl ''--key is only supported with --transport native''
        else if caExplicit iv then Inl ''--ca is only supported with --transport native''
        else if crlExplicit iv then Inl ''--crl is only supported with --transport native''
        else if nativePortExplicit iv then Inl ''--native-port is only supported with --transport native''
        else Inr iv
      else Inr iv)"

definition parseRun :: "string list \<Rightarrow> run_invocation thrown" where
  "parseRun args =
     (case run_options RunInvocation False args of Inl e \<Rightarrow> Inl e
      | Inr (iv, command) \<Rightarrow>
        if command = [] then Inl ''no command given after `--`''
        else check_transport (iv\<lparr>ri_command := command\<rparr>))"

subsection \<open>Sizes and counts\<close>

lemma from_chars_bound: "from_chars w s = Some n \<Longrightarrow> n < 2 ^ w \<and> n = from_digits s \<and> s \<noteq> [] \<and> list_all isdigit s"
  by (auto simp: from_chars_def split: if_splits)

lemma multiplier_pos: "size_multiplier suffix = Some m \<Longrightarrow> 0 < m"
  by (auto simp: size_multiplier_def split: if_splits)

text \<open>The guard against overflow is exact: the product fits 64 bits.\<close>

lemma parseSize_exact:
  assumes "parseSize value = Inr n"
  shows "\<exists>m. size_multiplier (dropWhile isdigit value) = Some m \<and> unat n = from_digits (takeWhile isdigit value) * unat m"
proof -
  obtain k m where k: "from_chars 64 (takeWhile isdigit value) = Some k" "size_multiplier (dropWhile isdigit value) = Some m"
    "\<not> (of_nat k :: u64) > (- 1) div m" "n = of_nat k * m"
    using assms by (auto simp: parseSize_def Let_def split: if_splits option.splits)
  have kb: "k < 2 ^ 64" "k = from_digits (takeWhile isdigit value)" using from_chars_bound [OF k(1)] by auto
  have u: "unat (of_nat k :: u64) = k" using kb(1) by (simp add: unat_of_nat take_bit_nat_eq_self)
  have m: "0 < unat m" using multiplier_pos [OF k(2)] by (simp add: word_greater_zero_iff unat_gt_0)
  have "k \<le> unat ((- 1 :: u64) div m)" using k(3) u by (simp add: not_less word_le_nat_alt)
  also have "\<dots> = (2 ^ 64 - 1) div unat m" by (simp add: unat_div unsigned_minus_1_eq_mask mask_eq_exp_minus_1)
  finally have "k * unat m \<le> 2 ^ 64 - 1" using m by (simp add: less_eq_div_iff_mult_less_eq)
  then have "unat n = k * unat m" using u by (simp add: k(4) unat_word_ariths)
  with k(2) kb(2) show ?thesis by blast
qed

text \<open>Rounding up a percentage in two parts, as the code does to avoid a product beyond 64 bits.\<close>

lemma round_up: "(r + 99) div 100 = r div 100 + (if r mod 100 = 0 then 0 else 1 :: nat)"
proof -
  obtain q s where s: "r = 100 * q + s" "s < 100"
    using that [of "r div 100" "r mod 100"] mult_div_mod_eq [of 100 r] by simp
  have "(r + 99) div 100 = q + (s + 99) div 100"
    using div_mult_self4 [of 100 q "s + 99"] by (simp add: s(1) add.assoc)
  moreover have "(s + 99) div 100 = (if s = 0 then 0 else 1)" using s(2) by (auto intro!: div_nat_eqI)
  moreover have "r div 100 = q" "r mod 100 = s" using s by simp_all
  ultimately show ?thesis by simp
qed

lemma percent_parts:
  fixes t v :: nat
  shows "t div 100 * v + ((t mod 100 * v) div 100 + (if (t mod 100 * v) mod 100 = 0 then 0 else 1)) = (t * v + 99) div 100"
proof -
  define q r where "q = t div 100" and "r = t mod 100 * v"
  have "t * v = (100 * (t div 100) + t mod 100) * v" by simp
  then have t: "t * v = 100 * (q * v) + r" by (simp only: q_def r_def distrib_right mult.assoc)
  have "(100 * n + r + 99) div 100 = n + (r + 99) div 100" for n
    using div_mult_self4 [of 100 n "r + 99"] by (simp add: add.assoc)
  then have "(t * v + 99) div 100 = q * v + (r + 99) div 100" unfolding t .
  then show ?thesis unfolding round_up by (simp only: q_def r_def)
qed

lemma percent_le:
  fixes t v :: nat
  assumes "v < 100" "0 < t"
  shows "(t * v + 99) div 100 \<le> t"
proof -
  obtain p where p: "t * v = p" by blast
  have "t * v \<le> t * 99" using assms(1) by (intro mult_le_mono2) simp
  then have "t * v + 99 < (t + 1) * 100" using assms(2) unfolding p by simp
  then have "(t * v + 99) div 100 < t + 1" by (rule less_mult_imp_div_less)
  then show ?thesis by simp
qed

lemma canary_value_pos: "0 < unat (canary_value spec)"
proof (cases "from_chars 64 (canary_digits spec)")
  case (Some n)
  then have "n < 2 ^ 64" using from_chars_bound by blast
  then show ?thesis using Some by (simp add: canary_value_def unat_of_nat take_bit_nat_eq_self)
qed (simp add: canary_value_def)

lemma canary_percent:
  fixes T V :: u64
  assumes "unat V < 100" "0 < unat T"
  shows "unat (T div 100 * V + ((T mod 100 * V) div 100 + (if (T mod 100 * V) mod 100 = 0 then 0 else 1))) =
    (unat T * unat V + 99) div 100"
proof -
  let ?t = "unat T" and ?v = "unat V"
  have c: "unat (100 :: u64) = 100" by simp
  have tb: "?t < 2 ^ 64" using unsigned_less [of T] by simp
  have "?t div 100 * ?v \<le> ?t div 100 * 100" using assms(1) by (intro mult_le_mono2) simp
  then have "?t div 100 * ?v < 2 ^ 64" using tb by (meson div_times_less_eq_dividend le_less_trans)
  then have q: "unat (T div 100 * V) = ?t div 100 * ?v" unfolding unat_word_ariths(2) unat_div c by simp
  have "?t mod 100 * ?v \<le> 99 * 99" using assms(1) by (intro mult_le_mono) auto
  then have r: "unat (T mod 100 * V) = ?t mod 100 * ?v" by (simp add: unat_word_ariths unat_mod)
  let ?e = "if (T mod 100 * V) mod 100 = 0 then 0 else 1 :: u64"
  have z: "(T mod 100 * V) mod 100 = 0 \<longleftrightarrow> (?t mod 100 * ?v) mod 100 = 0"
    by (simp add: unat_eq_0 [symmetric] unat_mod r)
  have e: "unat ?e = (if (?t mod 100 * ?v) mod 100 = 0 then 0 else 1)" by (simp add: z)
  have d: "unat ((T mod 100 * V) div 100) = (?t mod 100 * ?v) div 100" by (simp add: unat_div r)
  note parts = percent_parts [of ?t ?v] and le = percent_le [OF assms]
  have "unat ((T mod 100 * V) div 100 + ?e) = (?t mod 100 * ?v) div 100 + (if (?t mod 100 * ?v) mod 100 = 0 then 0 else 1)"
    using parts le tb by (subst unat_word_ariths) (simp only: d e, simp)
  then show ?thesis using parts le tb by (subst unat_word_ariths) (simp only: q, simp)
qed

text \<open>The number of canary hosts is the given count, at most all hosts, or the given percentage of the hosts rounded
  up, exactly, for every number of hosts up to \<open>2 ^ 64\<close>: no product wraps.  It is at least one and at most all when
  there is a host, and every ring size accepted on the command line is the number times its unit, without wrapping.\<close>

theorem canary_and_ring_exact:
  "unat (canaryCount spec hostTotal) =
     (let t = unat hostTotal; v = unat (canary_value spec) in
      if t = 0 then 0 else if is_percent spec then min t ((t * v + 99) div 100) else min t v) \<and>
   (hostTotal = 0 \<or> 1 \<le> canaryCount spec hostTotal \<and> canaryCount spec hostTotal \<le> hostTotal) \<and>
   (case parseSize value of Inl _ \<Rightarrow> True
    | Inr n \<Rightarrow> (case size_multiplier (dropWhile isdigit value) of None \<Rightarrow> False
        | Some m \<Rightarrow> unat n = from_digits (takeWhile isdigit value) * unat m))"
proof -
  let ?t = "unat hostTotal" and ?v = "unat (canary_value spec)"
  have main: "unat (canaryCount spec hostTotal) = (if is_percent spec then min ?t ((?t * ?v + 99) div 100) else min ?t ?v) \<and>
      1 \<le> unat (canaryCount spec hostTotal) \<and> unat (canaryCount spec hostTotal) \<le> ?t" if t: "0 < ?t"
  proof -
    define count where "count = (if is_percent spec then
        if canary_value spec \<ge> 100 then hostTotal
        else hostTotal div 100 * canary_value spec + ((hostTotal mod 100 * canary_value spec) div 100 +
          (if (hostTotal mod 100 * canary_value spec) mod 100 = 0 then 0 else 1))
      else if canary_value spec \<ge> hostTotal then hostTotal else canary_value spec)"
    have cc: "canaryCount spec hostTotal = (if count < 1 then 1 else if hostTotal < count then hostTotal else count)"
      using t by (cases "hostTotal = 0") (simp_all add: canaryCount_def count_def Let_def)
    have "unat count = (if is_percent spec then min ?t ((?t * ?v + 99) div 100) else min ?t ?v)"
    proof (cases "is_percent spec \<and> ?v < 100")
      case True
      then show ?thesis using canary_percent [of "canary_value spec" hostTotal] t percent_le [of ?v ?t]
        by (simp add: count_def word_le_nat_alt)
    next
      case False
      have "?t \<le> (?t * ?v + 99) div 100" if "100 \<le> ?v"
        using mult_le_mono2 [OF that, of ?t] unfolding less_eq_div_iff_mult_less_eq [OF zero_less_numeral] by linarith
      with False show ?thesis by (auto simp: count_def word_le_nat_alt)
    qed
    moreover have "1 \<le> (?t * ?v + 99) div 100"
    proof -
      have "1 \<le> ?t * ?v" using t canary_value_pos [of spec] by (simp add: Suc_le_eq)
      then show ?thesis unfolding less_eq_div_iff_mult_less_eq [OF zero_less_numeral] by linarith
    qed
    ultimately have "1 \<le> unat count" "unat count \<le> ?t" "unat count = (if is_percent spec then min ?t ((?t * ?v + 99) div 100) else min ?t ?v)"
      using t canary_value_pos [of spec] by auto
    then show ?thesis by (auto simp: cc word_less_nat_alt)
  qed
  moreover have "canaryCount spec 0 = 0" by (simp add: canaryCount_def)
  moreover have "case parseSize value of Inl _ \<Rightarrow> True
    | Inr n \<Rightarrow> (case size_multiplier (dropWhile isdigit value) of None \<Rightarrow> False
        | Some m \<Rightarrow> unat n = from_digits (takeWhile isdigit value) * unat m)"
    using parseSize_exact [of "value"] by (auto split: sum.splits)
  ultimately show ?thesis by (cases "?t = 0") (auto simp: Let_def word_le_nat_alt unat_eq_0)
qed

subsection \<open>Accepted command lines\<close>

text \<open>What the options maintain; a value that was not given is its default.\<close>

definition ri_ok :: "bool \<Rightarrow> run_invocation \<Rightarrow> bool" where
  "ri_ok sinkSet iv \<longleftrightarrow> 0 \<le> timeoutSec iv \<and> 0 \<le> concurrency iv \<and> 0 \<le> retries iv \<and> 0 \<le> ri_nativePort iv \<and>
     (retriesExplicit iv \<or> retries iv = 0) \<and> (shellExplicit iv \<or> ri_shell iv = Posix) \<and>
     (canaryExplicit iv \<or> canary iv = []) \<and> (canary iv = [] \<or> validateCanarySpec (canary iv) = Inr ()) \<and>
     (certExplicit iv \<or> certPath iv = []) \<and> (keyExplicit iv \<or> keyPath iv = []) \<and> (caExplicit iv \<or> caPath iv = []) \<and>
     (crlExplicit iv \<or> crlPath iv = []) \<and> (nativePortExplicit iv \<or> ri_nativePort iv = 7433) \<and>
     (consensusJson iv \<longrightarrow> ri_sink iv = Consensus \<and> sinkSet)"

lemma parseIntArg_nonneg: "parseIntArg v f = Inr n \<Longrightarrow> 0 \<le> n"
  by (auto simp: parseIntArg_def split: option.splits if_splits)

lemma map_sum_Inr: "map_sum id f r = Inr y \<longleftrightarrow> (\<exists>x. r = Inr x \<and> y = f x)"
  by (cases r) auto

lemma ri_ok_neutral [simp]:
  "ri_ok s (iv\<lparr>ri_selector := a\<rparr>) = ri_ok s iv" "ri_ok s (iv\<lparr>ri_inventoryPath := b\<rparr>) = ri_ok s iv"
  "ri_ok s (iv\<lparr>ri_policy := c\<rparr>) = ri_ok s iv" "ri_ok s (iv\<lparr>ringBytes := d\<rparr>) = ri_ok s iv"
  "ri_ok s (iv\<lparr>policyPath := b\<rparr>) = ri_ok s iv" "ri_ok s (iv\<lparr>auditPath := b\<rparr>) = ri_ok s iv"
  "ri_ok s (iv\<lparr>transportExplicit := e, native := f\<rparr>) = ri_ok s iv" "ri_ok s (iv\<lparr>ordered := e\<rparr>) = ri_ok s iv"
  "ri_ok s (iv\<lparr>reuse := e\<rparr>) = ri_ok s iv" "ri_ok s (iv\<lparr>failFast := e\<rparr>) = ri_ok s iv"
  "ri_ok s (iv\<lparr>idempotent := e\<rparr>) = ri_ok s iv" "ri_ok s (iv\<lparr>colour := e\<rparr>) = ri_ok s iv"
  "ri_ok s (iv\<lparr>ri_command := g\<rparr>) = ri_ok s iv"
  by (simp_all add: ri_ok_def)

lemma ri_ok_values:
  assumes "ri_ok s iv"
  shows "0 \<le> n \<Longrightarrow> ri_ok s (iv\<lparr>timeoutSec := n\<rparr>)" "0 \<le> n \<Longrightarrow> ri_ok s (iv\<lparr>concurrency := n\<rparr>)"
    "0 \<le> n \<Longrightarrow> ri_ok s (iv\<lparr>retriesExplicit := True, retries := n\<rparr>)"
    "validateCanarySpec v = Inr u \<Longrightarrow> ri_ok s (iv\<lparr>canaryExplicit := True, canary := v\<rparr>)"
    "ri_ok s (iv\<lparr>shellExplicit := True, ri_shell := sh\<rparr>)"
    "ri_ok s (iv\<lparr>certExplicit := True, certPath := v\<rparr>)" "ri_ok s (iv\<lparr>keyExplicit := True, keyPath := v\<rparr>)"
    "ri_ok s (iv\<lparr>caExplicit := True, caPath := v\<rparr>)" "ri_ok s (iv\<lparr>crlExplicit := True, crlPath := v\<rparr>)"
    "0 \<le> n \<Longrightarrow> ri_ok s (iv\<lparr>nativePortExplicit := True, ri_nativePort := n\<rparr>)"
  using assms by (simp_all add: ri_ok_def)

text \<open>An outcome that is an error or keeps the invariant.\<close>

definition keeps :: "bool \<Rightarrow> run_invocation thrown \<Rightarrow> bool" where
  "keeps s r \<longleftrightarrow> (\<forall>iv'. r = Inr iv' \<longrightarrow> ri_ok s iv')"

definition keeps_pair :: "(run_invocation \<times> bool) thrown \<Rightarrow> bool" where
  "keeps_pair r \<longleftrightarrow> (\<forall>iv' s'. r = Inr (iv', s') \<longrightarrow> ri_ok s' iv')"

lemma keeps_intros:
  "keeps s x \<Longrightarrow> keeps s y \<Longrightarrow> keeps s (if b then x else y)" "ri_ok s iv \<Longrightarrow> keeps s (Inr iv)" "keeps s (Inl e)"
  "(\<And>x. r = Inr x \<Longrightarrow> ri_ok s (f x)) \<Longrightarrow> keeps s (map_sum id f r)"
  "keeps_pair u \<Longrightarrow> keeps_pair v \<Longrightarrow> keeps_pair (if b then u else v)" "ri_ok s iv \<Longrightarrow> keeps_pair (Inr (iv, s))" "keeps_pair (Inl e)"
  by (auto simp: keeps_def keeps_pair_def map_sum_Inr)

lemma run_value_ok: "ri_ok s iv \<Longrightarrow> keeps s (run_value iv arg v)"
proof -
  assume o: "ri_ok s iv"
  have sel: "keeps s (with_selector iv kind v)" for kind
    using o by (auto simp: with_selector_def keeps_def split: sum.splits)
  show ?thesis unfolding run_value_def
    by (intro keeps_intros sel) (use o in \<open>simp_all add: ri_ok_values parseIntArg_nonneg\<close>)
qed

lemma run_flag_ok: "ri_ok s iv \<Longrightarrow> keeps_pair (run_flag iv s arg)"
proof -
  assume o: "ri_ok s iv"
  have sink: "keeps_pair (setSink iv mode s)" for mode using o by (auto simp: setSink_def keeps_pair_def ri_ok_def)
  have json: "keeps_pair (if s \<and> ri_sink iv = Consensus then Inr (iv\<lparr>consensusJson := True\<rparr>, s) else setSink iv Json s)"
  proof (cases "s \<and> ri_sink iv = Consensus")
    case True
    then show ?thesis using o by (simp add: keeps_pair_def ri_ok_def)
  qed (auto simp: sink)
  have cons: "ri_ok True (iv\<lparr>consensusJson := x, ri_sink := Consensus\<rparr>)" for x using o by (simp add: ri_ok_def)
  show ?thesis unfolding run_flag_def
    by (intro keeps_intros sink json) (use o in \<open>simp_all add: cons\<close>)
qed

lemma run_options_ok:
  "run_options iv s args = Inr (iv', command) \<Longrightarrow> ri_ok s iv \<Longrightarrow>
     \<exists>opts s'. args = opts @ ''--'' # command \<and> ri_ok s' iv'"
proof (induction iv s args arbitrary: rule: run_options.induct)
  case (2 iv s arg args)
  consider "arg = ''--''" | "arg \<noteq> ''--''" "takes_value arg" | "arg \<noteq> ''--''" "\<not> takes_value arg" by blast
  then show ?case
  proof cases
    case 1
    then show ?thesis using "2.prems" by (intro exI [of _ "[]"]) auto
  next
    case c: 2
    then obtain v args' iv1 where a: "args = v # args'" "run_value iv arg v = Inr iv1" "run_options iv1 s args' = Inr (iv', command)"
      using "2.prems"(1) by (auto split: list.splits sum.splits)
    have "ri_ok s iv1" using run_value_ok [OF "2.prems"(2)] a(2) by (auto simp: keeps_def)
    then obtain opts s' where "args' = opts @ ''--'' # command" "ri_ok s' iv'" using "2.IH"(1) [OF c(1,2) a(1,2,3)] by blast
    then show ?thesis using a(1) by (intro exI [of _ "arg # v # opts"]) auto
  next
    case c: 3
    then obtain iv1 s1 where a: "run_flag iv s arg = Inr (iv1, s1)" "run_options iv1 s1 args = Inr (iv', command)"
      using "2.prems"(1) by (auto split: sum.splits)
    have "ri_ok s1 iv1" using run_flag_ok [OF "2.prems"(2)] a(1) by (auto simp: keeps_pair_def)
    then obtain opts s' where "args = opts @ ''--'' # command" "ri_ok s' iv'" using "2.IH"(2) [OF c(1,2) a(1) refl a(2)] by blast
    then show ?thesis by (intro exI [of _ "arg # opts"]) auto
  qed
qed simp

text \<open>A command line that \<open>pipeshellx run\<close> accepts ends in \<open>--\<close> and a non-empty command, which is passed on word for
  word; numbers are not negative, the canary specification is valid, a native run has a port in range and no option of
  the ssh transport, and an explicit ssh run has no option of the native one.\<close>

theorem accepted_command_line:
  assumes "parseRun args = Inr iv"
  shows "(\<exists>opts. args = opts @ ''--'' # ri_command iv) \<and> ri_command iv \<noteq> [] \<and> (\<exists>s. ri_ok s iv) \<and>
    (native iv \<longrightarrow> 1 \<le> ri_nativePort iv \<and> ri_nativePort iv \<le> 65535 \<and> \<not> reuse iv \<and> \<not> idempotent iv \<and> retries iv = 0 \<and> ri_shell iv = Posix) \<and>
    (transportExplicit iv \<and> \<not> native iv \<longrightarrow> canary iv = [] \<and> certPath iv = [] \<and> keyPath iv = [] \<and> caPath iv = [] \<and> crlPath iv = [])"
proof -
  obtain iv0 command where p: "run_options RunInvocation False args = Inr (iv0, command)" "command \<noteq> []"
    "check_transport (iv0\<lparr>ri_command := command\<rparr>) = Inr iv"
    using assms by (auto simp: parseRun_def split: sum.splits if_splits)
  have "ri_ok False RunInvocation" by (simp add: ri_ok_def RunInvocation_def)
  then obtain opts s where o: "args = opts @ ''--'' # command" "ri_ok s iv0" using run_options_ok [OF p(1)] by blast
  have iv: "iv = iv0\<lparr>ri_command := command\<rparr>" using p(3) by (simp add: check_transport_def split: if_split_asm)
  have ok: "ri_ok s iv" using o(2) by (simp add: iv)
  have n: "native iv \<Longrightarrow> 1 \<le> ri_nativePort iv \<and> ri_nativePort iv \<le> 65535 \<and> \<not> reuse iv \<and> \<not> idempotent iv \<and> \<not> retriesExplicit iv \<and> \<not> shellExplicit iv"
    using p(3) unfolding iv [symmetric] by (auto simp: check_transport_def split: if_split_asm)
  have t: "transportExplicit iv \<Longrightarrow> \<not> native iv \<Longrightarrow> \<not> canaryExplicit iv \<and> \<not> certExplicit iv \<and> \<not> keyExplicit iv \<and> \<not> caExplicit iv \<and> \<not> crlExplicit iv"
    using p(3) unfolding iv [symmetric] by (auto simp: check_transport_def split: if_split_asm)
  have c: "ri_command iv = command" by (simp add: iv)
  show ?thesis
    using ok n t p(2) o(1) unfolding c ri_ok_def by blast
qed

theorem accepted_command_line_witness:
  "\<exists>iv. parseRun [''-g'', ''web'', ''--json'', ''--'', ''uptime''] = Inr iv \<and> ri_command iv \<noteq> []"
proof -
  have "parseRun [''-g'', ''web'', ''--json'', ''--'', ''uptime''] =
      Inr (RunInvocation\<lparr>ri_selector := \<lparr>sel_kind = ByGroup, sel_value = ''web'', sel_hosts = []\<rparr>, ri_sink := Json, ri_command := [''uptime'']\<rparr>)"
    by (simp add: parseRun_def takes_value_def run_value_def with_selector_def setSelector_def RunInvocation_def run_flag_def setSink_def
        check_transport_def)
  with accepted_command_line [OF this] show ?thesis by blast
qed

end
