(* ===== verification/Inventory.thy ===== *)
theory Inventory
  imports Text
begin

text \<open>
  \<open>psx::inventory::Inventory\<close> (\<open>include/psx/inventory/inventory.hpp\<close>, \<open>src/inventory/inventory.cpp\<close>): the
  fleet a run targets.  Parsing keeps the inventory well formed, the mutations preserve that, and the
  canonical text of an inventory is read back.
\<close>

subsection \<open>Data\<close>

record host =
  h_name :: string
  h_user :: string
  h_host :: string
  h_port :: nat
  h_identity :: string
  h_transport :: string
  h_san :: string
  h_nativePort :: nat
  h_groups :: "string list"
  h_tags :: "string list"

record inventory =
  hosts :: "host list"
  sourcePath :: string

definition newHost :: "string \<Rightarrow> host" where
  "newHost name = \<lparr>h_name = name, h_user = [], h_host = name, h_port = 22, h_identity = [], h_transport = ''ssh'',
     h_san = [], h_nativePort = 0, h_groups = [], h_tags = []\<rparr>"

subsection \<open>Text\<close>

fun inv_strip :: "char option \<Rightarrow> string \<Rightarrow> string" where
  "inv_strip prev [] = []"
| "inv_strip prev (c # cs) =
     (if (c = CHR ''#'' \<or> c = CHR '';'') \<and> (case prev of None \<Rightarrow> True | Some p \<Rightarrow> p = CHR '' '' \<or> p = TAB) then []
      else c # inv_strip (Some c) cs)"

definition inv_stripComment :: "string \<Rightarrow> string" where
  "inv_stripComment = inv_strip None"

definition is_gap :: "char \<Rightarrow> bool" where
  "is_gap c \<longleftrightarrow> c = CHR '' '' \<or> c = TAB"

definition splitWhitespace :: "string \<Rightarrow> string list" where
  "splitWhitespace = words_by is_gap"

definition inv_fail :: "nat \<Rightarrow> string \<Rightarrow> 'a thrown" where
  "inv_fail n message = Inl (''inventory: line '' @ to_string n @ '': '' @ message)"

definition parsePort :: "string \<Rightarrow> nat \<Rightarrow> nat thrown" where
  "parsePort value n =
     (case from_chars 32 value of
        Some port \<Rightarrow> if port = 0 \<or> port > 65535 then inv_fail n (''invalid port '' @ [SQ] @ value @ [SQ]) else Inr port
      | None \<Rightarrow> inv_fail n (''invalid port '' @ [SQ] @ value @ [SQ]))"

definition addUnique :: "string list \<Rightarrow> string \<Rightarrow> string list" where
  "addUnique xs value = (if value \<in> set xs then xs else xs @ [value])"

definition isSupportedTransport :: "string \<Rightarrow> bool" where
  "isSupportedTransport value \<longleftrightarrow> value = ''ssh'' \<or> value = ''native''"

subsection \<open>Parsing\<close>

text \<open>The position of the host with a name, appended when there is none.\<close>

definition upsert :: "host list \<Rightarrow> string \<Rightarrow> host list \<times> nat" where
  "upsert hs name =
     (let k = length (takeWhile (\<lambda>h. h_name h \<noteq> name) hs) in
      if k < length hs then (hs, k) else (hs @ [newHost name], k))"

record ini =
  defaultUser :: string
  defaultIdentity :: string
  defaultPort :: nat
  defaultPortSet :: bool
  currentGroup :: string
  inDefaults :: bool
  ini_hosts :: "host list"

definition Ini :: ini where
  "Ini = \<lparr>defaultUser = [], defaultIdentity = [], defaultPort = 22, defaultPortSet = False, currentGroup = [],
     inDefaults = False, ini_hosts = []\<rparr>"

definition add_tags :: "string list \<Rightarrow> string \<Rightarrow> string list" where
  "add_tags ts value = foldl addUnique ts (filter (\<lambda>t. t \<noteq> []) (split_on (CHR '','') value))"

definition host_option :: "nat \<Rightarrow> host \<Rightarrow> string \<Rightarrow> host thrown" where
  "host_option n entry opt =
     (case find_char (CHR ''='') opt of
        None \<Rightarrow> inv_fail n (''expected key=value option, got '' @ [SQ] @ opt @ [SQ])
      | Some eq \<Rightarrow>
        let key = take eq opt; value = drop (eq + 1) opt in
        if key = ''user'' then Inr (entry\<lparr>h_user := value\<rparr>)
        else if key = ''port'' then
          (case parsePort value n of Inl e \<Rightarrow> Inl e | Inr p \<Rightarrow> Inr (entry\<lparr>h_port := p\<rparr>))
        else if key = ''identity'' then Inr (entry\<lparr>h_identity := value\<rparr>)
        else if key = ''transport'' then
          if \<not> isSupportedTransport value
          then inv_fail n (''transport must be ssh or native, got '' @ [SQ] @ value @ [SQ])
          else Inr (entry\<lparr>h_transport := value\<rparr>)
        else if key = ''san'' then Inr (entry\<lparr>h_san := value\<rparr>)
        else if key = ''native_port'' then
          (case parsePort value n of Inl e \<Rightarrow> Inl e | Inr p \<Rightarrow> Inr (entry\<lparr>h_nativePort := p\<rparr>))
        else if key = ''tag'' then Inr (entry\<lparr>h_tags := add_tags (h_tags entry) value\<rparr>)
        else inv_fail n (''unknown host option '' @ [SQ] @ key @ [SQ]))"

fun host_options :: "nat \<Rightarrow> host \<Rightarrow> string list \<Rightarrow> host thrown" where
  "host_options n entry [] = Inr entry"
| "host_options n entry (opt # opts) =
     (case host_option n entry opt of Inl e \<Rightarrow> Inl e | Inr entry' \<Rightarrow> host_options n entry' opts)"

definition section_line :: "nat \<Rightarrow> ini \<Rightarrow> string \<Rightarrow> ini thrown" where
  "section_line n s line =
     (if last line \<noteq> CHR '']'' then inv_fail n ''unterminated section header''
      else let section = trim_ws (take (length line - 2) (drop 1 line)) in
        if section = ''defaults'' then Inr (s\<lparr>inDefaults := True, currentGroup := []\<rparr>)
        else Inr (s\<lparr>inDefaults := False, currentGroup := section\<rparr>))"

definition default_line :: "nat \<Rightarrow> ini \<Rightarrow> string \<Rightarrow> ini thrown" where
  "default_line n s line =
     (case find_char (CHR ''='') line of
        None \<Rightarrow> inv_fail n ''expected key = value in [defaults]''
      | Some eq \<Rightarrow>
        let key = trim_ws (take eq line); value = trim_ws (drop (eq + 1) line) in
        if key = ''user'' then Inr (s\<lparr>defaultUser := value\<rparr>)
        else if key = ''identity'' then Inr (s\<lparr>defaultIdentity := value\<rparr>)
        else if key = ''port'' then
          (case parsePort value n of Inl e \<Rightarrow> Inl e
           | Inr p \<Rightarrow> Inr (s\<lparr>defaultPort := p, defaultPortSet := True\<rparr>))
        else inv_fail n (''unknown default '' @ [SQ] @ key @ [SQ]))"

text \<open>What the host token and the defaults make of an entry, before its options.\<close>

definition apply_defaults :: "ini \<Rightarrow> string \<Rightarrow> string \<Rightarrow> host \<Rightarrow> host" where
  "apply_defaults s user hst entry =
     (let e1 = entry\<lparr>h_host := hst\<rparr>;
          e2 = (if user \<noteq> [] then e1\<lparr>h_user := user\<rparr>
                else if h_user e1 = [] then e1\<lparr>h_user := defaultUser s\<rparr> else e1);
          e3 = (if h_identity e2 = [] then e2\<lparr>h_identity := defaultIdentity s\<rparr> else e2);
          e4 = (if defaultPortSet s \<and> h_port e3 = 22 then e3\<lparr>h_port := defaultPort s\<rparr> else e3)
      in e4\<lparr>h_groups := addUnique (h_groups e4) (currentGroup s)\<rparr>)"

definition host_token :: "ini \<Rightarrow> string \<Rightarrow> string \<times> string" where
  "host_token s spec =
     (case find_char (CHR ''@'') spec of None \<Rightarrow> (defaultUser s, spec)
      | Some at \<Rightarrow> (take at spec, drop (at + 1) spec))"

definition host_line :: "nat \<Rightarrow> ini \<Rightarrow> string \<Rightarrow> ini thrown" where
  "host_line n s line =
     (if currentGroup s = [] then inv_fail n (''host '' @ [SQ] @ line @ [SQ] @ '' appears before any [group]'')
      else let tokens = splitWhitespace line;
               (user, hst) = host_token s (hd tokens);
               (hs, k) = upsert (ini_hosts s) hst
        in case host_options n (apply_defaults s user hst (hs ! k)) (tl tokens) of Inl e \<Rightarrow> Inl e
          | Inr entry \<Rightarrow> Inr (s\<lparr>ini_hosts := hs[k := entry]\<rparr>))"

definition ini_line :: "nat \<Rightarrow> ini \<Rightarrow> string \<Rightarrow> ini thrown" where
  "ini_line n s rawLine =
     (let line = trim_ws (inv_stripComment rawLine) in
      if line = [] then Inr s
      else if hd line = CHR ''['' then section_line n s line
      else if inDefaults s then default_line n s line
      else host_line n s line)"

fun ini_lines :: "nat \<Rightarrow> ini \<Rightarrow> string list \<Rightarrow> ini thrown" where
  "ini_lines n s [] = Inr s"
| "ini_lines n s (l # ls) = (case ini_line n s l of Inl e \<Rightarrow> Inl e | Inr s' \<Rightarrow> ini_lines (n + 1) s' ls)"

definition inv_parse :: "string \<Rightarrow> string \<Rightarrow> inventory thrown" where
  "inv_parse iniText path =
     (case ini_lines 1 Ini (split_on NL iniText) of Inl e \<Rightarrow> Inl e
      | Inr s \<Rightarrow> Inr \<lparr>hosts = ini_hosts s, sourcePath = path\<rparr>)"

subsection \<open>Selection and mutation\<close>

definition selectGroup :: "inventory \<Rightarrow> string \<Rightarrow> host list" where
  "selectGroup iv grp = filter (\<lambda>h. grp \<in> set (h_groups h)) (hosts iv)"

definition selectTag :: "inventory \<Rightarrow> string \<Rightarrow> host list" where
  "selectTag iv tag = filter (\<lambda>h. tag \<in> set (h_tags h)) (hosts iv)"

fun selectHosts :: "inventory \<Rightarrow> string list \<Rightarrow> host list thrown" where
  "selectHosts iv [] = Inr []"
| "selectHosts iv (name # names) =
     (case find (\<lambda>h. h_name h = name \<or> h_host h = name) (hosts iv) of
        None \<Rightarrow> Inl (''inventory: no such host '' @ [SQ] @ name @ [SQ])
      | Some h \<Rightarrow> (case selectHosts iv names of Inl e \<Rightarrow> Inl e | Inr hs \<Rightarrow> Inr (h # hs)))"

definition inv_groups :: "host list \<Rightarrow> string list" where
  "inv_groups hs = foldl addUnique [] (concat (map h_groups hs))"

definition inv_tags :: "host list \<Rightarrow> string list" where
  "inv_tags hs = foldl addUnique [] (concat (map h_tags hs))"

definition inv_add :: "inventory \<Rightarrow> host \<Rightarrow> inventory thrown" where
  "inv_add iv h =
     (if h_name h = [] \<or> h_host h = [] then Inl ''inventory: host name must not be empty''
      else if \<not> isSupportedTransport (h_transport h)
        then Inl (''inventory: transport must be ssh or native, got '' @ [SQ] @ h_transport h @ [SQ])
      else if \<exists>existing \<in> set (hosts iv). h_name existing = h_name h \<or> h_host existing = h_host h
        then Inl (''inventory: host '' @ [SQ] @ h_name h @ [SQ] @ '' already exists'')
      else Inr (iv\<lparr>hosts := hosts iv @ [if h_groups h = [] then h\<lparr>h_groups := [''all'']\<rparr> else h]\<rparr>))"

definition inv_remove :: "inventory \<Rightarrow> string \<Rightarrow> inventory \<times> bool" where
  "inv_remove iv name =
     (let k = length (takeWhile (\<lambda>h. \<not> (h_name h = name \<or> h_host h = name)) (hosts iv)) in
      if k < length (hosts iv) then (iv\<lparr>hosts := take k (hosts iv) @ drop (k + 1) (hosts iv)\<rparr>, True)
      else (iv, False))"

subsection \<open>Canonical text\<close>

definition inv_join :: "string list \<Rightarrow> string" where
  "inv_join values = foldl (\<lambda>result value. (if result \<noteq> [] then result @ '','' else result) @ value) [] values"

definition host_text :: "host \<Rightarrow> string" where
  "host_text e =
     (if h_user e \<noteq> [] then h_user e @ ''@'' else []) @ h_host e @ '' transport='' @ h_transport e @
     (if h_port e \<noteq> 22 then '' port='' @ to_string (h_port e) else []) @
     (if h_identity e \<noteq> [] then '' identity='' @ h_identity e else []) @
     (if h_tags e \<noteq> [] then '' tag='' @ inv_join (h_tags e) else []) @
     (if h_san e \<noteq> [] then '' san='' @ h_san e else []) @
     (if h_nativePort e \<noteq> 0 then '' native_port='' @ to_string (h_nativePort e) else [])"

definition group_text :: "host list \<Rightarrow> string \<Rightarrow> string" where
  "group_text hs grp =
     ''['' @ grp @ '']'' @ [NL] @
     concat (map (\<lambda>e. host_text e @ [NL]) (filter (\<lambda>e. grp \<in> set (h_groups e)) hs))"

fun groups_text :: "host list \<Rightarrow> string list \<Rightarrow> string" where
  "groups_text hs [] = []"
| "groups_text hs [g] = group_text hs g"
| "groups_text hs (g # gs) = group_text hs g @ [NL] @ groups_text hs gs"

definition inv_serialize :: "inventory \<Rightarrow> string" where
  "inv_serialize iv = groups_text (hosts iv) (inv_groups (hosts iv))"

subsection \<open>Legacy client files and lookup\<close>

text \<open>The parameters of an \<open>ssh://\<close> line; \<open>keys\<close> are the ones already seen.\<close>

fun legacy_query :: "nat \<Rightarrow> string set \<Rightarrow> string \<Rightarrow> string list \<Rightarrow> string thrown" where
  "legacy_query n keys normalized [] = Inr normalized"
| "legacy_query n keys normalized (parameter # ps) =
     (case find_char (CHR ''='') parameter of
        None \<Rightarrow> inv_fail n ''invalid SSH URL query parameter''
      | Some equals \<Rightarrow>
        if equals = 0 \<or> equals + 1 = length parameter then inv_fail n ''invalid SSH URL query parameter''
        else let key = take equals parameter; value = drop (equals + 1) parameter in
          if key \<in> {''password'', ''pass'', ''secret'', ''token''} then legacy_query n keys normalized ps
          else let key' = (if key = ''key'' then ''identity'' else key) in
            if key' \<notin> {''identity'', ''san'', ''native_port''}
              then inv_fail n (''unsupported SSH URL query parameter '' @ [SQ] @ key' @ [SQ])
            else if key' \<in> keys then inv_fail n (''duplicate SSH URL query parameter '' @ [SQ] @ key' @ [SQ])
            else legacy_query n (insert key' keys) (normalized @ '' '' @ key' @ ''='' @ value) ps)"

definition query_parts :: "string \<Rightarrow> string list" where
  "query_parts query = (let ps = split_on (CHR ''&'') query in if last ps = [] then butlast ps else ps)"

text \<open>\<open>rfind\<close>: the last position of a character.\<close>

definition rfind_char :: "char \<Rightarrow> string \<Rightarrow> nat option" where
  "rfind_char c s = (case find_char c (rev s) of None \<Rightarrow> None | Some k \<Rightarrow> Some (length s - 1 - k))"

definition legacy_line :: "nat \<Rightarrow> string \<Rightarrow> string thrown" where
  "legacy_line n line =
     (if starts_with ''ssh://'' line then
        let rest0 = drop 6 line;
            query = (case find_char (CHR ''?'') rest0 of None \<Rightarrow> [] | Some q \<Rightarrow> drop (q + 1) rest0);
            rest = (case find_char (CHR ''?'') rest0 of None \<Rightarrow> rest0 | Some q \<Rightarrow> take q rest0);
            colon = rfind_char (CHR '':'') rest;
            at = find_char (CHR ''@'') rest
        in if (case at of None \<Rightarrow> False | Some k \<Rightarrow> CHR '':'' \<in> set (take k rest))
           then inv_fail n ''embedded user:password credentials are not allowed''
           else legacy_query n {} (case colon of
               Some c \<Rightarrow> if (case at of None \<Rightarrow> True | Some k \<Rightarrow> c > k) then take c rest @ '' port='' @ drop (c + 1) rest else rest
             | None \<Rightarrow> rest) (query_parts query)
      else case find_char (CHR ''@'') line of
          Some k \<Rightarrow> if CHR '':'' \<in> set (take k line) then inv_fail n ''embedded user:password credentials are not allowed'' else Inr line
        | None \<Rightarrow> Inr line)"

fun legacy_lines :: "nat \<Rightarrow> string set \<Rightarrow> string \<Rightarrow> string list \<Rightarrow> string thrown" where
  "legacy_lines n imported ini0 [] = Inr ini0"
| "legacy_lines n imported ini0 (raw # raws) =
     (let line = trim_ws raw in
      if line = [] \<or> hd line = CHR ''#'' then legacy_lines (n + 1) imported ini0 raws
      else case legacy_line n line of Inl e \<Rightarrow> Inl e
        | Inr normalized \<Rightarrow>
          (case inv_parse (''[all]'' @ [NL] @ normalized @ [NL]) [] of Inl e \<Rightarrow> Inl e
           | Inr single \<Rightarrow>
             if length (hosts single) \<noteq> 1 then inv_fail n ''expected exactly one legacy host entry''
             else let hostName = h_name (hd (hosts single)) in
               if hostName \<in> imported then inv_fail n (''duplicate host '' @ [SQ] @ hostName @ [SQ])
               else legacy_lines (n + 1) (insert hostName imported) (ini0 @ normalized @ [NL]) raws))"

definition importClientsTxt :: "string \<Rightarrow> string \<Rightarrow> inventory thrown" where
  "importClientsTxt txt0 path =
     (case legacy_lines 1 {} (''[all]'' @ [NL]) (split_on NL txt0) of Inl e \<Rightarrow> Inl e
      | Inr ini0 \<Rightarrow> inv_parse ini0 path)"

text \<open>The file system and the environment are arguments.\<close>

record world =
  w_files :: "string \<rightharpoonup> string"
  w_filename :: "string \<Rightarrow> string"
  w_trusted :: bool
  w_getenv :: "string \<Rightarrow> string option"
  w_home :: string

definition inv_loadFromFile :: "world \<Rightarrow> string \<Rightarrow> inventory thrown" where
  "inv_loadFromFile w path =
     (case w_files w path of None \<Rightarrow> Inl (''inventory: cannot open '' @ [SQ] @ path @ [SQ])
      | Some content \<Rightarrow>
        if w_filename w path = ''clients.txt'' then importClientsTxt content path else inv_parse content path)"

definition isRegularFile :: "world \<Rightarrow> string \<Rightarrow> bool" where
  "isRegularFile w path \<longleftrightarrow> w_files w path \<noteq> None"

definition nonEmptyEnvironment :: "world \<Rightarrow> string \<Rightarrow> string" where
  "nonEmptyEnvironment w name = (case w_getenv w name of None \<Rightarrow> [] | Some v \<Rightarrow> v)"

text \<open>\<open>operator/\<close> of \<open>std::filesystem::path\<close> with a relative right side.\<close>

definition path_append :: "string \<Rightarrow> string \<Rightarrow> string" where
  "path_append p q = (if p = [] \<or> last p = CHR ''/'' then p @ q else p @ ''/'' @ q)"

definition resolvePath :: "world \<Rightarrow> string \<Rightarrow> string" where
  "resolvePath w explicitPath =
     (if explicitPath \<noteq> [] then explicitPath
      else if w_trusted w \<and> nonEmptyEnvironment w ''PIPESHELLX_INVENTORY'' \<noteq> []
        then nonEmptyEnvironment w ''PIPESHELLX_INVENTORY''
      else if isRegularFile w ''inventory.ini'' then ''inventory.ini''
      else if isRegularFile w ''clients.txt'' then ''clients.txt''
      else
        let xdg = (if w_trusted w then nonEmptyEnvironment w ''XDG_CONFIG_HOME'' else []);
            configRoot = (if xdg \<noteq> [] then xdg else if w_home w \<noteq> [] then path_append (w_home w) ''.config'' else []);
            userInventory = path_append (path_append configRoot ''pipeshellx'') ''inventory.ini''
        in if configRoot \<noteq> [] \<and> isRegularFile w userInventory then userInventory else [])"

subsection \<open>Well-formed inventories\<close>

definition host_ok :: "host \<Rightarrow> bool" where
  "host_ok h \<longleftrightarrow> 0 < h_port h \<and> h_port h \<le> 65535 \<and> h_nativePort h \<le> 65535 \<and> isSupportedTransport (h_transport h) \<and>
     h_groups h \<noteq> [] \<and> distinct (h_groups h) \<and> distinct (h_tags h)"

definition hosts_ok :: "host list \<Rightarrow> bool" where
  "hosts_ok hs \<longleftrightarrow> distinct (map h_name hs) \<and> distinct (map h_host hs) \<and> (\<forall>h \<in> set hs. host_ok h)"

text \<open>What the parser maintains: the address of a host is its name.\<close>

definition entry_ok :: "host \<Rightarrow> bool" where
  "entry_ok h \<longleftrightarrow> 0 < h_port h \<and> h_port h \<le> 65535 \<and> h_nativePort h \<le> 65535 \<and> isSupportedTransport (h_transport h) \<and>
     distinct (h_groups h) \<and> distinct (h_tags h) \<and> h_host h = h_name h"

definition ini_ok :: "ini \<Rightarrow> bool" where
  "ini_ok s \<longleftrightarrow> distinct (map h_name (ini_hosts s)) \<and>
     (\<forall>h \<in> set (ini_hosts s). entry_ok h \<and> h_groups h \<noteq> []) \<and> 0 < defaultPort s \<and> defaultPort s \<le> 65535"

lemma parsePort_range: "parsePort v n = Inr p \<Longrightarrow> 0 < p \<and> p \<le> 65535"
  by (auto simp: parsePort_def inv_fail_def split: option.splits if_splits)

lemma distinct_addUnique: "distinct xs \<Longrightarrow> distinct (addUnique xs v)"
  by (simp add: addUnique_def)

lemma set_addUnique [simp]: "set (addUnique xs v) = insert v (set xs)"
  by (auto simp: addUnique_def)

lemma distinct_addAll: "distinct xs \<Longrightarrow> distinct (foldl addUnique xs vs)"
  by (induction vs arbitrary: xs) (simp_all add: distinct_addUnique)

lemma set_addAll: "set (foldl addUnique xs vs) = set xs \<union> set vs"
  by (induction vs arbitrary: xs) auto

lemma host_option_ok:
  "host_option n h opt = Inr h' \<Longrightarrow> entry_ok h \<Longrightarrow> entry_ok h' \<and> h_name h' = h_name h \<and> h_groups h' = h_groups h"
  by (auto simp: host_option_def entry_ok_def inv_fail_def Let_def add_tags_def distinct_addAll
      dest!: parsePort_range split: option.splits if_splits sum.splits)

lemma host_options_ok:
  "host_options n h opts = Inr h' \<Longrightarrow> entry_ok h \<Longrightarrow> entry_ok h' \<and> h_name h' = h_name h \<and> h_groups h' = h_groups h"
proof (induction opts arbitrary: h)
  case (Cons opt opts)
  then obtain h1 where h1: "host_option n h opt = Inr h1" "host_options n h1 opts = Inr h'" by (auto split: sum.splits)
  from Cons.IH [OF h1(2)] host_option_ok [OF h1(1) Cons.prems(2)] show ?case by auto
qed simp

lemma upsert_ok:
  assumes "upsert hs name = (hs', k)" "distinct (map h_name hs)" "\<forall>h \<in> set hs. entry_ok h"
  shows "k < length hs'" "h_name (hs' ! k) = name" "distinct (map h_name hs')" "\<forall>h \<in> set hs'. entry_ok h"
    "\<forall>h \<in> set hs'. h \<in> set hs \<or> h = newHost name \<and> hs' ! k = h"
proof -
  let ?k = "length (takeWhile (\<lambda>h. h_name h \<noteq> name) hs)"
  have "k < length hs' \<and> h_name (hs' ! k) = name \<and> distinct (map h_name hs') \<and> (\<forall>h \<in> set hs'. entry_ok h) \<and>
      (\<forall>h \<in> set hs'. h \<in> set hs \<or> h = newHost name \<and> hs' ! k = h)"
  proof (cases "?k < length hs")
    case True
    have "h_name (hs ! ?k) = name" using nth_length_takeWhile [OF True] by simp
    with True assms show ?thesis by (auto simp: upsert_def Let_def)
  next
    case False
    then have l: "?k = length hs" by (simp add: length_takeWhile_le order_antisym)
    then have "takeWhile (\<lambda>h. h_name h \<noteq> name) hs = hs" by (metis takeWhile_eq_take take_all_iff order_refl)
    then have n: "\<forall>h \<in> set hs. h_name h \<noteq> name" by (metis (mono_tags, lifting) set_takeWhileD)
    have "hs' = hs @ [newHost name]" "k = length hs" using assms(1) False l by (auto simp: upsert_def Let_def)
    with assms n show ?thesis by (auto simp: newHost_def entry_ok_def isSupportedTransport_def)
  qed
  then show "k < length hs'" "h_name (hs' ! k) = name" "distinct (map h_name hs')" "\<forall>h \<in> set hs'. entry_ok h"
    "\<forall>h \<in> set hs'. h \<in> set hs \<or> h = newHost name \<and> hs' ! k = h" by blast+
qed

lemma apply_defaults_ok:
  assumes "entry_ok h" "ini_ok s" "h_name h = hst"
  shows "entry_ok (apply_defaults s user hst h)" "h_name (apply_defaults s user hst h) = hst"
    "h_groups (apply_defaults s user hst h) \<noteq> []"
  using assms by (auto simp: apply_defaults_def Let_def entry_ok_def ini_ok_def addUnique_def)

lemma host_line_ok:
  assumes "host_line n s l = Inr s'" "ini_ok s"
  shows "ini_ok s'"
proof -
  obtain user hst where u: "host_token s (hd (splitWhitespace l)) = (user, hst)"
    by (cases "host_token s (hd (splitWhitespace l))")
  obtain hs k where up: "upsert (ini_hosts s) hst = (hs, k)" by (cases "upsert (ini_hosts s) hst")
  obtain e where e: "host_options n (apply_defaults s user hst (hs ! k)) (tl (splitWhitespace l)) = Inr e"
    "s' = s\<lparr>ini_hosts := hs[k := e]\<rparr>"
    using assms(1) u up by (auto simp: host_line_def inv_fail_def split: if_splits sum.splits)
  have so: "distinct (map h_name (ini_hosts s))" "\<forall>h \<in> set (ini_hosts s). entry_ok h"
    using assms(2) by (simp_all add: ini_ok_def)
  have k: "k < length hs" "h_name (hs ! k) = hst" "distinct (map h_name hs)" "\<forall>h \<in> set hs. entry_ok h"
    "\<forall>h \<in> set hs. h \<in> set (ini_hosts s) \<or> h = newHost hst \<and> hs ! k = h"
    using upsert_ok [OF up so] .
  have a: "entry_ok (apply_defaults s user hst (hs ! k))" "h_name (apply_defaults s user hst (hs ! k)) = hst"
    "h_groups (apply_defaults s user hst (hs ! k)) \<noteq> []"
    using apply_defaults_ok [OF _ assms(2) k(2)] k(4) nth_mem [OF k(1)] by blast+
  have e': "entry_ok e" "h_name e = hst" "h_groups e \<noteq> []" using host_options_ok [OF e(1) a(1)] a by auto
  have "map h_name (hs[k := e]) = map h_name hs" using k(1,2) e'(2) by (metis list_update_id map_update nth_map)
  moreover have "\<forall>h \<in> set (hs[k := e]). entry_ok h \<and> h_groups h \<noteq> []"
  proof
    fix h assume "h \<in> set (hs[k := e])"
    then obtain j where j: "j < length hs" "h = hs[k := e] ! j" by (auto simp: in_set_conv_nth)
    show "entry_ok h \<and> h_groups h \<noteq> []"
    proof (cases "j = k")
      case True
      with j e' show ?thesis by simp
    next
      case False
      then have h: "h = hs ! j" "h \<in> set hs" using j by auto
      have "h_name h \<noteq> hst" using k(1,2,3) j False h by (metis length_map nth_eq_iff_index_eq nth_map)
      then have "h \<in> set (ini_hosts s)" using k(5) h by (auto simp: newHost_def)
      then show ?thesis using assms(2) by (simp add: ini_ok_def)
    qed
  qed
  ultimately show ?thesis using k(3) assms(2) e(2) by (simp add: ini_ok_def)
qed

lemma ini_line_ok: "ini_line n s l = Inr s' \<Longrightarrow> ini_ok s \<Longrightarrow> ini_ok s'"
proof -
  assume l: "ini_line n s l = Inr s'" and s: "ini_ok s"
  have "ini_ok s'" if "section_line n s x = Inr s'" for x
    using that s by (auto simp: section_line_def inv_fail_def ini_ok_def Let_def split: if_splits)
  moreover have "ini_ok s'" if "default_line n s x = Inr s'" for x
    using that s by (auto simp: default_line_def inv_fail_def ini_ok_def Let_def dest!: parsePort_range
        split: if_splits option.splits sum.splits)
  moreover note host_line_ok [OF _ s]
  ultimately show ?thesis using l s by (auto simp: ini_line_def Let_def split: if_splits)
qed

lemma ini_lines_ok: "ini_lines n s ls = Inr s' \<Longrightarrow> ini_ok s \<Longrightarrow> ini_ok s'"
proof (induction ls arbitrary: n s)
  case (Cons l ls)
  then obtain s1 where "ini_line n s l = Inr s1" "ini_lines (n + 1) s1 ls = Inr s'" by (auto split: sum.splits)
  with Cons ini_line_ok show ?case by blast
qed simp

lemma parsed_ok: "inv_parse t path = Inr iv \<Longrightarrow> hosts_ok (hosts iv) \<and> (\<forall>h \<in> set (hosts iv). h_host h = h_name h)"
proof -
  assume "inv_parse t path = Inr iv"
  then obtain s where s: "ini_lines 1 Ini (split_on NL t) = Inr s" "iv = \<lparr>hosts = ini_hosts s, sourcePath = path\<rparr>"
    by (auto simp: inv_parse_def split: sum.splits)
  have "ini_ok s" by (rule ini_lines_ok [OF s(1)]) (simp add: ini_ok_def Ini_def)
  then have "distinct (map h_name (ini_hosts s))" "\<forall>h \<in> set (ini_hosts s). host_ok h \<and> h_host h = h_name h"
    by (auto simp: ini_ok_def entry_ok_def host_ok_def)
  note o = this
  have m: "map h_host (ini_hosts s) = map h_name (ini_hosts s)" using o(2) by (intro map_cong) auto
  show ?thesis using o s(2) by (simp add: hosts_ok_def m)
qed

lemma loaded_ok: "inv_loadFromFile w path = Inr iv \<Longrightarrow> hosts_ok (hosts iv)"
  using parsed_ok by (auto simp: inv_loadFromFile_def importClientsTxt_def split: option.splits if_splits sum.splits)

text \<open>The mutation commands; a refused one leaves the inventory as it is.\<close>

datatype inv_op = Add host | Remove string

fun inv_exec :: "inventory \<Rightarrow> inv_op \<Rightarrow> inventory" where
  "inv_exec iv (Add h) = (case inv_add iv h of Inl _ \<Rightarrow> iv | Inr iv' \<Rightarrow> iv')"
| "inv_exec iv (Remove name) = fst (inv_remove iv name)"

definition fleet_ok :: "host list \<Rightarrow> bool" where
  "fleet_ok hs \<longleftrightarrow> distinct (map h_name hs) \<and> distinct (map h_host hs) \<and>
     (\<forall>h \<in> set hs. isSupportedTransport (h_transport h) \<and> h_groups h \<noteq> [])"

lemma inv_exec_ok: "fleet_ok (hosts iv) \<Longrightarrow> fleet_ok (hosts (inv_exec iv oper))"
proof (cases oper)
  case (Add h)
  assume "fleet_ok (hosts iv)"
  then show ?thesis unfolding Add by (auto simp: inv_add_def fleet_ok_def split: sum.splits if_splits)
next
  case (Remove name)
  assume a: "fleet_ok (hosts iv)"
  have sub: "h \<in> set (take k hs @ drop (k + 1) hs) \<Longrightarrow> h \<in> set hs" for h k and hs :: "host list"
    by (auto dest: in_set_takeD in_set_dropD)
  have dis: "distinct (map f hs) \<Longrightarrow> distinct (map f (take k hs @ drop (k + 1) hs))" for f :: "host \<Rightarrow> string" and k hs
  proof -
    assume d: "distinct (map f hs)"
    have "set (take k (map f hs)) \<inter> set (drop (k + 1) (map f hs)) = {}"
      using d set_take_disj_set_drop_if_distinct [of "map f hs" k "k + 1"] by simp
    with d show ?thesis
      unfolding map_append take_map [symmetric] drop_map [symmetric] by (simp only: distinct_append distinct_take distinct_drop)
  qed
  define k where "k = length (takeWhile (\<lambda>h. \<not> (h_name h = name \<or> h_host h = name)) (hosts iv))"
  have "fleet_ok (take k (hosts iv) @ drop (k + 1) (hosts iv))"
    using a sub dis unfolding fleet_ok_def by blast
  then show ?thesis using a unfolding Remove inv_exec.simps inv_remove_def Let_def k_def [symmetric] by simp
qed

lemma inv_run_ok: "fleet_ok (hosts iv) \<Longrightarrow> fleet_ok (hosts (foldl inv_exec iv ops))"
  by (induction ops arbitrary: iv) (simp_all add: inv_exec_ok)

subsection \<open>The canonical text is read back\<close>

text \<open>Tokens a host line can carry.\<close>

definition plain_token :: "string \<Rightarrow> bool" where
  "plain_token t \<longleftrightarrow> (\<forall>c \<in> set t. \<not> is_blank c)"

definition token_start :: "string \<Rightarrow> bool" where
  "token_start t \<longleftrightarrow> t \<noteq> [] \<and> hd t \<notin> {CHR ''['', CHR ''#'', CHR '';''}"

definition writable_host :: "host \<Rightarrow> bool" where
  "writable_host h \<longleftrightarrow> host_ok h \<and> h_host h = h_name h \<and>
     plain_token (h_user h) \<and> plain_token (h_host h) \<and> CHR ''@'' \<notin> set (h_user h) \<and> CHR ''@'' \<notin> set (h_host h) \<and>
     h_host h \<noteq> [] \<and> token_start (if h_user h \<noteq> [] then h_user h else h_host h) \<and>
     plain_token (h_identity h) \<and> plain_token (h_san h) \<and>
     (\<forall>t \<in> set (h_tags h). t \<noteq> [] \<and> plain_token t \<and> CHR '','' \<notin> set t) \<and>
     (\<forall>g \<in> set (h_groups h). g \<noteq> [] \<and> g \<noteq> ''defaults'' \<and> NL \<notin> set g \<and> \<not> is_blank (hd g) \<and> \<not> is_blank (last g) \<and>
        CHR ''#'' \<notin> set g \<and> CHR '';'' \<notin> set g)"

lemma plain_simps [simp]: "plain_token []" "plain_token (a @ b) \<longleftrightarrow> plain_token a \<and> plain_token b"
    "plain_token (c # a) \<longleftrightarrow> \<not> is_blank c \<and> plain_token a"
  by (auto simp: plain_token_def)

lemma strip_keep:
  assumes "\<forall>c \<in> set t. c \<noteq> CHR ''#'' \<and> c \<noteq> CHR '';''"
  shows "inv_strip prev t = t"
  using assms by (induction t arbitrary: prev) auto

text \<open>A gap is always followed by a letter in a host line, so nothing is taken for a comment.\<close>

lemma strip_token:
  assumes "plain_token t" "prev = Some c \<and> \<not> is_gap c"
  shows "inv_strip prev (t @ rest) = t @ inv_strip (Some (if t = [] then c else last t)) rest"
  using assms
proof (induction t arbitrary: prev c)
  case (Cons d t)
  have "\<not> is_gap d" using Cons.prems(1) by (simp add: plain_token_def is_blank_def is_gap_def)
  then show ?case using Cons.IH [of "Some d" d] Cons.prems by (auto simp: plain_token_def is_gap_def)
qed simp

text \<open>A host line as tokens.\<close>

definition host_head :: "host \<Rightarrow> string" where
  "host_head h = (if h_user h \<noteq> [] then h_user h @ ''@'' else []) @ h_host h"

definition host_opts :: "host \<Rightarrow> string list" where
  "host_opts h = [''transport='' @ h_transport h] @
     (if h_port h \<noteq> 22 then [''port='' @ to_string (h_port h)] else []) @
     (if h_identity h \<noteq> [] then [''identity='' @ h_identity h] else []) @
     (if h_tags h \<noteq> [] then [''tag='' @ inv_join (h_tags h)] else []) @
     (if h_san h \<noteq> [] then [''san='' @ h_san h] else []) @
     (if h_nativePort h \<noteq> 0 then [''native_port='' @ to_string (h_nativePort h)] else [])"

definition spaced :: "string list \<Rightarrow> string" where
  "spaced ts = concat (map (\<lambda>t. CHR '' '' # t) ts)"

lemma host_text_tokens: "host_text h = host_head h @ spaced (host_opts h)"
  by (simp add: host_text_def host_head_def host_opts_def spaced_def)

definition good_token :: "string \<Rightarrow> bool" where
  "good_token t \<longleftrightarrow> plain_token t \<and> t \<noteq> [] \<and> hd t \<noteq> CHR ''#'' \<and> hd t \<noteq> CHR '';''"

lemma strip_good:
  assumes "good_token t" "prev = None \<or> prev = Some (CHR '' '')"
  shows "inv_strip prev (t @ rest) = t @ inv_strip (Some (last t)) rest"
proof -
  obtain c cs where t: "t = c # cs" using assms(1) by (cases t) (auto simp: good_token_def)
  have c: "\<not> is_gap c" "c \<noteq> CHR ''#''" "c \<noteq> CHR '';''" "plain_token cs"
    using assms(1) by (auto simp: t good_token_def plain_token_def is_blank_def is_gap_def)
  show ?thesis using strip_token [OF c(4), of "Some c" c rest] c by (simp add: t)
qed

lemma strip_spaced:
  assumes "\<forall>t \<in> set ts. good_token t" "\<not> is_gap c"
  shows "inv_strip (Some c) (spaced ts) = spaced ts"
  using assms
proof (induction ts arbitrary: c)
  case (Cons t ts)
  have g: "good_token t" using Cons.prems by simp
  have l: "\<not> is_gap (last t)" using g last_in_set [of t] by (auto simp: good_token_def plain_token_def is_blank_def is_gap_def)
  have "inv_strip (Some c) (CHR '' '' # t @ spaced ts) = CHR '' '' # t @ inv_strip (Some (last t)) (spaced ts)"
    using strip_good [OF g, of "Some (CHR '' '')" "spaced ts"] by simp
  then show ?case using Cons.IH [OF _ l] Cons.prems by (simp add: spaced_def)
qed (simp add: spaced_def)

lemma words_spaced: "\<forall>t \<in> set ts. good_token t \<Longrightarrow> splitWhitespace (spaced ts) = ts"
proof (induction ts)
  case (Cons t ts)
  have g: "t \<noteq> []" "\<forall>c \<in> set t. \<not> is_gap c" using Cons.prems by (auto simp: good_token_def plain_token_def is_blank_def is_gap_def)
  have r: "spaced ts = [] \<or> is_gap (hd (spaced ts))" by (cases ts) (simp_all add: spaced_def is_gap_def)
  have "splitWhitespace (CHR '' '' # t @ spaced ts) = splitWhitespace (t @ spaced ts)"
    unfolding splitWhitespace_def by (rule words_by_space) (simp add: is_gap_def)
  also have "\<dots> = t # splitWhitespace (spaced ts)"
    unfolding splitWhitespace_def by (rule words_by_word [OF g r])
  finally show ?case using Cons by (simp add: spaced_def)
qed (simp add: spaced_def splitWhitespace_def)

lemma good_tokens_line:
  assumes "good_token t" "\<forall>t \<in> set ts. good_token t"
  shows "trim_ws (inv_stripComment (t @ spaced ts)) = t @ spaced ts" "splitWhitespace (t @ spaced ts) = t # ts"
proof -
  have l: "\<not> is_gap (last t)" "\<not> is_blank (hd t)" "t \<noteq> []"
    using assms(1) last_in_set [of t] hd_in_set [of t] by (auto simp: good_token_def plain_token_def is_blank_def is_gap_def)
  have s: "inv_stripComment (t @ spaced ts) = t @ spaced ts"
    using strip_good [OF assms(1), of None "spaced ts"] strip_spaced [OF assms(2) l(1)] by (simp add: inv_stripComment_def)
  have "\<not> is_blank (last (t @ spaced ts))"
  proof (cases "ts = []")
    case True
    then show ?thesis using assms(1) last_in_set [OF l(3)] by (simp add: spaced_def good_token_def plain_token_def)
  next
    case False
    then obtain us u where ts: "ts = us @ [u]" by (cases ts rule: rev_cases) auto
    then have "u \<noteq> []" "\<not> is_blank (last u)"
      using assms(2) last_in_set [of u] by (auto simp: good_token_def plain_token_def)
    then show ?thesis by (simp add: ts spaced_def)
  qed
  then show "trim_ws (inv_stripComment (t @ spaced ts)) = t @ spaced ts"
    unfolding s using l by (intro trim_ws_id) simp_all
  have r: "spaced ts = [] \<or> is_gap (hd (spaced ts))" by (cases ts) (simp_all add: spaced_def is_gap_def)
  have g: "\<forall>c \<in> set t. \<not> is_gap c" using assms(1) by (auto simp: good_token_def plain_token_def is_blank_def is_gap_def)
  have "splitWhitespace (t @ spaced ts) = t # splitWhitespace (spaced ts)"
    unfolding splitWhitespace_def by (rule words_by_word [OF l(3) g r])
  then show "splitWhitespace (t @ spaced ts) = t # ts" using words_spaced [OF assms(2)] by simp
qed

lemma inv_join_more: "acc \<noteq> [] \<Longrightarrow> foldl (\<lambda>r v. (if r \<noteq> [] then r @ '','' else r) @ v) acc vs = acc @ concat (map (\<lambda>v. CHR '','' # v) vs)"
  by (induction vs arbitrary: acc) simp_all

lemma inv_join_Cons: "v \<noteq> [] \<Longrightarrow> inv_join (v # vs) = v @ concat (map (\<lambda>v. CHR '','' # v) vs)"
  by (simp add: inv_join_def inv_join_more)

lemma split_join_tags: "ts \<noteq> [] \<Longrightarrow> \<forall>t \<in> set ts. t \<noteq> [] \<and> CHR '','' \<notin> set t \<Longrightarrow> split_on (CHR '','') (inv_join ts) = ts"
proof -
  have "split_on (CHR '','') (t @ concat (map (\<lambda>v. CHR '','' # v) ts)) = t # ts"
    if "CHR '','' \<notin> set t" "\<forall>t \<in> set ts. CHR '','' \<notin> set t" for t ts
    using that
  proof (induction ts arbitrary: t)
    case (Cons u ts)
    then show ?case using split_on_append [of "CHR '',''" t] by simp
  qed (simp add: split_on_none)
  moreover assume "ts \<noteq> []" "\<forall>t \<in> set ts. t \<noteq> [] \<and> CHR '','' \<notin> set t"
  ultimately show ?thesis by (cases ts) (simp_all add: inv_join_Cons)
qed

lemma to_string_plain: "plain_token (to_string n)"
  by (auto simp: plain_token_def dest: to_string_digits digit_not_blank)

lemma join_plain: "\<forall>t \<in> set ts. t \<noteq> [] \<and> plain_token t \<Longrightarrow> plain_token (inv_join ts)"
proof (cases ts)
  case (Cons t us)
  moreover have "\<forall>t \<in> set us. plain_token t \<Longrightarrow> plain_token (concat (map (\<lambda>v. CHR '','' # v) us))" for us
    by (induction us) (simp_all add: is_blank_def)
  moreover assume "\<forall>t \<in> set ts. t \<noteq> [] \<and> plain_token t"
  ultimately show ?thesis by (simp add: inv_join_Cons)
qed (simp add: inv_join_def)

lemma good_prefix: "good_token k \<Longrightarrow> plain_token v \<Longrightarrow> good_token (k @ v)"
  by (auto simp: good_token_def plain_token_def)

lemma opts_good:
  assumes "writable_host h"
  shows "\<forall>t \<in> set (host_opts h). good_token t"
proof -
  have "h_transport h = ''ssh'' \<or> h_transport h = ''native''"
    using assms by (simp add: writable_host_def host_ok_def isSupportedTransport_def)
  then have t: "plain_token (h_transport h)" by (auto simp: is_blank_def)
  have v: "plain_token (h_identity h)" "plain_token (h_san h)" using assms by (simp_all add: writable_host_def)
  have j: "plain_token (inv_join (h_tags h))" using assms by (intro join_plain) (simp add: writable_host_def)
  have k: "good_token ''transport=''" "good_token ''port=''" "good_token ''identity=''" "good_token ''tag=''"
    "good_token ''san=''" "good_token ''native_port=''"
    by (simp_all add: good_token_def is_blank_def)
  note g = good_prefix [OF k(1) t] good_prefix [OF k(2) to_string_plain] good_prefix [OF k(3) v(1)]
    good_prefix [OF k(4) j] good_prefix [OF k(5) v(2)] good_prefix [OF k(6) to_string_plain]
  show ?thesis unfolding host_opts_def by (auto simp: g simp del: append.simps)
qed

lemma head_good: "writable_host h \<Longrightarrow> good_token (host_head h) \<and> hd (host_head h) \<noteq> CHR ''[''"
proof -
  assume "writable_host h"
  then have h: "plain_token (h_user h)" "plain_token (h_host h)" "h_host h \<noteq> []"
    "token_start (if h_user h \<noteq> [] then h_user h else h_host h)"
    unfolding writable_host_def by blast+
  then show ?thesis by (cases "h_user h = []") (simp_all add: host_head_def good_token_def token_start_def is_blank_def)
qed

text \<open>The state while reading a canonical text: no defaults, a group, the hosts so far.\<close>

definition in_group :: "string \<Rightarrow> host list \<Rightarrow> ini" where
  "in_group g L = Ini\<lparr>currentGroup := g, ini_hosts := L\<rparr>"

lemma in_group_simps [simp]: "currentGroup (in_group g L) = g" "inDefaults (in_group g L) = False"
    "ini_hosts (in_group g L) = L" "(in_group g L)\<lparr>ini_hosts := M\<rparr> = in_group g M"
  by (simp_all add: in_group_def Ini_def)

text \<open>The options of a host line turn a new entry, or the entry of an earlier line, into the host.\<close>

definition earlier :: "host \<Rightarrow> host \<Rightarrow> bool" where
  "earlier h e \<longleftrightarrow> (\<exists>gs. e = h\<lparr>h_groups := gs\<rparr>) \<or> (\<exists>gs. e = (newHost (h_name h))\<lparr>h_groups := gs, h_user := h_user h\<rparr>)"

lemma option_written:
  "CHR ''='' \<notin> set k \<Longrightarrow> find_char (CHR ''='') (k @ CHR ''='' # v) = Some (length k)"
  by (rule find_char_append)

lemma option_values:
  "host_option n e (''transport='' @ v) = (if isSupportedTransport v then Inr (e\<lparr>h_transport := v\<rparr>)
     else inv_fail n (''transport must be ssh or native, got '' @ [SQ] @ v @ [SQ]))"
  "host_option n e (''identity='' @ v) = Inr (e\<lparr>h_identity := v\<rparr>)"
  "host_option n e (''san='' @ v) = Inr (e\<lparr>h_san := v\<rparr>)"
  "host_option n e (''tag='' @ v) = Inr (e\<lparr>h_tags := add_tags (h_tags e) v\<rparr>)"
  "0 < p \<Longrightarrow> p \<le> 65535 \<Longrightarrow> host_option n e (''port='' @ to_string p) = Inr (e\<lparr>h_port := p\<rparr>)"
  "0 < p \<Longrightarrow> p \<le> 65535 \<Longrightarrow> host_option n e (''native_port='' @ to_string p) = Inr (e\<lparr>h_nativePort := p\<rparr>)"
  using option_written [of "''transport''" v] option_written [of "''identity''" v] option_written [of "''san''" v]
    option_written [of "''tag''" v] option_written [of "''port''" "to_string p"]
    option_written [of "''native_port''" "to_string p"]
  by (simp_all add: host_option_def parsePort_def)

lemma addAll_distinct: "distinct (xs @ ys) \<Longrightarrow> foldl addUnique xs ys = xs @ ys"
proof (induction ys arbitrary: xs)
  case (Cons y ys)
  then show ?case using Cons.IH [of "xs @ [y]"] by (simp add: addUnique_def)
qed simp

lemma addAll_present: "set ys \<subseteq> set xs \<Longrightarrow> foldl addUnique xs ys = xs"
  by (induction ys) (simp_all add: addUnique_def)

lemma tags_written:
  assumes "writable_host h" "h_tags h \<noteq> []" "ts = [] \<or> ts = h_tags h"
  shows "add_tags ts (inv_join (h_tags h)) = h_tags h"
proof -
  have t: "\<forall>t \<in> set (h_tags h). t \<noteq> [] \<and> CHR '','' \<notin> set t" "distinct (h_tags h)"
    using assms(1) unfolding writable_host_def host_ok_def by blast+
  have "split_on (CHR '','') (inv_join (h_tags h)) = h_tags h" using split_join_tags assms(2) t(1) by blast
  moreover have "filter (\<lambda>t. t \<noteq> []) (h_tags h) = h_tags h" using t(1) by (simp add: filter_id_conv)
  ultimately show ?thesis
    using assms(3) t(2) addAll_distinct [of "[]" "h_tags h"] addAll_present [of "h_tags h" "h_tags h"]
    by (auto simp: add_tags_def)
qed

lemma options_append:
  "host_options n e xs = Inr e' \<Longrightarrow> host_options n e (xs @ ys) = host_options n e' ys"
  by (induction xs arbitrary: e) (auto split: sum.splits)

lemma options_written:
  assumes "writable_host h" "earlier h e"
  shows "host_options n e (host_opts h) = Inr (h\<lparr>h_groups := h_groups e\<rparr>)"
proof -
  have ok: "isSupportedTransport (h_transport h)" "0 < h_port h" "h_port h \<le> 65535" "h_nativePort h \<le> 65535" "h_host h = h_name h"
    using assms(1) unfolding writable_host_def host_ok_def by blast+
  define e1 where "e1 = e\<lparr>h_transport := h_transport h\<rparr>"
  define e2 where "e2 = e1\<lparr>h_port := h_port h\<rparr>"
  define e3 where "e3 = e2\<lparr>h_identity := h_identity h\<rparr>"
  define e4 where "e4 = e3\<lparr>h_tags := h_tags h\<rparr>"
  define e5 where "e5 = e4\<lparr>h_san := h_san h\<rparr>"
  define e6 where "e6 = e5\<lparr>h_nativePort := h_nativePort h\<rparr>"
  have e: "h_port e = 22 \<or> h_port e = h_port h" "h_identity e = [] \<or> h_identity e = h_identity h"
    "h_tags e = [] \<or> h_tags e = h_tags h" "h_san e = [] \<or> h_san e = h_san h"
    "h_nativePort e = 0 \<or> h_nativePort e = h_nativePort h"
    using assms(2) by (auto simp: earlier_def newHost_def)
  have s1: "host_options n e [''transport='' @ h_transport h] = Inr e1"
    using ok(1) option_values(1) [of n e "h_transport h"] by (simp add: e1_def)
  have s2: "host_options n e1 (if h_port h \<noteq> 22 then [''port='' @ to_string (h_port h)] else []) = Inr e2"
    using option_values(5) [OF ok(2,3), of n e1] e(1) by (cases "h_port h = 22") (auto simp: e2_def e1_def)
  have s3: "host_options n e2 (if h_identity h \<noteq> [] then [''identity='' @ h_identity h] else []) = Inr e3"
    using option_values(2) [of n e2 "h_identity h"] e(2) by (cases "h_identity h = []") (auto simp: e3_def e2_def e1_def)
  have s4: "host_options n e3 (if h_tags h \<noteq> [] then [''tag='' @ inv_join (h_tags h)] else []) = Inr e4"
    using option_values(4) [of n e3 "inv_join (h_tags h)"] tags_written [OF assms(1) _ e(3)] e(3)
    by (cases "h_tags h = []") (auto simp: e4_def e3_def e2_def e1_def)
  have s5: "host_options n e4 (if h_san h \<noteq> [] then [''san='' @ h_san h] else []) = Inr e5"
    using option_values(3) [of n e4 "h_san h"] e(4) by (cases "h_san h = []") (auto simp: e5_def e4_def e3_def e2_def e1_def)
  have s6: "host_options n e5 (if h_nativePort h \<noteq> 0 then [''native_port='' @ to_string (h_nativePort h)] else []) = Inr e6"
    using option_values(6) [OF _ ok(4), of n e5] e(5)
    by (cases "h_nativePort h = 0") (auto simp: e6_def e5_def e4_def e3_def e2_def e1_def)
  have "host_options n e (host_opts h) = Inr e6"
    unfolding host_opts_def options_append [OF s1] options_append [OF s2] options_append [OF s3] options_append [OF s4]
      options_append [OF s5] by (rule s6)
  moreover have "e6 = h\<lparr>h_groups := h_groups e\<rparr>"
    using assms(2) ok(5) by (auto simp: earlier_def newHost_def e6_def e5_def e4_def e3_def e2_def e1_def)
  ultimately show ?thesis by simp
qed


text \<open>A host line in a group: its entry is created, or gains the group.\<close>

lemma host_line_written:
  assumes "writable_host h" "g \<noteq> []" "upsert L (h_name h) = (hs, k)" "k < length hs"
    "hs ! k = newHost (h_name h) \<or> (\<exists>gs. hs ! k = h\<lparr>h_groups := gs\<rparr>)"
  shows "ini_line n (in_group g L) (host_text h) =
    Inr (in_group g (hs[k := h\<lparr>h_groups := addUnique (h_groups (hs ! k)) g\<rparr>]))"
proof -
  have h: "CHR ''@'' \<notin> set (h_user h)" "CHR ''@'' \<notin> set (h_host h)" "h_host h = h_name h"
    using assms(1) unfolding writable_host_def by blast+
  have hg: "good_token (host_head h)" "hd (host_head h) \<noteq> CHR ''[''" "host_head h \<noteq> []"
    using head_good [OF assms(1)] by (auto simp: good_token_def)
  note l = good_tokens_line [OF hg(1) opts_good [OF assms(1)], folded host_text_tokens]
  have ne: "host_text h \<noteq> []" "hd (host_text h) \<noteq> CHR ''[''" using hg by (simp_all add: host_text_tokens)
  have tok: "host_token (in_group g L) (host_head h) = (h_user h, h_name h)"
    using h(1,2) find_char_append [of "CHR ''@''" "h_user h" "h_host h"] find_char_None [of "CHR ''@''" "h_host h"]
    by (simp add: host_token_def host_head_def in_group_def Ini_def h(3))
  let ?e = "apply_defaults (in_group g L) (h_user h) (h_name h) (hs ! k)"
  have a: "?e = (hs ! k)\<lparr>h_host := h_name h, h_user := (if h_user h \<noteq> [] then h_user h else h_user (hs ! k)),
      h_groups := addUnique (h_groups (hs ! k)) g\<rparr>"
    by (cases "hs ! k") (simp add: apply_defaults_def in_group_def Ini_def Let_def)
  have "earlier h ?e"
  proof (cases "hs ! k = newHost (h_name h)")
    case True
    then show ?thesis unfolding a earlier_def by (auto simp: newHost_def)
  next
    case False
    with assms(5) obtain gs where "hs ! k = h\<lparr>h_groups := gs\<rparr>" by blast
    then show ?thesis using h(3) unfolding a by (cases h) (auto simp: earlier_def)
  qed
  moreover have "h_groups ?e = addUnique (h_groups (hs ! k)) g" unfolding a by simp
  ultimately have e: "earlier h ?e" "h_groups ?e = addUnique (h_groups (hs ! k)) g" by blast+
  have o: "host_options n ?e (host_opts h) = Inr (h\<lparr>h_groups := addUnique (h_groups (hs ! k)) g\<rparr>)"
    using options_written [OF assms(1) e(1)] unfolding e(2) .
  have "ini_line n (in_group g L) (host_text h) = host_line n (in_group g L) (host_text h)"
    unfolding ini_line_def Let_def l(1) using ne by simp
  also have "\<dots> = Inr (in_group g (hs[k := h\<lparr>h_groups := addUnique (h_groups (hs ! k)) g\<rparr>]))"
    unfolding host_line_def Let_def l(2) list.sel tok prod.case in_group_simps assms(3) o sum.case using assms(2) by simp
  finally show ?thesis .
qed

text \<open>The list read so far holds the hosts with the groups of \<open>G\<close>, those with none left out.\<close>

definition holds :: "host list \<Rightarrow> (host \<Rightarrow> string list) \<Rightarrow> host list \<Rightarrow> bool" where
  "holds hs G L \<longleftrightarrow> distinct (map h_name L) \<and> set L = {h\<lparr>h_groups := G h\<rparr> | h. h \<in> set hs \<and> G h \<noteq> []}"

lemma upsert_absent: "\<forall>e \<in> set L. h_name e \<noteq> n \<Longrightarrow> upsert L n = (L @ [newHost n], length L)"
proof -
  assume "\<forall>e \<in> set L. h_name e \<noteq> n"
  then have t: "takeWhile (\<lambda>h. h_name h \<noteq> n) L = L" by (simp add: takeWhile_eq_all_conv)
  show ?thesis unfolding upsert_def Let_def t by simp
qed

lemma upsert_present: "distinct (map h_name L) \<Longrightarrow> e \<in> set L \<Longrightarrow> \<exists>k < length L. upsert L (h_name e) = (L, k) \<and> L ! k = e"
proof -
  assume d: "distinct (map h_name L)" and "e \<in> set L"
  then obtain xs ys where L: "L = xs @ e # ys" by (auto simp: in_set_conv_decomp)
  have "h_name e \<notin> h_name ` set xs" using d by (simp add: L)
  then have "\<forall>x \<in> set xs. h_name x \<noteq> h_name e" by (metis imageI)
  then have t: "takeWhile (\<lambda>h. h_name h \<noteq> h_name e) (xs @ e # ys) = xs" by (subst takeWhile_append2) auto
  have "upsert L (h_name e) = (L, length xs)" unfolding upsert_def Let_def L t by simp
  then show ?thesis by (auto simp: L)
qed

lemma holds_step:
  assumes "holds hs G L" "h \<in> set hs" "g \<notin> set (G h)" "g \<noteq> []" "distinct (map h_name hs)" "writable_host h"
  shows "\<exists>L'. ini_line n (in_group g L) (host_text h) = Inr (in_group g L') \<and> holds hs (G(h := G h @ [g])) L'"
proof -
  have d: "distinct (map h_name L)" and L: "set L = {h\<lparr>h_groups := G h\<rparr> | h. h \<in> set hs \<and> G h \<noteq> []}"
    using assms(1) by (simp_all add: holds_def)
  have same: "h' = h" if "h' \<in> set hs" "h_name h' = h_name h" for h'
    using that assms(2,5) by (metis distinct_map inj_onD)
  let ?x = "h\<lparr>h_groups := G h @ [g]\<rparr>"
  have other: "{h'\<lparr>h_groups := (G(h := G h @ [g])) h'\<rparr> | h'. h' \<in> set hs \<and> (G(h := G h @ [g])) h' \<noteq> []} =
      insert ?x {h'\<lparr>h_groups := G h'\<rparr> | h'. h' \<in> set hs \<and> G h' \<noteq> [] \<and> h' \<noteq> h}"
    using assms(2) by auto
  show ?thesis
  proof (cases "G h = []")
    case True
    have ab: "\<forall>e \<in> set L. h_name e \<noteq> h_name h" using L True by (auto dest: same)
    have up: "upsert L (h_name h) = (L @ [newHost (h_name h)], length L)" by (rule upsert_absent [OF ab])
    have "ini_line n (in_group g L) (host_text h) = Inr (in_group g (L @ [?x]))"
      using host_line_written [OF assms(6,4) up] True by (simp add: newHost_def addUnique_def)
    moreover have "holds hs (G(h := G h @ [g])) (L @ [?x])"
      using d ab True unfolding holds_def other by (auto simp: L)
    ultimately show ?thesis by blast
  next
    case False
    then have e: "h\<lparr>h_groups := G h\<rparr> \<in> set L" using L assms(2) by blast
    obtain k where k: "k < length L" "upsert L (h_name h) = (L, k)" "L ! k = h\<lparr>h_groups := G h\<rparr>"
      using upsert_present [OF d e] by auto
    have "ini_line n (in_group g L) (host_text h) = Inr (in_group g (L[k := ?x]))"
      using host_line_written [OF assms(6,4) k(2,1)] k(3) assms(3) by (auto simp: addUnique_def)
    moreover have "map h_name (L[k := ?x]) = map h_name L"
      using k by (metis (no_types, lifting) host.select_convs(1) host.surjective host.update_convs(9) list_update_id map_update)
    moreover have "set (L[k := ?x]) = insert ?x (set L - {h\<lparr>h_groups := G h\<rparr>})"
      using set_update_distinct [of L k] d k(1,3) by (simp add: distinct_map)
    moreover have "set L - {h\<lparr>h_groups := G h\<rparr>} = {h'\<lparr>h_groups := G h'\<rparr> | h'. h' \<in> set hs \<and> G h' \<noteq> [] \<and> h' \<noteq> h}"
    proof -
      have "h' = h" if "h' \<in> set hs" "h'\<lparr>h_groups := G h'\<rparr> = h\<lparr>h_groups := G h\<rparr>" for h'
        using that same by (metis host.select_convs(1) host.surjective host.update_convs(9))
      then show ?thesis unfolding L by auto
    qed
    ultimately show ?thesis using d unfolding holds_def other by metis
  qed
qed

text \<open>A group's host lines, one after the other.\<close>

lemma holds_hosts:
  assumes "holds hs G L" "set ps \<subseteq> set hs" "distinct ps" "\<forall>h \<in> set ps. g \<notin> set (G h)" "g \<noteq> []"
    "distinct (map h_name hs)" "\<forall>h \<in> set hs. writable_host h"
  shows "\<exists>L'. (\<forall>rest. ini_lines n (in_group g L) (map host_text ps @ rest) = ini_lines (n + length ps) (in_group g L') rest) \<and>
     holds hs (\<lambda>h. if h \<in> set ps then G h @ [g] else G h) L'"
  using assms
proof (induction ps arbitrary: n G L)
  case (Cons p ps)
  let ?G = "G(p := G p @ [g])"
  obtain L1 where L1: "ini_line n (in_group g L) (host_text p) = Inr (in_group g L1)" "holds hs ?G L1"
    using holds_step [OF Cons.prems(1) _ _ Cons.prems(5,6), of p n] Cons.prems by auto
  have nin: "\<forall>h \<in> set ps. g \<notin> set (?G h)" using Cons.prems by auto
  obtain L2 where L2: "\<forall>rest. ini_lines (n + 1) (in_group g L1) (map host_text ps @ rest) = ini_lines (n + 1 + length ps) (in_group g L2) rest"
    "holds hs (\<lambda>h. if h \<in> set ps then ?G h @ [g] else ?G h) L2"
    using Cons.IH [OF L1(2) _ _ nin Cons.prems(5,6,7), of "n + 1"] Cons.prems by auto
  have "(\<lambda>h. if h \<in> set ps then ?G h @ [g] else ?G h) = (\<lambda>h. if h \<in> set (p # ps) then G h @ [g] else G h)"
    using Cons.prems(3) by auto
  with L1 L2 show ?case by (intro exI [of _ L2]) (simp only: list.map append.simps ini_lines.simps sum.case, simp)
qed auto

definition group_lines :: "host list \<Rightarrow> string \<Rightarrow> string list" where
  "group_lines hs g = (CHR ''['' # g @ '']'') # map host_text (filter (\<lambda>h. g \<in> set (h_groups h)) hs)"

definition group_name_ok :: "string \<Rightarrow> bool" where
  "group_name_ok g \<longleftrightarrow> g \<noteq> [] \<and> g \<noteq> ''defaults'' \<and> NL \<notin> set g \<and> \<not> is_blank (hd g) \<and> \<not> is_blank (last g) \<and>
     CHR ''#'' \<notin> set g \<and> CHR '';'' \<notin> set g"

lemma section_written:
  assumes "group_name_ok g"
  shows "ini_line n (in_group g' L) (CHR ''['' # g @ '']'') = Inr (in_group g L)"
proof -
  have g: "g \<noteq> []" "g \<noteq> ''defaults''" "\<not> is_blank (hd g)" "\<not> is_blank (last g)" "\<forall>c \<in> set g. c \<noteq> CHR ''#'' \<and> c \<noteq> CHR '';''"
    using assms by (auto simp: group_name_ok_def)
  have "inv_stripComment (CHR ''['' # g @ '']'') = CHR ''['' # g @ '']''"
    unfolding inv_stripComment_def using g(5) by (intro strip_keep) auto
  moreover have "trim_ws (CHR ''['' # g @ '']'') = CHR ''['' # g @ '']''"
    by (rule trim_ws_id) (simp_all add: is_blank_def)
  moreover have "trim_ws g = g" using g by (intro trim_ws_id) simp_all
  ultimately show ?thesis using g(2) by (simp add: ini_line_def section_line_def in_group_def Ini_def)
qed

lemma empty_line: "ini_line n s [] = Inr s"
  by (simp add: ini_line_def inv_stripComment_def trim_ws_def trim_by_def)

lemma ini_lines_append: "ini_lines n s xs = Inr s' \<Longrightarrow> ini_lines n s (xs @ ys) = ini_lines (n + length xs) s' ys"
  by (induction xs arbitrary: n s) (auto split: sum.splits)

lemma holds_groups:
  assumes "holds hs (\<lambda>h. filter (\<lambda>x. x \<in> set (h_groups h)) seen) L" "distinct (seen @ gs)" "\<forall>g \<in> set gs. group_name_ok g"
    "distinct (map h_name hs)" "\<forall>h \<in> set hs. writable_host h"
  shows "\<exists>g' L'. ini_lines n (in_group g L) (concat (map (\<lambda>g. group_lines hs g @ [[]]) gs)) = Inr (in_group g' L') \<and>
    holds hs (\<lambda>h. filter (\<lambda>x. x \<in> set (h_groups h)) (seen @ gs)) L'"
  using assms(1-3)
proof (induction gs arbitrary: n g L seen)
  case (Cons x gs)
  let ?G = "\<lambda>h. filter (\<lambda>x. x \<in> set (h_groups h)) seen" and ?ps = "filter (\<lambda>h. x \<in> set (h_groups h)) hs"
  have x: "group_name_ok x" "x \<noteq> []" using Cons.prems(3) by (simp_all add: group_name_ok_def)
  have dp: "distinct ?ps" using assms(4) by (simp add: distinct_map)
  obtain L1 where L1: "\<And>rest. ini_lines (n + 1) (in_group x L) (map host_text ?ps @ rest) = ini_lines (n + 1 + length ?ps) (in_group x L1) rest"
    "holds hs (\<lambda>h. if h \<in> set ?ps then ?G h @ [x] else ?G h) L1"
    using holds_hosts [OF Cons.prems(1) _ dp _ x(2) assms(4,5), of "n + 1"] Cons.prems(2) by auto
  have "{h\<lparr>h_groups := if h \<in> set ?ps then ?G h @ [x] else ?G h\<rparr> | h. h \<in> set hs \<and> (if h \<in> set ?ps then ?G h @ [x] else ?G h) \<noteq> []} =
      {h\<lparr>h_groups := filter (\<lambda>y. y \<in> set (h_groups h)) (seen @ [x])\<rparr> | h. h \<in> set hs \<and> filter (\<lambda>y. y \<in> set (h_groups h)) (seen @ [x]) \<noteq> []}"
    by (intro Collect_cong ex_cong1) auto
  then have h1: "holds hs (\<lambda>h. filter (\<lambda>y. y \<in> set (h_groups h)) (seen @ [x])) L1"
    using L1(2) unfolding holds_def by simp
  obtain g' L' where r: "ini_lines (n + 1 + length ?ps + 1) (in_group x L1) (concat (map (\<lambda>g. group_lines hs g @ [[]]) gs)) = Inr (in_group g' L')"
    "holds hs (\<lambda>h. filter (\<lambda>y. y \<in> set (h_groups h)) ((seen @ [x]) @ gs)) L'"
    using Cons.IH [OF h1, of "n + 1 + length ?ps + 1" x] Cons.prems(2,3) by fastforce
  have "ini_lines n (in_group g L) (concat (map (\<lambda>g. group_lines hs g @ [[]]) (x # gs))) = Inr (in_group g' L')"
    using L1(1) [of "[] # concat (map (\<lambda>g. group_lines hs g @ [[]]) gs)"] r(1)
    by (simp add: group_lines_def section_written [OF x(1), simplified] empty_line)
  with r(2) show ?case by auto
qed auto

lemma split_terminated:
  "\<forall>l \<in> set ls. NL \<notin> set l \<Longrightarrow> split_on NL (concat (map (\<lambda>l. l @ [NL]) ls) @ rest) = ls @ split_on NL rest"
proof (induction ls)
  case (Cons l ls)
  then show ?case using split_on_append [of NL l "concat (map (\<lambda>l. l @ [NL]) ls) @ rest"] by simp
qed simp

lemma host_text_one_line: "writable_host h \<Longrightarrow> NL \<notin> set (host_text h)"
  using head_good [of h] opts_good [of h]
  by (auto simp: host_text_tokens spaced_def good_token_def plain_token_def is_blank_def)

lemma split_groups_text:
  assumes "\<forall>g \<in> set gs. group_name_ok g" "\<forall>h \<in> set hs. writable_host h" "gs \<noteq> []"
  shows "split_on NL (groups_text hs gs) = concat (map (\<lambda>g. group_lines hs g @ [[]]) gs)"
proof -
  have t: "group_text hs g = concat (map (\<lambda>l. l @ [NL]) (group_lines hs g))" for g
    by (simp add: group_text_def group_lines_def comp_def)
  have l: "\<forall>l \<in> set (group_lines hs g). NL \<notin> set l" if "group_name_ok g" for g
    using that assms(2) host_text_one_line by (auto simp: group_lines_def group_name_ok_def)
  have s: "split_on NL (group_text hs g @ rest) = group_lines hs g @ split_on NL rest" if "group_name_ok g" for g rest
    unfolding t using split_terminated l [OF that] by blast
  show ?thesis using assms(1,3)
  proof (induction gs rule: induct_list012)
    case (2 g)
    then show ?case using s [of g "[]"] by simp
  next
    case (3 g g' gs)
    then show ?case using s [of g "NL # groups_text hs (g' # gs)"] by simp
  qed simp
qed



definition sample_host :: host where
  "sample_host = (newHost ''h'')\<lparr>h_san := ''s'', h_groups := [''g'']\<rparr>"

lemma sample_inventory:
  "w_files w p = Some (''[g]'' @ [NL] @ ''h san=s'' @ [NL]) \<Longrightarrow> w_filename w p \<noteq> ''clients.txt'' \<Longrightarrow>
     inv_loadFromFile w p = Inr \<lparr>hosts = [sample_host], sourcePath = p\<rparr>"
  by (simp add: inv_loadFromFile_def inv_parse_def ini_line_def inv_stripComment_def trim_ws_def trim_by_def is_blank_def
      section_line_def host_line_def host_token_def upsert_def apply_defaults_def host_option_def Ini_def
      splitWhitespace_def words_by.simps [of is_gap] is_gap_def newHost_def addUnique_def find_char_def find_if_def Let_def
      sample_host_def)

text \<open>Every inventory that loads from a file, in either format, has unique host names and addresses, ports in range,
  a supported transport and at least one group per host; any sequence of additions and removals, refused ones included,
  keeps the names and addresses unique, the transports supported and every host in a group.\<close>

theorem inventory_wellformed:
  assumes "inv_loadFromFile w path = Inr iv"
  shows "hosts_ok (hosts iv) \<and> fleet_ok (hosts (foldl inv_exec iv ops))"
proof -
  have h: "hosts_ok (hosts iv)" by (rule loaded_ok [OF assms])
  then have "fleet_ok (hosts iv)" by (simp add: hosts_ok_def fleet_ok_def host_ok_def)
  with h inv_run_ok show ?thesis by blast
qed

theorem inventory_wellformed_witness:
  "\<exists>iv. inv_loadFromFile \<lparr>w_files = [''inv'' \<mapsto> ''[g]'' @ [NL] @ ''h san=s'' @ [NL]], w_filename = id, w_trusted = True,
       w_getenv = Map.empty, w_home = []\<rparr> ''inv'' = Inr iv \<and>
     fleet_ok (hosts (foldl inv_exec iv [Add (newHost ''b''), Add (newHost ''h''), Remove ''h'']))"
proof -
  let ?w = "\<lparr>w_files = [''inv'' \<mapsto> ''[g]'' @ [NL] @ ''h san=s'' @ [NL]], w_filename = id, w_trusted = True,
       w_getenv = Map.empty, w_home = []\<rparr>"
  have "inv_loadFromFile ?w ''inv'' = Inr \<lparr>hosts = [sample_host], sourcePath = ''inv''\<rparr>" by (rule sample_inventory) simp_all
  with inventory_wellformed [OF this] show ?thesis by blast
qed

text \<open>A host listed again by its bare name takes the default user, also when an earlier line gave it one: the branch that
  keeps an existing user is never reached with a default user set.\<close>

lemma bare_listing_overrides_user:
  assumes "CHR ''@'' \<notin> set spec" "defaultUser s \<noteq> []" "host_token s spec = (user, hst)"
  shows "h_user (apply_defaults s user hst (e\<lparr>h_user := explicit\<rparr>)) = defaultUser s"
  using assms find_char_None [of "CHR ''@''" spec] by (auto simp: host_token_def apply_defaults_def Let_def)

end
