(* ===== verification/Json_Text.thy ===== *)
theory Json_Text
  imports Text
begin

text \<open>
  \<open>psx::json\<close> (\<open>include/psx/json/json.hpp\<close>): the text of JSON strings, booleans and numbers, with a reader for JSON
  strings after RFC 8259 that takes every quoted text back.
\<close>

subsection \<open>Writing\<close>

text \<open>\<open>%04x\<close> of a byte.\<close>

definition hex_digit :: "nat \<Rightarrow> char" where
  "hex_digit d = char_of (if d < 10 then 48 + d else 87 + d)"

definition u_escape :: "char \<Rightarrow> string" where
  "u_escape c = [BSL, CHR ''u'', CHR ''0'', CHR ''0'', hex_digit (of_char c div 16), hex_digit (of_char c mod 16)]"

definition json_char :: "char \<Rightarrow> string" where
  "json_char c =
     (if c = DQ then [BSL, DQ]
      else if c = BSL then [BSL, BSL]
      else if c = NL then [BSL, CHR ''n'']
      else if c = RET then [BSL, CHR ''r'']
      else if c = TAB then [BSL, CHR ''t'']
      else if c = CHR 0x08 then [BSL, CHR ''b'']
      else if c = CHR 0x0C then [BSL, CHR ''f'']
      else if of_char c < (32 :: nat) then u_escape c
      else [c])"

definition json_quote :: "string \<Rightarrow> string" where
  "json_quote value = [DQ] @ concat (map json_char value) @ [DQ]"

definition json_boolean :: "bool \<Rightarrow> string" where
  "json_boolean b = (if b then ''true'' else ''false'')"

subsection \<open>Reading a JSON string\<close>

definition hex_val :: "char \<Rightarrow> nat option" where
  "hex_val c = (let n = of_char c in
     if 48 \<le> n \<and> n \<le> 57 then Some (n - 48) else if 97 \<le> n \<and> n \<le> 102 then Some (n - 87)
     else if 65 \<le> n \<and> n \<le> 70 then Some (n - 55) else None)"

definition escape_val :: "char \<Rightarrow> char option" where
  "escape_val c = (if c \<in> {DQ, BSL, CHR ''/''} then Some c
     else if c = CHR ''n'' then Some NL else if c = CHR ''r'' then Some RET else if c = CHR ''t'' then Some TAB
     else if c = CHR ''b'' then Some (CHR 0x08) else if c = CHR ''f'' then Some (CHR 0x0C) else None)"

definition u_val :: "char \<Rightarrow> char \<Rightarrow> char \<Rightarrow> char \<Rightarrow> char option" where
  "u_val a b c d = do {
     x \<leftarrow> hex_val a; y \<leftarrow> hex_val b; z \<leftarrow> hex_val c; w \<leftarrow> hex_val d;
     let n = ((x * 16 + y) * 16 + z) * 16 + w;
     if n < 128 then Some (char_of n) else None }"

text \<open>The characters up to the closing quote and the text behind it.  A raw control character is an error; \<open>\\u\<close> is
  read for the code points that are one byte in UTF-8.\<close>

fun json_chars :: "string \<Rightarrow> (string \<times> string) option" where
  "json_chars [] = None"
| "json_chars (c # cs) =
     (if c = DQ then Some ([], cs)
      else if of_char c < (32 :: nat) then None
      else if c = BSL then
        (case cs of
           [] \<Rightarrow> None
         | e # es \<Rightarrow>
           if e = CHR ''u'' then
             (case es of
                a # b # x # y # rest \<Rightarrow>
                  (case u_val a b x y of None \<Rightarrow> None
                   | Some v \<Rightarrow> (case json_chars rest of None \<Rightarrow> None | Some (t, r) \<Rightarrow> Some (v # t, r)))
              | _ \<Rightarrow> None)
           else (case escape_val e of None \<Rightarrow> None
                 | Some v \<Rightarrow> (case json_chars es of None \<Rightarrow> None | Some (t, r) \<Rightarrow> Some (v # t, r))))
      else (case json_chars cs of None \<Rightarrow> None | Some (t, r) \<Rightarrow> Some (c # t, r)))"

definition json_string :: "string \<Rightarrow> (string \<times> string) option" where
  "json_string s = (case s of [] \<Rightarrow> None | c # cs \<Rightarrow> if c = DQ then json_chars cs else None)"

subsection \<open>Every text is read back\<close>

lemma hex_val_digit: "d < 16 \<Longrightarrow> hex_val (hex_digit d) = Some d"
  by (auto simp: hex_val_def hex_digit_def Let_def)

lemma u_val_escape: "of_char c < (32 :: nat) \<Longrightarrow>
    u_val (CHR ''0'') (CHR ''0'') (hex_digit (of_char c div 16)) (hex_digit (of_char c mod 16)) = Some c"
proof -
  assume c: "of_char c < (32 :: nat)"
  have z: "hex_val (CHR ''0'') = Some 0" by (simp add: hex_val_def)
  have "hex_val (hex_digit (of_char c div 16)) = Some (of_char c div 16)" "hex_val (hex_digit (of_char c mod 16)) = Some (of_char c mod 16)"
    using c by (intro hex_val_digit; simp)+
  then show ?thesis using c by (simp add: u_val_def z Let_def)
qed

lemma json_chars_char: "json_chars (json_char c @ s) = (case json_chars s of None \<Rightarrow> None | Some (t, r) \<Rightarrow> Some (c # t, r))"
  by (auto simp: json_char_def u_escape_def u_val_escape escape_val_def)

lemma json_chars_quoted: "json_chars (concat (map json_char v) @ DQ # rest) = Some (v, rest)"
  by (induction v) (simp_all add: json_chars_char)

lemma hex_digit_printable: "d < 16 \<Longrightarrow> 48 \<le> (of_char (hex_digit d) :: nat)"
  by (simp add: hex_digit_def)

lemma json_char_printable: "list_all (\<lambda>c. 32 \<le> (of_char c :: nat)) (json_char c)"
proof (cases "of_char c < (32 :: nat)")
  case True
  have "of_char c div 16 < (16 :: nat)" "of_char c mod 16 < (16 :: nat)" using True by auto
  from hex_digit_printable [OF this(1)] hex_digit_printable [OF this(2)] show ?thesis
    using True by (simp add: json_char_def u_escape_def)
qed (simp add: json_char_def)

lemma json_quote_printable: "list_all (\<lambda>c. 32 \<le> (of_char c :: nat)) (json_quote v)"
  using json_char_printable by (auto simp: json_quote_def list_all_iff)

lemma json_string_quote: "json_string (json_quote v @ rest) = Some (v, rest)"
  using json_chars_quoted [of v rest] by (simp add: json_string_def json_quote_def)

lemma json_quote_one_line: "NL \<notin> set (json_quote v)"
  using json_quote_printable [of v] by (auto simp: list_all_iff)

lemma to_string_one_line: "NL \<notin> set (to_string n)"
  using to_string_digits by (fastforce simp: isdigit_def)

lemma int_to_string_one_line: "NL \<notin> set (int_to_string n)"
  by (simp add: int_to_string_def to_string_one_line)

lemma json_boolean_one_line: "NL \<notin> set (json_boolean b)"
  by (simp add: json_boolean_def)

lemmas one_line = json_quote_one_line to_string_one_line int_to_string_one_line json_boolean_one_line

text \<open>C39: A text of any bytes written as a JSON string is one line of printable characters, and an RFC 8259 reader takes
  exactly that text back and stops right behind the closing quote, whatever follows.\<close>

theorem json_quote_exact:
  "json_string (json_quote value @ rest) = Some (value, rest) \<and> list_all (\<lambda>c. 32 \<le> (of_char c :: nat)) (json_quote value)"
  by (simp add: json_string_quote json_quote_printable)

end
