(* ===== verification/Ordered_Map.thy ===== *)
theory Ordered_Map
  imports Text
begin

text \<open>
  \<open>std::map<std::string, V>\<close>: an association list with strictly ascending keys, so that iterating over it is going
  through the list.  One operation covers insertion, update and erasure of a key.
\<close>

fun om_alter :: "string \<Rightarrow> ('v option \<Rightarrow> 'v option) \<Rightarrow> (string \<times> 'v) list \<Rightarrow> (string \<times> 'v) list" where
  "om_alter k f [] = (case f None of None \<Rightarrow> [] | Some v \<Rightarrow> [(k, v)])"
| "om_alter k f ((k', v') # m) =
     (if k = k' then (case f (Some v') of None \<Rightarrow> m | Some v \<Rightarrow> (k, v) # m)
      else if k < k' then (case f None of None \<Rightarrow> (k', v') # m | Some v \<Rightarrow> (k, v) # (k', v') # m)
      else (k', v') # om_alter k f m)"

definition om_ok :: "(string \<times> 'v) list \<Rightarrow> bool" where
  "om_ok m \<longleftrightarrow> sorted_wrt (<) (map fst m)"

lemma om_ok_simps [simp]: "om_ok []" "om_ok (p # m) \<longleftrightarrow> (\<forall>k \<in> fst ` set m. fst p < k) \<and> om_ok m"
  by (auto simp: om_ok_def)

lemma om_alter_keys: "fst ` set (om_alter k f m) \<subseteq> insert k (fst ` set m)"
proof (induction m)
  case (Cons p m)
  then show ?case by (cases p) (auto split: option.splits if_splits)
qed (auto split: option.splits)

lemma om_alter_ok: "om_ok m \<Longrightarrow> om_ok (om_alter k f m)"
proof (induction m)
  case (Cons p m)
  obtain k' v' where p: "p = (k', v')" by (cases p)
  have "\<forall>x \<in> fst ` set (om_alter k f m). k' < x" if "k \<noteq> k'" "\<not> k < k'"
  proof
    fix x assume "x \<in> fst ` set (om_alter k f m)"
    then have "x = k \<or> x \<in> fst ` set m" using om_alter_keys [of k f m] by blast
    then show "k' < x" using that Cons.prems by (auto simp: p)
  qed
  then show ?case using Cons by (force simp: p split: option.splits)
qed (simp split: option.splits)

lemma om_ok_absent: "om_ok m \<Longrightarrow> \<forall>x \<in> fst ` set m. k < x \<Longrightarrow> map_of m k = None"
  by (auto simp: map_of_eq_None_iff)

lemma om_alter_map: "om_ok m \<Longrightarrow> map_of (om_alter k f m) = (map_of m)(k := f (map_of m k))"
proof (induction m)
  case (Cons p m)
  obtain k' v' where p: "p = (k', v')" by (cases p)
  have abs: "map_of m k' = None" using Cons.prems by (intro om_ok_absent) (auto simp: p)
  have abs': "map_of m k = None" if "k < k'" using Cons.prems that by (intro om_ok_absent) (auto simp: p)
  show ?case using Cons abs abs' by (auto simp: p fun_eq_iff split: option.splits)
qed (auto split: option.splits)

lemma om_ext: "om_ok m \<Longrightarrow> om_ok m' \<Longrightarrow> map_of m = map_of m' \<Longrightarrow> m = m'"
proof -
  assume o: "om_ok m" "om_ok m'" and e: "map_of m = map_of m'"
  have d: "distinct (map fst m)" "distinct (map fst m')" "sorted (map fst m)" "sorted (map fst m')"
    using o by (simp_all add: om_ok_def strict_sorted_iff)
  have "set m = set m'" using map_of_inject_set [OF d(1,2)] e by simp
  then show ?thesis using d by (intro map_sorted_distinct_set_unique [of fst]) (auto simp: inj_on_def eq_key_imp_eq_value)
qed

end
