(* ===== verification/Sinks.thy ===== *)
theory Sinks
  imports Json_Text Ordered_Map "HOL-Library.Multiset"
begin

text \<open>
  \<open>psx::sink\<close> (\<open>include/psx/sink/\<close>, \<open>src/sink/\<close>): the renderers of a run's output.  A run calls a sink with stage events in
  an order that depends on scheduling; the theorems say which part of the output does not depend on it.  The streams
  a sink writes to are the texts written so far.
\<close>

subsection \<open>The interface\<close>

datatype sink_channel = ToStdout | ToStderr

record stage_result =
  exitCode :: int
  timedOut :: bool
  errorMessage :: string
  droppedBytes :: u64

record run_summary =
  sum_stages :: nat
  sum_succeeded :: nat
  sum_failed :: nat
  sum_dropped :: u64
  sum_cancelled :: bool

text \<open>The calls a sink receives before \<open>runFinished\<close>.\<close>

datatype sink_event = StageStarted string | Line string sink_channel string | StageFinished string stage_result

fun stage_of :: "sink_event \<Rightarrow> string" where
  "stage_of (StageStarted s) = s"
| "stage_of (Line s _ _) = s"
| "stage_of (StageFinished s _) = s"

definition of_stage :: "string \<Rightarrow> sink_event list \<Rightarrow> sink_event list" where
  "of_stage s = filter (\<lambda>e. stage_of e = s)"

subsection \<open>GroupSink\<close>

record group_buffered =
  stdoutLines :: "string list"
  stderrLines :: "string list"

record group_sink =
  gs_buffers :: "string \<rightharpoonup> group_buffered"
  gs_out :: string

definition GroupSink :: group_sink where
  "GroupSink = \<lparr>gs_buffers = Map.empty, gs_out = []\<rparr>"

text \<open>\<open>buffers_[key]\<close>: the entry, default constructed when there is none.\<close>

definition gs_entry :: "group_sink \<Rightarrow> string \<Rightarrow> group_buffered" where
  "gs_entry g s = (case gs_buffers g s of None \<Rightarrow> \<lparr>stdoutLines = [], stderrLines = []\<rparr> | Some b \<Rightarrow> b)"

definition gs_stageStarted :: "group_sink \<Rightarrow> string \<Rightarrow> group_sink" where
  "gs_stageStarted g s = g\<lparr>gs_buffers := (gs_buffers g)(s := None)\<rparr>"

definition add_group_line :: "group_buffered \<Rightarrow> sink_channel \<Rightarrow> string \<Rightarrow> group_buffered" where
  "add_group_line b ch t = (if ch = ToStdout then b\<lparr>stdoutLines := stdoutLines b @ [t]\<rparr>
     else b\<lparr>stderrLines := stderrLines b @ [t]\<rparr>)"

definition gs_line :: "group_sink \<Rightarrow> string \<Rightarrow> sink_channel \<Rightarrow> string \<Rightarrow> group_sink" where
  "gs_line g s ch t = g\<lparr>gs_buffers := (gs_buffers g)(s \<mapsto> add_group_line (gs_entry g s) ch t)\<rparr>"

definition lines_text :: "string list \<Rightarrow> string" where
  "lines_text ls = concat (map (\<lambda>l. l @ [NL]) ls)"

definition group_block :: "string \<Rightarrow> group_buffered \<Rightarrow> stage_result \<Rightarrow> string" where
  "group_block s b r = ''CLIENT '' @ s @ [NL] @ lines_text (stdoutLines b) @
     (if errorMessage r \<noteq> [] then errorMessage r @ [NL] else lines_text (stderrLines b))"

definition gs_stageFinished :: "group_sink \<Rightarrow> string \<Rightarrow> stage_result \<Rightarrow> group_sink" where
  "gs_stageFinished g s r =
     g\<lparr>gs_buffers := (gs_buffers g)(s := None), gs_out := gs_out g @ group_block s (gs_entry g s) r\<rparr>"

fun gs_step :: "group_sink \<Rightarrow> sink_event \<Rightarrow> group_sink" where
  "gs_step g (StageStarted s) = gs_stageStarted g s"
| "gs_step g (Line s ch t) = gs_line g s ch t"
| "gs_step g (StageFinished s r) = gs_stageFinished g s r"

subsection \<open>JsonSink\<close>

record json_buffered =
  stdoutText :: string
  stderrText :: string

record json_sink =
  js_buffers :: "string \<rightharpoonup> json_buffered"
  js_out :: string

definition JsonSink :: json_sink where
  "JsonSink = \<lparr>js_buffers = Map.empty, js_out = []\<rparr>"

definition appendLine :: "string \<Rightarrow> string \<Rightarrow> string" where
  "appendLine txt l = (if txt \<noteq> [] then txt @ [NL] else txt) @ l"

definition js_entry :: "json_sink \<Rightarrow> string \<Rightarrow> json_buffered" where
  "js_entry j s = (case js_buffers j s of None \<Rightarrow> \<lparr>stdoutText = [], stderrText = []\<rparr> | Some b \<Rightarrow> b)"

definition js_stageStarted :: "json_sink \<Rightarrow> string \<Rightarrow> json_sink" where
  "js_stageStarted j s = j\<lparr>js_buffers := (js_buffers j)(s := None)\<rparr>"

definition add_json_line :: "json_buffered \<Rightarrow> sink_channel \<Rightarrow> string \<Rightarrow> json_buffered" where
  "add_json_line b ch t = (if ch = ToStdout then b\<lparr>stdoutText := appendLine (stdoutText b) t\<rparr>
     else b\<lparr>stderrText := appendLine (stderrText b) t\<rparr>)"

definition js_line :: "json_sink \<Rightarrow> string \<Rightarrow> sink_channel \<Rightarrow> string \<Rightarrow> json_sink" where
  "js_line j s ch t = j\<lparr>js_buffers := (js_buffers j)(s \<mapsto> add_json_line (js_entry j s) ch t)\<rparr>"

definition json_key :: "string \<Rightarrow> string" where
  "json_key k = [DQ] @ k @ [DQ] @ '':''"

definition stage_json :: "string \<Rightarrow> json_buffered \<Rightarrow> stage_result \<Rightarrow> string" where
  "stage_json s b r = ''{'' @ json_key ''stage'' @ json_quote s @ '','' @ json_key ''exit'' @ int_to_string (exitCode r) @
     '','' @ json_key ''timed_out'' @ json_boolean (timedOut r) @ '','' @ json_key ''error'' @ json_quote (errorMessage r) @
     '','' @ json_key ''dropped'' @ to_string (unat (droppedBytes r)) @ '','' @ json_key ''stdout'' @ json_quote (stdoutText b) @
     '','' @ json_key ''stderr'' @ json_quote (stderrText b) @ ''}''"

definition js_stageFinished :: "json_sink \<Rightarrow> string \<Rightarrow> stage_result \<Rightarrow> json_sink" where
  "js_stageFinished j s r =
     j\<lparr>js_buffers := (js_buffers j)(s := None), js_out := js_out j @ stage_json s (js_entry j s) r @ [NL]\<rparr>"

definition summary_json :: "run_summary \<Rightarrow> string" where
  "summary_json r = ''{'' @ json_key ''summary'' @ ''true'' @ '','' @ json_key ''stages'' @ to_string (sum_stages r) @
     '','' @ json_key ''succeeded'' @ to_string (sum_succeeded r) @ '','' @ json_key ''failed'' @ to_string (sum_failed r) @
     '','' @ json_key ''dropped'' @ to_string (unat (sum_dropped r)) @ '','' @ json_key ''cancelled'' @
     json_boolean (sum_cancelled r) @ ''}''"

definition js_runFinished :: "json_sink \<Rightarrow> run_summary \<Rightarrow> json_sink" where
  "js_runFinished j r = j\<lparr>js_out := js_out j @ summary_json r @ [NL]\<rparr>"

fun js_step :: "json_sink \<Rightarrow> sink_event \<Rightarrow> json_sink" where
  "js_step j (StageStarted s) = js_stageStarted j s"
| "js_step j (Line s ch t) = js_line j s ch t"
| "js_step j (StageFinished s r) = js_stageFinished j s r"

subsection \<open>StreamSink\<close>

definition ESC :: string where "ESC = [CHR 0x1B]"
definition kReset :: string where "kReset = ESC @ ''[0m''"
definition kPalette :: "string list" where
  "kPalette = map (\<lambda>n. ESC @ ''['' @ n @ ''m'') [''36'', ''32'', ''33'', ''35'', ''34'', ''31'']"

record stream_sink =
  ss_colour :: bool
  ss_assigned :: "string \<rightharpoonup> string"
  ss_nextColour :: nat
  ss_out :: string
  ss_err :: string

definition StreamSink :: "bool \<Rightarrow> stream_sink" where
  "StreamSink colour = \<lparr>ss_colour = colour, ss_assigned = Map.empty, ss_nextColour = 0, ss_out = [], ss_err = []\<rparr>"

definition colourFor :: "stream_sink \<Rightarrow> string \<Rightarrow> stream_sink \<times> string" where
  "colourFor k s =
     (case ss_assigned k s of Some c \<Rightarrow> (k, c)
      | None \<Rightarrow> let c = kPalette ! (ss_nextColour k mod length kPalette) in
          (k\<lparr>ss_nextColour := ss_nextColour k + 1, ss_assigned := (ss_assigned k)(s \<mapsto> c)\<rparr>, c))"

definition ss_put :: "stream_sink \<Rightarrow> sink_channel \<Rightarrow> string \<Rightarrow> stream_sink" where
  "ss_put k ch t = (if ch = ToStdout then k\<lparr>ss_out := ss_out k @ t\<rparr> else k\<lparr>ss_err := ss_err k @ t\<rparr>)"

definition ss_line :: "stream_sink \<Rightarrow> string \<Rightarrow> sink_channel \<Rightarrow> string \<Rightarrow> stream_sink" where
  "ss_line k s ch t =
     (if ss_colour k then let (k', c) = colourFor k s in ss_put k' ch (c @ ''['' @ s @ '']'' @ kReset @ '' '' @ t @ [NL])
      else ss_put k ch (''['' @ s @ ''] '' @ t @ [NL]))"

definition ss_runFinished :: "stream_sink \<Rightarrow> run_summary \<Rightarrow> stream_sink" where
  "ss_runFinished k r = k\<lparr>ss_err := ss_err k @ ''-- '' @ to_string (sum_succeeded r) @ ''/'' @ to_string (sum_stages r) @
     '' ok, '' @ to_string (sum_failed r) @ '' failed'' @
     (if sum_dropped r > 0 then '', '' @ to_string (unat (sum_dropped r)) @ '' bytes dropped'' else []) @
     (if sum_cancelled r then '', cancelled'' else []) @ '' --'' @ [NL]\<rparr>"

text \<open>\<open>stageStarted\<close> and \<open>stageFinished\<close> are the empty defaults of the base class.\<close>

fun ss_step :: "stream_sink \<Rightarrow> sink_event \<Rightarrow> stream_sink" where
  "ss_step k (StageStarted s) = k"
| "ss_step k (Line s ch t) = ss_line k s ch t"
| "ss_step k (StageFinished s r) = k"

subsection \<open>OrderedSink\<close>

record ordered_buffered =
  ob_events :: "(sink_channel \<times> string) list"
  ob_result :: "stage_result option"

type_synonym ordered_buffers = "(string \<times> ordered_buffered) list"

definition ob_entry :: "ordered_buffered option \<Rightarrow> ordered_buffered" where
  "ob_entry v = (case v of None \<Rightarrow> \<lparr>ob_events = [], ob_result = None\<rparr> | Some b \<Rightarrow> b)"

definition os_stageStarted :: "ordered_buffers \<Rightarrow> string \<Rightarrow> ordered_buffers" where
  "os_stageStarted m s = om_alter s (\<lambda>_. None) m"

definition os_line :: "ordered_buffers \<Rightarrow> string \<Rightarrow> sink_channel \<Rightarrow> string \<Rightarrow> ordered_buffers" where
  "os_line m s ch t = om_alter s (\<lambda>v. let b = ob_entry v in Some (b\<lparr>ob_events := ob_events b @ [(ch, t)]\<rparr>)) m"

definition os_stageFinished :: "ordered_buffers \<Rightarrow> string \<Rightarrow> stage_result \<Rightarrow> ordered_buffers" where
  "os_stageFinished m s r = om_alter s (\<lambda>v. Some ((ob_entry v)\<lparr>ob_result := Some r\<rparr>)) m"

fun os_step :: "ordered_buffers \<Rightarrow> sink_event \<Rightarrow> ordered_buffers" where
  "os_step m (StageStarted s) = os_stageStarted m s"
| "os_step m (Line s ch t) = os_line m s ch t"
| "os_step m (StageFinished s r) = os_stageFinished m s r"

text \<open>The calls the wrapped sink receives, stage by stage; it is given by its step and its end.\<close>

definition stage_replay :: "string \<Rightarrow> ordered_buffered \<Rightarrow> sink_event list" where
  "stage_replay s b = StageStarted s # map (\<lambda>(ch, t). Line s ch t) (ob_events b) @
     (case ob_result b of None \<Rightarrow> [] | Some r \<Rightarrow> [StageFinished s r])"

definition os_replay :: "ordered_buffers \<Rightarrow> sink_event list" where
  "os_replay m = concat (map (\<lambda>(s, b). stage_replay s b) m)"

definition os_runFinished :: "('i \<Rightarrow> sink_event \<Rightarrow> 'i) \<Rightarrow> ('i \<Rightarrow> run_summary \<Rightarrow> 'i) \<Rightarrow> 'i \<Rightarrow> ordered_buffers \<Rightarrow> run_summary \<Rightarrow> 'i" where
  "os_runFinished step finish inner m summary = finish (foldl step inner (os_replay m)) summary"

subsection \<open>Consensus\<close>

record bucket =
  b_output :: string
  b_hosts :: "string list"

type_synonym consensus_report = "bucket list"

definition unanimous :: "consensus_report \<Rightarrow> bool" where
  "unanimous bs \<longleftrightarrow> length bs \<le> 1"

definition hostCount :: "consensus_report \<Rightarrow> nat" where
  "hostCount bs = sum_list (map (\<lambda>b. length (b_hosts b)) bs)"

definition byOutput :: "(string \<times> string) list \<Rightarrow> (string \<times> string list) list" where
  "byOutput hostOutputs =
     foldl (\<lambda>m (h, out). om_alter out (\<lambda>v. Some ((case v of None \<Rightarrow> [] | Some hs \<Rightarrow> hs) @ [h])) m) [] hostOutputs"

text \<open>\<open>std::stable_sort\<close> by descending size.\<close>

definition consensus :: "(string \<times> string) list \<Rightarrow> consensus_report" where
  "consensus hostOutputs =
     sort_key (\<lambda>b. - int (length (b_hosts b)))
       (map (\<lambda>(out, hs). \<lparr>b_output = out, b_hosts = sort hs\<rparr>) (byOutput hostOutputs))"

definition renderConsensus :: "consensus_report \<Rightarrow> string" where
  "renderConsensus bs =
     (case bs of [] \<Rightarrow> ''no hosts'' @ [NL]
      | majority # outliers \<Rightarrow>
        if unanimous bs then
          ''consensus: all '' @ to_string (hostCount bs) @ (if hostCount bs = 1 then '' host agrees'' else '' hosts agree'') @ [NL]
        else
          ''consensus: '' @ to_string (length (b_hosts majority)) @ ''/'' @ to_string (hostCount bs) @ '' hosts agree; '' @
          to_string (length outliers) @ (if length outliers = 1 then '' outlier'' else '' outliers'') @ [NL] @
          concat (map (\<lambda>b. ''--- outlier'' @ concat (map (\<lambda>h. '' '' @ h) (b_hosts b)) @ '' ---'' @ [NL] @ b_output b @
            (if b_output b \<noteq> [] \<and> last (b_output b) \<noteq> NL then [NL] else [])) outliers))"

text \<open>Elements with a comma before all but the first.\<close>

fun comma_list :: "string list \<Rightarrow> string" where
  "comma_list [] = []"
| "comma_list (x # xs) = x @ concat (map (\<lambda>y. '','' @ y) xs)"

definition bucket_json :: "bucket \<Rightarrow> string" where
  "bucket_json b = ''{'' @ json_key ''hosts'' @ ''['' @ comma_list (map json_quote (b_hosts b)) @ ''],'' @
     json_key ''output'' @ json_quote (b_output b) @ ''}''"

definition renderConsensusJson :: "consensus_report \<Rightarrow> string" where
  "renderConsensusJson bs = ''{'' @ json_key ''unanimous'' @ json_boolean (unanimous bs) @ '','' @ json_key ''hosts'' @
     to_string (hostCount bs) @ '','' @ json_key ''buckets'' @ ''['' @ comma_list (map bucket_json bs) @ '']}'' @ [NL]"

subsection \<open>ConsensusSink\<close>

type_synonym host_outputs = "(string \<times> string) list"

definition cs_stageStarted :: "host_outputs \<Rightarrow> string \<Rightarrow> host_outputs" where
  "cs_stageStarted m s = om_alter s (\<lambda>_. Some []) (om_alter s (\<lambda>_. None) m)"

definition cs_line :: "host_outputs \<Rightarrow> string \<Rightarrow> sink_channel \<Rightarrow> string \<Rightarrow> host_outputs" where
  "cs_line m s ch t =
     (if ch \<noteq> ToStdout then m else om_alter s (\<lambda>v. Some ((case v of None \<Rightarrow> [] | Some out \<Rightarrow> out) @ t @ [NL])) m)"

definition cs_stageFinished :: "host_outputs \<Rightarrow> string \<Rightarrow> stage_result \<Rightarrow> host_outputs" where
  "cs_stageFinished m s r = om_alter s (\<lambda>v. Some (case v of None \<Rightarrow> [] | Some out \<Rightarrow> out)) m"

fun cs_step :: "host_outputs \<Rightarrow> sink_event \<Rightarrow> host_outputs" where
  "cs_step m (StageStarted s) = cs_stageStarted m s"
| "cs_step m (Line s ch t) = cs_line m s ch t"
| "cs_step m (StageFinished s r) = cs_stageFinished m s r"

definition cs_runFinished :: "bool \<Rightarrow> host_outputs \<Rightarrow> string" where
  "cs_runFinished json m = (if json then renderConsensusJson (consensus m) else renderConsensus (consensus m))"

subsection \<open>Sinks that render at the end\<close>

text \<open>
  The contract of a sink that keeps an ordered map: an event changes only the entry of its stage, by \<open>upd\<close>.  Then what
  is kept depends on each stage's own events and not on how the stages interleave.
\<close>

locale deferred_sink =
  fixes step :: "(string \<times> 'v) list \<Rightarrow> sink_event \<Rightarrow> (string \<times> 'v) list"
    and upd :: "sink_event \<Rightarrow> 'v option \<Rightarrow> 'v option"
  assumes step_ok: "om_ok m \<Longrightarrow> om_ok (step m e)"
    and step_map: "om_ok m \<Longrightarrow> map_of (step m e) = (map_of m)(stage_of e := upd e (map_of m (stage_of e)))"
begin

lemma run_ok: "om_ok m \<Longrightarrow> om_ok (foldl step m es)"
  by (induction es arbitrary: m) (simp_all add: step_ok)

lemma run_map: "om_ok m \<Longrightarrow> map_of (foldl step m es) s = foldl (\<lambda>v e. upd e v) (map_of m s) (of_stage s es)"
  by (induction es arbitrary: m) (auto simp: of_stage_def step_ok step_map)

lemma run_deterministic:
  assumes "\<And>s. of_stage s es = of_stage s es'"
  shows "foldl step [] es = foldl step [] es'"
proof (rule om_ext)
  show "om_ok (foldl step [] es)" "om_ok (foldl step [] es')" by (simp_all add: run_ok)
  show "map_of (foldl step [] es) = map_of (foldl step [] es')" using assms run_map [of "[]"] by (simp add: fun_eq_iff)
qed

end

fun os_upd :: "sink_event \<Rightarrow> ordered_buffered option \<Rightarrow> ordered_buffered option" where
  "os_upd (StageStarted _) v = None"
| "os_upd (Line _ ch t) v = Some ((ob_entry v)\<lparr>ob_events := ob_events (ob_entry v) @ [(ch, t)]\<rparr>)"
| "os_upd (StageFinished _ r) v = Some ((ob_entry v)\<lparr>ob_result := Some r\<rparr>)"

fun cs_upd :: "sink_event \<Rightarrow> string option \<Rightarrow> string option" where
  "cs_upd (StageStarted _) v = Some []"
| "cs_upd (Line _ ch t) v = (if ch = ToStdout then Some ((case v of None \<Rightarrow> [] | Some out \<Rightarrow> out) @ t @ [NL]) else v)"
| "cs_upd (StageFinished _ r) v = Some (case v of None \<Rightarrow> [] | Some out \<Rightarrow> out)"

interpretation os: deferred_sink os_step os_upd
proof
  fix m :: ordered_buffers and e
  assume m: "om_ok m"
  show "om_ok (os_step m e)" using m
    by (cases e) (simp_all add: os_stageStarted_def os_line_def os_stageFinished_def om_alter_ok)
  show "map_of (os_step m e) = (map_of m)(stage_of e := os_upd e (map_of m (stage_of e)))" using m
    by (cases e) (simp_all add: os_stageStarted_def os_line_def os_stageFinished_def om_alter_map Let_def)
qed

interpretation cs: deferred_sink cs_step cs_upd
proof
  fix m :: host_outputs and e
  assume m: "om_ok m"
  show "om_ok (cs_step m e)" using m
    by (cases e) (simp_all add: cs_stageStarted_def cs_line_def cs_stageFinished_def om_alter_ok)
  show "map_of (cs_step m e) = (map_of m)(stage_of e := cs_upd e (map_of m (stage_of e)))" using m
    by (cases e) (simp_all add: cs_stageStarted_def cs_line_def cs_stageFinished_def om_alter_map om_alter_ok)
qed

text \<open>C40: The ordered sink and the consensus sink hide scheduling: two runs in which every stage makes the same calls in
  the same order, interleaved with the other stages in any way, drive the wrapped sink through the same calls in stage
  order, for every wrapped sink, and print the same consensus report.\<close>

theorem deferred_output_deterministic:
  assumes "\<And>s. of_stage s es = of_stage s es'"
  shows "os_runFinished step finish inner (foldl os_step [] es) summary =
      os_runFinished step finish inner (foldl os_step [] es') summary \<and>
    cs_runFinished json (foldl cs_step [] es) = cs_runFinished json (foldl cs_step [] es') \<and>
    om_ok (foldl os_step [] es)"
  using os.run_deterministic [of es es'] cs.run_deterministic [of es es'] assms os.run_ok [of "[]" es] by simp

theorem deferred_output_deterministic_witness:
  "cs_runFinished False (foldl cs_step [] [StageStarted ''a'', StageStarted ''b'', Line ''b'' ToStdout ''x'', Line ''a'' ToStdout ''y'']) =
   cs_runFinished False (foldl cs_step [] [StageStarted ''b'', Line ''b'' ToStdout ''x'', StageStarted ''a'', Line ''a'' ToStdout ''y''])"
proof -
  let ?es = "[StageStarted ''a'', StageStarted ''b'', Line ''b'' ToStdout ''x'', Line ''a'' ToStdout ''y'']"
  let ?es' = "[StageStarted ''b'', Line ''b'' ToStdout ''x'', StageStarted ''a'', Line ''a'' ToStdout ''y'']"
  have "of_stage s ?es = of_stage s ?es'" for s by (auto simp: of_stage_def)
  from deferred_output_deterministic [OF this, of gs_step "\<lambda>g _. g" GroupSink undefined False] show ?thesis by blast
qed

subsection \<open>Sinks that render a stage when it finishes\<close>

text \<open>The lines of a stage since its last start or finish.\<close>

fun attempt_step :: "string \<Rightarrow> (sink_channel \<times> string) list \<Rightarrow> sink_event \<Rightarrow> (sink_channel \<times> string) list" where
  "attempt_step s ls (StageStarted s') = (if s' = s then [] else ls)"
| "attempt_step s ls (Line s' ch t) = (if s' = s then ls @ [(ch, t)] else ls)"
| "attempt_step s ls (StageFinished s' r) = (if s' = s then [] else ls)"

definition attempt :: "string \<Rightarrow> sink_event list \<Rightarrow> (sink_channel \<times> string) list" where
  "attempt s es = foldl (attempt_step s) [] es"

definition on_channel :: "sink_channel \<Rightarrow> (sink_channel \<times> string) list \<Rightarrow> string list" where
  "on_channel ch ls = map snd (filter (\<lambda>l. fst l = ch) ls)"

text \<open>
  The contract: \<open>view\<close> is the buffer of a stage, emptied by a start, extended by a line, and turned into a block of
  output and emptied by a finish.  No event touches the buffer of another stage.
\<close>

locale block_sink =
  fixes step :: "'st \<Rightarrow> sink_event \<Rightarrow> 'st" and view :: "'st \<Rightarrow> string \<Rightarrow> 'b" and out :: "'st \<Rightarrow> string"
    and start :: 'st and empty :: 'b and add :: "'b \<Rightarrow> sink_channel \<Rightarrow> string \<Rightarrow> 'b"
    and block :: "string \<Rightarrow> 'b \<Rightarrow> stage_result \<Rightarrow> string"
  assumes start: "view start s = empty" "out start = []"
    and started: "view (step st (StageStarted s)) = (view st)(s := empty)" "out (step st (StageStarted s)) = out st"
    and line: "view (step st (Line s ch t)) = (view st)(s := add (view st s) ch t)" "out (step st (Line s ch t)) = out st"
    and finished: "view (step st (StageFinished s r)) = (view st)(s := empty)"
      "out (step st (StageFinished s r)) = out st @ block s (view st s) r"
begin

lemma run_view: "view (foldl step start es) s = foldl (\<lambda>b (ch, t). add b ch t) empty (attempt s es)"
proof (induction es rule: rev_induct)
  case Nil
  then show ?case by (simp add: start attempt_def)
next
  case (snoc e es)
  then show ?case by (cases e) (auto simp: started line finished attempt_def)
qed

lemma run_finish:
  "out (foldl step start (es @ [StageFinished s r])) =
     out (foldl step start es) @ block s (foldl (\<lambda>b (ch, t). add b ch t) empty (attempt s es)) r"
  by (simp add: finished run_view)

lemma run_other: "\<nexists>s r. e = StageFinished s r \<Longrightarrow> out (foldl step start (es @ [e])) = out (foldl step start es)"
  by (cases e) (auto simp: started line)

end

interpretation gs: block_sink gs_step gs_entry gs_out GroupSink "\<lparr>stdoutLines = [], stderrLines = []\<rparr>" add_group_line group_block
  by unfold_locales
    (auto simp: fun_eq_iff GroupSink_def gs_entry_def gs_stageStarted_def gs_line_def gs_stageFinished_def)

interpretation js: block_sink js_step js_entry js_out JsonSink "\<lparr>stdoutText = [], stderrText = []\<rparr>" add_json_line
  "\<lambda>s b r. stage_json s b r @ [NL]"
  by unfold_locales
    (auto simp: fun_eq_iff JsonSink_def js_entry_def js_stageStarted_def js_line_def js_stageFinished_def)

lemma group_lines_added:
  "foldl (\<lambda>b (ch, t). add_group_line b ch t) \<lparr>stdoutLines = o0, stderrLines = e0\<rparr> ls =
     \<lparr>stdoutLines = o0 @ on_channel ToStdout ls, stderrLines = e0 @ on_channel ToStderr ls\<rparr>"
proof (induction ls arbitrary: o0 e0)
  case (Cons l ls)
  then show ?case by (cases l; cases "fst l") (auto simp: add_group_line_def on_channel_def)
qed (simp add: on_channel_def)

lemma json_lines_added:
  "foldl (\<lambda>b (ch, t). add_json_line b ch t) \<lparr>stdoutText = o0, stderrText = e0\<rparr> ls =
     \<lparr>stdoutText = foldl appendLine o0 (on_channel ToStdout ls), stderrText = foldl appendLine e0 (on_channel ToStderr ls)\<rparr>"
proof (induction ls arbitrary: o0 e0)
  case (Cons l ls)
  then show ?case by (cases l; cases "fst l") (auto simp: add_json_line_def on_channel_def)
qed (simp add: on_channel_def)

text \<open>C37: When a stage finishes, the group sink and the JSON sink append one block that holds exactly the lines of this
  stage since its last start, in order and split by channel: no line of another stage or of a superseded attempt is in
  it, however the stages interleave.  The normalized error replaces stderr in the group block.\<close>

theorem block_holds_last_attempt:
  "gs_out (foldl gs_step GroupSink (es @ [StageFinished s r])) = gs_out (foldl gs_step GroupSink es) @
     ''CLIENT '' @ s @ [NL] @ lines_text (on_channel ToStdout (attempt s es)) @
     (if errorMessage r \<noteq> [] then errorMessage r @ [NL] else lines_text (on_channel ToStderr (attempt s es))) \<and>
   js_out (foldl js_step JsonSink (es @ [StageFinished s r])) = js_out (foldl js_step JsonSink es) @
     stage_json s \<lparr>stdoutText = foldl appendLine [] (on_channel ToStdout (attempt s es)),
       stderrText = foldl appendLine [] (on_channel ToStderr (attempt s es))\<rparr> r @ [NL]"
  unfolding gs.run_finish js.run_finish group_lines_added json_lines_added group_block_def by simp

text \<open>\<open>appendLine\<close> takes an empty text for no text, so empty lines at the start of an output vanish from its JSON record.\<close>

lemma json_drops_leading_blank: "foldl appendLine [] (replicate n [] @ ls) = foldl appendLine [] ls"
  by (induction n) (simp_all add: appendLine_def)

subsection \<open>StreamSink: one colour per stage\<close>

definition tagged_line :: "(string \<Rightarrow> string) option \<Rightarrow> string \<Rightarrow> string \<Rightarrow> string" where
  "tagged_line col s t = (case col of None \<Rightarrow> ''['' @ s @ ''] '' @ t @ [NL] | Some f \<Rightarrow> f s @ ''['' @ s @ '']'' @ kReset @ '' '' @ t @ [NL])"

definition tagged_lines :: "(string \<Rightarrow> string) option \<Rightarrow> sink_channel \<Rightarrow> sink_event list \<Rightarrow> string" where
  "tagged_lines col ch es = concat (map (\<lambda>e. case e of Line s c t \<Rightarrow> if c = ch then tagged_line col s t else [] | _ \<Rightarrow> []) es)"

lemma stream_coloured:
  assumes "ss_colour k" "\<forall>s c. ss_assigned k s = Some c \<longrightarrow> f s = c"
    "\<forall>s c. ss_assigned (foldl ss_step k es) s = Some c \<longrightarrow> f s = c"
  shows "ss_out (foldl ss_step k es) = ss_out k @ tagged_lines (Some f) ToStdout es \<and>
    ss_err (foldl ss_step k es) = ss_err k @ tagged_lines (Some f) ToStderr es"
  using assms
proof (induction es arbitrary: k)
  case (Cons e es)
  have mono: "ss_assigned k' s = Some c \<Longrightarrow> ss_assigned (foldl ss_step k' es) s = Some c" for k' s c es
  proof (induction es arbitrary: k')
    case (Cons e es)
    then have "ss_assigned (ss_step k' e) s = Some c"
      by (cases e) (auto simp: ss_line_def colourFor_def ss_put_def Let_def split: option.splits)
    with Cons.IH show ?case by simp
  qed simp
  show ?case
  proof (cases e)
    case (Line s ch t)
    obtain k' c where c: "colourFor k s = (k', c)" by (cases "colourFor k s")
    have k': "ss_colour k'" "ss_assigned k' s = Some c" "ss_out k' = ss_out k" "ss_err k' = ss_err k"
      using c Cons.prems(1) by (auto simp: colourFor_def Let_def split: option.splits)
    have st: "ss_step k e = ss_put k' ch (c @ ''['' @ s @ '']'' @ kReset @ '' '' @ t @ [NL])"
      using c Cons.prems(1) by (simp add: Line ss_line_def)
    have put: "ss_colour (ss_put k' ch u) = ss_colour k'" "ss_assigned (ss_put k' ch u) = ss_assigned k'" for u
      by (simp_all add: ss_put_def)
    have col: "\<forall>s c. ss_assigned (ss_step k e) s = Some c \<longrightarrow> f s = c"
      using mono Cons.prems(3) by (metis foldl_Cons)
    then have fs: "f s = c" using k'(2) by (simp add: st put)
    show ?thesis
      using Cons.IH [of "ss_step k e"] Cons.prems(3) col k' fs
      by (cases ch) (simp_all add: st put, simp_all add: Line ss_put_def tagged_lines_def tagged_line_def)
  qed (use Cons in \<open>simp_all add: tagged_lines_def\<close>)
qed (simp add: tagged_lines_def)

lemma stream_plain:
  "\<not> ss_colour k \<Longrightarrow> ss_out (foldl ss_step k es) = ss_out k @ tagged_lines None ToStdout es \<and>
    ss_err (foldl ss_step k es) = ss_err k @ tagged_lines None ToStderr es"
proof (induction es arbitrary: k)
  case (Cons e es)
  then show ?case
  proof (cases e)
    case (Line s ch t)
    then show ?thesis using Cons.IH [of "ss_step k e"] Cons.prems
      by (cases ch) (simp_all add: ss_line_def ss_put_def tagged_lines_def tagged_line_def)
  qed (simp_all add: tagged_lines_def)
qed (simp add: tagged_lines_def)

text \<open>The stream sink writes every line at once, stdout and stderr lines each in arrival order behind the name of
  their stage; with colours on, a stage has one colour in the whole run.\<close>

lemma stream_sink_lines:
  "\<exists>f. ss_out (foldl ss_step (StreamSink True) es) = tagged_lines (Some f) ToStdout es \<and>
       ss_err (foldl ss_step (StreamSink True) es) = tagged_lines (Some f) ToStderr es"
  "ss_out (foldl ss_step (StreamSink False) es) = tagged_lines None ToStdout es"
  "ss_err (foldl ss_step (StreamSink False) es) = tagged_lines None ToStderr es"
proof -
  let ?f = "\<lambda>s. the (ss_assigned (foldl ss_step (StreamSink True) es) s)"
  have "ss_out (foldl ss_step (StreamSink True) es) = tagged_lines (Some ?f) ToStdout es \<and>
      ss_err (foldl ss_step (StreamSink True) es) = tagged_lines (Some ?f) ToStderr es"
    using stream_coloured [of "StreamSink True" ?f es] by (simp add: StreamSink_def)
  then show "\<exists>f. ss_out (foldl ss_step (StreamSink True) es) = tagged_lines (Some f) ToStdout es \<and>
       ss_err (foldl ss_step (StreamSink True) es) = tagged_lines (Some f) ToStderr es" by blast
qed (use stream_plain [of "StreamSink False" es] in \<open>simp_all add: StreamSink_def\<close>)

subsection \<open>The consensus report\<close>

definition ranked_before :: "bucket \<Rightarrow> bucket \<Rightarrow> bool" where
  "ranked_before a b \<longleftrightarrow> length (b_hosts b) < length (b_hosts a) \<or>
     length (b_hosts a) = length (b_hosts b) \<and> b_output a < b_output b"

lemma insort_ranked:
  assumes "sorted_wrt ranked_before bs" "\<forall>b \<in> set bs. b_output x < b_output b"
  shows "sorted_wrt ranked_before (insort_key (\<lambda>b. - int (length (b_hosts b))) x bs)"
  using assms
proof (induction bs)
  case (Cons y ys)
  show ?case
  proof (cases "length (b_hosts y) \<le> length (b_hosts x)")
    case True
    then have "\<forall>z \<in> set (y # ys). ranked_before x z" using Cons.prems by (auto simp: ranked_before_def)
    then show ?thesis using True Cons.prems(1) by simp
  next
    case False
    then have "ranked_before y x" by (simp add: ranked_before_def)
    then show ?thesis using False Cons by (simp add: set_insort_key)
  qed
qed simp

lemma sort_ranked:
  "sorted_wrt (\<lambda>a b. b_output a < b_output b) bs \<Longrightarrow> sorted_wrt ranked_before (sort_key (\<lambda>b. - int (length (b_hosts b))) bs)"
  by (induction bs) (simp_all add: insort_ranked)

definition hosts_with :: "string \<Rightarrow> (string \<times> string) list \<Rightarrow> string list" where
  "hosts_with out hos = map fst (filter (\<lambda>p. snd p = out) hos)"

lemma byOutput_spec:
  "om_ok (byOutput hos) \<and> (\<forall>out. map_of (byOutput hos) out = (if hosts_with out hos = [] then None else Some (hosts_with out hos))) \<and>
   sum_list (map (\<lambda>p. length (snd p)) (byOutput hos)) = length hos"
proof (induction hos rule: rev_induct)
  case Nil
  then show ?case by (simp add: byOutput_def hosts_with_def)
next
  case (snoc p hos)
  obtain h out where p: "p = (h, out)" by (cases p)
  let ?f = "\<lambda>v. Some ((case v of None \<Rightarrow> [] | Some hs \<Rightarrow> hs) @ [h])"
  have b: "byOutput (hos @ [p]) = om_alter out ?f (byOutput hos)" by (simp add: byOutput_def p)
  have len: "sum_list (map (\<lambda>p. length (snd p)) (om_alter out ?f m)) = Suc (sum_list (map (\<lambda>p. length (snd p)) m))" for m
    by (induction m) auto
  have "hosts_with o' (hos @ [p]) = hosts_with o' hos @ (if o' = out then [h] else [])" for o'
    by (simp add: hosts_with_def p)
  with snoc len show ?case unfolding b by (auto simp: om_alter_ok om_alter_map)
qed

text \<open>C38: The consensus report puts every host in exactly one bucket, with the hosts of identical output: the buckets'
  outputs are the distinct outputs, each bucket holds all hosts with its output in ascending order, buckets are ranked
  by size with ties by output, the host count is the number of hosts, and the report is unanimous exactly when there is
  at most one output.\<close>

theorem consensus_correct:
  "distinct (map b_output (consensus hos)) \<and> b_output ` set (consensus hos) = snd ` set hos \<and>
   sorted_wrt ranked_before (consensus hos) \<and>
   list_all (\<lambda>b. b_hosts b = sort (hosts_with (b_output b) hos)) (consensus hos) \<and>
   hostCount (consensus hos) = length hos \<and> (unanimous (consensus hos) \<longleftrightarrow> card (snd ` set hos) \<le> 1)"
proof -
  let ?m = "byOutput hos" and ?b = "\<lambda>(out, hs). \<lparr>b_output = out, b_hosts = sort hs\<rparr>"
  let ?bs = "map ?b ?m" and ?k = "\<lambda>b. - int (length (b_hosts b))"
  have m: "om_ok ?m" "\<And>out. map_of ?m out = (if hosts_with out hos = [] then None else Some (hosts_with out hos))"
    "sum_list (map (\<lambda>p. length (snd p)) ?m) = length hos" using byOutput_spec [of hos] by blast+
  have c: "consensus hos = sort_key ?k ?bs" by (simp add: consensus_def)
  have o: "map b_output ?bs = map fst ?m" by (simp add: comp_def case_prod_unfold)
  have asc: "sorted_wrt (\<lambda>a b. b_output a < b_output b) ?bs"
    using m(1) unfolding om_ok_def o [symmetric] sorted_wrt_map .
  have d: "distinct (map b_output ?bs)" using m(1) unfolding o om_ok_def by (simp add: strict_sorted_iff)
  have ms: "mset (consensus hos) = mset ?bs" by (simp add: c)
  have "mset (map b_output (consensus hos)) = mset (map b_output ?bs)" unfolding mset_map ms ..
  then have dc: "distinct (map b_output (consensus hos))" using d mset_eq_imp_distinct_iff by blast
  moreover have keys: "fst ` set ?m = snd ` set hos"
  proof -
    have "out \<in> fst ` set ?m \<longleftrightarrow> hosts_with out hos \<noteq> []" for out using m(2) [of out] by (metis map_of_eq_None_iff option.distinct(1))
    moreover have "hosts_with out hos \<noteq> [] \<longleftrightarrow> out \<in> snd ` set hos" for out by (force simp: hosts_with_def filter_empty_conv)
    ultimately show ?thesis by blast
  qed
  have set: "set (consensus hos) = set ?bs" using ms by (metis set_mset_mset)
  have outs: "b_output ` set (consensus hos) = snd ` set hos" unfolding set keys [symmetric] using o by (metis list.set_map)
  moreover have "list_all (\<lambda>b. b_hosts b = sort (hosts_with (b_output b) hos)) (consensus hos)"
  proof -
    have "hs = hosts_with out hos" if "(out, hs) \<in> set ?m" for out hs
    proof -
      have "map_of ?m out = Some hs" using that m(1) by (intro map_of_is_SomeI) (auto simp: om_ok_def strict_sorted_iff)
      then show ?thesis using m(2) [of out] by (auto split: if_splits)
    qed
    then show ?thesis by (auto simp: list_all_iff set)
  qed
  moreover have "hostCount (consensus hos) = length hos"
  proof -
    have "hostCount (consensus hos) = sum_mset (image_mset (\<lambda>b. length (b_hosts b)) (mset (consensus hos)))"
      by (simp add: hostCount_def sum_mset_sum_list [symmetric])
    also have "\<dots> = sum_list (map (\<lambda>p. length (snd p)) ?m)"
      unfolding ms by (simp add: sum_mset_sum_list [symmetric] comp_def case_prod_unfold multiset.map_comp)
    finally show ?thesis using m(3) by simp
  qed
  moreover have "card (snd ` set hos) = length (consensus hos)"
    using dc outs by (metis distinct_card length_map list.set_map)
  ultimately show ?thesis using sort_ranked [OF asc] by (simp add: c unanimous_def)
qed

end
