(* ===== verification/Audit_Log.thy ===== *)
theory Audit_Log
  imports Json_Text
begin

text \<open>
  \<open>psx::audit::AuditLog\<close> (\<open>include/psx/audit/audit_log.hpp\<close>, \<open>src/audit/audit_log.cpp\<close>): the audit trail, one JSON object
  per line.  The log is the content of its file and whether the stream is good; the time of a call is an argument.
\<close>

record stage_record =
  sr_host :: string
  sr_stageId :: string
  sr_exitCode :: int
  sr_attempts :: int
  sr_timedOut :: bool
  sr_cancelled :: bool
  sr_aborted :: bool
  sr_droppedBytes :: u64
  sr_error :: string

record run_record =
  rr_total :: nat
  rr_succeeded :: nat
  rr_failed :: nat
  rr_cancelled :: bool
  rr_exitCode :: int

record audit_log =
  al_good :: bool
  al_content :: string

text \<open>Opening for append keeps what is there; a failed open leaves a stream that is not good.\<close>

definition AuditLog :: "bool \<Rightarrow> string \<Rightarrow> audit_log" where
  "AuditLog opened existing = \<lparr>al_good = opened, al_content = existing\<rparr>"

text \<open>The member name \<open>key\<close> of an object, with the comma before it.\<close>

definition member_text :: "string \<Rightarrow> string \<Rightarrow> string" where
  "member_text key value = '','' @ [DQ] @ key @ [DQ] @ '':'' @ value"

definition record_line :: "int \<Rightarrow> string \<Rightarrow> string" where
  "record_line now body = ''{'' @ [DQ] @ ''ts_ms'' @ [DQ] @ '':'' @ int_to_string now @ body @ ''}''"

definition writeLine :: "audit_log \<Rightarrow> int \<Rightarrow> string \<Rightarrow> audit_log" where
  "writeLine log now body =
     (if \<not> al_good log then log else log\<lparr>al_content := al_content log @ record_line now body @ [NL]\<rparr>)"

definition started_body :: "string \<Rightarrow> string \<Rightarrow> nat \<Rightarrow> string" where
  "started_body runId command hostCount =
     member_text ''event'' (json_quote ''run_started'') @ member_text ''run_id'' (json_quote runId) @
     member_text ''command'' (json_quote command) @ member_text ''hosts'' (to_string hostCount)"

definition stage_body :: "string \<Rightarrow> stage_record \<Rightarrow> string" where
  "stage_body runId r =
     member_text ''event'' (json_quote ''stage_finished'') @ member_text ''run_id'' (json_quote runId) @
     member_text ''stage'' (json_quote (sr_stageId r)) @ member_text ''host'' (json_quote (sr_host r)) @
     member_text ''exit_code'' (int_to_string (sr_exitCode r)) @ member_text ''attempts'' (int_to_string (sr_attempts r)) @
     member_text ''timed_out'' (json_boolean (sr_timedOut r)) @ member_text ''cancelled'' (json_boolean (sr_cancelled r)) @
     member_text ''aborted'' (json_boolean (sr_aborted r)) @
     member_text ''dropped_bytes'' (to_string (unat (sr_droppedBytes r))) @ member_text ''error'' (json_quote (sr_error r))"

definition finished_body :: "string \<Rightarrow> run_record \<Rightarrow> string" where
  "finished_body runId r =
     member_text ''event'' (json_quote ''run_finished'') @ member_text ''run_id'' (json_quote runId) @
     member_text ''total'' (to_string (rr_total r)) @ member_text ''succeeded'' (to_string (rr_succeeded r)) @
     member_text ''failed'' (to_string (rr_failed r)) @ member_text ''cancelled'' (json_boolean (rr_cancelled r)) @
     member_text ''exit_code'' (int_to_string (rr_exitCode r))"

definition al_runStarted :: "audit_log \<Rightarrow> int \<Rightarrow> string \<Rightarrow> string \<Rightarrow> nat \<Rightarrow> audit_log" where
  "al_runStarted log now runId command hostCount = writeLine log now (started_body runId command hostCount)"

definition al_stageFinished :: "audit_log \<Rightarrow> int \<Rightarrow> string \<Rightarrow> stage_record \<Rightarrow> audit_log" where
  "al_stageFinished log now runId r = writeLine log now (stage_body runId r)"

definition al_runFinished :: "audit_log \<Rightarrow> int \<Rightarrow> string \<Rightarrow> run_record \<Rightarrow> audit_log" where
  "al_runFinished log now runId r = writeLine log now (finished_body runId r)"

subsection \<open>One line per call\<close>

datatype audit_call = RunStarted string string nat | StageDone string stage_record | RunDone string run_record

fun audit_exec :: "audit_log \<Rightarrow> int \<times> audit_call \<Rightarrow> audit_log" where
  "audit_exec log (now, RunStarted runId command n) = al_runStarted log now runId command n"
| "audit_exec log (now, StageDone runId r) = al_stageFinished log now runId r"
| "audit_exec log (now, RunDone runId r) = al_runFinished log now runId r"

fun call_body :: "audit_call \<Rightarrow> string" where
  "call_body (RunStarted runId command n) = started_body runId command n"
| "call_body (StageDone runId r) = stage_body runId r"
| "call_body (RunDone runId r) = finished_body runId r"

definition call_line :: "int \<times> audit_call \<Rightarrow> string" where
  "call_line c = record_line (fst c) (call_body (snd c))"

lemma audit_exec_line: "audit_exec log c = writeLine log (fst c) (call_body (snd c))"
  by (cases "(log, c)" rule: audit_exec.cases) (simp_all add: al_runStarted_def al_stageFinished_def al_runFinished_def)

lemma member_text_one_line: "NL \<notin> set key \<Longrightarrow> NL \<notin> set value \<Longrightarrow> NL \<notin> set (member_text key value)"
  by (simp add: member_text_def)

lemma call_line_one_line: "NL \<notin> set (call_line c)"
proof -
  have "NL \<notin> set (call_body (snd c))"
    by (cases "snd c") (simp_all add: started_body_def stage_body_def finished_body_def member_text_one_line one_line)
  then show ?thesis by (simp add: call_line_def record_line_def one_line)
qed

lemma audit_run:
  "foldl audit_exec log cs =
     (if al_good log then log\<lparr>al_content := al_content log @ concat (map (\<lambda>c. call_line c @ [NL]) cs)\<rparr> else log)"
  by (induction cs arbitrary: log) (auto simp: audit_exec_line writeLine_def call_line_def)

text \<open>C40: The audit log is append only: on a log that opened on complete lines, every sequence of calls adds exactly one
  line per call, in order, whatever bytes the commands, hosts and error texts contain, and keeps the lines that were
  there; on a log that could not be opened nothing is written.\<close>

theorem audit_one_line_per_call:
  "split_on NL (al_content (foldl audit_exec (AuditLog True (concat (map (\<lambda>l. l @ [NL]) old))) cs)) =
     concat (map (split_on NL) old) @ map call_line cs @ [[]] \<and>
   foldl audit_exec (AuditLog False existing) cs = AuditLog False existing"
proof -
  have s: "split_on NL (l @ NL # rest) = split_on NL l @ split_on NL rest" for l rest
    by (induction l) (auto split: list.splits)
  have a: "split_on NL (concat (map (\<lambda>l. l @ [NL]) ls) @ rest) = concat (map (split_on NL) ls) @ split_on NL rest" for ls rest
    by (induction ls) (simp_all add: s)
  have n: "concat (map (split_on NL \<circ> call_line) cs) = map call_line cs"
    by (induction cs) (simp_all add: split_on_none call_line_one_line)
  have "split_on NL (concat (map (\<lambda>l. l @ [NL]) old) @ concat (map (\<lambda>l. l @ [NL]) (map call_line cs)) @ []) =
      concat (map (split_on NL) old) @ map call_line cs @ [[]]"
    unfolding a by (simp add: n)
  then show ?thesis by (simp add: audit_run AuditLog_def comp_def)
qed

end
