(* ===== verification/Run_Command.thy ===== *)
theory Run_Command
  imports Run_Options Inventory Policy Sinks Audit_Log Line_Framer
begin

text \<open>
  The subcommand \<open>pipeshellx run\<close> (\<open>src/cli/selection.cpp\<close>, the second part of \<open>src/cli/run_command.cpp\<close>): resolving the
  hosts, the decisions before anything is started, and what is reported about the results.  The run itself belongs to
  the process manager and the native controller; their results are arguments of the reporting functions.  The files,
  the environment and the absolute path of the known_hosts file are arguments.
\<close>

subsection \<open>Selection\<close>

definition toClientEntry :: "host \<Rightarrow> string \<Rightarrow> client_entry" where
  "toClientEntry h knownHosts =
     (let entry = ClientEntry\<lparr>ce_user := h_user h, ce_host := h_host h, ce_port := h_port h, identityFile := h_identity h,
            expectedSan := h_san h, ce_nativePort := h_nativePort h, ce_transport := h_transport h,
            knownHostsFile := knownHosts\<rparr>
      in entry\<lparr>ce_raw := ce_serialize entry\<rparr>)"

definition select_hosts :: "inventory \<Rightarrow> selector \<Rightarrow> host list thrown" where
  "select_hosts iv sel =
     (case sel_kind sel of ByGroup \<Rightarrow> Inr (selectGroup iv (sel_value sel)) | ByTag \<Rightarrow> Inr (selectTag iv (sel_value sel))
      | ByHosts \<Rightarrow> selectHosts iv (sel_hosts sel) | AllHosts \<Rightarrow> Inr (hosts iv))"

text \<open>The left side is the exit code and the diagnostic.\<close>

definition resolveHosts :: "world \<Rightarrow> (string \<Rightarrow> string) \<Rightarrow> string \<Rightarrow> selector \<Rightarrow> (int \<times> string) + client_entry list" where
  "resolveHosts w knownHostsPathFor path sel =
     (let resolved = resolvePath w path in
      if resolved = [] then Inl (2, ''no inventory (pass -i FILE, set PIPESHELLX_INVENTORY, or add inventory.ini)'' @ [NL])
      else case inv_loadFromFile w resolved of Inl e \<Rightarrow> Inl (2, e @ [NL])
        | Inr iv \<Rightarrow>
          (case select_hosts iv sel of Inl e \<Rightarrow> Inl (2, e @ [NL])
           | Inr hs \<Rightarrow>
             if hs = [] then Inl (3, ''no hosts selected'' @ [NL])
             else Inr (map (\<lambda>h. toClientEntry h (knownHostsPathFor resolved)) hs)))"

subsection \<open>Decisions\<close>

text \<open>The option a transport does not support, if any was given; then the port.\<close>

definition only_with :: "string \<Rightarrow> string \<Rightarrow> string" where
  "only_with opt transport = opt @ '' is only supported with --transport '' @ transport"

definition validateNativeOptions :: "run_invocation \<Rightarrow> string option" where
  "validateNativeOptions iv =
     (if reuse iv then Some (only_with ''--reuse'' ''ssh'')
      else if idempotent iv then Some (only_with ''--idempotent'' ''ssh'')
      else if retriesExplicit iv \<or> retries iv \<noteq> 0 then Some (only_with ''--retries'' ''ssh'')
      else if shellExplicit iv \<or> ri_shell iv \<noteq> Posix then Some (only_with ''--shell'' ''ssh'')
      else if ri_nativePort iv \<le> 0 \<or> ri_nativePort iv > 65535 then Some ''--native-port must be in the range 1..65535''
      else None)"

definition validateSshOptions :: "run_invocation \<Rightarrow> string option" where
  "validateSshOptions iv =
     (if canaryExplicit iv \<or> canary iv \<noteq> [] then Some (only_with ''--canary'' ''native'')
      else if certExplicit iv \<or> certPath iv \<noteq> [] then Some (only_with ''--cert'' ''native'')
      else if keyExplicit iv \<or> keyPath iv \<noteq> [] then Some (only_with ''--key'' ''native'')
      else if caExplicit iv \<or> caPath iv \<noteq> [] then Some (only_with ''--ca'' ''native'')
      else if crlExplicit iv \<or> crlPath iv \<noteq> [] then Some (only_with ''--crl'' ''native'')
      else if nativePortExplicit iv then Some (only_with ''--native-port'' ''native'')
      else None)"

definition check_policy :: "world \<Rightarrow> run_invocation \<Rightarrow> string option" where
  "check_policy w iv =
     (if policyPath iv = [] then None
      else case policy_loadFromFile (w_files w) (policyPath iv) of Inl e \<Rightarrow> Some e
        | Inr p \<Rightarrow> policy_validate p (ri_command iv))"

text \<open>What a run does: refuse with an exit code and a message, or start on the clients.  \<open>tls\<close> says whether the build has
  the native transport.\<close>

datatype run_action =
    Refuse int string
  | StartNative "client_entry list"
  | StartSsh "client_entry list" string

definition chosen_transport :: "run_invocation \<Rightarrow> client_entry list \<Rightarrow> bool option" where
  "chosen_transport iv targets =
     (if transportExplicit iv \<or> native iv then Some (native iv)
      else let selectedTransport = ce_transport (hd targets) in
        if \<exists>client \<in> set targets. ce_transport client \<noteq> selectedTransport then None
        else Some (selectedTransport = ''native''))"

definition usage :: "string \<Rightarrow> run_action" where
  "usage e = Refuse 2 (''pipeshellx run: '' @ e @ [NL])"

definition start_action :: "bool \<Rightarrow> run_invocation \<Rightarrow> client_entry list \<Rightarrow> run_action" where
  "start_action tls iv targets =
     (case chosen_transport iv targets of
        None \<Rightarrow> usage ''selected inventory contains mixed ssh/native transports; pass --transport ssh or --transport native to override''
      | Some useNative \<Rightarrow>
        (case (if useNative then if native iv then None else validateNativeOptions iv else validateSshOptions iv) of
           Some e \<Rightarrow> usage e
         | None \<Rightarrow>
           if useNative then
             if tls then StartNative targets else usage ''this build has no native transport support (OpenSSL)''
           else StartSsh targets (quoteRemoteCommand (ri_command iv) (ri_shell iv))))"

definition runSubcommand :: "bool \<Rightarrow> world \<Rightarrow> (string \<Rightarrow> string) \<Rightarrow> run_invocation \<Rightarrow> run_action" where
  "runSubcommand tls w knownHostsPathFor iv =
     (if ri_command iv = [] \<or> hd (ri_command iv) = [] then usage ''no command given''
      else case (if native iv then validateNativeOptions iv else None) of Some e \<Rightarrow> usage e
      | None \<Rightarrow>
        (case (if transportExplicit iv \<and> \<not> native iv then validateSshOptions iv else None) of Some e \<Rightarrow> usage e
         | None \<Rightarrow>
           (case check_policy w iv of Some e \<Rightarrow> usage e
            | None \<Rightarrow>
              (case resolveHosts w knownHostsPathFor (ri_inventoryPath iv) (ri_selector iv) of Inl (code, e) \<Rightarrow> Refuse code e
               | Inr targets \<Rightarrow> start_action tls iv targets))))"

text \<open>The credentials \<open>runNative\<close> reads before it connects: certificate, key, CA and an optional revocation list.\<close>

definition native_credentials :: "world \<Rightarrow> run_invocation \<Rightarrow> string + (string \<times> string \<times> string \<times> string)" where
  "native_credentials w iv =
     (if certPath iv = [] \<or> keyPath iv = [] \<or> caPath iv = []
      then Inl (''pipeshellx run: --transport native requires --cert, --key and --ca'' @ [NL])
      else case (w_files w (certPath iv), w_files w (keyPath iv), w_files w (caPath iv)) of
          (Some cert, Some key, Some ca) \<Rightarrow>
            if crlPath iv = [] then Inr (cert, key, ca, [])
            else (case w_files w (crlPath iv) of
                None \<Rightarrow> Inl (''pipeshellx run: cannot read --crl '' @ crlPath iv @ [NL])
              | Some pem \<Rightarrow> Inr (cert, key, ca, pem))
        | _ \<Rightarrow> Inl (''pipeshellx run: cannot read --cert/--key/--ca'' @ [NL]))"

subsection \<open>Reporting\<close>

record client_result =
  cr_clientId :: string
  cr_exitCode :: int
  cr_errorMessage :: string
  cr_timedOut :: bool
  cr_droppedBytes :: u64
  cr_cancelled :: bool
  cr_attempts :: int
  cr_aborted :: bool

record remote_result =
  rem_exitCode :: int
  rem_cancelled :: bool
  rem_clients :: "client_result list"

definition kExitCancelled :: int where "kExitCancelled = 130"

definition ssh_stage_ok :: "client_result \<Rightarrow> bool" where
  "ssh_stage_ok r \<longleftrightarrow> cr_exitCode r = 0 \<and> \<not> cr_timedOut r \<and> \<not> cr_cancelled r \<and> \<not> cr_aborted r \<and> cr_errorMessage r = []"

definition ssh_exit :: "remote_result \<Rightarrow> int" where
  "ssh_exit r = (if rem_cancelled r then kExitCancelled else if rem_exitCode r = 0 then 0 else 1)"

definition ssh_record :: "nat \<Rightarrow> client_result \<Rightarrow> stage_record" where
  "ssh_record i r = \<lparr>sr_host = cr_clientId r, sr_stageId = ''s'' @ to_string i, sr_exitCode = cr_exitCode r,
     sr_attempts = cr_attempts r, sr_timedOut = cr_timedOut r, sr_cancelled = cr_cancelled r, sr_aborted = cr_aborted r,
     sr_droppedBytes = cr_droppedBytes r, sr_error = cr_errorMessage r\<rparr>"

definition ssh_audit :: "string \<Rightarrow> string \<Rightarrow> nat \<Rightarrow> remote_result \<Rightarrow> audit_call list" where
  "ssh_audit runId remoteCommand clientCount r =
     (let succeeded = length (filter ssh_stage_ok (rem_clients r)) in
      RunStarted runId remoteCommand clientCount #
      map (\<lambda>(i, c). StageDone runId (ssh_record i c)) (enumerate 0 (rem_clients r)) @
      [RunDone runId \<lparr>rr_total = length (rem_clients r), rr_succeeded = succeeded,
         rr_failed = length (rem_clients r) - succeeded, rr_cancelled = rem_cancelled r, rr_exitCode = ssh_exit r\<rparr>])"

text \<open>The results of the native controller and \<open>finishResults\<close>: the calls of the sink, the summary, the audit records and
  the exit code.  \<open>framers\<close> are the line framers of a live sink, per host and channel.\<close>

record host_result =
  hr_host :: string
  hr_ok :: bool
  hr_exitCode :: int
  hr_error :: string
  hr_stdout :: string
  hr_stderr :: string
  hr_dropped :: u64
  hr_timedOut :: bool
  hr_cancelled :: bool
  hr_aborted :: bool

type_synonym framers = "string \<Rightarrow> line_framer \<times> line_framer"

definition host_ok_result :: "host_result \<Rightarrow> bool" where
  "host_ok_result r \<longleftrightarrow> hr_ok r \<and> hr_exitCode r = 0 \<and> hr_error r = [] \<and> \<not> hr_timedOut r \<and> \<not> hr_cancelled r \<and> \<not> hr_aborted r"

definition replay_lines :: "string \<Rightarrow> string list" where
  "replay_lines bytes = (let (f, es) = lf_push (LineFramer 0) bytes in map fst (es @ fst (snd (lf_flush f))))"

definition flush_lines :: "line_framer \<Rightarrow> string list" where
  "flush_lines f = map fst (fst (snd (lf_flush f)))"

definition host_lines :: "bool \<Rightarrow> framers \<Rightarrow> host_result \<Rightarrow> sink_event list" where
  "host_lines live fr r =
     (let (os, es) = (if live then (flush_lines (fst (fr (hr_host r))), flush_lines (snd (fr (hr_host r))))
                      else (replay_lines (hr_stdout r), replay_lines (hr_stderr r)))
      in map (Line (hr_host r) ToStdout) os @ map (Line (hr_host r) ToStderr) es)"

definition host_finished :: "host_result \<Rightarrow> sink_event" where
  "host_finished r = StageFinished (hr_host r) \<lparr>exitCode = hr_exitCode r, timedOut = hr_timedOut r,
     errorMessage = hr_error r, droppedBytes = hr_dropped r\<rparr>"

definition flushed :: "bool \<Rightarrow> framers \<Rightarrow> string \<Rightarrow> framers" where
  "flushed live fr h = (if live then fr(h := (fst (lf_flush (fst (fr h))), fst (lf_flush (snd (fr h))))) else fr)"

fun finish_events :: "bool \<Rightarrow> framers \<Rightarrow> host_result list \<Rightarrow> sink_event list" where
  "finish_events live fr [] = []"
| "finish_events live fr (r # rs) =
     host_lines live fr r @ [host_finished r] @ finish_events live (flushed live fr (hr_host r)) rs"

definition any_cancelled :: "bool \<Rightarrow> host_result list \<Rightarrow> bool" where
  "any_cancelled interrupted rs \<longleftrightarrow> interrupted \<or> (\<exists>r \<in> set rs. hr_cancelled r)"

definition native_exit :: "bool \<Rightarrow> host_result list \<Rightarrow> int" where
  "native_exit interrupted rs =
     (if any_cancelled interrupted rs then kExitCancelled
      else if length (filter host_ok_result rs) = length rs then 0 else 1)"

definition native_summary :: "bool \<Rightarrow> host_result list \<Rightarrow> run_summary" where
  "native_summary interrupted rs =
     (let succeeded = length (filter host_ok_result rs) in
      \<lparr>sum_stages = length rs, sum_succeeded = succeeded, sum_failed = length rs - succeeded,
       sum_dropped = sum_list (map hr_dropped rs), sum_cancelled = any_cancelled interrupted rs\<rparr>)"

definition native_record :: "nat \<Rightarrow> host_result \<Rightarrow> stage_record" where
  "native_record i r = \<lparr>sr_host = hr_host r, sr_stageId = ''s'' @ to_string i, sr_exitCode = hr_exitCode r, sr_attempts = 1,
     sr_timedOut = hr_timedOut r, sr_cancelled = hr_cancelled r, sr_aborted = hr_aborted r, sr_droppedBytes = hr_dropped r,
     sr_error = hr_error r\<rparr>"

definition native_audit :: "string \<Rightarrow> bool \<Rightarrow> host_result list \<Rightarrow> audit_call list" where
  "native_audit runId interrupted rs =
     (let succeeded = length (filter host_ok_result rs) in
      map (\<lambda>(i, r). StageDone runId (native_record i r)) (enumerate 0 rs) @
      [RunDone runId \<lparr>rr_total = length rs, rr_succeeded = succeeded, rr_failed = length rs - succeeded,
         rr_cancelled = any_cancelled interrupted rs, rr_exitCode = native_exit interrupted rs\<rparr>])"

subsection \<open>Nothing is started that should not be\<close>

fun started :: "run_action \<Rightarrow> client_entry list" where
  "started (Refuse _ _) = []"
| "started (StartNative ts) = ts"
| "started (StartSsh ts _) = ts"

lemma selectHosts_subset: "selectHosts iv ns = Inr hs \<Longrightarrow> set hs \<subseteq> set (hosts iv)"
proof (induction ns arbitrary: hs)
  case (Cons n ns)
  then obtain h hs' where h: "find (\<lambda>h. h_name h = n \<or> h_host h = n) (hosts iv) = Some h" "selectHosts iv ns = Inr hs'" "hs = h # hs'"
    by (auto split: option.splits sum.splits)
  have "h \<in> set (hosts iv)" using h(1) by (auto simp: find_Some_iff in_set_conv_nth)
  with Cons.IH [OF h(2)] h(3) show ?case by simp
qed simp

lemma select_hosts_subset: "select_hosts iv sel = Inr hs \<Longrightarrow> set hs \<subseteq> set (hosts iv)"
  by (auto simp: select_hosts_def selectGroup_def selectTag_def dest: selectHosts_subset split: SelectorKind.splits)

lemma resolveHosts_ok:
  assumes "resolveHosts w kh path sel = Inr ts"
  shows "\<exists>iv hs. inv_loadFromFile w (resolvePath w path) = Inr iv \<and> select_hosts iv sel = Inr hs \<and> hs \<noteq> [] \<and>
    set hs \<subseteq> set (hosts iv) \<and> ts = map (\<lambda>h. toClientEntry h (kh (resolvePath w path))) hs"
  using assms by (auto simp: resolveHosts_def Let_def dest: select_hosts_subset split: if_splits sum.splits)

lemma transport_known: "hosts_ok (hosts iv) \<Longrightarrow> h \<in> set (hosts iv) \<Longrightarrow> h_transport h = ''ssh'' \<or> h_transport h = ''native''"
  by (auto simp: hosts_ok_def host_ok_def isSupportedTransport_def)

lemma toClientEntry_transport: "ce_transport (toClientEntry h k) = h_transport h"
  by (simp add: toClientEntry_def Let_def)

lemma start_action_ok:
  assumes "start_action tls iv ts = a" "started a \<noteq> []" "\<forall>t \<in> set ts. ce_transport t = ''ssh'' \<or> ce_transport t = ''native''"
  shows "started a = ts \<and>
    (transportExplicit iv \<or> native iv \<or> list_all (\<lambda>t. ce_transport t = (case a of StartSsh _ _ \<Rightarrow> ''ssh'' | _ \<Rightarrow> ''native'')) ts) \<and>
    (case a of StartSsh _ line \<Rightarrow> shell_words (ri_shell iv) line = Some (ri_command iv) | _ \<Rightarrow> True)"
proof -
  obtain u where u: "chosen_transport iv ts = Some u" using assms(1,2) by (auto simp: start_action_def usage_def split: option.splits)
  have a: "a = (if u then StartNative ts else StartSsh ts (quoteRemoteCommand (ri_command iv) (ri_shell iv)))"
    using assms(1,2) u by (auto simp: start_action_def usage_def split: option.splits if_splits)
  have "list_all (\<lambda>t. ce_transport t = (if u then ''native'' else ''ssh'')) ts" if "\<not> (transportExplicit iv \<or> native iv)"
  proof -
    have "\<forall>t \<in> set ts. ce_transport t = ce_transport (hd ts)" "u = (ce_transport (hd ts) = ''native'')"
      using u that by (auto simp: chosen_transport_def Let_def split: if_split_asm)
    then show ?thesis using assms(3) by (auto simp: list_all_iff)
  qed
  then show ?thesis by (cases u) (auto simp: a quoted_words)
qed



subsection \<open>What is reported\<close>

lemma count_split: "length (filter P xs) + (length xs - length (filter P xs)) = length xs"
  using length_filter_le [of P xs] by simp

text \<open>The block of a finished host in the group sink, from the captured bytes.\<close>

lemma group_lines_fed:
  "foldl gs_step g (map (Line h ch) ls) = (if ls = [] then g else
     g\<lparr>gs_buffers := (gs_buffers g)(h \<mapsto> foldl (\<lambda>b t. add_group_line b ch t) (gs_entry g h) ls)\<rparr>)"
proof (induction ls arbitrary: g)
  case (Cons l ls)
  let ?g = "gs_line g h ch l"
  have e: "gs_entry ?g h = add_group_line (gs_entry g h) ch l" by (simp add: gs_line_def gs_entry_def)
  have "foldl gs_step g (map (Line h ch) (l # ls)) = foldl gs_step ?g (map (Line h ch) ls)" by simp
  also have "\<dots> = (if ls = [] then ?g else ?g\<lparr>gs_buffers := (gs_buffers ?g)(h \<mapsto> foldl (\<lambda>b t. add_group_line b ch t) (gs_entry ?g h) ls)\<rparr>)"
    by (rule Cons)
  also have "\<dots> = g\<lparr>gs_buffers := (gs_buffers g)(h \<mapsto> foldl (\<lambda>b t. add_group_line b ch t) (gs_entry g h) (l # ls))\<rparr>"
    unfolding e by (simp add: gs_line_def)
  finally show ?case by simp
qed simp

lemma group_channel_fed:
  "foldl (\<lambda>b t. add_group_line b ToStdout t) b ls = b\<lparr>stdoutLines := stdoutLines b @ ls\<rparr>"
  "foldl (\<lambda>b t. add_group_line b ToStderr t) b ls = b\<lparr>stderrLines := stderrLines b @ ls\<rparr>"
  by (induction ls arbitrary: b) (simp_all add: add_group_line_def)

lemma group_host_fed:
  assumes "gs_buffers g = Map.empty"
  shows "foldl gs_step g (map (Line h ToStdout) os @ map (Line h ToStderr) es @ [StageFinished h r]) =
    g\<lparr>gs_out := gs_out g @ group_block h \<lparr>stdoutLines = os, stderrLines = es\<rparr> r\<rparr>"
proof -
  let ?l = "map (Line h ToStdout) os @ map (Line h ToStderr) es"
  have out: "gs_out (foldl gs_step g (map (Line h ch) ls)) = gs_out g" for g ch ls by (simp add: group_lines_fed)
  have buf: "(gs_buffers (foldl gs_step g (map (Line h ch) ls)))(h := None) = (gs_buffers g)(h := None)" for g ch ls
    by (simp add: group_lines_fed)
  have "gs_entry (foldl gs_step g ?l) h = \<lparr>stdoutLines = os, stderrLines = es\<rparr>"
    using assms by (simp add: group_lines_fed group_channel_fed gs_entry_def)
  moreover have "(gs_buffers (foldl gs_step g ?l))(h := None) = Map.empty" using assms by (simp add: buf)
  moreover have "gs_out (foldl gs_step g ?l) = gs_out g" by (simp add: out)
  moreover have "foldl gs_step g (?l @ [StageFinished h r]) = gs_stageFinished (foldl gs_step g ?l) h r" by simp
  ultimately show ?thesis
    using assms by (cases g) (simp add: gs_stageFinished_def)
qed

lemma group_report:
  "gs_buffers g = Map.empty \<Longrightarrow> foldl gs_step g (finish_events False fr rs) =
     g\<lparr>gs_out := gs_out g @ concat (map (\<lambda>r. group_block (hr_host r)
       \<lparr>stdoutLines = replay_lines (hr_stdout r), stderrLines = replay_lines (hr_stderr r)\<rparr>
       \<lparr>exitCode = hr_exitCode r, timedOut = hr_timedOut r, errorMessage = hr_error r, droppedBytes = hr_dropped r\<rparr>) rs)\<rparr>"
proof (induction rs arbitrary: g)
  case (Cons r rs)
  let ?e = "map (Line (hr_host r) ToStdout) (replay_lines (hr_stdout r)) @ map (Line (hr_host r) ToStderr) (replay_lines (hr_stderr r)) @
      [StageFinished (hr_host r) \<lparr>exitCode = hr_exitCode r, timedOut = hr_timedOut r, errorMessage = hr_error r, droppedBytes = hr_dropped r\<rparr>]"
  have "finish_events False fr (r # rs) = ?e @ finish_events False fr rs"
    by (simp add: host_lines_def host_finished_def flushed_def)
  then have "foldl gs_step g (finish_events False fr (r # rs)) = foldl gs_step (foldl gs_step g ?e) (finish_events False fr rs)"
    by (simp only: foldl_append)
  then show ?case unfolding group_host_fed [OF Cons.prems] using Cons.IH Cons.prems by (simp del: foldl_append)
qed simp

lemma group_started: "gs_buffers g = Map.empty \<Longrightarrow> foldl gs_step g (map StageStarted hs) = g"
proof (induction hs)
  case (Cons h hs)
  then show ?case by (cases g) (simp add: gs_stageStarted_def)
qed simp

lemma group_output:
  "gs_out (foldl gs_step GroupSink (map StageStarted hs @ finish_events False fr rs)) =
     concat (map (\<lambda>r. ''CLIENT '' @ hr_host r @ [NL] @ lines_text (replay_lines (hr_stdout r)) @
       (if hr_error r \<noteq> [] then hr_error r @ [NL] else lines_text (replay_lines (hr_stderr r)))) rs)"
proof -
  have e: "gs_buffers GroupSink = Map.empty" "gs_out GroupSink = []" by (simp_all add: GroupSink_def)
  have b: "group_block (hr_host r) \<lparr>stdoutLines = replay_lines (hr_stdout r), stderrLines = replay_lines (hr_stderr r)\<rparr>
       \<lparr>exitCode = hr_exitCode r, timedOut = hr_timedOut r, errorMessage = hr_error r, droppedBytes = hr_dropped r\<rparr> =
     ''CLIENT '' @ hr_host r @ [NL] @ lines_text (replay_lines (hr_stdout r)) @
       (if hr_error r \<noteq> [] then hr_error r @ [NL] else lines_text (replay_lines (hr_stderr r)))" for r
    by (simp add: group_block_def)
  show ?thesis unfolding foldl_append group_started [OF e(1)] group_report [OF e(1)] b e(2) by simp
qed

lemma native_exit_zero: "native_exit interrupted rs = 0 \<longleftrightarrow> list_all host_ok_result rs \<and> \<not> interrupted"
proof -
  have all: "length (filter host_ok_result rs) = length rs \<longleftrightarrow> list_all host_ok_result rs"
    unfolding list_all_iff by (metis filter_id_conv length_filter_less less_irrefl)
  have "any_cancelled interrupted rs = interrupted" if "list_all host_ok_result rs"
    using that by (auto simp: any_cancelled_def list_all_iff host_ok_result_def)
  then show ?thesis by (auto simp: native_exit_def all kExitCancelled_def any_cancelled_def)
qed

lemma native_exit_cancelled: "native_exit interrupted rs = kExitCancelled \<longleftrightarrow> any_cancelled interrupted rs"
  by (simp add: native_exit_def kExitCancelled_def)

lemma native_audit_hosts:
  "map (\<lambda>c. case c of StageDone runId r \<Rightarrow> sr_host r | _ \<Rightarrow> []) (butlast (native_audit runId interrupted rs)) = map hr_host rs"
proof -
  have "map (\<lambda>c. case c of StageDone runId r \<Rightarrow> sr_host r | _ \<Rightarrow> []) (map (\<lambda>(i, r). StageDone runId (native_record i r)) (enumerate k rs)) =
      map hr_host rs" for k
    by (induction rs arbitrary: k) (simp_all add: native_record_def)
  then show ?thesis by (simp add: native_audit_def Let_def)
qed

lemma native_counts:
  "sum_succeeded (native_summary interrupted rs) + sum_failed (native_summary interrupted rs) = length rs"
  by (simp add: native_summary_def Let_def count_split)


end
