(* ===== verification/Dag_Runner.thy ===== *)
theory Dag_Runner
  imports Planner Bounded_Buffer "HOL-Library.Sublist"
begin

text \<open>
  \<open>psx::pipeline::DagRunner\<close> (\<open>include/psx/pipeline/dag_runner.hpp\<close>, \<open>src/pipeline/dag_runner.cpp\<close>): it runs a pipeline of
  local stages, copying each stage's output into one bounded buffer per edge and from there into the stdin of the
  successors.  The reactor calls it with events (a stage's stdout is readable, its stdin is writable, the child has
  exited); the answers of the system calls made inside an event come with the event.  A read or write behind the last
  answer would block.  What the runner reads, writes, prints and reports is kept in a history.
\<close>

subsection \<open>State\<close>

record dag_node =
  n_stage :: stage
  incoming :: "nat list"
  outgoing :: "nat list"
  nextIncoming :: nat
  n_exitCode :: int
  stdoutClosed :: bool
  stdoutReadable :: bool
  stdoutToken :: bool
  stdinToken :: bool
  stdinWanted :: bool
  stdinOpen :: bool
  childWatched :: bool
  n_exited :: bool

text \<open>A token is nonzero or zero; \<open>stdinWanted\<close> is the interest registered for the stdin token.\<close>

record edge_state =
  e_from :: nat
  e_to :: nat
  e_buffer :: bounded_buffer
  sourceClosed :: bool
  consumerClosed :: bool

record dag_outcome =
  o_exitCode :: int
  stageExitCodes :: "int list"
  topologicalOrder :: "string list"

datatype dag_event =
    Produced nat string
  | Delivered nat string
  | Output string
  | Completed dag_outcome

record dag =
  d_nodes :: "dag_node list"
  d_edges :: "edge_state list"
  edgeCapacity :: nat
  buffered :: nat
  peakBuffered :: nat
  exitedCount :: nat
  d_started :: bool
  d_done :: bool
  hasComplete :: bool
  history :: "dag_event list"

definition DagRunner :: "nat \<Rightarrow> dag" where
  "DagRunner cap = \<lparr>d_nodes = [], d_edges = [], edgeCapacity = cap, buffered = 0, peakBuffered = 0, exitedCount = 0,
     d_started = False, d_done = False, hasComplete = False, history = []\<rparr>"

definition new_node :: "stage \<Rightarrow> dag_node" where
  "new_node s = \<lparr>n_stage = s, incoming = [], outgoing = [], nextIncoming = 0, n_exitCode = 0, stdoutClosed = False,
     stdoutReadable = True, stdoutToken = False, stdinToken = False, stdinWanted = False, stdinOpen = False,
     childWatched = False, n_exited = False\<rparr>"

definition new_edge :: "nat \<Rightarrow> nat \<Rightarrow> nat \<Rightarrow> edge_state" where
  "new_edge source destination cap = \<lparr>e_from = source, e_to = destination, e_buffer = BoundedBuffer cap Block,
     sourceClosed = False, consumerClosed = False\<rparr>"

definition nd :: "dag \<Rightarrow> nat \<Rightarrow> dag_node" where "nd d i = d_nodes d ! i"
definition ed :: "dag \<Rightarrow> nat \<Rightarrow> edge_state" where "ed d e = d_edges d ! e"

definition set_node :: "dag \<Rightarrow> nat \<Rightarrow> dag_node \<Rightarrow> dag" where
  "set_node d i n = d\<lparr>d_nodes := (d_nodes d)[i := n]\<rparr>"

definition set_edge :: "dag \<Rightarrow> nat \<Rightarrow> edge_state \<Rightarrow> dag" where
  "set_edge d e s = d\<lparr>d_edges := (d_edges d)[e := s]\<rparr>"

definition log_event :: "dag \<Rightarrow> dag_event \<Rightarrow> dag" where
  "log_event d ev = d\<lparr>history := history d @ [ev]\<rparr>"

subsection \<open>Interest and closing\<close>

definition producerCanRead :: "dag \<Rightarrow> nat \<Rightarrow> bool" where
  "producerCanRead d i = list_all (\<lambda>e. consumerClosed (ed d e) \<or> \<not> bb_full (e_buffer (ed d e))) (outgoing (nd d i))"

definition setProducerReadable :: "dag \<Rightarrow> nat \<Rightarrow> bool \<Rightarrow> dag" where
  "setProducerReadable d i readable =
     (if stdoutClosed (nd d i) \<or> \<not> stdoutToken (nd d i) \<or> stdoutReadable (nd d i) = readable then d
      else set_node d i ((nd d i)\<lparr>stdoutReadable := readable\<rparr>))"

definition setConsumerWritable :: "dag \<Rightarrow> nat \<Rightarrow> bool \<Rightarrow> dag" where
  "setConsumerWritable d i writable =
     (if \<not> stdinOpen (nd d i) \<or> \<not> stdinToken (nd d i) then d else set_node d i ((nd d i)\<lparr>stdinWanted := writable\<rparr>))"

definition close_edge :: "dag \<Rightarrow> nat \<Rightarrow> dag" where
  "close_edge d e =
     (let s = ed d e;
          d1 = (if bb_empty (e_buffer s) then d else d\<lparr>buffered := buffered d - bb_size (e_buffer s)\<rparr>);
          d2 = set_edge d1 e (s\<lparr>e_buffer := (if bb_empty (e_buffer s) then e_buffer s else bb_clear (e_buffer s)),
                 consumerClosed := True\<rparr>)
      in setProducerReadable d2 (e_from s) (producerCanRead d2 (e_from s)))"

definition closeConsumer :: "dag \<Rightarrow> nat \<Rightarrow> dag" where
  "closeConsumer d i =
     (if \<not> stdinOpen (nd d i) then d
      else foldl close_edge (set_node d i ((nd d i)\<lparr>stdinToken := False, stdinWanted := False, stdinOpen := False\<rparr>))
             (incoming (nd d i)))"

definition last_failure :: "int list \<Rightarrow> int" where
  "last_failure codes = foldl (\<lambda>result code. if code \<noteq> 0 then code else result) 0 codes"

definition dag_result :: "dag \<Rightarrow> dag_outcome" where
  "dag_result d = \<lparr>o_exitCode = last_failure (map n_exitCode (d_nodes d)), stageExitCodes = map n_exitCode (d_nodes d),
     topologicalOrder = map (\<lambda>n. stage_id (n_stage n)) (d_nodes d)\<rparr>"

definition finishIfDone :: "dag \<Rightarrow> dag" where
  "finishIfDone d =
     (if d_done d \<or> exitedCount d \<noteq> length (d_nodes d) \<or> \<not> list_all stdoutClosed (d_nodes d) then d
      else if hasComplete d then log_event (d\<lparr>d_done := True, hasComplete := False\<rparr>) (Completed (dag_result d))
      else d\<lparr>d_done := True\<rparr>)"

subsection \<open>Writing to a consumer\<close>

definition find_slot :: "dag \<Rightarrow> nat \<Rightarrow> nat option" where
  "find_slot d i =
     (let n = nd d i; k = length (incoming n) in
      find (\<lambda>slot. \<not> bb_empty (e_buffer (ed d (incoming n ! slot)))) (map (\<lambda>offset. (nextIncoming n + offset) mod k) [0..<k]))"

text \<open>The bytes accepted by a write are the front of what was offered.\<close>

definition after_write :: "dag \<Rightarrow> nat \<Rightarrow> nat \<Rightarrow> string \<Rightarrow> nat \<Rightarrow> dag" where
  "after_write d i slot bytes n =
     (let e = incoming (nd d i) ! slot; s = ed d e;
          d1 = (set_edge d e (s\<lparr>e_buffer := discardFront (e_buffer s) n\<rparr>))\<lparr>buffered := buffered d - n\<rparr>;
          d2 = set_node d1 i ((nd d1 i)\<lparr>nextIncoming := (slot + 1) mod length (incoming (nd d i))\<rparr>)
      in log_event (setProducerReadable d2 (e_from s) (producerCanRead d2 (e_from s))) (Delivered e (take n bytes)))"

text \<open>The writing loop; the flag says that no data is left.\<close>

fun drain_loop :: "dag \<Rightarrow> nat \<Rightarrow> write_answer list \<Rightarrow> (dag \<times> write_answer list \<times> bool) option" where
  "drain_loop d i ws =
     (case find_slot d i of None \<Rightarrow> Some (d, ws, True)
      | Some slot \<Rightarrow> do {
          bytes \<leftarrow> bb_peek (e_buffer (ed d (incoming (nd d i) ! slot)));
          case ws of
            [] \<Rightarrow> Some (setConsumerWritable d i True, [], False)
          | WriteFails # ws' \<Rightarrow> Some (closeConsumer d i, ws', False)
          | WriteBlocks # ws' \<Rightarrow> Some (setConsumerWritable d i True, ws', False)
          | Wrote n # ws' \<Rightarrow>
              if min n (length bytes) = 0 then Some (setConsumerWritable d i True, ws', False)
              else drain_loop (after_write d i slot bytes (min n (length bytes))) i ws'
        })"

declare drain_loop.simps [simp del]

type_synonym writes = "nat \<Rightarrow> write_answer list"

definition inputs_closed :: "dag \<Rightarrow> nat \<Rightarrow> bool" where
  "inputs_closed d i = list_all (\<lambda>e. sourceClosed (ed d e) \<or> consumerClosed (ed d e)) (incoming (nd d i))"

definition drainConsumer :: "dag \<Rightarrow> writes \<Rightarrow> nat \<Rightarrow> (dag \<times> writes) option" where
  "drainConsumer d ws i =
     (if \<not> stdinOpen (nd d i) then Some (d, ws)
      else do {
        (d1, rest, drained) \<leftarrow> drain_loop d i (ws i);
        let ws1 = ws(i := rest);
        if \<not> drained then Some (d1, ws1)
        else if inputs_closed d1 i then Some (closeConsumer d1 i, ws1)
        else Some (setConsumerWritable d1 i False, ws1)
      })"

fun drain_all :: "dag \<Rightarrow> writes \<Rightarrow> nat list \<Rightarrow> (dag \<times> writes) option" where
  "drain_all d ws [] = Some (d, ws)"
| "drain_all d ws (i # is) = do { (d1, ws1) \<leftarrow> drainConsumer d ws i; drain_all d1 ws1 is }"

text \<open>\<open>std::sort\<close> and \<open>std::unique\<close>.\<close>

definition in_order :: "nat list \<Rightarrow> nat list" where
  "in_order consumers = remdups_adj (sort consumers)"

subsection \<open>Reading from a producer\<close>

definition closeProducer :: "dag \<Rightarrow> writes \<Rightarrow> nat \<Rightarrow> (dag \<times> writes) option" where
  "closeProducer d ws i =
     (if stdoutClosed (nd d i) then Some (d, ws)
      else do {
        let d1 = set_node d i ((nd d i)\<lparr>stdoutClosed := True, stdoutReadable := False, stdoutToken := False\<rparr>);
        let d2 = foldl (\<lambda>d e. set_edge d e ((ed d e)\<lparr>sourceClosed := True\<rparr>)) d1 (outgoing (nd d i));
        (d3, ws3) \<leftarrow> drain_all d2 ws (in_order (map (\<lambda>e. e_to (ed d e)) (outgoing (nd d i))));
        Some (finishIfDone d3, ws3)
      })"

definition active_edges :: "dag \<Rightarrow> nat \<Rightarrow> nat list" where
  "active_edges d i = filter (\<lambda>e. \<not> consumerClosed (ed d e)) (outgoing (nd d i))"

definition kReadChunk :: nat where "kReadChunk = 16 * 1024"

definition read_limit :: "dag \<Rightarrow> nat \<Rightarrow> nat" where
  "read_limit d i = foldl (\<lambda>limit e. min limit (available (e_buffer (ed d e)))) kReadChunk (active_edges d i)"

fun append_edges :: "dag \<Rightarrow> string \<Rightarrow> nat list \<Rightarrow> dag option" where
  "append_edges d bytes [] = Some d"
| "append_edges d bytes (e # es) =
     (if consumerClosed (ed d e) then append_edges d bytes es
      else do {
        (b, accepted) \<leftarrow> bb_append (e_buffer (ed d e)) bytes;
        let d1 = (set_edge d e ((ed d e)\<lparr>e_buffer := b\<rparr>))\<lparr>buffered := buffered d + accepted,
              peakBuffered := max (peakBuffered d) (buffered d + accepted)\<rparr>;
        append_edges d1 bytes es
      })"

fun onProducerReadable :: "dag \<Rightarrow> writes \<Rightarrow> nat \<Rightarrow> read_answer list \<Rightarrow> (dag \<times> writes) option" where
  "onProducerReadable d ws i rs =
     (if stdoutClosed (nd d i) then Some (d, ws)
      else if active_edges d i \<noteq> [] \<and> read_limit d i = 0 then Some (setProducerReadable d i False, ws)
      else case rs of
        [] \<Rightarrow> Some (d, ws)
      | ReadBlocks # rs' \<Rightarrow> Some (d, ws)
      | ReadFails # rs' \<Rightarrow> closeProducer d ws i
      | Got available_bytes # rs' \<Rightarrow>
          let bytes = take (read_limit d i) available_bytes in
          if bytes = [] then closeProducer d ws i
          else if outgoing (nd d i) = [] then
            onProducerReadable (log_event (log_event d (Produced i bytes)) (Output bytes)) ws i rs'
          else do {
            d1 \<leftarrow> append_edges (log_event d (Produced i bytes)) bytes (outgoing (nd d i));
            (d2, ws2) \<leftarrow> drain_all d1 ws (in_order (map (\<lambda>e. e_to (ed d e)) (active_edges d i)));
            onProducerReadable d2 ws2 i rs'
          })"

declare onProducerReadable.simps [simp del]

subsection \<open>Exits, start and cancellation\<close>

definition toExitCode :: "wait_status \<Rightarrow> int" where
  "toExitCode s = (if ws_exited s then ws_code s else 128 + ws_code s)"

text \<open>\<open>tryWait\<close>, then \<open>wait\<close>: \<^const>\<open>None\<close> when neither gives a status.\<close>

definition onChildExit :: "dag \<Rightarrow> nat \<Rightarrow> wait_status option \<Rightarrow> dag" where
  "onChildExit d i answer =
     (if n_exited (nd d i) then d
      else let status = (case answer of None \<Rightarrow> \<lparr>ws_exited = True, ws_code = 1\<rparr> | Some s \<Rightarrow> s);
               d1 = (set_node d i ((nd d i)\<lparr>childWatched := False, n_exitCode := toExitCode status, n_exited := True\<rparr>))
                      \<lparr>exitedCount := exitedCount d + 1\<rparr>
        in finishIfDone (closeConsumer d1 i))"

definition abortRun :: "dag \<Rightarrow> dag" where
  "abortRun d = d\<lparr>
     d_nodes := map (\<lambda>n. n\<lparr>stdoutToken := False, stdinToken := False, stdinWanted := False, childWatched := False,
       stdoutClosed := True, stdoutReadable := False, stdinOpen := False, n_exited := True\<rparr>) (d_nodes d),
     d_edges := map (\<lambda>s. s\<lparr>e_buffer := bb_clear (e_buffer s), sourceClosed := True, consumerClosed := True\<rparr>) (d_edges d),
     buffered := 0, exitedCount := length (d_nodes d), hasComplete := False, d_done := True\<rparr>"

definition dag_cancel :: "dag \<Rightarrow> dag" where
  "dag_cancel d = (if \<not> d_started d then d else abortRun d)"

definition isLocalPlacement :: "string \<Rightarrow> bool" where
  "isLocalPlacement p \<longleftrightarrow> p = [] \<or> p = ''local''"

definition stage_named :: "pipeline \<Rightarrow> string \<Rightarrow> stage" where
  "stage_named p i = the (find (\<lambda>s. stage_id s = i) (stages p))"

definition position :: "string list \<Rightarrow> string \<Rightarrow> nat" where
  "position order i = length (takeWhile (\<lambda>x. x \<noteq> i) order)"

text \<open>The distinct pairs of the edges, in the order of their first occurrence.\<close>

definition edge_pairs :: "string list \<Rightarrow> edge list \<Rightarrow> (nat \<times> nat) list" where
  "edge_pairs order es =
     foldl (\<lambda>pairs e. let pair = (position order (efrom e), position order (eto e)) in
       if pair \<in> set pairs then pairs else pairs @ [pair]) [] es"

definition build_graph :: "dag \<Rightarrow> pipeline \<Rightarrow> string list \<Rightarrow> dag" where
  "build_graph d p order =
     (let pairs = edge_pairs order (edges p) in
      d\<lparr>d_nodes := map (\<lambda>i. (new_node (stage_named p (order ! i)))\<lparr>
            incoming := filter (\<lambda>e. snd (pairs ! e) = i) [0..<length pairs],
            outgoing := filter (\<lambda>e. fst (pairs ! e) = i) [0..<length pairs]\<rparr>) [0..<length order],
        d_edges := map (\<lambda>(source, destination). new_edge source destination (edgeCapacity d)) pairs\<rparr>)"

text \<open>After all pipes, processes and watches: stdin is open where there are incoming edges.\<close>

definition open_node :: "dag_node \<Rightarrow> dag_node" where
  "open_node n = n\<lparr>stdoutToken := True, stdinOpen := (incoming n \<noteq> []), stdinToken := (incoming n \<noteq> [])\<rparr>"

datatype watch_answer = Watched | Gone "wait_status option" | WatchFails error

fun watch_children :: "dag \<Rightarrow> nat \<Rightarrow> watch_answer list \<Rightarrow> dag \<times> unit result" where
  "watch_children d i [] = (d, Inr ())"
| "watch_children d i (a # as) =
     (case a of Watched \<Rightarrow> watch_children (set_node d i ((nd d i)\<lparr>childWatched := True\<rparr>)) (i + 1) as
      | Gone status \<Rightarrow> watch_children (onChildExit d i status) (i + 1) as
      | WatchFails e \<Rightarrow> (abortRun d, Inl e))"

text \<open>\<open>setup\<close> is the first failure of the calls that create pipes, processes and watches; \<open>answers\<close> are those of
  \<open>watchChild\<close>, one for each node.\<close>

definition dag_run :: "dag \<Rightarrow> pipeline \<Rightarrow> error option \<Rightarrow> (nat \<Rightarrow> watch_answer) \<Rightarrow> (dag \<times> unit result) option" where
  "dag_run d p setup answers =
     (if d_started d then Some (d, Inl (invalid ''dag runner already started''))
      else if edgeCapacity d = 0 then Some (d, Inl (invalid ''dag runner edge capacity is zero''))
      else if \<not> list_all (\<lambda>s. isLocalPlacement (placement s)) (stages p)
        then Some (d, Inl (invalid ''dag runner only supports local stages''))
      else case plan p of None \<Rightarrow> None
        | Some (Inl e) \<Rightarrow> Some (d, Inl e)
        | Some (Inr order) \<Rightarrow>
          let d1 = build_graph (d\<lparr>d_started := True, hasComplete := True\<rparr>) p order in
          case setup of Some e \<Rightarrow> Some (abortRun d1, Inl e)
          | None \<Rightarrow> Some (watch_children (d1\<lparr>d_nodes := map open_node (d_nodes d1)\<rparr>) 0 (map answers [0..<length order])))"

subsection \<open>Access\<close>

abbreviation node_count :: "dag \<Rightarrow> nat" where "node_count d \<equiv> length (d_nodes d)"
abbreviation edge_count :: "dag \<Rightarrow> nat" where "edge_count d \<equiv> length (d_edges d)"

lemma set_node_simps [simp]:
  "nd (set_node d i n) j = (if i = j \<and> j < node_count d then n else nd d j)" "ed (set_node d i n) e = ed d e"
  "node_count (set_node d i n) = node_count d" "d_edges (set_node d i n) = d_edges d"
  "buffered (set_node d i n) = buffered d" "peakBuffered (set_node d i n) = peakBuffered d"
  "history (set_node d i n) = history d" "edgeCapacity (set_node d i n) = edgeCapacity d"
  "exitedCount (set_node d i n) = exitedCount d" "d_done (set_node d i n) = d_done d"
  "hasComplete (set_node d i n) = hasComplete d"
  by (auto simp: set_node_def nd_def ed_def not_less nth_update_out)

lemma set_edge_simps [simp]:
  "ed (set_edge d e s) f = (if e = f \<and> f < edge_count d then s else ed d f)" "nd (set_edge d e s) i = nd d i"
  "edge_count (set_edge d e s) = edge_count d" "d_nodes (set_edge d e s) = d_nodes d"
  "buffered (set_edge d e s) = buffered d" "peakBuffered (set_edge d e s) = peakBuffered d"
  "history (set_edge d e s) = history d" "edgeCapacity (set_edge d e s) = edgeCapacity d"
  "exitedCount (set_edge d e s) = exitedCount d" "d_done (set_edge d e s) = d_done d"
  "hasComplete (set_edge d e s) = hasComplete d"
  by (auto simp: set_edge_def nd_def ed_def not_less nth_update_out)

lemma log_event_simps [simp]:
  "nd (log_event d ev) i = nd d i" "ed (log_event d ev) e = ed d e" "d_nodes (log_event d ev) = d_nodes d"
  "d_edges (log_event d ev) = d_edges d" "buffered (log_event d ev) = buffered d"
  "peakBuffered (log_event d ev) = peakBuffered d" "history (log_event d ev) = history d @ [ev]"
  "edgeCapacity (log_event d ev) = edgeCapacity d" "exitedCount (log_event d ev) = exitedCount d"
  "d_done (log_event d ev) = d_done d" "hasComplete (log_event d ev) = hasComplete d"
  by (simp_all add: log_event_def nd_def ed_def)

lemma counter_simps [simp]:
  "nd (d\<lparr>buffered := b\<rparr>) i = nd d i" "ed (d\<lparr>buffered := b\<rparr>) e = ed d e"
  "nd (d\<lparr>peakBuffered := b\<rparr>) i = nd d i" "ed (d\<lparr>peakBuffered := b\<rparr>) e = ed d e"
  "nd (d\<lparr>exitedCount := b\<rparr>) i = nd d i" "ed (d\<lparr>exitedCount := b\<rparr>) e = ed d e"
  "nd (d\<lparr>d_done := c\<rparr>) i = nd d i" "ed (d\<lparr>d_done := c\<rparr>) e = ed d e"
  "nd (d\<lparr>hasComplete := c\<rparr>) i = nd d i" "ed (d\<lparr>hasComplete := c\<rparr>) e = ed d e"
  by (simp_all add: nd_def ed_def)

text \<open>What the history says of the output of a stage and of the bytes delivered over an edge.\<close>

definition produced :: "dag_event list \<Rightarrow> nat \<Rightarrow> string" where
  "produced h i = concat (map (\<lambda>ev. case ev of Produced j b \<Rightarrow> if j = i then b else [] | _ \<Rightarrow> []) h)"

definition delivered :: "dag_event list \<Rightarrow> nat \<Rightarrow> string" where
  "delivered h e = concat (map (\<lambda>ev. case ev of Delivered f b \<Rightarrow> if f = e then b else [] | _ \<Rightarrow> []) h)"

definition completions :: "dag_event list \<Rightarrow> dag_outcome list" where
  "completions h = concat (map (\<lambda>ev. case ev of Completed r \<Rightarrow> [r] | _ \<Rightarrow> []) h)"

lemma history_simps [simp]:
  "produced [] i = []" "delivered [] e = []" "completions [] = []"
  "produced (h @ [Produced j b]) i = produced h i @ (if j = i then b else [])"
  "produced (h @ [Delivered f b]) i = produced h i" "produced (h @ [Output b]) i = produced h i"
  "produced (h @ [Completed r]) i = produced h i"
  "delivered (h @ [Delivered f b]) e = delivered h e @ (if f = e then b else [])"
  "delivered (h @ [Produced j b]) e = delivered h e" "delivered (h @ [Output b]) e = delivered h e"
  "delivered (h @ [Completed r]) e = delivered h e"
  "completions (h @ [Delivered f b]) = completions h" "completions (h @ [Produced j b]) = completions h"
  "completions (h @ [Output b]) = completions h" "completions (h @ [Completed r]) = completions h @ [r]"
  by (simp_all add: produced_def delivered_def completions_def)

subsection \<open>Invariants\<close>

definition graph_ok :: "dag \<Rightarrow> bool" where
  "graph_ok d \<longleftrightarrow>
     (\<forall>i < node_count d. incoming (nd d i) = filter (\<lambda>e. e_to (ed d e) = i) [0..<edge_count d] \<and>
        outgoing (nd d i) = filter (\<lambda>e. e_from (ed d e) = i) [0..<edge_count d]) \<and>
     (\<forall>e < edge_count d. e_from (ed d e) < node_count d \<and> e_to (ed d e) < node_count d)"

definition edges_ok :: "dag \<Rightarrow> bool" where
  "edges_ok d \<longleftrightarrow> 0 < edgeCapacity d \<and> (\<forall>e < edge_count d. buffer_inv (e_buffer (ed d e)) \<and>
     policy (e_buffer (ed d e)) = Block \<and> capacity (e_buffer (ed d e)) = edgeCapacity d \<and>
     (consumerClosed (ed d e) \<longrightarrow> content (e_buffer (ed d e)) = []))"

definition accounted :: "dag \<Rightarrow> bool" where
  "accounted d \<longleftrightarrow> buffered d = (\<Sum>e<edge_count d. bb_size (e_buffer (ed d e))) \<and> buffered d \<le> peakBuffered d \<and>
     peakBuffered d \<le> edge_count d * edgeCapacity d"

text \<open>\<open>lag e\<close> are bytes read from the source of \<open>e\<close> and not yet appended.\<close>

definition flow_ok :: "(nat \<Rightarrow> string) \<Rightarrow> dag \<Rightarrow> bool" where
  "flow_ok lag d \<longleftrightarrow> (\<forall>e < edge_count d.
     if consumerClosed (ed d e) then prefix (delivered (history d) e) (produced (history d) (e_from (ed d e)))
     else produced (history d) (e_from (ed d e)) = delivered (history d) e @ content (e_buffer (ed d e)) @ lag e)"

text \<open>A paused producer has a full buffer behind it; tokens are there while the descriptors are.\<close>

definition tokens_ok :: "dag \<Rightarrow> bool" where
  "tokens_ok d \<longleftrightarrow> (\<forall>i < node_count d. (stdoutToken (nd d i) \<longleftrightarrow> \<not> stdoutClosed (nd d i)) \<and>
     (stdinToken (nd d i) \<longleftrightarrow> stdinOpen (nd d i)))"

definition producer_ok :: "dag \<Rightarrow> nat \<Rightarrow> bool" where
  "producer_ok d i \<longleftrightarrow> stdoutClosed (nd d i) \<or> stdoutReadable (nd d i) \<or> \<not> producerCanRead d i"

definition core :: "(nat \<Rightarrow> string) \<Rightarrow> dag \<Rightarrow> bool" where
  "core lag d \<longleftrightarrow> graph_ok d \<and> edges_ok d \<and> accounted d \<and> flow_ok lag d \<and> tokens_ok d \<and> (\<forall>i < node_count d. producer_ok d i)"

lemma buffered_bound:
  assumes "edges_ok d" "accounted d"
  shows "buffered d \<le> edge_count d * edgeCapacity d"
  using assms by (simp add: accounted_def)

lemma sizes_bound:
  assumes "edges_ok d"
  shows "(\<Sum>e<edge_count d. bb_size (e_buffer (ed d e))) \<le> edge_count d * edgeCapacity d"
proof -
  have "bb_size (e_buffer (ed d e)) \<le> edgeCapacity d" if "e < edge_count d" for e
    using assms that by (auto simp: edges_ok_def buffer_inv_def)
  then have "(\<Sum>e<edge_count d. bb_size (e_buffer (ed d e))) \<le> (\<Sum>e<edge_count d. edgeCapacity d)"
    by (intro sum_mono) simp
  then show ?thesis by simp
qed

lemma graph_members:
  assumes "graph_ok d" "i < node_count d"
  shows "e \<in> set (outgoing (nd d i)) \<longleftrightarrow> e < edge_count d \<and> e_from (ed d e) = i"
    "e \<in> set (incoming (nd d i)) \<longleftrightarrow> e < edge_count d \<and> e_to (ed d e) = i"
    "distinct (outgoing (nd d i))" "distinct (incoming (nd d i))"
  using assms by (auto simp: graph_ok_def)

subsection \<open>Steps that only touch nodes\<close>

text \<open>Two states with the same edges whose nodes agree in the fields the invariants are about.\<close>

definition alike :: "dag_node \<Rightarrow> dag_node \<Rightarrow> bool" where
  "alike n m \<longleftrightarrow> incoming m = incoming n \<and> outgoing m = outgoing n \<and> stdoutClosed m = stdoutClosed n \<and>
     stdoutToken m = stdoutToken n \<and> stdinToken m = stdinToken n \<and> stdinOpen m = stdinOpen n"

definition same_edges :: "dag \<Rightarrow> dag \<Rightarrow> bool" where
  "same_edges d d' \<longleftrightarrow> d_edges d' = d_edges d \<and> buffered d' = buffered d \<and> peakBuffered d' = peakBuffered d \<and>
     edgeCapacity d' = edgeCapacity d \<and> node_count d' = node_count d \<and>
     produced (history d') = produced (history d) \<and> delivered (history d') = delivered (history d) \<and>
     (\<forall>j < node_count d. alike (nd d j) (nd d' j))"

lemma same_edgesD:
  assumes "same_edges d d'"
  shows "ed d' e = ed d e" "edge_count d' = edge_count d" "node_count d' = node_count d"
    "j < node_count d \<Longrightarrow> producerCanRead d' j = producerCanRead d j"
    "graph_ok d' = graph_ok d" "edges_ok d' = edges_ok d" "accounted d' = accounted d" "flow_ok lag d' = flow_ok lag d"
    "tokens_ok d' = tokens_ok d"
  using assms by (auto simp: same_edges_def alike_def ed_def producerCanRead_def graph_ok_def edges_ok_def accounted_def
      flow_ok_def tokens_ok_def)

lemma same_edges_core:
  assumes "same_edges d d'" "core lag d" "\<And>i. i < node_count d \<Longrightarrow> producer_ok d' i"
  shows "core lag d'"
  using assms(2,3) same_edgesD [OF assms(1)] by (simp add: core_def)

lemma same_edges_core_readable:
  assumes "same_edges d d'" "core lag d" "\<And>i. i < node_count d \<Longrightarrow> stdoutReadable (nd d' i) = stdoutReadable (nd d i)"
  shows "core lag d'"
proof (rule same_edges_core [OF assms(1,2)])
  fix i assume i: "i < node_count d"
  then have "producer_ok d i" using assms(2) by (simp add: core_def)
  then show "producer_ok d' i"
    using i assms(1,3) same_edgesD(4) [OF assms(1) i] by (auto simp: producer_ok_def same_edges_def alike_def)
qed

lemma setProducerReadable_simps [simp]:
  "ed (setProducerReadable d i r) e = ed d e" "d_edges (setProducerReadable d i r) = d_edges d"
  "node_count (setProducerReadable d i r) = node_count d" "buffered (setProducerReadable d i r) = buffered d"
  "peakBuffered (setProducerReadable d i r) = peakBuffered d" "history (setProducerReadable d i r) = history d"
  "edgeCapacity (setProducerReadable d i r) = edgeCapacity d" "exitedCount (setProducerReadable d i r) = exitedCount d"
  "d_done (setProducerReadable d i r) = d_done d" "hasComplete (setProducerReadable d i r) = hasComplete d"
  by (simp_all add: setProducerReadable_def)

lemma nd_setProducerReadable:
  "nd (setProducerReadable d i r) j =
     (if i = j \<and> j < node_count d \<and> \<not> stdoutClosed (nd d j) \<and> stdoutToken (nd d j) then (nd d j)\<lparr>stdoutReadable := r\<rparr> else nd d j)"
  by (auto simp: setProducerReadable_def)

lemma setProducerReadable_fields [simp]:
  "n_stage (nd (setProducerReadable d i r) j) = n_stage (nd d j)"
  "incoming (nd (setProducerReadable d i r) j) = incoming (nd d j)" "outgoing (nd (setProducerReadable d i r) j) = outgoing (nd d j)"
  "nextIncoming (nd (setProducerReadable d i r) j) = nextIncoming (nd d j)"
  "n_exitCode (nd (setProducerReadable d i r) j) = n_exitCode (nd d j)"
  "stdoutClosed (nd (setProducerReadable d i r) j) = stdoutClosed (nd d j)"
  "stdoutToken (nd (setProducerReadable d i r) j) = stdoutToken (nd d j)"
  "stdinToken (nd (setProducerReadable d i r) j) = stdinToken (nd d j)"
  "stdinWanted (nd (setProducerReadable d i r) j) = stdinWanted (nd d j)"
  "stdinOpen (nd (setProducerReadable d i r) j) = stdinOpen (nd d j)" "n_exited (nd (setProducerReadable d i r) j) = n_exited (nd d j)"
  by (simp_all add: nd_setProducerReadable)

lemma same_edges_readable: "same_edges d (setProducerReadable d i r)"
  by (simp add: same_edges_def alike_def)

lemma readable_restores:
  assumes "graph_ok d" "edges_ok d" "accounted d" "flow_ok lag d" "tokens_ok d"
    "\<And>j. j < node_count d \<Longrightarrow> j \<noteq> i \<Longrightarrow> producer_ok d j" "i < node_count d" "r = producerCanRead d i"
  shows "core lag (setProducerReadable d i r)"
proof -
  note s = same_edges_readable [of d i r]
  have "producer_ok (setProducerReadable d i r) j" if j: "j < node_count d" for j
  proof (cases "j = i")
    case True
    have "stdoutToken (nd d i) \<longleftrightarrow> \<not> stdoutClosed (nd d i)" using assms(5,7) by (simp add: tokens_ok_def)
    then show ?thesis using True assms(7,8) same_edgesD(4) [OF s, of i] by (simp add: producer_ok_def nd_setProducerReadable)
  next
    case False
    then show ?thesis using assms(6) [OF j] same_edgesD(4) [OF s j] by (simp add: producer_ok_def nd_setProducerReadable)
  qed
  then show ?thesis using assms(1-5) same_edgesD [OF s] by (simp add: core_def)
qed

lemma pause_core: "core lag d \<Longrightarrow> i < node_count d \<Longrightarrow> \<not> producerCanRead d i \<Longrightarrow> core lag (setProducerReadable d i False)"
  by (rule readable_restores) (simp_all add: core_def)

lemma setConsumerWritable_simps [simp]:
  "ed (setConsumerWritable d i r) e = ed d e" "d_edges (setConsumerWritable d i r) = d_edges d"
  "node_count (setConsumerWritable d i r) = node_count d" "buffered (setConsumerWritable d i r) = buffered d"
  "peakBuffered (setConsumerWritable d i r) = peakBuffered d" "history (setConsumerWritable d i r) = history d"
  "edgeCapacity (setConsumerWritable d i r) = edgeCapacity d" "exitedCount (setConsumerWritable d i r) = exitedCount d"
  "d_done (setConsumerWritable d i r) = d_done d" "hasComplete (setConsumerWritable d i r) = hasComplete d"
  by (simp_all add: setConsumerWritable_def)

lemma nd_setConsumerWritable:
  "nd (setConsumerWritable d i r) j =
     (if i = j \<and> j < node_count d \<and> stdinOpen (nd d j) \<and> stdinToken (nd d j) then (nd d j)\<lparr>stdinWanted := r\<rparr> else nd d j)"
  by (auto simp: setConsumerWritable_def)

lemma setConsumerWritable_core: "core lag d \<Longrightarrow> core lag (setConsumerWritable d i r)"
  by (rule same_edges_core_readable) (auto simp: same_edges_def alike_def nd_setConsumerWritable)

subsection \<open>Closing a consumer\<close>

lemma close_edge_fields:
  "node_count (close_edge d e) = node_count d" "edge_count (close_edge d e) = edge_count d"
  "history (close_edge d e) = history d" "edgeCapacity (close_edge d e) = edgeCapacity d"
  "peakBuffered (close_edge d e) = peakBuffered d" "exitedCount (close_edge d e) = exitedCount d"
  "d_done (close_edge d e) = d_done d" "hasComplete (close_edge d e) = hasComplete d"
  "incoming (nd (close_edge d e) j) = incoming (nd d j)" "outgoing (nd (close_edge d e) j) = outgoing (nd d j)"
  "n_stage (nd (close_edge d e) j) = n_stage (nd d j)" "n_exitCode (nd (close_edge d e) j) = n_exitCode (nd d j)"
  "n_exited (nd (close_edge d e) j) = n_exited (nd d j)"
  "stdoutClosed (nd (close_edge d e) j) = stdoutClosed (nd d j)" "stdinOpen (nd (close_edge d e) j) = stdinOpen (nd d j)"
  "stdinWanted (nd (close_edge d e) j) = stdinWanted (nd d j)" "stdoutToken (nd (close_edge d e) j) = stdoutToken (nd d j)"
  "stdinToken (nd (close_edge d e) j) = stdinToken (nd d j)"
  by (simp_all add: close_edge_def Let_def)

lemma ed_close_edge:
  "ed (close_edge d e) f = (if e = f \<and> f < edge_count d then (ed d f)\<lparr>e_buffer := (if bb_empty (e_buffer (ed d f)) then e_buffer (ed d f)
     else bb_clear (e_buffer (ed d f))), consumerClosed := True\<rparr> else ed d f)"
  by (simp add: close_edge_def Let_def)

lemma close_edge_core:
  assumes c: "core lag d" and e: "e < edge_count d"
  shows "core lag (close_edge d e)"
proof -
  let ?s = "ed d e" and ?j = "e_from (ed d e)"
  define b where "b = (if bb_empty (e_buffer ?s) then e_buffer ?s else bb_clear (e_buffer ?s))"
  define d2 where "d2 = set_edge (if bb_empty (e_buffer ?s) then d else d\<lparr>buffered := buffered d - bb_size (e_buffer ?s)\<rparr>) e
      (?s\<lparr>e_buffer := b, consumerClosed := True\<rparr>)"
  have cd: "close_edge d e = setProducerReadable d2 ?j (producerCanRead d2 ?j)" by (simp add: close_edge_def d2_def b_def Let_def)
  have g: "graph_ok d" "edges_ok d" "accounted d" "flow_ok lag d" "tokens_ok d" "\<And>i. i < node_count d \<Longrightarrow> producer_ok d i"
    using c by (simp_all add: core_def)
  have sb: "bb_size b = 0" "buffer_inv b" "policy b = policy (e_buffer ?s)" "capacity b = capacity (e_buffer ?s)"
    using g(2) e by (auto simp: b_def bb_empty_def edges_ok_def)
  then have cb: "content b = []" by (simp flip: length_0_conv)
  have f: "ed d2 x = (if x = e then ?s\<lparr>e_buffer := b, consumerClosed := True\<rparr> else ed d x)" "nd d2 i = nd d i"
    "node_count d2 = node_count d" "edge_count d2 = edge_count d" "history d2 = history d" "edgeCapacity d2 = edgeCapacity d"
    "peakBuffered d2 = peakBuffered d" "buffered d2 = buffered d - bb_size (e_buffer ?s)" for x i
    using e by (auto simp: d2_def bb_empty_def)
  have g2: "graph_ok d2" using g(1) by (auto simp: graph_ok_def f intro!: filter_cong)
  have e2: "edges_ok d2" using g(2) sb cb e by (auto simp: edges_ok_def f)
  have "(\<Sum>x<edge_count d. bb_size (e_buffer (ed d2 x))) + bb_size (e_buffer ?s) = (\<Sum>x<edge_count d. bb_size (e_buffer (ed d x))) + 0"
    using sum_one_changed [OF e, of "\<lambda>x. bb_size (e_buffer (ed d2 x))" "\<lambda>x. bb_size (e_buffer (ed d x))"] by (simp add: f sb)
  then have a2: "accounted d2" using g(3) by (auto simp: accounted_def f)
  have fl: "if consumerClosed (ed d x) then prefix (delivered (history d) x) (produced (history d) (e_from (ed d x)))
     else produced (history d) (e_from (ed d x)) = delivered (history d) x @ content (e_buffer (ed d x)) @ lag x" if "x < edge_count d" for x
    using g(4) that by (simp add: flow_ok_def)
  have "prefix (delivered (history d) e) (produced (history d) ?j)" using fl [OF e] by (auto split: if_splits)
  then have f2: "flow_ok lag d2" using fl by (auto simp: flow_ok_def f)
  have t2: "tokens_ok d2" using g(5) by (simp add: tokens_ok_def f)
  have "producer_ok d2 j" if j: "j < node_count d2" "j \<noteq> ?j" for j
  proof -
    have "e \<notin> set (outgoing (nd d j))" using graph_members(1) [OF g(1)] j f(3) by simp
    then have "producerCanRead d2 j = producerCanRead d j" by (auto simp: producerCanRead_def f list_all_iff)
    then show ?thesis using g(6) [of j] j f by (simp add: producer_ok_def)
  qed
  moreover have "?j < node_count d2" using g(1) e f(3) by (simp add: graph_ok_def)
  ultimately show ?thesis unfolding cd by (intro readable_restores g2 e2 a2 f2 t2) simp_all
qed

definition unchanged :: "dag \<Rightarrow> dag \<Rightarrow> bool" where
  "unchanged d d' \<longleftrightarrow> node_count d' = node_count d \<and> edge_count d' = edge_count d \<and> edgeCapacity d' = edgeCapacity d \<and>
     exitedCount d' = exitedCount d \<and> d_done d' = d_done d \<and> hasComplete d' = hasComplete d \<and>
     completions (history d') = completions (history d) \<and> produced (history d') = produced (history d) \<and>
     (\<forall>j. incoming (nd d' j) = incoming (nd d j) \<and> outgoing (nd d' j) = outgoing (nd d j) \<and>
        stdoutClosed (nd d' j) = stdoutClosed (nd d j) \<and> n_stage (nd d' j) = n_stage (nd d j) \<and>
        n_exitCode (nd d' j) = n_exitCode (nd d j) \<and> n_exited (nd d' j) = n_exited (nd d j)) \<and>
     (\<forall>e. e_from (ed d' e) = e_from (ed d e) \<and> e_to (ed d' e) = e_to (ed d e) \<and> sourceClosed (ed d' e) = sourceClosed (ed d e))"

lemma unchanged_refl: "unchanged d d"
  by (simp add: unchanged_def)

lemma unchanged_trans: "unchanged d d' \<Longrightarrow> unchanged d' d'' \<Longrightarrow> unchanged d d''"
  by (simp add: unchanged_def)

lemma unchanged_readable: "unchanged d (setProducerReadable d i r)"
  by (simp add: unchanged_def)

lemma unchanged_writable: "unchanged d (setConsumerWritable d i r)"
  by (simp add: unchanged_def nd_setConsumerWritable)

lemma unchanged_close_edge: "unchanged d (close_edge d e)"
  by (simp add: unchanged_def close_edge_fields ed_close_edge)

text \<open>What a step leaves of a consumer: its stdin and the edges into it.\<close>

definition same_consumer :: "dag \<Rightarrow> dag \<Rightarrow> nat \<Rightarrow> bool" where
  "same_consumer d d' j \<longleftrightarrow> stdinOpen (nd d' j) = stdinOpen (nd d j) \<and> stdinWanted (nd d' j) = stdinWanted (nd d j) \<and>
     (\<forall>e. e_to (ed d e) = j \<longrightarrow> ed d' e = ed d e)"

lemma same_consumer_trans:
  "same_consumer d d' j \<Longrightarrow> same_consumer d' d'' j \<Longrightarrow> unchanged d d' \<Longrightarrow> same_consumer d d'' j"
  by (simp add: same_consumer_def unchanged_def)

lemma close_edges:
  assumes "core lag d" "set es \<subseteq> {..<edge_count d}" "\<forall>e \<in> set es. e_to (ed d e) = i"
  shows "core lag (foldl close_edge d es) \<and> unchanged d (foldl close_edge d es) \<and>
    (\<forall>f. consumerClosed (ed (foldl close_edge d es) f) \<longleftrightarrow> consumerClosed (ed d f) \<or> f \<in> set es) \<and>
    (\<forall>j. stdinOpen (nd (foldl close_edge d es) j) = stdinOpen (nd d j)) \<and>
    (\<forall>j. j \<noteq> i \<longrightarrow> same_consumer d (foldl close_edge d es) j)"
  using assms
proof (induction es arbitrary: d)
  case Nil
  then show ?case by (simp add: unchanged_refl same_consumer_def)
next
  case (Cons e es)
  let ?d = "close_edge d e"
  have e: "e < edge_count d" "e_to (ed d e) = i" using Cons.prems by auto
  have u: "unchanged d ?d" by (rule unchanged_close_edge)
  have p: "set es \<subseteq> {..<edge_count ?d}" "\<forall>f \<in> set es. e_to (ed ?d f) = i" using Cons.prems u by (auto simp: unchanged_def)
  note ih = Cons.IH [OF close_edge_core [OF Cons.prems(1) e(1)] p]
  have c: "consumerClosed (ed ?d f) \<longleftrightarrow> consumerClosed (ed d f) \<or> f = e" for f using e by (auto simp: ed_close_edge)
  have s: "same_consumer d ?d j" if "j \<noteq> i" for j using that e by (auto simp: same_consumer_def close_edge_fields ed_close_edge)
  show ?case
    using ih unchanged_trans [OF u] c s same_consumer_trans [OF _ _ u] by (auto simp: close_edge_fields)
qed

lemma stop_stdin_core:
  assumes "core lag d"
  shows "core lag (set_node d i ((nd d i)\<lparr>stdinToken := False, stdinWanted := False, stdinOpen := False\<rparr>))" (is "core lag ?d")
proof -
  have "producerCanRead ?d j = producerCanRead d j" for j by (simp add: producerCanRead_def)
  then show ?thesis
    using assms by (auto simp: core_def graph_ok_def edges_ok_def accounted_def flow_ok_def tokens_ok_def producer_ok_def)
qed

lemma closeConsumer_spec:
  assumes c: "core lag d" and i: "i < node_count d"
  shows "core lag (closeConsumer d i) \<and> unchanged d (closeConsumer d i) \<and>
    (\<forall>e < edge_count d. consumerClosed (ed (closeConsumer d i) e) \<longleftrightarrow> consumerClosed (ed d e) \<or> stdinOpen (nd d i) \<and> e_to (ed d e) = i) \<and>
    (\<forall>j < node_count d. stdinOpen (nd (closeConsumer d i) j) \<longleftrightarrow> stdinOpen (nd d j) \<and> j \<noteq> i) \<and>
    (\<forall>j. j \<noteq> i \<longrightarrow> same_consumer d (closeConsumer d i) j)"
proof (cases "stdinOpen (nd d i)")
  case False
  then show ?thesis using c by (auto simp: closeConsumer_def unchanged_refl same_consumer_def)
next
  case True
  let ?d = "set_node d i ((nd d i)\<lparr>stdinToken := False, stdinWanted := False, stdinOpen := False\<rparr>)"
  have g: "graph_ok d" using c by (simp add: core_def)
  have m: "e \<in> set (incoming (nd d i)) \<longleftrightarrow> e < edge_count d \<and> e_to (ed d e) = i" for e using graph_members(2) [OF g i] .
  have sub: "set (incoming (nd d i)) \<subseteq> {..<edge_count ?d}" "\<forall>e \<in> set (incoming (nd d i)). e_to (ed ?d e) = i" using m by auto
  have cc: "closeConsumer d i = foldl close_edge ?d (incoming (nd d i))" using True by (simp add: closeConsumer_def)
  have u: "unchanged d ?d" by (auto simp: unchanged_def)
  have s: "same_consumer d ?d j" if "j \<noteq> i" for j using that by (simp add: same_consumer_def)
  note ce = close_edges [OF stop_stdin_core [OF c] sub]
  show ?thesis unfolding cc using ce u unchanged_trans [OF u] s same_consumer_trans [OF _ _ u] m True i by auto
qed

subsection \<open>Draining a consumer\<close>

lemma rotation_covers: "slot < k \<Longrightarrow> \<exists>offset < k. (n + offset) mod k = (slot :: nat)"
proof -
  assume s: "slot < k"
  let ?o = "(slot + (k - n mod k)) mod k"
  have "n mod k < k" using s by simp
  then have "n mod k + (k - n mod k) = k" by simp
  have "(n + ?o) mod k = (n mod k + (slot + (k - n mod k))) mod k" by (metis mod_add_left_eq mod_add_right_eq)
  also have "\<dots> = (slot + k) mod k" using \<open>n mod k + (k - n mod k) = k\<close> by (metis add.commute add.left_commute)
  finally show ?thesis using s by (intro exI [of _ ?o]) simp
qed

lemma find_slot_Some:
  assumes "find_slot d i = Some slot"
  shows "slot < length (incoming (nd d i))" "\<not> bb_empty (e_buffer (ed d (incoming (nd d i) ! slot)))"
proof -
  let ?k = "length (incoming (nd d i))"
  have f: "find (\<lambda>slot. \<not> bb_empty (e_buffer (ed d (incoming (nd d i) ! slot)))) (map (\<lambda>o'. (nextIncoming (nd d i) + o') mod ?k) [0..<?k]) = Some slot"
    using assms by (simp add: find_slot_def Let_def)
  then have "slot \<in> set (map (\<lambda>o'. (nextIncoming (nd d i) + o') mod ?k) [0..<?k])"
    by (metis find_Some_iff nth_mem)
  then show "slot < ?k" by (cases "?k = 0") auto
  show "\<not> bb_empty (e_buffer (ed d (incoming (nd d i) ! slot)))" using f by (metis (mono_tags, lifting) find_Some_iff)
qed

lemma find_slot_None:
  assumes "find_slot d i = None" "e \<in> set (incoming (nd d i))"
  shows "bb_empty (e_buffer (ed d e))"
proof -
  obtain slot where slot: "slot < length (incoming (nd d i))" "incoming (nd d i) ! slot = e"
    using assms(2) by (auto simp: in_set_conv_nth)
  then obtain offset where "offset < length (incoming (nd d i))" "(nextIncoming (nd d i) + offset) mod length (incoming (nd d i)) = slot"
    using rotation_covers by blast
  then show ?thesis using assms(1) slot(2) by (auto simp: find_slot_def Let_def find_None_iff)
qed

definition linked :: "dag \<Rightarrow> bool" where
  "linked d \<longleftrightarrow> (\<forall>e < edge_count d. (consumerClosed (ed d e) \<longleftrightarrow> \<not> stdinOpen (nd d (e_to (ed d e)))) \<and>
     (sourceClosed (ed d e) \<longleftrightarrow> stdoutClosed (nd d (e_from (ed d e)))))"

text \<open>A consumer at rest: buffered data waits for its stdin to become writable, and with all inputs closed and no data
  left its stdin is closed.\<close>

definition settled :: "dag \<Rightarrow> nat \<Rightarrow> bool" where
  "settled d i \<longleftrightarrow> \<not> stdinOpen (nd d i) \<or>
     (if \<exists>e \<in> set (incoming (nd d i)). \<not> bb_empty (e_buffer (ed d e)) then stdinWanted (nd d i) else \<not> inputs_closed d i)"

lemma settled_same:
  assumes "graph_ok d" "j < node_count d" "unchanged d d'" "same_consumer d d' j" "settled d j"
  shows "settled d' j"
proof -
  have "ed d' e = ed d e" if "e \<in> set (incoming (nd d j))" for e
    using that graph_members(2) [OF assms(1,2)] assms(4) by (auto simp: same_consumer_def)
  then have "(\<exists>e \<in> set (incoming (nd d j)). \<not> bb_empty (e_buffer (ed d' e))) = (\<exists>e \<in> set (incoming (nd d j)). \<not> bb_empty (e_buffer (ed d e)))"
    "inputs_closed d' j = inputs_closed d j" using assms(3) by (auto simp: inputs_closed_def list_all_iff unchanged_def)
  then show ?thesis using assms(3-5) by (simp add: settled_def same_consumer_def unchanged_def)
qed

lemma log_readable: "log_event (setProducerReadable d j r) ev = setProducerReadable (log_event d ev) j r"
proof -
  have "log_event (set_node d j n) ev = set_node (log_event d ev) j n" for n by (simp add: log_event_def set_node_def)
  then show ?thesis by (simp add: setProducerReadable_def)
qed

lemma after_write_spec:
  assumes c: "core lag d" and i: "i < node_count d" and slot: "slot < length (incoming (nd d i))"
    and e: "e = incoming (nd d i) ! slot"
    and b: "content (e_buffer (ed d e)) = bytes @ rest" and n: "0 < n" "n \<le> length bytes"
  shows "core lag (after_write d i slot bytes n) \<and> unchanged d (after_write d i slot bytes n) \<and>
    (\<forall>f. consumerClosed (ed (after_write d i slot bytes n) f) = consumerClosed (ed d f)) \<and>
    (\<forall>j. stdinOpen (nd (after_write d i slot bytes n) j) = stdinOpen (nd d j)) \<and>
    (\<forall>j. j \<noteq> i \<longrightarrow> same_consumer d (after_write d i slot bytes n) j)"
proof -
  let ?s = "ed d e" and ?j = "e_from (ed d e)" and ?ev = "Delivered e (take n bytes)"
  have g: "graph_ok d" "edges_ok d" "accounted d" "flow_ok lag d" "tokens_ok d" "\<And>i. i < node_count d \<Longrightarrow> producer_ok d i"
    using c by (simp_all add: core_def)
  have ei: "e < edge_count d" "e_to ?s = i" using graph_members(2) [OF g(1) i, of e] slot nth_mem [OF slot] by (auto simp: e)
  define d2 where "d2 = log_event (set_node ((set_edge d e (?s\<lparr>e_buffer := discardFront (e_buffer ?s) n\<rparr>))\<lparr>buffered := buffered d - n\<rparr>) i
      ((nd d i)\<lparr>nextIncoming := (slot + 1) mod length (incoming (nd d i))\<rparr>)) ?ev"
  have aw: "after_write d i slot bytes n = setProducerReadable d2 ?j (producerCanRead d2 ?j)"
    by (simp add: after_write_def Let_def log_readable d2_def producerCanRead_def flip: e)
  have f: "ed d2 x = (if x = e then ?s\<lparr>e_buffer := discardFront (e_buffer ?s) n\<rparr> else ed d x)"
    "nd d2 x = (if x = i then (nd d i)\<lparr>nextIncoming := (slot + 1) mod length (incoming (nd d i))\<rparr> else nd d x)"
    "node_count d2 = node_count d" "edge_count d2 = edge_count d" "history d2 = history d @ [?ev]" "edgeCapacity d2 = edgeCapacity d"
    "peakBuffered d2 = peakBuffered d" "buffered d2 = buffered d - n" "exitedCount d2 = exitedCount d" "d_done d2 = d_done d"
    "hasComplete d2 = hasComplete d" for x
    using ei i by (auto simp: d2_def)
  have bo: "buffer_inv (e_buffer ?s)" "policy (e_buffer ?s) = Block" "capacity (e_buffer ?s) = edgeCapacity d"
    "consumerClosed ?s \<Longrightarrow> content (e_buffer ?s) = []" using g(2) ei(1) by (auto simp: edges_ok_def)
  have nc: "\<not> consumerClosed ?s" using bo(4) b n by auto
  have sz: "n \<le> bb_size (e_buffer ?s)" using b n length_content [of "e_buffer ?s"] by simp
  have cd: "content (discardFront (e_buffer ?s) n) = drop n bytes @ rest"
    using content_discardFront [OF bo(1)] b n by simp
  have nf: "incoming (nd d2 x) = incoming (nd d x)" "outgoing (nd d2 x) = outgoing (nd d x)" "stdoutClosed (nd d2 x) = stdoutClosed (nd d x)"
    "stdoutReadable (nd d2 x) = stdoutReadable (nd d x)" "stdoutToken (nd d2 x) = stdoutToken (nd d x)" "stdinToken (nd d2 x) = stdinToken (nd d x)"
    "stdinOpen (nd d2 x) = stdinOpen (nd d x)" "stdinWanted (nd d2 x) = stdinWanted (nd d x)" "n_stage (nd d2 x) = n_stage (nd d x)"
    "n_exitCode (nd d2 x) = n_exitCode (nd d x)" "n_exited (nd d2 x) = n_exited (nd d x)" for x by (simp_all add: f)
  have g2: "graph_ok d2" using g(1) by (auto simp: graph_ok_def f(1,3,4) nf intro!: filter_cong)
  have e2: "edges_ok d2" using g(2) bo nc ei by (auto simp: edges_ok_def f(1,3,4,6))
  have "(\<Sum>x<edge_count d. bb_size (e_buffer (ed d2 x))) + bb_size (e_buffer ?s) =
      (\<Sum>x<edge_count d. bb_size (e_buffer (ed d x))) + (bb_size (e_buffer ?s) - n)"
    using sum_one_changed [OF ei(1), of "\<lambda>x. bb_size (e_buffer (ed d2 x))" "\<lambda>x. bb_size (e_buffer (ed d x))"] by (simp add: f(1))
  then have a2: "accounted d2" using g(3) sz by (auto simp: accounted_def f)
  have fl: "if consumerClosed (ed d x) then prefix (delivered (history d) x) (produced (history d) (e_from (ed d x)))
     else produced (history d) (e_from (ed d x)) = delivered (history d) x @ content (e_buffer (ed d x)) @ lag x" if "x < edge_count d" for x
    using g(4) that by (simp add: flow_ok_def)
  have f2: "flow_ok lag d2"
    unfolding flow_ok_def f(4,5)
  proof (intro allI impI)
    fix x assume x: "x < edge_count d"
    show "if consumerClosed (ed d2 x) then prefix (delivered (history d @ [?ev]) x) (produced (history d @ [?ev]) (e_from (ed d2 x)))
       else produced (history d @ [?ev]) (e_from (ed d2 x)) = delivered (history d @ [?ev]) x @ content (e_buffer (ed d2 x)) @ lag x"
    proof (cases "x = e")
      case True
      then show ?thesis using fl [OF ei(1)] nc n b append_take_drop_id [of n bytes] by (simp add: f(1) cd)
    next
      case False
      then show ?thesis using fl [OF x] by (simp add: f(1))
    qed
  qed
  have t2: "tokens_ok d2" using g(5) by (simp add: tokens_ok_def f(3) nf)
  have "producer_ok d2 j" if j: "j < node_count d2" "j \<noteq> ?j" for j
  proof -
    have "e \<notin> set (outgoing (nd d j))" using graph_members(1) [OF g(1)] j f(3) by simp
    then have "producerCanRead d2 j = producerCanRead d j" by (auto simp: producerCanRead_def f(1) nf list_all_iff)
    then show ?thesis using g(6) [of j] j f(3) nf by (simp add: producer_ok_def)
  qed
  moreover have "?j < node_count d2" using g(1) ei f(3) by (simp add: graph_ok_def)
  ultimately have "core lag (after_write d i slot bytes n)" unfolding aw by (intro readable_restores g2 e2 a2 f2 t2) simp_all
  moreover have "unchanged d (after_write d i slot bytes n)" unfolding aw
    by (rule unchanged_trans [OF _ unchanged_readable]) (auto simp: unchanged_def f(1,3-11) nf fun_eq_iff)
  ultimately show ?thesis unfolding aw using ei by (auto simp: f(1) nf same_consumer_def)
qed

lemma linked_after:
  assumes "linked d" "unchanged d d'" "\<forall>e < edge_count d. consumerClosed (ed d' e) = consumerClosed (ed d e)"
    "\<forall>j. stdinOpen (nd d' j) = stdinOpen (nd d j)"
  shows "linked d'"
  using assms by (simp add: linked_def unchanged_def)

lemma linked_close:
  assumes "core lag d" "linked d" "i < node_count d"
  shows "linked (closeConsumer d i)"
proof -
  have g: "graph_ok d" using assms(1) by (simp add: core_def)
  note cc = closeConsumer_spec [OF assms(1,3)]
  show ?thesis using assms(2) cc g by (auto simp: linked_def unchanged_def graph_ok_def)
qed

text \<open>The outcome of a step at consumer \<open>i\<close>: the invariants hold and nothing of the other consumers changed.\<close>

definition consumer_step :: "(nat \<Rightarrow> string) \<Rightarrow> nat \<Rightarrow> dag \<Rightarrow> dag \<Rightarrow> bool" where
  "consumer_step lag i d d' \<longleftrightarrow> core lag d' \<and> linked d' \<and> unchanged d d' \<and> (\<forall>j. j \<noteq> i \<longrightarrow> same_consumer d d' j)"

lemma consumer_step_refl: "core lag d \<Longrightarrow> linked d \<Longrightarrow> consumer_step lag i d d"
  by (simp add: consumer_step_def unchanged_refl same_consumer_def)

lemma consumer_step_trans: "consumer_step lag i d d' \<Longrightarrow> consumer_step lag i d' d'' \<Longrightarrow> consumer_step lag i d d''"
  unfolding consumer_step_def using unchanged_trans same_consumer_trans by blast

lemma consumer_step_close: "core lag d \<Longrightarrow> linked d \<Longrightarrow> i < node_count d \<Longrightarrow> consumer_step lag i d (closeConsumer d i) \<and> settled (closeConsumer d i) i"
  using closeConsumer_spec [of lag d i] linked_close [of lag d i] by (auto simp: consumer_step_def settled_def)

lemma consumer_step_writable:
  assumes "core lag d" "linked d"
  shows "consumer_step lag i d (setConsumerWritable d i r)"
proof -
  have "linked (setConsumerWritable d i r)"
    by (rule linked_after [OF assms(2) unchanged_writable]) (simp_all add: nd_setConsumerWritable)
  then show ?thesis using setConsumerWritable_core [OF assms(1)] unchanged_writable
    by (auto simp: consumer_step_def same_consumer_def nd_setConsumerWritable)
qed

lemma writable_settled:
  assumes "core lag d" "i < node_count d" "e \<in> set (incoming (nd d i))" "\<not> bb_empty (e_buffer (ed d e))"
  shows "settled (setConsumerWritable d i True) i"
proof -
  have "stdinToken (nd d i) = stdinOpen (nd d i)" using assms(1,2) by (simp add: core_def tokens_ok_def)
  then show ?thesis using assms(2-4) by (auto simp: settled_def nd_setConsumerWritable)
qed

lemma slot_peek:
  assumes "core lag d" "i < node_count d" "find_slot d i = Some slot"
  shows "\<exists>bytes rest. bb_peek (e_buffer (ed d (incoming (nd d i) ! slot))) = Some bytes \<and>
    content (e_buffer (ed d (incoming (nd d i) ! slot))) = bytes @ rest"
proof -
  let ?e = "incoming (nd d i) ! slot"
  have "?e \<in> set (incoming (nd d i))" using find_slot_Some(1) [OF assms(3)] by simp
  then have "?e < edge_count d" using graph_members(2) [of d i ?e] assms(1,2) by (simp add: core_def)
  then have "buffer_inv (e_buffer (ed d ?e))" using assms(1) by (simp add: core_def edges_ok_def)
  from bb_peek_spec [OF this] show ?thesis by blast
qed

lemma drain_loop_spec:
  assumes "core lag d" "linked d" "i < node_count d" "stdinOpen (nd d i)"
  shows "\<exists>d' rest drained. drain_loop d i ws = Some (d', rest, drained) \<and> consumer_step lag i d d' \<and>
    (if drained then stdinOpen (nd d' i) \<and> (\<forall>e \<in> set (incoming (nd d' i)). bb_empty (e_buffer (ed d' e))) else settled d' i)"
  using assms
proof (induction ws arbitrary: d)
  case Nil
  show ?case
  proof (cases "find_slot d i")
    case None
    then have l: "drain_loop d i [] = Some (d, [], True)" by (simp add: drain_loop.simps [of d])
    have "consumer_step lag i d d" using Nil by (simp add: consumer_step_refl)
    then show ?thesis unfolding l using Nil find_slot_None [OF None] by auto
  next
    case (Some slot)
    let ?e = "incoming (nd d i) ! slot"
    note fs = find_slot_Some [OF Some]
    have e: "?e \<in> set (incoming (nd d i))" using fs by simp
    obtain bytes where "bb_peek (e_buffer (ed d ?e)) = Some bytes" using slot_peek [OF Nil(1,3) Some] by blast
    then show ?thesis using Some Nil consumer_step_writable [OF Nil(1,2)] writable_settled [OF Nil(1,3) e fs(2)] by (auto simp: drain_loop.simps [of d])
  qed
next
  case (Cons w ws)
  show ?case
  proof (cases "find_slot d i")
    case None
    then have l: "drain_loop d i (w # ws) = Some (d, w # ws, True)" by (simp add: drain_loop.simps [of d])
    have "consumer_step lag i d d" using Cons.prems by (simp add: consumer_step_refl)
    then show ?thesis unfolding l using Cons.prems find_slot_None [OF None] by auto
  next
    case (Some slot)
    let ?e = "incoming (nd d i) ! slot"
    note fs = find_slot_Some [OF Some]
    have e: "?e \<in> set (incoming (nd d i))" using fs by simp
    obtain bytes rest where p: "bb_peek (e_buffer (ed d ?e)) = Some bytes" "content (e_buffer (ed d ?e)) = bytes @ rest"
      using slot_peek [OF Cons.prems(1,3) Some] by blast
    note wr = consumer_step_writable [OF Cons.prems(1,2)] writable_settled [OF Cons.prems(1,3) e fs(2)]
    show ?thesis
    proof (cases w)
      case (Wrote n)
      show ?thesis
      proof (cases "min n (length bytes) = 0")
        case True
        then show ?thesis using Some p wr by (auto simp: drain_loop.simps [of d] Wrote)
      next
        case False
        let ?d = "after_write d i slot bytes (min n (length bytes))"
        have aw: "core lag ?d" "unchanged d ?d" "\<forall>f. consumerClosed (ed ?d f) = consumerClosed (ed d f)"
          "\<forall>j. stdinOpen (nd ?d j) = stdinOpen (nd d j)" "\<forall>j. j \<noteq> i \<longrightarrow> same_consumer d ?d j"
          using after_write_spec [OF Cons.prems(1,3) fs(1) refl p(2), of "min n (length bytes)"] False by auto
        have l: "linked ?d" by (rule linked_after [OF Cons.prems(2) aw(2)]) (use aw in auto)
        have st: "consumer_step lag i d ?d" using aw l by (simp add: consumer_step_def)
        have "i < node_count ?d" "stdinOpen (nd ?d i)" using aw Cons.prems by (auto simp: unchanged_def)
        from Cons.IH [OF aw(1) l this] consumer_step_trans [OF st]
        have "\<exists>d' rest drained. drain_loop ?d i ws = Some (d', rest, drained) \<and> consumer_step lag i d d' \<and>
            (if drained then stdinOpen (nd d' i) \<and> (\<forall>e \<in> set (incoming (nd d' i)). bb_empty (e_buffer (ed d' e))) else settled d' i)"
          by blast
        moreover have "drain_loop d i (w # ws) = drain_loop ?d i ws" using Some p False by (auto simp: drain_loop.simps [of d] Wrote min_def split: if_splits)
        ultimately show ?thesis by simp
      qed
    next
      case WriteBlocks
      then show ?thesis using Some p wr by (auto simp: drain_loop.simps [of d])
    next
      case WriteFails
      then show ?thesis using Some p consumer_step_close [OF Cons.prems(1-3)] by (auto simp: drain_loop.simps [of d])
    qed
  qed
qed

lemma drainConsumer_spec:
  assumes "core lag d" "linked d" "i < node_count d"
  shows "\<exists>d' ws'. drainConsumer d ws i = Some (d', ws') \<and> consumer_step lag i d d' \<and> settled d' i"
proof (cases "stdinOpen (nd d i)")
  case False
  then show ?thesis using assms by (auto simp: drainConsumer_def consumer_step_def unchanged_refl same_consumer_def settled_def)
next
  case True
  obtain d1 rest drained where d1: "drain_loop d i (ws i) = Some (d1, rest, drained)" "consumer_step lag i d d1"
    "if drained then stdinOpen (nd d1 i) \<and> (\<forall>e \<in> set (incoming (nd d1 i)). bb_empty (e_buffer (ed d1 e))) else settled d1 i"
    using drain_loop_spec [OF assms True] by blast
  have c1: "core lag d1" "linked d1" "i < node_count d1" using d1(2) assms(3) by (auto simp: consumer_step_def unchanged_def)
  consider "\<not> drained" | "drained" "inputs_closed d1 i" | "drained" "\<not> inputs_closed d1 i" by blast
  then show ?thesis
  proof cases
    case 1
    then show ?thesis using True d1 by (simp add: drainConsumer_def)
  next
    case 2
    then show ?thesis using True d1 consumer_step_trans [OF d1(2)] consumer_step_close [OF c1] by (auto simp: drainConsumer_def)
  next
    case 3
    have "settled (setConsumerWritable d1 i False) i"
      using 3 d1(3) c1(3) by (auto simp: settled_def inputs_closed_def nd_setConsumerWritable)
    then show ?thesis using 3 True d1 consumer_step_trans [OF d1(2)] consumer_step_writable [OF c1(1,2)] by (auto simp: drainConsumer_def)
  qed
qed

end
