(* ===== verification/Dag_Events.thy ===== *)
theory Dag_Events
  imports Dag_Runner "HOL-Library.Code_Target_Nat"
begin

text \<open>
  Every callback of the reactor keeps the invariants of \<^typ>\<open>dag\<close>: the reading and closing of a producer, the exit of a
  child, cancellation and the start of a run.  \<open>dag_events\<close> runs a sequence of callbacks.
\<close>

subsection \<open>Draining several consumers\<close>

text \<open>What a group of consumers leaves: the invariants, the named consumers at rest and the others untouched.\<close>

definition consumers_step :: "(nat \<Rightarrow> string) \<Rightarrow> nat set \<Rightarrow> dag \<Rightarrow> dag \<Rightarrow> bool" where
  "consumers_step lag A d d' \<longleftrightarrow> core lag d' \<and> linked d' \<and> unchanged d d' \<and> (\<forall>j \<in> A. settled d' j) \<and>
     (\<forall>j. j \<notin> A \<longrightarrow> same_consumer d d' j)"

lemma drain_all_spec:
  assumes "core lag d" "linked d" "set is \<subseteq> {..<node_count d}"
  shows "\<exists>d' ws'. drain_all d ws is = Some (d', ws') \<and> consumers_step lag (set is) d d'"
  using assms
proof (induction "is" arbitrary: d ws)
  case Nil
  then show ?case by (simp add: consumers_step_def unchanged_refl same_consumer_def)
next
  case (Cons i "is")
  have i: "i < node_count d" using Cons.prems by simp
  obtain d1 ws1 where 1: "drainConsumer d ws i = Some (d1, ws1)" "consumer_step lag i d d1" "settled d1 i"
    using drainConsumer_spec [OF Cons.prems(1,2) i] by blast
  then have s1: "core lag d1" "linked d1" "unchanged d d1" "\<forall>j. j \<noteq> i \<longrightarrow> same_consumer d d1 j" by (simp_all add: consumer_step_def)
  then have n1: "set is \<subseteq> {..<node_count d1}" "i < node_count d1" using Cons.prems(3) i by (simp_all add: unchanged_def)
  obtain d2 ws2 where 2: "drain_all d1 ws1 is = Some (d2, ws2)" "consumers_step lag (set is) d1 d2"
    using Cons.IH [OF s1(1,2) n1(1)] by blast
  then have s2: "core lag d2" "linked d2" "unchanged d1 d2" "\<forall>j \<in> set is. settled d2 j" "\<forall>j. j \<notin> set is \<longrightarrow> same_consumer d1 d2 j"
    by (simp_all add: consumers_step_def)
  have "settled d2 i"
  proof (cases "i \<in> set is")
    case False
    then show ?thesis using settled_same [OF _ n1(2) s2(3) _ 1(3)] s1(1) s2(5) by (simp add: core_def)
  qed (use s2(4) in simp)
  moreover have "same_consumer d d2 j" if "j \<notin> set (i # is)" for j
    using that s1(4) s2(5) same_consumer_trans [OF _ _ s1(3)] by auto
  ultimately have "consumers_step lag (set (i # is)) d d2"
    using s2 unchanged_trans [OF s1(3) s2(3)] by (simp add: consumers_step_def)
  then show ?case using 1(1) 2(1) by auto
qed

lemma set_in_order [simp]: "set (in_order xs) = set xs"
  by (simp add: in_order_def)

subsection \<open>Copying a read to the edges\<close>

lemma foldl_min:
  fixes f :: "'a \<Rightarrow> nat"
  shows "foldl (\<lambda>limit x. min limit (f x)) a xs \<le> a" "x \<in> set xs \<Longrightarrow> foldl (\<lambda>limit x. min limit (f x)) a xs \<le> f x"
    "foldl (\<lambda>limit x. min limit (f x)) a xs = a \<or> (\<exists>x \<in> set xs. foldl (\<lambda>limit x. min limit (f x)) a xs = f x)"
proof (induction xs arbitrary: a)
  case (Cons y ys)
  { case 1 show ?case using Cons.IH(1) [of "min a (f y)"] by simp }
  { case 2 then show ?case using Cons.IH(1,2) [of "min a (f y)"] by (auto intro: order_trans) }
  { case 3 show ?case using Cons.IH(3) [of "min a (f y)"] by (auto simp: min_def split: if_splits) }
qed simp_all

lemma read_limit_facts:
  shows "read_limit d i \<le> kReadChunk" "e \<in> set (active_edges d i) \<Longrightarrow> read_limit d i \<le> available (e_buffer (ed d e))"
    "read_limit d i = 0 \<Longrightarrow> \<exists>e \<in> set (active_edges d i). available (e_buffer (ed d e)) = 0"
  using foldl_min(1) [of "\<lambda>e. available (e_buffer (ed d e))" kReadChunk "active_edges d i"]
    foldl_min(2) [of e "active_edges d i" "\<lambda>e. available (e_buffer (ed d e))" kReadChunk]
    foldl_min(3) [of "\<lambda>e. available (e_buffer (ed d e))" kReadChunk "active_edges d i"]
  by (auto simp: read_limit_def kReadChunk_def)

lemma full_blocks:
  assumes "core lag d" "i < node_count d" "read_limit d i = 0"
  shows "\<not> producerCanRead d i"
proof -
  obtain e where e: "e \<in> set (active_edges d i)" "available (e_buffer (ed d e)) = 0" using read_limit_facts(3) [OF assms(3)] by blast
  then have "e \<in> set (outgoing (nd d i))" "\<not> consumerClosed (ed d e)" by (auto simp: active_edges_def)
  moreover have "e < edge_count d" using graph_members(1) [of d i e] assms(1,2) calculation by (simp add: core_def)
  moreover have "buffer_inv (e_buffer (ed d e))" using assms(1) calculation(3) by (simp add: core_def edges_ok_def)
  ultimately show ?thesis using e(2) by (auto simp: producerCanRead_def list_all_iff bb_full_def available_def buffer_inv_def)
qed

text \<open>One buffer takes the bytes.\<close>

definition append_one :: "dag \<Rightarrow> nat \<Rightarrow> bounded_buffer \<Rightarrow> nat \<Rightarrow> dag" where
  "append_one d e b n = (set_edge d e ((ed d e)\<lparr>e_buffer := b\<rparr>))\<lparr>buffered := buffered d + n, peakBuffered := max (peakBuffered d) (buffered d + n)\<rparr>"

lemma append_one_simps:
  "ed (append_one d e b n) f = (if e = f \<and> f < edge_count d then (ed d f)\<lparr>e_buffer := b\<rparr> else ed d f)"
  "d_nodes (append_one d e b n) = d_nodes d" "nd (append_one d e b n) i = nd d i" "edge_count (append_one d e b n) = edge_count d"
  "history (append_one d e b n) = history d" "edgeCapacity (append_one d e b n) = edgeCapacity d"
  "buffered (append_one d e b n) = buffered d + n" "peakBuffered (append_one d e b n) = max (peakBuffered d) (buffered d + n)"
  "exitedCount (append_one d e b n) = exitedCount d" "d_done (append_one d e b n) = d_done d"
  "hasComplete (append_one d e b n) = hasComplete d"
  by (auto simp: append_one_def ed_def set_edge_def nd_def not_less nth_update_out)

lemma append_one_core:
  assumes c: "core lag d" and e: "e < edge_count d" "\<not> consumerClosed (ed d e)"
    and b: "buffer_inv b" "content b = content (e_buffer (ed d e)) @ lag e" "capacity b = capacity (e_buffer (ed d e))"
      "policy b = policy (e_buffer (ed d e))"
  shows "core (lag(e := [])) (append_one d e b (length (lag e)))"
proof -
  let ?d = "append_one d e b (length (lag e))" and ?s = "ed d e"
  note f = append_one_simps [of d e b "length (lag e)"]
  have g: "graph_ok d" "edges_ok d" "accounted d" "flow_ok lag d" "tokens_ok d" "\<And>i. i < node_count d \<Longrightarrow> producer_ok d i"
    using c by (simp_all add: core_def)
  have sz: "bb_size b = bb_size (e_buffer ?s) + length (lag e)" using b(2) by (metis length_append length_content)
  have g2: "graph_ok ?d" using g(1) e by (auto simp: graph_ok_def f intro!: filter_cong)
  have e2: "edges_ok ?d" using g(2) b e by (auto simp: edges_ok_def f)
  have "(\<Sum>x<edge_count d. bb_size (e_buffer (ed ?d x))) + bb_size (e_buffer ?s) = (\<Sum>x<edge_count d. bb_size (e_buffer (ed d x))) + bb_size b"
    using sum_one_changed [OF e(1), of "\<lambda>x. bb_size (e_buffer (ed ?d x))" "\<lambda>x. bb_size (e_buffer (ed d x))"] e by (simp add: f)
  then have "buffered ?d = (\<Sum>x<edge_count ?d. bb_size (e_buffer (ed ?d x)))" using g(3) sz by (simp add: accounted_def f)
  moreover from this have "buffered ?d \<le> edge_count ?d * edgeCapacity ?d" using sizes_bound [OF e2] by simp
  ultimately have a2: "accounted ?d" using g(3) by (simp add: accounted_def f)
  have f2: "flow_ok (lag(e := [])) ?d"
    unfolding flow_ok_def f(4,5)
  proof (intro allI impI)
    fix x assume x: "x < edge_count d"
    then show "if consumerClosed (ed ?d x) then prefix (delivered (history d) x) (produced (history d) (e_from (ed ?d x)))
       else produced (history d) (e_from (ed ?d x)) = delivered (history d) x @ content (e_buffer (ed ?d x)) @ (lag(e := [])) x"
      using g(4) e b(2) by (cases "x = e") (auto simp: flow_ok_def f(1))
  qed
  have t2: "tokens_ok ?d" using g(5) by (simp add: tokens_ok_def f)
  have full: "bb_full (e_buffer ?s) \<Longrightarrow> bb_full b" using b(1,3) sz by (simp add: bb_full_def buffer_inv_def)
  have "producer_ok ?d j" if j: "j < node_count d" for j
  proof -
    have "producerCanRead ?d j \<Longrightarrow> producerCanRead d j" using full e(2) by (auto simp: producerCanRead_def list_all_iff f split: if_splits)
    then show ?thesis using g(6) [OF j] by (auto simp: producer_ok_def f)
  qed
  then show ?thesis using g2 e2 a2 f2 t2 by (simp add: core_def f)
qed

lemma append_edges_spec:
  assumes "core (\<lambda>e. if e \<in> set es then bytes else []) d" "linked d" "distinct es" "set es \<subseteq> {..<edge_count d}"
    "\<forall>e \<in> set es. consumerClosed (ed d e) \<or> length bytes \<le> available (e_buffer (ed d e))"
  shows "\<exists>d'. append_edges d bytes es = Some d' \<and> core (\<lambda>e. []) d' \<and> linked d' \<and> unchanged d d' \<and> d_nodes d' = d_nodes d \<and>
    (\<forall>e. e \<notin> set es \<or> consumerClosed (ed d e) \<longrightarrow> ed d' e = ed d e)"
  using assms
proof (induction es arbitrary: d)
  case Nil
  then show ?case by (simp add: unchanged_refl)
next
  case (Cons e es)
  let ?lag = "\<lambda>x. if x \<in> set (e # es) then bytes else []" and ?lag' = "\<lambda>x. if x \<in> set es then bytes else []"
  have e: "e < edge_count d" "e \<notin> set es" using Cons.prems by auto
  show ?case
  proof (cases "consumerClosed (ed d e)")
    case True
    have "flow_ok ?lag' d" using Cons.prems(1) True by (auto simp: core_def flow_ok_def)
    then have "core ?lag' d" using Cons.prems(1) by (simp add: core_def)
    from Cons.IH [OF this] show ?thesis using Cons.prems True by auto
  next
    case False
    let ?b = "e_buffer (ed d e)"
    have bo: "buffer_inv ?b" "policy ?b = Block" using Cons.prems(1) e by (auto simp: core_def edges_ok_def)
    have av: "length bytes \<le> available ?b" using Cons.prems(5) False by simp
    obtain b where b: "bb_append ?b bytes = Some (b, length bytes)" "buffer_inv b" "content b = content ?b @ ?lag e"
        "capacity b = capacity ?b" "policy b = policy ?b"
      using lossless_append [of ?b bytes] bo av by (auto simp: lossless_buffer_def dropsOnOverflow_def)
    let ?d = "append_one d e b (length bytes)"
    note f = append_one_simps [of d e b "length bytes"]
    have "core (?lag(e := [])) ?d" using append_one_core [OF Cons.prems(1) e(1) False b(2-5)] by simp
    moreover have "?lag(e := []) = ?lag'" using e(2) by auto
    ultimately have c: "core ?lag' ?d" by simp
    have u: "unchanged d ?d" by (auto simp: unchanged_def f)
    have l: "linked ?d" by (rule linked_after [OF Cons.prems(2) u]) (simp_all add: f)
    have p: "distinct es" "set es \<subseteq> {..<edge_count ?d}" "\<forall>x \<in> set es. consumerClosed (ed ?d x) \<or> length bytes \<le> available (e_buffer (ed ?d x))"
      using Cons.prems e by (auto simp: f)
    obtain d' where d': "append_edges ?d bytes es = Some d'" "core (\<lambda>e. []) d'" "linked d'" "unchanged ?d d'" "d_nodes d' = d_nodes ?d"
        "\<forall>x. x \<notin> set es \<or> consumerClosed (ed ?d x) \<longrightarrow> ed d' x = ed ?d x"
      using Cons.IH [OF c l p] by blast
    have "append_edges d bytes (e # es) = Some d'" using False b(1) d'(1) by (simp add: append_one_def)
    moreover have "\<forall>x. x \<notin> set (e # es) \<or> consumerClosed (ed d x) \<longrightarrow> ed d' x = ed d x"
      using d'(6) False by (auto simp: f split: if_splits)
    ultimately show ?thesis using d'(2-5) unchanged_trans [OF u d'(4)] by (simp add: f)
  qed
qed

lemma produce_core:
  assumes "core (\<lambda>e. []) d" "i < node_count d"
  shows "core (\<lambda>e. if e \<in> set (outgoing (nd d i)) then bytes else []) (log_event d (Produced i bytes))"
proof -
  let ?d = "log_event d (Produced i bytes)"
  have g: "graph_ok d" "flow_ok (\<lambda>e. []) d" using assms(1) by (simp_all add: core_def)
  note m = graph_members(1) [OF g(1) assms(2)]
  have "flow_ok (\<lambda>e. if e \<in> set (outgoing (nd d i)) then bytes else []) ?d"
    unfolding flow_ok_def log_event_simps
  proof (intro allI impI)
    fix x assume x: "x < edge_count d"
    then show "if consumerClosed (ed d x) then prefix (delivered (history d @ [Produced i bytes]) x) (produced (history d @ [Produced i bytes]) (e_from (ed d x)))
       else produced (history d @ [Produced i bytes]) (e_from (ed d x)) =
         delivered (history d @ [Produced i bytes]) x @ content (e_buffer (ed d x)) @ (if x \<in> set (outgoing (nd d i)) then bytes else [])"
      using g(2) m [of x] by (auto simp: flow_ok_def)
  qed
  moreover have "graph_ok ?d = graph_ok d" "edges_ok ?d = edges_ok d" "accounted ?d = accounted d" "tokens_ok ?d = tokens_ok d"
    "producer_ok ?d j = producer_ok d j" for j
    by (simp_all add: graph_ok_def edges_ok_def accounted_def tokens_ok_def producer_ok_def producerCanRead_def)
  ultimately show ?thesis using assms(1) by (simp add: core_def)
qed

text \<open>A sink has no edge to fill.\<close>

lemma output_core:
  assumes "core (\<lambda>e. []) d" "i < node_count d" "outgoing (nd d i) = []"
  shows "core (\<lambda>e. []) (log_event (log_event d (Produced i bytes)) (Output bytes))" (is "core _ ?d")
proof -
  have "core (\<lambda>e. []) (log_event d (Produced i bytes))" using produce_core [OF assms(1,2), of bytes] assms(3) by simp
  moreover have "core (\<lambda>e. []) (log_event d1 (Output bytes))" if "core (\<lambda>e. []) d1" for d1
    by (rule same_edges_core_readable [OF _ that]) (simp_all add: same_edges_def alike_def fun_eq_iff)
  ultimately show ?thesis by blast
qed

subsection \<open>Completion\<close>

text \<open>All children have exited and all their output is read; \<open>lost\<close> says that the run was cancelled.\<close>

definition finished :: "dag \<Rightarrow> bool" where
  "finished d \<longleftrightarrow> (\<forall>i < node_count d. n_exited (nd d i) \<and> stdoutClosed (nd d i))"

definition exits_ok :: "dag \<Rightarrow> bool" where
  "exits_ok d \<longleftrightarrow> exitedCount d = card {i. i < node_count d \<and> n_exited (nd d i)}"

definition completion_ok :: "bool \<Rightarrow> dag \<Rightarrow> bool" where
  "completion_ok lost d \<longleftrightarrow>
     (if d_done d then finished d \<and> \<not> hasComplete d \<and> (completions (history d) = [dag_result d] \<or> lost \<and> completions (history d) = [])
      else hasComplete d \<and> completions (history d) = [])"

lemma exits_all: "exits_ok d \<Longrightarrow> exitedCount d = node_count d \<longleftrightarrow> (\<forall>i < node_count d. n_exited (nd d i))"
proof -
  let ?A = "{i. i < node_count d \<and> n_exited (nd d i)}"
  assume x: "exits_ok d"
  have sub: "?A \<subseteq> {..<node_count d}" by blast
  have "card ?A = node_count d \<longleftrightarrow> ?A = {..<node_count d}"
    using card_subset_eq [OF finite_lessThan sub] by (metis card_lessThan)
  also have "\<dots> \<longleftrightarrow> (\<forall>i < node_count d. n_exited (nd d i))" by blast
  finally show ?thesis using x by (simp add: exits_ok_def)
qed

lemma map_nodes: "map f (d_nodes d) = map (\<lambda>i. f (nd d i)) [0..<node_count d]"
  by (rule nth_equalityI) (simp_all add: nd_def)

lemma dag_result_nd:
  "dag_result d = \<lparr>o_exitCode = last_failure (map (\<lambda>i. n_exitCode (nd d i)) [0..<node_count d]),
     stageExitCodes = map (\<lambda>i. n_exitCode (nd d i)) [0..<node_count d],
     topologicalOrder = map (\<lambda>i. stage_id (n_stage (nd d i))) [0..<node_count d]\<rparr>"
  unfolding dag_result_def by (simp add: map_nodes [of n_exitCode] map_nodes [of "\<lambda>n. stage_id (n_stage n)"])

lemma unchanged_result: "unchanged d d' \<Longrightarrow> dag_result d' = dag_result d"
  by (simp add: dag_result_nd unchanged_def)

lemma unchanged_completion:
  assumes "unchanged d d'"
  shows "completion_ok lost d' = completion_ok lost d" "exits_ok d' = exits_ok d" "finished d' = finished d"
  using assms unchanged_result [OF assms] by (simp_all add: completion_ok_def exits_ok_def finished_def unchanged_def)

text \<open>The state between two callbacks.\<close>

definition at_rest :: "bool \<Rightarrow> dag \<Rightarrow> bool" where
  "at_rest lost d \<longleftrightarrow> core (\<lambda>e. []) d \<and> linked d \<and> (\<forall>j < node_count d. settled d j) \<and> exits_ok d \<and> completion_ok lost d \<and>
     (finished d \<longrightarrow> d_done d)"

lemma finishIfDone_rest:
  assumes "core (\<lambda>e. []) d" "linked d" "\<forall>j < node_count d. settled d j" "exits_ok d" "completion_ok lost d"
  shows "at_rest lost (finishIfDone d)"
proof -
  have all: "list_all stdoutClosed (d_nodes d) \<longleftrightarrow> (\<forall>i < node_count d. stdoutClosed (nd d i))"
    by (simp add: list_all_length nd_def)
  consider "d_done d" | "\<not> d_done d" "\<not> finished d" | "\<not> d_done d" "finished d" by blast
  then show ?thesis
  proof cases
    case 1
    then show ?thesis using assms by (simp add: finishIfDone_def at_rest_def)
  next
    case 2
    then have "finishIfDone d = d" using exits_all [OF assms(4)] all by (auto simp: finishIfDone_def finished_def)
    then show ?thesis using assms 2 by (simp add: at_rest_def)
  next
    case 3
    let ?d = "log_event (d\<lparr>d_done := True, hasComplete := False\<rparr>) (Completed (dag_result d))"
    have h: "hasComplete d" "completions (history d) = []" using assms(5) 3 by (auto simp: completion_ok_def)
    have fd: "finishIfDone d = ?d" using 3 h exits_all [OF assms(4)] all by (simp add: finishIfDone_def finished_def)
    have f: "nd ?d i = nd d i" "ed ?d e = ed d e" "node_count ?d = node_count d" "edge_count ?d = edge_count d" for i e by simp_all
    have r: "dag_result ?d = dag_result d" by (simp add: dag_result_def)
    have c: "core (\<lambda>e. []) ?d" by (rule same_edges_core_readable [OF _ assms(1)]) (simp_all add: same_edges_def alike_def fun_eq_iff)
    have l: "linked ?d" using assms(2) by (simp add: linked_def)
    have s: "settled ?d j = settled d j" for j by (simp add: settled_def inputs_closed_def)
    have x: "exits_ok ?d" using assms(4) by (simp add: exits_ok_def)
    have "finished ?d" using 3(2) by (simp add: finished_def)
    then have "completion_ok lost ?d" using r h by (simp add: completion_ok_def)
    then show ?thesis unfolding fd using c l s x assms(3) by (simp add: at_rest_def)
  qed
qed

subsection \<open>Callbacks\<close>

definition same_graph :: "dag \<Rightarrow> dag \<Rightarrow> bool" where
  "same_graph d d' \<longleftrightarrow> node_count d' = node_count d \<and> edge_count d' = edge_count d \<and> edgeCapacity d' = edgeCapacity d \<and>
     (\<forall>j < node_count d. n_stage (nd d' j) = n_stage (nd d j)) \<and>
     (\<forall>e < edge_count d. e_from (ed d' e) = e_from (ed d e) \<and> e_to (ed d' e) = e_to (ed d e))"

lemma same_graph_refl: "same_graph d d"
  by (simp add: same_graph_def)

lemma same_graph_trans: "same_graph d d' \<Longrightarrow> same_graph d' d'' \<Longrightarrow> same_graph d d''"
  by (simp add: same_graph_def)

lemma unchanged_graph: "unchanged d d' \<Longrightarrow> same_graph d d'"
  by (simp add: unchanged_def same_graph_def)

lemma finishIfDone_graph: "same_graph d (finishIfDone d)"
  by (simp add: finishIfDone_def same_graph_def)

text \<open>The outcome of a callback.\<close>

definition rests :: "bool \<Rightarrow> dag \<Rightarrow> dag \<Rightarrow> bool" where
  "rests lost d d' \<longleftrightarrow> at_rest lost d' \<and> same_graph d d'"

lemma drained_rest:
  assumes "consumers_step (\<lambda>e. []) A d d'" "graph_ok d" "\<forall>j < node_count d. j \<notin> A \<longrightarrow> settled d j" "exits_ok d" "completion_ok lost d"
  shows "core (\<lambda>e. []) d'" "linked d'" "\<forall>j < node_count d'. settled d' j" "exits_ok d'" "completion_ok lost d'" "unchanged d d'"
proof -
  have s: "core (\<lambda>e. []) d'" "linked d'" "unchanged d d'" "\<forall>j \<in> A. settled d' j" "\<forall>j. j \<notin> A \<longrightarrow> same_consumer d d' j"
    using assms(1) by (simp_all add: consumers_step_def)
  then show "core (\<lambda>e. []) d'" "linked d'" "unchanged d d'" "exits_ok d'" "completion_ok lost d'"
    using assms(4,5) by (simp_all add: unchanged_completion)
  have "settled d' j" if "j < node_count d" for j
    using that s(4,5) assms(3) settled_same [OF assms(2) that s(3)] by (cases "j \<in> A") simp_all
  then show "\<forall>j < node_count d'. settled d' j" using s(3) by (simp add: unchanged_def)
qed

lemma close_sources:
  assumes "set es \<subseteq> {..<edge_count d}"
  defines "d' \<equiv> foldl (\<lambda>d e. set_edge d e ((ed d e)\<lparr>sourceClosed := True\<rparr>)) d es"
  shows "ed d' x = (if x \<in> set es then (ed d x)\<lparr>sourceClosed := True\<rparr> else ed d x)" "d_nodes d' = d_nodes d" "nd d' j = nd d j"
    "edge_count d' = edge_count d" "history d' = history d" "edgeCapacity d' = edgeCapacity d" "buffered d' = buffered d"
    "peakBuffered d' = peakBuffered d" "exitedCount d' = exitedCount d" "d_done d' = d_done d" "hasComplete d' = hasComplete d"
proof -
  have *: "set es \<subseteq> {..<edge_count d} \<Longrightarrow> (let d' = foldl (\<lambda>d e. set_edge d e ((ed d e)\<lparr>sourceClosed := True\<rparr>)) d es in
    (\<forall>x. ed d' x = (if x \<in> set es then (ed d x)\<lparr>sourceClosed := True\<rparr> else ed d x)) \<and> d_nodes d' = d_nodes d \<and>
    edge_count d' = edge_count d \<and> history d' = history d \<and> edgeCapacity d' = edgeCapacity d \<and> buffered d' = buffered d \<and>
    peakBuffered d' = peakBuffered d \<and> exitedCount d' = exitedCount d \<and> d_done d' = d_done d \<and> hasComplete d' = hasComplete d)" for d es
    by (induction es arbitrary: d) (auto simp: Let_def)
  show "ed d' x = (if x \<in> set es then (ed d x)\<lparr>sourceClosed := True\<rparr> else ed d x)" "d_nodes d' = d_nodes d"
    "edge_count d' = edge_count d" "history d' = history d" "edgeCapacity d' = edgeCapacity d" "buffered d' = buffered d"
    "peakBuffered d' = peakBuffered d" "exitedCount d' = exitedCount d" "d_done d' = d_done d" "hasComplete d' = hasComplete d"
    using * [OF assms(1)] unfolding d'_def Let_def by blast+
  then show "nd d' j = nd d j" by (simp add: nd_def)
qed

text \<open>The producer's side is closed; its consumers are not drained yet.\<close>

definition stop_producer :: "dag \<Rightarrow> nat \<Rightarrow> dag" where
  "stop_producer d i = foldl (\<lambda>d e. set_edge d e ((ed d e)\<lparr>sourceClosed := True\<rparr>))
     (set_node d i ((nd d i)\<lparr>stdoutClosed := True, stdoutReadable := False, stdoutToken := False\<rparr>)) (outgoing (nd d i))"

lemma stop_producer_spec:
  assumes r: "at_rest lost d" and i: "i < node_count d" "\<not> stdoutClosed (nd d i)"
  shows "core (\<lambda>e. []) (stop_producer d i) \<and> linked (stop_producer d i) \<and> exits_ok (stop_producer d i) \<and>
    completion_ok lost (stop_producer d i) \<and> same_graph d (stop_producer d i) \<and>
    (\<forall>j < node_count d. j \<notin> (\<lambda>e. e_to (ed d e)) ` set (outgoing (nd d i)) \<longrightarrow> settled (stop_producer d i) j)"
proof -
  let ?m = "(nd d i)\<lparr>stdoutClosed := True, stdoutReadable := False, stdoutToken := False\<rparr>" and ?d = "stop_producer d i"
  have g: "graph_ok d" "edges_ok d" "accounted d" "flow_ok (\<lambda>e. []) d" "tokens_ok d" "\<And>i. i < node_count d \<Longrightarrow> producer_ok d i"
    using r by (simp_all add: core_def at_rest_def)
  have l: "linked d" "exits_ok d" "completion_ok lost d" "\<forall>j < node_count d. settled d j" using r by (simp_all add: at_rest_def)
  note m = graph_members(1) [OF g(1) i(1)]
  have sub: "set (outgoing (nd d i)) \<subseteq> {..<edge_count (set_node d i ?m)}" using m by auto
  note f0 = close_sources [OF sub, folded stop_producer_def]
  have f: "ed ?d x = (if x \<in> set (outgoing (nd d i)) then (ed d x)\<lparr>sourceClosed := True\<rparr> else ed d x)"
    "nd ?d j = (if j = i then ?m else nd d j)" "node_count ?d = node_count d" "edge_count ?d = edge_count d" "history ?d = history d"
    "edgeCapacity ?d = edgeCapacity d" "buffered ?d = buffered d" "peakBuffered ?d = peakBuffered d" "exitedCount ?d = exitedCount d"
    "d_done ?d = d_done d" "hasComplete ?d = hasComplete d" for x j
    using i by (simp_all add: f0)
  have ef: "e_from (ed ?d x) = e_from (ed d x)" "e_to (ed ?d x) = e_to (ed d x)" "e_buffer (ed ?d x) = e_buffer (ed d x)"
    "consumerClosed (ed ?d x) = consumerClosed (ed d x)" for x by (simp_all add: f(1))
  have nf: "incoming (nd ?d j) = incoming (nd d j)" "outgoing (nd ?d j) = outgoing (nd d j)" "n_exited (nd ?d j) = n_exited (nd d j)"
    "stdinOpen (nd ?d j) = stdinOpen (nd d j)" "stdinToken (nd ?d j) = stdinToken (nd d j)" "stdinWanted (nd ?d j) = stdinWanted (nd d j)"
    "n_stage (nd ?d j) = n_stage (nd d j)" for j by (simp_all add: f(2))
  have pr: "producerCanRead ?d j = producerCanRead d j" for j by (simp add: producerCanRead_def ef nf)
  have "graph_ok ?d" using g(1) by (simp add: graph_ok_def f(3,4) ef nf)
  moreover have "edges_ok ?d" using g(2) by (simp add: edges_ok_def f(4,6) ef)
  moreover have "accounted ?d" using g(3) by (simp add: accounted_def f(4,6,7,8) ef)
  moreover have "flow_ok (\<lambda>e. []) ?d" using g(4) by (simp add: flow_ok_def f(4,5) ef)
  moreover have "tokens_ok ?d" using g(5) by (simp add: tokens_ok_def f(2,3))
  moreover have "producer_ok ?d j" if "j < node_count d" for j using g(6) [OF that] by (simp add: producer_ok_def pr f(2))
  ultimately have "core (\<lambda>e. []) ?d" by (simp add: core_def f(3))
  moreover have "linked ?d" using l(1) m by (auto simp: linked_def ef nf f(1,2,4))
  moreover have "exits_ok ?d" using l(2) by (simp add: exits_ok_def f(3,9) nf)
  moreover have "completion_ok lost ?d" using l(3) i by (auto simp: completion_ok_def f(5,10,11) finished_def)
  moreover have "same_graph d ?d" by (simp add: same_graph_def f(3,4,6) nf ef)
  moreover have "settled ?d j" if j: "j < node_count d" "j \<notin> (\<lambda>e. e_to (ed d e)) ` set (outgoing (nd d i))" for j
  proof -
    have "ed ?d e = ed d e" if "e \<in> set (incoming (nd d j))" for e
      using that j graph_members(2) [OF g(1) j(1)] by (auto simp: f(1))
    then have "inputs_closed ?d j = inputs_closed d j" by (auto simp: inputs_closed_def nf list_all_iff)
    then show ?thesis using l(4) j(1) by (simp add: settled_def nf ef)
  qed
  ultimately show ?thesis by blast
qed

lemma closeProducer_rest:
  assumes r: "at_rest lost d" and i: "i < node_count d"
  shows "\<exists>d' ws'. closeProducer d ws i = Some (d', ws') \<and> rests lost d d'"
proof (cases "stdoutClosed (nd d i)")
  case True
  then show ?thesis using r by (simp add: closeProducer_def rests_def same_graph_refl)
next
  case False
  let ?d = "stop_producer d i" and ?is = "in_order (map (\<lambda>e. e_to (ed d e)) (outgoing (nd d i)))"
  have s: "core (\<lambda>e. []) ?d" "linked ?d" "exits_ok ?d" "completion_ok lost ?d" "same_graph d ?d"
    "\<forall>j < node_count d. j \<notin> (\<lambda>e. e_to (ed d e)) ` set (outgoing (nd d i)) \<longrightarrow> settled ?d j"
    using stop_producer_spec [OF r i False] by simp_all
  have g: "graph_ok d" "graph_ok ?d" using r s(1) by (simp_all add: at_rest_def core_def)
  have "set ?is \<subseteq> {..<node_count ?d}" using graph_members(1) [OF g(1) i] g(1) s(5) by (auto simp: graph_ok_def same_graph_def)
  then obtain d3 ws3 where 3: "drain_all ?d ws ?is = Some (d3, ws3)" "consumers_step (\<lambda>e. []) (set ?is) ?d d3"
    using drain_all_spec [OF s(1,2)] by blast
  have "\<forall>j < node_count ?d. j \<notin> set ?is \<longrightarrow> settled ?d j" using s(5,6) by (auto simp: same_graph_def)
  note dr = drained_rest [OF 3(2) g(2) this s(3,4)]
  have "at_rest lost (finishIfDone d3)" by (rule finishIfDone_rest [OF dr(1-5)])
  moreover have "same_graph d (finishIfDone d3)"
    using same_graph_trans [OF s(5) unchanged_graph [OF dr(6)]] same_graph_trans finishIfDone_graph by blast
  ultimately show ?thesis using False 3(1) by (simp add: closeProducer_def stop_producer_def rests_def Let_def)
qed

lemma log_event_result [simp]: "dag_result (log_event d ev) = dag_result d" "finished (log_event d ev) = finished d"
  by (simp_all add: dag_result_def finished_def)

lemma log_produced_rest:
  assumes "completion_ok lost d" "exits_ok d" "linked d"
  shows "completion_ok lost (log_event d (Produced i bytes))" "exits_ok (log_event d (Produced i bytes))" "linked (log_event d (Produced i bytes))"
    "completion_ok lost (log_event d (Output bytes))" "exits_ok (log_event d (Output bytes))" "linked (log_event d (Output bytes))"
  using assms by (simp_all add: completion_ok_def exits_ok_def linked_def)

lemma log_settled [simp]: "settled (log_event d ev) j = settled d j"
  by (simp add: settled_def inputs_closed_def)

text \<open>Bytes read from a producer with successors are in their buffers and those consumers are drained.\<close>

lemma copied_rest:
  assumes r: "at_rest lost d" and i: "i < node_count d" "\<not> stdoutClosed (nd d i)" and b: "length bytes \<le> read_limit d i"
  shows "\<exists>d1 d2 ws2. append_edges (log_event d (Produced i bytes)) bytes (outgoing (nd d i)) = Some d1 \<and>
    drain_all d1 ws (in_order (map (\<lambda>e. e_to (ed d e)) (active_edges d i))) = Some (d2, ws2) \<and> rests lost d d2"
proof -
  let ?d = "log_event d (Produced i bytes)" and ?is = "in_order (map (\<lambda>e. e_to (ed d e)) (active_edges d i))"
  have c: "core (\<lambda>e. []) d" "graph_ok d" "linked d" "exits_ok d" "completion_ok lost d" "\<forall>j < node_count d. settled d j"
    using r by (simp_all add: at_rest_def core_def)
  note m = graph_members(1) [OF c(2) i(1)]
  have fit: "\<forall>e \<in> set (outgoing (nd d i)). consumerClosed (ed ?d e) \<or> length bytes \<le> available (e_buffer (ed ?d e))"
    using b read_limit_facts(2) [of _ d i] by (force simp: active_edges_def)
  have sub: "distinct (outgoing (nd d i))" "set (outgoing (nd d i)) \<subseteq> {..<edge_count ?d}" using m graph_members(3) [OF c(2) i(1)] by auto
  obtain d1 where d1: "append_edges ?d bytes (outgoing (nd d i)) = Some d1" "core (\<lambda>e. []) d1" "linked d1" "unchanged ?d d1"
      "d_nodes d1 = d_nodes ?d" "\<forall>e. e \<notin> set (outgoing (nd d i)) \<or> consumerClosed (ed ?d e) \<longrightarrow> ed d1 e = ed ?d e"
    using append_edges_spec [OF produce_core [OF c(1) i(1)] log_produced_rest(3) [OF c(5,4,3)] sub fit] by blast
  have n1: "node_count d1 = node_count d" using d1(5) by simp
  have rest: "settled d1 j" if j: "j < node_count d1" "j \<notin> set ?is" for j
  proof -
    have "nd d1 j = nd d j" using d1(5) by (simp add: nd_def)
    moreover have "ed d1 e = ed d e" if "e_to (ed d e) = j" for e using that j(2) d1(6) by (auto simp: active_edges_def)
    ultimately have "same_consumer ?d d1 j" by (simp add: same_consumer_def)
    moreover have "graph_ok ?d" "settled ?d j" using c(2,6) j n1 by (simp_all add: graph_ok_def)
    ultimately show ?thesis using settled_same [OF _ _ d1(4)] j(1) n1 by simp
  qed
  have "set ?is \<subseteq> {..<node_count d1}" using m c(2) n1 by (auto simp: active_edges_def graph_ok_def)
  then obtain d2 ws2 where 2: "drain_all d1 ws ?is = Some (d2, ws2)" "consumers_step (\<lambda>e. []) (set ?is) d1 d2"
    using drain_all_spec [OF d1(2,3)] by blast
  have "graph_ok d1" "exits_ok d1" "completion_ok lost d1"
    using d1(2) unchanged_completion [OF d1(4)] log_produced_rest [OF c(5,4,3)] by (simp_all add: core_def)
  note dr = drained_rest [OF 2(2) this(1) _ this(2,3)]
  have u: "unchanged ?d d2" using unchanged_trans [OF d1(4)] dr(6) rest by blast
  then have "\<not> finished d2" using i by (auto simp: unchanged_def finished_def)
  then have "at_rest lost d2" using dr rest by (simp add: at_rest_def)
  moreover have "same_graph d d2" using unchanged_graph [OF u] by (simp add: same_graph_def)
  ultimately show ?thesis using d1(1) 2(1) by (auto simp: rests_def)
qed

lemma pause_rest:
  assumes r: "at_rest lost d" and i: "i < node_count d" "\<not> stdoutClosed (nd d i)" and b: "read_limit d i = 0"
  shows "rests lost d (setProducerReadable d i False)"
proof -
  let ?d = "setProducerReadable d i False"
  have c: "core (\<lambda>e. []) d" "linked d" using r by (simp_all add: at_rest_def)
  note u = unchanged_readable [of d i False]
  have "linked ?d" by (rule linked_after [OF c(2) u]) simp_all
  moreover have "settled ?d j = settled d j" for j by (simp add: settled_def inputs_closed_def)
  ultimately show ?thesis using r pause_core [OF c(1) i(1) full_blocks [OF c(1) i(1) b]] unchanged_completion [OF u] unchanged_graph [OF u]
    by (simp add: rests_def at_rest_def)
qed

lemma output_rest:
  assumes r: "at_rest lost d" and i: "i < node_count d" "\<not> stdoutClosed (nd d i)" "outgoing (nd d i) = []"
  shows "rests lost d (log_event (log_event d (Produced i bytes)) (Output bytes))"
proof -
  have c: "core (\<lambda>e. []) d" "linked d" "exits_ok d" "completion_ok lost d" "\<forall>j < node_count d. settled d j" using r by (simp_all add: at_rest_def)
  note l = log_produced_rest(1,2,3) [OF c(4,3,2)]
  have "\<not> finished d" using i by (auto simp: finished_def)
  then have "\<not> finished (log_event (log_event d (Produced i bytes)) (Output bytes))" by simp
  then show ?thesis using output_core [OF c(1) i(1,3)] log_produced_rest(4-6) [OF l] c(5) by (simp add: rests_def at_rest_def same_graph_def)
qed

lemma rests_trans: "rests lost d d' \<Longrightarrow> rests lost d' d'' \<Longrightarrow> rests lost d d''"
  using same_graph_trans by (auto simp: rests_def)

lemma onProducerReadable_rest:
  assumes "at_rest lost d" "i < node_count d"
  shows "\<exists>d' ws'. onProducerReadable d ws i rs = Some (d', ws') \<and> rests lost d d'"
  using assms
proof (induction rs arbitrary: d ws)
  case Nil
  consider "stdoutClosed (nd d i)" | "\<not> stdoutClosed (nd d i)" "active_edges d i \<noteq> [] \<and> read_limit d i = 0"
    | "\<not> stdoutClosed (nd d i)" "\<not> (active_edges d i \<noteq> [] \<and> read_limit d i = 0)" by blast
  then show ?case
    by cases (use Nil pause_rest [OF Nil] in \<open>auto simp: onProducerReadable.simps [of d] rests_def same_graph_refl\<close>)
next
  case (Cons a rs)
  have self: "rests lost d d" using Cons.prems(1) by (simp add: rests_def same_graph_refl)
  consider "stdoutClosed (nd d i)" | "\<not> stdoutClosed (nd d i)" "active_edges d i \<noteq> [] \<and> read_limit d i = 0"
    | "\<not> stdoutClosed (nd d i)" "\<not> (active_edges d i \<noteq> [] \<and> read_limit d i = 0)" by blast
  then show ?case
  proof cases
    case 1
    then show ?thesis using self by (simp add: onProducerReadable.simps [of d])
  next
    case 2
    then show ?thesis using pause_rest [OF Cons.prems 2(1)] by (simp add: onProducerReadable.simps [of d])
  next
    case read: 3
    note next_read = onProducerReadable.simps [of d ws i "a # rs"]
    show ?thesis
    proof (cases a)
      case (Got avail)
      define bytes where "bytes = take (read_limit d i) avail"
      have len: "length bytes \<le> read_limit d i" by (simp add: bytes_def)
      consider "bytes = []" | "bytes \<noteq> []" "outgoing (nd d i) = []" | "bytes \<noteq> []" "outgoing (nd d i) \<noteq> []" by blast
      then show ?thesis
      proof cases
        case 1
        then have "onProducerReadable d ws i (a # rs) = closeProducer d ws i"
          using next_read read Got bytes_def by (auto simp: Let_def)
        then show ?thesis using closeProducer_rest [OF Cons.prems] by simp
      next
        case 2
        let ?d = "log_event (log_event d (Produced i bytes)) (Output bytes)"
        have "onProducerReadable d ws i (a # rs) = onProducerReadable ?d ws i rs"
          using next_read read Got 2 bytes_def by (auto simp: Let_def)
        moreover have o: "rests lost d ?d" using output_rest [OF Cons.prems read(1) 2(2)] .
        moreover have "at_rest lost ?d" "i < node_count ?d" using o Cons.prems by (simp_all add: rests_def)
        ultimately show ?thesis using Cons.IH [of ?d ws] rests_trans [OF o] by auto
      next
        case 3
        obtain d1 d2 ws2 where d2: "append_edges (log_event d (Produced i bytes)) bytes (outgoing (nd d i)) = Some d1"
            "drain_all d1 ws (in_order (map (\<lambda>e. e_to (ed d e)) (active_edges d i))) = Some (d2, ws2)" "rests lost d d2"
          using copied_rest [OF Cons.prems read(1) len] by blast
        have "onProducerReadable d ws i (a # rs) = onProducerReadable d2 ws2 i rs"
          using next_read read Got 3 d2(1,2) bytes_def by (auto simp: Let_def)
        moreover have "at_rest lost d2" "i < node_count d2" using d2(3) Cons.prems by (simp_all add: rests_def same_graph_def)
        ultimately show ?thesis using Cons.IH [of d2 ws2] rests_trans [OF d2(3)] by auto
      qed
    next
      case ReadBlocks
      then show ?thesis using self next_read read by auto
    next
      case ReadFails
      then show ?thesis using closeProducer_rest [OF Cons.prems] next_read read by auto
    qed
  qed
qed

lemma drainConsumer_rest:
  assumes r: "at_rest lost d" and i: "i < node_count d"
  shows "\<exists>d' ws'. drainConsumer d ws i = Some (d', ws') \<and> rests lost d d'"
proof -
  have c: "core (\<lambda>e. []) d" "linked d" "graph_ok d" "exits_ok d" "completion_ok lost d" "\<forall>j < node_count d. settled d j"
    using r by (simp_all add: at_rest_def core_def)
  obtain d' ws' where d': "drainConsumer d ws i = Some (d', ws')" "consumer_step (\<lambda>e. []) i d d'" "settled d' i"
    using drainConsumer_spec [OF c(1,2) i] by blast
  then have "consumers_step (\<lambda>e. []) {i} d d'" by (simp add: consumers_step_def consumer_step_def)
  note dr = drained_rest [OF this c(3) _ c(4,5)]
  have u: "unchanged d d'" using dr(6) c(6) by blast
  then have "finished d' \<longrightarrow> d_done d'" using r unchanged_completion(3) [OF u] by (simp add: at_rest_def unchanged_def)
  then have "at_rest lost d'" using dr c(6) by (simp add: at_rest_def)
  then show ?thesis using d'(1) unchanged_graph [OF u] by (simp add: rests_def)
qed

lemma onChildExit_rest:
  assumes r: "at_rest lost d" and i: "i < node_count d"
  shows "rests lost d (onChildExit d i answer)"
proof (cases "n_exited (nd d i)")
  case True
  then show ?thesis using r by (simp add: onChildExit_def rests_def same_graph_refl)
next
  case False
  define m where "m = (nd d i)\<lparr>childWatched := False,
      n_exitCode := toExitCode (case answer of None \<Rightarrow> \<lparr>ws_exited = True, ws_code = 1\<rparr> | Some s \<Rightarrow> s), n_exited := True\<rparr>"
  let ?d = "(set_node d i m)\<lparr>exitedCount := exitedCount d + 1\<rparr>"
  have oc: "onChildExit d i answer = finishIfDone (closeConsumer ?d i)" using False by (simp add: onChildExit_def m_def Let_def)
  have c: "core (\<lambda>e. []) d" "linked d" "exits_ok d" "completion_ok lost d" "\<forall>j < node_count d. settled d j" using r by (simp_all add: at_rest_def)
  have nf: "nd ?d j = (if j = i then m else nd d j)" "ed ?d e = ed d e" for j e using i by simp_all
  have c1: "core (\<lambda>e. []) ?d" by (rule same_edges_core_readable [OF _ c(1)]) (simp_all add: same_edges_def alike_def nf m_def)
  have l1: "linked ?d" using c(2) by (simp add: linked_def nf m_def)
  have "incoming (nd ?d j) = incoming (nd d j)" "stdinOpen (nd ?d j) = stdinOpen (nd d j)" "stdinWanted (nd ?d j) = stdinWanted (nd d j)" for j
    by (simp_all add: nf m_def)
  then have s1: "settled ?d j = settled d j" for j unfolding settled_def inputs_closed_def nf(2) by presburger
  have "{j. j < node_count ?d \<and> n_exited (nd ?d j)} = insert i {j. j < node_count d \<and> n_exited (nd d j)}" using i by (auto simp: nf m_def)
  then have x1: "exits_ok ?d" using c(3) False by (simp add: exits_ok_def)
  have "\<not> finished d" using False i by (auto simp: finished_def)
  then have k1: "completion_ok lost ?d" using c(4) by (auto simp: completion_ok_def)
  have i1: "i < node_count ?d" and g1: "graph_ok ?d" using i c1 by (simp_all add: core_def)
  have "consumers_step (\<lambda>e. []) {i} ?d (closeConsumer ?d i)"
    using consumer_step_close [OF c1 l1 i1] by (simp add: consumers_step_def consumer_step_def)
  note dr = drained_rest [OF this g1 _ x1 k1]
  have "at_rest lost (onChildExit d i answer)" unfolding oc by (rule finishIfDone_rest) (use dr c(5) s1 in auto)
  moreover have "same_graph d ?d" by (simp add: same_graph_def nf m_def)
  then have "same_graph d (onChildExit d i answer)" unfolding oc
    using same_graph_trans finishIfDone_graph unchanged_graph [OF dr(6)] c(5) s1 by fastforce
  ultimately show ?thesis by (simp add: rests_def)
qed

text \<open>What cancellation needs of the state; it may also hit a half-built run.\<close>

definition sound :: "dag \<Rightarrow> bool" where
  "sound d \<longleftrightarrow> graph_ok d \<and> edges_ok d \<and> flow_ok (\<lambda>e. []) d \<and> peakBuffered d \<le> edge_count d * edgeCapacity d \<and>
     (completions (history d) = [] \<or> completions (history d) = [dag_result d])"

lemma rest_sound: "at_rest lost d \<Longrightarrow> sound d"
  by (auto simp: at_rest_def sound_def core_def accounted_def completion_ok_def split: if_splits)

lemma abortRun_rest:
  assumes "sound d"
  shows "rests True d (abortRun d)"
proof -
  let ?d = "abortRun d"
  have s: "graph_ok d" "edges_ok d" "flow_ok (\<lambda>e. []) d" "peakBuffered d \<le> edge_count d * edgeCapacity d"
    "completions (history d) = [] \<or> completions (history d) = [dag_result d]" using assms by (simp_all add: sound_def)
  have c: "node_count ?d = node_count d" "edge_count ?d = edge_count d" "history ?d = history d" "edgeCapacity ?d = edgeCapacity d"
    "peakBuffered ?d = peakBuffered d" "buffered ?d = 0" "exitedCount ?d = node_count d" "d_done ?d" "\<not> hasComplete ?d"
    by (simp_all add: abortRun_def)
  have nf: "incoming (nd ?d j) = incoming (nd d j)" "outgoing (nd ?d j) = outgoing (nd d j)" "n_exited (nd ?d j)" "stdoutClosed (nd ?d j)"
    "\<not> stdoutToken (nd ?d j)" "\<not> stdinToken (nd ?d j)" "\<not> stdinOpen (nd ?d j)" "n_stage (nd ?d j) = n_stage (nd d j)"
    "n_exitCode (nd ?d j) = n_exitCode (nd d j)"
    if "j < node_count d" for j using that by (simp_all add: abortRun_def nd_def)
  have ef: "ed ?d e = (ed d e)\<lparr>e_buffer := bb_clear (e_buffer (ed d e)), sourceClosed := True, consumerClosed := True\<rparr>"
    if "e < edge_count d" for e using that by (simp add: abortRun_def ed_def)
  have ends: "e_from (ed d e) < node_count d" "e_to (ed d e) < node_count d" if "e < edge_count d" for e using s(1) that by (simp_all add: graph_ok_def)
  have "graph_ok ?d" using s(1) by (auto simp: graph_ok_def c nf ef intro!: filter_cong)
  moreover have "edges_ok ?d" using s(2) by (simp add: edges_ok_def c ef)
  moreover have "accounted ?d" using s(4) by (simp add: accounted_def c ef)
  moreover have "flow_ok (\<lambda>e. []) ?d" using s(3) by (fastforce simp: flow_ok_def c ef split: if_splits)
  moreover have "tokens_ok ?d" by (simp add: tokens_ok_def c nf)
  moreover have "producer_ok ?d j" if "j < node_count d" for j using that by (simp add: producer_ok_def nf)
  ultimately have "core (\<lambda>e. []) ?d" by (simp add: core_def c)
  moreover have "linked ?d" using ends by (simp add: linked_def c nf ef)
  moreover have "\<forall>j < node_count ?d. settled ?d j" by (simp add: settled_def c nf)
  moreover have "{i. i < node_count d \<and> n_exited (nd ?d i)} = {..<node_count d}" using nf by auto
  then have "exits_ok ?d" by (simp add: exits_ok_def c)
  moreover have "map (\<lambda>i. n_exitCode (nd ?d i)) [0..<node_count d] = map (\<lambda>i. n_exitCode (nd d i)) [0..<node_count d]"
    "map (\<lambda>i. stage_id (n_stage (nd ?d i))) [0..<node_count d] = map (\<lambda>i. stage_id (n_stage (nd d i))) [0..<node_count d]"
    by (simp_all add: nf)
  then have "dag_result ?d = dag_result d" by (simp only: dag_result_nd c)
  then have "completion_ok True ?d" using s(5) by (auto simp: completion_ok_def c finished_def nf)
  ultimately have "at_rest True ?d" using c by (simp add: at_rest_def)
  moreover have "same_graph d ?d" by (simp add: same_graph_def c nf ef)
  ultimately show ?thesis by (simp add: rests_def)
qed

subsection \<open>Starting\<close>

lemma at_rest_mono: "at_rest False d \<Longrightarrow> at_rest lost d"
  by (auto simp: at_rest_def completion_ok_def)

lemma watch_children_rest:
  assumes "at_rest False d" "i + length as \<le> node_count d" "watch_children d i as = (d', r)"
  shows "rests (isl r) d d'"
  using assms
proof (induction as arbitrary: d i)
  case Nil
  then show ?case by (simp add: rests_def same_graph_refl at_rest_mono)
next
  case (Cons a as)
  show ?case
  proof (cases a)
    case Watched
    let ?d = "set_node d i ((nd d i)\<lparr>childWatched := True\<rparr>)"
    have nf: "nd ?d j = (if j = i then (nd d i)\<lparr>childWatched := True\<rparr> else nd d j)" for j using Cons.prems(2) by simp
    have u: "unchanged d ?d" by (simp add: unchanged_def nf)
    have "core (\<lambda>e. []) d" using Cons.prems(1) by (simp add: at_rest_def)
    then have "core (\<lambda>e. []) ?d" by (rule same_edges_core_readable [rotated]) (simp_all add: same_edges_def alike_def nf)
    moreover have "linked ?d" using Cons.prems(1) by (simp add: linked_def nf at_rest_def)
    moreover have "settled ?d j" if "j < node_count d" for j
      by (rule settled_same [OF _ _ u]) (use that Cons.prems(1) in \<open>simp_all add: same_consumer_def nf at_rest_def core_def\<close>)
    ultimately have "rests False d ?d"
      using Cons.prems(1) unchanged_completion [OF u] unchanged_graph [OF u] by (simp add: rests_def at_rest_def)
    moreover have "watch_children ?d (i + 1) as = (d', r)" using Cons.prems(3) Watched by simp
    ultimately show ?thesis using Cons.IH [of ?d "i + 1"] Cons.prems(2) same_graph_trans by (auto simp: rests_def same_graph_def)
  next
    case (Gone status)
    let ?d = "onChildExit d i status"
    have "rests False d ?d" using onChildExit_rest [OF Cons.prems(1)] Cons.prems(2) by simp
    moreover have "watch_children ?d (i + 1) as = (d', r)" using Cons.prems(3) Gone by simp
    ultimately show ?thesis using Cons.IH [of ?d "i + 1"] Cons.prems(2) by (auto simp: rests_def same_graph_def)
  next
    case (WatchFails e)
    then have "d' = abortRun d" "isl r" using Cons.prems(3) by auto
    then show ?thesis using abortRun_rest [OF rest_sound [OF Cons.prems(1)]] by simp
  qed
qed

lemma position_spec:
  assumes "x \<in> set order"
  shows "position order x < length order" "order ! position order x = x"
proof -
  show p: "position order x < length order" unfolding position_def using assms
    by (induction order) auto
  then show "order ! position order x = x" using nth_length_takeWhile [of "\<lambda>y. y \<noteq> x" order] by (simp add: position_def)
qed

lemma set_edge_pairs: "set (edge_pairs order es) = (\<lambda>e. (position order (efrom e), position order (eto e))) ` set es" (is "_ = ?f ` _")
proof -
  have "set (foldl (\<lambda>pairs e. let pair = ?f e in if pair \<in> set pairs then pairs else pairs @ [pair]) acc es) = set acc \<union> ?f ` set es" for acc
  proof (induction es arbitrary: acc)
    case (Cons e es)
    show ?case unfolding foldl_Cons Cons.IH by (auto simp: Let_def)
  qed simp
  from this [of "[]"] show ?thesis by (simp add: edge_pairs_def)
qed

lemma distinct_edge_pairs: "distinct (edge_pairs order es)"
proof -
  have "distinct acc \<Longrightarrow> distinct (foldl (\<lambda>pairs e. let pair = f e in if pair \<in> set pairs then pairs else pairs @ [pair]) acc es)"
    for acc :: "(nat \<times> nat) list" and f :: "edge \<Rightarrow> nat \<times> nat"
    by (induction es arbitrary: acc) (simp_all add: Let_def)
  then show ?thesis by (simp add: edge_pairs_def)
qed

lemma stage_named_id: "x \<in> set (ids p) \<Longrightarrow> stage_id (stage_named p x) = x"
proof -
  assume "x \<in> set (ids p)"
  then obtain s where "find (\<lambda>s. stage_id s = x) (stages p) = Some s"
    by (cases "find (\<lambda>s. stage_id s = x) (stages p)") (auto simp: find_None_iff ids_def)
  moreover from this have "stage_id s = x" by (auto simp: find_Some_iff)
  ultimately show ?thesis by (simp add: stage_named_def)
qed

text \<open>The run that \<open>run\<close> has built, and with the descriptors in place.\<close>

definition built :: "nat \<Rightarrow> pipeline \<Rightarrow> string list \<Rightarrow> dag" where
  "built cap p order = build_graph ((DagRunner cap)\<lparr>d_started := True, hasComplete := True\<rparr>) p order"

definition opened :: "nat \<Rightarrow> pipeline \<Rightarrow> string list \<Rightarrow> dag" where
  "opened cap p order = (built cap p order)\<lparr>d_nodes := map open_node (d_nodes (built cap p order))\<rparr>"

lemma built_simps:
  "node_count (built cap p order) = length order" "edge_count (built cap p order) = length (edge_pairs order (edges p))"
  "i < length order \<Longrightarrow> nd (built cap p order) i = (new_node (stage_named p (order ! i)))\<lparr>
      incoming := filter (\<lambda>e. snd (edge_pairs order (edges p) ! e) = i) [0..<length (edge_pairs order (edges p))],
      outgoing := filter (\<lambda>e. fst (edge_pairs order (edges p) ! e) = i) [0..<length (edge_pairs order (edges p))]\<rparr>"
  "e < length (edge_pairs order (edges p)) \<Longrightarrow>
     ed (built cap p order) e = new_edge (fst (edge_pairs order (edges p) ! e)) (snd (edge_pairs order (edges p) ! e)) cap"
  "edgeCapacity (built cap p order) = cap" "history (built cap p order) = []" "buffered (built cap p order) = 0"
  "peakBuffered (built cap p order) = 0" "exitedCount (built cap p order) = 0" "\<not> d_done (built cap p order)" "hasComplete (built cap p order)"
  by (simp_all add: built_def build_graph_def DagRunner_def nd_def ed_def Let_def split_beta)

lemma opened_simps:
  "node_count (opened cap p order) = length order" "edge_count (opened cap p order) = length (edge_pairs order (edges p))"
  "i < length order \<Longrightarrow> nd (opened cap p order) i = open_node (nd (built cap p order) i)"
  "ed (opened cap p order) e = ed (built cap p order) e"
  "edgeCapacity (opened cap p order) = cap" "history (opened cap p order) = []" "buffered (opened cap p order) = 0"
  "peakBuffered (opened cap p order) = 0" "exitedCount (opened cap p order) = 0" "\<not> d_done (opened cap p order)" "hasComplete (opened cap p order)"
  by (simp_all add: opened_def built_simps nd_def ed_def)

lemma fresh_buffer [simp]:
  "bb_size (BoundedBuffer cap pol) = 0" "policy (BoundedBuffer cap pol) = pol" "capacity (BoundedBuffer cap pol) = cap" "bb_empty (BoundedBuffer cap pol)"
  by (simp_all add: BoundedBuffer_def bb_empty_def)

text \<open>What the planner gives: positions in range.\<close>

definition plannable :: "pipeline \<Rightarrow> string list \<Rightarrow> bool" where
  "plannable p order \<longleftrightarrow> order \<noteq> [] \<and> (\<forall>(a, b) \<in> set (edge_pairs order (edges p)). a < length order \<and> b < length order) \<and>
     (\<forall>i < length order. stage_id (stage_named p (order ! i)) = order ! i)"

lemma planned: "plan p = Some (Inr order) \<Longrightarrow> plannable p order"
proof -
  assume "plan p = Some (Inr order)"
  then have w: "well_formed p" "set order = set (ids p)" using plan_ok [of p] by (auto simp: plan_spec_def)
  then have "order \<noteq> []" by (auto simp: well_formed_def ids_def)
  moreover have "(a, b) \<in> set (edge_pairs order (edges p)) \<Longrightarrow> a < length order \<and> b < length order" for a b
    using w position_spec(1) by (auto simp: set_edge_pairs well_formed_def)
  moreover have "stage_id (stage_named p (order ! i)) = order ! i" if "i < length order" for i
    using w(2) that by (intro stage_named_id) (metis nth_mem)
  ultimately show ?thesis by (auto simp: plannable_def)
qed

lemma edge_pair_range:
  assumes "plannable p order" "e < length (edge_pairs order (edges p))"
  shows "fst (edge_pairs order (edges p) ! e) < length order" "snd (edge_pairs order (edges p) ! e) < length order"
  using assms nth_mem [OF assms(2)] by (auto simp: plannable_def split_beta)

lemma new_fields [simp]:
  "e_from (new_edge a b c) = a" "e_to (new_edge a b c) = b" "e_buffer (new_edge a b c) = BoundedBuffer c Block"
  "\<not> sourceClosed (new_edge a b c)" "\<not> consumerClosed (new_edge a b c)"
  "n_stage (new_node s) = s" "\<not> stdoutClosed (new_node s)" "stdoutReadable (new_node s)" "\<not> n_exited (new_node s)"
  "incoming (open_node n) = incoming n" "outgoing (open_node n) = outgoing n" "n_stage (open_node n) = n_stage n"
  "stdoutClosed (open_node n) = stdoutClosed n" "stdoutReadable (open_node n) = stdoutReadable n" "n_exited (open_node n) = n_exited n"
  "stdoutToken (open_node n)" "stdinOpen (open_node n) = (incoming n \<noteq> [])" "stdinToken (open_node n) = (incoming n \<noteq> [])"
  by (simp_all add: new_edge_def new_node_def open_node_def)

lemma built_sound:
  assumes p: "plannable p order" and c: "0 < cap"
  shows "sound (built cap p order)"
proof -
  have "graph_ok (built cap p order)" using edge_pair_range [OF p] by (auto simp: graph_ok_def built_simps intro!: filter_cong)
  moreover have "edges_ok (built cap p order)" using c by (simp add: edges_ok_def built_simps)
  ultimately show ?thesis by (simp add: sound_def flow_ok_def built_simps)
qed

lemma opened_rest:
  assumes p: "plannable p order" and c: "0 < cap"
  shows "at_rest False (opened cap p order)"
proof -
  let ?d = "opened cap p order"
  note s = opened_simps built_simps
  have g: "graph_ok ?d" using edge_pair_range [OF p] by (auto simp: graph_ok_def s intro!: filter_cong)
  have k: "edges_ok ?d" using c by (simp add: edges_ok_def s)
  have t: "accounted ?d" "flow_ok (\<lambda>e. []) ?d" "tokens_ok ?d" by (simp_all add: accounted_def flow_ok_def tokens_ok_def s)
  have nf: "stdinOpen (nd ?d i) = (incoming (nd ?d i) \<noteq> [])" "\<not> stdoutClosed (nd ?d i)" if "i < length order" for i
    using that by (simp_all add: s)
  have "core (\<lambda>e. []) ?d" using g k t by (simp add: core_def producer_ok_def s)
  moreover have "linked ?d"
    unfolding linked_def
  proof (intro allI impI)
    fix e assume e: "e < edge_count ?d"
    then have "e_to (ed ?d e) < length order" "e_from (ed ?d e) < length order" "e \<in> set (incoming (nd ?d (e_to (ed ?d e))))"
      using edge_pair_range [OF p] g by (auto simp: graph_ok_def s)
    then have "stdinOpen (nd ?d (e_to (ed ?d e)))" "\<not> stdoutClosed (nd ?d (e_from (ed ?d e)))" 
      using nf [of "e_to (ed ?d e)"] nf [of "e_from (ed ?d e)"] by auto
    then show "consumerClosed (ed ?d e) = (\<not> stdinOpen (nd ?d (e_to (ed ?d e)))) \<and> sourceClosed (ed ?d e) = stdoutClosed (nd ?d (e_from (ed ?d e)))"
      using e by (simp add: s)
  qed
  moreover have "settled ?d j" if j: "j < length order" for j
  proof -
    have "bb_empty (e_buffer (ed ?d e)) \<and> \<not> sourceClosed (ed ?d e) \<and> \<not> consumerClosed (ed ?d e)" if "e \<in> set (incoming (nd ?d j))" for e
      using that j by (auto simp: s)
    then show ?thesis using j by (cases "incoming (nd ?d j)") (auto simp: settled_def inputs_closed_def opened_simps)
  qed
  moreover have "\<not> finished ?d" using p by (auto simp: finished_def plannable_def s)
  moreover have "exits_ok ?d" by (simp add: exits_ok_def s cong: conj_cong)
  ultimately show ?thesis by (simp add: at_rest_def completion_ok_def s)
qed

text \<open>The graph of a state is the one of the pipeline in the planned order.\<close>

definition runs_plan :: "dag \<Rightarrow> nat \<Rightarrow> pipeline \<Rightarrow> string list \<Rightarrow> bool" where
  "runs_plan d cap p order \<longleftrightarrow> plan p = Some (Inr order) \<and> edgeCapacity d = cap \<and> map (\<lambda>n. stage_id (n_stage n)) (d_nodes d) = order \<and>
     map (\<lambda>s. (e_from s, e_to s)) (d_edges d) = edge_pairs order (edges p)"

lemma runs_plan_graph:
  assumes "same_graph d d'" "runs_plan d cap p order"
  shows "runs_plan d' cap p order"
proof -
  have "map (\<lambda>n. stage_id (n_stage n)) (d_nodes d') = map (\<lambda>n. stage_id (n_stage n)) (d_nodes d)"
    using assms(1) by (intro nth_equalityI) (auto simp: same_graph_def nd_def)
  moreover have "map (\<lambda>s. (e_from s, e_to s)) (d_edges d') = map (\<lambda>s. (e_from s, e_to s)) (d_edges d)"
    using assms(1) by (intro nth_equalityI) (auto simp: same_graph_def ed_def)
  ultimately show ?thesis using assms by (simp add: runs_plan_def same_graph_def)
qed

lemma built_plan:
  assumes "plan p = Some (Inr order)"
  shows "runs_plan (built cap p order) cap p order"
proof -
  have "map (\<lambda>n. stage_id (n_stage n)) (d_nodes (built cap p order)) = order"
    unfolding map_nodes using planned [OF assms] by (intro nth_equalityI) (auto simp: built_simps plannable_def)
  moreover have "map (\<lambda>s. (e_from s, e_to s)) (d_edges (built cap p order)) = edge_pairs order (edges p)"
    by (intro nth_equalityI) (auto simp: built_simps simp flip: ed_def)
  ultimately show ?thesis using assms by (simp add: runs_plan_def built_simps)
qed

lemma opened_graph: "same_graph (built cap p order) (opened cap p order)"
  by (simp add: same_graph_def opened_simps built_simps)

lemma dag_run_rest:
  assumes run: "dag_run (DagRunner cap) p setup answers = Some (d, r)" and started: "d_started d"
  shows "\<exists>order. at_rest (isl r) d \<and> runs_plan d cap p order"
proof -
  have "\<not> d_started (DagRunner cap)" "edgeCapacity (DagRunner cap) = cap" by (simp_all add: DagRunner_def)
  moreover obtain q where q: "plan p = Some q" using plan_ok [of p] by blast
  ultimately obtain order where o: "plan p = Some (Inr order)" "0 < cap" and
    c: "setup = None \<Longrightarrow> (d, r) = watch_children (opened cap p order) 0 (map answers [0..<length order])"
      "\<And>e. setup = Some e \<Longrightarrow> d = abortRun (built cap p order) \<and> r = Inl e"
    using run started
    by (cases q; cases "setup") (auto simp: dag_run_def built_def opened_def Let_def split: if_splits option.splits)
  note pl = planned [OF o(1)]
  show ?thesis
  proof (cases "setup")
    case None
    have "rests (isl r) (opened cap p order) d"
      by (rule watch_children_rest [OF opened_rest [OF pl o(2)] _ c(1) [OF None, symmetric]]) (simp add: opened_simps)
    moreover from this have "runs_plan d cap p order"
      by (intro runs_plan_graph [OF _ runs_plan_graph [OF opened_graph built_plan [OF o(1)]]]) (simp add: rests_def)
    ultimately show ?thesis by (auto simp: rests_def)
  next
    case (Some e)
    then show ?thesis using c(2) [OF Some] abortRun_rest [OF built_sound [OF pl o(2)]] runs_plan_graph [OF _ built_plan [OF o(1)]]
      by (auto simp: rests_def)
  qed
qed

subsection \<open>Sequences of callbacks\<close>

text \<open>The calls of the reactor with the answers of the system calls made inside; an unregistered callback is not called.\<close>

datatype dag_call =
    ProducerReady nat "read_answer list" writes
  | ConsumerReady nat "write_answer list"
  | ChildExit nat "wait_status option"
  | CancelRun

definition dag_callback :: "dag \<Rightarrow> dag_call \<Rightarrow> dag option" where
  "dag_callback d c =
     (case c of
        ProducerReady i rs ws \<Rightarrow>
          if i < node_count d \<and> stdoutToken (nd d i) then map_option fst (onProducerReadable d ws i rs) else Some d
      | ConsumerReady i answers \<Rightarrow>
          if i < node_count d \<and> stdinToken (nd d i) then map_option fst (drainConsumer d ((\<lambda>_. [])(i := answers)) i) else Some d
      | ChildExit i answer \<Rightarrow> if i < node_count d \<and> childWatched (nd d i) then Some (onChildExit d i answer) else Some d
      | CancelRun \<Rightarrow> Some (dag_cancel d))"

fun dag_events :: "dag \<Rightarrow> dag_call list \<Rightarrow> dag option" where
  "dag_events d [] = Some d"
| "dag_events d (c # cs) = do { d' \<leftarrow> dag_callback d c; dag_events d' cs }"

lemma lost_mono: "at_rest lost d \<Longrightarrow> at_rest True d"
  by (auto simp: at_rest_def completion_ok_def)

lemma dag_callback_rest:
  assumes r: "at_rest lost d"
  shows "\<exists>d'. dag_callback d c = Some d' \<and> rests (lost \<or> c = CancelRun) d d'"
proof -
  have self: "rests lost d d" "rests True d d" using r lost_mono [OF r] by (simp_all add: rests_def same_graph_refl)
  show ?thesis
  proof (cases c)
    case (ProducerReady i rs ws)
    show ?thesis
    proof (cases "i < node_count d \<and> stdoutToken (nd d i)")
      case True
      then obtain d' ws' where "onProducerReadable d ws i rs = Some (d', ws')" "rests lost d d'"
        using onProducerReadable_rest [OF r, of i ws rs] by blast
      then show ?thesis using ProducerReady True by (simp add: dag_callback_def)
    qed (use self ProducerReady in \<open>auto simp: dag_callback_def\<close>)
  next
    case (ConsumerReady i answers)
    show ?thesis
    proof (cases "i < node_count d \<and> stdinToken (nd d i)")
      case True
      then obtain d' ws' where "drainConsumer d ((\<lambda>_. [])(i := answers)) i = Some (d', ws')" "rests lost d d'"
        using drainConsumer_rest [OF r, of i "(\<lambda>_. [])(i := answers)"] by blast
      then show ?thesis using ConsumerReady True by (simp add: dag_callback_def)
    qed (use self ConsumerReady in \<open>auto simp: dag_callback_def\<close>)
  next
    case (ChildExit i answer)
    then show ?thesis using self onChildExit_rest [OF r] by (auto simp: dag_callback_def)
  next
    case CancelRun
    then show ?thesis using self abortRun_rest [OF rest_sound [OF r]] by (simp add: dag_callback_def dag_cancel_def)
  qed
qed

lemma dag_events_rest:
  assumes "at_rest lost d"
  shows "\<exists>d'. dag_events d cs = Some d' \<and> rests (lost \<or> CancelRun \<in> set cs) d d'"
  using assms
proof (induction cs arbitrary: d lost)
  case Nil
  then show ?case by (simp add: rests_def same_graph_refl)
next
  case (Cons c cs)
  obtain d1 where d1: "dag_callback d c = Some d1" "rests (lost \<or> c = CancelRun) d d1" using dag_callback_rest [OF Cons.prems] by blast
  then obtain d2 where "dag_events d1 cs = Some d2" "rests (lost \<or> c = CancelRun \<or> CancelRun \<in> set cs) d1 d2"
    using Cons.IH [of "lost \<or> c = CancelRun" d1] by (auto simp: rests_def)
  moreover from this have "same_graph d d2" using d1 same_graph_trans by (auto simp: rests_def)
  ultimately show ?case using d1(1) by (simp add: rests_def eq_commute [of CancelRun c])
qed

lemma dag_reaches:
  assumes "dag_run (DagRunner cap) p setup answers = Some (d, r)" "d_started d"
  shows "\<exists>d' order. dag_events d cs = Some d' \<and> at_rest (isl r \<or> CancelRun \<in> set cs) d' \<and> runs_plan d' cap p order"
  using dag_run_rest [OF assms] dag_events_rest [of "isl r" d cs] runs_plan_graph unfolding rests_def by blast

text \<open>The last failing stage in topological order gives the exit code.\<close>

lemma last_failure_spec: "last_failure codes = (if \<forall>c \<in> set codes. c = 0 then 0 else last (filter (\<lambda>c. c \<noteq> 0) codes))"
  unfolding last_failure_def by (induction codes rule: rev_induct) auto

lemma settled_waits:
  assumes r: "at_rest lost d" and e: "e < edge_count d" "\<not> bb_empty (e_buffer (ed d e))"
  shows "stdinOpen (nd d (e_to (ed d e)))" "stdinWanted (nd d (e_to (ed d e)))"
proof -
  have c: "graph_ok d" "edges_ok d" "linked d" "\<forall>j < node_count d. settled d j" using r by (simp_all add: at_rest_def core_def)
  have "\<not> consumerClosed (ed d e)" using c(2) e by (auto simp: edges_ok_def bb_empty_def simp flip: length_content)
  then show o: "stdinOpen (nd d (e_to (ed d e)))" using c(3) e(1) by (simp add: linked_def)
  have "e_to (ed d e) < node_count d" using c(1) e(1) by (simp add: graph_ok_def)
  moreover from this have "e \<in> set (incoming (nd d (e_to (ed d e))))" using graph_members(2) [OF c(1)] e(1) by simp
  then have "\<exists>f \<in> set (incoming (nd d (e_to (ed d e)))). \<not> bb_empty (e_buffer (ed d f))" using e(2) by blast
  ultimately show "stdinWanted (nd d (e_to (ed d e)))" using c(4) o by (simp add: settled_def)
qed

lemma paused_waits:
  assumes r: "at_rest lost d" and i: "i < node_count d" "\<not> stdoutClosed (nd d i)" "\<not> stdoutReadable (nd d i)"
  shows "\<exists>e < edge_count d. e_from (ed d e) = i \<and> bb_full (e_buffer (ed d e)) \<and> stdinOpen (nd d (e_to (ed d e))) \<and> stdinWanted (nd d (e_to (ed d e)))"
proof -
  have c: "graph_ok d" "edges_ok d" "producer_ok d i" using r i(1) by (simp_all add: at_rest_def core_def)
  then obtain e where e: "e \<in> set (outgoing (nd d i))" "bb_full (e_buffer (ed d e))"
    using i by (auto simp: producer_ok_def producerCanRead_def list_all_iff)
  then have f: "e < edge_count d" "e_from (ed d e) = i" using graph_members(1) [OF c(1) i(1)] by simp_all
  then have "\<not> bb_empty (e_buffer (ed d e))" using c(2) e(2) by (auto simp: edges_ok_def bb_full_def bb_empty_def)
  then show ?thesis using f e(2) settled_waits [OF r f(1)] by blast
qed

lemma ended_closes:
  assumes r: "at_rest lost d" and j: "j < node_count d"
    "\<forall>e < edge_count d. e_to (ed d e) = j \<longrightarrow> stdoutClosed (nd d (e_from (ed d e))) \<and> bb_empty (e_buffer (ed d e))"
  shows "\<not> stdinOpen (nd d j)"
proof -
  have c: "graph_ok d" "linked d" "settled d j" using r j(1) by (simp_all add: at_rest_def core_def)
  then have "inputs_closed d j" "\<forall>e \<in> set (incoming (nd d j)). bb_empty (e_buffer (ed d e))"
    using j graph_members(2) [OF c(1) j(1)] by (auto simp: inputs_closed_def list_all_iff linked_def)
  then show ?thesis using c(3) by (auto simp: settled_def)
qed

subsection \<open>Properties\<close>

text \<open>
  C6: in a run of a pipeline of local stages, whatever the reactor reports in whatever order and whatever the reads,
  writes and waits answer, the runner works on; what a consumer got over an edge is, in order and without loss, the front
  of what the producer wrote, the rest is in the buffer of the edge while the consumer is there, and the buffers
  together hold what is accounted and never more than the capacity for each edge.
\<close>

theorem dag_safe:
  assumes "dag_run (DagRunner cap) p setup answers = Some (d, r)" "d_started d"
  shows "\<exists>d'. dag_events d calls = Some d' \<and>
    (\<forall>e < edge_count d'. prefix (delivered (history d') e) (produced (history d') (e_from (ed d' e)))) \<and>
    (\<forall>e < edge_count d'. \<not> consumerClosed (ed d' e) \<longrightarrow>
       produced (history d') (e_from (ed d' e)) = delivered (history d') e @ content (e_buffer (ed d' e))) \<and>
    buffered d' = (\<Sum>e < edge_count d'. bb_size (e_buffer (ed d' e))) \<and> buffered d' \<le> peakBuffered d' \<and>
    peakBuffered d' \<le> edge_count d' * cap"
proof -
  obtain d' order where d': "dag_events d calls = Some d'" "at_rest (isl r \<or> CancelRun \<in> set calls) d'" "runs_plan d' cap p order"
    using dag_reaches [OF assms] by blast
  then have "flow_ok (\<lambda>e. []) d'" "accounted d'" "edgeCapacity d' = cap" by (simp_all add: at_rest_def core_def runs_plan_def)
  moreover from this have "prefix (delivered (history d') e) (produced (history d') (e_from (ed d' e)))" if "e < edge_count d'" for e
    using that by (cases "consumerClosed (ed d' e)") (auto simp: flow_ok_def)
  ultimately show ?thesis using d'(1) by (simp add: flow_ok_def accounted_def)
qed

text \<open>
  C7: between two callbacks nothing is stuck: a producer that is not read has a full edge whose consumer is watched for
  writability, buffered data always waits for a watched consumer, and a consumer whose producers have all ended and
  whose buffers are empty sees the end of its input.
\<close>

theorem dag_never_stalls:
  assumes "dag_run (DagRunner cap) p setup answers = Some (d, r)" "d_started d"
  shows "\<exists>d'. dag_events d calls = Some d' \<and>
    (\<forall>i < node_count d'. \<not> stdoutClosed (nd d' i) \<and> \<not> stdoutReadable (nd d' i) \<longrightarrow>
       (\<exists>e < edge_count d'. e_from (ed d' e) = i \<and> bb_full (e_buffer (ed d' e)) \<and>
          stdinOpen (nd d' (e_to (ed d' e))) \<and> stdinWanted (nd d' (e_to (ed d' e))))) \<and>
    (\<forall>e < edge_count d'. \<not> bb_empty (e_buffer (ed d' e)) \<longrightarrow>
       stdinOpen (nd d' (e_to (ed d' e))) \<and> stdinWanted (nd d' (e_to (ed d' e)))) \<and>
    (\<forall>j < node_count d'. (\<forall>e < edge_count d'. e_to (ed d' e) = j \<longrightarrow>
         stdoutClosed (nd d' (e_from (ed d' e))) \<and> bb_empty (e_buffer (ed d' e))) \<longrightarrow> \<not> stdinOpen (nd d' j))"
proof -
  obtain d' where d': "dag_events d calls = Some d'" and r: "at_rest (isl r \<or> CancelRun \<in> set calls) d'" using dag_reaches [OF assms] by blast
  show ?thesis using d' paused_waits [OF r] settled_waits [OF r] ended_closes [OF r] by blast
qed

text \<open>
  C8: the completion callback is called at most once, with the exit codes of all stages in the planned order, the last
  nonzero one of them being the result; in a run that started and was not cancelled it is called exactly when all
  children have exited and all their output is read.
\<close>

theorem dag_completes_once:
  assumes "dag_run (DagRunner cap) p setup answers = Some (d, r)" "d_started d"
  shows "\<exists>d' order. dag_events d calls = Some d' \<and> plan p = Some (Inr order) \<and>
    topologicalOrder (dag_result d') = order \<and>
    o_exitCode (dag_result d') = (let codes = filter (\<lambda>c. c \<noteq> 0) (map n_exitCode (d_nodes d')) in if codes = [] then 0 else last codes) \<and>
    (completions (history d') = [] \<or> completions (history d') = [dag_result d']) \<and>
    (r = Inr () \<and> CancelRun \<notin> set calls \<longrightarrow>
       (completions (history d') \<noteq> [] \<longleftrightarrow> (\<forall>i < node_count d'. n_exited (nd d' i) \<and> stdoutClosed (nd d' i))))"
proof -
  obtain d' order where d': "dag_events d calls = Some d'" and r: "at_rest (isl r \<or> CancelRun \<in> set calls) d'"
      and p: "runs_plan d' cap p order" using dag_reaches [OF assms] by blast
  have t: "plan p = Some (Inr order)" "topologicalOrder (dag_result d') = order"
    using p by (simp_all add: runs_plan_def dag_result_def)
  have k: "completion_ok (isl r \<or> CancelRun \<in> set calls) d'" "finished d' \<longrightarrow> d_done d'" using r by (simp_all add: at_rest_def)
  have l: "o_exitCode (dag_result d') = (let codes = filter (\<lambda>c. c \<noteq> 0) (map n_exitCode (d_nodes d')) in if codes = [] then 0 else last codes)"
    by (auto simp: dag_result_def last_failure_spec filter_empty_conv Let_def)
  have o: "completions (history d') = [] \<or> completions (history d') = [dag_result d']" using k(1) by (auto simp: completion_ok_def split: if_splits)
  have "r = Inr () \<and> CancelRun \<notin> set calls \<longrightarrow> (completions (history d') \<noteq> [] \<longleftrightarrow> finished d')"
    using k by (auto simp: completion_ok_def split: if_splits)
  then show ?thesis using d' t l o unfolding finished_def by blast
qed

subsection \<open>A run\<close>

definition sample_dag_pipeline :: pipeline where
  "sample_dag_pipeline = \<lparr>stages = [\<lparr>stage_id = ''b'', stage_argv = [''sort''], placement = []\<rparr>,
     \<lparr>stage_id = ''a'', stage_argv = [''cat''], placement = ''local''\<rparr>], edges = [\<lparr>efrom = ''a'', eto = ''b''\<rparr>]\<rparr>"

definition sample_dag :: dag where
  "sample_dag = fst (the (dag_run (DagRunner 4) sample_dag_pipeline None (\<lambda>i. Watched)))"

definition sample_calls :: "dag_call list" where
  "sample_calls = [ProducerReady 0 [Got ''hello'', Got ''o''] (\<lambda>i. []), ConsumerReady 1 [Wrote 3, Wrote 9],
     ProducerReady 0 [Got ''o'', Got ''''] (\<lambda>i. [Wrote 1]), ChildExit 0 (Some \<lparr>ws_exited = False, ws_code = 13\<rparr>),
     ProducerReady 1 [Got ''hello'', Got ''''] (\<lambda>i. []), ChildExit 1 None]"

lemma sample_dag_run: "dag_run (DagRunner 4) sample_dag_pipeline None (\<lambda>i. Watched) = Some (sample_dag, Inr ())" "d_started sample_dag"
  by code_simp+

lemma sample_dag_paused:
  "map_option (\<lambda>d. (node_count d, map stdoutReadable (d_nodes d), map stdoutClosed (d_nodes d), buffered d))
     (dag_events sample_dag (take 1 sample_calls)) = Some (2, [False, True], [False, False], 4)"
  by code_simp

lemma sample_dag_done:
  "map_option (\<lambda>d. (edge_count d, delivered (history d) 0, buffered d, map o_exitCode (completions (history d))))
     (dag_events sample_dag sample_calls) = Some (1, ''hello'', 0, [1])"
  by code_simp

theorem dag_safe_witness:
  "\<exists>d'. dag_events sample_dag sample_calls = Some d' \<and> delivered (history d') 0 = ''hello'' \<and>
     prefix (delivered (history d') 0) (produced (history d') (e_from (ed d' 0))) \<and> peakBuffered d' \<le> 4"
  using dag_safe [OF sample_dag_run, of sample_calls] sample_dag_done by auto

theorem dag_never_stalls_witness:
  "\<exists>d'. dag_events sample_dag (take 1 sample_calls) = Some d' \<and> \<not> stdoutReadable (nd d' 0) \<and>
     (\<exists>e < edge_count d'. e_from (ed d' e) = 0 \<and> bb_full (e_buffer (ed d' e)) \<and> stdinWanted (nd d' (e_to (ed d' e))))"
proof -
  obtain d' where d': "dag_events sample_dag (take 1 sample_calls) = Some d'"
      "\<forall>i < node_count d'. \<not> stdoutClosed (nd d' i) \<and> \<not> stdoutReadable (nd d' i) \<longrightarrow>
        (\<exists>e < edge_count d'. e_from (ed d' e) = i \<and> bb_full (e_buffer (ed d' e)) \<and>
           stdinOpen (nd d' (e_to (ed d' e))) \<and> stdinWanted (nd d' (e_to (ed d' e))))"
    using dag_never_stalls [OF sample_dag_run, of "take 1 sample_calls"] by blast
  have "0 < node_count d'" "\<not> stdoutReadable (nd d' 0)" "\<not> stdoutClosed (nd d' 0)"
    using sample_dag_paused d'(1) by (auto simp: nd_def hd_conv_nth [symmetric] map_eq_Cons_conv)
  then show ?thesis using d' by blast
qed

theorem dag_completes_once_witness:
  "\<exists>d'. dag_events sample_dag sample_calls = Some d' \<and> completions (history d') = [dag_result d'] \<and> o_exitCode (dag_result d') = 1"
  using dag_completes_once [OF sample_dag_run, of sample_calls] sample_dag_done by auto

end
