(* ===== verification/Worker_Output.thy ===== *)
theory Worker_Output
  imports Line_Framer Spool_Buffer Bounded_Buffer Sinks Ssh_Auth
begin

text \<open>
  One child of the process manager (\<open>Worker\<close> in \<open>src/process_manager.cpp\<close>): its state, the capture of its output under the
  overflow policies and the transfers on its descriptors.  A \<open>std::size_t\<close> of bytes in memory is a natural number, the
  count of dropped bytes a 64 bit word.  The descriptors are their tokens (registered or not) and closed flags; logging is
  left out.
\<close>

subsection \<open>State\<close>

record worker =
  w_clientId :: string
  failureMessage :: string
  w_running :: bool
  w_input :: string
  inputWritten :: nat
  w_stdoutData :: string
  w_stderrData :: string
  w_status :: "wait_status option"
  stdoutFramer :: line_framer
  stderrFramer :: line_framer
  w_stdoutToken :: bool
  w_stderrToken :: bool
  w_stdinToken :: bool
  w_stdoutClosed :: bool
  w_stderrClosed :: bool
  w_stdinClosed :: bool
  w_exited :: bool
  w_timedOut :: bool
  w_cancelled :: bool
  w_aborted :: bool
  attempt :: nat
  awaitingRetry :: bool
  w_droppedBytes :: u64
  stdoutSpool :: spool_buffer
  stderrSpool :: spool_buffer
  counted :: bool
  spawned :: bool

definition new_worker :: "string \<Rightarrow> string \<Rightarrow> worker" where
  "new_worker client input = \<lparr>w_clientId = client, failureMessage = [], w_running = False, w_input = input, inputWritten = 0,
     w_stdoutData = [], w_stderrData = [], w_status = None, stdoutFramer = LineFramer kDefaultMaxLineLength, stderrFramer = LineFramer kDefaultMaxLineLength,
     w_stdoutToken = False, w_stderrToken = False, w_stdinToken = False, w_stdoutClosed = False, w_stderrClosed = False,
     w_stdinClosed = False, w_exited = False, w_timedOut = False, w_cancelled = False, w_aborted = False, attempt = 0,
     awaitingRetry = False, w_droppedBytes = 0, stdoutSpool = SpoolBuffer, stderrSpool = SpoolBuffer, counted = False,
     spawned = False\<rparr>"

definition w_complete :: "worker \<Rightarrow> bool" where
  "w_complete w \<longleftrightarrow> w_exited w \<and> w_stdoutClosed w \<and> w_stderrClosed w \<and> w_stdinClosed w"

definition failToStart :: "worker \<Rightarrow> string \<Rightarrow> worker" where
  "failToStart w message = w\<lparr>failureMessage := message, w_stderrData := message, w_stdoutClosed := True,
     w_stderrClosed := True, w_stdinClosed := True, w_exited := True\<rparr>"

definition resetForRetry :: "worker \<Rightarrow> worker" where
  "resetForRetry w = w\<lparr>failureMessage := [], w_stdoutData := [], w_stderrData := [], w_status := None,
     stdoutFramer := LineFramer kDefaultMaxLineLength, stderrFramer := LineFramer kDefaultMaxLineLength, w_stdoutToken := False, w_stderrToken := False,
     w_stdinToken := False, w_stdoutClosed := False, w_stderrClosed := False, w_stdinClosed := False, w_exited := False,
     w_timedOut := False, w_cancelled := False, w_aborted := False, w_droppedBytes := 0,
     stdoutSpool := sp_reset (stdoutSpool w), stderrSpool := sp_reset (stderrSpool w), inputWritten := 0, counted := False,
     awaitingRetry := False\<rparr>"

definition w_exitCode :: "worker \<Rightarrow> int" where
  "w_exitCode w =
     (if failureMessage w \<noteq> [] then 127
      else case w_status w of None \<Rightarrow> -1 | Some s \<Rightarrow> if ws_exited s then ws_code s else -1)"

definition isFailure :: "worker \<Rightarrow> bool" where
  "isFailure w \<longleftrightarrow> w_timedOut w \<or> failureMessage w \<noteq> [] \<or> w_exitCode w \<noteq> 0"

definition retryable :: "worker \<Rightarrow> bool" where
  "retryable w \<longleftrightarrow> \<not> w_timedOut w \<and> failureMessage w = [] \<and> w_exitCode w = 255 \<and> isRetryableSshFailure (w_stderrData w)"

subsection \<open>Capture\<close>

text \<open>What is kept of one stream: the ring, the spill and the bytes dropped.\<close>

definition capture_bytes ::
    "(nat \<Rightarrow> io) \<Rightarrow> nat \<Rightarrow> OverflowPolicy \<Rightarrow> string \<times> spool_buffer \<times> u64 \<Rightarrow> string \<Rightarrow> string \<times> spool_buffer \<times> u64" where
  "capture_bytes disk outputCap outputPolicy st chunk =
     (case st of (ring, spool, lost) \<Rightarrow>
        if outputCap = 0 then (ring @ chunk, spool, lost)
        else if outputPolicy = DropNewest then
          let retained = min (outputCap - length ring) (length chunk)
          in (ring @ take retained chunk, spool, lost + of_nat (length chunk - retained))
        else
          let available = outputCap - length ring;
              overflow = (if length chunk > available then length chunk - available else 0);
              fromRing = min overflow (length ring);
              fromChunk = overflow - fromRing;
              kept = drop fromRing ring @ drop fromChunk chunk
          in if outputPolicy = Spool then
               let (spool1, ok1) = (if fromRing \<noteq> 0 then sp_append disk spool (take fromRing ring) else (spool, True));
                   (spool2, ok2) = (if fromChunk \<noteq> 0 then sp_append disk spool1 (take fromChunk chunk) else (spool1, True))
               in (kept, spool2, lost + (if ok1 then 0 else of_nat fromRing) + (if ok2 then 0 else of_nat fromChunk))
             else (kept, spool, lost + of_nat overflow))"

definition capture :: "(nat \<Rightarrow> io) \<Rightarrow> nat \<Rightarrow> OverflowPolicy \<Rightarrow> worker \<Rightarrow> bool \<Rightarrow> string \<Rightarrow> worker" where
  "capture disk outputCap outputPolicy w isStdout chunk =
     (if isStdout then
        let (ring, spool, lost) = capture_bytes disk outputCap outputPolicy (w_stdoutData w, stdoutSpool w, w_droppedBytes w) chunk
        in w\<lparr>w_stdoutData := ring, stdoutSpool := spool, w_droppedBytes := lost\<rparr>
      else
        let (ring, spool, lost) = capture_bytes disk outputCap outputPolicy (w_stderrData w, stderrSpool w, w_droppedBytes w) chunk
        in w\<lparr>w_stderrData := ring, stderrSpool := spool, w_droppedBytes := lost\<rparr>)"

subsection \<open>Transfers\<close>

definition channel_of :: "bool \<Rightarrow> sink_channel" where
  "channel_of isStdout = (if isStdout then ToStdout else ToStderr)"

definition framerFor :: "worker \<Rightarrow> bool \<Rightarrow> line_framer" where
  "framerFor w isStdout = (if isStdout then stdoutFramer w else stderrFramer w)"

definition set_framer :: "worker \<Rightarrow> bool \<Rightarrow> line_framer \<Rightarrow> worker" where
  "set_framer w isStdout f = (if isStdout then w\<lparr>stdoutFramer := f\<rparr> else w\<lparr>stderrFramer := f\<rparr>)"

definition emitLine :: "worker \<Rightarrow> bool \<Rightarrow> line_event list \<Rightarrow> sink_event list" where
  "emitLine w isStdout lines = map (\<lambda>(t, _). Line (w_clientId w) (channel_of isStdout) t) lines"

definition kReadBuffer :: nat where "kReadBuffer = 64 * 1024"

text \<open>The reading loop of \<open>onReadable\<close>: the worker, the lines for a live sink, and whether the stream has ended.\<close>

fun read_stream :: "(nat \<Rightarrow> io) \<Rightarrow> nat \<Rightarrow> OverflowPolicy \<Rightarrow> bool \<Rightarrow> bool \<Rightarrow> bool \<Rightarrow> nat \<Rightarrow> worker \<Rightarrow> read_answer list \<Rightarrow>
    worker \<times> sink_event list \<times> bool" where
  "read_stream disk outputCap outputPolicy live isStdout hangup before w answers =
     (case answers of
        Got bytes # rest \<Rightarrow>
          let chunk = take kReadBuffer bytes in
          if chunk = [] then (w, [], True)
          else let w1 = capture disk outputCap outputPolicy w isStdout chunk;
                   (f, lines) = (if live then lf_push (framerFor w1 isStdout) chunk else (framerFor w1 isStdout, []));
                   (w2, more, ended) = read_stream disk outputCap outputPolicy live isStdout hangup before (set_framer w1 isStdout f) rest
               in (w2, emitLine w isStdout lines @ more, ended)
      | ReadFails # _ \<Rightarrow> (w, [], True)
      | _ \<Rightarrow> (w, [], hangup \<and> length (if isStdout then w_stdoutData w else w_stderrData w) = before))"

declare read_stream.simps [simp del]

definition close_output :: "worker \<Rightarrow> bool \<Rightarrow> worker" where
  "close_output w isStdout =
     (if isStdout then if w_stdoutClosed w then w else w\<lparr>w_stdoutToken := False, w_stdoutClosed := True\<rparr>
      else if w_stderrClosed w then w else w\<lparr>w_stderrToken := False, w_stderrClosed := True\<rparr>)"

definition close_input :: "worker \<Rightarrow> worker" where
  "close_input w = (if w_stdinClosed w then w else w\<lparr>w_stdinToken := False, w_stdinClosed := True\<rparr>)"

text \<open>The part of \<open>onReadable\<close> before \<open>account\<close>.\<close>

definition take_output :: "(nat \<Rightarrow> io) \<Rightarrow> nat \<Rightarrow> OverflowPolicy \<Rightarrow> bool \<Rightarrow> bool \<Rightarrow> bool \<Rightarrow> worker \<Rightarrow> read_answer list \<Rightarrow>
    worker \<times> sink_event list \<times> bool" where
  "take_output disk outputCap outputPolicy live isStdout hangup w answers =
     (let (w1, lines, ended) = read_stream disk outputCap outputPolicy live isStdout hangup
            (length (if isStdout then w_stdoutData w else w_stderrData w)) w answers in
      if \<not> ended then (w1, lines, False)
      else let (f, last_lines, _) = (if live then lf_flush (framerFor w1 isStdout) else (framerFor w1 isStdout, [], False))
        in (close_output (set_framer w1 isStdout f) isStdout, lines @ emitLine w1 isStdout last_lines, True))"

text \<open>\<open>onWritable\<close> before \<open>account\<close>; the flag says that the input is closed.\<close>

fun give_input :: "worker \<Rightarrow> write_answer list \<Rightarrow> worker \<times> bool" where
  "give_input w answers =
     (if inputWritten w < length (w_input w) then
        case answers of
          Wrote n # rest \<Rightarrow> give_input (w\<lparr>inputWritten := inputWritten w + min n (length (w_input w) - inputWritten w)\<rparr>) rest
        | WriteFails # _ \<Rightarrow> (close_input w, True)
        | _ \<Rightarrow> (w, False)
      else (close_input w, True))"

declare give_input.simps [simp del]

subsection \<open>What is kept\<close>

text \<open>
  \<open>kept_of cap policy total ring spool lost\<close>: the ring holds at most \<open>cap\<close> bytes; together with the spill it is the part of
  the stream that the policy keeps, and the bytes between are counted.
\<close>

definition kept_of :: "nat \<Rightarrow> OverflowPolicy \<Rightarrow> string \<Rightarrow> string \<times> spool_buffer \<times> nat \<Rightarrow> bool" where
  "kept_of cap pol whole st \<longleftrightarrow> (case st of (ring, spool, lost) \<Rightarrow>
     spool_inv spool \<and> readOffset spool = 0 \<and>
     (if cap = 0 then ring = whole \<and> sp_bytes spool = [] \<and> lost = 0
      else length ring \<le> cap \<and>
        (if pol = DropNewest then ring = take cap whole \<and> sp_bytes spool = [] \<and> lost = length whole - length ring
         else if pol = Spool then \<exists>mid. whole = sp_bytes spool @ mid @ ring \<and> lost = length mid \<and> (\<not> sp_failed spool \<longrightarrow> mid = [])
         else ring = drop (length whole - cap) whole \<and> sp_bytes spool = [] \<and> lost = length whole - length ring)))"

text \<open>Appending to the spill: all of it, or nothing and the spill has failed.\<close>

lemma sp_append_cases:
  assumes "spool_inv s" "readOffset s = 0" "sp_append disk s bytes = (s', ok)"
  shows "spool_inv s' \<and> readOffset s' = 0 \<and> (if ok then sp_bytes s' = sp_bytes s @ bytes \<and> sp_failed s' = sp_failed s
      else sp_bytes s' = sp_bytes s \<and> sp_failed s')"
  using assms
  by (auto simp: sp_append_def spool_inv_def sp_bytes_def Let_def transferred_def split: if_splits option.splits)

text \<open>How a full ring makes room: first from its own front, then from the front of the chunk.\<close>

lemma room_split:
  fixes ring chunk :: string
  assumes "over = (if cap - length ring < length chunk then length chunk - (cap - length ring) else 0)" "fr = min over (length ring)"
    "fc = over - fr" "length ring \<le> cap"
  shows "ring @ chunk = take fr ring @ take fc chunk @ drop fr ring @ drop fc chunk"
    "length (drop fr ring @ drop fc chunk) \<le> cap" "fr \<le> length ring" "fc \<le> length chunk"
    "over = 0 \<or> length (drop fr ring @ drop fc chunk) = cap"
proof -
  have "fc = 0 \<or> fr = length ring" using assms(2,3) by (auto simp: min_def)
  then show "ring @ chunk = take fr ring @ take fc chunk @ drop fr ring @ drop fc chunk" by auto
qed (use assms in \<open>auto simp: min_def split: if_splits\<close>)

lemma capture_spool:
  assumes k: "kept_of cap Spool whole (ring, spool, n)" and cap: "cap \<noteq> 0"
    and c: "capture_bytes disk cap Spool (ring, spool, lost) chunk = (ring', spool', lost')"
  shows "\<exists>extra. lost' = lost + of_nat extra \<and> kept_of cap Spool (whole @ chunk) (ring', spool', n + extra)"
proof -
  define over where "over = (if cap - length ring < length chunk then length chunk - (cap - length ring) else 0)"
  define fr where "fr = min over (length ring)"
  define fc where "fc = over - fr"
  obtain mid where m: "spool_inv spool" "readOffset spool = 0" "length ring \<le> cap" "whole = sp_bytes spool @ mid @ ring" "n = length mid"
      "\<not> sp_failed spool \<longrightarrow> mid = []" using k cap by (auto simp: kept_of_def)
  note rs = room_split [OF over_def fr_def fc_def m(3)]
  obtain s1 ok1 where s1: "(if fr \<noteq> 0 then sp_append disk spool (take fr ring) else (spool, True)) = (s1, ok1)" by fastforce
  obtain s2 ok2 where s2: "(if fc \<noteq> 0 then sp_append disk s1 (take fc chunk) else (s1, True)) = (s2, ok2)" by fastforce
  have r: "ring' = drop fr ring @ drop fc chunk" "spool' = s2"
      "lost' = lost + (if ok1 then 0 else of_nat fr) + (if ok2 then 0 else of_nat fc)"
    using c cap unfolding capture_bytes_def prod.case Let_def over_def [symmetric] fr_def [symmetric] fc_def [symmetric] s1 s2
    by (simp_all add: s2)
  have a1: "spool_inv s1" "readOffset s1 = 0" "sp_bytes s1 = sp_bytes spool @ (if ok1 then take fr ring else [])"
      "sp_failed s1 = (sp_failed spool \<or> \<not> ok1)" "sp_failed spool \<Longrightarrow> ok1 \<Longrightarrow> fr = 0"
    using s1 m(1,2) sp_append_cases [OF m(1,2), of disk "take fr ring" s1 ok1] rs(3) by (auto simp: sp_append_def split: if_splits)
  have a2: "spool_inv s2" "readOffset s2 = 0" "sp_bytes s2 = sp_bytes s1 @ (if ok2 then take fc chunk else [])"
      "sp_failed s2 = (sp_failed s1 \<or> \<not> ok2)" "sp_failed s1 \<Longrightarrow> ok2 \<Longrightarrow> fc = 0"
    using s2 a1(1,2) sp_append_cases [OF a1(1,2), of disk "take fc chunk" s2 ok2] rs(4) by (auto simp: sp_append_def split: if_splits)
  define extra where "extra = (if ok1 then 0 else fr) + (if ok2 then 0 else fc)"
  define mid' where "mid' = mid @ (if ok1 then [] else take fr ring) @ (if ok2 then [] else take fc chunk)"
  have "ok1 \<Longrightarrow> take fr ring = [] \<or> mid = []" "ok2 \<Longrightarrow> take fc chunk = [] \<or> ok1 \<and> mid = []"
    using a1(4,5) a2(5) m(6) by auto
  then have "whole @ chunk = sp_bytes s2 @ mid' @ ring'"
    using rs(1) m(4) by (cases ok1; cases ok2) (auto simp: a1(3) a2(3) mid'_def r(1))
  moreover have "n + extra = length mid'" using m(5) rs(3,4) by (simp add: extra_def mid'_def)
  moreover have "\<not> sp_failed s2 \<longrightarrow> mid' = []" using m(6) a1(4) a2(4) by (auto simp: mid'_def)
  ultimately have "kept_of cap Spool (whole @ chunk) (ring', spool', n + extra)"
    using cap a2(1,2) rs(2) r(1,2) by (auto simp: kept_of_def)
  moreover have "lost' = lost + of_nat extra" by (simp add: r(3) extra_def)
  ultimately show ?thesis by blast
qed

lemma kept_newestI:
  "cap \<noteq> 0 \<Longrightarrow> spool_inv spool \<Longrightarrow> readOffset spool = 0 \<Longrightarrow> sp_bytes spool = [] \<Longrightarrow> length ring \<le> cap \<Longrightarrow> ring = take cap whole \<Longrightarrow>
   lost = length whole - length ring \<Longrightarrow> kept_of cap DropNewest whole (ring, spool, lost)"
  unfolding kept_of_def prod.case by (simp only: if_False if_True simp_thms)

lemma kept_oldestI:
  "cap \<noteq> 0 \<Longrightarrow> pol \<noteq> Spool \<Longrightarrow> pol \<noteq> DropNewest \<Longrightarrow> spool_inv spool \<Longrightarrow> readOffset spool = 0 \<Longrightarrow> sp_bytes spool = [] \<Longrightarrow>
   length ring \<le> cap \<Longrightarrow> ring = drop (length whole - cap) whole \<Longrightarrow> lost = length whole - length ring \<Longrightarrow> kept_of cap pol whole (ring, spool, lost)"
  unfolding kept_of_def prod.case by (simp only: if_False if_True simp_thms)

lemma ring_length:
  fixes L over R C cap W :: nat
  assumes "L + over = R + C" "over = (if cap - R < C then C - (cap - R) else 0)" "R = min cap W"
  shows "L = min cap (W + C)" "W - R + over = W + C - L"
  using assms by (auto simp: min_def split: if_splits)

lemma capture_oldest:
  assumes "kept_of cap pol whole (ring, spool, n)" and cap: "cap \<noteq> 0" and pol: "pol \<noteq> Spool" "pol \<noteq> DropNewest"
    and c: "capture_bytes disk cap pol (ring, spool, lost) chunk = (ring', spool', lost')"
  shows "\<exists>extra. lost' = lost + of_nat extra \<and> kept_of cap pol (whole @ chunk) (ring', spool', n + extra)"
proof -
  define over where "over = (if cap - length ring < length chunk then length chunk - (cap - length ring) else 0)"
  define fr where "fr = min over (length ring)"
  define fc where "fc = over - fr"
  have m: "spool_inv spool" "readOffset spool = 0" "length ring \<le> cap" "ring = drop (length whole - cap) whole" "sp_bytes spool = []"
      "n = length whole - length ring" using assms(1) cap pol by (auto simp: kept_of_def)
  note rs = room_split [OF over_def fr_def fc_def m(3)]
  have r: "ring' = drop fr ring @ drop fc chunk" "spool' = spool" "lost' = lost + of_nat over"
    using c cap pol unfolding capture_bytes_def prod.case Let_def over_def [symmetric] fr_def [symmetric] fc_def [symmetric]
    by simp_all
  have "whole @ chunk = take (length whole - cap) whole @ ring @ chunk" by (simp add: m(4))
  then have w: "whole @ chunk = (take (length whole - cap) whole @ take fr ring @ take fc chunk) @ ring'" unfolding rs(1) r(1) by simp
  have lw: "length ring = min cap (length whole)" using arg_cong [OF m(4), of length] by (simp add: min_def)
  have "length ring' + over = length ring + length chunk"
    using arg_cong [OF rs(1), of length] rs(3,4) fc_def fr_def by (simp add: r(1))
  note len = ring_length [OF this over_def lw]
  have lr: "length ring' = min cap (length (whole @ chunk))" using len(1) by simp
  have "ring' = drop (length (whole @ chunk) - length ring') (whole @ chunk)" unfolding w by simp
  moreover have "drop (length (whole @ chunk) - min cap (length (whole @ chunk))) (whole @ chunk) = drop (length (whole @ chunk) - cap) (whole @ chunk)"
    by (cases "cap \<le> length (whole @ chunk)") (simp_all add: min_def)
  ultimately have "ring' = drop (length (whole @ chunk) - cap) (whole @ chunk)" using lr by metis
  moreover have "n + over = length (whole @ chunk) - length ring'" using len(2) m(6) by simp
  moreover have "length ring' \<le> cap" using lr by simp
  ultimately have "kept_of cap pol (whole @ chunk) (ring', spool', n + over)"
    unfolding r(2) by (intro kept_oldestI cap pol m(1,2,5))
  then show ?thesis using r(3) by blast
qed

lemma capture_kept:
  assumes k: "kept_of cap pol whole (ring, spool, n)"
    and c: "capture_bytes disk cap pol (ring, spool, lost) chunk = (ring', spool', lost')"
  shows "\<exists>extra. lost' = lost + of_nat extra \<and> kept_of cap pol (whole @ chunk) (ring', spool', n + extra)"
proof -
  consider "cap = 0" | "cap \<noteq> 0" "pol = DropNewest" | "cap \<noteq> 0" "pol = Spool" | "cap \<noteq> 0" "pol \<noteq> Spool" "pol \<noteq> DropNewest" by blast
  then show ?thesis
  proof cases
    case 1
    then show ?thesis using k c by (intro exI [of _ 0]) (auto simp: kept_of_def capture_bytes_def)
  next
    case 2
    let ?r = "min (cap - length ring) (length chunk)"
    have m: "ring = take cap whole" "n = length whole - length ring" "spool_inv spool" "readOffset spool = 0" "sp_bytes spool = []"
      using k 2 by (auto simp: kept_of_def)
    have r: "ring' = ring @ take ?r chunk" "spool' = spool" "lost' = lost + of_nat (length chunk - ?r)"
      using c 2 by (auto simp: capture_bytes_def Let_def)
    have "ring' = take cap (whole @ chunk)" using m(1) r(1) by (auto simp: min_def)
    moreover have "n + (length chunk - ?r) = length (whole @ chunk) - length ring'" using m(1,2) r(1) by (auto simp: min_def)
    moreover have "length ring' \<le> cap" using calculation(1) by simp
    ultimately have "kept_of cap DropNewest (whole @ chunk) (ring', spool', n + (length chunk - ?r))"
      unfolding r(2) by (intro kept_newestI 2(1) m(3-5))
    then show ?thesis using r(3) 2(2) by blast
  next
    case 3
    then show ?thesis using capture_spool k c by simp
  next
    case 4
    then show ?thesis using capture_oldest [OF k] c by simp
  qed
qed

lemma kept_of_start: "kept_of cap pol [] ([], SpoolBuffer, 0)"
  by (simp add: kept_of_def) (simp add: SpoolBuffer_def)

definition captured :: "(nat \<Rightarrow> io) \<Rightarrow> nat \<Rightarrow> OverflowPolicy \<Rightarrow> string list \<Rightarrow> string \<times> spool_buffer \<times> u64" where
  "captured disk cap pol chunks = foldl (capture_bytes disk cap pol) ([], SpoolBuffer, 0) chunks"

lemma captured_kept: "\<exists>ring spool n. captured disk cap pol chunks = (ring, spool, of_nat n) \<and> kept_of cap pol (concat chunks) (ring, spool, n)"
proof (induction chunks rule: rev_induct)
  case Nil
  show ?case using kept_of_start [of cap pol] by (auto simp: captured_def intro!: exI [of _ 0])
next
  case (snoc c chunks)
  then obtain ring spool n where i: "captured disk cap pol chunks = (ring, spool, of_nat n)" "kept_of cap pol (concat chunks) (ring, spool, n)" by blast
  obtain ring' spool' lost' where c: "capture_bytes disk cap pol (ring, spool, of_nat n) c = (ring', spool', lost')" by (cases "capture_bytes disk cap pol (ring, spool, of_nat n) c")
  then obtain extra where "lost' = of_nat n + of_nat extra" "kept_of cap pol (concat chunks @ c) (ring', spool', n + extra)"
    using capture_kept [OF i(2) c] by blast
  then show ?case using i(1) c by (auto simp: captured_def intro!: exI [of _ "n + extra"])
qed

lemma capture_healthy:
  assumes "healthy disk" "\<not> sp_failed spool" "capture_bytes disk cap pol (ring, spool, lost) chunk = (ring', spool', lost')"
  shows "\<not> sp_failed spool'"
  using assms(2,3) sp_append_healthy(2) [OF assms(1)]
  by (auto simp: capture_bytes_def Let_def split: if_splits prod.splits) blast+

lemma captured_healthy: "healthy disk \<Longrightarrow> captured disk cap pol chunks = (ring, spool, lost) \<Longrightarrow> \<not> sp_failed spool"
proof (induction chunks arbitrary: ring spool lost rule: rev_induct)
  case Nil
  then show ?case by (auto simp: captured_def SpoolBuffer_def)
next
  case (snoc c chunks)
  then show ?case using capture_healthy by (cases "captured disk cap pol chunks") (auto simp: captured_def)
qed

text \<open>What is shown of a stream at the end: the spill in front of the ring.\<close>

definition full_output :: "(nat \<Rightarrow> io) \<Rightarrow> string \<Rightarrow> spool_buffer \<Rightarrow> string" where
  "full_output disk ring spool = (if sp_empty spool then ring else snd (sp_readAll disk spool) @ ring)"

lemma readAll_healthy: "healthy disk \<Longrightarrow> spool_inv s \<Longrightarrow> readOffset s = 0 \<Longrightarrow> snd (sp_readAll disk s) = sp_bytes s"
  by (auto simp: sp_readAll_def sp_bytes_def spool_inv_def healthy_def transferred_def Let_def split: option.splits)

lemma full_output_healthy:
  assumes "healthy disk" "kept_of cap Spool whole (ring, spool, n)" "\<not> sp_failed spool" "cap \<noteq> 0"
  shows "full_output disk ring spool = whole"
proof -
  have s: "spool_inv spool" "readOffset spool = 0" "whole = sp_bytes spool @ ring" using assms by (auto simp: kept_of_def)
  then show ?thesis using readAll_healthy [OF assms(1) s(1,2)] sp_empty_iff [OF s(1)] by (simp add: full_output_def)
qed

text \<open>
  C15: the captured output of a child is exact for every policy and every chunking: without a bound it is all output; with
  a bound the ring never exceeds it and holds the front (drop newest), the end (drop oldest), or the end with everything
  before it on disk or counted (spool), and the dropped bytes are counted; with a working disk spooling loses nothing.
\<close>

theorem capture_exact:
  "\<exists>ring spool n. captured disk cap pol chunks = (ring, spool, of_nat n) \<and>
     (let whole = concat chunks in
      if cap = 0 then ring = whole \<and> n = 0
      else length ring \<le> cap \<and>
        (case pol of DropNewest \<Rightarrow> ring = take cap whole \<and> n = length whole - length ring
         | Spool \<Rightarrow> (\<exists>mid. whole = sp_bytes spool @ mid @ ring \<and> n = length mid) \<and>
             (healthy disk \<longrightarrow> n = 0 \<and> full_output disk ring spool = whole)
         | _ \<Rightarrow> ring = drop (length whole - cap) whole \<and> n = length whole - length ring))"
proof -
  obtain ring spool n where c: "captured disk cap pol chunks = (ring, spool, of_nat n)" "kept_of cap pol (concat chunks) (ring, spool, n)"
    using captured_kept by blast
  have "pol = Spool \<Longrightarrow> cap \<noteq> 0 \<Longrightarrow> healthy disk \<Longrightarrow> n = 0 \<and> full_output disk ring spool = concat chunks"
    using c captured_healthy [of disk cap pol chunks ring spool "of_nat n"] full_output_healthy [of disk cap "concat chunks" ring spool n]
    by (auto simp: kept_of_def)
  then show ?thesis using c unfolding kept_of_def prod.case Let_def
    by (intro exI [of _ ring] exI [of _ spool] exI [of _ n]) (cases pol; cases "cap = 0"; fastforce)
qed

definition good_disk :: "nat \<Rightarrow> io" where
  "good_disk t = \<lparr>tmpfile_ok = True, seek_ok = True, flush_ok = True, short_count = None\<rparr>"

theorem capture_exact_witness:
  "(\<exists>spool. captured good_disk 3 Spool [''ab'', ''cdefg''] = (''efg'', spool, 0)) \<and> healthy good_disk \<and>
   (case captured good_disk 3 Spool [''ab'', ''cdefg''] of (ring, spool, lost) \<Rightarrow> full_output good_disk ring spool) = ''abcdefg''"
proof -
  have h: "healthy good_disk" by (simp add: healthy_def good_disk_def)
  have v: "\<exists>spool. captured good_disk 3 Spool [''ab'', ''cdefg''] = (''efg'', spool, 0)"
    by (simp add: captured_def capture_bytes_def sp_append_def good_disk_def SpoolBuffer_def transferred_def Let_def)
  then show ?thesis using h capture_exact [of good_disk 3 Spool "[''ab'', ''cdefg'']"] by (auto simp: Let_def)
qed

end
