(* ===== verification/Worker_Run.thy ===== *)
theory Worker_Run
  imports Worker_Output
begin

text \<open>
  \<open>WorkerRun\<close> (\<open>src/process_manager.cpp\<close>): a set of children driven to completion on the reactor with a bounded number in
  flight, retries of transient failures, a deadline, cancellation and fail-fast.  The reactor's calls are events.  What the
  operating system decides (does a child start, has it already gone, what does \<open>wait\<close> report, does the disk work) is given
  by an environment; a child is started at most once per attempt, so index and attempt name the answer.

  An exception or undefined behaviour ends a run: \<open>Thrown\<close> with the text, \<open>Undefined\<close> where a loop goes on with an
  iterator into a vector that was cleared.
\<close>

subsection \<open>State\<close>

datatype stop = Thrown string | Undefined

datatype arm_answer = ChildWatched | ChildGone | ArmThrows string
datatype spawn_answer = Spawned arm_answer | NotSpawned string | SpawnThrows string

record wr_env =
  spawns :: "nat \<Rightarrow> nat \<Rightarrow> spawn_answer"
  waits :: "nat \<Rightarrow> nat \<Rightarrow> wait_status option"
  disks :: "nat \<Rightarrow> bool \<Rightarrow> nat \<Rightarrow> io"

datatype StopReason = Deadline | Cancel | FailFast
datatype StopSignal = Graceful | Kill

text \<open>Timers are pending or not.  \<open>armed\<close> are the retry timers the reactor may still fire: cancelling one does not
  take it out of a batch of due timers.  \<open>sinkCalls\<close> and \<open>signals\<close> are the history of the run.\<close>

record worker_run =
  workers :: "worker list"
  hasSink :: bool
  streamsLive :: bool
  concurrency :: nat
  feedInput :: bool
  outputCap :: nat
  outputPolicy :: OverflowPolicy
  failFast :: bool
  maxRetries :: nat
  remaining :: nat
  nextToSpawn :: nat
  inFlight :: nat
  filling :: bool
  deadlineTimer :: bool
  drainTimer :: bool
  anyTimedOut :: bool
  run_cancelled :: bool
  run_aborted :: bool
  signalRegistered :: bool
  retryTimers :: "nat list"
  armed :: "nat list"
  retryQueue :: "nat list"
  stopped :: bool
  sinkCalls :: "sink_event list"
  signals :: "(nat \<times> StopSignal) list"

definition wk :: "worker_run \<Rightarrow> nat \<Rightarrow> worker" where "wk r i = workers r ! i"

definition set_wk :: "worker_run \<Rightarrow> nat \<Rightarrow> worker \<Rightarrow> worker_run" where
  "set_wk r i w = r\<lparr>workers := (workers r)[i := w]\<rparr>"

definition and_then :: "stop + 'a \<Rightarrow> ('a \<Rightarrow> stop + 'b) \<Rightarrow> stop + 'b" where
  "and_then m f = (case m of Inl s \<Rightarrow> Inl s | Inr x \<Rightarrow> f x)"

fun each :: "('s \<Rightarrow> 'a \<Rightarrow> stop + 's) \<Rightarrow> 's \<Rightarrow> 'a list \<Rightarrow> stop + 's" where
  "each f s [] = Inr s"
| "each f s (x # xs) = and_then (f s x) (\<lambda>s'. each f s' xs)"

subsection \<open>Counting and teardown\<close>

definition scheduleRetry :: "worker_run \<Rightarrow> nat \<Rightarrow> worker_run" where
  "scheduleRetry r i = (set_wk r i ((wk r i)\<lparr>awaitingRetry := True, attempt := attempt (wk r i) + 1\<rparr>))
     \<lparr>retryTimers := i # removeAll i (retryTimers r), armed := i # armed r\<rparr>"

text \<open>
  \<open>account\<close> and \<open>teardown\<close> call each other; the bodies take the other function as an argument.  A teardown for
  fail-fast runs with \<open>aborted_\<close> set, so the calls it makes do not tear down again and the nesting ends.
\<close>

definition account_with :: "(worker_run \<Rightarrow> stop + worker_run) \<Rightarrow> worker_run \<Rightarrow> nat \<Rightarrow> stop + worker_run" where
  "account_with abort_all r i =
     (let w = wk r i in
      if counted w \<or> awaitingRetry w \<or> \<not> w_complete w then Inr r
      else if \<not> run_cancelled r \<and> \<not> run_aborted r \<and> attempt w < maxRetries r \<and> retryable w then Inr (scheduleRetry r i)
      else let r1 = (set_wk r i (w\<lparr>counted := True\<rparr>))\<lparr>remaining := remaining r - 1\<rparr> in
        if remaining r1 = 0 then Inr (r1\<lparr>stopped := True\<rparr>)
        else if failFast r \<and> \<not> run_aborted r \<and> \<not> run_cancelled r \<and> isFailure w then abort_all (r1\<lparr>run_aborted := True\<rparr>)
        else Inr r1)"

definition mark :: "worker \<Rightarrow> StopReason \<Rightarrow> worker" where
  "mark w reason = (case reason of Cancel \<Rightarrow> w\<lparr>w_cancelled := True\<rparr> | FailFast \<Rightarrow> w\<lparr>w_aborted := True\<rparr> | Deadline \<Rightarrow> w\<lparr>w_timedOut := True\<rparr>)"

definition end_now :: "worker \<Rightarrow> worker" where
  "end_now w = w\<lparr>w_stdoutClosed := True, w_stderrClosed := True, w_stdinClosed := True, w_exited := True\<rparr>"

type_synonym accounting = "worker_run \<Rightarrow> nat \<Rightarrow> stop + worker_run"

text \<open>The range-based loop over \<open>retryQueue_\<close> is undefined once the vector has been cleared under it.\<close>

definition end_queued :: "accounting \<Rightarrow> StopReason \<Rightarrow> nat list \<Rightarrow> worker_run \<Rightarrow> nat \<Rightarrow> stop + worker_run" where
  "end_queued acc reason queue r i =
     and_then (acc (set_wk r i (end_now (mark (wk r i) reason))) i) (\<lambda>r'. if retryQueue r' = queue then Inr r' else Inl Undefined)"

text \<open>One round of the loop over \<open>nextToSpawn_\<close>; a nested teardown has taken the rest.\<close>

definition end_pending :: "accounting \<Rightarrow> StopReason \<Rightarrow> worker_run \<Rightarrow> nat \<Rightarrow> stop + worker_run" where
  "end_pending acc reason r i =
     (if nextToSpawn r = i then acc ((set_wk r i (end_now (mark (wk r i) reason)))\<lparr>nextToSpawn := i + 1\<rparr>) i else Inr r)"

definition stop_worker :: "accounting \<Rightarrow> StopReason \<Rightarrow> worker_run \<Rightarrow> nat \<Rightarrow> stop + worker_run" where
  "stop_worker acc reason r i =
     (let w = wk r i in
      if counted w then Inr r
      else if awaitingRetry w then acc (set_wk r i (mark (w\<lparr>awaitingRetry := False\<rparr>) reason)) i
      else if w_complete w then Inr r
      else Inr ((set_wk r i (mark w reason))\<lparr>signals := signals r @ [(i, if reason = Deadline then Kill else Graceful)]\<rparr>))"

definition begin_teardown :: "worker_run \<Rightarrow> StopReason \<Rightarrow> worker_run" where
  "begin_teardown r reason =
     (case reason of Cancel \<Rightarrow> r\<lparr>run_cancelled := True\<rparr> | Deadline \<Rightarrow> r\<lparr>anyTimedOut := True\<rparr> | FailFast \<Rightarrow> r)\<lparr>retryTimers := []\<rparr>"

definition teardown_with :: "accounting \<Rightarrow> worker_run \<Rightarrow> StopReason \<Rightarrow> stop + worker_run" where
  "teardown_with acc r reason =
     (let r0 = begin_teardown r reason; n = length (workers r) in
      and_then (each (end_queued acc reason (retryQueue r0)) r0 (retryQueue r0)) (\<lambda>r1.
      let r2 = r1\<lparr>retryQueue := []\<rparr> in
      and_then (each (end_pending acc reason) r2 [nextToSpawn r2..<n]) (\<lambda>r3.
      and_then (each (stop_worker acc reason) r3 [0..<n]) (\<lambda>r4. Inr (r4\<lparr>drainTimer := True\<rparr>)))))"

definition account :: "worker_run \<Rightarrow> nat \<Rightarrow> stop + worker_run" where
  "account r i = account_with (\<lambda>r. teardown_with (account_with (\<lambda>_. Inl Undefined)) r FailFast) r i"

definition teardown :: "worker_run \<Rightarrow> StopReason \<Rightarrow> stop + worker_run" where
  "teardown r reason = teardown_with account r reason"

subsection \<open>Starting children\<close>

definition reap :: "wr_env \<Rightarrow> worker_run \<Rightarrow> nat \<Rightarrow> worker_run" where
  "reap env r i =
     (let w = wk r i in
      (set_wk r i (w\<lparr>w_status := (case waits env i (attempt w) of None \<Rightarrow> w_status w | Some s \<Rightarrow> Some s), w_exited := True, w_running := False\<rparr>))
        \<lparr>inFlight := inFlight r - 1\<rparr>)"

definition launch :: "worker_run \<Rightarrow> nat \<Rightarrow> worker_run" where
  "launch r i =
     (let w = wk r i in
      (set_wk r i (w\<lparr>spawned := True, w_running := True, w_stdinClosed := \<not> feedInput r, w_stdoutToken := True, w_stderrToken := True,
          w_stdinToken := feedInput r\<rparr>))
        \<lparr>inFlight := inFlight r + 1, sinkCalls := sinkCalls r @ (if hasSink r then [StageStarted (w_clientId w)] else [])\<rparr>)"

text \<open>The body of the loop of \<open>fillSlots\<close>, with \<open>arm\<close>.  A \<open>fillSlots\<close> nested in it returns at once.\<close>

definition start_worker :: "wr_env \<Rightarrow> worker_run \<Rightarrow> nat \<Rightarrow> stop + worker_run" where
  "start_worker env r i =
     (case spawns env i (attempt (wk r i)) of
        SpawnThrows m \<Rightarrow> Inl (Thrown m)
      | NotSpawned m \<Rightarrow> account (set_wk r i (failToStart ((wk r i)\<lparr>spawned := True\<rparr>) m)) i
      | Spawned a \<Rightarrow>
          case a of ChildWatched \<Rightarrow> Inr (launch r i)
          | ChildGone \<Rightarrow> account (reap env (launch r i) i) i
          | ArmThrows m \<Rightarrow> Inl (Thrown m))"

definition has_pending :: "worker_run \<Rightarrow> bool" where
  "has_pending r \<longleftrightarrow> retryQueue r \<noteq> [] \<or> nextToSpawn r < length (workers r)"

definition fill_one :: "wr_env \<Rightarrow> worker_run \<Rightarrow> stop + worker_run" where
  "fill_one env r =
     (case retryQueue r of
        i # queue \<Rightarrow> start_worker env (r\<lparr>retryQueue := queue\<rparr>) i
      | [] \<Rightarrow> start_worker env (r\<lparr>nextToSpawn := nextToSpawn r + 1\<rparr>) (nextToSpawn r))"

text \<open>The loop ends: every round takes a child from the queue or from the pending ones, and no call brings one back.\<close>

definition fewer :: "worker_run \<Rightarrow> worker_run \<Rightarrow> bool" where
  "fewer r r' \<longleftrightarrow> length (workers r') = length (workers r) \<and> length (retryQueue r') \<le> length (retryQueue r) \<and> nextToSpawn r \<le> nextToSpawn r'"

lemma and_then_Inr: "and_then m f = Inr y \<longleftrightarrow> (\<exists>x. m = Inr x \<and> f x = Inr y)"
  by (cases m) (auto simp: and_then_def)

lemma each_rel:
  assumes "each f s xs = Inr s'" "\<And>s x s'. x \<in> set xs \<Longrightarrow> f s x = Inr s' \<Longrightarrow> R s s'" "\<And>s. R s s" "\<And>a b c. R a b \<Longrightarrow> R b c \<Longrightarrow> R a c"
  shows "R s s'"
  using assms(1,2)
proof (induction xs arbitrary: s)
  case Nil
  then show ?case using assms(3) by simp
next
  case (Cons x xs)
  then obtain t where "f s x = Inr t" "each f t xs = Inr s'" by (auto simp: and_then_Inr)
  then show ?case using assms(4) [of s t s'] Cons by (meson list.set_intros)
qed

lemma fewer_refl: "fewer r r" and fewer_trans: "fewer r r' \<Longrightarrow> fewer r' r'' \<Longrightarrow> fewer r r''"
  by (auto simp: fewer_def)

lemma fewer_simps [simp]:
  "fewer r (set_wk r i w)" "length (workers (set_wk r i w)) = length (workers r)" "retryQueue (set_wk r i w) = retryQueue r"
  "nextToSpawn (set_wk r i w) = nextToSpawn r"
  by (simp_all add: fewer_def set_wk_def)

lemma account_with_fewer:
  assumes "account_with td r i = Inr r'" "\<And>r r'. td r = Inr r' \<Longrightarrow> fewer r r'"
  shows "fewer r r'"
  using assms(1) assms(2) [of "(set_wk r i (wk r i\<lparr>counted := True\<rparr>))\<lparr>remaining := remaining r - 1, run_aborted := True\<rparr>" r']
  by (auto simp: account_with_def Let_def scheduleRetry_def fewer_def split: if_splits)

lemma teardown_with_fewer:
  assumes "teardown_with acc r reason = Inr r'" and acc: "\<And>r i r'. acc r i = Inr r' \<Longrightarrow> fewer r r'"
  shows "fewer r r'"
proof -
  let ?r0 = "begin_teardown r reason" and ?n = "length (workers r)"
  obtain r1 r3 r4 where 1: "each (end_queued acc reason (retryQueue ?r0)) ?r0 (retryQueue ?r0) = Inr r1"
      and 3: "each (end_pending acc reason) (r1\<lparr>retryQueue := []\<rparr>) [nextToSpawn r1..<?n] = Inr r3"
      and 4: "each (stop_worker acc reason) r3 [0..<?n] = Inr r4" "r' = r4\<lparr>drainTimer := True\<rparr>"
    using assms(1) by (auto simp: teardown_with_def Let_def and_then_Inr)
  have "fewer ?r0 r1" using 1 by (rule each_rel) (auto simp: end_queued_def and_then_Inr fewer_refl split: if_splits dest!: acc intro: fewer_trans [OF fewer_simps(1)] fewer_trans)
  moreover have "fewer (r1\<lparr>retryQueue := []\<rparr>) r3"
    using 3 by (rule each_rel) (auto simp: end_pending_def fewer_refl split: if_splits dest!: acc intro: fewer_trans simp: fewer_def)
  moreover have "fewer r3 r4"
    using 4(1) by (rule each_rel) (auto simp: stop_worker_def Let_def fewer_refl split: if_splits dest!: acc intro: fewer_trans simp: fewer_def)
  moreover have "fewer r ?r0" by (simp add: begin_teardown_def fewer_def split: StopReason.split)
  ultimately show ?thesis using 4(2) by (auto simp: fewer_def)
qed

lemma account_fewer: "account r i = Inr r' \<Longrightarrow> fewer r r'"
  unfolding account_def
  by (erule account_with_fewer, erule teardown_with_fewer, erule account_with_fewer) simp

definition pending_count :: "worker_run \<Rightarrow> nat" where
  "pending_count r = length (retryQueue r) + (length (workers r) - nextToSpawn r)"

lemma start_worker_fewer: "start_worker env r i = Inr r' \<Longrightarrow> fewer r r'"
  by (auto simp: start_worker_def launch_def reap_def Let_def fewer_def set_wk_def
      split: spawn_answer.splits arm_answer.splits dest!: account_fewer)

lemma fill_one_less: "fill_one env r = Inr r' \<Longrightarrow> has_pending r \<Longrightarrow> pending_count r' < pending_count r"
  by (auto simp: fill_one_def has_pending_def pending_count_def fewer_def split: list.splits dest!: start_worker_fewer)

function fill_loop :: "wr_env \<Rightarrow> worker_run \<Rightarrow> stop + worker_run" where
  "fill_loop env r =
     (if inFlight r < concurrency r \<and> has_pending r then
        (case fill_one env r of Inl s \<Rightarrow> Inl s | Inr r' \<Rightarrow> fill_loop env r')
      else Inr r)"
  by pat_completeness auto
termination by (relation "measure (\<lambda>(env, r). pending_count r)") (auto simp: fill_one_less)

declare fill_loop.simps [simp del]

definition fillSlots :: "wr_env \<Rightarrow> worker_run \<Rightarrow> stop + worker_run" where
  "fillSlots env r =
     (if filling r then Inr r else and_then (fill_loop env (r\<lparr>filling := True\<rparr>)) (\<lambda>r'. Inr (r'\<lparr>filling := False\<rparr>)))"

subsection \<open>Events\<close>

definition onExit :: "wr_env \<Rightarrow> worker_run \<Rightarrow> nat \<Rightarrow> stop + worker_run" where
  "onExit env r i = and_then (account (reap env r i) i) (fillSlots env)"

definition onReadable :: "wr_env \<Rightarrow> worker_run \<Rightarrow> nat \<Rightarrow> bool \<Rightarrow> bool \<Rightarrow> read_answer list \<Rightarrow> stop + worker_run" where
  "onReadable env r i isStdout hangup answers =
     (let (w, lines, ended) = take_output (disks env i isStdout) (outputCap r) (outputPolicy r) (hasSink r \<and> streamsLive r) isStdout hangup (wk r i) answers;
          r1 = (set_wk r i w)\<lparr>sinkCalls := sinkCalls r @ lines\<rparr>
      in if ended then account r1 i else Inr r1)"

definition onWritable :: "worker_run \<Rightarrow> nat \<Rightarrow> write_answer list \<Rightarrow> stop + worker_run" where
  "onWritable r i answers =
     (let (w, closed) = give_input (wk r i) answers; r1 = set_wk r i w in if closed then account r1 i else Inr r1)"

definition onRetry :: "wr_env \<Rightarrow> worker_run \<Rightarrow> nat \<Rightarrow> stop + worker_run" where
  "onRetry env r i =
     (let r1 = r\<lparr>retryTimers := removeAll i (retryTimers r), armed := removeAll i (armed r)\<rparr>; w = (wk r i)\<lparr>awaitingRetry := False\<rparr> in
      if counted (wk r i) then Inr r1
      else if run_cancelled r then account (set_wk r1 i (w\<lparr>w_cancelled := True\<rparr>)) i
      else fillSlots env ((set_wk r1 i (resetForRetry w))\<lparr>retryQueue := retryQueue r @ [i]\<rparr>))"

definition onDeadline :: "worker_run \<Rightarrow> stop + worker_run" where
  "onDeadline r = teardown (r\<lparr>deadlineTimer := False\<rparr>) Deadline"

definition onCancel :: "worker_run \<Rightarrow> stop + worker_run" where
  "onCancel r = (if run_cancelled r then Inr r else teardown r Cancel)"

definition abandon :: "wr_env \<Rightarrow> worker_run \<Rightarrow> nat \<Rightarrow> stop + worker_run" where
  "abandon env r i =
     (if w_complete (wk r i) then Inr r
      else let r1 = set_wk r i (close_input (close_output (close_output (wk r i) True) False)) in
        and_then (if w_exited (wk r i) then Inr r1 else onExit env (r1\<lparr>signals := signals r1 @ [(i, Kill)]\<rparr>) i) (\<lambda>r2. account r2 i))"

definition onDrainExpired :: "wr_env \<Rightarrow> worker_run \<Rightarrow> stop + worker_run" where
  "onDrainExpired env r = each (abandon env) (r\<lparr>drainTimer := False\<rparr>) [0..<length (workers r)]"

definition WorkerRun :: "worker list \<Rightarrow> (bool \<times> bool) \<Rightarrow> nat \<Rightarrow> bool \<Rightarrow> OverflowPolicy \<Rightarrow> nat \<Rightarrow> bool \<Rightarrow> nat \<Rightarrow> worker_run" where
  "WorkerRun ws sink limit feed pol ringBytes fast retries =
     \<lparr>workers = ws, hasSink = fst sink, streamsLive = snd sink, concurrency = (if limit = 0 then length ws else limit), feedInput = feed,
      outputCap = (if pol = Block then 0 else ringBytes), outputPolicy = pol, failFast = fast, maxRetries = retries, remaining = 0,
      nextToSpawn = 0, inFlight = 0, filling = False, deadlineTimer = False, drainTimer = False, anyTimedOut = False,
      run_cancelled = False, run_aborted = False, signalRegistered = False, retryTimers = [], armed = [], retryQueue = [],
      stopped = False, sinkCalls = [], signals = []\<rparr>"

text \<open>\<open>run\<close> up to the event loop; \<open>signals\<close> says that a handler could be registered.\<close>

definition wr_run :: "wr_env \<Rightarrow> worker_run \<Rightarrow> nat \<Rightarrow> bool \<Rightarrow> stop + worker_run" where
  "wr_run env r timeoutSec handler =
     fillSlots env (r\<lparr>remaining := length (workers r), signalRegistered := handler, deadlineTimer := (timeoutSec > 0)\<rparr>)"

datatype wr_event =
    Readable nat bool bool "read_answer list"
  | Writable nat "write_answer list"
  | ChildExits nat
  | DeadlineFires
  | SignalArrives
  | RetryFires nat
  | DrainFires

definition wr_step :: "wr_env \<Rightarrow> worker_run \<Rightarrow> wr_event \<Rightarrow> stop + worker_run" where
  "wr_step env r ev =
     (let n = length (workers r) in
      case ev of
        Readable i isStdout hangup answers \<Rightarrow>
          if i < n \<and> (if isStdout then w_stdoutToken (wk r i) else w_stderrToken (wk r i)) then onReadable env r i isStdout hangup answers else Inr r
      | Writable i answers \<Rightarrow> if i < n \<and> w_stdinToken (wk r i) then onWritable r i answers else Inr r
      | ChildExits i \<Rightarrow> if i < n \<and> w_running (wk r i) then onExit env r i else Inr r
      | DeadlineFires \<Rightarrow> if deadlineTimer r then onDeadline r else Inr r
      | SignalArrives \<Rightarrow> if signalRegistered r then onCancel r else Inr r
      | RetryFires i \<Rightarrow> if i \<in> set (armed r) then onRetry env r i else Inr r
      | DrainFires \<Rightarrow> if drainTimer r then onDrainExpired env r else Inr r)"

definition wr_events :: "wr_env \<Rightarrow> worker_run \<Rightarrow> wr_event list \<Rightarrow> stop + worker_run" where
  "wr_events env r evs = each (wr_step env) r evs"

end
