(* ===== verification/Worker_Safety.thy ===== *)
theory Worker_Safety
  imports Worker_Run
begin

text \<open>
  The invariants of \<open>WorkerRun\<close> and their proof for every event: each child is counted exactly once, the number in
  flight is accounted and bounded, a run that is not over always waits for something, and a teardown ends.
\<close>

subsection \<open>Access\<close>

abbreviation total_workers :: "worker_run \<Rightarrow> nat" where "total_workers r \<equiv> length (workers r)"

lemma wk_set_wk [simp]: "wk (set_wk r i w) j = (if i = j \<and> j < total_workers r then w else wk r j)"
  by (auto simp: wk_def set_wk_def not_less nth_update_out)

lemma set_wk_fields [simp]:
  "hasSink (set_wk r i w) = hasSink r" "streamsLive (set_wk r i w) = streamsLive r" "concurrency (set_wk r i w) = concurrency r"
  "feedInput (set_wk r i w) = feedInput r" "outputCap (set_wk r i w) = outputCap r" "outputPolicy (set_wk r i w) = outputPolicy r"
  "failFast (set_wk r i w) = failFast r" "maxRetries (set_wk r i w) = maxRetries r" "remaining (set_wk r i w) = remaining r"
  "inFlight (set_wk r i w) = inFlight r" "filling (set_wk r i w) = filling r" "deadlineTimer (set_wk r i w) = deadlineTimer r"
  "drainTimer (set_wk r i w) = drainTimer r" "anyTimedOut (set_wk r i w) = anyTimedOut r" "run_cancelled (set_wk r i w) = run_cancelled r"
  "run_aborted (set_wk r i w) = run_aborted r" "signalRegistered (set_wk r i w) = signalRegistered r" "retryTimers (set_wk r i w) = retryTimers r"
  "armed (set_wk r i w) = armed r" "stopped (set_wk r i w) = stopped r"
  by (simp_all add: set_wk_def)

lemma wk_counters [simp]:
  "wk (r\<lparr>remaining := a\<rparr>) j = wk r j" "wk (r\<lparr>nextToSpawn := a\<rparr>) j = wk r j" "wk (r\<lparr>inFlight := a\<rparr>) j = wk r j"
  "wk (r\<lparr>filling := b\<rparr>) j = wk r j" "wk (r\<lparr>deadlineTimer := b\<rparr>) j = wk r j" "wk (r\<lparr>drainTimer := b\<rparr>) j = wk r j"
  "wk (r\<lparr>anyTimedOut := b\<rparr>) j = wk r j" "wk (r\<lparr>run_cancelled := b\<rparr>) j = wk r j" "wk (r\<lparr>run_aborted := b\<rparr>) j = wk r j"
  "wk (r\<lparr>signalRegistered := b\<rparr>) j = wk r j" "wk (r\<lparr>retryTimers := l\<rparr>) j = wk r j" "wk (r\<lparr>armed := l\<rparr>) j = wk r j"
  "wk (r\<lparr>retryQueue := l\<rparr>) j = wk r j" "wk (r\<lparr>stopped := b\<rparr>) j = wk r j" "wk (r\<lparr>sinkCalls := c\<rparr>) j = wk r j" "wk (r\<lparr>signals := g\<rparr>) j = wk r j"
  by (simp_all add: wk_def)

subsection \<open>The invariant\<close>

text \<open>The state of one child, given the next index to start, the queue, the armed timers, the retry limit and the children
  \<open>D\<close> about to be accounted.\<close>

definition worker_ok :: "nat set \<Rightarrow> nat \<Rightarrow> nat set \<Rightarrow> nat set \<Rightarrow> nat \<Rightarrow> nat \<Rightarrow> worker \<Rightarrow> bool" where
  "worker_ok D next_i queue timers limit i w \<longleftrightarrow>
     (counted w \<longrightarrow> w_complete w \<and> \<not> awaitingRetry w) \<and>
     (w_running w \<longrightarrow> \<not> w_exited w \<and> i < next_i \<and> i \<notin> queue) \<and>
     (next_i \<le> i \<longrightarrow> \<not> w_exited w \<and> attempt w = 0) \<and>
     (i \<in> queue \<longrightarrow> \<not> w_exited w \<and> 0 < attempt w) \<and>
     (awaitingRetry w \<longrightarrow> w_complete w \<and> i \<in> timers \<and> 0 < attempt w) \<and>
     (i \<in> timers \<longrightarrow> w_complete w \<and> (awaitingRetry w \<or> counted w \<or> i \<in> D)) \<and>
     attempt w \<le> limit \<and>
     (w_complete w \<longrightarrow> counted w \<or> awaitingRetry w \<or> i \<in> D) \<and>
     (next_i \<le> i \<or> i \<in> queue \<or> w_running w \<or> w_exited w) \<and>
     (w_stdoutToken w \<longrightarrow> \<not> w_stdoutClosed w) \<and> (w_stderrToken w \<longrightarrow> \<not> w_stderrClosed w) \<and> (w_stdinToken w \<longrightarrow> \<not> w_stdinClosed w) \<and>
     (if w_running w \<or> w_exited w
      then (w_stdoutClosed w \<or> w_stdoutToken w) \<and> (w_stderrClosed w \<or> w_stderrToken w) \<and> (w_stdinClosed w \<or> w_stdinToken w)
      else \<not> w_stdoutToken w \<and> \<not> w_stderrToken w \<and> \<not> w_stdinToken w \<and> \<not> w_stdoutClosed w \<and> \<not> w_stderrClosed w \<and> \<not> w_stdinClosed w)"

definition counts_ok :: "worker_run \<Rightarrow> bool" where
  "counts_ok r \<longleftrightarrow> remaining r = (\<Sum>i<total_workers r. of_bool (\<not> counted (wk r i))) \<and>
     inFlight r = (\<Sum>i<total_workers r. of_bool (w_running (wk r i)))"

definition shape_ok :: "worker_run \<Rightarrow> bool" where
  "shape_ok r \<longleftrightarrow> 0 < total_workers r \<and> 0 < concurrency r \<and> inFlight r \<le> concurrency r \<and> nextToSpawn r \<le> total_workers r \<and>
     distinct (retryQueue r) \<and> set (retryQueue r) \<subseteq> {..<nextToSpawn r} \<and> set (armed r) \<subseteq> {..<total_workers r} \<and> (stopped r \<longleftrightarrow> remaining r = 0)"

definition winv :: "nat set \<Rightarrow> worker_run \<Rightarrow> bool" where
  "winv D r \<longleftrightarrow> counts_ok r \<and> shape_ok r \<and>
     (\<forall>i < total_workers r. worker_ok D (nextToSpawn r) (set (retryQueue r)) (set (armed r)) (maxRetries r) i (wk r i))"

text \<open>One child changes, and with it the counters and the lists.\<close>

lemma winv_update:
  assumes v: "winv D r" and i: "i < total_workers r"
    and ws: "workers r' = (workers r)[i := w]"
    and others: "\<And>j. j \<noteq> i \<Longrightarrow> (nextToSpawn r' \<le> j) = (nextToSpawn r \<le> j)" "\<And>j. j \<noteq> i \<Longrightarrow> j \<in> set (retryQueue r') \<longleftrightarrow> j \<in> set (retryQueue r)"
      "\<And>j. j \<noteq> i \<Longrightarrow> j \<in> set (armed r') \<longleftrightarrow> j \<in> set (armed r)" "D - {i} \<subseteq> D'" "D' \<subseteq> insert i D" "maxRetries r' = maxRetries r"
    and ok: "worker_ok D' (nextToSpawn r') (set (retryQueue r')) (set (armed r')) (maxRetries r) i w"
    and cnt: "remaining r' + of_bool (\<not> counted (wk r i)) = remaining r + of_bool (\<not> counted w)"
      "inFlight r' + of_bool (w_running (wk r i)) = inFlight r + of_bool (w_running w)"
    and shape: "shape_ok r'"
  shows "winv D' r'"
proof -
  let ?n = "total_workers r"
  have n: "total_workers r' = ?n" using ws by simp
  have wk': "wk r' j = (if j = i then w else wk r j)" for j using ws i by (auto simp: wk_def)
  have u: "(\<Sum>j<?n. of_bool (\<not> counted (wk r' j))) + of_bool (\<not> counted (wk r i)) = (\<Sum>j<?n. of_bool (\<not> counted (wk r j))) + (of_bool (\<not> counted w) :: nat)"
    using sum_one_changed [OF i, of "\<lambda>j. of_bool (\<not> counted (wk r' j))" "\<lambda>j. of_bool (\<not> counted (wk r j))"] by (simp add: wk')
  have f: "(\<Sum>j<?n. of_bool (w_running (wk r' j))) + of_bool (w_running (wk r i)) = (\<Sum>j<?n. of_bool (w_running (wk r j))) + (of_bool (w_running w) :: nat)"
    using sum_one_changed [OF i, of "\<lambda>j. of_bool (w_running (wk r' j))" "\<lambda>j. of_bool (w_running (wk r j))"] by (simp add: wk')
  have c: "counts_ok r" using v by (simp add: winv_def)
  have "counts_ok r'" using u f c cnt unfolding counts_ok_def n by linarith
  moreover have "worker_ok D' (nextToSpawn r') (set (retryQueue r')) (set (armed r')) (maxRetries r') j (wk r' j)" if j: "j < ?n" for j
  proof (cases "j = i")
    case True
    then show ?thesis using ok others(6) by (simp add: wk')
  next
    case False
    have "worker_ok D (nextToSpawn r) (set (retryQueue r)) (set (armed r)) (maxRetries r) j (wk r j)" using v j by (simp add: winv_def)
    moreover have "(j < nextToSpawn r') = (j < nextToSpawn r)" "(j \<in> D') = (j \<in> D)" using others(1) [OF False] others(4,5) False by auto
    ultimately show ?thesis using False others(1-3) [OF False] others(6) unfolding worker_ok_def wk' by simp
  qed
  ultimately show ?thesis using shape by (simp add: winv_def n)
qed

lemma winvD:
  assumes "winv D r" "i < total_workers r"
  shows "worker_ok D (nextToSpawn r) (set (retryQueue r)) (set (armed r)) (maxRetries r) i (wk r i)"
  using assms by (simp add: winv_def)

lemma winv_shape: "winv D r \<Longrightarrow> shape_ok r"
  by (simp add: winv_def)

lemma uncounted_remaining:
  assumes "winv D r" "i < total_workers r" "\<not> counted (wk r i)"
  shows "0 < remaining r"
proof -
  have "{..<total_workers r} \<inter> {j. \<not> counted (wk r j)} \<noteq> {}" using assms(2,3) by blast
  then show ?thesis using assms(1) by (simp add: winv_def counts_ok_def card_gt_0_iff)
qed

lemma running_inFlight:
  assumes "winv D r" "i < total_workers r" "w_running (wk r i)"
  shows "0 < inFlight r"
proof -
  have "{..<total_workers r} \<inter> {j. w_running (wk r j)} \<noteq> {}" using assms(2,3) by blast
  then show ?thesis using assms(1) by (simp add: winv_def counts_ok_def card_gt_0_iff)
qed

text \<open>The invariant depends on these fields only.\<close>

lemma winv_cong:
  assumes "workers r' = workers r" "remaining r' = remaining r" "inFlight r' = inFlight r" "nextToSpawn r' = nextToSpawn r"
    "retryQueue r' = retryQueue r" "set (armed r') = set (armed r)" "maxRetries r' = maxRetries r" "concurrency r' = concurrency r" "stopped r' = stopped r"
  shows "winv D r' = winv D r"
proof -
  have "wk r' i = wk r i" for i using assms(1) by (simp add: wk_def)
  then show ?thesis using assms by (simp add: winv_def counts_ok_def shape_ok_def)
qed

lemma winv_flags [simp]:
  "winv D (r\<lparr>run_aborted := b\<rparr>) = winv D r" "winv D (r\<lparr>run_cancelled := b\<rparr>) = winv D r" "winv D (r\<lparr>anyTimedOut := b\<rparr>) = winv D r"
  "winv D (r\<lparr>drainTimer := b\<rparr>) = winv D r" "winv D (r\<lparr>deadlineTimer := b\<rparr>) = winv D r" "winv D (r\<lparr>filling := b\<rparr>) = winv D r"
  "winv D (r\<lparr>retryTimers := l\<rparr>) = winv D r" "winv D (r\<lparr>signals := g\<rparr>) = winv D r" "winv D (r\<lparr>sinkCalls := c\<rparr>) = winv D r"
  by (rule winv_cong; simp)+

subsection \<open>What a teardown leaves\<close>

definition torn :: "worker_run \<Rightarrow> bool" where
  "torn r \<longleftrightarrow> anyTimedOut r \<or> run_cancelled r \<or> run_aborted r"

text \<open>A child that will not be started or retried again.\<close>

definition doomed :: "worker_run \<Rightarrow> nat \<Rightarrow> bool" where
  "doomed r i \<longleftrightarrow> counted (wk r i) \<or> \<not> awaitingRetry (wk r i) \<and> (w_timedOut (wk r i) \<or> run_cancelled r \<or> run_aborted r)"

definition torn_core :: "worker_run \<Rightarrow> bool" where
  "torn_core r \<longleftrightarrow> (torn r \<longrightarrow> nextToSpawn r = total_workers r \<and> retryQueue r = [] \<and> (\<forall>i < total_workers r. doomed r i))"

definition torn_ok :: "worker_run \<Rightarrow> bool" where
  "torn_ok r \<longleftrightarrow> torn_core r \<and> (torn r \<longrightarrow> drainTimer r \<or> remaining r = 0) \<and> (drainTimer r \<longrightarrow> torn r)"

definition same_config :: "worker_run \<Rightarrow> worker_run \<Rightarrow> bool" where
  "same_config r r' \<longleftrightarrow> total_workers r' = total_workers r \<and> concurrency r' = concurrency r \<and> failFast r' = failFast r \<and>
     maxRetries r' = maxRetries r \<and> feedInput r' = feedInput r \<and> deadlineTimer r' = deadlineTimer r \<and> filling r' = filling r"

definition keeps :: "worker_run \<Rightarrow> worker_run \<Rightarrow> bool" where
  "keeps r r' \<longleftrightarrow> same_config r r' \<and> inFlight r' = inFlight r \<and>
     (run_cancelled r \<longrightarrow> run_cancelled r') \<and> (run_aborted r \<longrightarrow> run_aborted r') \<and> (anyTimedOut r \<longrightarrow> anyTimedOut r') \<and>
     (drainTimer r \<longrightarrow> drainTimer r') \<and> remaining r' \<le> remaining r \<and>
     (\<forall>j < total_workers r. (doomed r j \<longrightarrow> doomed r' j) \<and> (counted (wk r j) \<longrightarrow> counted (wk r' j)) \<and>
        w_running (wk r' j) = w_running (wk r j)) \<and>
     (retryQueue r = [] \<longrightarrow> retryQueue r' = []) \<and> (nextToSpawn r = total_workers r \<longrightarrow> nextToSpawn r' = total_workers r)"

lemma keeps_refl: "keeps r r"
  by (simp add: keeps_def same_config_def)

lemma keeps_trans: "keeps r r' \<Longrightarrow> keeps r' r'' \<Longrightarrow> keeps r r''"
  unfolding keeps_def same_config_def by auto

definition quiet :: "worker_run \<Rightarrow> bool" where
  "quiet r \<longleftrightarrow> run_cancelled r \<or> run_aborted r \<or> \<not> failFast r"

lemma keeps_quiet: "keeps r r' \<Longrightarrow> quiet r \<Longrightarrow> quiet r'"
  by (auto simp: keeps_def same_config_def quiet_def)

subsection \<open>account\<close>

lemma settle_idle:
  assumes "winv D r" "D \<subseteq> {i}" "i < total_workers r" "counted (wk r i) \<or> awaitingRetry (wk r i) \<or> \<not> w_complete (wk r i)"
  shows "winv {} r"
proof (rule winv_update [OF assms(1,3), of r "wk r i"])
  show "workers r = (workers r)[i := wk r i]" by (simp add: wk_def)
  show "worker_ok {} (nextToSpawn r) (set (retryQueue r)) (set (armed r)) (maxRetries r) i (wk r i)"
    using winvD [OF assms(1,3)] assms(4) unfolding worker_ok_def by (simp only: empty_iff) blast
  show "D - {i} \<subseteq> {}" "{} \<subseteq> insert i D" using assms(2) by auto
  show "shape_ok r" using assms(1) by (rule winv_shape)
qed simp_all

lemma settle_retry:
  assumes v: "winv D r" "D \<subseteq> {i}" and i: "i < total_workers r" and w: "\<not> counted (wk r i)" "\<not> awaitingRetry (wk r i)" "w_complete (wk r i)"
    "attempt (wk r i) < maxRetries r"
  shows "winv {} (scheduleRetry r i)"
proof (rule winv_update [OF v(1) i, of _ "(wk r i)\<lparr>awaitingRetry := True, attempt := attempt (wk r i) + 1\<rparr>"])
  show "workers (scheduleRetry r i) = (workers r)[i := (wk r i)\<lparr>awaitingRetry := True, attempt := attempt (wk r i) + 1\<rparr>]"
    by (simp add: scheduleRetry_def set_wk_def)
  show "worker_ok {} (nextToSpawn (scheduleRetry r i)) (set (retryQueue (scheduleRetry r i))) (set (armed (scheduleRetry r i))) (maxRetries r) i
      ((wk r i)\<lparr>awaitingRetry := True, attempt := attempt (wk r i) + 1\<rparr>)"
    using winvD [OF v(1) i] w by (auto simp: worker_ok_def scheduleRetry_def w_complete_def)
  show "D - {i} \<subseteq> {}" "{} \<subseteq> insert i D" using v(2) by auto
  show "shape_ok (scheduleRetry r i)" using winv_shape [OF v(1)] i by (simp add: shape_ok_def scheduleRetry_def)
qed (simp_all add: scheduleRetry_def)

definition count_one :: "worker_run \<Rightarrow> nat \<Rightarrow> worker_run" where
  "count_one r i =
     (let r1 = (set_wk r i ((wk r i)\<lparr>counted := True\<rparr>))\<lparr>remaining := remaining r - 1\<rparr>
      in if remaining r1 = 0 then r1\<lparr>stopped := True\<rparr> else r1)"

lemma count_one_fields [simp]:
  "workers (count_one r i) = (workers r)[i := (wk r i)\<lparr>counted := True\<rparr>]" "remaining (count_one r i) = remaining r - 1"
  "stopped (count_one r i) = (stopped r \<or> remaining r \<le> 1)" "nextToSpawn (count_one r i) = nextToSpawn r"
  "retryQueue (count_one r i) = retryQueue r" "armed (count_one r i) = armed r" "inFlight (count_one r i) = inFlight r"
  "concurrency (count_one r i) = concurrency r" "maxRetries (count_one r i) = maxRetries r" "failFast (count_one r i) = failFast r"
  "feedInput (count_one r i) = feedInput r" "deadlineTimer (count_one r i) = deadlineTimer r" "filling (count_one r i) = filling r"
  "drainTimer (count_one r i) = drainTimer r" "anyTimedOut (count_one r i) = anyTimedOut r" "run_cancelled (count_one r i) = run_cancelled r"
  "run_aborted (count_one r i) = run_aborted r"
  "wk (count_one r i) j = (if i = j \<and> j < total_workers r then (wk r j)\<lparr>counted := True\<rparr> else wk r j)"
  by (auto simp: count_one_def Let_def set_wk_def wk_def not_less nth_update_out)

lemma scheduleRetry_fields [simp]:
  "nextToSpawn (scheduleRetry r i) = nextToSpawn r" "retryQueue (scheduleRetry r i) = retryQueue r"
  by (simp_all add: scheduleRetry_def)

lemma settle_count:
  assumes v: "winv D r" "D \<subseteq> {i}" and i: "i < total_workers r" and w: "\<not> counted (wk r i)" "\<not> awaitingRetry (wk r i)" "w_complete (wk r i)"
  shows "winv {} (count_one r i)"
proof (rule winv_update [OF v(1) i, of _ "(wk r i)\<lparr>counted := True\<rparr>"])
  show "workers (count_one r i) = (workers r)[i := (wk r i)\<lparr>counted := True\<rparr>]" by simp
  show "worker_ok {} (nextToSpawn (count_one r i)) (set (retryQueue (count_one r i))) (set (armed (count_one r i))) (maxRetries r) i
      ((wk r i)\<lparr>counted := True\<rparr>)"
    using winvD [OF v(1) i] w by (auto simp: worker_ok_def w_complete_def)
  show "D - {i} \<subseteq> {}" "{} \<subseteq> insert i D" using v(2) by auto
  show "remaining (count_one r i) + of_bool (\<not> counted (wk r i)) = remaining r + of_bool (\<not> counted (wk r i\<lparr>counted := True\<rparr>))"
    using uncounted_remaining [OF v(1) i w(1)] w(1) by simp
  show "shape_ok (count_one r i)" using winv_shape [OF v(1)] i uncounted_remaining [OF v(1) i w(1)] by (auto simp: shape_ok_def)
qed simp_all

lemma keeps_count: "winv D r \<Longrightarrow> i < total_workers r \<Longrightarrow> keeps r (count_one r i)"
  by (auto simp: keeps_def same_config_def doomed_def)

lemma torn_count: "torn_ok r \<Longrightarrow> torn_ok (count_one r i)" "torn_core r \<Longrightarrow> torn_core (count_one r i)"
  by (auto simp: torn_ok_def torn_core_def torn_def doomed_def)

text \<open>The code's \<open>account\<close> in terms of the three outcomes.\<close>

lemma account_with_cases:
  assumes v: "winv D r" and i: "i < total_workers r"
  shows "account_with td r i =
    (if counted (wk r i) \<or> awaitingRetry (wk r i) \<or> \<not> w_complete (wk r i) then Inr r
     else if \<not> run_cancelled r \<and> \<not> run_aborted r \<and> attempt (wk r i) < maxRetries r \<and> retryable (wk r i) then Inr (scheduleRetry r i)
     else if remaining r \<noteq> 1 \<and> \<not> quiet r \<and> isFailure (wk r i) then td ((count_one r i)\<lparr>run_aborted := True\<rparr>)
     else Inr (count_one r i))"
proof -
  have "stopped r = (remaining r = 0)" using winv_shape [OF v] by (simp add: shape_ok_def)
  moreover have "\<not> counted (wk r i) \<Longrightarrow> 0 < remaining r" using uncounted_remaining [OF v i] by simp
  ultimately show ?thesis by (auto simp: account_with_def Let_def count_one_def quiet_def set_wk_def)
qed

definition td_ok :: "(worker_run \<Rightarrow> stop + worker_run) \<Rightarrow> bool" where
  "td_ok td \<longleftrightarrow> (\<forall>r. winv {} r \<and> run_aborted r \<longrightarrow> (\<exists>r'. td r = Inr r' \<and> winv {} r' \<and> keeps r r' \<and> torn_ok r'))"

definition accounted :: "nat \<Rightarrow> worker_run \<Rightarrow> worker_run \<Rightarrow> bool" where
  "accounted i r r' \<longleftrightarrow> winv {} r' \<and> keeps r r' \<and> (w_complete (wk r i) \<and> doomed r i \<longrightarrow> counted (wk r' i)) \<and>
     (torn_ok r \<longrightarrow> torn_ok r') \<and> (torn_core r \<longrightarrow> torn_core r') \<and>
     (nextToSpawn r' = nextToSpawn r \<and> retryQueue r' = retryQueue r \<or> nextToSpawn r' = total_workers r \<and> retryQueue r' = [] \<and> \<not> quiet r)"

lemma account_with_spec:
  assumes v: "winv D r" "D \<subseteq> {i}" and i: "i < total_workers r" and td: "\<not> quiet r \<Longrightarrow> td_ok td"
  shows "\<exists>r'. account_with td r i = Inr r' \<and> accounted i r r'"
proof -
  let ?w = "wk r i"
  note ac = account_with_cases [OF v(1) i, of td]
  consider (idle) "counted ?w \<or> awaitingRetry ?w \<or> \<not> w_complete ?w"
    | (retry) "\<not> counted ?w" "\<not> awaitingRetry ?w" "w_complete ?w" "\<not> run_cancelled r \<and> \<not> run_aborted r \<and> attempt ?w < maxRetries r \<and> retryable ?w"
    | (abort) "\<not> counted ?w" "\<not> awaitingRetry ?w" "w_complete ?w" "\<not> (\<not> run_cancelled r \<and> \<not> run_aborted r \<and> attempt ?w < maxRetries r \<and> retryable ?w)"
        "remaining r \<noteq> 1 \<and> \<not> quiet r \<and> isFailure ?w"
    | (count) "\<not> counted ?w" "\<not> awaitingRetry ?w" "w_complete ?w" "\<not> (\<not> run_cancelled r \<and> \<not> run_aborted r \<and> attempt ?w < maxRetries r \<and> retryable ?w)"
        "\<not> (remaining r \<noteq> 1 \<and> \<not> quiet r \<and> isFailure ?w)" by blast
  then show ?thesis
  proof cases
    case idle
    then have "account_with td r i = Inr r" using ac by simp
    moreover have "w_complete ?w \<and> doomed r i \<longrightarrow> counted ?w" using idle by (auto simp: doomed_def)
    ultimately show ?thesis using settle_idle [OF v i idle] keeps_refl by (auto simp: accounted_def)
  next
    case retry
    let ?r = "scheduleRetry r i"
    have "account_with td r i = Inr ?r" using ac retry by simp
    moreover have nd: "\<not> doomed r i" using retry by (auto simp: doomed_def retryable_def)
    then have "keeps r ?r" using i by (auto simp: keeps_def same_config_def scheduleRetry_def doomed_def)
    moreover have "(torn_ok r \<longrightarrow> torn_ok ?r) \<and> (torn_core r \<longrightarrow> torn_core ?r)"
    proof -
      have t: "torn ?r = torn r" "drainTimer ?r = drainTimer r" by (simp_all add: torn_def scheduleRetry_def)
      have "torn_core r \<Longrightarrow> \<not> torn r" using nd i unfolding torn_core_def by blast
      moreover have "\<not> torn r \<Longrightarrow> torn_core ?r" unfolding torn_core_def t by simp
      ultimately show ?thesis unfolding torn_ok_def t by blast
    qed
    ultimately show ?thesis using settle_retry [OF v i] retry nd by (auto simp: accounted_def)
  next
    case abort
    let ?r = "(count_one r i)\<lparr>run_aborted := True\<rparr>"
    have "winv {} ?r" using settle_count [OF v i abort(1-3)] by simp
    moreover have "td_ok td" "run_aborted ?r" using td abort(5) by simp_all
    ultimately obtain r' where r': "td ?r = Inr r'" "winv {} r'" "keeps ?r r'" "torn_ok r'" unfolding td_ok_def by blast
    have k0: "keeps r ?r" using keeps_count [OF v(1) i] by (auto simp: keeps_def same_config_def doomed_def)
    have k: "keeps r r'" by (rule keeps_trans [OF k0 r'(3)])
    have t: "torn r'" using r'(3) by (auto simp: keeps_def torn_def)
    have n: "total_workers r' = total_workers r" using k by (simp add: keeps_def same_config_def)
    have "counted (wk ?r i)" "i < total_workers ?r" using i by simp_all
    then have "counted (wk r' i)" using r'(3) unfolding keeps_def by blast
    then show ?thesis using ac abort r' k t n by (auto simp: accounted_def torn_ok_def torn_core_def)
  next
    case count
    let ?r = "count_one r i"
    have "account_with td r i = Inr ?r" using ac count by auto
    moreover have "counted (wk ?r i)" using i by simp
    ultimately show ?thesis using settle_count [OF v i count(1-3)] keeps_count [OF v(1) i] torn_count
      by (auto simp: accounted_def)
  qed
qed

subsection \<open>teardown\<close>

lemma mark_fields [simp]:
  "counted (mark w reason) = counted w" "awaitingRetry (mark w reason) = awaitingRetry w" "w_running (mark w reason) = w_running w"
  "w_exited (mark w reason) = w_exited w" "attempt (mark w reason) = attempt w" "w_stdoutClosed (mark w reason) = w_stdoutClosed w"
  "w_stderrClosed (mark w reason) = w_stderrClosed w" "w_stdinClosed (mark w reason) = w_stdinClosed w"
  "w_stdoutToken (mark w reason) = w_stdoutToken w" "w_stderrToken (mark w reason) = w_stderrToken w"
  "w_stdinToken (mark w reason) = w_stdinToken w" "w_complete (mark w reason) = w_complete w"
  "w_timedOut (mark w reason) = (w_timedOut w \<or> reason = Deadline)"
  by (auto simp: mark_def w_complete_def split: StopReason.split)

lemma end_now_fields [simp]:
  "counted (end_now w) = counted w" "awaitingRetry (end_now w) = awaitingRetry w" "w_running (end_now w) = w_running w"
  "w_exited (end_now w)" "attempt (end_now w) = attempt w" "w_stdoutClosed (end_now w)" "w_stderrClosed (end_now w)" "w_stdinClosed (end_now w)"
  "w_stdoutToken (end_now w) = w_stdoutToken w" "w_stderrToken (end_now w) = w_stderrToken w" "w_stdinToken (end_now w) = w_stdinToken w"
  "w_complete (end_now w)" "w_timedOut (end_now w) = w_timedOut w"
  by (simp_all add: end_now_def w_complete_def)

text \<open>What teardown needs of \<open>account\<close>, everywhere or where no further teardown can start.\<close>

definition acc_ok :: "bool \<Rightarrow> accounting \<Rightarrow> bool" where
  "acc_ok everywhere acc \<longleftrightarrow>
     (\<forall>r D i. winv D r \<and> D \<subseteq> {i} \<and> i < total_workers r \<and> (everywhere \<or> quiet r) \<longrightarrow> (\<exists>r'. acc r i = Inr r' \<and> accounted i r r')) \<and>
     (\<forall>r q i. quiet r \<longrightarrow> acc (r\<lparr>retryQueue := q\<rparr>) i = and_then (acc r i) (\<lambda>r'. Inr (r'\<lparr>retryQueue := q\<rparr>)))"

lemma acc_okD:
  assumes "acc_ok everywhere acc" "winv D r" "D \<subseteq> {i}" "i < total_workers r" "everywhere \<or> quiet r"
  obtains r' where "acc r i = Inr r'" "accounted i r r'"
  using assms unfolding acc_ok_def by blast

definition flagged :: "StopReason \<Rightarrow> worker_run \<Rightarrow> bool" where
  "flagged reason r \<longleftrightarrow> (case reason of Cancel \<Rightarrow> run_cancelled r | FailFast \<Rightarrow> run_aborted r | Deadline \<Rightarrow> anyTimedOut r)"

lemma flagged_keeps: "flagged reason r \<Longrightarrow> keeps r r' \<Longrightarrow> flagged reason r'"
  by (auto simp: flagged_def keeps_def split: StopReason.splits)

lemma account_queue:
  "quiet r \<Longrightarrow> account_with td (r\<lparr>retryQueue := q\<rparr>) i = and_then (account_with td r i) (\<lambda>r'. Inr (r'\<lparr>retryQueue := q\<rparr>))"
  by (auto simp: account_with_def Let_def quiet_def scheduleRetry_def set_wk_def and_then_def)

text \<open>The first loop, on the view in which the queue holds what is left of it.\<close>

lemma end_queued_step:
  assumes v: "winv {} s" "quiet s" "retryQueue s = i # rest" and a: "acc_ok everywhere acc"
  shows "\<exists>s'. end_queued acc reason queue (s\<lparr>retryQueue := queue\<rparr>) i = Inr (s'\<lparr>retryQueue := queue\<rparr>) \<and> winv {} s' \<and> retryQueue s' = rest \<and>
    keeps s s' \<and> nextToSpawn s' = nextToSpawn s"
proof -
  define w where "w = end_now (mark (wk s i) reason)"
  define s1 where "s1 = (set_wk s i w)\<lparr>retryQueue := rest\<rparr>"
  have sh: "shape_ok s" using v(1) by (rule winv_shape)
  then have i: "i < total_workers s" "i < nextToSpawn s" "i \<notin> set rest" "distinct rest" using v(3) by (auto simp: shape_ok_def)
  have wi: "worker_ok {} (nextToSpawn s) (set (i # rest)) (set (armed s)) (maxRetries s) i (wk s i)" using winvD [OF v(1) i(1)] v(3) by simp
  have sh1: "shape_ok s1" using sh i v(3) by (auto simp: shape_ok_def s1_def)
  have v1: "winv {i} s1"
  proof (rule winv_update [OF v(1) i(1), of _ w])
    show "workers s1 = (workers s)[i := w]" by (simp add: s1_def set_wk_def)
    show "worker_ok {i} (nextToSpawn s1) (set (retryQueue s1)) (set (armed s1)) (maxRetries s) i w"
      using wi i by (auto simp: worker_ok_def s1_def w_def w_complete_def)
    show "j \<in> set (retryQueue s1) \<longleftrightarrow> j \<in> set (retryQueue s)" if "j \<noteq> i" for j using that v(3) by (simp add: s1_def)
    show "remaining s1 + of_bool (\<not> counted (wk s i)) = remaining s + of_bool (\<not> counted w)" by (simp add: s1_def w_def)
    show "inFlight s1 + of_bool (w_running (wk s i)) = inFlight s + of_bool (w_running w)" by (simp add: s1_def w_def)
  qed (simp_all add: s1_def sh1 [unfolded s1_def])
  have q1: "quiet s1" using v(2) by (simp add: s1_def quiet_def)
  have wk1: "wk s1 j = (if j = i then w else wk s j)" for j using i by (simp add: s1_def)
  have k1: "keeps s s1" using v(3) by (auto simp: keeps_def same_config_def doomed_def wk1 w_def) (auto simp: s1_def)
  have i1: "i < total_workers s1" using i(1) by (simp add: s1_def)
  obtain s2 where s2: "acc s1 i = Inr s2" "accounted i s1 s2" using acc_okD [OF a v1 subset_refl i1] q1 by blast
  have r2: "retryQueue s2 = rest" "nextToSpawn s2 = nextToSpawn s" using s2(2) q1 by (auto simp: accounted_def s1_def)
  have "acc (s1\<lparr>retryQueue := queue\<rparr>) i = Inr (s2\<lparr>retryQueue := queue\<rparr>)" using a q1 s2(1) by (simp add: acc_ok_def and_then_def)
  moreover have "set_wk (s\<lparr>retryQueue := queue\<rparr>) i (end_now (mark (wk (s\<lparr>retryQueue := queue\<rparr>) i) reason)) = s1\<lparr>retryQueue := queue\<rparr>"
    by (simp add: s1_def w_def set_wk_def)
  ultimately have "end_queued acc reason queue (s\<lparr>retryQueue := queue\<rparr>) i = Inr (s2\<lparr>retryQueue := queue\<rparr>)"
    by (simp add: end_queued_def and_then_def)
  then show ?thesis using s2(2) r2 keeps_trans [OF k1] by (auto simp: accounted_def)
qed

lemma end_queue:
  assumes "winv {} s" "quiet s" "acc_ok everywhere acc"
  shows "\<exists>s'. each (end_queued acc reason queue) (s\<lparr>retryQueue := queue\<rparr>) (retryQueue s) = Inr (s'\<lparr>retryQueue := queue\<rparr>) \<and> winv {} s' \<and>
    retryQueue s' = [] \<and> keeps s s' \<and> nextToSpawn s' = nextToSpawn s"
  using assms(1,2)
proof (induction "retryQueue s" arbitrary: s)
  case Nil
  then show ?case by (auto intro!: exI [of _ s] keeps_refl)
next
  case (Cons i rest)
  obtain s1 where s1: "end_queued acc reason queue (s\<lparr>retryQueue := queue\<rparr>) i = Inr (s1\<lparr>retryQueue := queue\<rparr>)" "winv {} s1"
      "retryQueue s1 = rest" "keeps s s1" "nextToSpawn s1 = nextToSpawn s"
    using end_queued_step [OF Cons.prems Cons.hyps(2) [symmetric] assms(3)] by blast
  have "quiet s1" by (rule keeps_quiet [OF s1(4) Cons.prems(2)])
  then obtain s2 where "each (end_queued acc reason queue) (s1\<lparr>retryQueue := queue\<rparr>) rest = Inr (s2\<lparr>retryQueue := queue\<rparr>)" "winv {} s2"
      "retryQueue s2 = []" "keeps s1 s2" "nextToSpawn s2 = nextToSpawn s1"
    using Cons.hyps(1) [of s1] s1(2,3) by blast
  then show ?case using s1 keeps_trans [OF s1(4)] unfolding Cons.hyps(2) [symmetric] by (auto simp: and_then_def intro!: exI [of _ s2])
qed

lemma end_pending_step:
  assumes v: "winv {} r" "retryQueue r = []" and a: "acc_ok everywhere acc" "everywhere \<or> quiet r" and k: "nextToSpawn r = k" "k < total_workers r"
  shows "\<exists>r'. end_pending acc reason r k = Inr r' \<and> winv {} r' \<and> retryQueue r' = [] \<and> keeps r r' \<and>
    (nextToSpawn r' = k + 1 \<or> nextToSpawn r' = total_workers r)"
proof -
  define w where "w = end_now (mark (wk r k) reason)"
  define r1 where "r1 = (set_wk r k w)\<lparr>nextToSpawn := k + 1\<rparr>"
  have sh: "shape_ok r" using v(1) by (rule winv_shape)
  have wk: "worker_ok {} k {} (set (armed r)) (maxRetries r) k (wk r k)" using winvD [OF v(1) k(2)] k(1) v(2) by simp
  have v1: "winv {k} r1"
  proof (rule winv_update [OF v(1) k(2), of _ w])
    show "workers r1 = (workers r)[k := w]" by (simp add: r1_def set_wk_def)
    show "worker_ok {k} (nextToSpawn r1) (set (retryQueue r1)) (set (armed r1)) (maxRetries r) k w"
      using wk v(2) by (auto simp: worker_ok_def r1_def w_def w_complete_def)
    show "(nextToSpawn r1 \<le> j) = (nextToSpawn r \<le> j)" if "j \<noteq> k" for j using that k(1) by (auto simp: r1_def)
    show "remaining r1 + of_bool (\<not> counted (wk r k)) = remaining r + of_bool (\<not> counted w)" by (simp add: r1_def w_def)
    show "inFlight r1 + of_bool (w_running (wk r k)) = inFlight r + of_bool (w_running w)" by (simp add: r1_def w_def)
    show "shape_ok r1" using sh k v(2) by (auto simp: shape_ok_def r1_def)
  qed (simp_all add: r1_def)
  have wk1: "Worker_Run.wk r1 j = (if j = k then w else Worker_Run.wk r j)" for j using k by (simp add: r1_def)
  have k1: "keeps r r1" using v(2) k by (auto simp: keeps_def same_config_def doomed_def wk1 w_def) (auto simp: r1_def)
  have "everywhere \<or> quiet r1" using a(2) by (simp add: r1_def quiet_def)
  moreover have "k < total_workers r1" using k(2) by (simp add: r1_def)
  ultimately obtain r2 where r2: "acc r1 k = Inr r2" "accounted k r1 r2" using acc_okD [OF a(1) v1 subset_refl] by blast
  have "end_pending acc reason r k = Inr r2" using r2(1) k(1) by (simp add: end_pending_def r1_def w_def)
  moreover have "nextToSpawn r2 = k + 1 \<or> nextToSpawn r2 = total_workers r" "retryQueue r2 = []"
    using r2(2) v(2) by (auto simp: accounted_def r1_def)
  ultimately show ?thesis using r2(2) keeps_trans [OF k1] by (auto simp: accounted_def)
qed

lemma end_all_pending:
  assumes "winv {} r" "retryQueue r = []" "acc_ok everywhere acc" "everywhere \<or> quiet r" "nextToSpawn r = k \<or> nextToSpawn r = total_workers r" "k \<le> total_workers r"
  shows "\<exists>r'. each (end_pending acc reason) r [k..<total_workers r] = Inr r' \<and> winv {} r' \<and> retryQueue r' = [] \<and> keeps r r' \<and> nextToSpawn r' = total_workers r"
  using assms(1,2,4-6)
proof (induction "total_workers r - k" arbitrary: r k)
  case 0
  then show ?case using keeps_refl by auto
next
  case (Suc m)
  then have k: "k < total_workers r" by simp
  have ks: "[k..<total_workers r] = k # [Suc k..<total_workers r]" using k by (rule upt_conv_Cons)
  obtain r1 where r1: "end_pending acc reason r k = Inr r1" "winv {} r1" "retryQueue r1 = []" "keeps r r1"
      "nextToSpawn r1 = Suc k \<or> nextToSpawn r1 = total_workers r"
  proof (cases "nextToSpawn r = k")
    case True
    then show ?thesis using that end_pending_step [OF Suc.prems(1,2) assms(3) Suc.prems(3) True k, of reason] by auto
  next
    case False
    then show ?thesis using that [of r] Suc.prems keeps_refl by (auto simp: end_pending_def)
  qed
  have n: "total_workers r1 = total_workers r" using r1(4) by (simp add: keeps_def same_config_def)
  have m: "m = total_workers r1 - Suc k" using Suc.hyps(2) n by simp
  have e: "everywhere \<or> quiet r1" using keeps_quiet [OF r1(4)] Suc.prems(3) by blast
  obtain r2 where r2: "each (end_pending acc reason) r1 [Suc k..<total_workers r1] = Inr r2" "winv {} r2" "retryQueue r2 = []" "keeps r1 r2"
      "nextToSpawn r2 = total_workers r1"
    using Suc.hyps(1) [OF m r1(2,3) e] r1(5) n k by auto
  then show ?case using r1(1) n keeps_trans [OF r1(4) r2(4)] unfolding ks by (simp add: and_then_def)
qed

lemma mark_doomed: "flagged reason r \<Longrightarrow> \<not> awaitingRetry w \<Longrightarrow> wk r i = mark w reason \<Longrightarrow> doomed r i"
  by (cases reason) (auto simp: flagged_def doomed_def)

lemma stop_worker_step:
  assumes v: "winv {} r" and a: "acc_ok everywhere acc" "everywhere \<or> quiet r" and i: "i < total_workers r" and f: "flagged reason r"
  shows "\<exists>r'. stop_worker acc reason r i = Inr r' \<and> winv {} r' \<and> keeps r r' \<and> doomed r' i"
proof -
  let ?w = "wk r i"
  have wi: "worker_ok {} (nextToSpawn r) (set (retryQueue r)) (set (armed r)) (maxRetries r) i ?w" by (rule winvD [OF v i])
  have "w_complete ?w \<longrightarrow> counted ?w \<or> awaitingRetry ?w" using wi unfolding worker_ok_def by simp
  then consider "counted ?w" | (wait) "\<not> counted ?w" "awaitingRetry ?w" | (run) "\<not> counted ?w" "\<not> awaitingRetry ?w" "\<not> w_complete ?w"
    by blast
  then show ?thesis
  proof cases
    case 1
    then show ?thesis using v keeps_refl by (simp add: stop_worker_def doomed_def)
  next
    case wait
    define w where "w = mark (?w\<lparr>awaitingRetry := False\<rparr>) reason"
    define r1 where "r1 = set_wk r i w"
    have v1: "winv {i} r1"
    proof (rule winv_update [OF v i, of _ w])
      show "workers r1 = (workers r)[i := w]" by (simp add: r1_def set_wk_def)
      show "worker_ok {i} (nextToSpawn r1) (set (retryQueue r1)) (set (armed r1)) (maxRetries r) i w"
        using wi wait by (auto simp: worker_ok_def r1_def w_def w_complete_def)
      show "shape_ok r1" using winv_shape [OF v] by (simp add: shape_ok_def r1_def)
    qed (simp_all add: r1_def w_def)
    have k1: "keeps r r1" using wait i by (auto simp: keeps_def same_config_def doomed_def r1_def w_def)
    have d1: "doomed r1 i" by (rule mark_doomed [of reason r1 "?w\<lparr>awaitingRetry := False\<rparr>"]) (use f i in \<open>auto simp: flagged_def r1_def w_def split: StopReason.splits\<close>)
    have "everywhere \<or> quiet r1" "i < total_workers r1" using a(2) i by (simp_all add: quiet_def r1_def)
    then obtain r2 where r2: "acc r1 i = Inr r2" "accounted i r1 r2" using acc_okD [OF a(1) v1 subset_refl] by blast
    have "stop_worker acc reason r i = Inr r2" using wait r2(1) by (simp add: stop_worker_def Let_def r1_def w_def)
    moreover have "doomed r2 i" using r2(2) d1 i by (auto simp: accounted_def keeps_def r1_def)
    ultimately show ?thesis using r2(2) keeps_trans [OF k1] by (auto simp: accounted_def)
  next
    case run
    define r1 where "r1 = (set_wk r i (mark ?w reason))\<lparr>signals := signals r @ [(i, if reason = Deadline then Kill else Graceful)]\<rparr>"
    have "winv {} r1"
    proof (rule winv_update [OF v i, of _ "mark ?w reason"])
      show "workers r1 = (workers r)[i := mark ?w reason]" by (simp add: r1_def set_wk_def)
      show "worker_ok {} (nextToSpawn r1) (set (retryQueue r1)) (set (armed r1)) (maxRetries r) i (mark ?w reason)"
        using wi by (simp add: worker_ok_def r1_def)
      show "shape_ok r1" using winv_shape [OF v] by (simp add: shape_ok_def r1_def)
    qed (simp_all add: r1_def)
    moreover have "keeps r r1" by (auto simp: keeps_def same_config_def doomed_def r1_def)
    moreover have "doomed r1 i" by (rule mark_doomed [of reason r1 ?w]) (use f i run in \<open>auto simp: flagged_def r1_def split: StopReason.splits\<close>)
    ultimately show ?thesis using run by (simp add: stop_worker_def Let_def r1_def)
  qed
qed

lemma stop_all:
  assumes "winv {} r" "acc_ok everywhere acc" "everywhere \<or> quiet r" "set is \<subseteq> {..<total_workers r}" "flagged reason r"
  shows "\<exists>r'. each (stop_worker acc reason) r is = Inr r' \<and> winv {} r' \<and> keeps r r' \<and> (\<forall>i \<in> set is. doomed r' i)"
  using assms(1,3-5)
proof (induction "is" arbitrary: r)
  case Nil
  then show ?case using keeps_refl by simp
next
  case (Cons i "is")
  have i: "i < total_workers r" using Cons.prems by simp
  obtain r1 where r1: "stop_worker acc reason r i = Inr r1" "winv {} r1" "keeps r r1" "doomed r1 i"
    using stop_worker_step [OF Cons.prems(1) assms(2) Cons.prems(2) i Cons.prems(4)] by blast
  have n: "total_workers r1 = total_workers r" using r1(3) by (simp add: keeps_def same_config_def)
  obtain r2 where r2: "each (stop_worker acc reason) r1 is = Inr r2" "winv {} r2" "keeps r1 r2" "\<forall>j \<in> set is. doomed r2 j"
    using Cons.IH [OF r1(2)] keeps_quiet [OF r1(3)] flagged_keeps [OF Cons.prems(4) r1(3)] Cons.prems n by auto
  have "doomed r2 i" using r2(3) r1(4) i n by (simp add: keeps_def)
  then show ?case using r1(1) r2 keeps_trans [OF r1(3) r2(3)] by (simp add: and_then_def)
qed

lemma teardown_with_spec:
  assumes v: "winv {} r" and a: "acc_ok everywhere acc" "everywhere \<or> quiet (begin_teardown r reason)" and f: "flagged reason (begin_teardown r reason)"
    and q: "quiet (begin_teardown r reason) \<or> retryQueue r = []"
  shows "\<exists>r'. teardown_with acc r reason = Inr r' \<and> winv {} r' \<and> keeps r r' \<and> torn_ok r' \<and> flagged reason r'"
proof -
  let ?r0 = "begin_teardown r reason"
  have v0: "winv {} ?r0" using v by (simp add: begin_teardown_def split: StopReason.split)
  have k0: "keeps r ?r0" by (auto simp: begin_teardown_def keeps_def same_config_def doomed_def split: StopReason.split)
  have q0: "retryQueue ?r0 = retryQueue r" "nextToSpawn ?r0 = nextToSpawn r" by (simp_all add: begin_teardown_def split: StopReason.split)
  obtain s where s: "each (end_queued acc reason (retryQueue ?r0)) ?r0 (retryQueue ?r0) = Inr (s\<lparr>retryQueue := retryQueue ?r0\<rparr>)" "winv {} s"
      "retryQueue s = []" "keeps ?r0 s" "nextToSpawn s = nextToSpawn ?r0"
  proof (cases "quiet ?r0")
    case True
    then show ?thesis using that end_queue [OF v0 True a(1), of reason "retryQueue ?r0"] by auto
  next
    case False
    then have "retryQueue ?r0 = []" using q q0 by simp
    then show ?thesis using that [of ?r0] v0 keeps_refl by simp
  qed
  have ks: "keeps r s" by (rule keeps_trans [OF k0 s(4)])
  have ns: "total_workers s = total_workers r" using ks by (simp add: keeps_def same_config_def)
  have es: "everywhere \<or> quiet s" using a(2) keeps_quiet [OF s(4)] by blast
  have sh: "nextToSpawn s \<le> total_workers s" using winv_shape [OF s(2)] by (simp add: shape_ok_def)
  obtain r3 where r3: "each (end_pending acc reason) s [nextToSpawn s..<total_workers s] = Inr r3" "winv {} r3" "retryQueue r3 = []" "keeps s r3"
      "nextToSpawn r3 = total_workers s"
    using end_all_pending [OF s(2,3) a(1) es _ sh, of reason] by auto
  have n3: "total_workers r3 = total_workers r" using r3(4) ns by (simp add: keeps_def same_config_def)
  have e3: "everywhere \<or> quiet r3" using es keeps_quiet [OF r3(4)] by blast
  have f3: "flagged reason r3" using f s(4) r3(4) flagged_keeps by blast
  obtain r4 where r4: "each (stop_worker acc reason) r3 [0..<total_workers r] = Inr r4" "winv {} r4" "keeps r3 r4" "\<forall>i < total_workers r. doomed r4 i"
    using stop_all [OF r3(2) a(1) e3 _ f3, of "[0..<total_workers r]"] n3 by (auto simp: lessThan_atLeast0)
  let ?r = "r4\<lparr>drainTimer := True\<rparr>"
  have k4: "keeps r ?r" using keeps_trans [OF ks keeps_trans [OF r3(4) r4(3)]] by (simp add: keeps_def same_config_def doomed_def)
  have "s\<lparr>retryQueue := []\<rparr> = s" using s(3) by simp
  then have "teardown_with acc r reason = Inr ?r" using s(1) r3(1) r4(1) ns by (simp add: teardown_with_def Let_def and_then_def)
  moreover have fl: "flagged reason ?r" using flagged_keeps [OF f3 r4(3)] by (simp add: flagged_def split: StopReason.splits)
  moreover from fl have "torn ?r" by (auto simp: flagged_def torn_def split: StopReason.splits)
  then have "torn_ok ?r" using r3(3,5) r4(3,4) ns n3 by (auto simp: torn_ok_def torn_core_def keeps_def same_config_def doomed_def)
  ultimately show ?thesis using r4(2) k4 by simp
qed

subsection \<open>The two functions of the code\<close>

lemma inner_acc_ok: "acc_ok False (account_with td)"
  unfolding acc_ok_def using account_with_spec [of _ _ _ td] account_queue by blast

lemma failfast_td_ok: "td_ok (\<lambda>r. teardown_with (account_with td) r FailFast)"
proof -
  have "\<exists>r'. teardown_with (account_with td) r FailFast = Inr r' \<and> winv {} r' \<and> keeps r r' \<and> torn_ok r'" if "winv {} r" "run_aborted r" for r
    using teardown_with_spec [OF that(1) inner_acc_ok, of FailFast td] that(2) by (auto simp: begin_teardown_def quiet_def flagged_def)
  then show ?thesis by (simp add: td_ok_def)
qed

lemma account_acc_ok: "acc_ok True account"
  unfolding acc_ok_def account_def using account_with_spec [OF _ _ _ failfast_td_ok] account_queue by blast

lemma account_spec: "winv D r \<Longrightarrow> D \<subseteq> {i} \<Longrightarrow> i < total_workers r \<Longrightarrow> \<exists>r'. account r i = Inr r' \<and> accounted i r r'"
  using account_acc_ok unfolding acc_ok_def by blast

lemma teardown_spec:
  assumes "winv {} r" "reason = FailFast \<Longrightarrow> run_aborted r" "reason = Deadline \<Longrightarrow> quiet r \<or> retryQueue r = []"
  shows "\<exists>r'. teardown r reason = Inr r' \<and> winv {} r' \<and> keeps r r' \<and> torn_ok r' \<and> flagged reason r'"
  unfolding teardown_def using assms(2,3)
  by (intro teardown_with_spec [OF assms(1) account_acc_ok]) (auto simp: begin_teardown_def quiet_def flagged_def split: StopReason.splits)

text \<open>The nesting is deep enough: \<open>account\<close> and \<open>teardown\<close> satisfy the equations of the code.\<close>

lemma account_with_quiet: "quiet r \<Longrightarrow> account_with td r i = account_with td' r i"
  by (auto simp: account_with_def quiet_def Let_def)

lemma each_same:
  assumes "\<And>s x. P s \<Longrightarrow> f s x = g s x" "\<And>s x s'. P s \<Longrightarrow> f s x = Inr s' \<Longrightarrow> P s'" "P s"
  shows "each f s xs = each g s xs"
  using assms(3) by (induction xs arbitrary: s) (auto simp: assms(1) [symmetric] and_then_def split: sum.split dest: assms(2))

lemma each_keeps:
  assumes "\<And>s x s'. P s \<Longrightarrow> f s x = Inr s' \<Longrightarrow> P s'" "P s" "each f s xs = Inr s'"
  shows "P s'"
  using assms(2,3) by (induction xs arbitrary: s) (auto simp: and_then_Inr intro: assms(1))

lemma aborted_stays: "run_aborted r \<Longrightarrow> account_with td r i = Inr r' \<Longrightarrow> run_aborted r'"
  by (auto simp: account_with_def Let_def scheduleRetry_def split: if_splits)

lemma nested_teardown: "run_aborted r \<Longrightarrow> teardown_with (account_with td) r FailFast = teardown_with (account_with td') r FailFast"
proof -
  assume r: "run_aborted r"
  let ?a = "account_with td" and ?b = "account_with td'"
  have ab: "?a s i = ?b s i" if "run_aborted s" for s i by (rule account_with_quiet) (simp add: quiet_def that)
  have q: "each (end_queued ?a FailFast l) s xs = each (end_queued ?b FailFast l) s xs" if "run_aborted s" for s xs l
    by (rule each_same [of run_aborted]) (auto simp: end_queued_def ab and_then_Inr that split: if_splits dest: aborted_stays [rotated])
  have p: "each (end_pending ?a FailFast) s xs = each (end_pending ?b FailFast) s xs" if "run_aborted s" for s xs
    by (rule each_same [of run_aborted]) (auto simp: end_pending_def ab that split: if_splits dest: aborted_stays [rotated])
  have w: "each (stop_worker ?a FailFast) s xs = each (stop_worker ?b FailFast) s xs" if "run_aborted s" for s xs
    by (rule each_same [of run_aborted]) (auto simp: stop_worker_def Let_def ab that split: if_splits dest: aborted_stays [rotated])
  have qs: "run_aborted s'" if "run_aborted s" "each (end_queued ?b FailFast l) s xs = Inr s'" for s s' xs l
    by (rule each_keeps [of run_aborted, OF _ that]) (auto simp: end_queued_def and_then_Inr split: if_splits dest: aborted_stays [rotated])
  have ps: "run_aborted s'" if "run_aborted s" "each (end_pending ?b FailFast) s xs = Inr s'" for s s' xs
    by (rule each_keeps [of run_aborted, OF _ that]) (auto simp: end_pending_def split: if_splits dest: aborted_stays [rotated])
  let ?r0 = "begin_teardown r FailFast"
  have r0: "run_aborted ?r0" using r by (simp add: begin_teardown_def)
  show ?thesis
  proof (cases "each (end_queued ?b FailFast (retryQueue ?r0)) ?r0 (retryQueue ?r0)")
    case (Inl a)
    then show ?thesis using q [OF r0] by (simp add: teardown_with_def Let_def and_then_def)
  next
    case q1: (Inr r1)
    then have r1: "run_aborted (r1\<lparr>retryQueue := []\<rparr>)" using qs [OF r0] by simp
    show ?thesis
    proof (cases "each (end_pending ?b FailFast) (r1\<lparr>retryQueue := []\<rparr>) [nextToSpawn r1..<total_workers r]")
      case (Inl a)
      then show ?thesis using q [OF r0] q1 p [OF r1] by (simp add: teardown_with_def Let_def and_then_def)
    next
      case (Inr r3)
      then show ?thesis using q [OF r0] q1 p [OF r1] w [OF ps [OF r1 Inr]] by (simp add: teardown_with_def Let_def and_then_def)
    qed
  qed
qed

lemma account_unfold: "account r i = account_with (\<lambda>r. teardown r FailFast) r i"
proof -
  have "account_with td r i = account_with td' r i" if "\<And>s. run_aborted s \<Longrightarrow> td s = td' s" for td td'
    using that by (auto simp: account_with_def Let_def)
  moreover have "teardown s FailFast = teardown_with (account_with (\<lambda>_. Inl Undefined)) s FailFast" if "run_aborted s" for s
    unfolding teardown_def account_def by (rule nested_teardown [OF that])
  ultimately show ?thesis unfolding account_def by (metis (no_types, lifting))
qed

end
