(* ===== verification/Worker_Events.thy ===== *)
theory Worker_Events
  imports Worker_Safety "HOL-Library.Code_Target_Nat"
begin

text \<open>
  Starting children and every event of \<open>WorkerRun\<close> keep the invariants of \<open>Worker_Safety\<close>; the properties of a run follow.
\<close>

subsection \<open>Starting\<close>

definition throws :: "wr_env \<Rightarrow> string \<Rightarrow> bool" where
  "throws env t \<longleftrightarrow> (\<exists>i a. spawns env i a = SpawnThrows t \<or> spawns env i a = Spawned (ArmThrows t))"

text \<open>A step ends well, or with an exception the environment raised.\<close>

definition fine :: "wr_env \<Rightarrow> (worker_run \<Rightarrow> bool) \<Rightarrow> stop + worker_run \<Rightarrow> bool" where
  "fine env P m \<longleftrightarrow> (\<exists>r. m = Inr r \<and> P r) \<or> (\<exists>t. m = Inl (Thrown t) \<and> throws env t)"

lemma fine_Inr: "P r \<Longrightarrow> fine env P (Inr r)"
  by (simp add: fine_def)

lemma fine_then: "fine env P m \<Longrightarrow> (\<And>r. P r \<Longrightarrow> fine env Q (f r)) \<Longrightarrow> fine env Q (and_then m f)"
  by (auto simp: fine_def and_then_def) blast

lemma fine_mono: "fine env P m \<Longrightarrow> (\<And>r. P r \<Longrightarrow> Q r) \<Longrightarrow> fine env Q m"
  by (auto simp: fine_def)

lemma reap_fields [simp]:
  "total_workers (reap env r i) = total_workers r" "nextToSpawn (reap env r i) = nextToSpawn r" "retryQueue (reap env r i) = retryQueue r"
  "armed (reap env r i) = armed r" "maxRetries (reap env r i) = maxRetries r" "remaining (reap env r i) = remaining r"
  "inFlight (reap env r i) = inFlight r - 1" "concurrency (reap env r i) = concurrency r" "failFast (reap env r i) = failFast r"
  "feedInput (reap env r i) = feedInput r" "deadlineTimer (reap env r i) = deadlineTimer r" "filling (reap env r i) = filling r"
  "drainTimer (reap env r i) = drainTimer r" "anyTimedOut (reap env r i) = anyTimedOut r" "run_cancelled (reap env r i) = run_cancelled r"
  "run_aborted (reap env r i) = run_aborted r" "stopped (reap env r i) = stopped r"
  by (simp_all add: reap_def Let_def)

definition reaped :: "wr_env \<Rightarrow> nat \<Rightarrow> worker \<Rightarrow> worker" where
  "reaped env i w = w\<lparr>w_status := (case waits env i (attempt w) of None \<Rightarrow> w_status w | Some s \<Rightarrow> Some s), w_exited := True, w_running := False\<rparr>"

lemma wk_reap: "wk (reap env r i) j = (if i = j \<and> j < total_workers r then reaped env i (wk r i) else wk r j)"
  by (cases "i = j") (simp_all add: reap_def reaped_def Let_def)

lemma reaped_fields [simp]:
  "counted (reaped env i w) = counted w" "awaitingRetry (reaped env i w) = awaitingRetry w" "\<not> w_running (reaped env i w)" "w_exited (reaped env i w)"
  "attempt (reaped env i w) = attempt w" "w_stdoutClosed (reaped env i w) = w_stdoutClosed w" "w_stderrClosed (reaped env i w) = w_stderrClosed w"
  "w_stdinClosed (reaped env i w) = w_stdinClosed w" "w_stdoutToken (reaped env i w) = w_stdoutToken w"
  "w_stderrToken (reaped env i w) = w_stderrToken w" "w_stdinToken (reaped env i w) = w_stdinToken w" "w_timedOut (reaped env i w) = w_timedOut w"
  by (simp_all add: reaped_def)

lemma reap_winv:
  assumes v: "winv D r" "D \<subseteq> {i}" and i: "i < total_workers r" and w: "w_running (wk r i)"
  shows "winv {i} (reap env r i)"
proof (rule winv_update [OF v(1) i, of _ "reaped env i (wk r i)"])
  show "workers (reap env r i) = (workers r)[i := reaped env i (wk r i)]" by (simp add: reap_def reaped_def set_wk_def Let_def)
  show "worker_ok {i} (nextToSpawn (reap env r i)) (set (retryQueue (reap env r i))) (set (armed (reap env r i))) (maxRetries r) i (reaped env i (wk r i))"
    using winvD [OF v(1) i] w by (auto simp: worker_ok_def w_complete_def)
  show "D - {i} \<subseteq> {i}" "{i} \<subseteq> insert i D" using v(2) by auto
  show "inFlight (reap env r i) + of_bool (w_running (wk r i)) = inFlight r + of_bool (w_running (reaped env i (wk r i)))"
    using running_inFlight [OF v(1) i w] w by simp
  show "shape_ok (reap env r i)" using winv_shape [OF v(1)] by (auto simp: shape_ok_def)
qed simp_all

lemma reap_torn: "torn_ok r \<Longrightarrow> torn_ok (reap env r i)" "torn_core r \<Longrightarrow> torn_core (reap env r i)"
  by (auto simp: torn_ok_def torn_core_def torn_def doomed_def wk_reap)

text \<open>A pending child taken from the queue or from the ones not yet started.\<close>

definition taken :: "worker_run \<Rightarrow> nat \<Rightarrow> worker_run \<Rightarrow> bool" where
  "taken r i r0 \<longleftrightarrow> (\<exists>queue. retryQueue r = i # queue \<and> r0 = r\<lparr>retryQueue := queue\<rparr>) \<or>
     retryQueue r = [] \<and> i = nextToSpawn r \<and> i < total_workers r \<and> r0 = r\<lparr>nextToSpawn := i + 1\<rparr>"

lemma takenD:
  assumes "winv {} r" "taken r i r0"
  shows "i < total_workers r" "workers r0 = workers r" "remaining r0 = remaining r" "inFlight r0 = inFlight r" "armed r0 = armed r"
    "maxRetries r0 = maxRetries r" "same_config r r0" "stopped r0 = stopped r" "anyTimedOut r0 = anyTimedOut r" "run_cancelled r0 = run_cancelled r"
    "run_aborted r0 = run_aborted r" "drainTimer r0 = drainTimer r"
    "\<And>j. j \<noteq> i \<Longrightarrow> (nextToSpawn r0 \<le> j) = (nextToSpawn r \<le> j)" "\<And>j. j \<noteq> i \<Longrightarrow> j \<in> set (retryQueue r0) \<longleftrightarrow> j \<in> set (retryQueue r)"
    "i < nextToSpawn r0" "i \<notin> set (retryQueue r0)" "nextToSpawn r0 \<le> total_workers r" "distinct (retryQueue r0)" "set (retryQueue r0) \<subseteq> {..<nextToSpawn r0}"
    "nextToSpawn r \<le> i \<or> i \<in> set (retryQueue r)"
  using winv_shape [OF assms(1)] assms(2) by (auto simp: taken_def shape_ok_def same_config_def)

lemma taken_worker:
  assumes "winv {} r" "taken r i r0"
  shows "\<not> counted (wk r i)" "\<not> w_running (wk r i)" "\<not> w_exited (wk r i)" "\<not> awaitingRetry (wk r i)" "attempt (wk r i) \<le> maxRetries r"
    "i \<notin> set (armed r)" "\<not> w_stdoutClosed (wk r i)" "\<not> w_stderrClosed (wk r i)" "\<not> w_stdinClosed (wk r i)"
    "\<not> w_stdoutToken (wk r i)" "\<not> w_stderrToken (wk r i)" "\<not> w_stdinToken (wk r i)"
proof -
  have "\<not> w_running (wk r i)" "\<not> w_exited (wk r i)"
    using winvD [OF assms(1) takenD(1) [OF assms]] takenD(20) [OF assms] unfolding worker_ok_def by auto
  then show "\<not> counted (wk r i)" "\<not> w_running (wk r i)" "\<not> w_exited (wk r i)" "\<not> awaitingRetry (wk r i)" "attempt (wk r i) \<le> maxRetries r"
    "i \<notin> set (armed r)" "\<not> w_stdoutClosed (wk r i)" "\<not> w_stderrClosed (wk r i)" "\<not> w_stdinClosed (wk r i)"
    "\<not> w_stdoutToken (wk r i)" "\<not> w_stderrToken (wk r i)" "\<not> w_stdinToken (wk r i)"
    using winvD [OF assms(1) takenD(1) [OF assms]] unfolding worker_ok_def w_complete_def by auto
qed

lemma launch_winv:
  assumes v: "winv {} r" and t: "taken r i r0" and f: "inFlight r < concurrency r"
  shows "winv {} (launch r0 i)" "w_running (wk (launch r0 i) i)" "same_config r (launch r0 i)" "torn_ok r \<Longrightarrow> \<not> torn r \<Longrightarrow> torn_ok (launch r0 i)"
proof -
  note d = takenD [OF v t] and w = taken_worker [OF v t]
  have wk0: "wk r0 j = wk r j" for j using d(2) by (simp add: wk_def)
  let ?w = "(wk r i)\<lparr>spawned := True, w_running := True, w_stdinClosed := \<not> feedInput r0, w_stdoutToken := True, w_stderrToken := True, w_stdinToken := feedInput r0\<rparr>"
  have l: "workers (launch r0 i) = (workers r)[i := ?w]" "nextToSpawn (launch r0 i) = nextToSpawn r0" "retryQueue (launch r0 i) = retryQueue r0"
      "armed (launch r0 i) = armed r" "maxRetries (launch r0 i) = maxRetries r" "remaining (launch r0 i) = remaining r" "inFlight (launch r0 i) = inFlight r + 1"
      "concurrency (launch r0 i) = concurrency r" "stopped (launch r0 i) = stopped r" "drainTimer (launch r0 i) = drainTimer r"
      "torn (launch r0 i) = torn r" "same_config r (launch r0 i)"
    using d(2-12) by (simp_all add: launch_def Let_def set_wk_def wk_def torn_def same_config_def)
  show "winv {} (launch r0 i)"
  proof (rule winv_update [OF v d(1) l(1)])
    show "worker_ok {} (nextToSpawn (launch r0 i)) (set (retryQueue (launch r0 i))) (set (armed (launch r0 i))) (maxRetries r) i ?w"
      unfolding l using w d(15,16) by (auto simp: worker_ok_def w_complete_def)
    show "shape_ok (launch r0 i)" using winv_shape [OF v] d(17-19) f by (simp add: shape_ok_def l)
  qed (use d(13,14) w in \<open>simp_all add: l\<close>)
  show "w_running (wk (launch r0 i) i)" using l(1) d(1) by (simp add: wk_def)
  show "same_config r (launch r0 i)" by (rule l(12))
  show "torn_ok r \<Longrightarrow> \<not> torn r \<Longrightarrow> torn_ok (launch r0 i)" by (simp add: torn_ok_def torn_core_def l)
qed

lemma failed_winv:
  fixes m :: string
  assumes v: "winv {} r" and t: "taken r i r0"
  defines "r1 \<equiv> set_wk r0 i (failToStart ((wk r0 i)\<lparr>spawned := True\<rparr>) m)"
  shows "winv {i} r1" "same_config r r1" "torn_ok r \<Longrightarrow> \<not> torn r \<Longrightarrow> torn_ok r1"
proof -
  note d = takenD [OF v t] and w = taken_worker [OF v t]
  let ?w = "failToStart ((wk r i)\<lparr>spawned := True\<rparr>) m"
  have l: "workers r1 = (workers r)[i := ?w]" "nextToSpawn r1 = nextToSpawn r0" "retryQueue r1 = retryQueue r0"
      "armed r1 = armed r" "maxRetries r1 = maxRetries r" "remaining r1 = remaining r" "inFlight r1 = inFlight r"
      "concurrency r1 = concurrency r" "stopped r1 = stopped r" "drainTimer r1 = drainTimer r" "torn r1 = torn r" "same_config r r1"
    using d(2-12) by (simp_all add: r1_def set_wk_def wk_def torn_def same_config_def)
  show "winv {i} r1"
  proof (rule winv_update [OF v d(1) l(1)])
    show "worker_ok {i} (nextToSpawn r1) (set (retryQueue r1)) (set (armed r1)) (maxRetries r) i ?w"
      unfolding l using w d(15,16) by (auto simp: worker_ok_def w_complete_def failToStart_def)
    show "shape_ok r1" using winv_shape [OF v] d(17-19) by (simp add: shape_ok_def l)
  qed (use d(13,14) w in \<open>simp_all add: l failToStart_def\<close>)
  show "same_config r r1" by (rule l(12))
  show "torn_ok r \<Longrightarrow> \<not> torn r \<Longrightarrow> torn_ok r1" by (simp add: torn_ok_def torn_core_def l)
qed

lemma same_config_trans: "same_config r r' \<Longrightarrow> same_config r' r'' \<Longrightarrow> same_config r r''"
  by (simp add: same_config_def)

definition filled :: "worker_run \<Rightarrow> worker_run \<Rightarrow> bool" where
  "filled r r' \<longleftrightarrow> winv {} r' \<and> torn_ok r' \<and> same_config r r'"

lemma filled_account:
  assumes "winv D r" "D \<subseteq> {i}" "i < total_workers r" "torn_ok r"
  shows "\<exists>r'. account r i = Inr r' \<and> filled r r'"
proof -
  obtain r' where r': "account r i = Inr r'" "accounted i r r'" using account_spec [OF assms(1-3)] by blast
  moreover have "filled r r'" using r'(2) assms(4) by (simp add: accounted_def filled_def keeps_def)
  ultimately show ?thesis by blast
qed

lemma start_worker_fine:
  assumes v: "winv {} r" "torn_ok r" "\<not> torn r" and t: "taken r i r0" and f: "inFlight r < concurrency r"
  shows "fine env (filled r) (start_worker env r0 i)"
proof -
  note la = launch_winv [OF v(1) t f] and fa = failed_winv [OF v(1) t]
  have i: "i < total_workers r" by (rule takenD(1) [OF v(1) t])
  have n: "total_workers (launch r0 i) = total_workers r" using la(3) by (simp add: same_config_def)
  show ?thesis
  proof (cases "spawns env i (attempt (wk r0 i))")
    case (Spawned a)
    show ?thesis
    proof (cases a)
      case ChildWatched
      then show ?thesis using Spawned la v by (simp add: start_worker_def fine_def filled_def)
    next
      case ChildGone
      let ?r = "reap env (launch r0 i) i"
      have "same_config (launch r0 i) ?r" by (simp add: same_config_def)
      moreover have il: "i < total_workers (launch r0 i)" using i n by simp
      obtain r' where "account ?r i = Inr r'" "filled ?r r'"
        using filled_account [OF reap_winv [OF la(1) empty_subsetI il la(2)] subset_refl _ reap_torn(1) [OF la(4) [OF v(2,3)]]] il by auto
      ultimately show ?thesis using Spawned ChildGone la(3) by (auto simp: start_worker_def fine_def filled_def intro: same_config_trans)
    next
      case (ArmThrows m)
      then show ?thesis using Spawned by (auto simp: start_worker_def fine_def throws_def)
    qed
  next
    case (NotSpawned m)
    let ?r = "set_wk r0 i (failToStart ((wk r0 i)\<lparr>spawned := True\<rparr>) m)"
    have "i < total_workers ?r" using i fa(2) [of m] by (simp add: same_config_def)
    then obtain r' where "account ?r i = Inr r'" "filled ?r r'" using filled_account [OF fa(1) subset_refl _ fa(3) [OF v(2,3)]] by blast
    then show ?thesis using NotSpawned fa(2) [of m] by (auto simp: start_worker_def fine_def filled_def intro: same_config_trans)
  next
    case (SpawnThrows m)
    then show ?thesis by (auto simp: start_worker_def fine_def throws_def)
  qed
qed

definition slots_ok :: "worker_run \<Rightarrow> bool" where
  "slots_ok r \<longleftrightarrow> \<not> (inFlight r < concurrency r \<and> has_pending r)"

lemma torn_idle: "torn_core r \<Longrightarrow> torn r \<Longrightarrow> \<not> has_pending r"
  by (simp add: torn_core_def has_pending_def)

lemma fill_one_fine:
  assumes "winv {} r" "torn_ok r" "inFlight r < concurrency r" "has_pending r"
  shows "fine env (filled r) (fill_one env r)"
proof -
  have nt: "\<not> torn r" using torn_idle assms(2,4) by (auto simp: torn_ok_def)
  show ?thesis
  proof (cases "retryQueue r")
    case Nil
    then have "taken r (nextToSpawn r) (r\<lparr>nextToSpawn := nextToSpawn r + 1\<rparr>)" using assms(4) by (simp add: taken_def has_pending_def)
    from start_worker_fine [OF assms(1,2) nt this assms(3)] show ?thesis using Nil by (simp add: fill_one_def)
  next
    case (Cons i queue)
    then have "taken r i (r\<lparr>retryQueue := queue\<rparr>)" by (simp add: taken_def)
    from start_worker_fine [OF assms(1,2) nt this assms(3)] show ?thesis using Cons by (simp add: fill_one_def)
  qed
qed

lemma fill_loop_fine:
  assumes "winv {} r" "torn_ok r"
  shows "fine env (\<lambda>r'. filled r r' \<and> slots_ok r') (fill_loop env r)"
  using assms
proof (induction "pending_count r" arbitrary: r rule: less_induct)
  case less
  show ?case
  proof (cases "inFlight r < concurrency r \<and> has_pending r")
    case False
    have "fill_loop env r = Inr r" by (subst fill_loop.simps) (rule if_not_P [OF False])
    then show ?thesis using less.prems False by (auto intro!: fine_Inr simp: filled_def slots_ok_def same_config_def)
  next
    case True
    have unf: "fill_loop env r = and_then (fill_one env r) (fill_loop env)"
      using True by (simp add: fill_loop.simps [of env r] and_then_def)
    show ?thesis
    proof (cases "fill_one env r")
      case (Inl s)
      then show ?thesis using fill_one_fine [OF less.prems, of env] True unf by (auto simp: fine_def and_then_def)
    next
      case (Inr r1)
      have f1: "filled r r1" using fill_one_fine [OF less.prems, of env] True Inr by (auto simp: fine_def)
      have "pending_count r1 < pending_count r" using fill_one_less [OF Inr] True by simp
      then have "fine env (\<lambda>r'. filled r1 r' \<and> slots_ok r') (fill_loop env r1)" using less.hyps f1 by (simp add: filled_def)
      then show ?thesis using unf Inr f1 by (auto simp: and_then_def fine_def filled_def intro: same_config_trans)
    qed
  qed
qed

lemma torn_ok_flags [simp]:
  "torn_ok (r\<lparr>filling := b\<rparr>) = torn_ok r" "torn_ok (r\<lparr>deadlineTimer := b\<rparr>) = torn_ok r" "torn_ok (r\<lparr>sinkCalls := c\<rparr>) = torn_ok r"
  "torn_ok (r\<lparr>retryTimers := l\<rparr>) = torn_ok r" "torn_ok (r\<lparr>armed := l\<rparr>) = torn_ok r" "torn_core (r\<lparr>drainTimer := b\<rparr>) = torn_core r"
  "torn_core (r\<lparr>signals := g\<rparr>) = torn_core r"
  by (simp_all add: torn_ok_def torn_core_def torn_def doomed_def)

text \<open>Between two events.\<close>

definition calm :: "worker_run \<Rightarrow> bool" where
  "calm r \<longleftrightarrow> (failFast r \<and> 0 < maxRetries r \<longrightarrow> \<not> deadlineTimer r)"

definition at_rest :: "worker_run \<Rightarrow> bool" where
  "at_rest r \<longleftrightarrow> winv {} r \<and> torn_ok r \<and> slots_ok r \<and> \<not> filling r \<and> calm r"

text \<open>The configuration a run keeps, apart from the deadline timer, which can only be switched off.\<close>

definition evolves :: "worker_run \<Rightarrow> worker_run \<Rightarrow> bool" where
  "evolves r r' \<longleftrightarrow> total_workers r' = total_workers r \<and> concurrency r' = concurrency r \<and> maxRetries r' = maxRetries r \<and> failFast r' = failFast r \<and>
     (deadlineTimer r' \<longrightarrow> deadlineTimer r)"

lemma evolves_trans: "evolves r r' \<Longrightarrow> evolves r' r'' \<Longrightarrow> evolves r r''"
  by (simp add: evolves_def)

lemma config_evolves: "same_config r r' \<Longrightarrow> evolves r r'"
  by (simp add: evolves_def same_config_def)

lemma calm_evolves: "calm r \<Longrightarrow> evolves r r' \<Longrightarrow> calm r'"
  by (auto simp: calm_def evolves_def)

definition rests :: "worker_run \<Rightarrow> worker_run \<Rightarrow> bool" where
  "rests r r' \<longleftrightarrow> at_rest r' \<and> evolves r r'"

lemma fillSlots_fine:
  assumes "winv {} r" "torn_ok r" "\<not> filling r" "calm r"
  shows "fine env (rests r) (fillSlots env r)"
proof -
  let ?r = "r\<lparr>filling := True\<rparr>"
  have "winv {} ?r" "torn_ok ?r" using assms(1,2) by simp_all
  then have "fine env (\<lambda>r'. filled ?r r' \<and> slots_ok r') (fill_loop env ?r)" by (rule fill_loop_fine)
  moreover have "rests r (r'\<lparr>filling := False\<rparr>)" if "filled ?r r' \<and> slots_ok r'" for r'
  proof -
    have "evolves r r'" "winv {} r'" "torn_ok r'" "slots_ok r'" using that by (simp_all add: filled_def evolves_def same_config_def)
    then show ?thesis using calm_evolves [OF assms(4)] by (simp add: rests_def at_rest_def evolves_def slots_ok_def has_pending_def calm_def)
  qed
  ultimately show ?thesis using assms(3) by (auto simp: fillSlots_def intro!: fine_then fine_Inr)
qed

text \<open>After \<open>account\<close> nothing can be started that could not be before.\<close>

lemma accounted_rest:
  assumes a: "accounted i r r'" and r: "torn_ok r" "slots_ok r" "\<not> filling r" "calm r"
  shows "rests r r'"
proof -
  have k: "keeps r r'" "winv {} r'" "torn_ok r'" using a r(1) by (simp_all add: accounted_def)
  have c: "same_config r r'" "inFlight r' = inFlight r" using k(1) by (simp_all add: keeps_def)
  have "nextToSpawn r' = nextToSpawn r \<and> retryQueue r' = retryQueue r \<or> nextToSpawn r' = total_workers r \<and> retryQueue r' = []"
    using a unfolding accounted_def by blast
  then have "has_pending r' \<Longrightarrow> has_pending r" using c(1) by (auto simp: has_pending_def same_config_def)
  then have "slots_ok r'" using r(2) c by (auto simp: slots_ok_def same_config_def)
  then show ?thesis using k(2,3) r(3,4) c(1) config_evolves [OF c(1)] calm_evolves by (auto simp: rests_def at_rest_def same_config_def)
qed

lemma account_rest:
  assumes "winv D r" "D \<subseteq> {i}" "i < total_workers r" "torn_ok r" "slots_ok r" "\<not> filling r" "calm r"
  shows "fine env (rests r) (account r i)"
proof -
  obtain r' where "account r i = Inr r'" "accounted i r r'" using account_spec [OF assms(1-3)] by blast
  then show ?thesis using accounted_rest [OF _ assms(4-7)] by (auto simp: fine_def)
qed

subsection \<open>Events\<close>

lemma onExit_rest:
  assumes r: "at_rest r" and i: "i < total_workers r" and w: "w_running (wk r i)"
  shows "fine env (rests r) (onExit env r i)"
proof -
  let ?r = "reap env r i"
  have r0: "winv {} r" "torn_ok r" "\<not> filling r" "calm r" using r by (simp_all add: at_rest_def)
  obtain r1 where r1: "account ?r i = Inr r1" "accounted i ?r r1" using account_spec [OF reap_winv [OF r0(1) empty_subsetI i w] subset_refl] i by auto
  have k: "same_config ?r r1" "winv {} r1" "torn_ok r1" using r1(2) reap_torn(1) [OF r0(2)] by (simp_all add: accounted_def keeps_def)
  have e: "evolves r r1" using k(1) by (simp add: evolves_def same_config_def)
  have "\<not> filling r1" using k(1) r0(3) by (simp add: same_config_def)
  then have "fine env (rests r1) (fillSlots env r1)" using fillSlots_fine k calm_evolves [OF r0(4) e] by blast
  then show ?thesis using r1(1) evolves_trans [OF e] by (auto simp: onExit_def and_then_def rests_def elim!: fine_mono)
qed

text \<open>Transfers change the control state of a child only by closing a stream.\<close>

definition control :: "worker \<Rightarrow> bool \<times> bool \<times> bool \<times> bool \<times> nat \<times> bool" where
  "control w = (counted w, awaitingRetry w, w_running w, w_exited w, attempt w, w_timedOut w)"

definition streams :: "worker \<Rightarrow> (bool \<times> bool) \<times> (bool \<times> bool) \<times> (bool \<times> bool)" where
  "streams w = ((w_stdoutToken w, w_stdoutClosed w), (w_stderrToken w, w_stderrClosed w), (w_stdinToken w, w_stdinClosed w))"

lemma capture_control [simp]: "control (capture disk cap pol w b chunk) = control w" "streams (capture disk cap pol w b chunk) = streams w"
  by (simp_all add: capture_def control_def streams_def Let_def split: prod.splits)

lemma framer_control [simp]: "control (set_framer w b f) = control w" "streams (set_framer w b f) = streams w"
  by (simp_all add: set_framer_def control_def streams_def)

lemma read_stream_control:
  assumes "read_stream disk cap pol live b hangup before w answers = (w', lines, ended)"
  shows "control w' = control w" "streams w' = streams w"
proof -
  have "control w' = control w \<and> streams w' = streams w" using assms
  proof (induction answers arbitrary: w w' lines)
    case Nil
    then show ?case by (simp add: read_stream.simps)
  next
    case (Cons a answers)
    show ?case
    proof (cases a)
      case (Got bytes)
      show ?thesis
      proof (cases "take kReadBuffer bytes = []")
        case True
        then show ?thesis using Cons.prems Got by (simp add: read_stream.simps [of _ _ _ _ _ _ _ w] Let_def)
      next
        case False
        let ?w1 = "capture disk cap pol w b (take kReadBuffer bytes)"
        obtain f ls where f: "(if live then lf_push (framerFor ?w1 b) (take kReadBuffer bytes) else (framerFor ?w1 b, [])) = (f, ls)" by fastforce
        obtain w2 more e where w2: "read_stream disk cap pol live b hangup before (set_framer ?w1 b f) answers = (w2, more, e)"
          by (cases "read_stream disk cap pol live b hangup before (set_framer ?w1 b f) answers")
        have e: "w' = w2" using Cons.prems Got False f w2 by (simp add: read_stream.simps [of _ _ _ _ _ _ _ w] Let_def)
        then show ?thesis using Cons.prems Cons.IH [of "set_framer ?w1 b f" w2 more] Got False f w2
          by (simp add: read_stream.simps [of _ _ _ _ _ _ _ w] Let_def)
      qed
    next
      case ReadBlocks
      then show ?thesis using Cons.prems by (simp add: read_stream.simps [of _ _ _ _ _ _ _ w])
    next
      case ReadFails
      then show ?thesis using Cons.prems by (simp add: read_stream.simps [of _ _ _ _ _ _ _ w])
    qed
  qed
  then show "control w' = control w" "streams w' = streams w" by simp_all
qed

lemma close_output_control [simp]: "control (close_output w b) = control w" "control (close_input w) = control w"
  by (simp_all add: close_output_def close_input_def control_def)

lemma close_output_streams: "streams w = streams w' \<Longrightarrow> streams (close_output w b) = streams (close_output w' b)"
  by (auto simp: close_output_def streams_def)

lemma take_output_control:
  assumes "take_output disk cap pol live b hangup w answers = (w', lines, ended)"
  shows "control w' = control w" "streams w' = (if ended then streams (close_output w b) else streams w)"
proof -
  obtain w1 l e where 1: "read_stream disk cap pol live b hangup (length (if b then w_stdoutData w else w_stderrData w)) w answers = (w1, l, e)"
    by (cases "read_stream disk cap pol live b hangup (length (if b then w_stdoutData w else w_stderrData w)) w answers")
  note c = read_stream_control [OF 1]
  obtain f ls x where f: "(if live then lf_flush (framerFor w1 b) else (framerFor w1 b, [], False)) = (f, ls, x)"
    by (cases "if live then lf_flush (framerFor w1 b) else (framerFor w1 b, [], False)")
  have w: "w' = (if e then close_output (set_framer w1 b f) b else w1)" "ended = e"
    using assms f unfolding take_output_def 1 Let_def prod.case by (cases e; simp)+
  show "control w' = control w" using c(1) by (simp add: w(1))
  show "streams w' = (if ended then streams (close_output w b) else streams w)"
    using c(2) close_output_streams [of "set_framer w1 b f" w b] by (simp add: w)
qed

lemma give_input_control:
  assumes "give_input w answers = (w', closed)"
  shows "control w' = control w" "streams w' = (if closed then streams (close_input w) else streams w)"
proof -
  have "control w' = control w \<and> streams w' = (if closed then streams (close_input w) else streams w)" using assms
  proof (induction answers arbitrary: w)
    case Nil
    then show ?case by (auto simp: give_input.simps [of w] split: if_splits)
  next
    case (Cons a answers)
    show ?case
    proof (cases "inputWritten w < length (w_input w)")
      case False
      then show ?thesis using Cons.prems by (auto simp: give_input.simps [of w])
    next
      case True
      show ?thesis
      proof (cases a)
        case (Wrote n)
        let ?w = "w\<lparr>inputWritten := inputWritten w + min n (length (w_input w) - inputWritten w)\<rparr>"
        have "give_input ?w answers = (w', closed)" using Cons.prems True Wrote by (simp add: give_input.simps [of w])
        from Cons.IH [OF this] show ?thesis by (simp add: control_def streams_def close_input_def)
      qed (use Cons.prems True in \<open>auto simp: give_input.simps [of w]\<close>)
    qed
  qed
  then show "control w' = control w" "streams w' = (if closed then streams (close_input w) else streams w)" by simp_all
qed

lemma worker_ok_same: "control w = control w' \<Longrightarrow> streams w = streams w' \<Longrightarrow> worker_ok D a q t m i w = worker_ok D a q t m i w'"
  by (simp add: worker_ok_def control_def streams_def w_complete_def)

lemma worker_ok_closed:
  assumes "worker_ok {} a q t m i w" "w_running w \<or> w_exited w"
  shows "worker_ok {i} a q t m i (close_output w b)" "worker_ok {i} a q t m i (close_input w)"
  using assms by (auto simp: worker_ok_def close_output_def close_input_def w_complete_def)

definition io_step :: "worker \<Rightarrow> worker \<Rightarrow> bool \<Rightarrow> bool" where
  "io_step w w' closing \<longleftrightarrow> control w' = control w \<and>
     (if closing then (\<exists>b. streams w' = streams (close_output w b)) \<or> streams w' = streams (close_input w) else streams w' = streams w)"

lemma io_winv:
  assumes v: "winv {} r" and i: "i < total_workers r" and s: "io_step (wk r i) w closing" "w_running (wk r i) \<or> w_exited (wk r i)"
  shows "winv (if closing then {i} else {}) (set_wk r i w)"
proof (rule winv_update [OF v i, of _ w])
  have c: "control w = control (wk r i)" using s(1) by (simp add: io_step_def)
  note ok = winvD [OF v i]
  have "worker_ok (if closing then {i} else {}) (nextToSpawn r) (set (retryQueue r)) (set (armed r)) (maxRetries r) i w"
  proof (cases closing)
    case False
    then show ?thesis using ok worker_ok_same [OF c] s(1) by (simp add: io_step_def)
  next
    case True
    then consider b where "streams w = streams (close_output (wk r i) b)" | "streams w = streams (close_input (wk r i))" using s(1) by (auto simp: io_step_def)
    then show ?thesis
    proof cases
      case 1
      then show ?thesis using True worker_ok_closed(1) [OF ok s(2)] worker_ok_same [of w "close_output (wk r i) b"] c by simp
    next
      case 2
      then show ?thesis using True worker_ok_closed(2) [OF ok s(2)] worker_ok_same [of w "close_input (wk r i)"] c by simp
    qed
  qed
  then show "worker_ok (if closing then {i} else {}) (nextToSpawn (set_wk r i w)) (set (retryQueue (set_wk r i w))) (set (armed (set_wk r i w))) (maxRetries r) i w"
    by simp
  show "workers (set_wk r i w) = (workers r)[i := w]" by (simp add: set_wk_def)
  show "remaining (set_wk r i w) + of_bool (\<not> counted (wk r i)) = remaining r + of_bool (\<not> counted w)"
    "inFlight (set_wk r i w) + of_bool (w_running (wk r i)) = inFlight r + of_bool (w_running w)" using c by (simp_all add: control_def)
  show "shape_ok (set_wk r i w)" using winv_shape [OF v] by (simp add: shape_ok_def)
qed auto

lemma io_torn:
  assumes "control w = control (wk r i)" "torn_ok r"
  shows "torn_ok (set_wk r i w)"
  using assms by (auto simp: torn_ok_def torn_core_def torn_def doomed_def control_def)

lemma io_rest:
  fixes calls :: "sink_event list"
  assumes r: "at_rest r" and i: "i < total_workers r" and s: "io_step (wk r i) w closing" "w_running (wk r i) \<or> w_exited (wk r i)"
  defines "r1 \<equiv> (set_wk r i w)\<lparr>sinkCalls := calls\<rparr>"
  shows "fine env (rests r) (if closing then account r1 i else Inr r1)"
proof -
  have r0: "winv {} r" "torn_ok r" "slots_ok r" "\<not> filling r" "calm r" using r by (simp_all add: at_rest_def)
  have v1: "winv (if closing then {i} else {}) r1" using io_winv [OF r0(1) i s] by (simp add: r1_def)
  have t1: "torn_ok r1" using io_torn [OF _ r0(2)] s(1) by (simp add: r1_def io_step_def)
  have e: "evolves r r1" "slots_ok r1" "\<not> filling r1" "calm r1" using r0(3-5) by (simp_all add: evolves_def slots_ok_def has_pending_def calm_def r1_def)
  show ?thesis
  proof (cases closing)
    case True
    have "fine env (rests r1) (account r1 i)" using account_rest [of "{i}" r1 i] v1 True t1 e i by (simp add: r1_def)
    then show ?thesis using True evolves_trans [OF e(1)] by (auto simp: rests_def elim!: fine_mono)
  next
    case False
    then show ?thesis using v1 t1 e by (simp add: fine_def rests_def at_rest_def)
  qed
qed

lemma token_active: "winv {} r \<Longrightarrow> i < total_workers r \<Longrightarrow> w_stdoutToken (wk r i) \<or> w_stderrToken (wk r i) \<or> w_stdinToken (wk r i) \<Longrightarrow>
    w_running (wk r i) \<or> w_exited (wk r i)"
  using winvD [of "{}" r i] unfolding worker_ok_def by (auto split: if_splits)

lemma onReadable_rest:
  assumes r: "at_rest r" and i: "i < total_workers r" and t: "if b then w_stdoutToken (wk r i) else w_stderrToken (wk r i)"
  shows "fine env (rests r) (onReadable env r i b hangup answers)"
proof -
  obtain w lines ended where o: "take_output (disks env i b) (outputCap r) (outputPolicy r) (hasSink r \<and> streamsLive r) b hangup (wk r i) answers = (w, lines, ended)"
    by (cases "take_output (disks env i b) (outputCap r) (outputPolicy r) (hasSink r \<and> streamsLive r) b hangup (wk r i) answers")
  have "io_step (wk r i) w ended" using take_output_control [OF o] by (auto simp: io_step_def)
  moreover have "w_running (wk r i) \<or> w_exited (wk r i)" using token_active [OF _ i] r t by (auto simp: at_rest_def split: if_splits)
  ultimately show ?thesis using io_rest [OF r i, of w ended env "sinkCalls r @ lines"] by (simp add: onReadable_def o Let_def)
qed

lemma onWritable_rest:
  assumes r: "at_rest r" and i: "i < total_workers r" and t: "w_stdinToken (wk r i)"
  shows "fine env (rests r) (onWritable r i answers)"
proof -
  obtain w closed where o: "give_input (wk r i) answers = (w, closed)" by fastforce
  have "io_step (wk r i) w closed" using give_input_control [OF o] by (auto simp: io_step_def)
  moreover have "w_running (wk r i) \<or> w_exited (wk r i)" using token_active [OF _ i] r t by (auto simp: at_rest_def)
  moreover have "(set_wk r i w)\<lparr>sinkCalls := sinkCalls r\<rparr> = set_wk r i w" by (simp add: set_wk_def)
  ultimately show ?thesis using io_rest [OF r i, of w closed env "sinkCalls r"]
    by (cases closed) (simp_all add: onWritable_def o Let_def)
qed

lemma retry_winv:
  assumes v: "winv {} r" and i: "i < total_workers r" and w: "awaitingRetry (wk r i)"
  defines "r1 \<equiv> (set_wk (r\<lparr>retryTimers := removeAll i (retryTimers r), armed := removeAll i (armed r)\<rparr>) i (resetForRetry ((wk r i)\<lparr>awaitingRetry := False\<rparr>)))
      \<lparr>retryQueue := retryQueue r @ [i]\<rparr>"
  shows "winv {} r1"
proof (rule winv_update [OF v i, of _ "resetForRetry ((wk r i)\<lparr>awaitingRetry := False\<rparr>)"])
  let ?w = "resetForRetry ((wk r i)\<lparr>awaitingRetry := False\<rparr>)"
  note ok = winvD [OF v i]
  have f: "w_exited (wk r i)" "\<not> counted (wk r i)" "\<not> w_running (wk r i)" "i < nextToSpawn r" "i \<notin> set (retryQueue r)" "0 < attempt (wk r i)"
      "attempt (wk r i) \<le> maxRetries r" using ok w unfolding worker_ok_def w_complete_def by auto
  have rf: "\<not> counted ?w" "\<not> awaitingRetry ?w" "\<not> w_exited ?w" "w_running ?w = w_running (wk r i)" "attempt ?w = attempt (wk r i)"
    "\<not> w_stdoutClosed ?w" "\<not> w_stderrClosed ?w" "\<not> w_stdinClosed ?w" "\<not> w_stdoutToken ?w" "\<not> w_stderrToken ?w" "\<not> w_stdinToken ?w"
    by (simp_all add: resetForRetry_def)
  show "workers r1 = (workers r)[i := ?w]" by (simp add: r1_def set_wk_def)
  have l: "nextToSpawn r1 = nextToSpawn r" "retryQueue r1 = retryQueue r @ [i]" "set (armed r1) = set (armed r) - {i}" by (simp_all add: r1_def)
  show "worker_ok {} (nextToSpawn r1) (set (retryQueue r1)) (set (armed r1)) (maxRetries r) i ?w"
    unfolding worker_ok_def l w_complete_def using rf f by simp
  show "remaining r1 + of_bool (\<not> counted (wk r i)) = remaining r + of_bool (\<not> counted ?w)"
    "inFlight r1 + of_bool (w_running (wk r i)) = inFlight r + of_bool (w_running ?w)" using rf f by (simp_all add: r1_def)
  show "shape_ok r1" using winv_shape [OF v] f by (auto simp: shape_ok_def r1_def)
qed (auto simp: r1_def)

lemma onRetry_rest:
  assumes r: "at_rest r" and i: "i \<in> set (armed r)"
  shows "fine env (rests r) (onRetry env r i)"
proof -
  have r0: "winv {} r" "torn_ok r" "slots_ok r" "\<not> filling r" "calm r" using r by (simp_all add: at_rest_def)
  have n: "i < total_workers r" using winv_shape [OF r0(1)] i by (auto simp: shape_ok_def)
  have ok: "counted (wk r i) \<or> awaitingRetry (wk r i)" "counted (wk r i) \<longrightarrow> \<not> awaitingRetry (wk r i)"
    using winvD [OF r0(1) n] i unfolding worker_ok_def by auto
  show ?thesis
  proof (cases "counted (wk r i)")
    case True
    let ?r = "r\<lparr>retryTimers := removeAll i (retryTimers r), armed := removeAll i (armed r)\<rparr>"
    have "winv {} ?r"
    proof (rule winv_update [OF r0(1) n, of _ "wk r i"])
      show "workers ?r = (workers r)[i := wk r i]" by (simp add: wk_def)
      show "worker_ok {} (nextToSpawn ?r) (set (retryQueue ?r)) (set (armed ?r)) (maxRetries r) i (wk r i)"
        using winvD [OF r0(1) n] True unfolding worker_ok_def by simp
      show "shape_ok ?r" using winv_shape [OF r0(1)] by (auto simp: shape_ok_def)
    qed auto
    then have "rests r ?r" using r0(2-5) by (simp add: rests_def at_rest_def evolves_def slots_ok_def has_pending_def calm_def)
    then show ?thesis using True by (simp add: onRetry_def Let_def fine_def)
  next
    case False
    then have a: "awaitingRetry (wk r i)" using ok by blast
    then have nt: "\<not> torn r" using r0(2) n False by (auto simp: torn_ok_def torn_core_def doomed_def)
    let ?r = "(set_wk (r\<lparr>retryTimers := removeAll i (retryTimers r), armed := removeAll i (armed r)\<rparr>) i (resetForRetry ((wk r i)\<lparr>awaitingRetry := False\<rparr>)))
      \<lparr>retryQueue := retryQueue r @ [i]\<rparr>"
    have v: "winv {} ?r" by (rule retry_winv [OF r0(1) n a])
    have t: "torn_ok ?r" using nt r0(2) by (simp add: torn_ok_def torn_core_def torn_def)
    have e: "evolves r ?r" "\<not> filling ?r" "calm ?r" using r0(4,5) by (simp_all add: evolves_def calm_def)
    have "fine env (rests ?r) (fillSlots env ?r)" by (rule fillSlots_fine [OF v t e(2,3)])
    moreover have "onRetry env r i = fillSlots env ?r" using False nt by (simp add: onRetry_def Let_def torn_def)
    ultimately show ?thesis using evolves_trans [OF e(1)] by (auto simp: rests_def elim!: fine_mono)
  qed
qed

lemma teardown_rest:
  assumes "winv {} r" "\<not> filling r" "calm r" "reason = FailFast \<Longrightarrow> run_aborted r" "reason = Deadline \<Longrightarrow> quiet r \<or> retryQueue r = []"
  shows "\<exists>r'. teardown r reason = Inr r' \<and> rests r r' \<and> torn r'"
proof -
  obtain r' where r': "teardown r reason = Inr r'" "winv {} r'" "keeps r r'" "torn_ok r'" "flagged reason r'" using teardown_spec [OF assms(1,4,5)] by blast
  have t: "torn r'" using r'(5) by (auto simp: flagged_def torn_def split: StopReason.splits)
  have "slots_ok r'" using torn_idle r'(4) t by (auto simp: torn_ok_def slots_ok_def)
  moreover have c: "same_config r r'" using r'(3) by (simp add: keeps_def)
  ultimately have "rests r r'" using r'(2,4) assms(2) calm_evolves [OF assms(3) config_evolves [OF c]] config_evolves [OF c]
    by (simp add: rests_def at_rest_def same_config_def)
  then show ?thesis using r'(1) t by blast
qed

lemma no_retries_queue:
  assumes "winv {} r" "maxRetries r = 0"
  shows "retryQueue r = []"
proof (rule ccontr)
  assume "retryQueue r \<noteq> []"
  then obtain i where i: "i \<in> set (retryQueue r)" by (cases "retryQueue r") auto
  then have n: "i < total_workers r" using winv_shape [OF assms(1)] by (auto simp: shape_ok_def)
  show False using winvD [OF assms(1) n] i assms(2) unfolding worker_ok_def by auto
qed

lemma onDeadline_rest:
  assumes r: "at_rest r" and d: "deadlineTimer r"
  shows "\<exists>r'. onDeadline r = Inr r' \<and> rests r r' \<and> torn r'"
proof -
  let ?r = "r\<lparr>deadlineTimer := False\<rparr>"
  have r0: "winv {} r" "\<not> filling r" "calm r" using r by (simp_all add: at_rest_def)
  then have "\<not> failFast r \<or> maxRetries r = 0" using d by (auto simp: calm_def)
  then have q: "quiet ?r \<or> retryQueue ?r = []" using no_retries_queue [OF r0(1)] by (auto simp: quiet_def)
  have e: "evolves r ?r" by (simp add: evolves_def)
  obtain r' where "teardown ?r Deadline = Inr r'" "rests ?r r'" "torn r'"
    using teardown_rest [of ?r Deadline] r0 q calm_evolves [OF r0(3) e] by auto
  then show ?thesis using evolves_trans [OF e] by (auto simp: onDeadline_def rests_def)
qed

lemma onCancel_rest:
  assumes r: "at_rest r"
  shows "\<exists>r'. onCancel r = Inr r' \<and> rests r r' \<and> torn r'"
proof (cases "run_cancelled r")
  case True
  then show ?thesis using r by (simp add: onCancel_def rests_def evolves_def torn_def)
next
  case False
  then show ?thesis using teardown_rest [of r Cancel] r by (simp add: onCancel_def at_rest_def)
qed

text \<open>When the grace period ends every child that is left is killed, reaped and counted.\<close>

definition draining :: "nat \<Rightarrow> worker_run \<Rightarrow> worker_run \<Rightarrow> bool" where
  "draining k r r' \<longleftrightarrow> winv {} r' \<and> torn r' \<and> torn_core r' \<and> \<not> filling r' \<and> evolves r r' \<and> (\<forall>j<k. counted (wk r' j))"

lemma fillSlots_idle: "\<not> filling r \<Longrightarrow> \<not> has_pending r \<Longrightarrow> fillSlots env r = Inr r"
proof -
  assume f: "\<not> filling r" and p: "\<not> has_pending r"
  have "fill_loop env (r\<lparr>filling := True\<rparr>) = Inr (r\<lparr>filling := True\<rparr>)" using p by (subst fill_loop.simps) (simp add: has_pending_def)
  then show ?thesis using f by (simp add: fillSlots_def and_then_def)
qed

lemma accounted_draining:
  assumes a: "accounted i r r'" and d: "torn r" "torn_core r" "\<not> filling r" "evolves r0 r" "\<forall>j<i. counted (wk r j)"
    and i: "i < total_workers r" "w_complete (wk r i)"
  shows "draining (Suc i) r0 r'"
proof -
  have k: "keeps r r'" "winv {} r'" "torn_core r'" using a d(2) by (simp_all add: accounted_def)
  have "doomed r i" using d(1,2) i(1) by (simp add: torn_core_def)
  then have c: "counted (wk r' i)" using a i(2) by (simp add: accounted_def)
  moreover have "counted (wk r' j)" if "j < i" for j using k(1) d(5) that i(1) unfolding keeps_def by auto
  moreover have "torn r'" "\<not> filling r'" using k(1) d(1,3) by (auto simp: keeps_def same_config_def torn_def)
  moreover have "evolves r0 r'" using k(1) evolves_trans [OF d(4) config_evolves] by (simp add: keeps_def)
  ultimately show ?thesis using k(2,3) by (auto simp: draining_def less_Suc_eq)
qed

abbreviation all_closed :: "worker \<Rightarrow> worker" where
  "all_closed w \<equiv> close_input (close_output (close_output w True) False)"

lemma all_closed_winv:
  assumes v: "winv {} r" and i: "i < total_workers r" and w: "w_running (wk r i) \<or> w_exited (wk r i)"
  shows "winv {i} (set_wk r i (all_closed (wk r i)))"
proof (rule winv_update [OF v i, of _ "all_closed (wk r i)"])
  have "worker_ok {i} (nextToSpawn r) (set (retryQueue r)) (set (armed r)) (maxRetries r) i (all_closed (wk r i))"
    using winvD [OF v i] w by (auto simp: worker_ok_def close_output_def close_input_def w_complete_def)
  then show "worker_ok {i} (nextToSpawn (set_wk r i (all_closed (wk r i)))) (set (retryQueue (set_wk r i (all_closed (wk r i)))))
      (set (armed (set_wk r i (all_closed (wk r i))))) (maxRetries r) i (all_closed (wk r i))" by simp
  show "workers (set_wk r i (all_closed (wk r i))) = (workers r)[i := all_closed (wk r i)]" by (simp add: set_wk_def)
  show "shape_ok (set_wk r i (all_closed (wk r i)))" using winv_shape [OF v] by (simp add: shape_ok_def)
qed (auto simp: close_output_def close_input_def)

lemma account_counted: "counted (wk r i) \<Longrightarrow> account r i = Inr r"
  by (simp add: account_def account_with_def Let_def)

lemma abandon_step:
  assumes d: "draining i r0 r" and i: "i < total_workers r"
  shows "\<exists>r'. abandon env r i = Inr r' \<and> draining (Suc i) r0 r'"
proof -
  have r: "winv {} r" "torn r" "torn_core r" "\<not> filling r" "evolves r0 r" "\<forall>j<i. counted (wk r j)" using d by (simp_all add: draining_def)
  have nd: "nextToSpawn r = total_workers r" "retryQueue r = []" "doomed r i" using r(2,3) i by (simp_all add: torn_core_def)
  note ok = winvD [OF r(1) i]
  show ?thesis
  proof (cases "w_complete (wk r i)")
    case True
    then have "counted (wk r i)" using ok nd(3) unfolding worker_ok_def doomed_def by blast
    then show ?thesis using True d by (auto simp: abandon_def draining_def less_Suc_eq)
  next
    case False
    let ?w = "all_closed (wk r i)" and ?r = "set_wk r i (all_closed (wk r i))"
    have live: "w_running (wk r i) \<or> w_exited (wk r i)" using ok nd(1,2) i unfolding worker_ok_def by auto
    have v1: "winv {i} ?r" by (rule all_closed_winv [OF r(1) i live])
    have t1: "torn ?r" "\<not> filling ?r" "evolves r0 ?r" "\<forall>j<i. counted (wk ?r j)" using r(2,4-6) by (auto simp: torn_def evolves_def)
    have tc1: "torn_core ?r" using r(2,3) by (auto simp: torn_core_def torn_def doomed_def close_output_def close_input_def)
    show ?thesis
    proof (cases "w_exited (wk r i)")
      case True
      have c: "w_complete (wk ?r i)" using True i by (simp add: w_complete_def close_output_def close_input_def)
      obtain r' where r': "account ?r i = Inr r'" "accounted i ?r r'" using account_spec [OF v1 subset_refl] i by auto
      have "draining (Suc i) r0 r'" by (rule accounted_draining [OF r'(2) t1(1) tc1 t1(2-4) _ c]) (simp add: i)
      then show ?thesis using r'(1) True False by (simp add: abandon_def Let_def and_then_def)
    next
      case nx: False
      let ?k = "?r\<lparr>signals := signals ?r @ [(i, Kill)]\<rparr>" and ?q = "reap env (?r\<lparr>signals := signals ?r @ [(i, Kill)]\<rparr>) i"
      have run: "w_running (wk ?k i)" using live nx i by (simp add: close_output_def close_input_def)
      have v2: "winv {i} ?q" using reap_winv [of "{i}" ?k i env] v1 run i by simp
      have t2: "torn ?q" "\<not> filling ?q" "evolves r0 ?q" "\<forall>j<i. counted (wk ?q j)" using t1 by (simp_all add: torn_def evolves_def wk_reap)
      have tc2: "torn_core ?q" using reap_torn(2) tc1 by simp
      have c: "w_complete (wk ?q i)" using i by (simp add: wk_reap w_complete_def close_output_def close_input_def)
      obtain r' where r': "account ?q i = Inr r'" "accounted i ?q r'" using account_spec [OF v2 subset_refl] i by auto
      have d': "draining (Suc i) r0 r'" by (rule accounted_draining [OF r'(2) t2(1) tc2 t2(2-4) _ c]) (simp add: i)
      then have "fillSlots env r' = Inr r'" using torn_idle by (intro fillSlots_idle) (auto simp: draining_def)
      moreover have "account r' i = Inr r'" using d' by (intro account_counted) (simp add: draining_def)
      ultimately show ?thesis using r'(1) d' nx False by (simp add: abandon_def Let_def and_then_def onExit_def)
    qed
  qed
qed

lemma abandon_all:
  assumes "draining k r0 r" "k \<le> m" "m \<le> total_workers r"
  shows "\<exists>r'. each (abandon env) r [k..<m] = Inr r' \<and> draining m r0 r'"
  using assms
proof (induction "m - k" arbitrary: k r)
  case 0
  then show ?case by simp
next
  case (Suc n)
  then have k: "k < m" by simp
  then obtain r1 where r1: "abandon env r k = Inr r1" "draining (Suc k) r0 r1" using abandon_step [OF Suc.prems(1)] Suc.prems(3) by force
  have "total_workers r1 = total_workers r" using r1(2) Suc.prems(1) by (simp add: draining_def evolves_def)
  then have "\<exists>r'. each (abandon env) r1 [Suc k..<m] = Inr r' \<and> draining m r0 r'" using Suc r1(2) k by simp
  then show ?case using r1(1) k by (simp add: upt_conv_Cons and_then_def)
qed

lemma all_counted_done:
  assumes "winv {} r" "\<forall>j < total_workers r. counted (wk r j)"
  shows "remaining r = 0"
  using assms by (simp add: winv_def counts_ok_def)

lemma onDrainExpired_rest:
  assumes r: "at_rest r" and d: "drainTimer r"
  shows "\<exists>r'. onDrainExpired env r = Inr r' \<and> rests r r' \<and> remaining r' = 0 \<and> torn r'"
proof -
  let ?r = "r\<lparr>drainTimer := False\<rparr>"
  have r0: "winv {} r" "torn_ok r" "\<not> filling r" "calm r" using r by (simp_all add: at_rest_def)
  then have "draining 0 r ?r" using d by (simp add: draining_def torn_ok_def torn_def evolves_def)
  from abandon_all [OF this, of "total_workers r" env] obtain r' where
    r': "onDrainExpired env r = Inr r'" "draining (total_workers r) r r'" by (auto simp: onDrainExpired_def)
  have e: "evolves r r'" "torn r'" "torn_core r'" "winv {} r'" "\<not> filling r'" using r'(2) by (simp_all add: draining_def)
  have z: "remaining r' = 0" using all_counted_done [OF e(4)] r'(2) e(1) by (simp add: draining_def evolves_def)
  then have "rests r r'" using e calm_evolves [OF r0(4) e(1)] torn_idle [OF e(3,2)] by (simp add: rests_def at_rest_def torn_ok_def slots_ok_def)
  then show ?thesis using r'(1) z e(2) by blast
qed

subsection \<open>Runs\<close>

lemma at_rest_refl: "at_rest r \<Longrightarrow> rests r r"
  by (simp add: rests_def evolves_def)

lemma at_rest_trans: "rests r r' \<Longrightarrow> rests r' r'' \<Longrightarrow> rests r r''"
  using evolves_trans by (auto simp: rests_def)

lemma wr_step_rest:
  assumes r: "at_rest r"
  shows "fine env (rests r) (wr_step env r ev)"
proof -
  have idle: "fine env (rests r) (Inr r)" by (rule fine_Inr [where P = "rests r", OF at_rest_refl [OF r]])
  show ?thesis
  proof (cases ev)
    case (Readable i b hangup answers)
    then show ?thesis using onReadable_rest [OF r, of i b env hangup answers] idle by (auto simp: wr_step_def Let_def)
  next
    case (Writable i answers)
    then show ?thesis using onWritable_rest [OF r, of i env answers] idle by (auto simp: wr_step_def Let_def)
  next
    case (ChildExits i)
    then show ?thesis using onExit_rest [OF r, of i env] idle by (auto simp: wr_step_def Let_def)
  next
    case DeadlineFires
    then show ?thesis using onDeadline_rest [OF r] idle by (auto simp: wr_step_def Let_def fine_def)
  next
    case SignalArrives
    then show ?thesis using onCancel_rest [OF r] idle by (auto simp: wr_step_def Let_def fine_def)
  next
    case (RetryFires i)
    then show ?thesis using onRetry_rest [OF r, of i env] idle by (auto simp: wr_step_def Let_def)
  next
    case DrainFires
    then show ?thesis using onDrainExpired_rest [OF r, of env] idle by (auto simp: wr_step_def Let_def fine_def)
  qed
qed

lemma wr_events_rest: "at_rest r \<Longrightarrow> fine env (rests r) (wr_events env r evs)"
  unfolding wr_events_def
proof (induction evs arbitrary: r)
  case Nil
  then show ?case by (simp add: fine_def at_rest_refl)
next
  case (Cons ev evs)
  show ?case unfolding each.simps
  proof (rule fine_then [OF wr_step_rest [OF Cons.prems]])
    fix r1 assume r1: "rests r r1"
    then have "fine env (rests r1) (each (wr_step env) r1 evs)" by (intro Cons.IH) (simp add: rests_def)
    then show "fine env (rests r) (each (wr_step env) r1 evs)" using at_rest_trans [OF r1] by (rule fine_mono)
  qed
qed

record wr_setup =
  su_clients :: "(string \<times> string) list"
  su_sink :: "bool \<times> bool"
  su_concurrency :: nat
  su_feed :: bool
  su_policy :: OverflowPolicy
  su_ringBytes :: nat
  su_failFast :: bool
  su_maxRetries :: nat
  su_timeoutSec :: nat
  su_handler :: bool

definition fresh_run :: "wr_setup \<Rightarrow> worker_run" where
  "fresh_run u = WorkerRun (map (\<lambda>(c, input). new_worker c input) (su_clients u)) (su_sink u) (su_concurrency u) (su_feed u) (su_policy u)
     (su_ringBytes u) (su_failFast u) (su_maxRetries u)"

definition run_trace :: "wr_env \<Rightarrow> wr_setup \<Rightarrow> wr_event list \<Rightarrow> stop + worker_run" where
  "run_trace env u evs = and_then (wr_run env (fresh_run u) (su_timeoutSec u) (su_handler u)) (\<lambda>r. wr_events env r evs)"

text \<open>The combination of options under which a run is free of undefined behaviour.\<close>

definition sane_setup :: "wr_setup \<Rightarrow> bool" where
  "sane_setup u \<longleftrightarrow> su_clients u \<noteq> [] \<and> (su_failFast u \<and> 0 < su_maxRetries u \<longrightarrow> su_timeoutSec u = 0)"

lemma new_worker_ok: "worker_ok {} 0 {} {} limit i (new_worker c input)"
  by (simp add: worker_ok_def new_worker_def w_complete_def)

lemma fresh_winv:
  assumes "su_clients u \<noteq> []"
  shows "winv {} ((fresh_run u)\<lparr>remaining := total_workers (fresh_run u), signalRegistered := h, deadlineTimer := d\<rparr>)" (is "winv {} ?r")
proof -
  let ?n = "length (su_clients u)"
  have w: "\<exists>c input. wk ?r i = new_worker c input" if "i < ?n" for i
    using that by (cases "su_clients u ! i") (auto simp: fresh_run_def WorkerRun_def wk_def)
  have nw: "\<not> counted (wk ?r i)" "\<not> w_running (wk ?r i)" "worker_ok {} 0 {} {} limit i (wk ?r i)" if "i < ?n" for i limit
    using w [OF that] new_worker_ok by (auto simp: new_worker_def)
  have n: "total_workers ?r = ?n" "remaining ?r = ?n" "inFlight ?r = 0" "nextToSpawn ?r = 0" "retryQueue ?r = []" "armed ?r = []" "stopped ?r = False"
      "0 < concurrency ?r" using assms by (simp_all add: fresh_run_def WorkerRun_def)
  have "(\<Sum>i<?n. of_bool (\<not> counted (wk ?r i))) = (\<Sum>i<?n. 1::nat)" by (rule sum.cong) (use nw(1) in auto)
  moreover have "(\<Sum>i<?n. of_bool (w_running (wk ?r i))) = (\<Sum>i<?n. 0::nat)" by (rule sum.cong) (use nw(2) in auto)
  ultimately have "counts_ok ?r" unfolding counts_ok_def n by simp
  moreover have "shape_ok ?r" using assms unfolding shape_ok_def n by (simp add: fresh_run_def WorkerRun_def)
  ultimately show ?thesis using nw(3) unfolding winv_def n by simp
qed

lemma run_trace_rest:
  assumes u: "sane_setup u"
  defines "start \<equiv> (fresh_run u)\<lparr>remaining := total_workers (fresh_run u), signalRegistered := su_handler u, deadlineTimer := (su_timeoutSec u > 0)\<rparr>"
  shows "fine env (rests start) (run_trace env u evs)"
proof -
  have s: "winv {} start" unfolding start_def by (rule fresh_winv) (use u in \<open>simp add: sane_setup_def\<close>)
  have t: "torn_ok start" "\<not> filling start" "calm start" using u
    by (auto simp: start_def fresh_run_def WorkerRun_def torn_ok_def torn_core_def torn_def calm_def sane_setup_def)
  have "fine env (rests start) (wr_run env (fresh_run u) (su_timeoutSec u) (su_handler u))"
    unfolding wr_run_def start_def [symmetric] by (rule fillSlots_fine [OF s t])
  then show ?thesis unfolding run_trace_def
  proof (rule fine_then)
    fix r assume r: "rests start r"
    then have "fine env (rests r) (wr_events env r evs)" by (intro wr_events_rest) (simp add: rests_def)
    then show "fine env (rests start) (wr_events env r evs)" using at_rest_trans [OF r] by (rule fine_mono)
  qed
qed

lemma trace_at_rest:
  assumes "sane_setup u" "run_trace env u evs = Inr r"
  shows "at_rest r" "total_workers r = length (su_clients u)" "maxRetries r = su_maxRetries u"
    "concurrency r = (if su_concurrency u = 0 then length (su_clients u) else su_concurrency u)"
proof -
  have "rests ((fresh_run u)\<lparr>remaining := total_workers (fresh_run u), signalRegistered := su_handler u, deadlineTimer := (su_timeoutSec u > 0)\<rparr>) r"
    using run_trace_rest [OF assms(1), of env evs] assms(2) by (simp add: fine_def)
  then show "at_rest r" "total_workers r = length (su_clients u)" "maxRetries r = su_maxRetries u"
    "concurrency r = (if su_concurrency u = 0 then length (su_clients u) else su_concurrency u)"
    by (simp_all add: rests_def evolves_def fresh_run_def WorkerRun_def)
qed

end
