(* ===== verification/Worker_Props.thy ===== *)
theory Worker_Props
  imports Worker_Events
begin

text \<open>
  The properties of \<open>WorkerRun\<close>: a run of any events from a sane setup is accounted, never waits for nothing, and is over once a
  teardown's grace period ends; and what goes wrong outside a sane setup.
\<close>

subsection \<open>Accounting\<close>

lemma sum_card: "(\<Sum>i<(n::nat). of_bool (P i)) = card {i. i < n \<and> P i}"
proof -
  have "{..<n} \<inter> {i. P i} = {i. i < n \<and> P i}" by auto
  then show ?thesis by simp
qed

definition run_ok :: "wr_setup \<Rightarrow> worker_run \<Rightarrow> bool" where
  "run_ok u r \<longleftrightarrow> (let n = length (su_clients u) in
     length (workers r) = n \<and> remaining r = card {i. i < n \<and> \<not> counted (wk r i)} \<and> (stopped r \<longleftrightarrow> remaining r = 0) \<and>
     inFlight r = card {i. i < n \<and> w_running (wk r i)} \<and> inFlight r \<le> (if su_concurrency u = 0 then n else su_concurrency u) \<and>
     (\<forall>i<n. attempt (wk r i) \<le> su_maxRetries u \<and>
        (counted (wk r i) \<longrightarrow> w_complete (wk r i) \<and> \<not> w_running (wk r i) \<and> \<not> awaitingRetry (wk r i)) \<and>
        (torn r \<longrightarrow> \<not> awaitingRetry (wk r i) \<and> \<not> has_pending r)))"

lemma at_rest_ok:
  assumes r: "at_rest r" and n: "total_workers r = length (su_clients u)" and m: "maxRetries r = su_maxRetries u"
    and c: "concurrency r = (if su_concurrency u = 0 then length (su_clients u) else su_concurrency u)"
  shows "run_ok u r"
proof -
  have v: "winv {} r" "torn_core r" using r by (simp_all add: at_rest_def torn_ok_def)
  have s: "stopped r \<longleftrightarrow> remaining r = 0" "inFlight r \<le> concurrency r" using winv_shape [OF v(1)] by (simp_all add: shape_ok_def)
  have k: "remaining r = card {i. i < total_workers r \<and> \<not> counted (wk r i)}" "inFlight r = card {i. i < total_workers r \<and> w_running (wk r i)}"
    using v(1) by (simp_all add: winv_def counts_ok_def sum_card del: sum_of_bool_eq)
  have w: "attempt (wk r i) \<le> maxRetries r \<and> (counted (wk r i) \<longrightarrow> w_complete (wk r i) \<and> \<not> w_running (wk r i) \<and> \<not> awaitingRetry (wk r i))"
    if "i < total_workers r" for i
    using winvD [OF v(1) that] unfolding worker_ok_def w_complete_def by auto
  have t: "\<not> awaitingRetry (wk r i) \<and> \<not> has_pending r" if "i < total_workers r" "torn r" for i
    using v(2) that torn_idle [OF v(2)] w [OF that(1)] by (auto simp: torn_core_def doomed_def)
  show ?thesis using s k w t unfolding run_ok_def Let_def n m c by auto
qed

text \<open>
  C9: whatever children do, in whatever order exits, output, retries, the deadline, signals and the grace period arrive, a run
  never meets undefined behaviour and ends early only with an exception its environment raised.  Otherwise the children not
  yet counted are exactly the ones remaining, each is counted once, when it is complete, the loop is stopped exactly when
  none remains, the children in flight are exactly the running ones and within the limit, no child is retried more often
  than allowed, and once a teardown has begun nothing is started or retried.  The options are those of a sane setup: at
  least one client, and not fail-fast, retries and a deadline together; with the three of them a run can meet undefined
  behaviour (\<open>deadline_failfast_undefined\<close>).
\<close>

theorem run_accounted:
  assumes "sane_setup u"
  shows "(\<exists>r. run_trace env u evs = Inr r \<and> run_ok u r) \<or> (\<exists>t. run_trace env u evs = Inl (Thrown t) \<and> throws env t)"
proof -
  consider r where "run_trace env u evs = Inr r" | t where "run_trace env u evs = Inl (Thrown t)" "throws env t"
    using run_trace_rest [OF assms, of env evs] by (auto simp: fine_def)
  then show ?thesis
  proof cases
    case 1
    then show ?thesis using at_rest_ok [OF trace_at_rest [OF assms 1]] by blast
  next
    case 2
    then show ?thesis by blast
  qed
qed

definition calm_env :: wr_env where
  "calm_env = \<lparr>spawns = (\<lambda>i a. Spawned ChildWatched), waits = (\<lambda>i a. Some \<lparr>ws_exited = True, ws_code = 255\<rparr>), disks = (\<lambda>i b t. good_disk t)\<rparr>"

definition two_clients :: wr_setup where
  "two_clients = \<lparr>su_clients = [(''a'', []), (''b'', [])], su_sink = (False, False), su_concurrency = 1, su_feed = False, su_policy = Block,
     su_ringBytes = 0, su_failFast = False, su_maxRetries = 1, su_timeoutSec = 5, su_handler = True\<rparr>"

definition transient_exit :: "nat \<Rightarrow> wr_event list" where
  "transient_exit i = [Readable i False True [Got ''Connection refused'', Got []], Readable i True True [Got []], ChildExits i]"

definition outcome :: "stop + worker_run \<Rightarrow> stop + (nat \<times> nat \<times> bool \<times> (bool \<times> nat) list)" where
  "outcome m = (case m of Inl s \<Rightarrow> Inl s | Inr r \<Rightarrow> Inr (remaining r, inFlight r, stopped r, map (\<lambda>w. (counted w, attempt w)) (workers r)))"

lemma outcome_Inr: "outcome m = Inr (a, b, c, d) \<Longrightarrow> \<exists>r. m = Inr r \<and> remaining r = a \<and> inFlight r = b \<and> stopped r = c"
  by (auto simp: outcome_def split: sum.splits)

theorem run_accounted_witness:
  "\<exists>r. run_trace calm_env two_clients (transient_exit 0) = Inr r \<and> run_ok two_clients r \<and> remaining r = 2 \<and> inFlight r = 1"
proof -
  have s: "sane_setup two_clients" by (simp add: sane_setup_def two_clients_def)
  have "outcome (run_trace calm_env two_clients (transient_exit 0)) = Inr (2, 1, False, [(False, 1), (False, 0)])" by code_simp
  then show ?thesis using run_accounted [OF s, of calm_env "transient_exit 0"] by (fastforce dest: outcome_Inr)
qed

subsection \<open>Progress\<close>

text \<open>The events of children and of retry timers that the reactor can still deliver.\<close>

definition expects :: "worker_run \<Rightarrow> wr_event \<Rightarrow> bool" where
  "expects r ev =
     (case ev of
        ChildExits i \<Rightarrow> i < length (workers r) \<and> w_running (wk r i)
      | Readable i b _ _ \<Rightarrow> i < length (workers r) \<and> (if b then w_stdoutToken (wk r i) else w_stderrToken (wk r i))
      | Writable i _ \<Rightarrow> i < length (workers r) \<and> w_stdinToken (wk r i)
      | RetryFires i \<Rightarrow> i < length (workers r) \<and> i \<in> set (armed r) \<and> awaitingRetry (wk r i)
      | _ \<Rightarrow> False)"

lemma uncounted_exists:
  assumes "winv {} r" "remaining r \<noteq> 0"
  shows "\<exists>i < total_workers r. \<not> counted (wk r i)"
  using all_counted_done [OF assms(1)] assms(2) by blast

lemma running_exists:
  assumes "winv {} r" "inFlight r \<noteq> 0"
  shows "\<exists>i < total_workers r. w_running (wk r i)"
proof (rule ccontr)
  assume "\<not> (\<exists>i < total_workers r. w_running (wk r i))"
  then have "{..<total_workers r} \<inter> {i. w_running (wk r i)} = {}" by auto
  then show False using assms by (simp add: winv_def counts_ok_def)
qed

lemma at_rest_expects:
  assumes r: "at_rest r" and m: "remaining r \<noteq> 0"
  shows "\<exists>ev. expects r ev"
proof -
  have v: "winv {} r" "slots_ok r" using r by (simp_all add: at_rest_def)
  have c: "0 < concurrency r" using winv_shape [OF v(1)] by (simp add: shape_ok_def)
  obtain i where i: "i < total_workers r" "\<not> counted (wk r i)" using uncounted_exists [OF v(1) m] by blast
  note ok = winvD [OF v(1) i(1)]
  show ?thesis
  proof (cases "inFlight r = 0")
    case False
    then obtain j where "j < total_workers r" "w_running (wk r j)" using running_exists [OF v(1)] by blast
    then have "expects r (ChildExits j)" by (simp add: expects_def)
    then show ?thesis by blast
  next
    case True
    then have "\<not> has_pending r" using v(2) c by (simp add: slots_ok_def)
    then have p: "nextToSpawn r \<ge> total_workers r" "retryQueue r = []" by (simp_all add: has_pending_def)
    have nr: "\<not> w_running (wk r i)" using running_inFlight [OF v(1) i(1)] True by auto
    have x: "w_exited (wk r i)" using ok p i(1) nr unfolding worker_ok_def by auto
    have cl: "w_stdoutClosed (wk r i) \<or> w_stdoutToken (wk r i)" "w_stderrClosed (wk r i) \<or> w_stderrToken (wk r i)"
        "w_stdinClosed (wk r i) \<or> w_stdinToken (wk r i)" using ok x unfolding worker_ok_def by (simp_all only: simp_thms if_True)
    have aw: "w_complete (wk r i) \<longrightarrow> awaitingRetry (wk r i) \<and> i \<in> set (armed r)" using ok i(2) unfolding worker_ok_def by blast
    consider "awaitingRetry (wk r i)" "i \<in> set (armed r)" | "w_stdoutToken (wk r i)" | "w_stderrToken (wk r i)" | "w_stdinToken (wk r i)"
      using cl aw x unfolding w_complete_def by blast
    then show ?thesis
    proof cases
      case 1
      then have "expects r (RetryFires i)" using i(1) by (simp add: expects_def)
      then show ?thesis by blast
    next
      case 2
      then have "expects r (Readable i True False [])" using i(1) by (simp add: expects_def)
      then show ?thesis by blast
    next
      case 3
      then have "expects r (Readable i False False [])" using i(1) by (simp add: expects_def)
      then show ?thesis by blast
    next
      case 4
      then have "expects r (Writable i [])" using i(1) by (simp add: expects_def)
      then show ?thesis by blast
    qed
  qed
qed

text \<open>
  C10: a run is never stuck: as long as the loop is not stopped, some child is running and can exit, or has a descriptor the
  reactor watches, or has a retry timer that will fire; children waiting for a slot or a retry are never forgotten.  (Again
  not with fail-fast, retries and a deadline together.)
\<close>

theorem run_never_stuck:
  assumes "sane_setup u" "run_trace env u evs = Inr r" "\<not> stopped r"
  shows "\<exists>ev. expects r ev"
proof -
  have r: "at_rest r" by (rule trace_at_rest(1) [OF assms(1,2)])
  then have "remaining r \<noteq> 0" using assms(3) by (simp add: at_rest_def winv_def shape_ok_def)
  then show ?thesis by (rule at_rest_expects [OF r])
qed

theorem run_never_stuck_witness:
  "sane_setup two_clients \<and> (\<exists>r. run_trace calm_env two_clients (transient_exit 0) = Inr r \<and> \<not> stopped r \<and> (\<exists>ev. expects r ev))"
proof -
  have s: "sane_setup two_clients" by (simp add: sane_setup_def two_clients_def)
  have "outcome (run_trace calm_env two_clients (transient_exit 0)) = Inr (2, 1, False, [(False, 1), (False, 0)])" by code_simp
  then show ?thesis using s run_never_stuck [OF s, of calm_env "transient_exit 0"] by (fastforce dest: outcome_Inr)
qed

subsection \<open>Teardown\<close>

lemma events_two: "wr_step env r e1 = Inr r1 \<Longrightarrow> wr_step env r1 e2 = Inr r2 \<Longrightarrow> wr_events env r [e1, e2] = Inr r2"
  by (simp add: wr_events_def and_then_def)

lemma torn_drains:
  assumes r: "at_rest r" and t: "torn r"
  shows "\<exists>r'. wr_step env r DrainFires = Inr r' \<and> rests r r' \<and> remaining r' = 0"
proof (cases "drainTimer r")
  case True
  then show ?thesis using onDrainExpired_rest [OF r True, of env] by (auto simp: wr_step_def Let_def)
next
  case False
  then show ?thesis using r t at_rest_refl [OF r] by (auto simp: wr_step_def Let_def at_rest_def torn_ok_def)
qed

lemma teardown_event:
  assumes r: "at_rest r" and e: "ev = SignalArrives \<and> signalRegistered r \<or> ev = DeadlineFires \<and> deadlineTimer r"
  shows "\<exists>r'. wr_step env r ev = Inr r' \<and> rests r r' \<and> torn r'"
  using e onCancel_rest [OF r] onDeadline_rest [OF r] by (auto simp: wr_step_def Let_def)

text \<open>
  The signals of the end of the grace period.  Counting a child never kills one: the teardown it may start, for fail-fast,
  asks politely.
\<close>

definition asks :: "worker_run \<Rightarrow> worker_run \<Rightarrow> bool" where
  "asks r r' \<longleftrightarrow> (\<exists>g. signals r' = signals r @ map (\<lambda>i. (i, Graceful)) g)"

lemma asks_refl: "asks r r" and asks_trans: "asks r r' \<Longrightarrow> asks r' r'' \<Longrightarrow> asks r r''"
  unfolding asks_def by (metis append_Nil2 list.simps(8)) (metis append_assoc map_append)

lemma signals_set_wk [simp]: "signals (set_wk r i w) = signals r"
  by (simp add: set_wk_def)

lemma asks_same: "signals r1 = signals r \<Longrightarrow> asks r1 r' \<Longrightarrow> asks r r'"
  by (simp add: asks_def)

lemma account_with_asks:
  assumes "account_with td r i = Inr r'" "\<And>r r'. td r = Inr r' \<Longrightarrow> asks r r'"
  shows "asks r r'"
  using assms(1) assms(2) [of "(set_wk r i (wk r i\<lparr>counted := True\<rparr>))\<lparr>remaining := remaining r - 1, run_aborted := True\<rparr>" r']
  by (auto simp: account_with_def Let_def scheduleRetry_def asks_refl asks_def split: if_splits)

lemma teardown_with_asks:
  assumes "teardown_with acc r FailFast = Inr r'" and acc: "\<And>r i r'. acc r i = Inr r' \<Longrightarrow> asks r r'"
  shows "asks r r'"
proof -
  let ?r0 = "begin_teardown r FailFast" and ?n = "length (workers r)"
  obtain r1 r3 r4 where 1: "each (end_queued acc FailFast (retryQueue ?r0)) ?r0 (retryQueue ?r0) = Inr r1"
      and 3: "each (end_pending acc FailFast) (r1\<lparr>retryQueue := []\<rparr>) [nextToSpawn r1..<?n] = Inr r3"
      and 4: "each (stop_worker acc FailFast) r3 [0..<?n] = Inr r4" "r' = r4\<lparr>drainTimer := True\<rparr>"
    using assms(1) by (auto simp: teardown_with_def Let_def and_then_Inr)
  have "asks s s'" if "end_queued acc FailFast q s x = Inr s'" for q s x s'
    using that by (auto simp: end_queued_def and_then_Inr split: if_splits dest!: acc intro: asks_same [rotated])
  then have "asks ?r0 r1" by (rule each_rel [OF 1 _ asks_refl asks_trans])
  moreover have "asks s s'" if "end_pending acc FailFast s x = Inr s'" for s x s'
    using that by (auto simp: end_pending_def asks_refl split: if_splits dest!: acc intro: asks_same [rotated])
  then have "asks (r1\<lparr>retryQueue := []\<rparr>) r3" by (rule each_rel [OF 3 _ asks_refl asks_trans])
  moreover have "asks s s'" if "stop_worker acc FailFast s x = Inr s'" for s x s'
    using that by (auto simp: stop_worker_def Let_def asks_refl split: if_splits dest!: acc intro: asks_same [rotated])
      (auto simp: asks_def intro!: exI [of _ "[x]"])
  then have "asks r3 r4" by (rule each_rel [OF 4(1) _ asks_refl asks_trans])
  moreover have "signals ?r0 = signals r" by (simp add: begin_teardown_def)
  ultimately show ?thesis using 4(2) by (auto simp: asks_def simp flip: map_append)
qed

lemma account_asks: "account r i = Inr r' \<Longrightarrow> asks r r'"
  unfolding account_def
  by (erule account_with_asks, erule teardown_with_asks, erule account_with_asks) simp

text \<open>The children that are sent SIGKILL between two states.\<close>

definition killed :: "worker_run \<Rightarrow> worker_run \<Rightarrow> nat set" where
  "killed r r' = {i. (i, Kill) \<in> set (drop (length (signals r)) (signals r'))}"

definition extends :: "worker_run \<Rightarrow> worker_run \<Rightarrow> bool" where
  "extends r r' \<longleftrightarrow> (\<exists>g. signals r' = signals r @ g)"

lemma asks_killed: "asks r r' \<Longrightarrow> extends r r' \<and> killed r r' = {}"
  by (auto simp: asks_def extends_def killed_def)

lemma killed_trans: "extends r r' \<Longrightarrow> extends r' r'' \<Longrightarrow> extends r r'' \<and> killed r r'' = killed r r' \<union> killed r' r''"
  by (auto simp: extends_def killed_def)

lemma abandon_kills:
  assumes d: "draining i r0 r" and i: "i < total_workers r" and a: "abandon env r i = Inr r'"
  shows "extends r r' \<and> killed r r' = (if w_running (wk r i) then {i} else {}) \<and>
    (\<forall>j < total_workers r. j \<noteq> i \<longrightarrow> w_running (wk r' j) = w_running (wk r j))"
proof -
  have r: "winv {} r" "torn r" "torn_core r" "\<not> filling r" "evolves r0 r" "\<forall>j<i. counted (wk r j)" using d by (simp_all add: draining_def)
  have nd: "nextToSpawn r = total_workers r" "retryQueue r = []" using r(2,3) i by (simp_all add: torn_core_def)
  note ok = winvD [OF r(1) i]
  show ?thesis
  proof (cases "w_complete (wk r i)")
    case True
    then have "\<not> w_running (wk r i)" using ok unfolding worker_ok_def w_complete_def by blast
    then show ?thesis using a True asks_killed [OF asks_refl] by (simp add: abandon_def)
  next
    case False
    let ?r = "set_wk r i (all_closed (wk r i))"
    have live: "w_running (wk r i) \<or> w_exited (wk r i)" using ok nd i unfolding worker_ok_def by auto
    have v1: "winv {i} ?r" by (rule all_closed_winv [OF r(1) i live])
    have keep: "j < total_workers r \<Longrightarrow> j \<noteq> i \<Longrightarrow> w_running (wk ?r j) = w_running (wk r j)" for j by simp
    show ?thesis
    proof (cases "w_exited (wk r i)")
      case True
      then have nr: "\<not> w_running (wk r i)" using ok unfolding worker_ok_def by blast
      have "account ?r i = Inr r'" using a True False by (simp add: abandon_def Let_def and_then_def)
      moreover obtain r2 where "account ?r i = Inr r2" "accounted i ?r r2" using account_spec [OF v1 subset_refl] i by auto
      ultimately have "keeps ?r r'" "asks ?r r'" using account_asks by (auto simp: accounted_def)
      then show ?thesis using nr asks_killed [of ?r r'] by (auto simp: keeps_def extends_def killed_def)
    next
      case nx: False
      let ?k = "?r\<lparr>signals := signals ?r @ [(i, Kill)]\<rparr>" and ?q = "reap env (?r\<lparr>signals := signals ?r @ [(i, Kill)]\<rparr>) i"
      have run: "w_running (wk r i)" using live nx by blast
      have v2: "winv {i} ?q" using reap_winv [of "{i}" ?k i env] v1 run i by (simp add: close_output_def close_input_def)
      obtain r2 where r2: "account ?q i = Inr r2" "accounted i ?q r2" using account_spec [OF v2 subset_refl] i by auto
      have e: "onExit env ?k i = fillSlots env r2" using r2(1) by (simp add: onExit_def and_then_def)
      have t: "torn ?q" "torn_core ?q" "\<not> filling ?q" "evolves r0 ?q" "\<forall>j<i. counted (wk ?q j)"
        using r(2-6) reap_torn(2) [of ?k env i]
        by (auto simp: torn_def evolves_def wk_reap torn_core_def doomed_def close_output_def close_input_def)
      have c: "w_complete (wk ?q i)" using i by (simp add: wk_reap w_complete_def close_output_def close_input_def)
      have d': "draining (Suc i) r0 r2" by (rule accounted_draining [OF r2(2) t _ c]) (simp add: i)
      then have "fillSlots env r2 = Inr r2" using torn_idle by (intro fillSlots_idle) (auto simp: draining_def)
      moreover have "account r2 i = Inr r2" using d' by (intro account_counted) (simp add: draining_def)
      ultimately have "r' = r2" using a nx False e by (simp add: abandon_def Let_def and_then_def)
      moreover have "keeps ?q r2" "asks ?q r2" using r2 account_asks by (auto simp: accounted_def)
      moreover have "signals ?q = signals r @ [(i, Kill)]" by (simp add: reap_def Let_def)
      ultimately show ?thesis using run asks_killed [of ?q r2]
        by (auto simp: keeps_def extends_def killed_def wk_reap)
    qed
  qed
qed

lemma abandon_all_kills:
  assumes "draining k r0 r" "k \<le> m" "m \<le> total_workers r" "each (abandon env) r [k..<m] = Inr r'"
  shows "extends r r' \<and> killed r r' = {i. k \<le> i \<and> i < m \<and> w_running (wk r i)}"
  using assms
proof (induction "m - k" arbitrary: k r)
  case 0
  then show ?case using asks_killed [OF asks_refl] by simp
next
  case (Suc n)
  then have k: "k < m" by simp
  obtain r1 where r1: "abandon env r k = Inr r1" "draining (Suc k) r0 r1" using abandon_step [OF Suc.prems(1)] k Suc.prems(3) by force
  have n: "total_workers r1 = total_workers r" using r1(2) Suc.prems(1) by (simp add: draining_def evolves_def)
  have rest: "each (abandon env) r1 [Suc k..<m] = Inr r'" using Suc.prems(4) k r1(1) by (simp add: upt_conv_Cons and_then_def)
  have "k < total_workers r" using k Suc.prems(3) by simp
  note one = abandon_kills [OF Suc.prems(1) this r1(1)]
  have ih: "extends r1 r' \<and> killed r1 r' = {i. Suc k \<le> i \<and> i < m \<and> w_running (wk r1 i)}"
    using Suc.hyps(1) [OF _ r1(2) _ _ rest] Suc.hyps(2) k n Suc.prems(3) by simp
  have "{i. Suc k \<le> i \<and> i < m \<and> w_running (wk r1 i)} = {i. Suc k \<le> i \<and> i < m \<and> w_running (wk r i)}"
    using one Suc.prems(3) by auto
  moreover have "{i. k \<le> i \<and> i < m \<and> w_running (wk r i)} =
      (if w_running (wk r k) then {k} else {}) \<union> {i. Suc k \<le> i \<and> i < m \<and> w_running (wk r i)}"
    using k by (auto simp: Suc_le_eq le_less)
  ultimately show ?case using killed_trans [of r r1 r'] one ih by auto
qed

lemma drain_kills:
  assumes r: "at_rest r" and d: "drainTimer r" and s: "wr_step env r DrainFires = Inr r'"
  shows "killed r r' = {i. i < total_workers r \<and> w_running (wk r i)}"
proof -
  let ?r = "r\<lparr>drainTimer := False\<rparr>"
  have r0: "winv {} r" "torn_ok r" "\<not> filling r" using r by (simp_all add: at_rest_def)
  then have dr: "draining 0 r ?r" using d by (simp add: draining_def torn_ok_def torn_def evolves_def)
  have "each (abandon env) ?r [0..<total_workers r] = Inr r'" using s d by (simp add: wr_step_def Let_def onDrainExpired_def)
  from abandon_all_kills [OF dr _ _ this] show ?thesis by (simp add: killed_def)
qed

lemma drain_kills_torn:
  assumes r: "at_rest r" and t: "torn r" and s: "wr_step env r DrainFires = Inr r'"
  shows "killed r r' = {i. i < total_workers r \<and> w_running (wk r i)}"
proof (cases "drainTimer r")
  case True
  then show ?thesis using drain_kills [OF r _ s] by blast
next
  case False
  have v: "winv {} r" using r by (simp add: at_rest_def)
  have z: "remaining r = 0" using r t False by (auto simp: at_rest_def torn_ok_def)
  have "\<not> w_running (wk r i)" if "i < total_workers r" for i
    using winvD [OF v that] uncounted_remaining [OF v that] z unfolding worker_ok_def w_complete_def by auto
  moreover have "r' = r" using s False by (simp add: wr_step_def Let_def)
  ultimately show ?thesis using asks_killed [OF asks_refl] by auto
qed

text \<open>
  C11: a signal or the deadline ends a run: however many children ignore the request to stop, hold their pipes open, or
  wait to be started or retried, when the grace period is over exactly the children still running have been sent SIGKILL,
  every child is reaped and counted, and the loop is stopped.  The options are those of a sane setup: not fail-fast, retries
  and a deadline together (\<open>sane_setup\<close>; see \<open>deadline_failfast_undefined\<close>).
\<close>

theorem teardown_ends_run:
  assumes "sane_setup u" "run_trace env u evs = Inr r"
    and "ev = SignalArrives \<and> signalRegistered r \<or> ev = DeadlineFires \<and> deadlineTimer r"
  shows "\<exists>r1 r'. wr_step env r ev = Inr r1 \<and> wr_step env r1 DrainFires = Inr r' \<and>
    {i. (i, Kill) \<in> set (drop (length (signals r1)) (signals r'))} = {i. i < length (workers r1) \<and> w_running (wk r1 i)} \<and>
    stopped r' \<and> inFlight r' = 0 \<and> list_all (\<lambda>w. counted w \<and> w_complete w) (workers r')"
proof -
  have r: "at_rest r" by (rule trace_at_rest(1) [OF assms(1,2)])
  obtain r1 where r1: "wr_step env r ev = Inr r1" "rests r r1" "torn r1" using teardown_event [OF r assms(3)] by blast
  have r1': "at_rest r1" using r1(2) by (simp add: rests_def)
  obtain r2 where r2: "wr_step env r1 DrainFires = Inr r2" "rests r1 r2" "remaining r2 = 0" using torn_drains [OF r1' r1(3)] by blast
  have v: "winv {} r2" using r2(2) by (simp add: rests_def at_rest_def)
  have c: "counted (wk r2 i)" if "i < total_workers r2" for i using uncounted_remaining [OF v that] r2(3) by auto
  have w: "w_complete (wk r2 i) \<and> \<not> w_running (wk r2 i)" if "i < total_workers r2" for i
    using winvD [OF v that] c [OF that] unfolding worker_ok_def w_complete_def by auto
  have "inFlight r2 = 0" using running_exists [OF v] w by blast
  moreover have "stopped r2" using winv_shape [OF v] r2(3) by (simp add: shape_ok_def)
  moreover have "list_all (\<lambda>w. counted w \<and> w_complete w) (workers r2)" using c w by (auto simp: list_all_length wk_def)
  moreover have "killed r1 r2 = {i. i < total_workers r1 \<and> w_running (wk r1 i)}"
    by (rule drain_kills_torn [OF r1' r1(3) r2(1)])
  ultimately show ?thesis using r1(1) r2(1) unfolding killed_def by blast
qed

text \<open>Two children run; the signal only asks them, and at the end of the grace period both are killed.\<close>

lemma both_running:
  "\<exists>r. run_trace calm_env (two_clients\<lparr>su_concurrency := 2\<rparr>) [] = Inr r \<and> signalRegistered r"
proof -
  have "(case run_trace calm_env (two_clients\<lparr>su_concurrency := 2\<rparr>) [] of Inl _ \<Rightarrow> False | Inr r \<Rightarrow> signalRegistered r)" by code_simp
  then show ?thesis by (auto split: sum.splits)
qed

theorem teardown_ends_run_witness:
  "\<exists>r r1 r'. run_trace calm_env (two_clients\<lparr>su_concurrency := 2\<rparr>) [] = Inr r \<and> wr_step calm_env r SignalArrives = Inr r1 \<and>
     wr_step calm_env r1 DrainFires = Inr r' \<and> stopped r'"
proof -
  have s: "sane_setup (two_clients\<lparr>su_concurrency := 2\<rparr>)" by (simp add: sane_setup_def two_clients_def)
  obtain r where r: "run_trace calm_env (two_clients\<lparr>su_concurrency := 2\<rparr>) [] = Inr r" "signalRegistered r"
    using both_running by blast
  then show ?thesis using teardown_ends_run [OF s r(1), of SignalArrives] by blast
qed

subsection \<open>Outside a sane setup\<close>

text \<open>
  With fail-fast, retries and a deadline together, the deadline can fire while a child waits in the retry queue: the loop of
  \<open>teardown\<close> over the queue accounts the child as a failure, which starts a second teardown that clears the queue under the loop.
\<close>

lemma deadline_failfast_undefined:
  "run_trace calm_env (two_clients\<lparr>su_failFast := True\<rparr>) (transient_exit 0 @ [RetryFires 0, DeadlineFires]) = Inl Undefined"
proof -
  have "outcome (run_trace calm_env (two_clients\<lparr>su_failFast := True\<rparr>) (transient_exit 0 @ [RetryFires 0, DeadlineFires])) = Inl Undefined" by code_simp
  then show ?thesis by (simp add: outcome_def split: sum.splits)
qed

text \<open>A child whose retry was cancelled during its delay was started once, and counts two attempts.\<close>

lemma cancelled_retry_counts:
  "\<exists>r. run_trace calm_env (two_clients\<lparr>su_concurrency := 2\<rparr>) (transient_exit 0 @ [SignalArrives]) = Inr r \<and> counted (wk r 0) \<and> attempt (wk r 0) = 1 \<and>
     w_cancelled (wk r 0)"
proof -
  have "(case run_trace calm_env (two_clients\<lparr>su_concurrency := 2\<rparr>) (transient_exit 0 @ [SignalArrives]) of Inl _ \<Rightarrow> False
     | Inr r \<Rightarrow> counted (wk r 0) \<and> attempt (wk r 0) = 1 \<and> w_cancelled (wk r 0))" by code_simp
  then show ?thesis by (auto split: sum.splits)
qed

end
