(* ===== verification/Remote_Results.thy ===== *)
theory Remote_Results
  imports Worker_Props Run_Command
begin

text \<open>
  What the process manager does around a \<open>WorkerRun\<close>: the text of errors (\<open>src/os/posix/error.cpp\<close>), the preparation of an
  ssh process (\<open>src/ssh_transport.cpp\<close>), starting children, and \<open>execute\<close> and \<open>executeRemote\<close> with the assembly of their results
  (\<open>src/process_manager.cpp\<close>).  The operating system's
  answers to the calls of one start are a record; the text of an error number is a parameter.
\<close>

subsection \<open>Errors\<close>

fun class_text :: "ErrorClass \<Rightarrow> string" where
  "class_text Interrupted = ''interrupted''"
| "class_text WouldBlock = ''would block''"
| "class_text BrokenPipe = ''broken pipe''"
| "class_text ClosedHandle = ''closed''"
| "class_text NotFound = ''not found''"
| "class_text PermissionDenied = ''permission denied''"
| "class_text TooManyHandles = ''too many open handles''"
| "class_text InvalidArgument = ''invalid argument''"
| "class_text NoSuchProcess = ''no such process''"
| "class_text Timeout = ''timed out''"
| "class_text Unsupported = ''unsupported''"
| "class_text Other = ''error''"

definition message :: "(int \<Rightarrow> string) \<Rightarrow> error \<Rightarrow> string" where
  "message strerror e =
     err_op e @ '': '' @ class_text (cls e) @
     (if err_code e \<noteq> 0
      then '' ('' @ (if strerror (err_code e) \<noteq> [] then strerror (err_code e) @ '', '' else []) @ ''code '' @ int_to_string (err_code e) @ '')''
      else [])"

definition fail_text :: "(int \<Rightarrow> string) \<Rightarrow> string \<Rightarrow> error \<Rightarrow> string" where
  "fail_text strerror what e = what @ '': '' @ message strerror e"

subsection \<open>Preparing and starting a child\<close>

record spawn_os =
  secret_pipe :: "error option"
  secret_write :: "nat result"
  stdout_pipe :: "error option"
  stderr_pipe :: "error option"
  stdin_pipe :: "error option"
  process_error :: "error option"
  armed_as :: arm_answer

definition kPasswordFd :: int where "kPasswordFd = 3"
definition kMaxPasswordBytes :: nat where "kMaxPasswordBytes = 4096"

text \<open>\<open>prep_secret\<close> is what the inherited descriptor \<open>kPasswordFd\<close> holds.\<close>

record prepared =
  prep_program :: string
  prep_argv :: "string list"
  prep_secret :: "string option"
  prep_failure :: string

datatype preparing = PrepareThrows string | PrepareFails error | Prepares prepared

definition hand_over :: "spawn_os \<Rightarrow> client_entry \<Rightarrow> error + (string option \<times> string)" where
  "hand_over os client =
     (if password client = [] then Inr (None, [])
      else if length (password client) \<ge> kMaxPasswordBytes then Inr (None, ''password too long for secure hand-off'' @ [NL])
      else case secret_pipe os of Some e \<Rightarrow> Inl e
        | None \<Rightarrow>
          let secret = password client @ [NL] in
          (case secret_write os of Inl e \<Rightarrow> Inl e
           | Inr n \<Rightarrow> if n \<noteq> length secret then Inl \<lparr>cls = Other, err_code = 0, err_op = ''password pipe write''\<rparr> else Inr (Some secret, [])))"

definition prepare :: "string \<Rightarrow> int \<Rightarrow> spawn_os \<Rightarrow> client_entry \<Rightarrow> string \<Rightarrow> preparing" where
  "prepare path persist os client remoteCommand =
     (case hand_over os client of Inl e \<Rightarrow> PrepareFails e
      | Inr (secret, failure) \<Rightarrow>
        if failure \<noteq> [] then Prepares \<lparr>prep_program = [], prep_argv = [], prep_secret = secret, prep_failure = failure\<rparr>
        else case buildSshCommandArguments client remoteCommand (if password client = [] then -1 else kPasswordFd)
            \<lparr>controlPath = path, controlPersistSeconds = persist\<rparr> of
          Inl t \<Rightarrow> PrepareThrows t
        | Inr argv \<Rightarrow> Prepares \<lparr>prep_program = hd argv, prep_argv = argv, prep_secret = secret, prep_failure = []\<rparr>)"

definition spawnWorker :: "(int \<Rightarrow> string) \<Rightarrow> spawn_os \<Rightarrow> string \<Rightarrow> string \<Rightarrow> bool \<Rightarrow> spawn_answer" where
  "spawnWorker strerror os client program feed =
     (case stdout_pipe os of Some e \<Rightarrow> SpawnThrows (fail_text strerror (''stdout pipe creation failed for '' @ client) e)
      | None \<Rightarrow>
      case stderr_pipe os of Some e \<Rightarrow> SpawnThrows (fail_text strerror (''stderr pipe creation failed for '' @ client) e)
      | None \<Rightarrow>
      case (if feed then stdin_pipe os else None) of Some e \<Rightarrow> SpawnThrows (fail_text strerror (''stdin pipe creation failed for '' @ client) e)
      | None \<Rightarrow>
      case process_error os of
        Some e \<Rightarrow> NotSpawned (''execvp failed for '' @ (if client = ''-'' then [SQ] @ program @ [SQ] else ''ssh client '' @ [SQ] @ client @ [SQ]) @
            '': '' @ message strerror e @ [NL])
      | None \<Rightarrow> Spawned (armed_as os))"

definition spawnRemote :: "(int \<Rightarrow> string) \<Rightarrow> string \<Rightarrow> spawn_os \<Rightarrow> client_entry \<Rightarrow> string \<Rightarrow> spawn_answer" where
  "spawnRemote strerror path os client remoteCommand =
     (case prepare path 60 os client remoteCommand of
        PrepareThrows t \<Rightarrow> SpawnThrows t
      | PrepareFails e \<Rightarrow> SpawnThrows (fail_text strerror (''ssh transport prepare failed for '' @ clientId client) e)
      | Prepares p \<Rightarrow>
          if prep_failure p \<noteq> [] then NotSpawned (prep_failure p)
          else spawnWorker strerror os (clientId client) (prep_program p) False)"

subsection \<open>Results\<close>

record full_result = Run_Command.client_result +
  cr_stdoutData :: string
  cr_stderrData :: string

definition classifyRemoteError :: "full_result \<Rightarrow> string" where
  "classifyRemoteError c =
     (let t = cr_stderrData c in
      if cr_cancelled c then ''ERROR: cancelled''
      else if cr_aborted c then ''ERROR: aborted (fail-fast)''
      else if cr_timedOut c then ''ERROR: command timed out''
      else if contains_text t ''execvp failed'' then ''ERROR: command execution failed''
      else if containsAny t [''dup2 failed'', ''open(/dev/null) failed'', ''setpgid failed'', ''password pipe'', ''password too long'']
      then ''ERROR: remote worker setup failed''
      else case (if cr_exitCode c = 255 then classifySshFailure t else None) of
        Some f \<Rightarrow> ''ERROR: '' @ f
      | None \<Rightarrow> if cr_exitCode c \<noteq> 0 then ''ERROR: command failed with exit code '' @ int_to_string (cr_exitCode c) else [])"

definition worker_result :: "(bool \<Rightarrow> nat \<Rightarrow> io) \<Rightarrow> worker \<Rightarrow> full_result" where
  "worker_result disk w =
     (let c = \<lparr>cr_clientId = w_clientId w, cr_exitCode = w_exitCode w, cr_errorMessage = [], cr_timedOut = w_timedOut w,
          cr_droppedBytes = w_droppedBytes w, cr_cancelled = w_cancelled w, cr_attempts = int (attempt w) + 1, cr_aborted = w_aborted w,
          cr_stdoutData = full_output (disk True) (w_stdoutData w) (stdoutSpool w),
          cr_stderrData = full_output (disk False) (w_stderrData w) (stderrSpool w)\<rparr>
      in c\<lparr>cr_errorMessage := classifyRemoteError c\<rparr>)"

definition overall_step :: "int \<Rightarrow> worker \<Rightarrow> int" where
  "overall_step code w =
     (if w_aborted w then (if code = 0 then 1 else code)
      else if w_exitCode w \<noteq> 0 \<or> w_timedOut w then (if w_exitCode w = 0 then 1 else w_exitCode w)
      else code)"

fun formatClientResults :: "bool \<Rightarrow> full_result list \<Rightarrow> string \<Rightarrow> string" where
  "formatClientResults useStdout [] formatted = formatted"
| "formatClientResults useStdout (c # cs) formatted =
     (let selected = (if useStdout then cr_stdoutData c else cr_errorMessage c) in
      formatClientResults useStdout cs
        (if selected = [] then formatted
         else let t = formatted @ ''CLIENT '' @ cr_clientId c @ [NL] @ selected in if last t = NL then t else t @ [NL]))"

definition finished_calls :: "bool \<Rightarrow> full_result \<Rightarrow> sink_event list" where
  "finished_calls live c =
     (if live then []
      else map (Line (cr_clientId c) ToStdout) (replay_lines (cr_stdoutData c)) @ map (Line (cr_clientId c) ToStderr) (replay_lines (cr_stderrData c))) @
     [StageFinished (cr_clientId c) \<lparr>exitCode = cr_exitCode c, timedOut = cr_timedOut c, errorMessage = cr_errorMessage c, droppedBytes = cr_droppedBytes c\<rparr>]"

definition client_ok :: "full_result \<Rightarrow> bool" where
  "client_ok c \<longleftrightarrow> cr_exitCode c = 0 \<and> \<not> cr_timedOut c \<and> cr_errorMessage c = []"

definition remote_summary :: "full_result list \<Rightarrow> bool \<Rightarrow> run_summary" where
  "remote_summary cs was_cancelled =
     (let succeeded = length (filter client_ok cs) in
      \<lparr>sum_stages = length cs, sum_succeeded = succeeded, sum_failed = length cs - succeeded,
       sum_dropped = sum_list (map cr_droppedBytes cs), sum_cancelled = was_cancelled\<rparr>)"

record remote_report =
  rep_exitCode :: int
  rep_stdout :: string
  rep_stderr :: string
  rep_timedOut :: bool
  rep_cancelled :: bool
  rep_clients :: "full_result list"
  rep_calls :: "sink_event list"
  rep_summary :: "run_summary option"

definition remote_report_of :: "(nat \<Rightarrow> bool \<Rightarrow> nat \<Rightarrow> io) \<Rightarrow> worker_run \<Rightarrow> remote_report" where
  "remote_report_of disk r =
     (let cs = map (\<lambda>i. worker_result (disk i) (wk r i)) [0..<length (workers r)];
          code = foldl overall_step 0 (workers r)
      in \<lparr>rep_exitCode = (if run_cancelled r then kExitCancelled else code), rep_stdout = formatClientResults True cs [],
          rep_stderr = formatClientResults False cs [], rep_timedOut = anyTimedOut r, rep_cancelled = run_cancelled r, rep_clients = cs,
          rep_calls = sinkCalls r @ (if hasSink r then concat (map (finished_calls (streamsLive r)) cs) else []),
          rep_summary = (if hasSink r then Some (remote_summary cs (run_cancelled r)) else None)\<rparr>)"

subsection \<open>execute and executeRemote\<close>

record remote_options =
  ro_timeoutSec :: int
  ro_sink :: "bool \<times> bool"
  ro_concurrency :: nat
  ro_policy :: OverflowPolicy
  ro_ringBytes :: nat
  ro_controlPath :: string
  ro_cancellable :: bool
  ro_failFast :: bool
  ro_maxRetries :: int

text \<open>The surroundings of a run: answers for each start, exit statuses, disks, and whether the reactor takes signals.\<close>

record surroundings =
  su_strerror :: "int \<Rightarrow> string"
  su_os :: "nat \<Rightarrow> nat \<Rightarrow> spawn_os"
  su_waits :: "nat \<Rightarrow> nat \<Rightarrow> wait_status option"
  su_disks :: "nat \<Rightarrow> bool \<Rightarrow> nat \<Rightarrow> io"
  su_signals :: bool

definition remote_setup :: "surroundings \<Rightarrow> client_entry list \<Rightarrow> remote_options \<Rightarrow> wr_setup" where
  "remote_setup s entries opts = \<lparr>su_clients = map (\<lambda>c. (clientId c, [])) entries, su_sink = ro_sink opts, su_concurrency = ro_concurrency opts,
     su_feed = False, su_policy = ro_policy opts, su_ringBytes = ro_ringBytes opts, su_failFast = ro_failFast opts,
     su_maxRetries = nat (ro_maxRetries opts), su_timeoutSec = nat (ro_timeoutSec opts), su_handler = ro_cancellable opts \<and> su_signals s\<rparr>"

definition remote_env :: "surroundings \<Rightarrow> client_entry list \<Rightarrow> string \<Rightarrow> remote_options \<Rightarrow> wr_env" where
  "remote_env s entries remoteCommand opts = \<lparr>spawns = (\<lambda>i a. spawnRemote (su_strerror s) (ro_controlPath opts) (su_os s i a) (entries ! i) remoteCommand),
     waits = su_waits s, disks = su_disks s\<rparr>"

text \<open>The report, once the loop has stopped; \<^const>\<open>None\<close> while it waits for further events.\<close>

definition executeRemote :: "surroundings \<Rightarrow> client_entry list \<Rightarrow> string \<Rightarrow> remote_options \<Rightarrow> wr_event list \<Rightarrow> stop + remote_report option" where
  "executeRemote s entries remoteCommand opts evs =
     (if entries = [] then Inl (Thrown ''no clients configured for remote execution'')
      else and_then (run_trace (remote_env s entries remoteCommand opts) (remote_setup s entries opts) evs) (\<lambda>r.
        Inr (if stopped r then Some (remote_report_of (su_disks s) r) else None)))"

definition execute_local :: "surroundings \<Rightarrow> string list \<Rightarrow> string \<Rightarrow> int \<Rightarrow> wr_event list \<Rightarrow> stop + (int \<times> string \<times> string \<times> bool) option" where
  "execute_local s args input timeout evs =
     (case args of [] \<Rightarrow> Inl (Thrown ''cannot execute empty command'')
      | program # _ \<Rightarrow>
        and_then (run_trace
          \<lparr>spawns = (\<lambda>i a. spawnWorker (su_strerror s) (su_os s i a) ''-'' program (input \<noteq> [])), waits = su_waits s, disks = su_disks s\<rparr>
          \<lparr>su_clients = [(''-'', input)], su_sink = (False, False), su_concurrency = 1, su_feed = input \<noteq> [], su_policy = Block,
           su_ringBytes = 0, su_failFast = False, su_maxRetries = 0, su_timeoutSec = nat timeout, su_handler = False\<rparr> evs) (\<lambda>r.
        Inr (if stopped r then let w = wk r 0 in Some (w_exitCode w, w_stdoutData w, w_stderrData w, w_timedOut w) else None)))"

end
