(* ===== verification/Remote_Reports.thy ===== *)
theory Remote_Reports
  imports Remote_Results
begin

text \<open>
  The properties of \<open>executeRemote\<close>: what a report says of the clients, how an interrupted run ends, what is handed to ssh,
  and the bounds of the retry delay.
\<close>

subsection \<open>What a run never changes\<close>

definition frame_of :: "worker_run \<Rightarrow> string list \<times> bool \<times> bool \<times> bool" where
  "frame_of r = (map w_clientId (workers r), signalRegistered r, hasSink r, streamsLive r)"

definition goes :: "worker_run \<Rightarrow> worker_run \<Rightarrow> bool" where
  "goes r r' \<longleftrightarrow> frame_of r' = frame_of r \<and> (run_cancelled r \<longrightarrow> run_cancelled r')"

lemma goes_refl: "goes r r" and goes_trans: "goes r r' \<Longrightarrow> goes r' r'' \<Longrightarrow> goes r r''"
  by (auto simp: goes_def)

lemma ids_set_wk: "w_clientId w = w_clientId (wk r i) \<Longrightarrow> map w_clientId (workers (set_wk r i w)) = map w_clientId (workers r)"
  by (cases "i < length (workers r)") (simp_all add: set_wk_def wk_def map_update list_update_same_conv not_less list_update_beyond)

lemma goes_set_wk: "w_clientId w = w_clientId (wk r i) \<Longrightarrow> goes r (set_wk r i w)"
  by (simp add: goes_def frame_of_def ids_set_wk)

lemma goes_fields [simp]:
  "goes r (r'\<lparr>remaining := a\<rparr>) = goes r r'" "goes r (r'\<lparr>nextToSpawn := a\<rparr>) = goes r r'" "goes r (r'\<lparr>inFlight := a\<rparr>) = goes r r'"
  "goes r (r'\<lparr>filling := b\<rparr>) = goes r r'" "goes r (r'\<lparr>deadlineTimer := b\<rparr>) = goes r r'" "goes r (r'\<lparr>drainTimer := b\<rparr>) = goes r r'"
  "goes r (r'\<lparr>anyTimedOut := b\<rparr>) = goes r r'" "goes r (r'\<lparr>run_aborted := b\<rparr>) = goes r r'" "goes r (r'\<lparr>retryTimers := l\<rparr>) = goes r r'"
  "goes r (r'\<lparr>armed := l\<rparr>) = goes r r'" "goes r (r'\<lparr>retryQueue := l\<rparr>) = goes r r'" "goes r (r'\<lparr>stopped := b\<rparr>) = goes r r'"
  "goes r (r'\<lparr>sinkCalls := c\<rparr>) = goes r r'" "goes r (r'\<lparr>signals := g\<rparr>) = goes r r'"
  by (simp_all add: goes_def frame_of_def)

lemma goes_from [simp]:
  "goes (r\<lparr>remaining := a\<rparr>) r' = goes r r'" "goes (r\<lparr>nextToSpawn := a\<rparr>) r' = goes r r'" "goes (r\<lparr>inFlight := a\<rparr>) r' = goes r r'"
  "goes (r\<lparr>filling := b\<rparr>) r' = goes r r'" "goes (r\<lparr>deadlineTimer := b\<rparr>) r' = goes r r'" "goes (r\<lparr>drainTimer := b\<rparr>) r' = goes r r'"
  "goes (r\<lparr>anyTimedOut := b\<rparr>) r' = goes r r'" "goes (r\<lparr>run_aborted := b\<rparr>) r' = goes r r'" "goes (r\<lparr>retryTimers := l\<rparr>) r' = goes r r'"
  "goes (r\<lparr>armed := l\<rparr>) r' = goes r r'" "goes (r\<lparr>retryQueue := l\<rparr>) r' = goes r r'" "goes (r\<lparr>stopped := b\<rparr>) r' = goes r r'"
  "goes (r\<lparr>sinkCalls := c\<rparr>) r' = goes r r'" "goes (r\<lparr>signals := g\<rparr>) r' = goes r r'"
  by (simp_all add: goes_def frame_of_def)

lemma mark_id [simp]: "w_clientId (mark w reason) = w_clientId w" "w_clientId (end_now w) = w_clientId w"
  by (simp_all add: mark_def end_now_def split: StopReason.split)

lemmas goes_intros = goes_set_wk goes_refl

lemma account_with_goes:
  assumes "account_with td r i = Inr r'" "\<And>r r'. td r = Inr r' \<Longrightarrow> goes r r'"
  shows "goes r r'"
proof -
  let ?c = "(set_wk r i ((wk r i)\<lparr>counted := True\<rparr>))\<lparr>remaining := remaining r - 1\<rparr>"
  have c: "goes r ?c" by (simp add: goes_set_wk)
  have "td (?c\<lparr>run_aborted := True\<rparr>) = Inr r' \<Longrightarrow> goes r r'" using goes_trans [OF c] assms(2) [of "?c\<lparr>run_aborted := True\<rparr>"] by simp
  then show ?thesis using assms(1) unfolding account_with_def Let_def
    by (auto simp: goes_refl scheduleRetry_def goes_set_wk split: if_splits)
qed

lemma begin_teardown_goes: "goes r (begin_teardown r reason)"
  by (simp add: begin_teardown_def goes_refl split: StopReason.split) (simp add: goes_def frame_of_def)

lemma teardown_with_goes:
  assumes t: "teardown_with acc r reason = Inr r'" and acc: "\<And>r i r'. acc r i = Inr r' \<Longrightarrow> goes r r'"
  shows "goes (begin_teardown r reason) r'"
proof -
  let ?r0 = "begin_teardown r reason" and ?n = "length (workers r)"
  obtain r1 r3 r4 where 1: "each (end_queued acc reason (retryQueue ?r0)) ?r0 (retryQueue ?r0) = Inr r1"
      and 3: "each (end_pending acc reason) (r1\<lparr>retryQueue := []\<rparr>) [nextToSpawn r1..<?n] = Inr r3"
      and 4: "each (stop_worker acc reason) r3 [0..<?n] = Inr r4" "r' = r4\<lparr>drainTimer := True\<rparr>"
    using t by (auto simp: teardown_with_def Let_def and_then_Inr)
  have via: "goes s s'" if "acc s1 i = Inr s'" "goes s s1" for s s1 s' i using goes_trans [OF that(2) acc [OF that(1)]] .
  have "goes ?r0 r1" using 1
    by (rule each_rel) (auto simp: end_queued_def and_then_Inr goes_refl goes_set_wk split: if_splits intro: goes_trans elim: via)
  moreover have "goes (r1\<lparr>retryQueue := []\<rparr>) r3" using 3
    by (rule each_rel) (auto simp: end_pending_def goes_refl goes_set_wk split: if_splits intro: goes_trans elim: via)
  moreover have "goes r3 r4" using 4(1)
    by (rule each_rel) (auto simp: stop_worker_def Let_def goes_refl goes_set_wk split: if_splits intro: goes_trans elim: via)
  ultimately have "goes ?r0 r4" unfolding goes_from using goes_trans by blast
  then show ?thesis using 4(2) by simp
qed

lemma account_goes: "account r i = Inr r' \<Longrightarrow> goes r r'"
  unfolding account_def
  by (erule account_with_goes, rule goes_trans [OF begin_teardown_goes], erule teardown_with_goes, erule account_with_goes) simp

lemma teardown_goes: "teardown r reason = Inr r' \<Longrightarrow> goes (begin_teardown r reason) r'"
  unfolding teardown_def by (erule teardown_with_goes) (rule account_goes)

lemma account_after: "account s i = Inr r' \<Longrightarrow> goes r s \<Longrightarrow> goes r r'"
  using goes_trans account_goes by blast

lemma reap_goes: "goes r (reap env r i)"
  by (simp add: reap_def Let_def goes_set_wk)

lemma launch_goes: "goes r (launch r i)"
  by (simp add: launch_def Let_def goes_set_wk)

lemma start_worker_goes: "start_worker env r i = Inr r' \<Longrightarrow> goes r r'"
  using goes_trans [OF launch_goes reap_goes]
  by (auto simp: start_worker_def launch_goes failToStart_def goes_set_wk split: spawn_answer.splits arm_answer.splits elim: account_after)

lemma fill_one_goes: "fill_one env r = Inr r' \<Longrightarrow> goes r r'"
  by (auto simp: fill_one_def split: list.splits dest: start_worker_goes)

lemma fill_loop_goes: "fill_loop env r = Inr r' \<Longrightarrow> goes r r'"
proof (induction env r arbitrary: r' rule: fill_loop.induct)
  case (1 env r)
  show ?case
  proof (cases "inFlight r < worker_run.concurrency r \<and> has_pending r")
    case False
    have "fill_loop env r = Inr r" by (subst fill_loop.simps) (rule if_not_P [OF False])
    then show ?thesis using "1.prems" goes_refl by simp
  next
    case True
    then obtain r1 where r1: "fill_one env r = Inr r1" "fill_loop env r1 = Inr r'"
      using "1.prems" by (simp add: fill_loop.simps [of env r] split: sum.splits)
    then show ?thesis using "1.IH" [OF True r1] goes_trans [OF fill_one_goes [OF r1(1)]] by blast
  qed
qed

lemma fillSlots_goes: "fillSlots env r = Inr r' \<Longrightarrow> goes r r'"
  by (auto simp: fillSlots_def and_then_Inr goes_refl split: if_splits dest!: fill_loop_goes)

lemma onExit_goes: "onExit env r i = Inr r' \<Longrightarrow> goes r r'"
  using goes_trans reap_goes account_goes fillSlots_goes unfolding onExit_def and_then_Inr by metis

lemma capture_id [simp]: "w_clientId (capture disk cap pol w b chunk) = w_clientId w"
  by (simp add: capture_def Let_def split: prod.splits)

lemma framer_id [simp]: "w_clientId (set_framer w b f) = w_clientId w" "w_clientId (close_output w b) = w_clientId w" "w_clientId (close_input w) = w_clientId w"
  by (simp_all add: set_framer_def close_output_def close_input_def)

lemma read_stream_id: "read_stream disk cap pol live b hangup before w answers = (w', lines, ended) \<Longrightarrow> w_clientId w' = w_clientId w"
proof (induction answers arbitrary: w w' lines)
  case Nil
  then show ?case by (simp add: read_stream.simps)
next
  case (Cons a answers)
  show ?case
  proof (cases "\<exists>bytes. a = Got bytes \<and> take kReadBuffer bytes \<noteq> []")
    case False
    then show ?thesis using Cons.prems by (cases a) (auto simp: read_stream.simps [of _ _ _ _ _ _ _ w] Let_def)
  next
    case True
    then obtain bytes where a: "a = Got bytes" "take kReadBuffer bytes \<noteq> []" by blast
    let ?w1 = "capture disk cap pol w b (take kReadBuffer bytes)"
    obtain f ls where f: "(if live then lf_push (framerFor ?w1 b) (take kReadBuffer bytes) else (framerFor ?w1 b, [])) = (f, ls)" by fastforce
    obtain w2 more e where w2: "read_stream disk cap pol live b hangup before (set_framer ?w1 b f) answers = (w2, more, e)"
      by (cases "read_stream disk cap pol live b hangup before (set_framer ?w1 b f) answers")
    have e: "w' = w2" "ended = e" using Cons.prems a f w2 by (simp_all add: read_stream.simps [of _ _ _ _ _ _ _ w] Let_def)
    then show ?thesis using Cons.IH [OF w2 [folded e(2)]] by simp
  qed
qed

lemma take_output_id: "take_output disk cap pol live b hangup w answers = (w', lines, ended) \<Longrightarrow> w_clientId w' = w_clientId w"
  by (auto simp: take_output_def Let_def split: prod.splits if_splits dest: read_stream_id)

lemma give_input_id: "give_input w answers = (w', closed) \<Longrightarrow> w_clientId w' = w_clientId w"
proof (induction answers arbitrary: w)
  case Nil
  then show ?case by (auto simp: give_input.simps [of w] split: if_splits)
next
  case (Cons a answers)
  show ?case
  proof (cases "inputWritten w < length (w_input w) \<and> (\<exists>n. a = Wrote n)")
    case False
    then show ?thesis using Cons.prems by (cases a) (auto simp: give_input.simps [of w] split: if_splits)
  next
    case True
    then obtain n where n: "a = Wrote n" by blast
    then have "give_input (w\<lparr>inputWritten := inputWritten w + min n (length (w_input w) - inputWritten w)\<rparr>) answers = (w', closed)"
      using Cons.prems True by (simp add: give_input.simps [of w])
    from Cons.IH [OF this] show ?thesis by simp
  qed
qed

lemma onReadable_goes: "onReadable env r i b hangup answers = Inr r' \<Longrightarrow> goes r r'"
  by (auto simp: onReadable_def Let_def goes_set_wk take_output_id split: prod.splits if_splits elim: account_after)

lemma onWritable_goes: "onWritable r i answers = Inr r' \<Longrightarrow> goes r r'"
  by (auto simp: onWritable_def Let_def goes_set_wk give_input_id split: prod.splits if_splits elim: account_after)

lemma onRetry_goes:
  assumes "onRetry env r i = Inr r'"
  shows "goes r r'"
proof -
  let ?r = "r\<lparr>retryTimers := removeAll i (retryTimers r), armed := removeAll i (armed r)\<rparr>"
  have "goes r (set_wk ?r i ((wk r i)\<lparr>awaitingRetry := False, w_cancelled := True\<rparr>))"
    "goes r (set_wk ?r i (resetForRetry ((wk r i)\<lparr>awaitingRetry := False\<rparr>)))"
    using goes_set_wk [of _ ?r i] by (simp_all add: resetForRetry_def)
  then show ?thesis using assms unfolding onRetry_def Let_def
    by (auto simp: goes_refl split: if_splits elim: account_after dest!: fillSlots_goes intro: goes_trans)
qed

lemma onDeadline_goes: "onDeadline r = Inr r' \<Longrightarrow> goes r r'"
  using teardown_goes goes_trans [OF begin_teardown_goes] by (fastforce simp: onDeadline_def)

lemma onCancel_goes: "onCancel r = Inr r' \<Longrightarrow> goes r r' \<and> run_cancelled r'"
proof (cases "run_cancelled r")
  case True
  moreover assume "onCancel r = Inr r'"
  ultimately show ?thesis by (simp add: onCancel_def goes_refl)
next
  case False
  moreover assume "onCancel r = Inr r'"
  ultimately have "goes (begin_teardown r Cancel) r'" by (simp add: onCancel_def teardown_goes)
  moreover have "run_cancelled (begin_teardown r Cancel)" by (simp add: begin_teardown_def)
  ultimately show ?thesis using goes_trans [OF begin_teardown_goes] unfolding goes_def by metis
qed

lemma abandon_goes:
  assumes "abandon env r i = Inr r'"
  shows "goes r r'"
proof (cases "w_complete (wk r i)")
  case True
  then show ?thesis using assms by (simp add: abandon_def goes_refl)
next
  case False
  let ?r = "set_wk r i (all_closed (wk r i))"
  have c: "goes r ?r" by (simp add: goes_set_wk)
  have "\<exists>r2. (if w_exited (wk r i) then Inr ?r else onExit env (?r\<lparr>signals := signals ?r @ [(i, Kill)]\<rparr>) i) = Inr r2 \<and> account r2 i = Inr r'"
    using assms False unfolding abandon_def Let_def by (simp only: if_False and_then_Inr)
  then obtain r2 where r2: "(if w_exited (wk r i) then Inr ?r else onExit env (?r\<lparr>signals := signals ?r @ [(i, Kill)]\<rparr>) i) = Inr r2" "account r2 i = Inr r'"
    by blast
  have "goes ?r r2" using r2(1) onExit_goes [of env "?r\<lparr>signals := signals ?r @ [(i, Kill)]\<rparr>" i r2] by (simp add: goes_refl split: if_splits)
  then show ?thesis using account_after [OF r2(2)] goes_trans [OF c] by blast
qed

lemma onDrainExpired_goes:
  assumes "onDrainExpired env r = Inr r'"
  shows "goes r r'"
proof -
  have "goes (r\<lparr>drainTimer := False\<rparr>) r'"
    using assms unfolding onDrainExpired_def by (rule each_rel) (auto intro: abandon_goes goes_refl goes_trans)
  then show ?thesis by simp
qed

lemma wr_step_goes: "wr_step env r ev = Inr r' \<Longrightarrow> goes r r'"
  by (cases ev) (auto simp: wr_step_def Let_def goes_refl split: if_splits
    dest: onReadable_goes onWritable_goes onExit_goes onDeadline_goes onCancel_goes onRetry_goes onDrainExpired_goes)

lemma wr_events_goes: "wr_events env r evs = Inr r' \<Longrightarrow> goes r r'"
  unfolding wr_events_def by (erule each_rel) (auto intro: wr_step_goes goes_refl goes_trans)

lemma run_trace_goes:
  assumes "run_trace env u evs = Inr r"
  shows "map w_clientId (workers r) = map fst (su_clients u)" "signalRegistered r = su_handler u" "hasSink r = fst (su_sink u)"
    "streamsLive r = snd (su_sink u)"
proof -
  let ?s = "(fresh_run u)\<lparr>remaining := length (workers (fresh_run u)), signalRegistered := su_handler u, deadlineTimer := (su_timeoutSec u > 0)\<rparr>"
  obtain r0 where r0: "fillSlots env ?s = Inr r0" "wr_events env r0 evs = Inr r" using assms by (auto simp: run_trace_def wr_run_def and_then_Inr)
  have "goes ?s r" using goes_trans [OF fillSlots_goes [OF r0(1)] wr_events_goes [OF r0(2)]] .
  then have "frame_of r = frame_of ?s" by (simp add: goes_def)
  moreover have "map w_clientId (workers ?s) = map fst (su_clients u)" by (simp add: fresh_run_def WorkerRun_def new_worker_def case_prod_unfold)
  ultimately show "map w_clientId (workers r) = map fst (su_clients u)" "signalRegistered r = su_handler u" "hasSink r = fst (su_sink u)"
    "streamsLive r = snd (su_sink u)" unfolding frame_of_def prod.inject by (simp_all only: fresh_run_def WorkerRun_def worker_run.simps)
qed

subsection \<open>Reports\<close>

definition own_failure :: "full_result \<Rightarrow> bool" where
  "own_failure c \<longleftrightarrow> \<not> cr_aborted c \<and> (cr_exitCode c \<noteq> 0 \<or> cr_timedOut c)"

definition failure_code :: "full_result \<Rightarrow> int" where
  "failure_code c = (if cr_exitCode c = 0 then 1 else cr_exitCode c)"

definition verdict :: "full_result list \<Rightarrow> int" where
  "verdict cs = (if filter own_failure cs \<noteq> [] then failure_code (last (filter own_failure cs)) else of_bool (\<exists>c \<in> set cs. cr_aborted c))"

lemma worker_result_fields [simp]:
  "cr_clientId (worker_result d w) = w_clientId w" "cr_exitCode (worker_result d w) = w_exitCode w" "cr_timedOut (worker_result d w) = w_timedOut w"
  "cr_cancelled (worker_result d w) = w_cancelled w" "cr_aborted (worker_result d w) = w_aborted w" "cr_attempts (worker_result d w) = int (attempt w) + 1"
  by (simp_all add: worker_result_def Let_def)

lemma verdict_snoc: "verdict (cs @ [c]) =
    (if own_failure c then failure_code c else if verdict cs = 0 \<and> cr_aborted c then 1 else verdict cs)"
  by (auto simp: verdict_def failure_code_def own_failure_def)

lemma overall_verdict: "foldl overall_step 0 (map snd ws) = verdict (map (\<lambda>(d, w). worker_result d w) ws)"
proof (induction ws rule: rev_induct)
  case Nil
  then show ?case by (simp add: verdict_def)
next
  case (snoc x ws)
  then show ?case by (cases x) (simp add: verdict_snoc overall_step_def own_failure_def failure_code_def)
qed

lemma verdict_zero: "verdict cs = 0 \<longleftrightarrow> (\<forall>c \<in> set cs. cr_exitCode c = 0 \<and> \<not> cr_timedOut c \<and> \<not> cr_aborted c)"
  by (induction cs rule: rev_induct) (auto simp: verdict_snoc verdict_def [of "[]"] own_failure_def failure_code_def)

lemma error_empty: "classifyRemoteError c = [] \<Longrightarrow> cr_exitCode c = 0 \<and> \<not> cr_timedOut c \<and> \<not> cr_cancelled c \<and> \<not> cr_aborted c"
  by (auto simp: classifyRemoteError_def Let_def split: if_splits option.splits)

lemma worker_result_error: "cr_errorMessage (worker_result d w) = [] \<Longrightarrow> w_exitCode w = 0 \<and> \<not> w_timedOut w \<and> \<not> w_cancelled w \<and> \<not> w_aborted w"
  unfolding worker_result_def Let_def by (drule error_empty [OF trans [rotated]], simp) simp

definition sane_options :: "client_entry list \<Rightarrow> remote_options \<Rightarrow> bool" where
  "sane_options entries opts \<longleftrightarrow> entries \<noteq> [] \<and> (ro_failFast opts \<and> 0 < ro_maxRetries opts \<longrightarrow> ro_timeoutSec opts \<le> 0)"

lemma sane_remote: "sane_options entries opts \<Longrightarrow> sane_setup (remote_setup s entries opts)"
  by (auto simp: sane_options_def sane_setup_def remote_setup_def)

lemma report_run:
  assumes "executeRemote s entries cmd opts evs = Inr (Some rep)"
  shows "\<exists>r. run_trace (remote_env s entries cmd opts) (remote_setup s entries opts) evs = Inr r \<and> stopped r \<and> rep = remote_report_of (su_disks s) r"
  using assms by (auto simp: executeRemote_def and_then_Inr split: if_splits)

lemma report_clients:
  "rep_clients (remote_report_of d r) = map (\<lambda>(d, w). worker_result d w) (zip (map d [0..<length (workers r)]) (workers r))"
  by (rule nth_equalityI) (simp_all add: remote_report_of_def Let_def wk_def)

lemma report_verdict: "rep_exitCode (remote_report_of d r) = (if run_cancelled r then kExitCancelled else verdict (rep_clients (remote_report_of d r)))"
proof -
  have "foldl overall_step 0 (workers r) = verdict (rep_clients (remote_report_of d r))"
    using overall_verdict [of "zip (map d [0..<length (workers r)]) (workers r)"] unfolding report_clients by simp
  then show ?thesis by (simp add: remote_report_of_def Let_def)
qed

text \<open>
  C12: the report of a finished fleet run lists every client once, in order.  Its exit code is 130 when the run was interrupted
  and otherwise that of the last client that failed on its own, 1 when all failures were aborted ones, and 0 exactly when
  every client exited with 0, in time and unaborted.  A client without an error text has succeeded, no client reports more
  attempts than allowed, and the summary adds up.  (There is a client, and not fail-fast, retries and a deadline together:
  \<open>sane_options\<close>.)
\<close>

theorem remote_report_exact:
  assumes "sane_options entries opts" "executeRemote s entries cmd opts evs = Inr (Some rep)"
  shows "map cr_clientId (rep_clients rep) = map clientId entries \<and>
    rep_exitCode rep = (if rep_cancelled rep then 130 else verdict (rep_clients rep)) \<and>
    (rep_exitCode rep = 0 \<longleftrightarrow> \<not> rep_cancelled rep \<and> (\<forall>c \<in> set (rep_clients rep). cr_exitCode c = 0 \<and> \<not> cr_timedOut c \<and> \<not> cr_aborted c)) \<and>
    (\<forall>c \<in> set (rep_clients rep). 1 \<le> cr_attempts c \<and> cr_attempts c \<le> max 0 (ro_maxRetries opts) + 1 \<and>
       (cr_errorMessage c = [] \<longrightarrow> cr_exitCode c = 0 \<and> \<not> cr_timedOut c \<and> \<not> cr_cancelled c \<and> \<not> cr_aborted c)) \<and>
    (case rep_summary rep of None \<Rightarrow> \<not> fst (ro_sink opts)
     | Some sm \<Rightarrow> fst (ro_sink opts) \<and> sum_stages sm = length entries \<and> sum_succeeded sm + sum_failed sm = length entries)"
proof -
  let ?u = "remote_setup s entries opts"
  obtain r where r: "run_trace (remote_env s entries cmd opts) ?u evs = Inr r" "rep = remote_report_of (su_disks s) r"
    using report_run [OF assms(2)] by blast
  note at = trace_at_rest [OF sane_remote [OF assms(1)] r(1)] and fr = run_trace_goes [OF r(1)]
  have n: "length (workers r) = length entries" using at(2) by (simp add: remote_setup_def)
  have ids: "map w_clientId (workers r) = map clientId entries" using fr(1) by (simp add: remote_setup_def comp_def)
  have att: "attempt w \<le> nat (ro_maxRetries opts)" if w: "w \<in> set (workers r)" for w
  proof -
    obtain i where i: "i < length (workers r)" "wk r i = w" using w unfolding in_set_conv_nth wk_def by blast
    have "winv {} r" using at(1) by (simp add: at_rest_def)
    from winvD [OF this i(1)] show ?thesis unfolding worker_ok_def using i(2) at(3) by (simp add: remote_setup_def)
  qed
  have cs: "rep_clients rep = map (\<lambda>(d, w). worker_result d w) (zip (map (su_disks s) [0..<length (workers r)]) (workers r))"
    unfolding r(2) by (rule report_clients)
  have mem: "\<exists>d. \<exists>w \<in> set (workers r). c = worker_result d w" if "c \<in> set (rep_clients rep)" for c
    using that unfolding cs by (auto dest: set_zip_rightD)
  have "map cr_clientId (rep_clients rep) = map w_clientId (map snd (zip (map (su_disks s) [0..<length (workers r)]) (workers r)))"
    unfolding cs map_map by (rule map_cong) auto
  then have c1: "map cr_clientId (rep_clients rep) = map clientId entries" using ids by simp
  have can: "rep_cancelled rep = run_cancelled r" using r(2) by (simp add: remote_report_of_def Let_def)
  then have c2: "rep_exitCode rep = (if rep_cancelled rep then 130 else verdict (rep_clients rep))"
    unfolding r(2) report_verdict by (simp add: kExitCancelled_def)
  then have c3: "rep_exitCode rep = 0 \<longleftrightarrow> \<not> rep_cancelled rep \<and> (\<forall>c \<in> set (rep_clients rep). cr_exitCode c = 0 \<and> \<not> cr_timedOut c \<and> \<not> cr_aborted c)"
    by (simp add: verdict_zero)
  have c4: "1 \<le> cr_attempts c \<and> cr_attempts c \<le> max 0 (ro_maxRetries opts) + 1 \<and>
       (cr_errorMessage c = [] \<longrightarrow> cr_exitCode c = 0 \<and> \<not> cr_timedOut c \<and> \<not> cr_cancelled c \<and> \<not> cr_aborted c)" if c: "c \<in> set (rep_clients rep)" for c
    using mem [OF c] att worker_result_error by fastforce
  have sm: "rep_summary rep = (if fst (ro_sink opts) then Some (remote_summary (rep_clients rep) (run_cancelled r)) else None)"
    using fr(3) by (simp add: r(2) remote_report_of_def Let_def remote_setup_def)
  have "length (rep_clients rep) = length entries" using c1 map_eq_imp_length_eq by blast
  then have c5: "case rep_summary rep of None \<Rightarrow> \<not> fst (ro_sink opts)
     | Some sm \<Rightarrow> fst (ro_sink opts) \<and> sum_stages sm = length entries \<and> sum_succeeded sm + sum_failed sm = length entries"
    using length_filter_le [of client_ok "rep_clients rep"] unfolding sm by (simp add: remote_summary_def Let_def)
  show ?thesis using c1 c2 c3 c4 c5 by blast
qed

definition plain_os :: spawn_os where
  "plain_os = \<lparr>secret_pipe = None, secret_write = Inr 0, stdout_pipe = None, stderr_pipe = None, stdin_pipe = None, process_error = None, armed_as = ChildWatched\<rparr>"

definition plain_surroundings :: "int \<Rightarrow> surroundings" where
  "plain_surroundings code = \<lparr>su_strerror = (\<lambda>_. []), su_os = (\<lambda>_ _. plain_os), su_waits = (\<lambda>_ _. Some \<lparr>ws_exited = True, ws_code = code\<rparr>),
     su_disks = (\<lambda>_ _. good_disk), su_signals = True\<rparr>"

definition plain_options :: remote_options where
  "plain_options = \<lparr>ro_timeoutSec = 0, ro_sink = (False, False), ro_concurrency = 64, ro_policy = Block, ro_ringBytes = 0, ro_controlPath = [],
     ro_cancellable = True, ro_failFast = False, ro_maxRetries = 0\<rparr>"

definition one_host :: "client_entry list" where
  "one_host = [ClientEntry\<lparr>ce_host := ''web1'', knownHostsFile := ''kh''\<rparr>]"

definition plain_exit :: "string \<Rightarrow> wr_event list" where
  "plain_exit err = [Readable 0 False True [Got err, Got []], Readable 0 True True [Got ''ok'', Got []], ChildExits 0]"

definition brief :: "stop + remote_report option \<Rightarrow> (int \<times> string list \<times> string list) option" where
  "brief m = (case m of Inr (Some rep) \<Rightarrow> Some (rep_exitCode rep, map cr_clientId (rep_clients rep), map cr_errorMessage (rep_clients rep)) | _ \<Rightarrow> None)"

lemma briefD: "brief m = Some (a, b, c) \<Longrightarrow> \<exists>rep. m = Inr (Some rep) \<and> rep_exitCode rep = a \<and> map cr_clientId (rep_clients rep) = b \<and>
    map cr_errorMessage (rep_clients rep) = c"
  by (auto simp: brief_def split: sum.splits option.splits)

theorem remote_report_exact_witness:
  "\<exists>rep. executeRemote (plain_surroundings 3) one_host ''ls'' plain_options (plain_exit ''no'') = Inr (Some rep) \<and> rep_exitCode rep = 3 \<and>
     map cr_clientId (rep_clients rep) = [''web1''] \<and> verdict (rep_clients rep) = 3"
proof -
  have s: "sane_options one_host plain_options" by (simp add: sane_options_def one_host_def plain_options_def)
  have b: "brief (executeRemote (plain_surroundings 3) one_host ''ls'' plain_options (plain_exit ''no'')) =
      Some (3, [''web1''], [''ERROR: command failed with exit code 3''])" by code_simp
  then obtain rep where rep: "executeRemote (plain_surroundings 3) one_host ''ls'' plain_options (plain_exit ''no'') = Inr (Some rep)" "rep_exitCode rep = 3"
    by (blast dest: briefD)
  from remote_report_exact [OF s rep(1)] have "rep_exitCode rep = (if rep_cancelled rep then 130 else verdict (rep_clients rep))"
    "map cr_clientId (rep_clients rep) = map clientId one_host" by blast+
  then show ?thesis using rep by (auto simp: one_host_def clientId_def sshTarget_def ClientEntry_def split: if_splits)
qed

lemma each_append: "each f s (xs @ ys) = and_then (each f s xs) (\<lambda>s'. each f s' ys)"
  by (induction xs arbitrary: s) (auto simp: and_then_def split: sum.splits)

lemma run_trace_append: "run_trace env u (evs @ evs2) = and_then (run_trace env u evs) (\<lambda>r. wr_events env r evs2)"
  by (auto simp: run_trace_def wr_events_def each_append and_then_def split: sum.splits)

lemma interrupt_ends:
  assumes r: "at_rest r" "signalRegistered r"
  shows "\<exists>r'. wr_events env r [SignalArrives, DrainFires] = Inr r' \<and> stopped r' \<and> run_cancelled r'"
proof -
  obtain r1 where r1: "wr_step env r SignalArrives = Inr r1" "rests r r1" "torn r1" using teardown_event [OF r(1)] r(2) by blast
  obtain r2 where r2: "wr_step env r1 DrainFires = Inr r2" "rests r1 r2" "remaining r2 = 0"
    using torn_drains [OF _ r1(3)] r1(2) unfolding rests_def by blast
  have "onCancel r = Inr r1" using r1(1) r(2) by (simp add: wr_step_def Let_def)
  then have "run_cancelled r1" using onCancel_goes by blast
  then have "run_cancelled r2" using wr_step_goes [OF r2(1)] by (simp add: goes_def)
  moreover have "stopped r2" using r2(2,3) by (simp add: rests_def at_rest_def winv_def shape_ok_def)
  ultimately show ?thesis using events_two [OF r1(1) r2(1)] by blast
qed

text \<open>
  C13: an interrupt always ends a cancellable fleet run: at any moment of a run that is not over, a signal followed by the end
  of the grace period gives a report for every client, with exit code 130.  (Options as before, \<open>sane_options\<close>.)
\<close>

theorem interrupt_reports:
  assumes "sane_options entries opts" "ro_cancellable opts" "su_signals s" "executeRemote s entries cmd opts evs = Inr None"
  shows "\<exists>rep. executeRemote s entries cmd opts (evs @ [SignalArrives, DrainFires]) = Inr (Some rep) \<and> rep_cancelled rep \<and> rep_exitCode rep = 130 \<and>
    length (rep_clients rep) = length entries"
proof -
  let ?u = "remote_setup s entries opts" and ?e = "remote_env s entries cmd opts"
  have ne: "entries \<noteq> []" using assms(1) by (simp add: sane_options_def)
  then obtain r where r: "run_trace ?e ?u evs = Inr r" using assms(4) by (auto simp: executeRemote_def and_then_Inr split: if_splits)
  have "signalRegistered r" using run_trace_goes(2) [OF r] assms(2,3) by (simp add: remote_setup_def)
  then obtain r' where r': "wr_events ?e r [SignalArrives, DrainFires] = Inr r'" "stopped r'" "run_cancelled r'"
    using interrupt_ends [OF trace_at_rest(1) [OF sane_remote [OF assms(1)] r]] by blast
  have t: "run_trace ?e ?u (evs @ [SignalArrives, DrainFires]) = Inr r'" using r r'(1) by (simp add: run_trace_append and_then_def)
  have "length (workers r') = length entries" using trace_at_rest(2) [OF sane_remote [OF assms(1)] t] by (simp add: remote_setup_def)
  then show ?thesis using t r'(2,3) ne by (simp add: executeRemote_def and_then_def remote_report_of_def Let_def kExitCancelled_def)
qed

theorem interrupt_reports_witness:
  "executeRemote (plain_surroundings 0) one_host ''ls'' plain_options [] = Inr None \<and>
   (\<exists>rep. executeRemote (plain_surroundings 0) one_host ''ls'' plain_options [SignalArrives, DrainFires] = Inr (Some rep) \<and> rep_exitCode rep = 130)"
proof -
  have s: "sane_options one_host plain_options" "ro_cancellable plain_options" "su_signals (plain_surroundings 0)"
    by (simp_all add: sane_options_def one_host_def plain_options_def plain_surroundings_def)
  have "(case executeRemote (plain_surroundings 0) one_host ''ls'' plain_options [] of Inr m \<Rightarrow> m = None | _ \<Rightarrow> False)" by code_simp
  then have n: "executeRemote (plain_surroundings 0) one_host ''ls'' plain_options [] = Inr None" by (auto split: sum.splits)
  show ?thesis using n interrupt_reports [OF s n] by auto
qed

subsection \<open>The password\<close>

lemma prepared_arguments:
  assumes "password client \<noteq> []" "prepare path persist os client cmd = Prepares p" "prep_failure p = []"
  shows "length (password client) < kMaxPasswordBytes" "prep_secret p = Some (password client @ [NL])"
    "buildSshCommandArguments client cmd kPasswordFd \<lparr>controlPath = path, controlPersistSeconds = persist\<rparr> = Inr (prep_argv p)"
  using assms by (auto simp: prepare_def hand_over_def Let_def split: sum.splits option.splits if_splits prod.splits)

text \<open>
  C14: the password of a client reaches the ssh helper only through the inherited pipe, which holds exactly the password and
  a newline; the program and its arguments are the same for every password, and a password too long for the pipe makes the
  client fail on its own instead of blocking or ending the run.
\<close>

theorem secret_handed_over:
  assumes "password client \<noteq> []"
  shows "(length (password client) \<ge> kMaxPasswordBytes \<longrightarrow>
        spawnRemote strerror path os client cmd = NotSpawned (''password too long for secure hand-off'' @ [NL])) \<and>
    (\<forall>p. prepare path persist os client cmd = Prepares p \<and> prep_failure p = [] \<longrightarrow>
        prep_secret p = Some (password client @ [NL]) \<and>
        (\<forall>pw q. pw \<noteq> [] \<and> prepare path persist os (client\<lparr>password := pw\<rparr>) cmd = Prepares q \<and> prep_failure q = [] \<longrightarrow>
           prep_argv q = prep_argv p))"
proof -
  have "prep_argv q = prep_argv p" if "prepare path persist os client cmd = Prepares p" "prep_failure p = []" "pw \<noteq> []"
      "prepare path persist os (client\<lparr>password := pw\<rparr>) cmd = Prepares q" "prep_failure q = []" for p pw q
    using prepared_arguments(3) [OF assms that(1,2)] prepared_arguments(3) [of "client\<lparr>password := pw\<rparr>" path persist os cmd q] that(3-5)
      base_arguments_password [OF assms that(3)]
    by (auto simp: buildSshCommandArguments_def assms split: sum.splits if_splits)
  moreover have "length (password client) \<ge> kMaxPasswordBytes \<Longrightarrow>
      spawnRemote strerror path os client cmd = NotSpawned (''password too long for secure hand-off'' @ [NL])"
    using assms by (simp add: spawnRemote_def prepare_def hand_over_def)
  ultimately show ?thesis using prepared_arguments(2) [OF assms] by blast
qed

lemma preparing_ok: "(case m of Prepares p \<Rightarrow> prep_failure p = [] | _ \<Rightarrow> False) \<Longrightarrow> \<exists>p. m = Prepares p \<and> prep_failure p = []"
  by (cases m) auto

theorem secret_handed_over_witness:
  "\<exists>p q. prepare [] 60 (plain_os\<lparr>secret_write := Inr 5\<rparr>) (hd one_host\<lparr>password := ''abcd''\<rparr>) ''ls'' = Prepares p \<and>
     prepare [] 60 (plain_os\<lparr>secret_write := Inr 5\<rparr>) (hd one_host\<lparr>password := ''wxyz''\<rparr>) ''ls'' = Prepares q \<and>
     prep_secret p = Some (''abcd'' @ [NL]) \<and> prep_argv q = prep_argv p"
proof -
  let ?os = "plain_os\<lparr>secret_write := Inr 5\<rparr>" and ?c = "hd one_host\<lparr>password := ''abcd''\<rparr>"
  have "(case prepare [] 60 ?os ?c ''ls'' of Prepares p \<Rightarrow> prep_failure p = [] | _ \<Rightarrow> False)"
    "(case prepare [] 60 ?os (?c\<lparr>password := ''wxyz''\<rparr>) ''ls'' of Prepares p \<Rightarrow> prep_failure p = [] | _ \<Rightarrow> False)" by code_simp+
  then obtain p q where pq: "prepare [] 60 ?os ?c ''ls'' = Prepares p" "prep_failure p = []"
      "prepare [] 60 ?os (?c\<lparr>password := ''wxyz''\<rparr>) ''ls'' = Prepares q" "prep_failure q = []"
    using preparing_ok by meson
  have "password ?c \<noteq> []" by simp
  from secret_handed_over [OF this, of undefined "[]" ?os "''ls''" 60] pq
  have "prep_secret p = Some (password ?c @ [NL])" "prep_argv q = prep_argv p" by blast+
  then show ?thesis using pq(1,3) by auto
qed

subsection \<open>Texts of a command taken for texts of the launcher\<close>

text \<open>
  A command that exits with 0 after writing \<open>execvp failed\<close> to its standard error is reported as failed, while the run's exit
  code is 0.
\<close>

lemma success_misreported:
  "brief (executeRemote (plain_surroundings 0) one_host ''make'' plain_options (plain_exit ''note: execvp failed before'')) =
     Some (0, [''web1''], [''ERROR: command execution failed''])"
  by code_simp

text \<open>What ssh prints when the key of a jump host is refused counts as transient, so the permanent failure is retried.\<close>

lemma contains_text_append: "contains_text (a @ t @ b) t"
  unfolding contains_text_def by (auto simp: list_ex_iff starts_with_def intro!: bexI [of _ "length a"])

lemma permanent_failure_retried:
  "isSshHostKeyFailure (''Host key verification failed.'' @ [NL] @ ''Connection closed by UNKNOWN port 65535'') \<and>
   isRetryableSshFailure (''Host key verification failed.'' @ [NL] @ ''Connection closed by UNKNOWN port 65535'')"
proof -
  let ?t = "toLowerCopy (''Host key verification failed.'' @ [NL] @ ''Connection closed by UNKNOWN port 65535'')"
  have t: "?t = [] @ ''host key verification failed'' @ (''.'' @ [NL] @ ''connection closed by unknown port 65535'')"
    "?t = (''host key verification failed.'' @ [NL]) @ ''connection closed'' @ '' by unknown port 65535''" by code_simp+
  have "contains_text ?t ''host key verification failed''" by (subst t(1), rule contains_text_append)
  moreover have "contains_text ?t ''connection closed''" by (subst t(2), rule contains_text_append)
  ultimately show ?thesis unfolding isSshHostKeyFailure_def isRetryableSshFailure_def containsAny_def kHostKeyFailedNeedles_def kConnectionNeedles_def
    by simp
qed

end
