(* ===== verification/Backoff.thy ===== *)
theory Backoff
  imports Prelude "HOL-Library.Log_Nat"
begin

text \<open>
  The delay between retries (\<open>include/psx/runtime/backoff.hpp\<close>): doubling on 64 bits up to a cap, and a jitter computed in
  double precision.  A finite double is a rational number, and an operation on doubles is the exact operation followed by
  rounding to 53 significant bits (to nearest, ties to even); results below the smallest normal number do not matter here,
  because what is computed is truncated to an integer.
\<close>

subsection \<open>Doubles\<close>

text \<open>The exponent of the leading bit.\<close>

definition binade :: "rat \<Rightarrow> int" where
  "binade x = (case quotient_of x of (a, b) \<Rightarrow>
     let k = bitlen a - bitlen b in if 2 powi k \<le> x then k else k - 1)"

definition round_even :: "rat \<Rightarrow> int" where
  "round_even y = (let f = \<lfloor>y\<rfloor>; d = y - of_int f in
     if d < 1 / 2 then f else if d > 1 / 2 then f + 1 else if even f then f else f + 1)"

text \<open>Rounding of a number that is not negative.\<close>

definition to_double :: "rat \<Rightarrow> rat" where
  "to_double x = (if x \<le> 0 then 0 else let e = binade x - 52 in of_int (round_even (x / 2 powi e)) * 2 powi e)"

subsection \<open>The delay\<close>

text \<open>The loop of \<open>backoffDelay\<close>, with \<open>n\<close> rounds left.\<close>

fun backoff_loop :: "u64 \<Rightarrow> u64 \<Rightarrow> nat \<Rightarrow> u64" where
  "backoff_loop capMs full 0 = full"
| "backoff_loop capMs full (Suc n) = (if capMs \<noteq> 0 \<and> full \<ge> capMs then full else backoff_loop capMs (push_bit 1 full) n)"

definition backoff_full :: "int \<Rightarrow> int \<Rightarrow> int \<Rightarrow> u64" where
  "backoff_full tries base cap =
     (let tries = (if tries < 1 then 1 else tries);
          baseMs = (if base > 0 then of_int base else 0);
          capMs = (if cap > 0 then of_int cap else 0);
          full = backoff_loop capMs baseMs (nat (min tries 32) - 1)
      in if capMs \<noteq> 0 then min full capMs else full)"

text \<open>\<open>std::clamp(rand01, 0.0, 1.0)\<close>.\<close>

definition clamp01 :: "rat \<Rightarrow> rat" where
  "clamp01 v = (if v < 0 then 0 else if 1 < v then 1 else v)"

text \<open>\<open>static_cast<std::uint64_t>(rand01 * static_cast<double>(d))\<close>.\<close>

definition jitter :: "rat \<Rightarrow> u64 \<Rightarrow> u64" where
  "jitter r d = of_int \<lfloor>to_double (r * to_double (of_nat (unat d)))\<rfloor>"

definition backoffDelay :: "int \<Rightarrow> int \<Rightarrow> int \<Rightarrow> rat \<Rightarrow> u64" where
  "backoffDelay tries base cap rand01 =
     (let full = backoff_full tries base cap; half = full div 2 in half + jitter (clamp01 rand01) (full - half))"

subsection \<open>Rounding\<close>

lemma bitlen_rat:
  assumes "0 < a"
  shows "\<exists>l. bitlen a = int l \<and> 0 < l \<and> (2 :: rat) ^ (l - 1) \<le> of_int a \<and> of_int a < (2 :: rat) ^ l"
proof -
  define l where "l = floorlog 2 (nat a)"
  have l: "2 ^ (l - 1) \<le> nat a" "nat a < 2 ^ l" "0 < l"
    using floorlog_bounds [of "nat a" 2] floorlog_eq_zero_iff [of 2 "nat a"] assms by (auto simp: l_def)
  have "int (2 ^ (l - 1)) \<le> a" "a < int (2 ^ l)" using l(1,2) assms by linarith+
  then have "(of_int (int (2 ^ (l - 1))) :: rat) \<le> of_int a" "(of_int a :: rat) < of_int (int (2 ^ l))"
    by (simp_all only: of_int_le_iff of_int_less_iff)
  then show ?thesis using l(3) by (intro exI [of _ l]) (simp add: bitlen_def l_def)
qed

lemma binade_bounds:
  assumes "0 < x"
  shows "2 powi binade x \<le> x" "x < 2 powi (binade x + 1)"
proof -
  obtain a b where q: "quotient_of x = (a, b)" by (cases "quotient_of x")
  have b: "0 < b" and x: "x = of_int a / of_int b" using quotient_of_denom_pos [OF q] quotient_of_div [OF q] by simp_all
  with assms have a: "0 < a" by (simp add: zero_less_divide_iff)
  obtain la where la: "bitlen a = int la" "0 < la" and ra: "(2 :: rat) ^ (la - 1) \<le> of_int a" "of_int a < (2 :: rat) ^ la"
    using bitlen_rat [OF a] by blast
  obtain lb where lb: "bitlen b = int lb" "0 < lb" and rb: "(2 :: rat) ^ (lb - 1) \<le> of_int b" "of_int b < (2 :: rat) ^ lb"
    using bitlen_rat [OF b] by blast
  define k where "k = int la - int lb"
  have "(0 :: rat) \<le> of_int a" "(0 :: rat) < 2 ^ (lb - 1)" using a by simp_all
  then have "x < 2 ^ la / 2 ^ (lb - 1)" unfolding x using frac_less [of "of_int a :: rat" "2 ^ la" "2 ^ (lb - 1)" "of_int b"] ra(2) rb(1) by blast
  also have "\<dots> = 2 powi (k + 1)"
  proof -
    have "k + 1 = int la - int (lb - 1)" using lb(2) by (simp add: k_def of_nat_diff)
    then show ?thesis by (simp add: power_int_diff)
  qed
  finally have up: "x < 2 powi (k + 1)" .
  have "2 powi (k - 1) = 2 ^ (la - 1) / (2 :: rat) ^ lb"
  proof -
    have "k - 1 = int (la - 1) - int lb" using la(2) by (simp add: k_def of_nat_diff)
    then show ?thesis by (simp add: power_int_diff)
  qed
  also have "\<dots> \<le> x" unfolding x using ra(1) rb(2) a b by (intro frac_le) auto
  finally have low: "2 powi (k - 1) \<le> x" .
  have bin: "binade x = (if 2 powi k \<le> x then k else k - 1)"
    by (simp add: binade_def q Let_def k_def la(1) lb(1))
  show "2 powi binade x \<le> x" "x < 2 powi (binade x + 1)"
    using up low by (auto simp: bin)
qed

lemma round_even_le: "y \<le> of_int k \<Longrightarrow> round_even y \<le> k"
proof -
  assume y: "y \<le> of_int k"
  then have f: "\<lfloor>y\<rfloor> \<le> k" by (simp add: floor_le_iff)
  show ?thesis
  proof (cases "\<lfloor>y\<rfloor> = k")
    case True
    then have "y - of_int \<lfloor>y\<rfloor> \<le> 0" using y by simp
    then show ?thesis using True by (simp add: round_even_def Let_def)
  next
    case False
    then show ?thesis using f by (auto simp: round_even_def Let_def)
  qed
qed

lemma round_even_int [simp]: "round_even (of_int k) = k"
  by (simp add: round_even_def)

lemma round_even_nonneg: "0 \<le> y \<Longrightarrow> 0 \<le> round_even y"
  by (simp add: round_even_def Let_def)

text \<open>The scaled value of a small integer is an integer.\<close>

lemma scaled_int:
  assumes "e \<le> 0 \<or> e = 1 \<and> n = 2 ^ 53"
  shows "\<exists>k. (of_nat n :: rat) / 2 powi e = of_int k"
proof (cases "e \<le> 0")
  case True
  then have "(of_nat n :: rat) / 2 powi e = of_int (int n * 2 ^ nat (- e))"
    by (simp add: power_int_def field_simps)
  then show ?thesis by blast
next
  case False
  then have "(of_nat n :: rat) / 2 powi e = of_int (2 ^ 52)" using assms by simp
  then show ?thesis by blast
qed

lemma small_scale:
  assumes "(2 :: rat) powi (e + 52) \<le> of_nat n" "n \<le> 2 ^ 53"
  shows "e \<le> 0 \<or> e = 1 \<and> n = 2 ^ 53"
proof -
  have n: "(of_nat n :: rat) \<le> 2 powi 53" using assms(2) by (metis of_nat_le_iff of_nat_numeral of_nat_power power_int_numeral)
  have "\<not> 53 < e + 52"
    using power_int_strict_increasing [of 53 "e + 52" "2 :: rat"] assms(1) n by auto
  then consider "e \<le> 0" | "e = 1" by linarith
  then show ?thesis
  proof cases
    case 2
    then have "(of_nat (2 ^ 53) :: rat) \<le> of_nat n" using assms(1) by simp
    then have "2 ^ 53 \<le> n" by (simp only: of_nat_le_iff)
    then show ?thesis using 2 assms(2) by simp
  qed simp
qed

lemma to_double_le:
  assumes "0 \<le> x" "x \<le> of_nat n" "n \<le> 2 ^ 53"
  shows "0 \<le> to_double x" "to_double x \<le> of_nat n"
proof -
  show "0 \<le> to_double x"
    using assms(1) by (auto simp: to_double_def Let_def intro!: mult_nonneg_nonneg round_even_nonneg)
  show "to_double x \<le> of_nat n"
  proof (cases "x = 0")
    case False
    then have x: "0 < x" using assms(1) by simp
    define e where "e = binade x - 52"
    have b: "2 powi (e + 52) \<le> x" "x < 2 powi (e + 53)" using binade_bounds [OF x] by (simp_all add: e_def algebra_simps)
    have td: "to_double x = of_int (round_even (x / 2 powi e)) * 2 powi e" using x by (simp add: to_double_def e_def Let_def)
    have p: "(0 :: rat) < 2 powi e" by simp
    show ?thesis
    proof (cases "of_nat n < (2 :: rat) powi (e + 53)")
      case True
      have "(2 :: rat) powi (e + 52) \<le> of_nat n" using b(1) assms(2) by simp
      then have "e \<le> 0 \<or> e = 1 \<and> n = 2 ^ 53" using small_scale assms(3) by blast
      from scaled_int [OF this] obtain k where k: "(of_nat n :: rat) / 2 powi e = of_int k" by blast
      have "x / 2 powi e \<le> of_int k" unfolding k [symmetric] using assms(2) p by (intro divide_right_mono) simp_all
      then have "round_even (x / 2 powi e) \<le> k" by (rule round_even_le)
      then have "to_double x \<le> of_int k * 2 powi e" by (simp add: td)
      then show ?thesis unfolding k [symmetric] by simp
    next
      case False
      have "x / 2 powi e \<le> of_int (2 ^ 53)" using b(2) p by (simp add: power_int_add divide_le_eq mult.commute)
      then have "round_even (x / 2 powi e) \<le> 2 ^ 53" by (rule round_even_le)
      then have "of_int (round_even (x / 2 powi e)) \<le> (2 :: rat) ^ 53" by (metis of_int_le_iff of_int_numeral of_int_power)
      then have "to_double x \<le> 2 ^ 53 * 2 powi e" using p by (simp add: td mult_right_mono)
      also have "\<dots> = 2 powi (e + 53)" by (simp add: power_int_add)
      finally show ?thesis using False by simp
    qed
  qed (simp add: to_double_def)
qed

lemma to_double_nat:
  assumes "n \<le> 2 ^ 53"
  shows "to_double (of_nat n) = of_nat n"
proof (cases "n = 0")
  case False
  define e where "e = binade (of_nat n) - 52"
  have x: "(0 :: rat) < of_nat n" using False by simp
  have "(2 :: rat) powi (e + 52) \<le> of_nat n" using binade_bounds(1) [OF x] by (simp add: e_def)
  then have "e \<le> 0 \<or> e = 1 \<and> n = 2 ^ 53" using small_scale assms by blast
  from scaled_int [OF this] obtain k where k: "(of_nat n :: rat) / 2 powi e = of_int k" by blast
  have "to_double (of_nat n) = of_int (round_even (of_nat n / 2 powi e)) * 2 powi e"
    using x by (simp add: to_double_def e_def Let_def)
  also have "\<dots> = of_nat n / 2 powi e * 2 powi e" by (simp only: k round_even_int)
  finally show ?thesis by simp
qed (simp add: to_double_def)

subsection \<open>The bounds\<close>

lemma unat_double: "unat (w :: u64) < 2 ^ 63 \<Longrightarrow> unat (push_bit 1 w) = 2 * unat w"
  by (simp add: push_bit_eq_mult unat_word_ariths(2))

lemma backoff_loop_capped:
  assumes "0 < unat capMs" "unat capMs < 2 ^ 63"
  shows "min (unat (backoff_loop capMs full n)) (unat capMs) = min (unat full * 2 ^ n) (unat capMs)"
proof (induction n arbitrary: full)
  case 0
  then show ?case by simp
next
  case (Suc n)
  have c0: "capMs \<noteq> 0" using assms(1) by auto
  show ?case
  proof (cases "full \<ge> capMs")
    case True
    then have "unat capMs \<le> unat full" by (simp add: word_le_nat_alt)
    moreover have "unat full \<le> unat full * 2 ^ Suc n" by simp
    ultimately show ?thesis using True c0 by (simp add: min_absorb2 le_trans)
  next
    case False
    then have "unat full < 2 ^ 63" using assms(2) by (simp add: word_le_nat_alt)
    from unat_double [OF this] show ?thesis using False Suc.IH [of "push_bit 1 full"] by (simp add: mult.assoc mult.left_commute)
  qed
qed

lemma unat_of_ms:
  assumes "0 \<le> a" "a < 2 ^ 63"
  shows "unat (if a > 0 then of_int a else 0 :: u64) = nat a"
proof (cases "a > 0")
  case True
  have "uint (of_int a :: u64) = a mod 2 ^ 64" by (simp add: uint_word_of_int)
  also have "\<dots> = a" using assms by (intro mod_pos_pos_trivial) simp_all
  finally show ?thesis using True by (simp add: unat_eq_nat_uint)
qed (use assms in simp)

lemma jitter_bounds:
  assumes "0 \<le> r" "r \<le> 1" "unat d \<le> 2 ^ 53"
  shows "unat (jitter r d) \<le> unat d"
proof -
  let ?n = "unat d"
  have "r * of_nat n \<le> 1 * of_nat n" "0 \<le> r * of_nat n" for n
    using mult_right_mono [OF assms(2) of_nat_0_le_iff] assms(1) by simp_all
  then have x: "0 \<le> r * of_nat ?n" "r * of_nat ?n \<le> of_nat ?n" by (simp_all only: mult_1)
  note td = to_double_le [OF x assms(3)]
  have j: "jitter r d = of_int \<lfloor>to_double (r * of_nat ?n)\<rfloor>" by (simp only: jitter_def to_double_nat [OF assms(3)])
  have "\<lfloor>to_double (r * of_nat ?n)\<rfloor> \<le> int ?n" using td(2) by (metis floor_mono floor_of_nat)
  moreover have "0 \<le> \<lfloor>to_double (r * of_nat ?n)\<rfloor>" using td(1) by simp
  ultimately obtain m where m: "\<lfloor>to_double (r * of_nat ?n)\<rfloor> = int m" "m \<le> ?n" by (metis nat_0_le of_nat_le_iff)
  have "unat (of_nat m :: u64) \<le> m" by (simp add: unat_of_nat)
  then show ?thesis using m by (simp add: j)
qed

lemma jitter_ends:
  assumes "unat d \<le> 2 ^ 53"
  shows "jitter 0 d = 0" "jitter 1 d = d"
proof -
  show "jitter 0 d = 0" by (simp add: jitter_def to_double_def)
  have "jitter 1 d = of_int \<lfloor>of_nat (unat d) :: rat\<rfloor>"
    by (simp only: jitter_def mult_1 to_double_nat [OF assms])
  also have "\<dots> = d" by (simp only: floor_of_nat of_int_of_nat_eq) simp
  finally show "jitter 1 d = d" .
qed

lemma clamp01_range: "0 \<le> clamp01 v" "clamp01 v \<le> 1"
  by (simp_all add: clamp01_def)

text \<open>
  C16: with a cap (of at most \<open>2\<^sup>53\<close> milliseconds, where double precision is still exact on integers) the retry delay never
  wraps: the full delay is exactly the base doubled with every further attempt, though at most 31 times, and cut at the cap;
  and for every draw, also one outside the unit interval, the jittered delay lies between half of it and all of it, reaching
  the ends exactly for draws of at most 0 and at least 1.  The comment in the header has no limit of 31 doublings: with a cap
  above \<open>2\<^sup>31\<close> bases the delay is smaller from the 33rd attempt on.
\<close>

theorem backoff_exact:
  fixes base cap tries :: int
  assumes "0 \<le> base" "base < 2 ^ 63" "0 < cap" "cap \<le> 2 ^ 53"
  defines "full \<equiv> min (nat cap) (nat base * 2 ^ (nat (min tries 32) - 1))"
  shows "unat (backoff_full tries base cap) = full \<and>
    full div 2 \<le> unat (backoffDelay tries base cap rand01) \<and> unat (backoffDelay tries base cap rand01) \<le> full \<and>
    unat (backoffDelay tries base cap (min 0 rand01)) = full div 2 \<and> unat (backoffDelay tries base cap (max 1 rand01)) = full"
proof -
  let ?b = "(if base > 0 then of_int base else 0) :: u64" and ?c = "(if cap > 0 then of_int cap else 0) :: u64"
  let ?n = "nat (min tries 32) - 1"
  have c63: "cap < 2 ^ 63" using assms(4) by simp
  have u: "unat ?b = nat base" "unat ?c = nat cap" using unat_of_ms [OF assms(1,2)] unat_of_ms [OF less_imp_le [OF assms(3)] c63] by blast+
  have c: "0 < unat ?c" "unat ?c < 2 ^ 63" unfolding u using assms(3) c63 by (simp_all add: nat_less_iff)
  have "?c \<noteq> 0" using c(1) assms(3) by auto
  moreover have "nat (min (if tries < 1 then 1 else tries) 32) - 1 = ?n" by auto
  ultimately have bf: "backoff_full tries base cap = min (backoff_loop ?c ?b ?n) ?c" by (simp add: backoff_full_def Let_def)
  have mn: "unat (min (a :: u64) b) = min (unat a) (unat b)" for a b by (simp add: min_def word_le_nat_alt)
  have bl: "min (unat (backoff_loop ?c ?b ?n)) (nat cap) = min (nat base * 2 ^ ?n) (nat cap)" using backoff_loop_capped [OF c, of ?b ?n] unfolding u .
  have f: "unat (backoff_full tries base cap) = full" unfolding full_def bf mn u bl by (rule min.commute)
  let ?f = "backoff_full tries base cap"
  let ?half = "?f div 2"
  have h: "unat ?half = full div 2" using f by (simp add: unat_div)
  have le: "?half \<le> ?f" by (simp add: word_le_nat_alt unat_div)
  have d: "unat (?f - ?half) = full - full div 2" using f h le by (simp add: unat_sub)
  have "full \<le> nat cap" unfolding full_def by (rule min.cobounded1)
  then have small: "full \<le> 2 ^ 53" using assms(4) by simp
  then have d53: "unat (?f - ?half) \<le> 2 ^ 53" using d by simp
  have sum: "unat (backoffDelay tries base cap v) = full div 2 + unat (jitter (clamp01 v) (?f - ?half))"
    "unat (jitter (clamp01 v) (?f - ?half)) \<le> full - full div 2" for v
  proof -
    show j: "unat (jitter (clamp01 v) (?f - ?half)) \<le> full - full div 2"
      using jitter_bounds [OF clamp01_range d53, of v] d by simp
    then have "unat ?half + unat (jitter (clamp01 v) (?f - ?half)) < 2 ^ 64" using h small by simp
    then show "unat (backoffDelay tries base cap v) = full div 2 + unat (jitter (clamp01 v) (?f - ?half))"
      using h by (simp add: backoffDelay_def Let_def unat_word_ariths(1))
  qed
  have "clamp01 (min 0 rand01) = 0" "clamp01 (max 1 rand01) = 1" by (simp_all add: clamp01_def)
  then have ends: "unat (jitter (clamp01 (min 0 rand01)) (?f - ?half)) = 0" "unat (jitter (clamp01 (max 1 rand01)) (?f - ?half)) = full - full div 2"
    using jitter_ends [OF d53] d by simp_all
  have "full div 2 + unat (jitter (clamp01 rand01) (?f - ?half)) \<le> full" using sum(2) [of rand01] by linarith
  then show ?thesis using f sum ends by simp
qed

theorem backoff_exact_witness:
  "unat (backoff_full 4 200 30000) = 1600 \<and> unat (backoffDelay 4 200 30000 (1 / 3)) \<le> 1600 \<and>
   unat (backoffDelay 4 200 30000 (max 1 7)) = 1600"
  using backoff_exact [of 200 30000 4 "1 / 3"] backoff_exact [of 200 30000 4 7] by simp

text \<open>The arithmetic of doubles at work: the product is a little more or less than the exact one, and is cut.\<close>

lemma backoff_example: "backoffDelay 4 200 30000 (1 / 3) = 1066" "to_double (2 powi 53 + 1) = 2 powi 53"
  by code_simp+

text \<open>Without a cap the doubling is not saturating: a delay of \<open>2\<^sup>40\<close> milliseconds is zero at the 25th retry.\<close>

lemma uncapped_backoff_wraps: "backoff_full 25 (2 ^ 40) 0 = 0"
  by code_simp

text \<open>The exponent is limited: the 33rd and all later attempts wait no longer than the 32nd, far below the cap.\<close>

lemma backoff_exponent_limited: "backoff_full 33 1 (2 ^ 40) = 2 ^ 31" "backoff_full 40 1 (2 ^ 40) = 2 ^ 31"
  by code_simp+

end
