(* ===== verification/Native_Controller.thy ===== *)
theory Native_Controller
  imports Run_Command Worker_Output Session
begin

text \<open>
  The controller side of the native protocol (\<open>src/transport/native_controller.cpp\<close>): one connection per host, a bounded
  number at a time, with live capture, cancellation and fail-fast.  The callbacks of a connection's transport and session, the
  retire timers and \<open>cancel\<close> are events; what connecting answers is an argument of \<open>launch\<close>.  The calls a connection makes
  on its session, the calls of the output callback and those of the completion callback are kept as history.  Of a
  \<open>HostResult\<close>, \<open>output\<close> is left out: it is always the two captures joined.
\<close>

subsection \<open>State\<close>

datatype CancelKind = OtherCause | TimeoutCause | InterruptCause | FailFastCause

record nc_target =
  nt_host :: string
  nt_port :: nat
  nt_expectedSan :: string

datatype session_call = Opens open_request | Consumes nat

record nc_conn =
  c_target :: nc_target
  c_result :: host_result
  c_stdoutRing :: string
  c_stderrRing :: string
  c_stdoutSpool :: spool_buffer
  c_stderrSpool :: spool_buffer
  c_active :: bool
  c_done :: bool
  c_linked :: bool
  c_calls :: "session_call list"

text \<open>What connecting, creating the TLS engine and starting the transport answer; \<open>start\<close> may already have reported
  an error, whether it then fails or not.\<close>

datatype launch_answer = ConnectFails string | TlsFails string | StartFails "string option" string | Starts "string option"

record nc_state =
  nc_conns :: "nc_conn list"
  nc_command :: "string list"
  nc_concurrency :: nat
  nc_policy :: OverflowPolicy
  nc_ringBytes :: nat
  nc_failFast :: bool
  nc_next :: nat
  nc_active :: nat
  nc_remaining :: nat
  nc_filling :: bool
  nc_cancelling :: bool
  nc_completed :: bool
  nc_started :: bool
  nc_retiring :: "nat list"
  nc_reports :: "host_result list list"
  nc_output :: "(string \<times> channel \<times> string) list"

definition no_result :: "string \<Rightarrow> host_result" where
  "no_result h = \<lparr>hr_host = h, hr_ok = False, hr_exitCode = -1, hr_error = [], hr_stdout = [], hr_stderr = [], hr_dropped = 0,
     hr_timedOut = False, hr_cancelled = False, hr_aborted = False\<rparr>"

definition new_conn :: "nc_target \<Rightarrow> nc_conn" where
  "new_conn t = \<lparr>c_target = t, c_result = no_result (nt_host t), c_stdoutRing = [], c_stderrRing = [], c_stdoutSpool = SpoolBuffer,
     c_stderrSpool = SpoolBuffer, c_active = False, c_done = False, c_linked = False, c_calls = []\<rparr>"

definition NativeController :: nc_state where
  "NativeController = \<lparr>nc_conns = [], nc_command = [], nc_concurrency = 0, nc_policy = Block, nc_ringBytes = 0, nc_failFast = False,
     nc_next = 0, nc_active = 0, nc_remaining = 0, nc_filling = False, nc_cancelling = False, nc_completed = False,
     nc_started = False, nc_retiring = [], nc_reports = [], nc_output = []\<rparr>"

definition conn :: "nc_state \<Rightarrow> nat \<Rightarrow> nc_conn" where "conn n i = nc_conns n ! i"

definition set_conn :: "nc_state \<Rightarrow> nat \<Rightarrow> nc_conn \<Rightarrow> nc_state" where
  "set_conn n i c = n\<lparr>nc_conns := (nc_conns n)[i := c]\<rparr>"

subsection \<open>Completion\<close>

definition completeIfReady :: "nc_state \<Rightarrow> nc_state" where
  "completeIfReady n =
     (if nc_remaining n \<noteq> 0 \<or> nc_active n \<noteq> 0 \<or> nc_completed n then n
      else n\<lparr>nc_completed := True, nc_reports := nc_reports n @ [map c_result (nc_conns n)]\<rparr>)"

text \<open>\<open>finish\<close> up to the call of the owner.\<close>

definition settle :: "(nat \<Rightarrow> bool \<Rightarrow> nat \<Rightarrow> io) \<Rightarrow> nat \<Rightarrow> nc_conn \<Rightarrow> nc_conn" where
  "settle disks i c = c\<lparr>c_result := (c_result c)\<lparr>hr_stdout := full_output (disks i True) (c_stdoutRing c) (c_stdoutSpool c),
      hr_stderr := full_output (disks i False) (c_stderrRing c) (c_stderrSpool c)\<rparr>, c_done := True\<rparr>"

definition failed_result :: "host_result \<Rightarrow> bool" where
  "failed_result r \<longleftrightarrow> \<not> hr_ok r \<or> hr_exitCode r \<noteq> 0 \<or> hr_error r \<noteq> []"

text \<open>\<open>onConnDone\<close>, \<open>cancel\<close> and \<open>fail\<close> call each other; a cancellation inside a cancellation does nothing, so two
  levels are enough.\<close>

definition onConnDone_with :: "(nc_state \<Rightarrow> nc_state) \<Rightarrow> nc_state \<Rightarrow> nat \<Rightarrow> nc_state" where
  "onConnDone_with cancel_all n i =
     (let n1 = n\<lparr>nc_remaining := nc_remaining n - 1\<rparr>;
          n2 = (if nc_failFast n \<and> \<not> nc_cancelling n \<and> failed_result (c_result (conn n i)) then cancel_all n1 else n1);
          n3 = (if c_active (conn n2 i) then n2\<lparr>nc_retiring := nc_retiring n2 @ [i]\<rparr> else n2)
      in completeIfReady n3)"

definition finish_with :: "(nc_state \<Rightarrow> nat \<Rightarrow> nc_state) \<Rightarrow> (nat \<Rightarrow> bool \<Rightarrow> nat \<Rightarrow> io) \<Rightarrow> nc_state \<Rightarrow> nat \<Rightarrow> nc_state" where
  "finish_with done disks n i = (if c_done (conn n i) then n else done (set_conn n i (settle disks i (conn n i))) i)"

definition fail_with :: "(nc_state \<Rightarrow> nat \<Rightarrow> nc_state) \<Rightarrow> (nat \<Rightarrow> bool \<Rightarrow> nat \<Rightarrow> io) \<Rightarrow> string \<Rightarrow> CancelKind \<Rightarrow> nc_state \<Rightarrow> nat \<Rightarrow> nc_state" where
  "fail_with done disks message kind n i =
     (let c = conn n i;
          n1 = (if c_done c then n
                else set_conn n i (c\<lparr>c_result := (c_result c)\<lparr>hr_error := message, hr_ok := False, hr_timedOut := (kind = TimeoutCause),
                  hr_cancelled := (kind = InterruptCause), hr_aborted := (kind = FailFastCause)\<rparr>\<rparr>))
      in finish_with done disks n1 i)"

definition cancel_kind :: "string \<Rightarrow> CancelKind \<Rightarrow> CancelKind" where
  "cancel_kind reason kind =
     (if kind = OtherCause then
        if reason = ''timed out'' then TimeoutCause
        else if reason = ''fail-fast'' then FailFastCause
        else if reason = ''cancelled'' \<or> reason = ''interrupted'' then InterruptCause
        else OtherCause
      else kind)"

definition cancel_with :: "(nc_state \<Rightarrow> nat \<Rightarrow> nc_state) \<Rightarrow> (nat \<Rightarrow> bool \<Rightarrow> nat \<Rightarrow> io) \<Rightarrow> string \<Rightarrow> CancelKind \<Rightarrow> nc_state \<Rightarrow> nc_state" where
  "cancel_with done disks reason kind n =
     (if nc_completed n then n
      else completeIfReady (foldl (\<lambda>n i. if c_done (conn n i) then n else fail_with done disks reason (cancel_kind reason kind) n i)
        (n\<lparr>nc_cancelling := True\<rparr>) [0..<length (nc_conns n)]))"

definition nc_cancel :: "(nat \<Rightarrow> bool \<Rightarrow> nat \<Rightarrow> io) \<Rightarrow> string \<Rightarrow> CancelKind \<Rightarrow> nc_state \<Rightarrow> nc_state" where
  "nc_cancel disks = cancel_with (onConnDone_with (\<lambda>n. n)) disks"

definition onConnDone :: "(nat \<Rightarrow> bool \<Rightarrow> nat \<Rightarrow> io) \<Rightarrow> nc_state \<Rightarrow> nat \<Rightarrow> nc_state" where
  "onConnDone disks = onConnDone_with (nc_cancel disks ''fail-fast'' FailFastCause)"

definition conn_fail :: "(nat \<Rightarrow> bool \<Rightarrow> nat \<Rightarrow> io) \<Rightarrow> string \<Rightarrow> nc_state \<Rightarrow> nat \<Rightarrow> nc_state" where
  "conn_fail disks message = fail_with (onConnDone disks) disks message OtherCause"

subsection \<open>Starting connections\<close>

definition nc_launch :: "(nat \<Rightarrow> bool \<Rightarrow> nat \<Rightarrow> io) \<Rightarrow> (nat \<Rightarrow> launch_answer) \<Rightarrow> nc_state \<Rightarrow> nat \<Rightarrow> nc_state" where
  "nc_launch disks answers n i =
     (let n1 = (set_conn n i ((conn n i)\<lparr>c_active := True\<rparr>))\<lparr>nc_active := nc_active n + 1\<rparr>;
          linked = set_conn n1 i ((conn n1 i)\<lparr>c_linked := True\<rparr>)
      in case answers i of
           ConnectFails m \<Rightarrow> conn_fail disks (''connect: '' @ m) n1 i
         | TlsFails m \<Rightarrow> conn_fail disks (''tls: '' @ m) n1 i
         | StartFails e m \<Rightarrow> conn_fail disks (''start: '' @ m) (case e of None \<Rightarrow> linked | Some x \<Rightarrow> conn_fail disks x linked i) i
         | Starts None \<Rightarrow> linked
         | Starts (Some m) \<Rightarrow> conn_fail disks m linked i)"

text \<open>The loop over the hosts not yet started.\<close>

fun fill_from :: "(nat \<Rightarrow> bool \<Rightarrow> nat \<Rightarrow> io) \<Rightarrow> (nat \<Rightarrow> launch_answer) \<Rightarrow> nat \<Rightarrow> nc_state \<Rightarrow> nat list \<Rightarrow> nc_state" where
  "fill_from disks answers bound n [] = n"
| "fill_from disks answers bound n (i # is) =
     (if nc_active n < bound \<and> \<not> nc_cancelling n then fill_from disks answers bound (nc_launch disks answers (n\<lparr>nc_next := i + 1\<rparr>) i) is else n)"

definition nc_fillSlots :: "(nat \<Rightarrow> bool \<Rightarrow> nat \<Rightarrow> io) \<Rightarrow> (nat \<Rightarrow> launch_answer) \<Rightarrow> nc_state \<Rightarrow> nc_state" where
  "nc_fillSlots disks answers n =
     (if nc_completed n \<or> nc_cancelling n \<or> nc_filling n then n
      else let bound = (if nc_concurrency n = 0 then length (nc_conns n) else nc_concurrency n)
           in (fill_from disks answers bound (n\<lparr>nc_filling := True\<rparr>) [nc_next n..<length (nc_conns n)])\<lparr>nc_filling := False\<rparr>)"

definition nc_start :: "(nat \<Rightarrow> bool \<Rightarrow> nat \<Rightarrow> io) \<Rightarrow> (nat \<Rightarrow> launch_answer) \<Rightarrow> nc_state \<Rightarrow> nc_target list \<Rightarrow> string list \<Rightarrow>
    nat \<times> OverflowPolicy \<times> nat \<times> bool \<Rightarrow> nc_state \<times> unit result" where
  "nc_start disks answers n targets command opts =
     (case opts of (at_once, pol, ring, fast) \<Rightarrow>
        if nc_started n then (n, Inl (invalid ''native_controller.start.already_started''))
        else if command = [] \<or> hd command = [] then (n, Inl (invalid ''native_controller.start.command''))
        else if \<exists>t \<in> set targets. nt_host t = [] \<or> nt_port t = 0 then (n, Inl (invalid ''native_controller.start.target''))
        else let n1 = n\<lparr>nc_started := True, nc_command := command, nc_concurrency := at_once, nc_policy := pol, nc_ringBytes := ring,
                   nc_failFast := fast, nc_next := 0, nc_active := 0, nc_remaining := length targets, nc_filling := False,
                   nc_cancelling := False, nc_completed := False\<rparr>
             in if targets = [] then (n1\<lparr>nc_completed := True, nc_reports := nc_reports n @ [[]]\<rparr>, Inr ())
                else (nc_fillSlots disks answers (n1\<lparr>nc_conns := nc_conns n @ map new_conn targets\<rparr>), Inr ()))"

subsection \<open>Events\<close>

definition nc_retire :: "(nat \<Rightarrow> bool \<Rightarrow> nat \<Rightarrow> io) \<Rightarrow> (nat \<Rightarrow> launch_answer) \<Rightarrow> nc_state \<Rightarrow> nat \<Rightarrow> nc_state" where
  "nc_retire disks answers n i =
     (let n1 = (if c_active (conn n i)
                then (set_conn n i ((conn n i)\<lparr>c_linked := False, c_active := False\<rparr>))\<lparr>nc_active := nc_active n - 1\<rparr> else n);
          n2 = (if nc_cancelling n1 then n1 else nc_fillSlots disks answers n1)
      in completeIfReady n2)"

definition nc_onReady :: "nc_state \<Rightarrow> nat \<Rightarrow> nc_state" where
  "nc_onReady n i =
     (if c_done (conn n i) then n
      else set_conn n i ((conn n i)\<lparr>c_calls := c_calls (conn n i) @ [Opens \<lparr>argv = nc_command n, cwd = []\<rparr>]\<rparr>))"

definition nc_capture :: "(nat \<Rightarrow> io) \<Rightarrow> nat \<Rightarrow> OverflowPolicy \<Rightarrow> nc_conn \<Rightarrow> channel \<Rightarrow> string \<Rightarrow> nc_conn" where
  "nc_capture disk cap pol c ch data =
     (if ch = Stderr then
        let (ring, spool, lost) = capture_bytes disk cap pol (c_stderrRing c, c_stderrSpool c, hr_dropped (c_result c)) data
        in c\<lparr>c_stderrRing := ring, c_stderrSpool := spool, c_result := (c_result c)\<lparr>hr_dropped := lost\<rparr>\<rparr>
      else
        let (ring, spool, lost) = capture_bytes disk cap pol (c_stdoutRing c, c_stdoutSpool c, hr_dropped (c_result c)) data
        in c\<lparr>c_stdoutRing := ring, c_stdoutSpool := spool, c_result := (c_result c)\<lparr>hr_dropped := lost\<rparr>\<rparr>)"

definition nc_onData :: "(nat \<Rightarrow> bool \<Rightarrow> nat \<Rightarrow> io) \<Rightarrow> nc_state \<Rightarrow> nat \<Rightarrow> channel \<Rightarrow> string \<Rightarrow> nc_state" where
  "nc_onData disks n i ch data =
     (let c = (conn n i)\<lparr>c_calls := c_calls (conn n i) @ [Consumes (length data)]\<rparr>;
          cap = (if nc_policy n = Block then 0 else nc_ringBytes n)
      in if c_done c then set_conn n i c
         else (set_conn n i (nc_capture (disks i (ch \<noteq> Stderr)) cap (nc_policy n) c ch data))
           \<lparr>nc_output := nc_output n @ [(hr_host (c_result c), ch, data)]\<rparr>)"

definition nc_onExit :: "(nat \<Rightarrow> bool \<Rightarrow> nat \<Rightarrow> io) \<Rightarrow> nc_state \<Rightarrow> nat \<Rightarrow> wait_status \<Rightarrow> nc_state" where
  "nc_onExit disks n i status =
     (if c_done (conn n i) then n
      else finish_with (onConnDone disks) disks
        (set_conn n i ((conn n i)\<lparr>c_result := (c_result (conn n i))\<lparr>hr_ok := True, hr_exitCode := (if ws_exited status then ws_code status else -1)\<rparr>\<rparr>)) i)"

datatype nc_event =
    ConnReady nat
  | ConnData nat channel string
  | ConnExit nat wait_status
  | ConnError nat string
  | RetireFires nat
  | CancelRun string CancelKind

definition nc_step :: "(nat \<Rightarrow> bool \<Rightarrow> nat \<Rightarrow> io) \<Rightarrow> (nat \<Rightarrow> launch_answer) \<Rightarrow> nc_state \<Rightarrow> nc_event \<Rightarrow> nc_state" where
  "nc_step disks answers n ev =
     (let live = (\<lambda>i. i < length (nc_conns n) \<and> c_linked (conn n i)) in
      case ev of
        ConnReady i \<Rightarrow> if live i then nc_onReady n i else n
      | ConnData i ch data \<Rightarrow> if live i then nc_onData disks n i ch data else n
      | ConnExit i status \<Rightarrow> if live i then nc_onExit disks n i status else n
      | ConnError i m \<Rightarrow> if live i then conn_fail disks m n i else n
      | RetireFires i \<Rightarrow> if i \<in> set (nc_retiring n) then nc_retire disks answers (n\<lparr>nc_retiring := removeAll i (nc_retiring n)\<rparr>) i else n
      | CancelRun reason kind \<Rightarrow> nc_cancel disks reason kind n)"

end
