(* ===== verification/Native_Runs.thy ===== *)
theory Native_Runs
  imports Native_Controller "HOL-Library.Code_Target_Nat"
begin

text \<open>
  The invariant of \<open>NativeController\<close> and its properties: every host is reported once, in order, exactly when all connections
  are retired, the completion callback is only called from a retire timer, and a run never waits for nothing.
\<close>

subsection \<open>Access\<close>

abbreviation hosts_of :: "nc_state \<Rightarrow> nat" where "hosts_of n \<equiv> length (nc_conns n)"

lemma conn_set_conn [simp]: "conn (set_conn n i c) j = (if i = j \<and> j < hosts_of n then c else conn n j)"
  by (auto simp: conn_def set_conn_def not_less nth_update_out)

lemma set_conn_fields [simp]:
  "hosts_of (set_conn n i c) = hosts_of n" "nc_command (set_conn n i c) = nc_command n" "nc_concurrency (set_conn n i c) = nc_concurrency n"
  "nc_failFast (set_conn n i c) = nc_failFast n" "nc_next (set_conn n i c) = nc_next n" "nc_active (set_conn n i c) = nc_active n"
  "nc_remaining (set_conn n i c) = nc_remaining n" "nc_filling (set_conn n i c) = nc_filling n" "nc_cancelling (set_conn n i c) = nc_cancelling n"
  "nc_completed (set_conn n i c) = nc_completed n" "nc_started (set_conn n i c) = nc_started n" "nc_retiring (set_conn n i c) = nc_retiring n"
  "nc_reports (set_conn n i c) = nc_reports n" "nc_output (set_conn n i c) = nc_output n" "nc_policy (set_conn n i c) = nc_policy n"
  "nc_ringBytes (set_conn n i c) = nc_ringBytes n"
  by (simp_all add: set_conn_def)

lemma conn_others [simp]:
  "conn (n\<lparr>nc_next := a\<rparr>) j = conn n j" "conn (n\<lparr>nc_active := a\<rparr>) j = conn n j" "conn (n\<lparr>nc_remaining := a\<rparr>) j = conn n j"
  "conn (n\<lparr>nc_filling := b\<rparr>) j = conn n j" "conn (n\<lparr>nc_cancelling := b\<rparr>) j = conn n j" "conn (n\<lparr>nc_completed := b\<rparr>) j = conn n j"
  "conn (n\<lparr>nc_retiring := l\<rparr>) j = conn n j" "conn (n\<lparr>nc_reports := s\<rparr>) j = conn n j" "conn (n\<lparr>nc_output := h\<rparr>) j = conn n j"
  by (simp_all add: conn_def)

subsection \<open>The invariant\<close>

text \<open>\<open>R\<close> are the finished connections whose retirement is not yet scheduled, \<open>C\<close> those not yet subtracted from the count.\<close>

definition conn_ok :: "nat set \<Rightarrow> nat \<Rightarrow> bool \<Rightarrow> nat set \<Rightarrow> nat \<Rightarrow> nc_conn \<Rightarrow> bool" where
  "conn_ok R next_i cancelling retiring i c \<longleftrightarrow>
     (c_linked c \<longrightarrow> c_active c) \<and>
     (i \<in> retiring \<longrightarrow> c_done c \<and> c_active c) \<and>
     (c_done c \<and> c_active c \<and> i \<notin> R \<longrightarrow> i \<in> retiring) \<and>
     (next_i \<le> i \<longrightarrow> \<not> c_active c \<and> (c_done c \<longrightarrow> cancelling)) \<and>
     (i < next_i \<and> \<not> c_done c \<longrightarrow> c_active c) \<and>
     (i \<in> R \<longrightarrow> c_done c \<and> i \<notin> retiring) \<and> hr_host (c_result c) = nt_host (c_target c)"

definition bound_of :: "nc_state \<Rightarrow> nat" where
  "bound_of n = (if nc_concurrency n = 0 then hosts_of n else nc_concurrency n)"

definition nc_shape :: "nc_state \<Rightarrow> bool" where
  "nc_shape n \<longleftrightarrow> 0 < hosts_of n \<and> nc_active n \<le> bound_of n \<and> nc_next n \<le> hosts_of n \<and> distinct (nc_retiring n) \<and>
     set (nc_retiring n) \<subseteq> {..<hosts_of n} \<and> (nc_completed n \<longrightarrow> nc_remaining n = 0 \<and> nc_active n = 0)"

definition ninv :: "nat set \<Rightarrow> nat set \<Rightarrow> nc_state \<Rightarrow> bool" where
  "ninv C R n \<longleftrightarrow> nc_shape n \<and>
     nc_remaining n = (\<Sum>i<hosts_of n. of_bool (\<not> c_done (conn n i) \<or> i \<in> C)) \<and>
     nc_active n = (\<Sum>i<hosts_of n. of_bool (c_active (conn n i))) \<and>
     (\<forall>i < hosts_of n. conn_ok R (nc_next n) (nc_cancelling n) (set (nc_retiring n)) i (conn n i))"

lemma bound_of_set_conn [simp]: "bound_of (set_conn n i c) = bound_of n"
  by (simp add: bound_of_def)

lemma ninvD: "ninv C R n \<Longrightarrow> i < hosts_of n \<Longrightarrow> conn_ok R (nc_next n) (nc_cancelling n) (set (nc_retiring n)) i (conn n i)"
  and ninv_shape: "ninv C R n \<Longrightarrow> nc_shape n"
  by (simp_all add: ninv_def)

lemma ninv_update:
  assumes v: "ninv C R n" and i: "i < hosts_of n" and ws: "nc_conns n' = (nc_conns n)[i := c]"
    and others: "\<And>j. j \<noteq> i \<Longrightarrow> (nc_next n' \<le> j) = (nc_next n \<le> j)" "\<And>j. j \<noteq> i \<Longrightarrow> j \<in> set (nc_retiring n') \<longleftrightarrow> j \<in> set (nc_retiring n)"
      "\<And>j. j \<noteq> i \<Longrightarrow> j \<in> R' \<longleftrightarrow> j \<in> R" "\<And>j. j \<noteq> i \<Longrightarrow> j \<in> C' \<longleftrightarrow> j \<in> C" "nc_cancelling n' = nc_cancelling n"
    and ok: "conn_ok R' (nc_next n') (nc_cancelling n') (set (nc_retiring n')) i c"
    and cnt: "nc_remaining n' + of_bool (\<not> c_done (conn n i) \<or> i \<in> C) = nc_remaining n + of_bool (\<not> c_done c \<or> i \<in> C')"
      "nc_active n' + of_bool (c_active (conn n i)) = nc_active n + of_bool (c_active c)"
    and shape: "nc_shape n'"
  shows "ninv C' R' n'"
proof -
  let ?n = "hosts_of n"
  have N: "hosts_of n' = ?n" using ws by simp
  have conn': "conn n' j = (if j = i then c else conn n j)" for j using ws i by (auto simp: conn_def)
  have u: "(\<Sum>j<?n. of_bool (\<not> c_done (conn n' j) \<or> j \<in> C')) + of_bool (\<not> c_done (conn n i) \<or> i \<in> C) =
      (\<Sum>j<?n. of_bool (\<not> c_done (conn n j) \<or> j \<in> C)) + (of_bool (\<not> c_done c \<or> i \<in> C') :: nat)"
    using sum_one_changed [OF i, of "\<lambda>j. of_bool (\<not> c_done (conn n' j) \<or> j \<in> C')" "\<lambda>j. of_bool (\<not> c_done (conn n j) \<or> j \<in> C)"] others(4)
    by (simp add: conn' del: sum_of_bool_eq)
  have f: "(\<Sum>j<?n. of_bool (c_active (conn n' j))) + of_bool (c_active (conn n i)) = (\<Sum>j<?n. of_bool (c_active (conn n j))) + (of_bool (c_active c) :: nat)"
    using sum_one_changed [OF i, of "\<lambda>j. of_bool (c_active (conn n' j))" "\<lambda>j. of_bool (c_active (conn n j))"] by (simp add: conn' del: sum_of_bool_eq)
  have k: "nc_remaining n = (\<Sum>i<?n. of_bool (\<not> c_done (conn n i) \<or> i \<in> C))" "nc_active n = (\<Sum>i<?n. of_bool (c_active (conn n i)))"
    using v by (simp_all add: ninv_def)
  have "nc_remaining n' = (\<Sum>j<?n. of_bool (\<not> c_done (conn n' j) \<or> j \<in> C'))" "nc_active n' = (\<Sum>j<?n. of_bool (c_active (conn n' j)))"
    using u f k cnt by linarith+
  moreover have "conn_ok R' (nc_next n') (nc_cancelling n') (set (nc_retiring n')) j (conn n' j)" if j: "j < ?n" for j
  proof (cases "j = i")
    case True
    then show ?thesis using ok by (simp add: conn')
  next
    case False
    have lt: "(j < nc_next n') = (j < nc_next n)" using others(1) [OF False] by auto
    have cj: "conn n' j = conn n j" using conn' [of j] False by simp
    show ?thesis using ninvD [OF v j]
      unfolding conn_ok_def cj others(5) others(1) [OF False] others(2) [OF False] others(3) [OF False] lt .
  qed
  ultimately show ?thesis using shape unfolding ninv_def N by blast
qed

lemma active_positive:
  assumes "ninv C R n" "i < hosts_of n" "c_active (conn n i)"
  shows "0 < nc_active n"
proof -
  have "{..<hosts_of n} \<inter> {j. c_active (conn n j)} \<noteq> {}" using assms(2,3) by blast
  then show ?thesis using assms(1) by (simp add: ninv_def card_gt_0_iff)
qed

lemma undone_positive:
  assumes "ninv C R n" "i < hosts_of n" "\<not> c_done (conn n i) \<or> i \<in> C"
  shows "0 < nc_remaining n"
proof -
  have "{..<hosts_of n} \<inter> {j. \<not> c_done (conn n j) \<or> j \<in> C} \<noteq> {}" using assms(2,3) by blast
  then show ?thesis using assms(1) by (simp add: ninv_def card_gt_0_iff)
qed

text \<open>The invariant depends on these fields only.\<close>

lemma ninv_cong:
  assumes "nc_conns n' = nc_conns n" "nc_remaining n' = nc_remaining n" "nc_active n' = nc_active n" "nc_next n' = nc_next n"
    "nc_retiring n' = nc_retiring n" "nc_cancelling n' = nc_cancelling n" "nc_concurrency n' = nc_concurrency n" "nc_completed n' = nc_completed n"
  shows "ninv C R n' = ninv C R n"
proof -
  have "conn n' i = conn n i" for i using assms(1) by (simp add: conn_def)
  then show ?thesis using assms by (simp add: ninv_def nc_shape_def bound_of_def)
qed

lemma ninv_filling [simp]: "ninv C R (n\<lparr>nc_filling := b\<rparr>) = ninv C R n"
  by (rule ninv_cong) simp_all

lemma ready_later: "0 < nc_active n \<Longrightarrow> completeIfReady n = n"
  by (simp add: completeIfReady_def)

subsection \<open>Finishing a connection\<close>

text \<open>What finishing and cancelling leave alone.\<close>

definition nkeeps :: "nc_state \<Rightarrow> nc_state \<Rightarrow> bool" where
  "nkeeps n n' \<longleftrightarrow> map c_target (nc_conns n') = map c_target (nc_conns n) \<and> map c_active (nc_conns n') = map c_active (nc_conns n) \<and>
     map c_linked (nc_conns n') = map c_linked (nc_conns n) \<and> nc_active n' = nc_active n \<and> nc_next n' = nc_next n \<and>
     nc_filling n' = nc_filling n \<and> nc_completed n' = nc_completed n \<and> nc_reports n' = nc_reports n \<and>
     nc_concurrency n' = nc_concurrency n \<and> nc_started n' = nc_started n \<and> nc_failFast n' = nc_failFast n \<and>
     (nc_cancelling n \<longrightarrow> nc_cancelling n') \<and> (\<forall>i < hosts_of n. c_done (conn n i) \<longrightarrow> c_done (conn n' i))"

lemma nkeeps_refl: "nkeeps n n"
  by (simp add: nkeeps_def)

lemma nkeeps_trans: "nkeeps n n' \<Longrightarrow> nkeeps n' n'' \<Longrightarrow> nkeeps n n''"
  unfolding nkeeps_def by (metis length_map)

lemma nkeeps_hosts: "nkeeps n n' \<Longrightarrow> hosts_of n' = hosts_of n"
  unfolding nkeeps_def by (metis length_map)

lemma nkeepsD:
  assumes "nkeeps n n'"
  shows "nc_active n' = nc_active n" "nc_next n' = nc_next n" "nc_filling n' = nc_filling n" "nc_completed n' = nc_completed n"
    "nc_reports n' = nc_reports n" "nc_concurrency n' = nc_concurrency n" "nc_started n' = nc_started n"
    "nc_cancelling n \<Longrightarrow> nc_cancelling n'" "i < hosts_of n \<Longrightarrow> c_done (conn n i) \<Longrightarrow> c_done (conn n' i)"
    "map c_target (nc_conns n') = map c_target (nc_conns n)"
  using assms unfolding nkeeps_def by blast+

lemma nkeeps_flags:
  assumes "nkeeps n n'" "i < hosts_of n"
  shows "c_active (conn n' i) = c_active (conn n i)" "c_linked (conn n' i) = c_linked (conn n i)"
  using assms nkeeps_hosts [OF assms(1)] unfolding nkeeps_def conn_def by (metis nth_map)+

lemma nkeeps_set_conn:
  assumes "c_target c = c_target (conn n i)" "c_active c = c_active (conn n i)" "c_linked c = c_linked (conn n i)" "c_done (conn n i) \<longrightarrow> c_done c"
  shows "nkeeps n (set_conn n i c)"
proof (cases "i < hosts_of n")
  case True
  then show ?thesis using assms by (auto simp: nkeeps_def set_conn_def conn_def map_update list_update_same_conv nth_list_update)
next
  case False
  then show ?thesis by (simp add: set_conn_def nkeeps_def conn_def list_update_beyond)
qed

lemma settle_fields [simp]:
  "c_target (settle d i c) = c_target c" "c_active (settle d i c) = c_active c" "c_linked (settle d i c) = c_linked c" "c_done (settle d i c)"
  "hr_host (c_result (settle d i c)) = hr_host (c_result c)"
  by (simp_all add: settle_def)

text \<open>The connection has finished, and its owner is about to be told.\<close>

lemma settled_ninv:
  assumes v: "ninv C R n" "i \<notin> C" and i: "i < hosts_of n" and d: "\<not> c_done (conn n i)" "nc_next n \<le> i \<longrightarrow> nc_cancelling n"
    and c: "c_done c" "c_active c = c_active (conn n i)" "c_linked c = c_linked (conn n i)" "c_target c = c_target (conn n i)"
      "hr_host (c_result c) = hr_host (c_result (conn n i))"
  shows "ninv (insert i C) (insert i R) (set_conn n i c)"
proof (rule ninv_update [OF v(1) i, of _ c])
  show "nc_conns (set_conn n i c) = (nc_conns n)[i := c]" by (simp add: set_conn_def)
  show "conn_ok (insert i R) (nc_next (set_conn n i c)) (nc_cancelling (set_conn n i c)) (set (nc_retiring (set_conn n i c))) i c"
    using ninvD [OF v(1) i] d c unfolding conn_ok_def by simp
  show "nc_shape (set_conn n i c)" using ninv_shape [OF v(1)] by (simp add: nc_shape_def)
qed (use c d v(2) in auto)

lemma subtract_ninv:
  assumes v: "ninv (insert i C) R n" "i \<notin> C" and i: "i < hosts_of n" "c_done (conn n i)"
  shows "ninv C R (n\<lparr>nc_remaining := nc_remaining n - 1\<rparr>)"
proof (rule ninv_update [OF v(1) i(1), of _ "conn n i"])
  let ?n = "n\<lparr>nc_remaining := nc_remaining n - 1\<rparr>"
  show "nc_conns ?n = (nc_conns n)[i := conn n i]" by (simp add: conn_def)
  show "conn_ok R (nc_next ?n) (nc_cancelling ?n) (set (nc_retiring ?n)) i (conn n i)" using ninvD [OF v(1) i(1)] by simp
  show "nc_shape ?n" using ninv_shape [OF v(1)] by (auto simp: nc_shape_def bound_of_def)
  have "0 < nc_remaining n" using undone_positive [OF v(1) i(1)] by simp
  then show "nc_remaining ?n + of_bool (\<not> c_done (conn n i) \<or> i \<in> insert i C) = nc_remaining n + of_bool (\<not> c_done (conn n i) \<or> i \<in> C)"
    using i(2) v(2) by simp
qed auto

definition schedule :: "nc_state \<Rightarrow> nat \<Rightarrow> nc_state" where
  "schedule n i = (if c_active (conn n i) then n\<lparr>nc_retiring := nc_retiring n @ [i]\<rparr> else n)"

lemma schedule_fields [simp]:
  "nc_conns (schedule n i) = nc_conns n" "nc_remaining (schedule n i) = nc_remaining n" "nc_active (schedule n i) = nc_active n"
  "nc_next (schedule n i) = nc_next n" "nc_cancelling (schedule n i) = nc_cancelling n" "nc_concurrency (schedule n i) = nc_concurrency n"
  "nc_completed (schedule n i) = nc_completed n" "nc_filling (schedule n i) = nc_filling n" "nc_reports (schedule n i) = nc_reports n"
  "nc_started (schedule n i) = nc_started n" "nc_failFast (schedule n i) = nc_failFast n" "conn (schedule n i) j = conn n j"
  by (simp_all add: schedule_def conn_def)

lemma schedule_ninv:
  assumes v: "ninv C (insert i R) n" "i \<notin> R" and i: "i < hosts_of n"
  shows "ninv C R (schedule n i)"
proof (rule ninv_update [OF v(1) i, of _ "conn n i"])
  let ?n = "schedule n i"
  note ok = ninvD [OF v(1) i]
  show "nc_conns ?n = (nc_conns n)[i := conn n i]" by (simp add: conn_def)
  show "conn_ok R (nc_next ?n) (nc_cancelling ?n) (set (nc_retiring ?n)) i (conn n i)" using ok v(2) unfolding conn_ok_def schedule_def by auto
  have "i \<notin> set (nc_retiring n)" using ok unfolding conn_ok_def by blast
  then show "nc_shape ?n" using ninv_shape [OF v(1)] i by (auto simp: nc_shape_def bound_of_def schedule_def)
qed (auto simp: schedule_def)

lemma onConnDone_with_unfold: "onConnDone_with cancel_all n i =
    completeIfReady (schedule (if nc_failFast n \<and> \<not> nc_cancelling n \<and> failed_result (c_result (conn n i))
      then cancel_all (n\<lparr>nc_remaining := nc_remaining n - 1\<rparr>) else n\<lparr>nc_remaining := nc_remaining n - 1\<rparr>) i)"
  by (simp only: onConnDone_with_def Let_def schedule_def)

text \<open>A connection that fails during a cancellation.\<close>

definition failed_conn :: "(nat \<Rightarrow> bool \<Rightarrow> nat \<Rightarrow> io) \<Rightarrow> string \<Rightarrow> CancelKind \<Rightarrow> nat \<Rightarrow> nc_conn \<Rightarrow> nc_conn" where
  "failed_conn disks m kind i c = settle disks i (c\<lparr>c_result := (c_result c)\<lparr>hr_error := m, hr_ok := False, hr_timedOut := (kind = TimeoutCause),
     hr_cancelled := (kind = InterruptCause), hr_aborted := (kind = FailFastCause)\<rparr>\<rparr>)"

lemma failed_conn_fields [simp]:
  "c_done (failed_conn d m k i c)" "c_active (failed_conn d m k i c) = c_active c" "c_linked (failed_conn d m k i c) = c_linked c"
  "c_target (failed_conn d m k i c) = c_target c" "hr_host (c_result (failed_conn d m k i c)) = hr_host (c_result c)"
  by (simp_all add: failed_conn_def)

lemma set_conn_twice: "set_conn (set_conn n i a) i b = set_conn n i b"
  by (simp add: set_conn_def)

lemma fail_with_undone:
  assumes "i < hosts_of n" "\<not> c_done (conn n i)"
  shows "fail_with done disks m kind n i =
    done (set_conn n i (failed_conn disks m kind i (conn n i))) i"
  using assms by (simp add: fail_with_def finish_with_def Let_def set_conn_twice failed_conn_def)

lemma nkeeps_counts: "nkeeps n (schedule (n\<lparr>nc_remaining := a\<rparr>) i)" "nkeeps n (schedule n i)"
  by (simp_all add: nkeeps_def)

text \<open>A cancellation inside a cancellation does nothing: the owner's full reaction inside the loop of \<open>cancel\<close> is the plain one.\<close>

lemma complete_cancelling [simp]: "nc_cancelling (completeIfReady n) = nc_cancelling n"
  by (simp add: completeIfReady_def)

lemma done_in_cancel:
  assumes "nc_cancelling n"
  shows "onConnDone_with cancel_all n i = onConnDone_with (\<lambda>n. n) n i" "nc_cancelling (onConnDone_with cancel_all n i)"
  using assms by (simp_all add: onConnDone_with_unfold)

lemma fail_in_cancel:
  assumes "nc_cancelling n"
  shows "fail_with (onConnDone disks) disks m kind n i = fail_with (onConnDone_with (\<lambda>n. n)) disks m kind n i"
    "nc_cancelling (fail_with (onConnDone_with (\<lambda>n. n)) disks m kind n i)"
proof -
  have d: "onConnDone disks s i = onConnDone_with (\<lambda>n. n) s i" if "nc_cancelling s" for s
    unfolding onConnDone_def by (rule done_in_cancel(1) [OF that])
  show "fail_with (onConnDone disks) disks m kind n i = fail_with (onConnDone_with (\<lambda>n. n)) disks m kind n i"
    using assms by (simp add: fail_with_def finish_with_def Let_def d)
  show "nc_cancelling (fail_with (onConnDone_with (\<lambda>n. n)) disks m kind n i)"
    using assms by (simp add: fail_with_def finish_with_def Let_def done_in_cancel(2))
qed

lemma nc_cancel_nested: "nc_cancel disks reason kind n = cancel_with (onConnDone disks) disks reason kind n"
proof -
  have "foldl (\<lambda>n i. if c_done (conn n i) then n else fail_with (onConnDone disks) disks m k n i) s is =
      foldl (\<lambda>n i. if c_done (conn n i) then n else fail_with (onConnDone_with (\<lambda>n. n)) disks m k n i) s is" if "nc_cancelling s" for s m k "is"
    using that by (induction "is" arbitrary: s) (simp_all add: fail_in_cancel)
  then show ?thesis by (simp add: nc_cancel_def cancel_with_def)
qed

lemma cancel_step:
  fixes disks :: "nat \<Rightarrow> bool \<Rightarrow> nat \<Rightarrow> io" and m :: string and kind :: CancelKind
  assumes v: "ninv {} R n" and i: "i < hosts_of n" and n: "nc_cancelling n" "0 < nc_active n"
  defines "n' \<equiv> (if c_done (conn n i) then n else fail_with (onConnDone_with (\<lambda>n. n)) disks m kind n i)"
  shows "ninv {} R n' \<and> nkeeps n n' \<and> c_done (conn n' i)"
proof (cases "c_done (conn n i)")
  case True
  then show ?thesis using v nkeeps_refl by (simp add: n'_def)
next
  case False
  let ?c = "failed_conn disks m kind i (conn n i)"
  let ?s = "set_conn n i ?c"
  have R: "i \<notin> R" using ninvD [OF v i] False unfolding conn_ok_def by blast
  have sv: "ninv (insert i {}) (insert i R) ?s"
    by (rule settled_ninv [OF v _ i False]) (use n in simp_all)
  have "n' = onConnDone_with (\<lambda>n. n) ?s i" using False i by (simp add: n'_def fail_with_undone)
  also have "\<dots> = schedule (?s\<lparr>nc_remaining := nc_remaining ?s - 1\<rparr>) i"
    using n by (simp add: onConnDone_with_unfold ready_later)
  finally have n': "n' = schedule (?s\<lparr>nc_remaining := nc_remaining ?s - 1\<rparr>) i" .
  have "ninv {} (insert i R) (?s\<lparr>nc_remaining := nc_remaining ?s - 1\<rparr>)" by (rule subtract_ninv [OF sv]) (use i in simp_all)
  then have "ninv {} R n'" unfolding n' by (rule schedule_ninv) (use R i in simp_all)
  moreover have "nkeeps n n'" unfolding n' by (rule nkeeps_trans [OF nkeeps_set_conn nkeeps_counts(1)]) simp_all
  ultimately show ?thesis using i by (simp add: n')
qed

lemma cancel_loop:
  fixes disks :: "nat \<Rightarrow> bool \<Rightarrow> nat \<Rightarrow> io" and m :: string and kind :: CancelKind
  defines "step \<equiv> \<lambda>n i. if c_done (conn n i) then n else fail_with (onConnDone_with (\<lambda>n. n)) disks m kind n i"
  assumes "ninv {} R n" "set is \<subseteq> {..<hosts_of n}" "nc_cancelling n" "0 < nc_active n"
  shows "ninv {} R (foldl step n is) \<and> nkeeps n (foldl step n is) \<and> (\<forall>i \<in> set is. c_done (conn (foldl step n is) i))"
  using assms(2-)
proof (induction "is" arbitrary: n)
  case Nil
  then show ?case using nkeeps_refl by simp
next
  case (Cons i "is")
  let ?n = "step n i"
  have i: "i < hosts_of n" using Cons.prems(2) by simp
  have 1: "ninv {} R ?n" "nkeeps n ?n" "c_done (conn ?n i)"
    using cancel_step [OF Cons.prems(1) i Cons.prems(3,4), of disks m kind] unfolding step_def by simp_all
  have h: "hosts_of ?n = hosts_of n" by (rule nkeeps_hosts [OF 1(2)])
  have p: "set is \<subseteq> {..<hosts_of ?n}" "nc_cancelling ?n" "0 < nc_active ?n"
    using Cons.prems(2-4) nkeepsD(1) [OF 1(2)] nkeepsD(8) [OF 1(2)] h by auto
  have ih: "ninv {} R (foldl step ?n is)" "nkeeps ?n (foldl step ?n is)" "\<forall>i \<in> set is. c_done (conn (foldl step ?n is) i)"
    using Cons.IH [OF 1(1) p] by blast+
  have "c_done (conn (foldl step ?n is) i)" using nkeepsD(9) [OF ih(2)] 1(3) i h by simp
  moreover have "nkeeps n (foldl step ?n is)" by (rule nkeeps_trans [OF 1(2) ih(2)])
  ultimately show ?case using ih(1,3) by simp
qed

lemma ninv_cancelling:
  assumes "ninv C R n"
  shows "ninv C R (n\<lparr>nc_cancelling := True\<rparr>)"
proof -
  have "conn_ok R a True t i c" if "conn_ok R a b t i c" for a b t i c using that unfolding conn_ok_def by blast
  moreover have "nc_shape (n\<lparr>nc_cancelling := True\<rparr>) = nc_shape n" by (simp add: nc_shape_def bound_of_def)
  ultimately show ?thesis using assms by (simp add: ninv_def del: sum_of_bool_eq) blast
qed

lemma all_done_none: "ninv {} R n \<Longrightarrow> (\<forall>i < hosts_of n. c_done (conn n i)) \<Longrightarrow> nc_remaining n = 0"
  by (simp add: ninv_def)

lemma cancel_spec:
  fixes disks :: "nat \<Rightarrow> bool \<Rightarrow> nat \<Rightarrow> io" and reason :: string and kind :: CancelKind
  assumes v: "ninv {} R n" and a: "0 < nc_active n"
  defines "n' \<equiv> nc_cancel disks reason kind n"
  shows "ninv {} R n' \<and> nkeeps n n' \<and> nc_cancelling n' \<and> nc_remaining n' = 0"
proof -
  let ?c = "n\<lparr>nc_cancelling := True\<rparr>"
  let ?f = "foldl (\<lambda>n i. if c_done (conn n i) then n else fail_with (onConnDone_with (\<lambda>n. n)) disks reason (cancel_kind reason kind) n i) ?c [0..<hosts_of n]"
  have nc: "\<not> nc_completed n" using ninv_shape [OF v] a by (auto simp: nc_shape_def)
  have "set [0..<hosts_of n] \<subseteq> {..<hosts_of ?c}" "nc_cancelling ?c" "0 < nc_active ?c" using a by auto
  from cancel_loop [OF ninv_cancelling [OF v] this, of disks reason "cancel_kind reason kind"]
  have f: "ninv {} R ?f" "nkeeps ?c ?f" "\<forall>i \<in> set [0..<hosts_of n]. c_done (conn ?f i)" by blast+
  have k: "nkeeps n ?f" using f(2) by (simp add: nkeeps_def)
  have "0 < nc_active ?f" using k a by (simp add: nkeeps_def)
  then have e: "n' = ?f" using nc unfolding n'_def nc_cancel_def cancel_with_def by (simp add: ready_later)
  have "nc_cancelling ?f" using f(2) by (simp add: nkeeps_def)
  moreover have "nc_remaining ?f = 0" using all_done_none [OF f(1)] f(3) nkeeps_hosts [OF k] by simp
  ultimately show ?thesis using f(1) k unfolding e by blast
qed

lemma onConnDone_spec:
  fixes disks :: "nat \<Rightarrow> bool \<Rightarrow> nat \<Rightarrow> io"
  assumes v: "ninv {i} {i} n" and i: "i < hosts_of n" "c_done (conn n i)" and a: "0 < nc_active n"
  defines "n' \<equiv> onConnDone disks n i"
  shows "ninv {} {} n' \<and> nkeeps n n' \<and> (nc_cancelling n' \<longrightarrow> nc_cancelling n \<or> nc_remaining n' = 0)"
proof -
  let ?n1 = "n\<lparr>nc_remaining := nc_remaining n - 1\<rparr>" and ?cancel = "nc_cancel disks ''fail-fast'' FailFastCause"
  let ?go = "nc_failFast n \<and> \<not> nc_cancelling n \<and> failed_result (c_result (conn n i))"
  let ?n2 = "if ?go then ?cancel ?n1 else ?n1"
  have v1: "ninv {} {i} ?n1" using subtract_ninv [of i "{}" "{i}" n] v i by simp
  have c: "ninv {} {i} (?cancel ?n1)" "nkeeps ?n1 (?cancel ?n1)" "nc_remaining (?cancel ?n1) = 0"
    using cancel_spec [OF v1, of disks "''fail-fast''" FailFastCause] a by simp_all
  have k1: "nkeeps n ?n1" by (simp add: nkeeps_def)
  have v2: "ninv {} {i} ?n2" "nkeeps n ?n2" using v1 c k1 nkeeps_trans [OF k1 c(2)] by simp_all
  have "0 < nc_active ?n2" using v2(2) a by (simp add: nkeeps_def)
  then have "completeIfReady (schedule ?n2 i) = schedule ?n2 i" by (intro ready_later) simp
  then have e: "n' = schedule ?n2 i" unfolding n'_def onConnDone_def onConnDone_with_unfold .
  have "i < hosts_of ?n2" using nkeeps_hosts [OF v2(2)] i(1) by simp
  then have "ninv {} {} (schedule ?n2 i)" using schedule_ninv [of "{}" i "{}" ?n2] v2(1) by simp
  moreover have "nc_cancelling ?n2 \<longrightarrow> nc_cancelling n \<or> nc_remaining ?n2 = 0" using c(3) by simp
  ultimately show ?thesis using nkeeps_trans [OF v2(2) nkeeps_counts(2)] unfolding e by simp
qed

text \<open>A connection finishes, by an exit or an error.\<close>

lemma finish_spec:
  fixes disks :: "nat \<Rightarrow> bool \<Rightarrow> nat \<Rightarrow> io"
  assumes v: "ninv {} {} n" and i: "i < hosts_of n" "\<not> c_done (conn n i)" "nc_next n \<le> i \<longrightarrow> nc_cancelling n" and a: "0 < nc_active n"
    and c: "c_done c" "c_active c = c_active (conn n i)" "c_linked c = c_linked (conn n i)" "c_target c = c_target (conn n i)"
      "hr_host (c_result c) = hr_host (c_result (conn n i))"
  defines "n' \<equiv> onConnDone disks (set_conn n i c) i"
  shows "ninv {} {} n' \<and> nkeeps n n' \<and> c_done (conn n' i) \<and> (nc_cancelling n' \<longrightarrow> nc_cancelling n \<or> nc_remaining n' = 0)"
proof -
  have v1: "ninv {i} {i} (set_conn n i c)" using settled_ninv [OF v _ i c] by simp
  have k1: "nkeeps n (set_conn n i c)" by (rule nkeeps_set_conn) (use c i in simp_all)
  have d: "ninv {} {} n' \<and> nkeeps (set_conn n i c) n' \<and> (nc_cancelling n' \<longrightarrow> nc_cancelling (set_conn n i c) \<or> nc_remaining n' = 0)"
    unfolding n'_def by (rule onConnDone_spec [OF v1]) (use i c a in simp_all)
  moreover have "c_done (conn n' i)" using d i(1) c(1) unfolding nkeeps_def by simp
  ultimately show ?thesis using nkeeps_trans [OF k1] by simp
qed

subsection \<open>Launching\<close>

definition linked_ok :: "nc_state \<Rightarrow> bool" where
  "linked_ok n \<longleftrightarrow> (\<forall>i < hosts_of n. c_active (conn n i) \<and> \<not> c_done (conn n i) \<longrightarrow> c_linked (conn n i))"

definition nsame :: "nc_state \<Rightarrow> nc_state \<Rightarrow> bool" where
  "nsame n n' \<longleftrightarrow> map c_target (nc_conns n') = map c_target (nc_conns n) \<and> nc_completed n' = nc_completed n \<and> nc_reports n' = nc_reports n \<and>
     nc_concurrency n' = nc_concurrency n \<and> nc_started n' = nc_started n \<and> nc_filling n' = nc_filling n"

lemma nsame_refl: "nsame n n" and nsame_trans: "nsame n n' \<Longrightarrow> nsame n' n'' \<Longrightarrow> nsame n n''"
  by (simp_all add: nsame_def)

lemma nsame_hosts: "nsame n n' \<Longrightarrow> hosts_of n' = hosts_of n"
  unfolding nsame_def by (metis length_map)

lemma nkeeps_same: "nkeeps n n' \<Longrightarrow> nsame n n'"
  by (simp add: nkeeps_def nsame_def)

lemma linked_ok_keeps:
  assumes l: "\<forall>j < hosts_of n. j \<noteq> i \<longrightarrow> c_active (conn n j) \<and> \<not> c_done (conn n j) \<longrightarrow> c_linked (conn n j)" and k: "nkeeps n n'" and d: "c_done (conn n' i)"
  shows "linked_ok n'"
proof -
  have "c_linked (conn n' j)" if j: "j < hosts_of n'" "c_active (conn n' j)" "\<not> c_done (conn n' j)" for j
  proof -
    have jn: "j < hosts_of n" using j(1) nkeeps_hosts [OF k] by simp
    have "j \<noteq> i" using d j(3) by auto
    moreover have "\<not> c_done (conn n j)" using nkeepsD(9) [OF k jn] j(3) by auto
    ultimately show ?thesis using l jn j(2) nkeeps_flags [OF k jn] by simp
  qed
  then show ?thesis by (simp add: linked_ok_def)
qed

definition open_ok :: "nc_state \<Rightarrow> bool" where
  "open_ok n \<longleftrightarrow> ninv {} {} n \<and> linked_ok n \<and> (nc_cancelling n \<longrightarrow> nc_remaining n = 0)"

lemma begin_ninv:
  assumes v: "ninv {} {} n" and i: "i = nc_next n" "i < hosts_of n" "\<not> nc_cancelling n" "nc_active n < bound_of n" and nc: "\<not> nc_completed n"
    and c: "c_active c" "c_done c = c_done (conn n i)" "c_target c = c_target (conn n i)" "c_result c = c_result (conn n i)"
  defines "n' \<equiv> (set_conn (n\<lparr>nc_next := i + 1\<rparr>) i c)\<lparr>nc_active := nc_active n + 1\<rparr>"
  shows "ninv {} {} n'" "nsame n n'" "\<not> c_done c"
proof -
  have ok: "\<not> c_active (conn n i)" "\<not> c_done (conn n i)" "hr_host (c_result (conn n i)) = nt_host (c_target (conn n i))" "i \<notin> set (nc_retiring n)"
    using ninvD [OF v i(2)] i(1,3) unfolding conn_ok_def by auto
  show "\<not> c_done c" using ok(2) c(2) by simp
  show "ninv {} {} n'"
  proof (rule ninv_update [OF v i(2), of _ c])
    show "nc_conns n' = (nc_conns n)[i := c]" by (simp add: n'_def set_conn_def)
    show "conn_ok {} (nc_next n') (nc_cancelling n') (set (nc_retiring n')) i c"
      using ok c unfolding conn_ok_def n'_def by simp
    show "nc_shape n'" using ninv_shape [OF v] i nc by (auto simp: nc_shape_def n'_def bound_of_def split: if_splits)
    show "\<And>j. j \<noteq> i \<Longrightarrow> (nc_next n' \<le> j) = (nc_next n \<le> j)" using i(1) by (auto simp: n'_def)
  qed (use ok c in \<open>simp_all add: n'_def\<close>)
  show "nsame n n'" using i(2) c(3) by (simp add: nsame_def n'_def set_conn_def conn_def map_update list_update_same_conv)
qed

lemma fail_idle: "c_done (conn n i) \<Longrightarrow> conn_fail disks m n i = n"
  by (simp add: conn_fail_def fail_with_def finish_with_def)

lemma launch_spec:
  fixes disks :: "nat \<Rightarrow> bool \<Rightarrow> nat \<Rightarrow> io" and answers :: "nat \<Rightarrow> launch_answer"
  assumes o: "open_ok n" and i: "i = nc_next n" "i < hosts_of n" "\<not> nc_cancelling n" "nc_active n < bound_of n" and nc: "\<not> nc_completed n"
  defines "n' \<equiv> nc_launch disks answers (n\<lparr>nc_next := i + 1\<rparr>) i"
  shows "open_ok n' \<and> nsame n n' \<and> nc_next n' = i + 1 \<and> nc_active n' = nc_active n + 1"
proof -
  have v: "ninv {} {} n" "linked_ok n" using o by (simp_all add: open_ok_def)
  let ?m = "n\<lparr>nc_next := i + 1\<rparr>"
  let ?c1 = "(conn n i)\<lparr>c_active := True\<rparr>" and ?c2 = "(conn n i)\<lparr>c_active := True, c_linked := True\<rparr>"
  let ?n1 = "(set_conn ?m i ?c1)\<lparr>nc_active := nc_active n + 1\<rparr>" and ?n2 = "(set_conn ?m i ?c2)\<lparr>nc_active := nc_active n + 1\<rparr>"
  have b1: "ninv {} {} ?n1" "nsame n ?n1" "\<not> c_done ?c1" by (rule begin_ninv [OF v(1) i nc]; simp)+
  have b2: "ninv {} {} ?n2" "nsame n ?n2" "\<not> c_done ?c2" by (rule begin_ninv [OF v(1) i nc]; simp)+
  have l: "set_conn ?n1 i ((conn ?n1 i)\<lparr>c_linked := True\<rparr>) = ?n2" using i(2) by (simp add: set_conn_def conn_def)
  have others: "\<forall>j < hosts_of ?n1. j \<noteq> i \<longrightarrow> c_active (conn ?n1 j) \<and> \<not> c_done (conn ?n1 j) \<longrightarrow> c_linked (conn ?n1 j)"
    "\<forall>j < hosts_of ?n2. j \<noteq> i \<longrightarrow> c_active (conn ?n2 j) \<and> \<not> c_done (conn ?n2 j) \<longrightarrow> c_linked (conn ?n2 j)" using v(2) by (simp_all add: linked_ok_def)
  have failing: "(open_ok m' \<and> nsame n m' \<and> nc_next m' = i + 1 \<and> nc_active m' = nc_active n + 1) \<and> c_done (conn m' i)"
    if m: "ninv {} {} m" "nsame n m" "nc_next m = i + 1" "nc_active m = nc_active n + 1" "\<not> nc_cancelling m" "\<not> c_done (conn m i)"
      "\<forall>j < hosts_of m. j \<noteq> i \<longrightarrow> c_active (conn m j) \<and> \<not> c_done (conn m j) \<longrightarrow> c_linked (conn m j)" "m' = conn_fail disks t m i" for m m' t
  proof -
    have im: "i < hosts_of m" using i(2) nsame_hosts [OF m(2)] by simp
    have "m' = onConnDone disks (set_conn m i (failed_conn disks t OtherCause i (conn m i))) i"
      unfolding m(8) conn_fail_def by (rule fail_with_undone [OF im m(6)])
    then have f: "ninv {} {} m'" "nkeeps m m'" "c_done (conn m' i)" "nc_cancelling m' \<longrightarrow> nc_cancelling m \<or> nc_remaining m' = 0"
      using finish_spec [OF m(1) im m(6), of "failed_conn disks t OtherCause i (conn m i)" disks] m(3,4) by simp_all
    show ?thesis using f(3) f m(5) linked_ok_keeps [OF m(7) f(2,3)] nsame_trans [OF m(2) nkeeps_same [OF f(2)]] nkeepsD(1,2) [OF f(2)] m(3,4)
      by (simp add: open_ok_def)
  qed
  have lo: "linked_ok ?n2" unfolding linked_ok_def
  proof (intro allI impI)
    fix j assume j: "j < hosts_of ?n2" "c_active (conn ?n2 j) \<and> \<not> c_done (conn ?n2 j)"
    then show "c_linked (conn ?n2 j)" using others(2) by (cases "j = i") simp_all
  qed
  have starts: "open_ok ?n2 \<and> nsame n ?n2 \<and> nc_next ?n2 = i + 1 \<and> nc_active ?n2 = nc_active n + 1"
    using b2 lo i(3) by (simp add: open_ok_def)
  have fact: "nc_launch disks answers ?m i = (case answers i of
           ConnectFails m \<Rightarrow> conn_fail disks (''connect: '' @ m) ?n1 i
         | TlsFails m \<Rightarrow> conn_fail disks (''tls: '' @ m) ?n1 i
         | StartFails e m \<Rightarrow> conn_fail disks (''start: '' @ m) (case e of None \<Rightarrow> ?n2 | Some x \<Rightarrow> conn_fail disks x ?n2 i) i
         | Starts None \<Rightarrow> ?n2
         | Starts (Some m) \<Rightarrow> conn_fail disks m ?n2 i)"
    unfolding nc_launch_def Let_def using l by (simp split: launch_answer.split option.split)
  have f1: "open_ok m' \<and> nsame n m' \<and> nc_next m' = i + 1 \<and> nc_active m' = nc_active n + 1" if "m' = conn_fail disks t ?n1 i" for m' t
    by (rule failing [OF b1(1,2) _ _ _ _ others(1) that, THEN conjunct1]) (use i b1(3) in simp_all)
  have f3: "(open_ok m' \<and> nsame n m' \<and> nc_next m' = i + 1 \<and> nc_active m' = nc_active n + 1) \<and> c_done (conn m' i)"
    if "m' = conn_fail disks t ?n2 i" for m' t
    by (rule failing [OF b2(1,2) _ _ _ _ others(2) that]) (use i b2(3) in simp_all)
  note f2 = f3 [THEN conjunct1]
  show ?thesis
  proof (cases "answers i")
    case (ConnectFails m)
    show ?thesis unfolding n'_def fact ConnectFails launch_answer.case by (rule f1 [OF refl])
  next
    case (TlsFails m)
    show ?thesis unfolding n'_def fact TlsFails launch_answer.case by (rule f1 [OF refl])
  next
    case (StartFails e m)
    show ?thesis
    proof (cases e)
      case None
      show ?thesis unfolding n'_def fact StartFails None launch_answer.case option.case by (rule f2 [OF refl])
    next
      case (Some x)
      have "conn_fail disks (''start: '' @ m) (conn_fail disks x ?n2 i) i = conn_fail disks x ?n2 i"
        by (rule fail_idle [OF f3 [THEN conjunct2, OF refl]])
      then show ?thesis unfolding n'_def fact StartFails Some launch_answer.case option.case by (simp only:) (rule f2 [OF refl])
    qed
  next
    case (Starts e)
    show ?thesis
    proof (cases e)
      case None
      show ?thesis unfolding n'_def fact Starts None launch_answer.case option.case by (rule starts)
    next
      case (Some m)
      show ?thesis unfolding n'_def fact Starts Some launch_answer.case option.case by (rule f2 [OF refl])
    qed
  qed
qed

definition no_slot :: "nc_state \<Rightarrow> bool" where
  "no_slot n \<longleftrightarrow> nc_cancelling n \<or> nc_next n = hosts_of n \<or> bound_of n \<le> nc_active n"

lemma nsame_bound: "nsame n n' \<Longrightarrow> bound_of n' = bound_of n"
  using nsame_hosts [of n n'] by (simp add: bound_of_def nsame_def)

lemma fill_from_spec:
  fixes disks :: "nat \<Rightarrow> bool \<Rightarrow> nat \<Rightarrow> io" and answers :: "nat \<Rightarrow> launch_answer"
  assumes "open_ok n" "\<not> nc_completed n" "is = [nc_next n..<hosts_of n]"
  defines "r \<equiv> fill_from disks answers (bound_of n) n is"
  shows "open_ok r \<and> nsame n r \<and> no_slot r \<and> (is \<noteq> [] \<and> nc_active n < bound_of n \<and> \<not> nc_cancelling n \<longrightarrow> 0 < nc_active r) \<and>
    nc_active n \<le> nc_active r"
  using assms(1-3) unfolding r_def
proof (induction "is" arbitrary: n)
  case Nil
  have "nc_next n \<le> hosts_of n" using ninv_shape [of "{}" "{}" n] Nil(1) by (simp add: open_ok_def nc_shape_def)
  moreover have "hosts_of n \<le> nc_next n" using Nil(3) by (intro leI notI) (simp add: upt_conv_Cons)
  ultimately have "nc_next n = hosts_of n" by simp
  then show ?case using Nil nsame_refl by (simp add: no_slot_def)
next
  case (Cons i "is")
  have i: "i = nc_next n" "i < hosts_of n" and tl: "is = [i + 1..<hosts_of n]"
    using Cons.prems(3) [symmetric] by (auto simp: upt_eq_Cons_conv)
  show ?case
  proof (cases "nc_active n < bound_of n \<and> \<not> nc_cancelling n")
    case False
    then have "no_slot n" by (auto simp: no_slot_def)
    then show ?thesis using False Cons.prems(1) nsame_refl by (auto simp: not_less)
  next
    case True
    let ?n = "nc_launch disks answers (n\<lparr>nc_next := i + 1\<rparr>) i"
    have l: "open_ok ?n" "nsame n ?n" "nc_next ?n = i + 1" "nc_active ?n = nc_active n + 1"
      using launch_spec [OF Cons.prems(1) i _ _ Cons.prems(2), of disks answers] True by blast+
    have p: "\<not> nc_completed ?n" "is = [nc_next ?n..<hosts_of ?n]"
      using Cons.prems(2) l(2,3) tl nsame_hosts [OF l(2)] by (simp_all add: nsame_def)
    note ih = Cons.IH [OF l(1) p, unfolded nsame_bound [OF l(2)]]
    have "fill_from disks answers (bound_of n) n (i # is) = fill_from disks answers (bound_of n) ?n is" using True by simp
    then show ?thesis using ih nsame_trans [OF l(2)] l(4) by simp
  qed
qed

lemma open_ok_filling [simp]: "open_ok (n\<lparr>nc_filling := b\<rparr>) = open_ok n" "no_slot (n\<lparr>nc_filling := b\<rparr>) = no_slot n"
  "bound_of (n\<lparr>nc_filling := b\<rparr>) = bound_of n"
  by (simp_all add: open_ok_def linked_ok_def no_slot_def bound_of_def)

definition nstay :: "nc_state \<Rightarrow> nc_state \<Rightarrow> bool" where
  "nstay n n' \<longleftrightarrow> map c_target (nc_conns n') = map c_target (nc_conns n) \<and> nc_started n' = nc_started n \<and> nc_concurrency n' = nc_concurrency n"

lemma nstay_refl: "nstay n n" and nstay_trans: "nstay n n' \<Longrightarrow> nstay n' n'' \<Longrightarrow> nstay n n''"
  by (simp_all add: nstay_def)

lemma nsame_stay: "nsame n n' \<Longrightarrow> nstay n n'"
  by (simp add: nsame_def nstay_def)

lemma fillSlots_spec:
  fixes disks :: "nat \<Rightarrow> bool \<Rightarrow> nat \<Rightarrow> io" and answers :: "nat \<Rightarrow> launch_answer"
  assumes "open_ok n" "\<not> nc_completed n" "\<not> nc_cancelling n" "\<not> nc_filling n"
  defines "n' \<equiv> nc_fillSlots disks answers n"
  shows "open_ok n' \<and> nsame n n' \<and> no_slot n' \<and> (nc_next n < hosts_of n \<and> nc_active n < bound_of n \<longrightarrow> 0 < nc_active n')"
proof -
  let ?m = "n\<lparr>nc_filling := True\<rparr>" and ?r = "fill_from disks answers (bound_of n) (n\<lparr>nc_filling := True\<rparr>) [nc_next n..<hosts_of n]"
  have r: "open_ok ?r" "nsame ?m ?r" "no_slot ?r" "nc_next n < hosts_of n \<and> nc_active n < bound_of n \<longrightarrow> 0 < nc_active ?r"
    using fill_from_spec [of ?m "[nc_next n..<hosts_of n]" disks answers] assms(1-3) by auto
  have e: "n' = ?r\<lparr>nc_filling := False\<rparr>" using assms(2-4) by (simp add: n'_def nc_fillSlots_def Let_def bound_of_def)
  have "nsame n n'" using r(2) assms(4) unfolding e nsame_def by simp
  then show ?thesis using r(1,3,4) unfolding e by simp
qed

subsection \<open>Between events\<close>

definition nrest :: "nc_state \<Rightarrow> bool" where
  "nrest n \<longleftrightarrow> open_ok n \<and> no_slot n \<and> \<not> nc_filling n \<and> (nc_completed n \<longleftrightarrow> nc_remaining n = 0 \<and> nc_active n = 0) \<and>
     nc_reports n = (if nc_completed n then [map c_result (nc_conns n)] else [])"

lemma nrest_output [simp]: "nrest (n\<lparr>nc_output := h\<rparr>) = nrest n" "nstay m (n\<lparr>nc_output := h\<rparr>) = nstay m n"
proof -
  have "ninv {} {} (n\<lparr>nc_output := h\<rparr>) = ninv {} {} n" by (rule ninv_cong) simp_all
  then show "nrest (n\<lparr>nc_output := h\<rparr>) = nrest n"
    by (simp add: nrest_def open_ok_def linked_ok_def no_slot_def bound_of_def)
  show "nstay m (n\<lparr>nc_output := h\<rparr>) = nstay m n" by (simp add: nstay_def)
qed

lemma waiting_active:
  assumes n: "nrest n" and c: "\<not> nc_completed n"
  shows "0 < nc_active n"
proof (rule ccontr)
  assume "\<not> 0 < nc_active n"
  then have a: "nc_active n = 0" by simp
  have v: "ninv {} {} n" and m: "nc_cancelling n \<longrightarrow> nc_remaining n = 0" and s: "no_slot n" using n by (simp_all add: nrest_def open_ok_def)
  have r: "nc_remaining n \<noteq> 0" using n c a by (simp add: nrest_def)
  have "\<not> (\<forall>i < hosts_of n. c_done (conn n i))" using all_done_none [OF v] r by (rule contrapos_nn [rotated])
  then obtain i where i: "i < hosts_of n" "\<not> c_done (conn n i)" by blast
  have "\<not> c_active (conn n i)" using active_positive [OF v i(1)] a by auto
  then have "nc_next n \<le> i" using ninvD [OF v i(1)] i(2) unfolding conn_ok_def by (meson not_less)
  then have "bound_of n \<le> nc_active n" using s m r i(1) by (auto simp: no_slot_def)
  moreover have "0 < bound_of n" using ninv_shape [OF v] by (simp add: nc_shape_def bound_of_def)
  ultimately show False using a by simp
qed

lemma active_uncompleted: "nrest n \<Longrightarrow> 0 < nc_active n \<Longrightarrow> \<not> nc_completed n"
  by (auto simp: nrest_def)

lemma linked_live:
  assumes n: "nrest n" and i: "i < hosts_of n" "c_linked (conn n i)"
  shows "0 < nc_active n" "\<not> nc_completed n" "i < nc_next n"
proof -
  have v: "ninv {} {} n" using n by (simp add: nrest_def open_ok_def)
  have a: "c_active (conn n i)" using ninvD [OF v i(1)] i(2) unfolding conn_ok_def by blast
  then show "0 < nc_active n" using active_positive [OF v i(1)] by simp
  then show "\<not> nc_completed n" using active_uncompleted [OF n] by simp
  show "i < nc_next n" using ninvD [OF v i(1)] a unfolding conn_ok_def by (meson not_less)
qed

text \<open>A step that keeps the connections' flags.\<close>

lemma kept_rest:
  assumes n: "nrest n" and a: "0 < nc_active n" and k: "nkeeps n n'" and v: "ninv {} {} n'" "linked_ok n'"
    and c: "nc_cancelling n' \<longrightarrow> nc_cancelling n \<or> nc_remaining n' = 0" "nc_remaining n = 0 \<longrightarrow> nc_remaining n' = 0"
  shows "nrest n' \<and> nstay n n' \<and> nc_reports n' = nc_reports n"
proof -
  have o: "open_ok n'" using n v c by (auto simp: open_ok_def nrest_def)
  have "bound_of n' = bound_of n" by (rule nsame_bound [OF nkeeps_same [OF k]])
  then have "no_slot n'" using n nkeepsD(1,2,8) [OF k] nkeeps_hosts [OF k] unfolding nrest_def no_slot_def by auto
  moreover have "\<not> nc_completed n" using active_uncompleted [OF n a] .
  ultimately show ?thesis using n a o nkeepsD(1,3,4,5) [OF k] nsame_stay [OF nkeeps_same [OF k]] by (simp add: nrest_def)
qed

text \<open>A connection changes only in what it captured or called.\<close>

lemma harmless_rest:
  assumes n: "nrest n" and i: "i < hosts_of n" "c_linked (conn n i)"
    and c: "c_done c = c_done (conn n i)" "c_active c = c_active (conn n i)" "c_linked c = c_linked (conn n i)" "c_target c = c_target (conn n i)"
      "hr_host (c_result c) = hr_host (c_result (conn n i))"
  shows "nrest (set_conn n i c) \<and> nstay n (set_conn n i c) \<and> nc_reports (set_conn n i c) = nc_reports n"
proof (rule kept_rest [OF n linked_live(1) [OF n i]])
  have v: "ninv {} {} n" "linked_ok n" using n by (simp_all add: nrest_def open_ok_def)
  show "nkeeps n (set_conn n i c)" by (rule nkeeps_set_conn) (use c in simp_all)
  show "ninv {} {} (set_conn n i c)"
  proof (rule ninv_update [OF v(1) i(1), of _ c])
    show "nc_conns (set_conn n i c) = (nc_conns n)[i := c]" by (simp add: set_conn_def)
    show "conn_ok {} (nc_next (set_conn n i c)) (nc_cancelling (set_conn n i c)) (set (nc_retiring (set_conn n i c))) i c"
      using ninvD [OF v(1) i(1)] unfolding conn_ok_def set_conn_fields c .
    show "nc_shape (set_conn n i c)" using ninv_shape [OF v(1)] by (simp add: nc_shape_def)
  qed (use c in simp_all)
  show "linked_ok (set_conn n i c)" using v(2) c unfolding linked_ok_def by (metis conn_set_conn set_conn_fields(1))
qed (use n in \<open>simp_all add: nrest_def open_ok_def\<close>)

text \<open>A connection finishes.\<close>

lemma finish_rest:
  fixes disks :: "nat \<Rightarrow> bool \<Rightarrow> nat \<Rightarrow> io"
  assumes n: "nrest n" and i: "i < hosts_of n" "c_linked (conn n i)" "\<not> c_done (conn n i)"
    and c: "c_done c" "c_active c = c_active (conn n i)" "c_linked c = c_linked (conn n i)" "c_target c = c_target (conn n i)"
      "hr_host (c_result c) = hr_host (c_result (conn n i))"
  defines "n' \<equiv> onConnDone disks (set_conn n i c) i"
  shows "nrest n' \<and> nstay n n' \<and> nc_reports n' = nc_reports n"
proof -
  have v: "ninv {} {} n" "linked_ok n" using n by (simp_all add: nrest_def open_ok_def)
  note l = linked_live [OF n i(1,2)]
  have f: "ninv {} {} n'" "nkeeps n n'" "c_done (conn n' i)" "nc_cancelling n' \<longrightarrow> nc_cancelling n \<or> nc_remaining n' = 0"
    using finish_spec [OF v(1) i(1,3) _ l(1) c, of disks] l(3) unfolding n'_def by simp_all
  have r: "nc_remaining n \<noteq> 0" using undone_positive [OF v(1) i(1)] i(3) by simp
  have "linked_ok n'" using linked_ok_keeps [OF _ f(2,3)] v(2) by (simp add: linked_ok_def)
  then show ?thesis using kept_rest [OF n l(1) f(2,1)] f(4) r by simp
qed

lemma cancel_rest:
  fixes disks :: "nat \<Rightarrow> bool \<Rightarrow> nat \<Rightarrow> io" and reason :: string and kind :: CancelKind
  assumes n: "nrest n"
  defines "n' \<equiv> nc_cancel disks reason kind n"
  shows "nrest n' \<and> nstay n n' \<and> nc_reports n' = nc_reports n"
proof (cases "nc_completed n")
  case True
  then show ?thesis using n nstay_refl by (simp add: n'_def nc_cancel_def cancel_with_def)
next
  case False
  have a: "0 < nc_active n" by (rule waiting_active [OF n False])
  have v: "ninv {} {} n" "linked_ok n" using n by (simp_all add: nrest_def open_ok_def)
  have c: "ninv {} {} n'" "nkeeps n n'" "nc_remaining n' = 0" using cancel_spec [OF v(1) a, of disks reason kind] by (simp_all add: n'_def)
  have h: "hosts_of n' = hosts_of n" by (rule nkeeps_hosts [OF c(2)])
  have "linked_ok n'" unfolding linked_ok_def
  proof (intro allI impI)
    fix j assume j: "j < hosts_of n'" "c_active (conn n' j) \<and> \<not> c_done (conn n' j)"
    then show "c_linked (conn n' j)" using undone_positive [OF c(1) j(1)] c(3) by simp
  qed
  then show ?thesis using kept_rest [OF n a c(2,1)] c(3) by simp
qed

text \<open>A retire timer fires.\<close>

definition retired :: "nc_state \<Rightarrow> nat \<Rightarrow> nc_state" where
  "retired n i = (set_conn (n\<lparr>nc_retiring := removeAll i (nc_retiring n)\<rparr>) i ((conn n i)\<lparr>c_linked := False, c_active := False\<rparr>))
     \<lparr>nc_active := nc_active n - 1\<rparr>"

lemma retired_fields [simp]:
  "nc_completed (retired n i) = nc_completed n" "nc_cancelling (retired n i) = nc_cancelling n" "nc_filling (retired n i) = nc_filling n"
  "nc_remaining (retired n i) = nc_remaining n" "nc_reports (retired n i) = nc_reports n" "hosts_of (retired n i) = hosts_of n"
  "nc_next (retired n i) = nc_next n" "nc_retiring (retired n i) = removeAll i (nc_retiring n)" "bound_of (retired n i) = bound_of n"
  by (simp_all add: retired_def bound_of_def)

lemma retired_open:
  assumes n: "nrest n" and i: "i \<in> set (nc_retiring n)"
  shows "open_ok (retired n i) \<and> nstay n (retired n i) \<and> i < hosts_of n \<and> c_active (conn n i) \<and> 0 < nc_active n"
proof -
  have v: "ninv {} {} n" "linked_ok n" using n by (simp_all add: nrest_def open_ok_def)
  have h: "i < hosts_of n" using ninv_shape [OF v(1)] i by (auto simp: nc_shape_def)
  have ok: "c_done (conn n i)" "c_active (conn n i)" "hr_host (c_result (conn n i)) = nt_host (c_target (conn n i))" "\<not> nc_next n \<le> i"
    using ninvD [OF v(1) h] i unfolding conn_ok_def by blast+
  have a: "0 < nc_active n" by (rule active_positive [OF v(1) h ok(2)])
  let ?c = "(conn n i)\<lparr>c_linked := False, c_active := False\<rparr>"
  have nv: "ninv {} {} (retired n i)"
  proof (rule ninv_update [OF v(1) h, of _ ?c])
    show "nc_conns (retired n i) = (nc_conns n)[i := ?c]" by (simp add: retired_def set_conn_def)
    show "conn_ok {} (nc_next (retired n i)) (nc_cancelling (retired n i)) (set (nc_retiring (retired n i))) i ?c"
      using ok unfolding conn_ok_def by simp
    show "nc_shape (retired n i)" using ninv_shape [OF v(1)] by (auto simp: nc_shape_def) (auto simp: retired_def distinct_removeAll)
  qed (use ok a in \<open>auto simp: retired_def\<close>)
  have "linked_ok (retired n i)" using v(2) unfolding linked_ok_def retired_def by simp
  moreover have "map c_target (nc_conns (retired n i)) = map c_target (nc_conns n)"
    using h by (simp add: retired_def set_conn_def conn_def map_update list_update_same_conv)
  then have "nstay n (retired n i)" by (simp add: nstay_def) (simp add: retired_def)
  ultimately show ?thesis using nv n h ok(2) a by (simp add: open_ok_def nrest_def)
qed

lemma complete_rest:
  assumes "open_ok n" "no_slot n" "\<not> nc_filling n" "\<not> nc_completed n" "nc_reports n = []"
  shows "nrest (completeIfReady n) \<and> nstay n (completeIfReady n)"
proof (cases "nc_remaining n \<noteq> 0 \<or> nc_active n \<noteq> 0")
  case True
  then show ?thesis using assms nstay_refl by (auto simp: completeIfReady_def nrest_def)
next
  case False
  let ?n = "n\<lparr>nc_completed := True, nc_reports := nc_reports n @ [map c_result (nc_conns n)]\<rparr>"
  have e: "completeIfReady n = ?n" using False assms(4) by (simp add: completeIfReady_def)
  have "ninv {} {} ?n" using assms(1) False unfolding open_ok_def ninv_def by (simp add: nc_shape_def bound_of_def del: sum_of_bool_eq)
  moreover have "linked_ok ?n" using assms(1) by (simp add: open_ok_def linked_ok_def)
  moreover have "no_slot ?n" using assms(2) by (auto simp: no_slot_def bound_of_def)
  ultimately show ?thesis using assms False unfolding e by (simp add: nrest_def open_ok_def nstay_def)
qed

lemma retire_rest:
  fixes disks :: "nat \<Rightarrow> bool \<Rightarrow> nat \<Rightarrow> io" and answers :: "nat \<Rightarrow> launch_answer"
  assumes n: "nrest n" and i: "i \<in> set (nc_retiring n)"
  defines "n' \<equiv> nc_retire disks answers (n\<lparr>nc_retiring := removeAll i (nc_retiring n)\<rparr>) i"
  shows "nrest n' \<and> nstay n n' \<and> (nc_cancelling n \<longrightarrow> nc_cancelling n' \<and> nc_retiring n' = removeAll i (nc_retiring n))"
proof -
  note o = retired_open [OF n i]
  let ?r = "retired n i"
  let ?n2 = "if nc_cancelling ?r then ?r else nc_fillSlots disks answers ?r"
  have e: "n' = completeIfReady ?n2" using o by (simp add: n'_def nc_retire_def Let_def retired_def)
  have nc: "\<not> nc_completed n" "\<not> nc_filling n" "nc_reports n = []" using n active_uncompleted [OF n] o by (simp_all add: nrest_def)
  have p: "open_ok ?n2 \<and> nsame ?r ?n2 \<and> no_slot ?n2"
  proof (cases "nc_cancelling n")
    case True
    then show ?thesis using o nsame_refl by (simp add: no_slot_def)
  next
    case False
    then show ?thesis using fillSlots_spec [of ?r disks answers] o nc by simp
  qed
  then have s: "\<not> nc_completed ?n2" "\<not> nc_filling ?n2" "nc_reports ?n2 = []" using nc by (simp_all add: nsame_def)
  have c: "nrest n'" "nstay ?n2 n'" using complete_rest [OF _ _ s(2,1,3)] p unfolding e by blast+
  have "nstay n n'" using nstay_trans [OF _ nstay_trans [OF nsame_stay c(2)]] o p by blast
  moreover have "nc_cancelling n \<Longrightarrow> nc_cancelling n' \<and> nc_retiring n' = removeAll i (nc_retiring n)" unfolding e by (simp add: completeIfReady_def)
  ultimately show ?thesis using c(1) by blast
qed

lemma capture_fields [simp]:
  "c_done (nc_capture disk cap pol c ch data) = c_done c" "c_active (nc_capture disk cap pol c ch data) = c_active c"
  "c_linked (nc_capture disk cap pol c ch data) = c_linked c" "c_target (nc_capture disk cap pol c ch data) = c_target c"
  "hr_host (c_result (nc_capture disk cap pol c ch data)) = hr_host (c_result c)"
  by (simp_all add: nc_capture_def Let_def split: prod.splits)

text \<open>Only a retire timer calls the completion callback.\<close>

lemma nc_step_rest:
  fixes disks :: "nat \<Rightarrow> bool \<Rightarrow> nat \<Rightarrow> io" and answers :: "nat \<Rightarrow> launch_answer" and ev :: nc_event
  assumes n: "nrest n"
  defines "n' \<equiv> nc_step disks answers n ev"
  shows "nrest n' \<and> nstay n n' \<and> (nc_reports n' = nc_reports n \<or> (\<exists>i. ev = RetireFires i))"
proof (cases "n' = n")
  case True
  then show ?thesis using n nstay_refl by simp
next
  case moved: False
  show ?thesis
  proof (cases ev)
    case (ConnReady i)
    then have l: "i < hosts_of n" "c_linked (conn n i)" using moved by (auto simp: n'_def nc_step_def split: if_splits)
    then have "n' = (if c_done (conn n i) then n else set_conn n i ((conn n i)\<lparr>c_calls := c_calls (conn n i) @ [Opens \<lparr>argv = nc_command n, cwd = []\<rparr>]\<rparr>))"
      using ConnReady by (simp add: n'_def nc_step_def nc_onReady_def)
    then show ?thesis using moved harmless_rest [OF n l, of "(conn n i)\<lparr>c_calls := c_calls (conn n i) @ [Opens \<lparr>argv = nc_command n, cwd = []\<rparr>]\<rparr>"]
      by (auto split: if_splits)
  next
    case (ConnData i ch data)
    then have l: "i < hosts_of n" "c_linked (conn n i)" using moved by (auto simp: n'_def nc_step_def split: if_splits)
    let ?c = "(conn n i)\<lparr>c_calls := c_calls (conn n i) @ [Consumes (length data)]\<rparr>"
    let ?d = "if c_done ?c then ?c else nc_capture (disks i (ch \<noteq> Stderr)) (if nc_policy n = Block then 0 else nc_ringBytes n) (nc_policy n) ?c ch data"
    have "n' = (set_conn n i ?d)\<lparr>nc_output := (if c_done ?c then nc_output n else nc_output n @ [(hr_host (c_result ?c), ch, data)])\<rparr>"
      using ConnData l by (simp add: n'_def nc_step_def nc_onData_def Let_def set_conn_def)
    then show ?thesis using harmless_rest [OF n l, of ?d] by simp
  next
    case (ConnExit i status)
    then have l: "i < hosts_of n" "c_linked (conn n i)" "\<not> c_done (conn n i)"
      using moved by (auto simp: n'_def nc_step_def nc_onExit_def split: if_splits)
    let ?c = "settle disks i ((conn n i)\<lparr>c_result := (c_result (conn n i))\<lparr>hr_ok := True, hr_exitCode := (if ws_exited status then ws_code status else -1)\<rparr>\<rparr>)"
    have "n' = onConnDone disks (set_conn n i ?c) i" using ConnExit l by (simp add: n'_def nc_step_def nc_onExit_def finish_with_def set_conn_twice)
    then show ?thesis using finish_rest [OF n l, of ?c disks] by simp
  next
    case (ConnError i m)
    then have l: "i < hosts_of n" "c_linked (conn n i)" "\<not> c_done (conn n i)"
      using moved by (auto simp: n'_def nc_step_def conn_fail_def fail_with_def finish_with_def Let_def split: if_splits)
    have "n' = onConnDone disks (set_conn n i (failed_conn disks m OtherCause i (conn n i))) i"
      using ConnError l by (simp add: n'_def nc_step_def conn_fail_def fail_with_undone)
    then show ?thesis using finish_rest [OF n l, of "failed_conn disks m OtherCause i (conn n i)" disks] by simp
  next
    case (RetireFires i)
    then have "i \<in> set (nc_retiring n)" using moved by (auto simp: n'_def nc_step_def split: if_splits)
    then show ?thesis using retire_rest [OF n, of i disks answers] RetireFires by (simp add: n'_def nc_step_def)
  next
    case (CancelRun reason kind)
    then show ?thesis using cancel_rest [OF n, of disks reason kind] by (simp add: n'_def nc_step_def)
  qed
qed

subsection \<open>Runs\<close>

definition nc_run :: "(nat \<Rightarrow> bool \<Rightarrow> nat \<Rightarrow> io) \<Rightarrow> (nat \<Rightarrow> launch_answer) \<Rightarrow> nc_state \<Rightarrow> nc_event list \<Rightarrow> nc_state" where
  "nc_run disks answers = foldl (nc_step disks answers)"

lemma nc_run_rest: "nrest n \<Longrightarrow> nrest (nc_run disks answers n evs) \<and> nstay n (nc_run disks answers n evs)"
proof (induction evs arbitrary: n)
  case Nil
  then show ?case using nstay_refl by (simp add: nc_run_def)
next
  case (Cons ev evs)
  have s: "nrest (nc_step disks answers n ev)" "nstay n (nc_step disks answers n ev)"
    using nc_step_rest [OF Cons.prems, of disks answers ev] by blast+
  from Cons.IH [OF s(1)] show ?case using nstay_trans [OF s(2)] by (simp add: nc_run_def)
qed

lemma start_rest:
  assumes s: "nc_start disks answers NativeController targets command opts = (n, Inr ())" and t: "targets \<noteq> []"
  shows "nrest n \<and> map c_target (nc_conns n) = targets \<and> bound_of n = (if fst opts = 0 then length targets else fst opts) \<and>
    nc_reports n = []"
proof -
  obtain k pol ring fast where o: "opts = (k, pol, ring, fast)" by (cases opts)
  let ?m = "NativeController\<lparr>nc_started := True, nc_command := command, nc_concurrency := k, nc_policy := pol, nc_ringBytes := ring,
                   nc_failFast := fast, nc_next := 0, nc_active := 0, nc_remaining := length targets, nc_filling := False,
                   nc_cancelling := False, nc_completed := False, nc_conns := map new_conn targets\<rparr>"
  have e: "n = nc_fillSlots disks answers ?m"
    using s t by (simp add: nc_start_def o NativeController_def split: if_splits)
  have c: "conn ?m i = new_conn (targets ! i)" if "i < length targets" for i using that by (simp add: conn_def)
  have m: "hosts_of ?m = length targets" by simp
  have "nc_shape ?m" using t by (simp add: nc_shape_def NativeController_def)
  moreover have "(\<Sum>i<length targets. of_bool (\<not> c_done (conn ?m i) \<or> i \<in> {})) = (\<Sum>i<length targets. 1::nat)"
    by (rule sum.cong) (use c in \<open>auto simp: new_conn_def\<close>)
  moreover have "(\<Sum>i<length targets. of_bool (c_active (conn ?m i))) = (\<Sum>i<length targets. 0::nat)"
    by (rule sum.cong) (use c in \<open>auto simp: new_conn_def\<close>)
  moreover have "conn_ok {} 0 False {} i (conn ?m i)" if "i < length targets" for i
    using c [OF that] by (simp add: conn_ok_def new_conn_def no_result_def)
  ultimately have v: "ninv {} {} ?m" unfolding ninv_def m by (simp add: NativeController_def)
  have "linked_ok ?m" unfolding linked_ok_def m using c by (simp add: new_conn_def)
  then have o0: "open_ok ?m" using v by (simp add: open_ok_def)
  have f: "open_ok n" "nsame ?m n" "no_slot n" using fillSlots_spec [OF o0, of disks answers] unfolding e by simp_all
  have b: "bound_of ?m = (if k = 0 then length targets else k)" "0 < bound_of ?m" using t by (simp_all add: bound_of_def)
  have ts: "map c_target (nc_conns n) = targets" using f(2) by (simp add: nsame_def new_conn_def comp_def)
  have "0 < nc_active n" using fillSlots_spec [OF o0, of disks answers] b(2) t unfolding e by (simp add: bound_of_def)
  moreover have "nc_completed n = False" "nc_filling n = False" "nc_reports n = []" using f(2) by (simp_all add: nsame_def NativeController_def)
  ultimately show ?thesis using f(1,3) ts nsame_bound [OF f(2)] b(1) o by (simp add: nrest_def)
qed

text \<open>The facts about any reached state from which the properties follow.\<close>

lemma hosts_in_order:
  assumes "nrest n"
  shows "map hr_host (map c_result (nc_conns n)) = map nt_host (map c_target (nc_conns n))"
proof -
  have v: "ninv {} {} n" using assms by (simp add: nrest_def open_ok_def)
  have "hr_host (c_result c) = nt_host (c_target c)" if "c \<in> set (nc_conns n)" for c
    using that ninvD [OF v] unfolding in_set_conv_nth conn_ok_def conn_def by blast
  then show ?thesis by simp
qed

lemma report_timer:
  assumes r: "nrest n" and c: "nc_reports (nc_step disks answers n ev) \<noteq> nc_reports n"
  shows "\<exists>i. ev = RetireFires i \<and> i \<in> set (nc_retiring n)"
proof -
  obtain i where i: "ev = RetireFires i" using nc_step_rest [OF r, of disks answers ev] c by blast
  then show ?thesis using c by (auto simp: nc_step_def split: if_splits)
qed

lemma someone_waits:
  assumes r: "nrest n" and e: "nc_reports n = []"
  shows "\<exists>i < hosts_of n. c_linked (conn n i) \<and> \<not> c_done (conn n i) \<or> i \<in> set (nc_retiring n)"
proof -
  have v: "ninv {} {} n" "linked_ok n" using r by (simp_all add: nrest_def open_ok_def)
  have "\<not> nc_completed n" using r e by (auto simp: nrest_def)
  then have "\<not> nc_active n = 0" using waiting_active [OF r] by simp
  moreover have "nc_active n = 0" if none: "\<forall>i < hosts_of n. \<not> c_active (conn n i)"
  proof -
    have "{..<hosts_of n} \<inter> {i. c_active (conn n i)} = {}" using none by auto
    then show ?thesis using v(1) by (simp add: ninv_def)
  qed
  ultimately have "\<not> (\<forall>i < hosts_of n. \<not> c_active (conn n i))" by (rule contrapos_nn)
  then obtain i where i: "i < hosts_of n" "c_active (conn n i)" by blast
  then have "c_linked (conn n i) \<and> \<not> c_done (conn n i) \<or> i \<in> set (nc_retiring n)"
    using v(2) ninvD [OF v(1) i(1)] unfolding linked_ok_def conn_ok_def by blast
  then show ?thesis using i(1) by blast
qed

text \<open>A cancelled run is over when the pending retire timers have fired.\<close>

lemma retire_all:
  fixes disks :: "nat \<Rightarrow> bool \<Rightarrow> nat \<Rightarrow> io" and answers :: "nat \<Rightarrow> launch_answer"
  assumes "nrest n" "nc_cancelling n" "distinct is" "set is \<subseteq> set (nc_retiring n)"
  shows "nrest (nc_run disks answers n (map RetireFires is)) \<and> nc_cancelling (nc_run disks answers n (map RetireFires is)) \<and>
    set (nc_retiring (nc_run disks answers n (map RetireFires is))) = set (nc_retiring n) - set is"
  using assms
proof (induction "is" arbitrary: n)
  case Nil
  then show ?case by (simp add: nc_run_def)
next
  case (Cons i "is")
  let ?n = "nc_step disks answers n (RetireFires i)"
  have i: "i \<in> set (nc_retiring n)" using Cons.prems(4) by simp
  have s: "nrest ?n" "nc_cancelling ?n" "nc_retiring ?n = removeAll i (nc_retiring n)"
    using retire_rest [OF Cons.prems(1) i, of disks answers] i Cons.prems(2) by (simp_all add: nc_step_def)
  have "distinct is" "set is \<subseteq> set (nc_retiring ?n)" using Cons.prems(3,4) s(3) by auto
  from Cons.IH [OF s(1,2) this] show ?case using s(3) by (auto simp: nc_run_def)
qed

lemma cancelling_done:
  fixes disks :: "nat \<Rightarrow> bool \<Rightarrow> nat \<Rightarrow> io" and answers :: "nat \<Rightarrow> launch_answer"
  assumes n: "nrest n" "nc_cancelling n"
  defines "n' \<equiv> nc_run disks answers n (map RetireFires (nc_retiring n))"
  shows "nrest n' \<and> nstay n n' \<and> nc_completed n'"
proof -
  have r: "nrest n'" "nstay n n'" using nc_run_rest [OF n(1), of disks answers] by (simp_all add: n'_def)
  have "ninv {} {} n" using n(1) by (simp add: nrest_def open_ok_def)
  then have d: "distinct (nc_retiring n)" using ninv_shape by (fastforce simp: nc_shape_def)
  have ra: "nc_cancelling n'" "set (nc_retiring n') = {}"
    using retire_all [OF n(1,2) d subset_refl, of disks answers] by (simp_all add: n'_def)
  have v: "ninv {} {} n'" "nc_remaining n' = 0" using r(1) ra(1) by (simp_all add: nrest_def open_ok_def)
  have "\<not> c_active (conn n' i)" if i: "i < hosts_of n'" for i
  proof
    assume a: "c_active (conn n' i)"
    have "c_done (conn n' i)" using undone_positive [OF v(1) i] v(2) by auto
    then show False using ninvD [OF v(1) i] a ra(2) by (auto simp: conn_ok_def)
  qed
  then have "{..<hosts_of n'} \<inter> {i. c_active (conn n' i)} = {}" by auto
  then have "nc_active n' = 0" using v(1) by (simp add: ninv_def)
  then show ?thesis using r v(2) by (simp add: nrest_def)
qed

text \<open>After completion nothing is left that could happen.\<close>

lemma completed_idle:
  assumes n: "nrest n" "nc_completed n"
  shows "nc_retiring n = []" "nc_step disks answers n ev = n"
proof -
  have v: "ninv {} {} n" "nc_active n = 0" using n by (simp_all add: nrest_def open_ok_def)
  have "i \<notin> set (nc_retiring n)" for i
  proof
    assume i: "i \<in> set (nc_retiring n)"
    then have h: "i < hosts_of n" using ninv_shape [OF v(1)] by (auto simp: nc_shape_def)
    then have "c_active (conn n i)" using ninvD [OF v(1) h] i unfolding conn_ok_def by blast
    then show False using active_positive [OF v(1) h] v(2) by simp
  qed
  then show r: "nc_retiring n = []" by (cases "nc_retiring n") auto
  have "\<not> c_linked (conn n i)" if "i < hosts_of n" for i using linked_live(2) [OF n(1) that] n(2) by auto
  then show "nc_step disks answers n ev = n"
    using r n(2) by (cases ev) (auto simp: nc_step_def nc_cancel_def cancel_with_def)
qed

lemma cancel_sets:
  fixes disks :: "nat \<Rightarrow> bool \<Rightarrow> nat \<Rightarrow> io" and answers :: "nat \<Rightarrow> launch_answer"
  assumes n: "nrest n" "\<not> nc_completed n"
  shows "nc_cancelling (nc_step disks answers n (CancelRun reason kind))"
proof -
  have "ninv {} {} n" using n(1) by (simp add: nrest_def open_ok_def)
  then show ?thesis using cancel_spec [OF _ waiting_active [OF n], of "{}" disks reason kind] by (simp add: nc_step_def)
qed

text \<open>
  C17: whatever the connections of a native run report, and however often it is cancelled, the completion callback is called at
  most once, exactly when every host is finished and every connection retired, with one result per host in the order of the
  targets; the connections in use are counted and within the limit.  The callback, which may destroy the controller, is only
  called from a retire timer, never inside a connection's own callback or a cancellation.
\<close>

theorem native_completes_once:
  assumes "nc_start disks answers NativeController targets command opts = (n0, Inr ())" "targets \<noteq> []"
  shows "let n = nc_run disks answers n0 evs in nc_reports n = (if nc_remaining n = 0 \<and> nc_active n = 0 then [map c_result (nc_conns n)] else []) \<and>
    map (hr_host \<circ> c_result) (nc_conns n) = map nt_host targets \<and>
    nc_remaining n = length (filter (\<lambda>c. \<not> c_done c) (nc_conns n)) \<and>
    nc_active n = length (filter c_active (nc_conns n)) \<and> nc_active n \<le> (if fst opts = 0 then length targets else fst opts) \<and>
    (nc_reports (nc_step disks answers n ev) \<noteq> nc_reports n \<longrightarrow> (\<exists>i. ev = RetireFires i \<and> i \<in> set (nc_retiring n)))"
proof -
  obtain n where n_def: "n = nc_run disks answers n0 evs" by blast
  have s: "nrest n0" "map c_target (nc_conns n0) = targets" "bound_of n0 = (if fst opts = 0 then length targets else fst opts)"
    using start_rest [OF assms(1,2)] by simp_all
  have r: "nrest n" "nstay n0 n" using nc_run_rest [OF s(1), of disks answers evs] by (simp_all add: n_def)
  have v: "ninv {} {} n" using r(1) by (simp add: nrest_def open_ok_def)
  have "map c_target (nc_conns n) = targets" using r(2) s(2) by (simp add: nstay_def)
  then have h: "map (hr_host \<circ> c_result) (nc_conns n) = map nt_host targets" using hosts_in_order [OF r(1)] by simp
  have card: "(\<Sum>i<length xs. of_bool (P (xs ! i))) = length (filter P xs)" for P and xs :: "nc_conn list"
    by (simp add: length_filter_conv_card Int_def)
  have "nc_remaining n = length (filter (\<lambda>c. \<not> c_done c) (nc_conns n))" "nc_active n = length (filter c_active (nc_conns n))"
    using v unfolding ninv_def conn_def using card [where P = "\<lambda>c. \<not> c_done c"] card [where P = c_active] by simp_all
  moreover have "bound_of n = bound_of n0"
    using r(2) nstay_def by (metis bound_of_def length_map)
  then have "nc_active n \<le> (if fst opts = 0 then length targets else fst opts)" using ninv_shape [OF v] s(3) by (simp add: nc_shape_def)
  ultimately show ?thesis using r(1) h report_timer [OF r(1)] unfolding Let_def n_def [symmetric] by (simp add: nrest_def)
qed

definition two_targets :: "nc_target list" where
  "two_targets = [\<lparr>nt_host = ''a'', nt_port = 7, nt_expectedSan = []\<rparr>, \<lparr>nt_host = ''b'', nt_port = 7, nt_expectedSan = []\<rparr>]"

definition steady_disks :: "nat \<Rightarrow> bool \<Rightarrow> nat \<Rightarrow> io" where
  "steady_disks i b = good_disk"

definition all_start :: "nat \<Rightarrow> launch_answer" where
  "all_start i = Starts None"

definition begun :: nc_state where
  "begun = fst (nc_start steady_disks all_start NativeController two_targets [''id''] (1, Block, 0, True))"

lemma begun_start: "nc_start steady_disks all_start NativeController two_targets [''id''] (1, Block, 0, True) = (begun, Inr ())"
proof -
  have "snd (nc_start steady_disks all_start NativeController two_targets [''id''] (1, Block, 0, True)) = Inr ()" by code_simp
  then show ?thesis unfolding begun_def by (metis prod.collapse)
qed

theorem native_completes_once_witness:
  "map (\<lambda>rs. map hr_host rs) (nc_reports (nc_run steady_disks all_start begun [ConnExit 0 \<lparr>ws_exited = True, ws_code = 2\<rparr>, RetireFires 0])) = [[''a'', ''b'']]"
proof -
  let ?n = "nc_run steady_disks all_start begun [ConnExit 0 \<lparr>ws_exited = True, ws_code = 2\<rparr>, RetireFires 0]"
  have "nc_remaining ?n = 0" "nc_active ?n = 0" by code_simp+
  moreover have "two_targets \<noteq> []" by (simp add: two_targets_def)
  ultimately show ?thesis
    using native_completes_once [OF begun_start, of "[ConnExit 0 \<lparr>ws_exited = True, ws_code = 2\<rparr>, RetireFires 0]"]
    unfolding Let_def by (simp add: two_targets_def)
qed

text \<open>
  A cancellation ends a native run: once the retire timers pending after it have fired, every host has a result and the
  completion callback has been called, whatever the nodes do.
\<close>

theorem native_cancel_ends:
  assumes "nc_start disks answers NativeController targets command opts = (n0, Inr ())" "targets \<noteq> []"
  shows "let n = nc_step disks answers (nc_run disks answers n0 evs) (CancelRun reason kind);
      n' = nc_run disks answers n (map RetireFires (nc_retiring n))
    in \<exists>rs. nc_reports n' = [rs] \<and> map hr_host rs = map nt_host targets"
proof -
  obtain m where m_def: "m = nc_run disks answers n0 evs" by blast
  obtain n where n_def: "n = nc_step disks answers m (CancelRun reason kind)" by blast
  obtain n' where n'_def: "n' = nc_run disks answers n (map RetireFires (nc_retiring n))" by blast
  have m: "nrest m" "nstay n0 m" using nc_run_rest [of n0 disks answers evs] start_rest [OF assms] by (simp_all add: m_def)
  have n: "nrest n" "nstay m n" using nc_step_rest [OF m(1), of disks answers "CancelRun reason kind"] by (simp_all add: n_def)
  have r: "nrest n'" "nstay m n'" "nc_completed n'"
  proof -
    have "nrest n' \<and> nstay n n' \<and> nc_completed n'"
    proof (cases "nc_completed m")
      case True
      have "n = m" unfolding n_def by (rule completed_idle(2) [OF m(1) True])
      then show ?thesis using m(1) True completed_idle(1) [OF m(1) True] nstay_refl by (simp add: n'_def nc_run_def)
    next
      case False
      show ?thesis unfolding n'_def using cancelling_done [OF n(1)] cancel_sets [OF m(1) False, of disks answers reason kind] by (simp add: n_def)
    qed
    then show "nrest n'" "nstay m n'" "nc_completed n'" using nstay_trans [OF n(2)] by blast+
  qed
  have "map c_target (nc_conns n') = targets" using start_rest [OF assms] m(2) r(2) by (simp add: nstay_def)
  then have "map hr_host (map c_result (nc_conns n')) = map nt_host targets" using hosts_in_order [OF r(1)] by simp
  then show ?thesis using r(1,3) unfolding Let_def m_def [symmetric] n_def [symmetric] n'_def [symmetric] by (simp add: nrest_def)
qed

theorem native_cancel_ends_witness:
  "\<exists>rs. nc_reports (nc_run steady_disks all_start (nc_step steady_disks all_start begun (CancelRun ''cancelled'' OtherCause))
      (map RetireFires (nc_retiring (nc_step steady_disks all_start begun (CancelRun ''cancelled'' OtherCause))))) = [rs] \<and>
    map hr_host rs = map nt_host two_targets"
proof -
  have "two_targets \<noteq> []" by (simp add: two_targets_def)
  from native_cancel_ends [OF begun_start this, of "[]"] show ?thesis unfolding Let_def by (simp add: nc_run_def)
qed

text \<open>A session refuses a command with too many arguments without a trace, although \<open>start\<close> accepts it.\<close>

lemma invalid_request_unopened:
  assumes "1024 < length command" "hd command \<noteq> []"
  shows "s_open s \<lparr>argv = command, cwd = []\<rparr> = (s, [], 0)"
    "(\<forall>t \<in> set targets. nt_host t \<noteq> [] \<and> nt_port t \<noteq> 0) \<Longrightarrow> snd (nc_start disks answers NativeController targets command opts) = Inr ()"
proof -
  have "isl (validateOpenRequest \<lparr>argv = command, cwd = []\<rparr>)" using assms(1) by (auto simp: validateOpenRequest_def kMaxOpenArgc_def)
  then show "s_open s \<lparr>argv = command, cwd = []\<rparr> = (s, [], 0)" by (simp add: s_open_def)
  have "command \<noteq> []" using assms(1) by auto
  then show "snd (nc_start disks answers NativeController targets command opts) = Inr ()"
    if "\<forall>t \<in> set targets. nt_host t \<noteq> [] \<and> nt_port t \<noteq> 0"
    using that assms(2) by (cases opts) (auto simp: nc_start_def Let_def NativeController_def)
qed

end
