(* ===== verification/Native_Rollout.thy ===== *)
theory Native_Rollout
  imports Native_Runs Remote_Results
begin

text \<open>
  \<open>runNative\<close> (\<open>src/cli/run_command.cpp\<close>) from the first connection to the last report: a native run on all hosts, or on the
  canary hosts and then, if they succeeded, on the rest; live output through line framers; the interrupt and the deadline.
  The events are those of the two controllers, a signal and the deadline timer.  The disks and what connecting answers are
  arguments, for the first controller (\<^const>\<open>False\<close>) and the second (\<^const>\<open>True\<close>).
\<close>

subsection \<open>State\<close>

datatype StopCause = NoStop | StopTimeout | StopInterrupt

record native_world =
  nw_disks :: "bool \<Rightarrow> nat \<Rightarrow> bool \<Rightarrow> nat \<Rightarrow> io"
  nw_answers :: "bool \<Rightarrow> nat \<Rightarrow> launch_answer"
  nw_strerror :: "int \<Rightarrow> string"

record rollout =
  ro_command :: "string list"
  ro_options :: "nat \<times> OverflowPolicy \<times> nat \<times> bool"
  ro_live :: bool
  ro_timed :: bool
  ro_staged :: bool
  ro_restTargets :: "nc_target list"
  ro_first :: nc_state
  ro_rest :: "nc_state option"
  ro_combined :: "host_result list"
  ro_stop :: StopCause
  ro_results :: "host_result list option"
  ro_exitCode :: int
  ro_framers :: framers
  ro_events :: "sink_event list"

definition native_target :: "run_invocation \<Rightarrow> client_entry \<Rightarrow> nc_target" where
  "native_target iv c =
     \<lparr>nt_host = ce_host c,
      nt_port = nat (uint (word_of_int (if ce_nativePort c \<noteq> 0 then int (ce_nativePort c) else ri_nativePort iv) :: 16 word)),
      nt_expectedSan = expectedSan c\<rparr>"

subsection \<open>Output and results\<close>

text \<open>The output callback: a line framer per host and channel.\<close>

definition onOutput :: "bool \<Rightarrow> framers \<times> sink_event list \<Rightarrow> string \<times> channel \<times> string \<Rightarrow> framers \<times> sink_event list" where
  "onOutput live st out =
     (case (st, out) of ((fr, evs), (h, ch, bytes)) \<Rightarrow>
        if \<not> live then (fr, evs)
        else if ch = Stderr then
          let (f, ls) = lf_push (snd (fr h)) bytes in (fr(h := (fst (fr h), f)), evs @ map (Line h ToStderr) (map fst ls))
        else
          let (f, ls) = lf_push (fst (fr h)) bytes in (fr(h := (f, snd (fr h))), evs @ map (Line h ToStdout) (map fst ls)))"

text \<open>The calls a controller has made since it was in the state \<open>n\<close>.\<close>

definition absorb :: "nc_state \<Rightarrow> nc_state \<Rightarrow> rollout \<Rightarrow> rollout" where
  "absorb n n' ro =
     (let (fr, evs) = foldl (onOutput (ro_live ro)) (ro_framers ro, ro_events ro) (drop (length (nc_output n)) (nc_output n'))
      in ro\<lparr>ro_framers := fr, ro_events := evs\<rparr>)"

definition finishResults :: "rollout \<Rightarrow> host_result list \<Rightarrow> rollout" where
  "finishResults ro rs =
     (if ro_results ro \<noteq> None then ro
      else ro\<lparr>ro_results := Some rs, ro_exitCode := native_exit (ro_stop ro = StopInterrupt) rs,
        ro_events := ro_events ro @ finish_events (ro_live ro) (ro_framers ro) rs\<rparr>)"

definition cancellationResult :: "StopCause \<Rightarrow> string \<Rightarrow> bool \<Rightarrow> nc_target \<Rightarrow> host_result" where
  "cancellationResult stop m aborted t =
     (no_result (nt_host t))\<lparr>hr_error := m, hr_timedOut := (stop = StopTimeout), hr_cancelled := (stop = StopInterrupt),
        hr_aborted := (aborted \<and> stop = NoStop)\<rparr>"

definition skip_message :: "StopCause \<Rightarrow> string" where
  "skip_message stop = (case stop of StopTimeout \<Rightarrow> ''timed out'' | StopInterrupt \<Rightarrow> ''cancelled'' | NoStop \<Rightarrow> ''skipped: canary failed'')"

subsection \<open>The two controllers\<close>

text \<open>What the second controller reported, if it has completed.\<close>

definition onRestDone :: "nc_state \<Rightarrow> nc_state \<Rightarrow> rollout \<Rightarrow> rollout" where
  "onRestDone n n' ro =
     (if nc_reports n' \<noteq> nc_reports n then finishResults ro (ro_combined ro @ last (nc_reports n')) else ro)"

definition start_rest_hosts :: "native_world \<Rightarrow> rollout \<Rightarrow> host_result list \<Rightarrow> rollout" where
  "start_rest_hosts w ro rs =
     (case nc_start (nw_disks w True) (nw_answers w True) NativeController (ro_restTargets ro) (ro_command ro) (ro_options ro) of
        (n, Inr _) \<Rightarrow> onRestDone NativeController n (absorb NativeController n (ro\<lparr>ro_rest := Some n, ro_combined := rs\<rparr>))
      | (n, Inl e) \<Rightarrow> finishResults (ro\<lparr>ro_rest := Some n, ro_combined := rs\<rparr>)
          (rs @ map (cancellationResult (ro_stop ro) (message (nw_strerror w) e) False) (ro_restTargets ro)))"

definition canary_callback :: "native_world \<Rightarrow> rollout \<Rightarrow> host_result list \<Rightarrow> rollout" where
  "canary_callback w ro rs =
     (if \<not> list_all host_ok_result rs \<or> ro_restTargets ro = [] \<or> ro_stop ro \<noteq> NoStop
      then finishResults ro (rs @ map (cancellationResult (ro_stop ro) (skip_message (ro_stop ro)) True) (ro_restTargets ro))
      else start_rest_hosts w ro rs)"

definition onFirstDone :: "native_world \<Rightarrow> nc_state \<Rightarrow> nc_state \<Rightarrow> rollout \<Rightarrow> rollout" where
  "onFirstDone w n n' ro =
     (if nc_reports n' \<noteq> nc_reports n
      then (if ro_staged ro then canary_callback w ro else finishResults ro) (last (nc_reports n')) else ro)"

definition first_step :: "native_world \<Rightarrow> rollout \<Rightarrow> nc_event \<Rightarrow> rollout" where
  "first_step w ro ev =
     (let n = ro_first ro; n' = nc_step (nw_disks w False) (nw_answers w False) n ev
      in onFirstDone w n n' (absorb n n' (ro\<lparr>ro_first := n'\<rparr>)))"

definition rest_step :: "native_world \<Rightarrow> rollout \<Rightarrow> nc_event \<Rightarrow> rollout" where
  "rest_step w ro ev =
     (case ro_rest ro of None \<Rightarrow> ro
      | Some n \<Rightarrow> let n' = nc_step (nw_disks w True) (nw_answers w True) n ev
          in onRestDone n n' (absorb n n' (ro\<lparr>ro_rest := Some n'\<rparr>)))"

text \<open>The active controller, and \<open>cancel\<close> on it.\<close>

definition active_controller :: "rollout \<Rightarrow> nc_state" where
  "active_controller ro = (case ro_rest ro of None \<Rightarrow> ro_first ro | Some n \<Rightarrow> n)"

definition cancel_active :: "native_world \<Rightarrow> rollout \<Rightarrow> string \<Rightarrow> CancelKind \<Rightarrow> rollout" where
  "cancel_active w ro reason kind =
     (if ro_rest ro = None then first_step w ro (CancelRun reason kind) else rest_step w ro (CancelRun reason kind))"

subsection \<open>The run\<close>

definition canary_size :: "run_invocation \<Rightarrow> nat \<Rightarrow> nat" where
  "canary_size iv hostTotal = (if canary iv \<noteq> [] then unat (canaryCount (canary iv) (of_nat hostTotal)) else hostTotal)"

definition controllerOptions :: "run_invocation \<Rightarrow> nat \<times> OverflowPolicy \<times> nat \<times> bool" where
  "controllerOptions iv = (nat (run_invocation.concurrency iv), ri_policy iv, unat (run_invocation.ringBytes iv), run_invocation.failFast iv)"

definition native_setup :: "run_invocation \<Rightarrow> bool \<Rightarrow> client_entry list \<Rightarrow> rollout" where
  "native_setup iv live cs =
     \<lparr>ro_command = ri_command iv, ro_options = controllerOptions iv, ro_live = live, ro_timed = (0 < run_invocation.timeoutSec iv),
      ro_staged = (canary iv \<noteq> []), ro_restTargets = drop (canary_size iv (length cs)) (map (native_target iv) cs),
      ro_first = NativeController, ro_rest = None, ro_combined = [], ro_stop = NoStop, ro_results = None, ro_exitCode = 1,
      ro_framers = (\<lambda>h. (LineFramer 0, LineFramer 0)), ro_events = map (StageStarted \<circ> ce_host) cs\<rparr>"

definition begin_native :: "native_world \<Rightarrow> run_invocation \<Rightarrow> bool \<Rightarrow> client_entry list \<Rightarrow> rollout" where
  "begin_native w iv live cs =
     (let targets = map (native_target iv) cs; ro = native_setup iv live cs
      in case nc_start (nw_disks w False) (nw_answers w False) NativeController (take (canary_size iv (length cs)) targets)
           (ri_command iv) (controllerOptions iv) of
          (n, Inr _) \<Rightarrow> onFirstDone w NativeController n (absorb NativeController n (ro\<lparr>ro_first := n\<rparr>))
        | (n, Inl e) \<Rightarrow> finishResults (ro\<lparr>ro_first := n\<rparr>) (map (cancellationResult NoStop (message (nw_strerror w) e) False) targets))"

datatype native_event = FirstEvent nc_event | RestEvent nc_event | SignalArrives | DeadlineFires

fun is_cancel :: "nc_event \<Rightarrow> bool" where
  "is_cancel (CancelRun _ _) = True"
| "is_cancel _ = False"

definition native_step :: "native_world \<Rightarrow> rollout \<Rightarrow> native_event \<Rightarrow> rollout" where
  "native_step w ro ev =
     (case ev of
        FirstEvent e \<Rightarrow> if is_cancel e then ro else first_step w ro e
      | RestEvent e \<Rightarrow> if is_cancel e then ro else rest_step w ro e
      | SignalArrives \<Rightarrow>
          if ro_results ro \<noteq> None \<or> ro_stop ro = StopInterrupt then ro
          else cancel_active w (ro\<lparr>ro_stop := StopInterrupt\<rparr>) ''cancelled'' InterruptCause
      | DeadlineFires \<Rightarrow>
          if \<not> ro_timed ro \<or> ro_results ro \<noteq> None \<or> ro_stop ro \<noteq> NoStop then ro
          else cancel_active w (ro\<lparr>ro_stop := StopTimeout\<rparr>) ''timed out'' TimeoutCause)"

definition native_run :: "native_world \<Rightarrow> rollout \<Rightarrow> native_event list \<Rightarrow> rollout" where
  "native_run w = foldl (native_step w)"

subsection \<open>What the operations leave alone\<close>

lemma absorb_fields [simp]:
  "ro_first (absorb n n' ro) = ro_first ro" "ro_rest (absorb n n' ro) = ro_rest ro" "ro_stop (absorb n n' ro) = ro_stop ro"
  "ro_results (absorb n n' ro) = ro_results ro" "ro_combined (absorb n n' ro) = ro_combined ro" "ro_staged (absorb n n' ro) = ro_staged ro"
  "ro_restTargets (absorb n n' ro) = ro_restTargets ro" "ro_command (absorb n n' ro) = ro_command ro"
  "ro_options (absorb n n' ro) = ro_options ro" "ro_live (absorb n n' ro) = ro_live ro" "ro_timed (absorb n n' ro) = ro_timed ro"
  "ro_exitCode (absorb n n' ro) = ro_exitCode ro"
  by (simp_all add: absorb_def split: prod.splits)

lemma finish_fields [simp]:
  "ro_first (finishResults ro rs) = ro_first ro" "ro_rest (finishResults ro rs) = ro_rest ro" "ro_stop (finishResults ro rs) = ro_stop ro"
  "ro_results (finishResults ro rs) = Some (case ro_results ro of None \<Rightarrow> rs | Some x \<Rightarrow> x)" "ro_combined (finishResults ro rs) = ro_combined ro"
  "ro_staged (finishResults ro rs) = ro_staged ro" "ro_live (finishResults ro rs) = ro_live ro" "ro_restTargets (finishResults ro rs) = ro_restTargets ro"
  "ro_exitCode (finishResults ro rs) =
     (if ro_results ro = None then native_exit (ro_stop ro = StopInterrupt) rs else ro_exitCode ro)"
  by (auto simp: finishResults_def)

lemma cancellation_host [simp]: "hr_host (cancellationResult stop m a t) = nt_host t"
  "hr_host \<circ> cancellationResult stop m a = nt_host"
  by (simp_all add: cancellationResult_def no_result_def fun_eq_iff)

subsection \<open>The invariant\<close>

text \<open>A controller that has completed, or one whose \<open>start\<close> failed.\<close>

definition over :: "nc_state \<Rightarrow> bool" where
  "over n \<longleftrightarrow> nrest n \<and> nc_reports n \<noteq> [] \<or> n = NativeController"

text \<open>\<open>hs\<close> are the hosts of the run.\<close>

definition rinv :: "string list \<Rightarrow> rollout \<Rightarrow> bool" where
  "rinv hs ro \<longleftrightarrow>
     (case ro_results ro of Some rs \<Rightarrow> map hr_host rs = hs \<and> ro_exitCode ro = native_exit (ro_stop ro = StopInterrupt) rs \<and> over (ro_first ro) \<and> (case ro_rest ro of None \<Rightarrow> True | Some n \<Rightarrow> over n)
      | None \<Rightarrow>
          (ro_stop ro \<noteq> NoStop \<longrightarrow> nc_cancelling (case ro_rest ro of None \<Rightarrow> ro_first ro | Some n \<Rightarrow> n)) \<and>
          (case ro_rest ro of
             None \<Rightarrow> nrest (ro_first ro) \<and> nc_reports (ro_first ro) = [] \<and>
               map nt_host (map c_target (nc_conns (ro_first ro)) @ (if ro_staged ro then ro_restTargets ro else [])) = hs
           | Some n \<Rightarrow> nrest n \<and> nc_reports n = [] \<and> map hr_host (ro_combined ro) @ map nt_host (map c_target (nc_conns n)) = hs)) \<and>
     (case ro_rest ro of None \<Rightarrow> True
      | Some n \<Rightarrow> nrest (ro_first ro) \<and> nc_reports (ro_first ro) = [ro_combined ro] \<and> list_all host_ok_result (ro_combined ro))"

lemma idle_stuck:
  assumes "\<not> is_cancel ev"
  shows "nc_step d a NativeController ev = NativeController"
  using assms by (cases ev) (simp_all add: nc_step_def NativeController_def)

lemma new_not_rest: "\<not> nrest NativeController"
  by (simp add: nrest_def open_ok_def ninv_def nc_shape_def NativeController_def)

lemma completed_iff: "nrest n \<Longrightarrow> nc_completed n \<longleftrightarrow> nc_reports n \<noteq> []"
  by (simp add: nrest_def)

lemma reports_last:
  assumes "nrest n" "nc_reports n \<noteq> []"
  shows "nc_reports n = [last (nc_reports n)]" "map hr_host (last (nc_reports n)) = map nt_host (map c_target (nc_conns n))"
  using assms hosts_in_order [OF assms(1)] by (simp_all add: nrest_def split: if_splits)

lemma start_error: "nc_start d a n0 targets command opts = (n, Inl e) \<Longrightarrow> n = n0"
  by (cases opts) (auto simp: nc_start_def Let_def split: if_splits)

text \<open>The callbacks establish it again.\<close>

lemma rest_done_inv:
  assumes n: "nrest n'" "nc_reports n' \<noteq> []" and f: "ro_rest ro = Some n'" "nrest (ro_first ro)" "nc_reports (ro_first ro) = [ro_combined ro]"
    "list_all host_ok_result (ro_combined ro)" "ro_results ro = None" "map hr_host (ro_combined ro) @ map nt_host (map c_target (nc_conns n')) = hs"
  shows "rinv hs (finishResults ro (ro_combined ro @ last (nc_reports n')))"
  using f n reports_last [OF n] by (simp add: rinv_def over_def)

lemma start_rest_inv:
  assumes f: "nrest (ro_first ro)" "nc_reports (ro_first ro) = [rs]" "list_all host_ok_result rs" "ro_results ro = None" "ro_stop ro = NoStop"
    and t: "ro_restTargets ro \<noteq> []" "map hr_host rs @ map nt_host (ro_restTargets ro) = hs"
  shows "rinv hs (start_rest_hosts w ro rs)"
proof -
  obtain n r where s: "nc_start (nw_disks w True) (nw_answers w True) NativeController (ro_restTargets ro) (ro_command ro) (ro_options ro) = (n, r)"
    by fastforce
  show ?thesis
  proof (cases r)
    case (Inl e)
    then have "n = NativeController" using s start_error by simp
    then show ?thesis using f t s Inl by (simp add: start_rest_hosts_def rinv_def over_def)
  next
    case (Inr u)
    have n: "nrest n" "map c_target (nc_conns n) = ro_restTargets ro" "nc_reports n = []"
      using start_rest [OF _ t(1)] s Inr by simp_all
    then have "nc_reports n = nc_reports NativeController" by (simp add: NativeController_def)
    then show ?thesis using f t s Inr n by (simp add: start_rest_hosts_def onRestDone_def rinv_def over_def)
  qed
qed

lemma canary_callback_inv:
  assumes f: "nrest (ro_first ro)" "nc_reports (ro_first ro) = [rs]" "ro_rest ro = None" "ro_results ro = None"
    and t: "map hr_host rs @ map nt_host (ro_restTargets ro) = hs"
  shows "rinv hs (canary_callback w ro rs)"
proof (cases "\<not> list_all host_ok_result rs \<or> ro_restTargets ro = [] \<or> ro_stop ro \<noteq> NoStop")
  case True
  have "map hr_host (rs @ map (cancellationResult (ro_stop ro) (skip_message (ro_stop ro)) True) (ro_restTargets ro)) = hs"
    using t by simp
  then show ?thesis using True f by (simp add: canary_callback_def rinv_def over_def)
next
  case False
  then show ?thesis using start_rest_inv [OF f(1,2) _ f(4) _ _ t] by (simp add: canary_callback_def)
qed

lemma first_done_inv:
  assumes n: "nrest n'" "nc_reports n = []" "ro_first ro = n'" and f: "ro_rest ro = None" "ro_results ro = None"
    and t: "map nt_host (map c_target (nc_conns n') @ (if ro_staged ro then ro_restTargets ro else [])) = hs"
    and c: "ro_stop ro \<noteq> NoStop \<longrightarrow> nc_cancelling n'"
  shows "rinv hs (onFirstDone w n n' ro)"
proof (cases "nc_reports n' = []")
  case True
  then show ?thesis using n f t c by (simp add: onFirstDone_def rinv_def over_def)
next
  case False
  note l = reports_last [OF n(1) False]
  show ?thesis
  proof (cases "ro_staged ro")
    case True
    have "rinv hs (canary_callback w ro (last (nc_reports n')))"
      by (rule canary_callback_inv) (use True f n l t in simp_all)
    then show ?thesis using True False n(2) by (simp add: onFirstDone_def)
  next
    case False
    then show ?thesis using \<open>nc_reports n' \<noteq> []\<close> n f l t by (simp add: onFirstDone_def rinv_def over_def)
  qed
qed

text \<open>One event, for each phase.\<close>

lemma nc_step_first:
  assumes n: "nrest n"
  shows "nrest (nc_step d a n ev)" "map c_target (nc_conns (nc_step d a n ev)) = map c_target (nc_conns n)"
  using nc_step_rest [OF n, of d a ev] by (simp_all add: nstay_def)

lemma nc_step_cancelling:
  assumes n: "nrest n" "nc_cancelling n"
  shows "nc_cancelling (nc_step d a n ev)"
proof (cases "nc_step d a n ev = n")
  case True
  then show ?thesis using n by simp
next
  case False
  show ?thesis
  proof (cases ev)
    case (RetireFires i)
    then show ?thesis using retire_rest [OF n(1), of i d a] n(2) False by (auto simp: nc_step_def split: if_splits)
  next
    case (CancelRun reason kind)
    have "\<not> nc_completed n" using completed_idle(2) [OF n(1)] False by blast
    then show ?thesis unfolding CancelRun by (rule cancel_sets [OF n(1)])
  next
    case (ConnReady i)
    then show ?thesis using n(2) by (simp add: nc_step_def nc_onReady_def)
  next
    case (ConnData i ch data)
    then show ?thesis using n(2) by (simp add: nc_step_def nc_onData_def Let_def)
  next
    case (ConnExit i status)
    then show ?thesis using n(2) by (simp add: nc_step_def nc_onExit_def finish_with_def onConnDone_def done_in_cancel(2))
  next
    case (ConnError i m)
    then show ?thesis using n(2) by (simp add: nc_step_def conn_fail_def fail_in_cancel)
  qed
qed

lemma over_stuck: "over n \<Longrightarrow> \<not> is_cancel ev \<Longrightarrow> nc_step d a n ev = n"
  using completed_idle(2) [of n] idle_stuck by (auto simp: over_def completed_iff)

lemma absorb_none [simp]: "absorb n n ro = ro"
  by (simp add: absorb_def)

lemma first_step_over: "over (ro_first ro) \<Longrightarrow> \<not> is_cancel ev \<Longrightarrow> first_step w ro ev = ro"
  by (simp add: first_step_def over_stuck onFirstDone_def)

lemma rest_step_over: "ro_rest ro = Some n \<Longrightarrow> over n \<Longrightarrow> \<not> is_cancel ev \<Longrightarrow> rest_step w ro ev = ro"
  by (simp add: rest_step_def over_stuck onRestDone_def)

lemma step_stops:
  assumes n: "nrest n" "nc_reports n = []" and c: "stop \<noteq> NoStop \<longrightarrow> nc_cancelling n \<or> is_cancel ev"
  shows "stop \<noteq> NoStop \<longrightarrow> nc_cancelling (nc_step d a n ev)"
  using c nc_step_cancelling [OF n(1)] cancel_sets [OF n(1)] completed_iff [OF n(1)] n(2) by (cases ev) auto

lemma first_step_inv:
  assumes n: "nrest (ro_first ro)" "nc_reports (ro_first ro) = []" "ro_rest ro = None" "ro_results ro = None"
    and t: "map nt_host (map c_target (nc_conns (ro_first ro)) @ (if ro_staged ro then ro_restTargets ro else [])) = hs"
    and c: "ro_stop ro \<noteq> NoStop \<longrightarrow> nc_cancelling (ro_first ro) \<or> is_cancel ev"
  shows "rinv hs (first_step w ro ev)"
  unfolding first_step_def Let_def
  by (rule first_done_inv) (use n t nc_step_first [OF n(1)] step_stops [OF n(1,2) c] in \<open>simp_all split: if_splits\<close>)

lemma rest_step_inv:
  assumes r: "ro_rest ro = Some n" "nrest n" "nc_reports n = []" "map hr_host (ro_combined ro) @ map nt_host (map c_target (nc_conns n)) = hs"
    and f: "nrest (ro_first ro)" "nc_reports (ro_first ro) = [ro_combined ro]" "list_all host_ok_result (ro_combined ro)" "ro_results ro = None"
    and c: "ro_stop ro \<noteq> NoStop \<longrightarrow> nc_cancelling n \<or> is_cancel ev"
  shows "rinv hs (rest_step w ro ev)"
proof -
  let ?n = "nc_step (nw_disks w True) (nw_answers w True) n ev"
  let ?ro = "absorb n ?n (ro\<lparr>ro_rest := Some ?n\<rparr>)"
  have s: "nrest ?n" "map c_target (nc_conns ?n) = map c_target (nc_conns n)" "ro_stop ro \<noteq> NoStop \<longrightarrow> nc_cancelling ?n"
    using nc_step_first [OF r(2)] step_stops [OF r(2,3) c] by blast+
  have e: "rest_step w ro ev = onRestDone n ?n ?ro" using r(1) by (simp add: rest_step_def Let_def)
  show ?thesis
  proof (cases "nc_reports ?n = []")
    case True
    then show ?thesis using r f s unfolding e by (simp add: onRestDone_def rinv_def)
  next
    case False
    have "rinv hs (finishResults ?ro (ro_combined ?ro @ last (nc_reports ?n)))"
      by (rule rest_done_inv [OF s(1) False]) (use f r(4) s(2) in simp_all)
    then show ?thesis using False r(3) unfolding e by (simp add: onRestDone_def)
  qed
qed

lemma cancel_active_inv:
  assumes v: "rinv hs ro" "ro_results ro = None"
  shows "rinv hs (cancel_active w (ro\<lparr>ro_stop := stop\<rparr>) reason kind)"
proof (cases "ro_rest ro")
  case None
  then have "rinv hs (first_step w (ro\<lparr>ro_stop := stop\<rparr>) (CancelRun reason kind))"
    by (intro first_step_inv) (use v in \<open>simp_all add: rinv_def split: if_splits\<close>)
  then show ?thesis using None by (simp add: cancel_active_def)
next
  case (Some n)
  then have "rinv hs (rest_step w (ro\<lparr>ro_stop := stop\<rparr>) (CancelRun reason kind))"
    by (intro rest_step_inv [of _ n]) (use v in \<open>simp_all add: rinv_def\<close>)
  then show ?thesis using Some by (simp add: cancel_active_def)
qed

lemma native_step_inv:
  assumes v: "rinv hs ro"
  shows "rinv hs (native_step w ro ev)"
proof (cases ev)
  case (FirstEvent e)
  have "rinv hs (first_step w ro e)" if e: "\<not> is_cancel e"
  proof (cases "ro_results ro = None \<and> ro_rest ro = None")
    case True
    then show ?thesis by (intro first_step_inv) (use v in \<open>simp_all add: rinv_def split: if_splits\<close>)
  next
    case False
    then have "over (ro_first ro)" using v by (auto simp: rinv_def over_def split: option.splits)
    then show ?thesis using first_step_over [OF _ e] v by simp
  qed
  then show ?thesis using v FirstEvent by (simp add: native_step_def)
next
  case (RestEvent e)
  have "rinv hs (rest_step w ro e)" if e: "\<not> is_cancel e"
  proof (cases "ro_rest ro")
    case None
    then show ?thesis using v by (simp add: rest_step_def)
  next
    case (Some n)
    show ?thesis
    proof (cases "ro_results ro")
      case None
      then show ?thesis by (intro rest_step_inv [OF Some]) (use v Some in \<open>simp_all add: rinv_def\<close>)
    next
      case (Some rs)
      then have "over n" using v \<open>ro_rest ro = Some n\<close> by (simp add: rinv_def)
      then show ?thesis using rest_step_over [OF \<open>ro_rest ro = Some n\<close> _ e] v by simp
    qed
  qed
  then show ?thesis using v RestEvent by (simp add: native_step_def)
qed (use v cancel_active_inv [OF v] in \<open>simp_all add: native_step_def\<close>)

lemma native_run_inv: "rinv hs ro \<Longrightarrow> rinv hs (native_run w ro evs)"
  by (induction evs arbitrary: ro) (simp_all add: native_run_def native_step_inv)

subsection \<open>The start\<close>

lemma canary_size_pos:
  assumes "0 < hostTotal" "hostTotal < 2 ^ 64"
  shows "0 < canary_size iv hostTotal"
proof -
  have "unat (of_nat hostTotal :: u64) = hostTotal" using assms(2) by (simp add: take_bit_nat_eq_self unsigned_of_nat)
  then have "(of_nat hostTotal :: u64) \<noteq> 0" using assms(1) by auto
  then have "1 \<le> canaryCount (canary iv) (of_nat hostTotal)" using canary_and_ring_exact [of "canary iv" "of_nat hostTotal" "[]"] by blast
  then have "1 \<le> unat (canaryCount (canary iv) (of_nat hostTotal))" by (simp add: word_le_nat_alt)
  then show ?thesis using assms(1) by (simp add: canary_size_def)
qed

lemma native_hosts: "map nt_host (map (native_target iv) cs) = map ce_host cs"
  by (simp add: native_target_def)

lemma begin_inv:
  fixes w :: native_world and iv :: run_invocation and live :: bool
  assumes cs: "cs \<noteq> []" "length cs < 2 ^ 64"
  defines "b \<equiv> begin_native w iv live cs"
  shows "rinv (map ce_host cs) b \<and> ro_staged b = (canary iv \<noteq> []) \<and>
    ro_restTargets b = drop (canary_size iv (length cs)) (map (native_target iv) cs) \<and>
    (nrest (ro_first b) \<longrightarrow> map c_target (nc_conns (ro_first b)) = take (canary_size iv (length cs)) (map (native_target iv) cs)) \<and>
    ro_rest b = None \<and> ro_live b = live"
proof -
  let ?ts = "map (native_target iv) cs" and ?k = "canary_size iv (length cs)"
  obtain n r where s: "nc_start (nw_disks w False) (nw_answers w False) NativeController (take ?k ?ts) (ri_command iv) (controllerOptions iv) = (n, r)"
    by fastforce
  have ne: "take ?k ?ts \<noteq> []" using canary_size_pos [of "length cs" iv] cs by simp
  have e: "nc_reports NativeController = []" by (simp add: NativeController_def)
  have h: "map nt_host (take ?k ?ts) @ map nt_host (drop ?k ?ts) = map ce_host cs"
    unfolding map_append [symmetric] append_take_drop_id by (rule native_hosts)
  have k: "canary iv = [] \<Longrightarrow> ?k = length cs" by (simp add: canary_size_def)
  let ?ro = "(native_setup iv live cs)\<lparr>ro_first := n\<rparr>"
  show ?thesis
  proof (cases r)
    case (Inl err)
    have n: "n = NativeController" using s Inl start_error by simp
    have b: "b = finishResults ?ro (map (cancellationResult NoStop (message (nw_strerror w) err) False) ?ts)"
      using s Inl by (simp add: b_def begin_native_def Let_def)
    have "\<not> nrest n" using n new_not_rest by simp
    moreover have "map (hr_host \<circ> (cancellationResult NoStop (message (nw_strerror w) err) False \<circ> native_target iv)) cs = map ce_host cs"
      by (simp add: native_target_def)
    ultimately show ?thesis using n unfolding b by (simp add: rinv_def over_def native_setup_def)
  next
    case (Inr u)
    have n: "nrest n" "map c_target (nc_conns n) = take ?k ?ts" "nc_reports n = []" using start_rest [OF _ ne] s Inr by simp_all
    have b: "b = absorb NativeController n ?ro" using s Inr n(3) e by (simp add: b_def begin_native_def Let_def onFirstDone_def)
    have p: "map nt_host (map c_target (nc_conns n) @ (if canary iv \<noteq> [] then drop ?k ?ts else [])) = map ce_host cs"
      using h k native_hosts [of iv cs] unfolding n(2) by (cases "canary iv = []") (simp_all del: map_map)
    have "rinv (map ce_host cs) (absorb NativeController n ?ro)"
      using n(1,3) p unfolding rinv_def by (cases "canary iv = []") (simp_all add: native_setup_def del: map_map)
    then show ?thesis using n unfolding b by (simp add: native_setup_def)
  qed
qed

lemma rollout_waits:
  assumes v: "rinv hs ro" "ro_results ro = None"
  shows "\<exists>i < hosts_of (active_controller ro).
    c_linked (conn (active_controller ro) i) \<and> \<not> c_done (conn (active_controller ro) i) \<or> i \<in> set (nc_retiring (active_controller ro))"
proof -
  have "nrest (active_controller ro) \<and> nc_reports (active_controller ro) = []"
    using v by (cases "ro_rest ro") (simp_all add: rinv_def active_controller_def)
  then show ?thesis using someone_waits by blast
qed

subsection \<open>When the second controller starts\<close>

lemma rest_done_rest [simp]: "ro_rest (onRestDone n n' ro) = ro_rest ro" "ro_stop (onRestDone n n' ro) = ro_stop ro"
  "ro_first (onRestDone n n' ro) = ro_first ro" "ro_staged (onRestDone n n' ro) = ro_staged ro"
  "ro_restTargets (onRestDone n n' ro) = ro_restTargets ro"
  by (simp_all add: onRestDone_def)

lemma first_done_fields [simp]:
  "ro_stop (onFirstDone w n n' ro) = ro_stop ro" "ro_first (onFirstDone w n n' ro) = ro_first ro"
  "ro_staged (onFirstDone w n n' ro) = ro_staged ro" "ro_restTargets (onFirstDone w n n' ro) = ro_restTargets ro"
  by (simp_all add: onFirstDone_def canary_callback_def start_rest_hosts_def split: prod.splits sum.splits)

lemma first_done_rest:
  assumes "ro_rest (onFirstDone w n n' ro) \<noteq> ro_rest ro"
  shows "ro_staged ro \<and> ro_stop ro = NoStop \<and> list_all host_ok_result (last (nc_reports n')) \<and> nc_reports n' \<noteq> nc_reports n \<and> ro_restTargets ro \<noteq> []"
  using assms by (simp add: onFirstDone_def canary_callback_def split: if_splits)

lemma step_fields:
  assumes "rinv hs ro"
  shows "ro_staged (native_step w ro ev) = ro_staged ro" "ro_restTargets (native_step w ro ev) = ro_restTargets ro"
    "nrest (ro_first ro) \<Longrightarrow> nrest (ro_first (native_step w ro ev)) \<and>
      map c_target (nc_conns (ro_first (native_step w ro ev))) = map c_target (nc_conns (ro_first ro))"
    "nrest (ro_first (native_step w ro ev)) \<Longrightarrow> nrest (ro_first ro)"
proof -
  have fs: "ro_staged (first_step w r e) = ro_staged r" "ro_restTargets (first_step w r e) = ro_restTargets r"
     "ro_first (first_step w r e) = nc_step (nw_disks w False) (nw_answers w False) (ro_first r) e"
     "ro_staged (rest_step w r e) = ro_staged r" "ro_restTargets (rest_step w r e) = ro_restTargets r"
     "ro_first (rest_step w r e) = ro_first r" for r e
    by (simp_all add: first_step_def rest_step_def Let_def split: option.splits)
  have fc: "ro_staged (cancel_active w r m k) = ro_staged r" "ro_restTargets (cancel_active w r m k) = ro_restTargets r"
     "ro_first (cancel_active w r m k) = (if ro_rest r = None then nc_step (nw_disks w False) (nw_answers w False) (ro_first r) (CancelRun m k) else ro_first r)"
     for r m k by (simp_all add: cancel_active_def fs)
  show "ro_staged (native_step w ro ev) = ro_staged ro" "ro_restTargets (native_step w ro ev) = ro_restTargets ro"
    by (simp_all add: native_step_def fs fc split: native_event.splits)
  show "nrest (ro_first (native_step w ro ev)) \<and> map c_target (nc_conns (ro_first (native_step w ro ev))) = map c_target (nc_conns (ro_first ro))"
    if n: "nrest (ro_first ro)" using n nc_step_first [OF n] by (simp add: native_step_def fs fc split: native_event.splits)
  show "nrest (ro_first ro)" if n: "nrest (ro_first (native_step w ro ev))"
  proof (cases "ro_first ro = NativeController")
    case True
    then have r: "ro_results ro \<noteq> None" using assms new_not_rest by (auto simp: rinv_def split: option.splits)
    then have "ro_first (native_step w ro ev) = ro_first ro"
      by (simp add: native_step_def fs True idle_stuck split: native_event.splits)
    then show ?thesis using n by simp
  next
    case False
    then show ?thesis using assms by (auto simp: rinv_def over_def split: option.splits)
  qed
qed

lemma rest_started:
  assumes v: "rinv hs ro" and r: "ro_rest ro = None" "ro_rest (native_step w ro ev) \<noteq> None"
  shows "ro_staged ro \<and> ro_stop ro = NoStop \<and> (\<exists>rs. nc_reports (ro_first (native_step w ro ev)) = [rs] \<and> list_all host_ok_result rs)"
proof -
  let ?n = "\<lambda>e. nc_step (nw_disks w False) (nw_answers w False) (ro_first ro) e"
  have fr: "ro_staged r \<and> ro_stop r = NoStop \<and>
      list_all host_ok_result (last (nc_reports (ro_first (first_step w r e)))) \<and> nc_reports (ro_first (first_step w r e)) \<noteq> nc_reports (ro_first r)"
    if a: "ro_rest (first_step w r e) \<noteq> None" "ro_rest r = None" for r e
  proof -
    let ?n = "nc_step (nw_disks w False) (nw_answers w False) (ro_first r) e"
    let ?r = "absorb (ro_first r) ?n (r\<lparr>ro_first := ?n\<rparr>)"
    have "ro_rest (onFirstDone w (ro_first r) ?n ?r) \<noteq> ro_rest ?r" using a by (simp add: first_step_def Let_def)
    from first_done_rest [OF this] show ?thesis by (simp add: first_step_def Let_def)
  qed
  have rr: "ro_rest (rest_step w ro e) = None" for e using r(1) by (simp add: rest_step_def)
  have fs: "ro_rest (first_step w (ro\<lparr>ro_stop := x\<rparr>) e) = None" if "x \<noteq> NoStop" for x e
    using fr [of "ro\<lparr>ro_stop := x\<rparr>" e] r(1) that by fastforce
  obtain e where ev: "ev = FirstEvent e" "\<not> is_cancel e"
  proof (cases ev)
    case SignalArrives
    then show ?thesis using r fs by (simp add: native_step_def cancel_active_def split: if_splits)
  next
    case DeadlineFires
    then show ?thesis using r fs by (simp add: native_step_def cancel_active_def split: if_splits)
  next
    case (FirstEvent e)
    then show ?thesis using that r by (auto simp: native_step_def split: if_splits)
  next
    case (RestEvent e)
    then show ?thesis using r rr by (simp add: native_step_def split: if_splits)
  qed
  let ?f = "ro_first (first_step w ro e)"
  have s: "native_step w ro ev = first_step w ro e" using ev by (simp add: native_step_def)
  have f: "ro_staged ro" "ro_stop ro = NoStop" "list_all host_ok_result (last (nc_reports ?f))" "nc_reports ?f \<noteq> nc_reports (ro_first ro)"
    using fr [of ro e] r unfolding s by blast+
  have "\<not> over (ro_first ro)" using f(4) first_step_over [OF _ ev(2)] by auto
  then have n: "nrest (ro_first ro)" "nc_reports (ro_first ro) = []" using v r(1) by (auto simp: rinv_def split: option.splits)
  have "nrest ?f" using step_fields(3) [OF v n(1), of w ev] unfolding s by blast
  then have "nc_reports ?f = [last (nc_reports ?f)]" using f(4) n(2) reports_last(1) by simp
  then show ?thesis using f unfolding s by metis
qed

lemma run_static:
  assumes "rinv hs ro"
  shows "ro_staged (native_run w ro evs) = ro_staged ro \<and>
    (nrest (ro_first (native_run w ro evs)) \<longrightarrow> nrest (ro_first ro) \<and>
       map c_target (nc_conns (ro_first (native_run w ro evs))) = map c_target (nc_conns (ro_first ro)))"
  using assms
proof (induction evs arbitrary: ro)
  case Nil
  then show ?case by (simp add: native_run_def)
next
  case (Cons ev evs)
  have e: "native_run w ro (ev # evs) = native_run w (native_step w ro ev) evs" by (simp add: native_run_def)
  show ?case unfolding e using Cons.IH [OF native_step_inv [OF Cons.prems], of w ev] step_fields [OF Cons.prems, of w ev] by auto
qed

lemma results_stay:
  assumes v: "rinv hs ro" and r: "ro_results ro = Some rs"
  shows "native_step w ro ev = ro"
proof -
  have "over (ro_first ro)" "\<And>n. ro_rest ro = Some n \<Longrightarrow> over n" using v r by (simp_all add: rinv_def)
  then show ?thesis using r first_step_over rest_step_over
    by (cases "ro_rest ro") (auto simp: native_step_def rest_step_def split: native_event.splits)
qed

text \<open>Between signal and report: the retire timers of the active controller.\<close>

lemma plain_steps:
  assumes v: "rinv hs ro" and s: "ro_stop ro \<noteq> NoStop" and e: "\<not> is_cancel e"
  shows "ro_rest ro = None \<Longrightarrow> ro_rest (first_step w ro e) = None \<and> ro_first (first_step w ro e) = nc_step (nw_disks w False) (nw_answers w False) (ro_first ro) e"
    "ro_rest ro = Some n \<Longrightarrow> ro_rest (rest_step w ro e) = Some (nc_step (nw_disks w True) (nw_answers w True) n e)"
    "ro_stop (first_step w ro e) = ro_stop ro" "ro_stop (rest_step w ro e) = ro_stop ro"
proof -
  show "ro_rest (first_step w ro e) = None \<and> ro_first (first_step w ro e) = nc_step (nw_disks w False) (nw_answers w False) (ro_first ro) e"
    if r: "ro_rest ro = None"
  proof -
    have "native_step w ro (FirstEvent e) = first_step w ro e" using e by (simp add: native_step_def)
    then have "ro_rest (first_step w ro e) = None" using rest_started [OF v r, of w "FirstEvent e"] s by fastforce
    then show ?thesis by (simp add: first_step_def Let_def)
  qed
qed (simp_all add: first_step_def rest_step_def Let_def split: option.splits)

definition timer_events :: "rollout \<Rightarrow> nat list \<Rightarrow> native_event list" where
  "timer_events ro is = map (\<lambda>i. (if ro_rest ro = None then FirstEvent else RestEvent) (RetireFires i)) is"

lemma timers_run:
  assumes "rinv hs ro" "ro_stop ro \<noteq> NoStop"
  shows "(ro_rest ro = None \<longrightarrow> ro_rest (native_run w ro (timer_events ro is)) = None \<and>
      ro_first (native_run w ro (timer_events ro is)) = nc_run (nw_disks w False) (nw_answers w False) (ro_first ro) (map RetireFires is)) \<and>
    (\<forall>n. ro_rest ro = Some n \<longrightarrow>
      ro_rest (native_run w ro (timer_events ro is)) = Some (nc_run (nw_disks w True) (nw_answers w True) n (map RetireFires is))) \<and>
    ro_stop (native_run w ro (timer_events ro is)) = ro_stop ro"
  using assms
proof (induction "is" arbitrary: ro)
  case Nil
  then show ?case by (simp add: timer_events_def native_run_def nc_run_def)
next
  case (Cons i "is")
  let ?e = "(if ro_rest ro = None then FirstEvent else RestEvent) (RetireFires i)"
  let ?ro = "native_step w ro ?e"
  have e: "\<not> is_cancel (RetireFires i)" by simp
  note p = plain_steps [OF Cons.prems e, where w = w]
  have v: "rinv hs ?ro" by (rule native_step_inv [OF Cons.prems(1)])
  have st: "ro_stop ?ro = ro_stop ro" using p by (simp add: native_step_def)
  have same: "ro_rest ?ro = None \<longleftrightarrow> ro_rest ro = None" using p by (cases "ro_rest ro") (simp_all add: native_step_def)
  have t: "native_run w ro (timer_events ro (i # is)) = native_run w ?ro (timer_events ?ro is)"
    using same by (simp add: timer_events_def native_run_def)
  show ?case unfolding t using Cons.IH [OF v] Cons.prems(2) st p by (cases "ro_rest ro") (simp_all add: native_step_def nc_run_def)
qed

lemma stopped_ends:
  assumes v: "rinv hs ro" and s: "ro_stop ro \<noteq> NoStop"
  shows "ro_results (native_run w ro (timer_events ro (nc_retiring (active_controller ro)))) \<noteq> None"
proof (cases "ro_results ro")
  case (Some rs)
  have "ro_results (native_run w ro evs) = Some rs" for evs
    by (induction evs) (simp_all add: native_run_def Some results_stay [OF v Some])
  then show ?thesis by simp
next
  case None
  let ?a = "active_controller ro" and ?ro = "native_run w ro (timer_events ro (nc_retiring (active_controller ro)))"
  have a: "nrest ?a" "nc_cancelling ?a" using v None s by (auto simp: rinv_def active_controller_def split: option.splits)
  have t: "active_controller ?ro = nc_run (nw_disks w (ro_rest ro \<noteq> None)) (nw_answers w (ro_rest ro \<noteq> None)) ?a (map RetireFires (nc_retiring ?a))"
    using timers_run [OF v s, of w "nc_retiring ?a"] by (cases "ro_rest ro") (simp_all add: active_controller_def)
  have "nrest (active_controller ?ro)" "nc_completed (active_controller ?ro)" unfolding t using cancelling_done [OF a] by blast+
  then have "nc_reports (active_controller ?ro) \<noteq> []" using completed_iff by blast
  moreover have "rinv hs ?ro" by (rule native_run_inv [OF v])
  ultimately show ?thesis by (auto simp: rinv_def active_controller_def split: option.splits)
qed

subsection \<open>Properties\<close>

text \<open>
  C19: at every moment a native run either has reported every selected host exactly once, in order, with the exit code that
  the results give, and nothing changes any more; or it has not reported, and some host of the active controller is still
  connected or waits to be retired, so the run cannot hang with nothing to wait for.
\<close>

theorem rollout_reports:
  assumes "cs \<noteq> []" "length cs < 2 ^ 64"
  shows "let ro = native_run w (begin_native w iv live cs) evs; n = active_controller ro in
    case ro_results ro of
      Some rs \<Rightarrow> map hr_host rs = map ce_host cs \<and> ro_exitCode ro = native_exit (ro_stop ro = StopInterrupt) rs \<and> native_step w ro ev = ro
    | None \<Rightarrow> (\<exists>i < length (nc_conns n). c_linked (conn n i) \<and> \<not> c_done (conn n i) \<or> i \<in> set (nc_retiring n))"
proof -
  let ?ro = "native_run w (begin_native w iv live cs) evs"
  have v: "rinv (map ce_host cs) ?ro" by (rule native_run_inv) (use begin_inv [OF assms] in blast)
  show ?thesis using rollout_waits [OF v] results_stay [OF v] v unfolding Let_def rinv_def by (cases "ro_results ?ro") simp_all
qed

text \<open>
  C18: a canary rollout connects only to the canary hosts until all of them have succeeded: the rest is started, if at all,
  when the first controller has reported success of exactly the canary hosts and neither a signal nor the deadline has come.
\<close>

theorem canary_gate:
  assumes "cs \<noteq> []" "length cs < 2 ^ 64"
  shows "let ro = native_run w (begin_native w iv live cs) evs; ro' = native_step w ro ev; k = canary_size iv (length cs) in
    map c_target (nc_conns (ro_first ro)) \<in> {[], take k (map (native_target iv) cs)} \<and>
    (ro_rest ro = None \<and> ro_rest ro' \<noteq> None \<longrightarrow> canary iv \<noteq> [] \<and> ro_stop ro = NoStop \<and>
       (\<exists>rs. nc_reports (ro_first ro') = [rs] \<and> list_all host_ok_result rs \<and> map hr_host rs = take k (map ce_host cs)))"
proof -
  obtain b where b: "b = begin_native w iv live cs" by blast
  obtain ro where ro: "ro = native_run w b evs" by blast
  have bi: "rinv (map ce_host cs) b" "ro_staged b = (canary iv \<noteq> [])"
    "nrest (ro_first b) \<longrightarrow> map c_target (nc_conns (ro_first b)) = take (canary_size iv (length cs)) (map (native_target iv) cs)"
    using begin_inv [OF assms, of w iv live] unfolding b by blast+
  have v: "rinv (map ce_host cs) ro" unfolding ro by (rule native_run_inv [OF bi(1)])
  have st: "ro_staged ro = (canary iv \<noteq> [])"
    "nrest (ro_first ro) \<longrightarrow> map c_target (nc_conns (ro_first ro)) = take (canary_size iv (length cs)) (map (native_target iv) cs)"
    using run_static [OF bi(1), of w evs] bi(2,3) unfolding ro by auto
  have 1: "map c_target (nc_conns (ro_first ro)) \<in> {[], take (canary_size iv (length cs)) (map (native_target iv) cs)}"
    using st(2) v by (auto simp: rinv_def over_def NativeController_def split: option.splits)
  have 2: "canary iv \<noteq> [] \<and> ro_stop ro = NoStop \<and> (\<exists>rs. nc_reports (ro_first (native_step w ro ev)) = [rs] \<and> list_all host_ok_result rs \<and>
      map hr_host rs = take (canary_size iv (length cs)) (map ce_host cs))" if r: "ro_rest ro = None" "ro_rest (native_step w ro ev) \<noteq> None"
  proof -
    have f: "ro_staged ro" "ro_stop ro = NoStop" "\<exists>rs. nc_reports (ro_first (native_step w ro ev)) = [rs] \<and> list_all host_ok_result rs"
      using rest_started [OF v r] by blast+
    then obtain rs where rs: "nc_reports (ro_first (native_step w ro ev)) = [rs]" "list_all host_ok_result rs" by blast
    have n: "nrest (ro_first (native_step w ro ev))" using native_step_inv [OF v, of w ev] r(2) by (auto simp: rinv_def)
    have t: "map c_target (nc_conns (ro_first (native_step w ro ev))) = take (canary_size iv (length cs)) (map (native_target iv) cs)"
      using step_fields(3,4) [OF v, of w ev] n st(2) by simp
    have "map hr_host rs = map nt_host (take (canary_size iv (length cs)) (map (native_target iv) cs))"
      using reports_last(2) [OF n] rs(1) t by (simp del: map_map)
    also have "\<dots> = take (canary_size iv (length cs)) (map ce_host cs)" using native_hosts [of iv cs] by (metis take_map)
    finally show ?thesis using f(1,2) st(1) rs by blast
  qed
  show ?thesis unfolding Let_def b [symmetric] ro [symmetric] using 1 2 by blast
qed

text \<open>
  C20: a signal ends a native run: when the retire timers pending after it have fired, every selected host is reported, in
  order, and if the run had not reported before, the exit code is 130.
\<close>

theorem native_interrupt_ends:
  assumes "cs \<noteq> []" "length cs < 2 ^ 64"
  shows "let ro = native_run w (begin_native w iv live cs) evs; ro1 = native_step w ro SignalArrives;
      ro2 = native_run w ro1 (timer_events ro1 (nc_retiring (active_controller ro1))) in
    \<exists>rs. ro_results ro2 = Some rs \<and> map hr_host rs = map ce_host cs \<and> (ro_results ro = None \<longrightarrow> ro_exitCode ro2 = kExitCancelled)"
proof -
  obtain ro where ro: "ro = native_run w (begin_native w iv live cs) evs" by blast
  obtain ro1 where ro1: "ro1 = native_step w ro SignalArrives" by blast
  obtain ro2 where ro2: "ro2 = native_run w ro1 (timer_events ro1 (nc_retiring (active_controller ro1)))" by blast
  have v: "rinv (map ce_host cs) ro" unfolding ro by (rule native_run_inv) (use begin_inv [OF assms] in blast)
  have v1: "rinv (map ce_host cs) ro1" unfolding ro1 by (rule native_step_inv [OF v])
  have v2: "rinv (map ce_host cs) ro2" unfolding ro2 by (rule native_run_inv [OF v1])
  have stop: "ro_stop ro1 = StopInterrupt" if "ro_results ro = None"
    using that by (simp add: ro1 native_step_def cancel_active_def first_step_def rest_step_def Let_def split: option.splits)
  have done2: "ro_results ro2 \<noteq> None"
  proof (cases "ro_results ro")
    case None
    then show ?thesis using stopped_ends [OF v1] stop unfolding ro2 by simp
  next
    case (Some rs)
    have same: "ro1 = ro" unfolding ro1 by (rule results_stay [OF v Some])
    have "native_run w ro es = ro" for es by (induction es) (simp_all add: native_run_def results_stay [OF v Some])
    then show ?thesis using Some unfolding ro2 same by simp
  qed
  then obtain rs where rs: "ro_results ro2 = Some rs" by blast
  then have "map hr_host rs = map ce_host cs" "ro_exitCode ro2 = native_exit (ro_stop ro2 = StopInterrupt) rs" using v2 by (simp_all add: rinv_def)
  moreover have "ro_stop ro2 = StopInterrupt" if "ro_results ro = None"
    using timers_run [OF v1] stop [OF that] unfolding ro2 by simp
  ultimately show ?thesis unfolding Let_def ro [symmetric] ro1 [symmetric] ro2 [symmetric] using rs
    by (auto simp: native_exit_def any_cancelled_def)
qed

subsection \<open>A canary rollout on two hosts\<close>

definition calm_world :: native_world where
  "calm_world = \<lparr>nw_disks = (\<lambda>b. steady_disks), nw_answers = (\<lambda>b. all_start), nw_strerror = (\<lambda>c. [])\<rparr>"

definition canary_run :: run_invocation where
  "canary_run = RunInvocation\<lparr>canary := ''1'', ri_command := [''id'']\<rparr>"

definition canary_clients :: "client_entry list" where
  "canary_clients = [ClientEntry\<lparr>ce_host := ''a''\<rparr>, ClientEntry\<lparr>ce_host := ''b''\<rparr>]"

definition good_exit :: wait_status where
  "good_exit = \<lparr>ws_exited = True, ws_code = 0\<rparr>"

lemma canary_clients_some: "canary_clients \<noteq> []" "length canary_clients < 2 ^ 64"
  by (simp_all add: canary_clients_def)

abbreviation after_canary :: rollout where
  "after_canary \<equiv> native_run calm_world (begin_native calm_world canary_run True canary_clients)
     [FirstEvent (ConnData 0 Stdout (''hi'' @ [CHR 0x0A])), FirstEvent (ConnExit 0 good_exit)]"

theorem rollout_reports_witness:
  "let ro = native_run calm_world (begin_native calm_world canary_run True canary_clients)
     [FirstEvent (ConnExit 0 \<lparr>ws_exited = True, ws_code = 2\<rparr>), FirstEvent (RetireFires 0)] in
   ro_results ro \<noteq> None \<and> map hr_host (the (ro_results ro)) = [''a'', ''b''] \<and> ro_exitCode ro = 1"
proof -
  let ?evs = "[FirstEvent (ConnExit 0 \<lparr>ws_exited = True, ws_code = 2\<rparr>), FirstEvent (RetireFires 0)]"
  let ?ro = "native_run calm_world (begin_native calm_world canary_run True canary_clients) ?evs"
  have "ro_results ?ro \<noteq> None" "ro_exitCode ?ro = 1" by code_simp+
  moreover from this have "map hr_host (the (ro_results ?ro)) = map ce_host canary_clients"
    using rollout_reports [OF canary_clients_some, of calm_world canary_run True ?evs SignalArrives] unfolding Let_def by (cases "ro_results ?ro") simp_all
  ultimately show ?thesis unfolding Let_def by (simp add: canary_clients_def)
qed

theorem canary_gate_witness:
  "ro_rest (native_step calm_world after_canary (FirstEvent (RetireFires 0))) \<noteq> None \<and> ro_stop after_canary = NoStop \<and>
   (\<exists>rs. nc_reports (ro_first (native_step calm_world after_canary (FirstEvent (RetireFires 0)))) = [rs] \<and> list_all host_ok_result rs)"
proof -
  have "ro_rest after_canary = None" "ro_rest (native_step calm_world after_canary (FirstEvent (RetireFires 0))) \<noteq> None" by code_simp+
  then show ?thesis using canary_gate [OF canary_clients_some, of calm_world canary_run True
      "[FirstEvent (ConnData 0 Stdout (''hi'' @ [CHR 0x0A])), FirstEvent (ConnExit 0 good_exit)]" "FirstEvent (RetireFires 0)"]
    unfolding Let_def by blast
qed

theorem native_interrupt_ends_witness:
  "\<exists>rs. ro_results (native_run calm_world (native_step calm_world after_canary SignalArrives)
      (timer_events (native_step calm_world after_canary SignalArrives) [0])) = Some rs \<and> map hr_host rs = [''a'', ''b'']"
proof -
  have "nc_retiring (active_controller (native_step calm_world after_canary SignalArrives)) = [0]" by code_simp
  moreover have "map ce_host canary_clients = [''a'', ''b'']" by code_simp
  ultimately show ?thesis using native_interrupt_ends [OF canary_clients_some, of calm_world canary_run True
      "[FirstEvent (ConnData 0 Stdout (''hi'' @ [CHR 0x0A])), FirstEvent (ConnExit 0 good_exit)]"]
    unfolding Let_def by auto
qed

end
