(* ===== verification/Native_Output.thy ===== *)
theory Native_Output
  imports Native_Rollout
begin

text \<open>
  What a native run captures and shows.  Without a limit the captured output of every host is what its node delivered, and
  the lines a sink receives are the same whether it is fed live or when the run is over.
\<close>

subsection \<open>Output and its frame\<close>

definition bytes_of :: "(string \<times> channel \<times> string) list \<Rightarrow> string \<Rightarrow> channel \<Rightarrow> string" where
  "bytes_of out h ch = concat (map (\<lambda>(_, _, d). d) (filter (\<lambda>(h', c, _). h' = h \<and> c = ch) out))"

lemma bytes_of_simps [simp]:
  "bytes_of [] h ch = []" "bytes_of (a @ b) h ch = bytes_of a h ch @ bytes_of b h ch"
  "bytes_of ((h', c, d) # out) h ch = (if h' = h \<and> c = ch then d else []) @ bytes_of out h ch"
  by (simp_all add: bytes_of_def)

lemma bytes_of_none: "h \<notin> fst ` set out \<Longrightarrow> bytes_of out h ch = []"
  by (induction out) auto

definition captured_of :: "host_result \<Rightarrow> channel \<Rightarrow> string" where
  "captured_of r ch = (if ch = Stderr then hr_stderr r else hr_stdout r)"

definition ring_of :: "nc_conn \<Rightarrow> channel \<Rightarrow> string" where
  "ring_of c ch = (if ch = Stderr then c_stderrRing c else c_stdoutRing c)"

text \<open>How a connection may change outside \<open>onData\<close>: it may finish, and keeps what it captured.\<close>

definition cframe :: "nc_conn \<Rightarrow> nc_conn \<Rightarrow> bool" where
  "cframe c c' \<longleftrightarrow> hr_host (c_result c') = hr_host (c_result c) \<and>
     c_stdoutRing c' = c_stdoutRing c \<and> c_stderrRing c' = c_stderrRing c \<and>
     c_stdoutSpool c' = c_stdoutSpool c \<and> c_stderrSpool c' = c_stderrSpool c \<and>
     (c_done c \<longrightarrow> c_done c' \<and> hr_stdout (c_result c') = hr_stdout (c_result c) \<and> hr_stderr (c_result c') = hr_stderr (c_result c)) \<and>
     (\<not> c_done c \<longrightarrow> c_done c' \<longrightarrow> c_stdoutSpool c = SpoolBuffer \<and> c_stderrSpool c = SpoolBuffer \<longrightarrow>
        hr_stdout (c_result c') = c_stdoutRing c \<and> hr_stderr (c_result c') = c_stderrRing c)"

definition nframe :: "nc_state \<Rightarrow> nc_state \<Rightarrow> bool" where
  "nframe n n' \<longleftrightarrow> hosts_of n' = hosts_of n \<and> nc_output n' = nc_output n \<and> nc_policy n' = nc_policy n \<and> nc_ringBytes n' = nc_ringBytes n \<and>
     (\<forall>i < hosts_of n. cframe (conn n i) (conn n' i))"

lemma cframe_refl: "cframe c c"
  by (auto simp: cframe_def)

lemma cframe_trans: "cframe a b \<Longrightarrow> cframe b c \<Longrightarrow> cframe a c"
  unfolding cframe_def by (cases "c_done a"; cases "c_done b") simp_all

lemma nframe_refl: "nframe n n"
  by (simp add: nframe_def cframe_refl)

lemma nframe_trans: "nframe a b \<Longrightarrow> nframe b c \<Longrightarrow> nframe a c"
  unfolding nframe_def using cframe_trans by (metis (no_types, lifting))

lemma nframe_fields:
  assumes "nc_conns n' = nc_conns n" "nc_output n' = nc_output n" "nc_policy n' = nc_policy n" "nc_ringBytes n' = nc_ringBytes n"
  shows "nframe n n'"
  using assms by (simp add: nframe_def conn_def cframe_refl)

lemma nframe_set_conn: "cframe (conn n i) c \<Longrightarrow> nframe n (set_conn n i c)"
  by (simp add: nframe_def cframe_refl)

lemma new_spool_empty: "sp_empty SpoolBuffer"
  by (simp add: sp_empty_def sp_remaining_def SpoolBuffer_def)

lemma settle_frame: "\<not> c_done c \<Longrightarrow> cframe c (settle ds i c)"
  by (simp add: cframe_def settle_def full_output_def new_spool_empty)

subsection \<open>The operations\<close>

lemma complete_frame: "nframe n (completeIfReady n)"
  by (simp add: completeIfReady_def nframe_fields)

lemma done_frame:
  assumes "\<And>m. nframe m (cancel_all m)"
  shows "nframe n (onConnDone_with cancel_all n i)"
proof -
  let ?n1 = "n\<lparr>nc_remaining := nc_remaining n - 1\<rparr>"
  let ?n2 = "if nc_failFast n \<and> \<not> nc_cancelling n \<and> failed_result (c_result (conn n i)) then cancel_all ?n1 else ?n1"
  have "nframe n ?n1" by (simp add: nframe_fields)
  then have "nframe n ?n2" using nframe_trans [OF _ assms] by simp
  moreover have "nframe ?n2 (schedule ?n2 i)" by (simp add: schedule_def nframe_fields nframe_refl)
  ultimately have "nframe n (schedule ?n2 i)" by (rule nframe_trans)
  then show ?thesis unfolding onConnDone_with_unfold by (rule nframe_trans [OF _ complete_frame])
qed

lemma finish_frame:
  assumes "\<And>m. nframe m (done m i)"
  shows "nframe n (finish_with done ds n i)"
  unfolding finish_with_def using nframe_refl nframe_trans [OF nframe_set_conn [OF settle_frame] assms] by simp

lemma fail_frame:
  assumes "\<And>m. nframe m (done m i)"
  shows "nframe n (fail_with done ds m kind n i)"
proof -
  let ?c = "(conn n i)\<lparr>c_result := (c_result (conn n i))\<lparr>hr_error := m, hr_ok := False, hr_timedOut := (kind = TimeoutCause),
     hr_cancelled := (kind = InterruptCause), hr_aborted := (kind = FailFastCause)\<rparr>\<rparr>"
  have "cframe (conn n i) ?c" by (simp add: cframe_def)
  then have "nframe n (if c_done (conn n i) then n else set_conn n i ?c)" using nframe_refl nframe_set_conn by simp
  then show ?thesis unfolding fail_with_def Let_def by (rule nframe_trans) (rule finish_frame, rule assms)
qed

lemma cancel_frame:
  assumes "\<And>m i. nframe m (done m i)"
  shows "nframe n (cancel_with done ds reason kind n)"
proof -
  have "nframe n (foldl (\<lambda>n i. if c_done (conn n i) then n else fail_with done ds m k n i) n is)" for n m k "is"
  proof (induction "is" arbitrary: n)
    case (Cons i "is")
    have "nframe n (fail_with done ds m k n i)" by (rule fail_frame) (rule assms)
    then have "nframe n (if c_done (conn n i) then n else fail_with done ds m k n i)" using nframe_refl by simp
    then show ?case using nframe_trans [OF _ Cons.IH] by simp
  qed (simp add: nframe_refl)
  moreover have "nframe n (n\<lparr>nc_cancelling := True\<rparr>)" by (simp add: nframe_fields)
  ultimately have "nframe n (completeIfReady (foldl (\<lambda>n i. if c_done (conn n i) then n else fail_with done ds reason k n i) (n\<lparr>nc_cancelling := True\<rparr>) is))" for k "is"
    using nframe_trans [OF nframe_trans complete_frame] by blast
  then show ?thesis by (simp add: cancel_with_def nframe_refl)
qed

lemma owner_frame: "nframe n (nc_cancel ds reason kind n)" "nframe n (onConnDone ds n i)" "nframe n (conn_fail ds m n i)"
proof -
  have c: "nframe n (nc_cancel ds reason kind n)" for n reason kind
    unfolding nc_cancel_def by (rule cancel_frame [OF done_frame [OF nframe_refl]])
  then show "nframe n (nc_cancel ds reason kind n)" .
  have d: "nframe n (onConnDone ds n i)" for n i unfolding onConnDone_def by (rule done_frame [OF c])
  then show "nframe n (onConnDone ds n i)" .
  show "nframe n (conn_fail ds m n i)" unfolding conn_fail_def by (rule fail_frame [OF d])
qed

lemma flags_frame: "cframe c (c\<lparr>c_active := a\<rparr>)" "cframe c (c\<lparr>c_linked := l\<rparr>)" "cframe c (c\<lparr>c_linked := l, c_active := a\<rparr>)"
  "cframe c (c\<lparr>c_calls := s\<rparr>)"
  by (simp_all add: cframe_def)

lemma launch_frame: "nframe n (nc_launch ds answers n i)"
proof -
  let ?n1 = "(set_conn n i ((conn n i)\<lparr>c_active := True\<rparr>))\<lparr>nc_active := nc_active n + 1\<rparr>"
  let ?n2 = "set_conn ?n1 i ((conn ?n1 i)\<lparr>c_linked := True\<rparr>)"
  have "nframe n (set_conn n i ((conn n i)\<lparr>c_active := True\<rparr>))" by (rule nframe_set_conn [OF flags_frame(1)])
  then have 1: "nframe n ?n1" by (rule nframe_trans) (simp add: nframe_fields)
  have 2: "nframe n ?n2" by (rule nframe_trans [OF 1 nframe_set_conn [OF flags_frame(2)]])
  show ?thesis unfolding nc_launch_def Let_def
    using nframe_trans [OF 1 owner_frame(3)] nframe_trans [OF 2 owner_frame(3)] nframe_trans [OF nframe_trans [OF 2 owner_frame(3)] owner_frame(3)] 2
    by (simp split: launch_answer.split option.split)
qed

lemma fill_frame: "nframe n (fill_from ds answers bound n is)"
proof (induction "is" arbitrary: n)
  case (Cons i "is")
  have "nframe n (n\<lparr>nc_next := i + 1\<rparr>)" by (simp add: nframe_fields)
  then have "nframe n (nc_launch ds answers (n\<lparr>nc_next := i + 1\<rparr>) i)" using launch_frame nframe_trans by blast
  then show ?case using nframe_trans [OF _ Cons.IH] nframe_refl by simp
qed (simp add: nframe_refl)

lemma slots_frame: "nframe n (nc_fillSlots ds answers n)"
proof -
  have 1: "nframe n (n\<lparr>nc_filling := True\<rparr>)" by (simp add: nframe_fields)
  have "nframe n ((fill_from ds answers b (n\<lparr>nc_filling := True\<rparr>) is)\<lparr>nc_filling := False\<rparr>)" for b "is"
    by (rule nframe_trans [OF nframe_trans [OF 1 fill_frame]], rule nframe_fields) simp_all
  then show ?thesis by (simp add: nc_fillSlots_def Let_def nframe_refl)
qed

lemma step_frame:
  assumes "\<And>i ch data. ev \<noteq> ConnData i ch data"
  shows "nframe n (nc_step ds answers n ev)"
proof (cases ev)
  case (ConnReady i)
  then show ?thesis by (simp add: nc_step_def nc_onReady_def nframe_refl nframe_set_conn flags_frame)
next
  case (ConnExit i status)
  have "nframe n (set_conn n i ((conn n i)\<lparr>c_result := (c_result (conn n i))\<lparr>hr_ok := True, hr_exitCode := x\<rparr>\<rparr>))" if "\<not> c_done (conn n i)" for x
    by (rule nframe_set_conn) (use that in \<open>simp add: cframe_def\<close>)
  then show ?thesis using ConnExit nframe_refl nframe_trans [OF _ finish_frame [of "onConnDone ds", OF owner_frame(2)]]
    by (simp add: nc_step_def nc_onExit_def)
next
  case (RetireFires i)
  let ?m = "n\<lparr>nc_retiring := removeAll i (nc_retiring n)\<rparr>"
  let ?n1 = "if c_active (conn ?m i) then (set_conn ?m i ((conn ?m i)\<lparr>c_linked := False, c_active := False\<rparr>))\<lparr>nc_active := nc_active ?m - 1\<rparr> else ?m"
  let ?n2 = "if nc_cancelling ?n1 then ?n1 else nc_fillSlots ds answers ?n1"
  have "nframe n ?m" by (simp add: nframe_fields)
  moreover have "nframe ?m ?n1"
  proof (cases "c_active (conn ?m i)")
    case True
    have "nframe ?m (set_conn ?m i ((conn ?m i)\<lparr>c_linked := False, c_active := False\<rparr>))" by (rule nframe_set_conn [OF flags_frame(3)])
    then have "nframe ?m ((set_conn ?m i ((conn ?m i)\<lparr>c_linked := False, c_active := False\<rparr>))\<lparr>nc_active := nc_active ?m - 1\<rparr>)"
      by (rule nframe_trans) (simp add: nframe_fields)
    then show ?thesis using True by simp
  qed (simp add: nframe_refl)
  ultimately have "nframe n ?n1" by (rule nframe_trans)
  moreover have "nframe ?n1 ?n2" using slots_frame nframe_refl by simp
  ultimately have "nframe n ?n2" by (rule nframe_trans)
  then have "nframe n (completeIfReady ?n2)" by (rule nframe_trans [OF _ complete_frame])
  then have "nframe n (nc_retire ds answers ?m i)" unfolding nc_retire_def Let_def .
  then show ?thesis using RetireFires nframe_refl by (simp add: nc_step_def)
qed (use assms nframe_refl owner_frame in \<open>simp_all add: nc_step_def\<close>)

subsection \<open>Capture without a limit\<close>

definition conn_cap :: "(string \<times> channel \<times> string) list \<Rightarrow> nc_conn \<Rightarrow> bool" where
  "conn_cap out c \<longleftrightarrow> c_stdoutSpool c = SpoolBuffer \<and> c_stderrSpool c = SpoolBuffer \<and>
     (\<forall>ch. ring_of c ch = bytes_of out (hr_host (c_result c)) ch \<and> (c_done c \<longrightarrow> captured_of (c_result c) ch = ring_of c ch))"

abbreviation hosts_in :: "nc_state \<Rightarrow> string list" where
  "hosts_in n \<equiv> map hr_host (map c_result (nc_conns n))"

definition ncap :: "nc_state \<Rightarrow> bool" where
  "ncap n \<longleftrightarrow> (nc_policy n = Block \<or> nc_ringBytes n = 0) \<and> distinct (hosts_in n) \<and> fst ` set (nc_output n) \<subseteq> set (hosts_in n) \<and>
     (\<forall>i < hosts_of n. conn_cap (nc_output n) (conn n i))"

lemma all_channel: "(\<forall>ch :: channel. P ch) \<longleftrightarrow> P Stdout \<and> P Stderr"
  by (metis channel.exhaust)

lemma frame_hosts: "nframe n n' \<Longrightarrow> hosts_in n' = hosts_in n"
  by (intro nth_equalityI) (simp_all add: nframe_def cframe_def conn_def)

lemma frame_cap:
  assumes "cframe c c'" "conn_cap out c"
  shows "conn_cap out c'"
  using assms unfolding cframe_def conn_cap_def ring_of_def captured_of_def all_channel by (cases "c_done c") simp_all

lemma frame_ncap:
  assumes f: "nframe n n'" and n: "ncap n"
  shows "ncap n'"
proof -
  have "conn_cap (nc_output n') (conn n' i)" if i: "i < hosts_of n'" for i
  proof -
    have "cframe (conn n i) (conn n' i)" "conn_cap (nc_output n) (conn n i)" using f n i unfolding nframe_def ncap_def by simp_all
    then show ?thesis using frame_cap f by (simp add: nframe_def)
  qed
  then show ?thesis using n f frame_hosts [OF f] by (simp add: ncap_def nframe_def del: map_map)
qed

lemma capture_unlimited:
  "nc_capture disk 0 pol c ch data = (if ch = Stderr then c\<lparr>c_stderrRing := c_stderrRing c @ data\<rparr> else c\<lparr>c_stdoutRing := c_stdoutRing c @ data\<rparr>)"
  by (cases c) (simp add: nc_capture_def capture_bytes_def)

lemma cap_extend:
  assumes "conn_cap out c" "h \<noteq> hr_host (c_result c)"
  shows "conn_cap (out @ [(h, ch, d)]) c"
  using assms by (simp add: conn_cap_def)

lemma data_ncap:
  fixes ds :: "nat \<Rightarrow> bool \<Rightarrow> nat \<Rightarrow> io" and answers :: "nat \<Rightarrow> launch_answer" and ch :: channel and data :: string
  assumes n: "ncap n" and i: "i < hosts_of n" "c_linked (conn n i)" "\<not> c_done (conn n i)"
  defines "n' \<equiv> nc_step ds answers n (ConnData i ch data)"
  shows "ncap n' \<and> nc_output n' = nc_output n @ [(hr_host (c_result (conn n i)), ch, data)]"
proof -
  let ?c = "(conn n i)\<lparr>c_calls := c_calls (conn n i) @ [Consumes (length data)]\<rparr>"
  let ?d = "if ch = Stderr then ?c\<lparr>c_stderrRing := c_stderrRing ?c @ data\<rparr> else ?c\<lparr>c_stdoutRing := c_stdoutRing ?c @ data\<rparr>"
  let ?out = "nc_output n @ [(hr_host (c_result (conn n i)), ch, data)]"
  have z: "(if nc_policy n = Block then 0 else nc_ringBytes n) = 0" using n by (auto simp: ncap_def)
  have e: "n' = (set_conn n i ?d)\<lparr>nc_output := ?out\<rparr>"
    unfolding n'_def using i z by (simp add: nc_step_def nc_onData_def Let_def capture_unlimited)
  have hosts: "hosts_in n' = hosts_in n"
    using i(1) by (intro nth_equalityI) (simp_all add: e set_conn_def nth_list_update conn_def)
  have "conn_cap ?out (conn n' j)" if j: "j < hosts_of n" for j
  proof (cases "j = i")
    case True
    have "conn_cap (nc_output n) (conn n i)" using n i(1) unfolding ncap_def by blast
    then show ?thesis using i True by (cases ch) (simp_all add: e conn_cap_def ring_of_def all_channel)
  next
    case False
    have "distinct (hosts_in n)" using n by (simp add: ncap_def)
    then have "hr_host (c_result (conn n i)) \<noteq> hr_host (c_result (conn n j))"
      using False i(1) j nth_eq_iff_index_eq [of "hosts_in n" i j] by (simp add: conn_def)
    moreover have "conn_cap (nc_output n) (conn n j)" using n j unfolding ncap_def by blast
    ultimately show ?thesis using False cap_extend by (simp add: e)
  qed
  moreover have "hr_host (c_result (conn n i)) \<in> set (hosts_in n)" using i(1) by (simp add: conn_def)
  ultimately have "ncap n'" using n hosts by (simp add: ncap_def e del: map_map set_map)
  then show ?thesis by (simp add: e)
qed

lemma step_ncap:
  fixes ds :: "nat \<Rightarrow> bool \<Rightarrow> nat \<Rightarrow> io" and answers :: "nat \<Rightarrow> launch_answer" and ev :: nc_event
  assumes n: "ncap n"
  defines "n' \<equiv> nc_step ds answers n ev"
  shows "ncap n' \<and> (\<exists>l. nc_output n' = nc_output n @ l)"
proof (cases "\<exists>i ch data. ev = ConnData i ch data")
  case False
  then have "nframe n n'" unfolding n'_def by (intro step_frame) blast
  then show ?thesis using frame_ncap [OF _ n] by (simp add: nframe_def)
next
  case True
  then obtain i ch data where ev: "ev = ConnData i ch data" by blast
  show ?thesis
  proof (cases "i < hosts_of n \<and> c_linked (conn n i) \<and> \<not> c_done (conn n i)")
    case True
    then show ?thesis using data_ncap [OF n, of i ds answers ch data] by (simp add: n'_def ev)
  next
    case False
    then have "nframe n n'" by (simp add: n'_def ev nc_step_def nc_onData_def Let_def nframe_refl nframe_set_conn flags_frame)
    then show ?thesis using frame_ncap [OF _ n] by (simp add: nframe_def)
  qed
qed

lemma start_ncap:
  assumes s: "nc_start ds answers NativeController targets command opts = (n, Inr ())" and t: "targets \<noteq> []" "distinct (map nt_host targets)"
    and o: "fst (snd opts) = Block \<or> fst (snd (snd opts)) = 0"
  shows "ncap n \<and> nc_output n = []"
proof -
  obtain k pol ring fast where opts: "opts = (k, pol, ring, fast)" by (cases opts)
  let ?m = "NativeController\<lparr>nc_started := True, nc_command := command, nc_concurrency := k, nc_policy := pol, nc_ringBytes := ring,
                   nc_failFast := fast, nc_next := 0, nc_active := 0, nc_remaining := length targets, nc_filling := False,
                   nc_cancelling := False, nc_completed := False, nc_conns := map new_conn targets\<rparr>"
  have e: "n = nc_fillSlots ds answers ?m" using s t(1) by (simp add: nc_start_def opts NativeController_def split: if_splits)
  have f: "nframe ?m n" unfolding e by (rule slots_frame)
  have "hosts_in ?m = map nt_host targets" by (simp add: new_conn_def no_result_def)
  moreover have "conn_cap [] (new_conn x)" for x by (simp add: conn_cap_def new_conn_def ring_of_def)
  ultimately have "ncap ?m" using t(2) o by (simp add: ncap_def opts NativeController_def conn_def del: map_map)
  then have "ncap n" by (rule frame_ncap [OF f])
  then show ?thesis using f by (simp add: nframe_def NativeController_def)
qed

lemma report_captured:
  assumes n: "nrest n" "ncap n" "nc_reports n \<noteq> []"
  shows "\<forall>r \<in> set (last (nc_reports n)). \<forall>ch. captured_of r ch = bytes_of (nc_output n) (hr_host r) ch"
proof -
  have l: "last (nc_reports n) = map c_result (nc_conns n)" "nc_remaining n = 0" and v: "ninv {} {} n"
    using n(1,3) by (auto simp: nrest_def open_ok_def split: if_splits)
  have "captured_of (c_result (conn n i)) ch = bytes_of (nc_output n) (hr_host (c_result (conn n i))) ch" if i: "i < hosts_of n" for i ch
  proof -
    have "c_done (conn n i)" using undone_positive [OF v i] l(2) by auto
    then show ?thesis using n(2) i by (simp add: ncap_def conn_cap_def)
  qed
  then show ?thesis unfolding l(1) by (auto simp: in_set_conv_nth conn_def)
qed

subsection \<open>The output of a whole run\<close>

definition outs :: "rollout \<Rightarrow> (string \<times> channel \<times> string) list" where
  "outs ro = nc_output (ro_first ro) @ (case ro_rest ro of None \<Rightarrow> [] | Some n \<Rightarrow> nc_output n)"

definition new_framers :: framers where
  "new_framers = (\<lambda>h. (LineFramer 0, LineFramer 0))"

text \<open>\<open>evs0\<close> are the events before the first output.\<close>

definition rshow :: "sink_event list \<Rightarrow> rollout \<Rightarrow> (string \<times> channel \<times> string) list \<Rightarrow> bool" where
  "rshow evs0 ro out \<longleftrightarrow> foldl (onOutput (ro_live ro)) (new_framers, evs0) out = (ro_framers ro, ro_events ro)"

definition all_captured :: "(string \<times> channel \<times> string) list \<Rightarrow> host_result list \<Rightarrow> bool" where
  "all_captured out rs \<longleftrightarrow> (\<forall>r \<in> set rs. \<forall>ch. captured_of r ch = bytes_of out (hr_host r) ch)"

definition rdone :: "sink_event list \<Rightarrow> rollout \<Rightarrow> host_result list \<Rightarrow> bool" where
  "rdone evs0 ro rs \<longleftrightarrow> all_captured (outs ro) rs \<and>
     (\<exists>evs. foldl (onOutput (ro_live ro)) (new_framers, evs0) (outs ro) = (ro_framers ro, evs) \<and>
        ro_events ro = evs @ finish_events (ro_live ro) (ro_framers ro) rs)"

definition rout :: "sink_event list \<Rightarrow> rollout \<Rightarrow> bool" where
  "rout evs0 ro \<longleftrightarrow>
     (case ro_results ro of Some rs \<Rightarrow> rdone evs0 ro rs
      | None \<Rightarrow> rshow evs0 ro (outs ro) \<and> ncap (ro_first ro) \<and>
          (fst (snd (ro_options ro)) = Block \<or> fst (snd (snd (ro_options ro))) = 0) \<and>
          (case ro_rest ro of None \<Rightarrow> True | Some n \<Rightarrow> ncap n \<and> all_captured (nc_output (ro_first ro)) (ro_combined ro)))"

lemma absorb_show:
  assumes "rshow evs0 ro out" "nc_output n' = nc_output n @ l"
  shows "rshow evs0 (absorb n n' ro) (out @ l)"
  using assms by (simp add: rshow_def absorb_def split: prod.splits)

lemma show_fields [simp]: "rshow evs0 (ro\<lparr>ro_first := n\<rparr>) out = rshow evs0 ro out" "rshow evs0 (ro\<lparr>ro_rest := m\<rparr>) out = rshow evs0 ro out"
  "rshow evs0 (ro\<lparr>ro_combined := rs\<rparr>) out = rshow evs0 ro out" "rshow evs0 (ro\<lparr>ro_stop := stop\<rparr>) out = rshow evs0 ro out"
  by (simp_all add: rshow_def)

lemma finish_out:
  assumes "rshow evs0 ro (outs ro)" "ro_results ro = None" "all_captured (outs ro) rs"
  shows "rout evs0 (finishResults ro rs)"
proof -
  have "outs (finishResults ro rs) = outs ro" by (simp add: outs_def)
  then show ?thesis using assms by (simp add: rout_def rdone_def rshow_def) (simp add: finishResults_def)
qed

lemma skipped_captured:
  assumes "nt_host ` set ts \<inter> fst ` set out = {}"
  shows "all_captured out (map (cancellationResult stop m a) ts)"
proof -
  have "bytes_of out (nt_host t) ch = []" if "t \<in> set ts" for t ch using bytes_of_none assms that by blast
  then show ?thesis by (simp add: all_captured_def cancellationResult_def no_result_def captured_of_def)
qed

lemma captured_append [simp]: "all_captured out (rs @ rs') \<longleftrightarrow> all_captured out rs \<and> all_captured out rs'"
  by (auto simp: all_captured_def)

text \<open>Outputs of hosts that are not among the results change nothing.\<close>

lemma captured_others:
  assumes "hr_host ` set rs \<inter> fst ` set out' = {}"
  shows "all_captured (out @ out') rs = all_captured out rs" "all_captured (out' @ out) rs = all_captured out rs"
proof -
  have "bytes_of out' (hr_host r) ch = []" if "r \<in> set rs" for r ch using bytes_of_none assms that by blast
  then show "all_captured (out @ out') rs = all_captured out rs" "all_captured (out' @ out) rs = all_captured out rs"
    by (simp_all add: all_captured_def)
qed

lemma output_hosts: "ncap n \<Longrightarrow> nrest n \<Longrightarrow> fst ` set (nc_output n) \<subseteq> set (map nt_host (map c_target (nc_conns n)))"
  using hosts_in_order by (simp add: ncap_def del: map_map)

lemma start_rest_out:
  assumes f: "nrest (ro_first ro)" "nc_reports (ro_first ro) = [rs]" "ro_results ro = None" "ncap (ro_first ro)" "ro_rest ro = None"
    and s: "rshow evs0 ro (nc_output (ro_first ro))" "fst (snd (ro_options ro)) = Block \<or> fst (snd (snd (ro_options ro))) = 0"
    and t: "ro_restTargets ro \<noteq> []" "distinct (map nt_host (map c_target (nc_conns (ro_first ro)) @ ro_restTargets ro))"
    and c: "all_captured (nc_output (ro_first ro)) rs"
  shows "rout evs0 (start_rest_hosts w ro rs)"
proof -
  obtain n r where st: "nc_start (nw_disks w True) (nw_answers w True) NativeController (ro_restTargets ro) (ro_command ro) (ro_options ro) = (n, r)"
    by fastforce
  show ?thesis
  proof (cases r)
    case (Inl e)
    have n: "n = NativeController" using st Inl start_error by simp
    let ?ro = "ro\<lparr>ro_rest := Some n, ro_combined := rs\<rparr>"
    have o: "outs ?ro = nc_output (ro_first ro)" by (simp add: outs_def n NativeController_def)
    have "nt_host ` set (ro_restTargets ro) \<inter> fst ` set (nc_output (ro_first ro)) = {}"
      using output_hosts [OF f(4,1)] t(2) by fastforce
    then have "all_captured (outs ?ro) (rs @ map (cancellationResult (ro_stop ro) (message (nw_strerror w) e) False) (ro_restTargets ro))"
      unfolding o captured_append using c skipped_captured by blast
    then have "rout evs0 (finishResults ?ro (rs @ map (cancellationResult (ro_stop ro) (message (nw_strerror w) e) False) (ro_restTargets ro)))"
      by (rule finish_out [rotated 2]) (use s f in \<open>simp_all add: o [unfolded n] n\<close>)
    then show ?thesis using st Inl by (simp add: start_rest_hosts_def)
  next
    case (Inr u)
    have n: "nrest n" "nc_reports n = []" using start_rest [OF _ t(1)] st Inr by simp_all
    have cap: "ncap n" "nc_output n = []"
      using start_ncap [of "nw_disks w True" "nw_answers w True" "ro_restTargets ro" "ro_command ro" "ro_options ro" n] st Inr t s(2) by auto
    let ?ro = "absorb NativeController n (ro\<lparr>ro_rest := Some n, ro_combined := rs\<rparr>)"
    have e: "start_rest_hosts w ro rs = ?ro" using st Inr n(2) by (simp add: start_rest_hosts_def onRestDone_def NativeController_def)
    have "rshow evs0 ?ro (nc_output (ro_first ro) @ [])" by (rule absorb_show) (use s(1) cap(2) in \<open>simp_all add: NativeController_def\<close>)
    then have "rshow evs0 ?ro (outs ?ro)" using cap(2) by (simp add: outs_def)
    then show ?thesis using f cap s(2) c unfolding e by (simp add: rout_def)
  qed
qed

lemma canary_callback_out:
  assumes f: "nrest (ro_first ro)" "nc_reports (ro_first ro) = [rs]" "ro_results ro = None" "ncap (ro_first ro)" "ro_rest ro = None"
    and s: "rshow evs0 ro (nc_output (ro_first ro))" "fst (snd (ro_options ro)) = Block \<or> fst (snd (snd (ro_options ro))) = 0"
    and t: "distinct (map nt_host (map c_target (nc_conns (ro_first ro)) @ ro_restTargets ro))"
  shows "rout evs0 (canary_callback w ro rs)"
proof -
  have c: "all_captured (nc_output (ro_first ro)) rs" using report_captured [OF f(1,4)] f(2) by (simp add: all_captured_def)
  have o: "outs ro = nc_output (ro_first ro)" using f(5) by (simp add: outs_def)
  show ?thesis
  proof (cases "\<not> list_all host_ok_result rs \<or> ro_restTargets ro = [] \<or> ro_stop ro \<noteq> NoStop")
    case True
    have "nt_host ` set (ro_restTargets ro) \<inter> fst ` set (nc_output (ro_first ro)) = {}"
      using output_hosts [OF f(4,1)] t by fastforce
    then have "all_captured (outs ro) (rs @ map (cancellationResult (ro_stop ro) (skip_message (ro_stop ro)) True) (ro_restTargets ro))"
      unfolding o captured_append using c skipped_captured by blast
    then show ?thesis using finish_out [OF _ f(3)] s(1) o True by (simp add: canary_callback_def)
  next
    case False
    then show ?thesis using start_rest_out [OF f s _ t c] by (simp add: canary_callback_def)
  qed
qed

lemma first_step_out:
  assumes n: "nrest (ro_first ro)" "nc_reports (ro_first ro) = []" "ro_rest ro = None" "ro_results ro = None"
    and t: "distinct (map nt_host (map c_target (nc_conns (ro_first ro)) @ (if ro_staged ro then ro_restTargets ro else [])))"
    and o: "rout evs0 ro"
  shows "rout evs0 (first_step w ro ev)"
proof -
  let ?n = "nc_step (nw_disks w False) (nw_answers w False) (ro_first ro) ev"
  let ?ro = "absorb (ro_first ro) ?n (ro\<lparr>ro_first := ?n\<rparr>)"
  have s: "nrest ?n" "map c_target (nc_conns ?n) = map c_target (nc_conns (ro_first ro))" using nc_step_first [OF n(1)] by blast+
  have r: "rshow evs0 ro (nc_output (ro_first ro))" "ncap (ro_first ro)" "fst (snd (ro_options ro)) = Block \<or> fst (snd (snd (ro_options ro))) = 0"
    using o n(3,4) by (simp_all add: rout_def outs_def)
  obtain l where l: "ncap ?n" "nc_output ?n = nc_output (ro_first ro) @ l" using step_ncap [OF r(2)] by blast
  have "rshow evs0 ?ro (nc_output (ro_first ro) @ l)" by (rule absorb_show) (use r(1) l(2) in simp_all)
  then have sh: "rshow evs0 ?ro (nc_output ?n)" using l(2) by simp
  then have so: "rshow evs0 ?ro (outs ?ro)" using n(3) by (simp add: outs_def)
  have e: "first_step w ro ev = onFirstDone w (ro_first ro) ?n ?ro" by (simp add: first_step_def Let_def)
  show ?thesis
  proof (cases "nc_reports ?n = []")
    case True
    then show ?thesis using n so l(1) r(3) unfolding e by (simp add: onFirstDone_def rout_def)
  next
    case False
    note p = reports_last(1) [OF s(1) False]
    show ?thesis
    proof (cases "ro_staged ro")
      case True
      have "rout evs0 (canary_callback w ?ro (last (nc_reports ?n)))"
        by (rule canary_callback_out) (use True s p l(1) n sh r(3) t in \<open>simp_all del: map_map\<close>)
      then show ?thesis using False True n(2) unfolding e by (simp add: onFirstDone_def)
    next
      case notstaged: False
      have "outs ?ro = nc_output ?n" using n(3) by (simp add: outs_def)
      then have "all_captured (outs ?ro) (last (nc_reports ?n))" using report_captured [OF s(1) l(1) False] by (simp add: all_captured_def)
      then have "rout evs0 (finishResults ?ro (last (nc_reports ?n)))" by (rule finish_out [OF so, rotated]) (simp add: n)
      then show ?thesis using False notstaged n(2) unfolding e by (simp add: onFirstDone_def)
    qed
  qed
qed

lemma rest_step_out:
  assumes r: "ro_rest ro = Some n" "nrest n" "nc_reports n = []" "ro_results ro = None"
    and t: "distinct (map hr_host (ro_combined ro) @ map nt_host (map c_target (nc_conns n)))"
    and f: "nrest (ro_first ro)" "nc_reports (ro_first ro) = [ro_combined ro]"
    and o: "rout evs0 ro"
  shows "rout evs0 (rest_step w ro ev)"
proof -
  let ?n = "nc_step (nw_disks w True) (nw_answers w True) n ev"
  let ?ro = "absorb n ?n (ro\<lparr>ro_rest := Some ?n\<rparr>)" and ?f = "nc_output (ro_first ro)"
  have s: "nrest ?n" "map c_target (nc_conns ?n) = map c_target (nc_conns n)" using nc_step_first [OF r(2)] by blast+
  have c: "rshow evs0 ro (?f @ nc_output n)" "ncap (ro_first ro)" "ncap n" "all_captured ?f (ro_combined ro)"
    "fst (snd (ro_options ro)) = Block \<or> fst (snd (snd (ro_options ro))) = 0"
    using o r by (simp_all add: rout_def outs_def)
  obtain l where l: "ncap ?n" "nc_output ?n = nc_output n @ l" using step_ncap [OF c(3)] by blast
  have "rshow evs0 ?ro ((?f @ nc_output n) @ l)" by (rule absorb_show) (use c(1) l(2) in simp_all)
  then have so: "rshow evs0 ?ro (outs ?ro)" using l(2) by (simp add: outs_def)
  have e: "rest_step w ro ev = onRestDone n ?n ?ro" using r(1) by (simp add: rest_step_def Let_def)
  show ?thesis
  proof (cases "nc_reports ?n = []")
    case True
    then show ?thesis using r so l(1) c unfolding e by (simp add: onRestDone_def rout_def)
  next
    case False
    have h1: "fst ` set ?f \<subseteq> set (map hr_host (ro_combined ro))"
    proof -
      have "ro_combined ro = map c_result (nc_conns (ro_first ro))" using f by (simp add: nrest_def split: if_splits)
      then show ?thesis using c(2) by (simp add: ncap_def)
    qed
    have h2: "fst ` set (nc_output ?n) \<subseteq> set (map nt_host (map c_target (nc_conns n)))" using output_hosts [OF l(1) s(1)] s(2) by simp
    have h3: "set (map hr_host (last (nc_reports ?n))) = set (map nt_host (map c_target (nc_conns n)))"
      using reports_last(2) [OF s(1) False] s(2) by simp
    have d: "set (map hr_host (ro_combined ro)) \<inter> set (map nt_host (map c_target (nc_conns n))) = {}" using t by simp
    have "hr_host ` set (ro_combined ro) \<inter> fst ` set (nc_output ?n) = {}" "hr_host ` set (last (nc_reports ?n)) \<inter> fst ` set ?f = {}"
      using h1 h2 h3 d unfolding set_map by blast+
    moreover have "all_captured (nc_output ?n) (last (nc_reports ?n))" using report_captured [OF s(1) l(1) False] by (simp add: all_captured_def)
    ultimately have "all_captured (outs ?ro) (ro_combined ro @ last (nc_reports ?n))"
      using c(4) captured_others by (simp add: outs_def)
    then have "rout evs0 (finishResults ?ro (ro_combined ?ro @ last (nc_reports ?n)))" using finish_out [OF so] r(4) by simp
    then show ?thesis using False r(3) unfolding e by (simp add: onRestDone_def)
  qed
qed

lemma native_step_out:
  assumes v: "rinv hs ro" "distinct hs" and o: "rout evs0 ro"
  shows "rout evs0 (native_step w ro ev)"
proof (cases "ro_results ro")
  case (Some rs)
  then show ?thesis using results_stay [OF v(1) Some] o by simp
next
  case None
  have ostop: "rout evs0 (ro\<lparr>ro_stop := stop\<rparr>)" for stop using o None by (simp add: rout_def outs_def split: option.splits)
  have fs: "rout evs0 (first_step w (ro\<lparr>ro_stop := stop\<rparr>) e)" if r: "ro_rest ro = None" for stop e
  proof -
    let ?r = "ro\<lparr>ro_stop := stop\<rparr>"
    have "map nt_host (map c_target (nc_conns (ro_first ?r)) @ (if ro_staged ?r then ro_restTargets ?r else [])) = hs"
      using v(1) None r by (simp add: rinv_def split: if_splits)
    then have d: "distinct (map nt_host (map c_target (nc_conns (ro_first ?r)) @ (if ro_staged ?r then ro_restTargets ?r else [])))"
      using v(2) by (simp only:)
    show ?thesis by (rule first_step_out [OF _ _ _ _ d ostop]) (use v None r in \<open>simp_all add: rinv_def\<close>)
  qed
  have rs: "rout evs0 (rest_step w (ro\<lparr>ro_stop := stop\<rparr>) e)" if "ro_rest ro = Some n" for stop e n
    by (rule rest_step_out [OF _ _ _ _ _ _ _ ostop, of _ n]) (use v None that in \<open>simp_all add: rinv_def del: map_map\<close>)
  have same: "ro\<lparr>ro_stop := ro_stop ro\<rparr> = ro" by simp
  have early: "first_step w ro e = ro" if "ro_rest ro = Some n" "\<not> is_cancel e" for n e
  proof -
    have "over (ro_first ro)" using v(1) that(1) by (simp add: rinv_def over_def)
    then show ?thesis using first_step_over that(2) by blast
  qed
  have none: "rest_step w ro e = ro" if "ro_rest ro = None" for e using that by (simp add: rest_step_def)
  show ?thesis
  proof (cases "ro_rest ro")
    case None
    then show ?thesis using o fs [OF None] fs [OF None, of "ro_stop ro", unfolded same] none [OF None]
      by (simp add: native_step_def cancel_active_def split: native_event.splits)
  next
    case (Some n)
    then show ?thesis using o rs [OF Some] rs [OF Some, of "ro_stop ro", unfolded same] early [OF Some]
      by (simp add: native_step_def cancel_active_def split: native_event.splits)
  qed
qed

lemma native_run_out: "rinv hs ro \<Longrightarrow> distinct hs \<Longrightarrow> rout evs0 ro \<Longrightarrow> rout evs0 (native_run w ro evs)"
proof (induction evs arbitrary: ro)
  case (Cons ev evs)
  show ?case using Cons.IH [OF native_step_inv [OF Cons.prems(1)] Cons.prems(2) native_step_out [OF Cons.prems]] by (simp add: native_run_def)
qed (simp add: native_run_def)

lemma begin_out:
  assumes cs: "cs \<noteq> []" "length cs < 2 ^ 64" "distinct (map ce_host cs)" and o: "ri_policy iv = Block \<or> run_invocation.ringBytes iv = 0"
  shows "rout (map (StageStarted \<circ> ce_host) cs) (begin_native w iv live cs)"
proof -
  let ?ts = "map (native_target iv) cs" and ?k = "canary_size iv (length cs)" and ?evs = "map (StageStarted \<circ> ce_host) cs"
  obtain n r where s: "nc_start (nw_disks w False) (nw_answers w False) NativeController (take ?k ?ts) (ri_command iv) (controllerOptions iv) = (n, r)"
    by fastforce
  let ?ro = "(native_setup iv live cs)\<lparr>ro_first := n\<rparr>"
  have sh: "rshow ?evs ?ro []" by (simp add: rshow_def native_setup_def new_framers_def)
  show ?thesis
  proof (cases r)
    case (Inl err)
    have "n = NativeController" using s Inl start_error by simp
    then have n: "outs ?ro = []" by (simp add: outs_def native_setup_def NativeController_def)
    have "rout ?evs (finishResults ?ro (map (cancellationResult NoStop (message (nw_strerror w) err) False) ?ts))"
      by (rule finish_out) (use sh n skipped_captured [of ?ts "[]"] in \<open>simp_all add: native_setup_def del: map_map\<close>)
    then show ?thesis using s Inl by (simp add: begin_native_def Let_def)
  next
    case (Inr u)
    have ne: "take ?k ?ts \<noteq> []" using canary_size_pos [of "length cs" iv] cs by simp
    have n: "nrest n" "nc_reports n = []" using start_rest [OF _ ne] s Inr by simp_all
    have "map nt_host (take ?k ?ts) = take ?k (map ce_host cs)" using native_hosts [of iv cs] by (metis take_map)
    then have "distinct (map nt_host (take ?k ?ts))" using cs(3) distinct_take by metis
    moreover have opt: "fst (snd (controllerOptions iv)) = Block \<or> fst (snd (snd (controllerOptions iv))) = 0"
      using o by (auto simp: controllerOptions_def)
    ultimately have c: "ncap n" "nc_output n = []" using start_ncap [OF _ ne] s Inr by auto
    have b: "begin_native w iv live cs = absorb NativeController n ?ro"
      using s Inr n(2) by (simp add: begin_native_def Let_def onFirstDone_def NativeController_def)
    have "rshow ?evs (absorb NativeController n ?ro) ([] @ [])" by (rule absorb_show [OF sh]) (simp add: c NativeController_def)
    moreover have "outs (absorb NativeController n ?ro) = []" using c by (simp add: outs_def) (simp add: native_setup_def)
    ultimately show ?thesis using c opt unfolding b by (simp add: rout_def) (simp add: native_setup_def)
  qed
qed

subsection \<open>What the nodes deliver\<close>

text \<open>The bytes of an event, when they come from a connection that is up and not done: with host and channel.\<close>

definition node_data :: "nc_state \<Rightarrow> nc_event \<Rightarrow> (string \<times> channel \<times> string) list" where
  "node_data n ev =
     (case ev of
        ConnData i ch data \<Rightarrow> if i < hosts_of n \<and> c_linked (conn n i) \<and> \<not> c_done (conn n i) then [(nt_host (c_target (conn n i)), ch, data)] else []
      | _ \<Rightarrow> [])"

definition arriving :: "rollout \<Rightarrow> native_event \<Rightarrow> (string \<times> channel \<times> string) list" where
  "arriving ro ev =
     (case ev of FirstEvent e \<Rightarrow> node_data (ro_first ro) e
      | RestEvent e \<Rightarrow> (case ro_rest ro of None \<Rightarrow> [] | Some n \<Rightarrow> node_data n e) | _ \<Rightarrow> [])"

fun arrived :: "native_world \<Rightarrow> rollout \<Rightarrow> native_event list \<Rightarrow> (string \<times> channel \<times> string) list" where
  "arrived w ro [] = []"
| "arrived w ro (ev # evs) = arriving ro ev @ arrived w (native_step w ro ev) evs"

lemma node_data_cancel: "is_cancel ev \<Longrightarrow> node_data n ev = []"
  by (cases ev) (simp_all add: node_data_def)

lemma step_output:
  assumes "nrest n"
  shows "nc_output (nc_step ds answers n ev) = nc_output n @ node_data n ev"
proof (cases "\<exists>i ch data. ev = ConnData i ch data")
  case False
  then have "nframe n (nc_step ds answers n ev)" by (intro step_frame) blast
  then show ?thesis using False by (cases ev) (simp_all add: nframe_def node_data_def)
next
  case True
  then obtain i ch data where ev: "ev = ConnData i ch data" by blast
  have "hr_host (c_result (conn n i)) = nt_host (c_target (conn n i))" if "i < hosts_of n"
    using arg_cong [OF hosts_in_order [OF assms], of "\<lambda>xs. xs ! i"] that by (simp add: conn_def)
  then show ?thesis by (auto simp: ev nc_step_def nc_onData_def node_data_def Let_def)
qed

lemma over_data: "over n \<Longrightarrow> node_data n ev = []"
proof -
  assume o: "over n"
  have "c_done (conn n i)" if "nrest n" "nc_reports n \<noteq> []" "i < hosts_of n" for i
  proof -
    have "ninv {} {} n" "nc_remaining n = 0" using that by (auto simp: nrest_def open_ok_def split: if_splits)
    then show ?thesis using undone_positive [OF _ that(3)] by auto
  qed
  then show ?thesis using o by (cases ev) (auto simp: node_data_def over_def NativeController_def)
qed

lemma start_output:
  assumes "nc_start ds answers n0 targets command opts = (n, r)"
  shows "nc_output n = nc_output n0"
proof -
  have "nc_output (nc_fillSlots ds answers m) = nc_output m" for m using slots_frame by (simp add: nframe_def)
  then show ?thesis using assms by (cases opts) (auto simp: nc_start_def Let_def split: if_splits)
qed

lemma outs_fields [simp]:
  "outs (absorb n n' ro) = outs ro" "outs (finishResults ro rs) = outs ro" "outs (ro\<lparr>ro_combined := rs\<rparr>) = outs ro" "outs (ro\<lparr>ro_stop := stop\<rparr>) = outs ro"
  by (simp_all add: outs_def)

lemma callback_outs:
  assumes "ro_rest ro = None"
  shows "outs (canary_callback w ro rs) = outs ro"
proof -
  have "outs (start_rest_hosts w ro rs) = outs ro"
  proof -
    obtain n r where s: "nc_start (nw_disks w True) (nw_answers w True) NativeController (ro_restTargets ro) (ro_command ro) (ro_options ro) = (n, r)"
      by fastforce
    have "nc_output n = []" using start_output [OF s] by (simp add: NativeController_def)
    then have "outs (ro\<lparr>ro_rest := Some n, ro_combined := rs\<rparr>) = outs ro" using assms by (simp add: outs_def)
    then show ?thesis using s by (cases r) (simp_all add: start_rest_hosts_def onRestDone_def)
  qed
  then show ?thesis by (simp add: canary_callback_def)
qed

lemma first_step_outs:
  assumes "nrest (ro_first ro)" "ro_rest ro = None"
  shows "outs (first_step w ro ev) = outs ro @ node_data (ro_first ro) ev"
proof -
  have "outs (ro\<lparr>ro_first := nc_step (nw_disks w False) (nw_answers w False) (ro_first ro) ev\<rparr>) = outs ro @ node_data (ro_first ro) ev"
    using assms by (simp add: outs_def step_output)
  then show ?thesis using assms(2) by (simp add: first_step_def onFirstDone_def Let_def callback_outs)
qed

lemma rest_step_outs: "ro_rest ro = Some n \<Longrightarrow> nrest n \<Longrightarrow> outs (rest_step w ro ev) = outs ro @ node_data n ev"
proof -
  assume r: "ro_rest ro = Some n" "nrest n"
  have "outs (ro\<lparr>ro_rest := Some (nc_step (nw_disks w True) (nw_answers w True) n ev)\<rparr>) = outs ro @ node_data n ev"
    using r by (simp add: outs_def step_output)
  then show ?thesis using r(1) by (simp add: rest_step_def onRestDone_def Let_def)
qed

lemma native_step_outs:
  assumes v: "rinv hs ro"
  shows "outs (native_step w ro ev) = outs ro @ arriving ro ev"
proof (cases "ro_results ro")
  case (Some rs)
  have "arriving ro ev = []" using v Some over_data by (auto simp: rinv_def arriving_def split: native_event.splits option.splits)
  then show ?thesis using results_stay [OF v Some] by simp
next
  case running: None
  show ?thesis
  proof (cases "ro_rest ro")
    case None
    have f: "nrest (ro_first ro)" using v running None by (simp add: rinv_def)
    have s: "outs (first_step w (ro\<lparr>ro_stop := stop\<rparr>) e) = outs ro @ node_data (ro_first ro) e" for stop e
      using first_step_outs [of "ro\<lparr>ro_stop := stop\<rparr>" w e] f None by simp
    show ?thesis using s first_step_outs [OF f None, of w] None node_data_cancel
      by (auto simp: native_step_def arriving_def cancel_active_def rest_step_def split: native_event.splits)
  next
    case (Some n)
    have n: "nrest n" "over (ro_first ro)" using v running Some by (simp_all add: rinv_def over_def)
    have s: "outs (rest_step w (ro\<lparr>ro_stop := stop\<rparr>) e) = outs ro @ node_data n e" for stop e
      using rest_step_outs [of "ro\<lparr>ro_stop := stop\<rparr>" n w e] n(1) Some by simp
    show ?thesis using s rest_step_outs [OF Some n(1), of w] Some node_data_cancel over_data [OF n(2)] first_step_over [OF n(2)]
      by (auto simp: native_step_def arriving_def cancel_active_def split: native_event.splits)
  qed
qed

lemma native_run_outs: "rinv hs ro \<Longrightarrow> outs (native_run w ro evs) = outs ro @ arrived w ro evs"
proof (induction evs arbitrary: ro)
  case (Cons ev evs)
  show ?case using Cons.IH [OF native_step_inv [OF Cons.prems]] native_step_outs [OF Cons.prems] by (simp add: native_run_def)
qed (simp add: native_run_def)

lemma begin_outs: "outs (begin_native w iv live cs) = []"
proof -
  obtain n r where s: "nc_start (nw_disks w False) (nw_answers w False) NativeController (take (canary_size iv (length cs)) (map (native_target iv) cs))
      (ri_command iv) (controllerOptions iv) = (n, r)" by fastforce
  have "nc_output n = []" using start_output [OF s] by (simp add: NativeController_def)
  then have "outs ((native_setup iv live cs)\<lparr>ro_first := n\<rparr>) = []" by (simp add: outs_def native_setup_def)
  moreover have "ro_rest ((native_setup iv live cs)\<lparr>ro_first := n\<rparr>) = None" by (simp add: native_setup_def)
  ultimately show ?thesis using s by (cases r) (simp_all add: begin_native_def Let_def onFirstDone_def callback_outs)
qed

subsection \<open>What a sink is shown\<close>

text \<open>The lines of a host and channel among the events.\<close>

definition shown :: "string \<Rightarrow> sink_channel \<Rightarrow> sink_event list \<Rightarrow> string list" where
  "shown h ch evs = concat (map (\<lambda>e. case e of Line s c t \<Rightarrow> if s = h \<and> c = ch then [t] else [] | _ \<Rightarrow> []) evs)"

lemma shown_simps [simp]:
  "shown h ch [] = []" "shown h ch (a @ b) = shown h ch a @ shown h ch b" "shown h ch (map (StageStarted \<circ> f) xs) = []"
  "shown h ch (map (Line s c) ts) = (if s = h \<and> c = ch then ts else [])"
  "shown h ch (map (Line s c \<circ> f) xs) = (if s = h \<and> c = ch then map f xs else [])" "shown h ch (host_finished r # evs) = shown h ch evs"
  by (auto simp: shown_def host_finished_def o_def concat_eq_Nil_conv) (induction xs; simp)?

lemma replay_split: "replay_lines b = map fst (snd (lf_push (LineFramer 0) b)) @ flush_lines (fst (lf_push (LineFramer 0) b))"
  by (simp add: replay_lines_def flush_lines_def split: prod.splits)

lemma push_append:
  "fst (lf_push f (a @ b)) = fst (lf_push (fst (lf_push f a)) b)"
  "snd (lf_push f (a @ b)) = snd (lf_push f a) @ snd (lf_push (fst (lf_push f a)) b)"
  by (simp_all add: lf_push_append split: prod.splits)

lemma live_output:
  assumes "foldl (onOutput True) (new_framers, evs0) out = (fr, evs)"
  shows "fr h = (fst (lf_push (LineFramer 0) (bytes_of out h Stdout)), fst (lf_push (LineFramer 0) (bytes_of out h Stderr))) \<and>
    shown h ToStdout evs = shown h ToStdout evs0 @ map fst (snd (lf_push (LineFramer 0) (bytes_of out h Stdout))) \<and>
    shown h ToStderr evs = shown h ToStderr evs0 @ map fst (snd (lf_push (LineFramer 0) (bytes_of out h Stderr)))"
  using assms
proof (induction out arbitrary: fr evs rule: rev_induct)
  case Nil
  then show ?case by (auto simp: new_framers_def)
next
  case (snoc x out)
  obtain g ch d where x: "x = (g, ch, d)" by (cases x)
  obtain fr1 evs1 where 1: "foldl (onOutput True) (new_framers, evs0) out = (fr1, evs1)" by fastforce
  note ih = snoc.IH [OF 1]
  have "onOutput True (fr1, evs1) (g, ch, d) = (fr, evs)" using snoc.prems 1 x by simp
  then show ?case using ih unfolding x
    by (cases ch) (auto simp: onOutput_def push_append Let_def split: prod.splits if_splits)
qed

lemma deferred_output: "foldl (onOutput False) (fr, evs) out = (fr, evs)"
  by (induction out) (simp_all add: onOutput_def)

definition result_lines :: "bool \<Rightarrow> framers \<Rightarrow> host_result \<Rightarrow> sink_channel \<Rightarrow> string list" where
  "result_lines live fr r ch =
     (if live then flush_lines ((if ch = ToStdout then fst else snd) (fr (hr_host r)))
      else replay_lines ((if ch = ToStdout then hr_stdout else hr_stderr) r))"

lemma host_shown: "shown h ch (host_lines live fr r) = (if h = hr_host r then result_lines live fr r ch else [])"
  by (cases ch) (auto simp: host_lines_def result_lines_def Let_def)

lemma finish_unshown: "h \<notin> hr_host ` set rs \<Longrightarrow> shown h ch (finish_events live fr rs) = []"
  by (induction rs arbitrary: fr) (auto simp: host_shown)

lemma finish_shown:
  assumes "distinct (map hr_host rs)" "r \<in> set rs"
  shows "shown (hr_host r) ch (finish_events live fr rs) = result_lines live fr r ch"
  using assms
proof (induction rs arbitrary: fr)
  case (Cons q rs)
  show ?case
  proof (cases "r = q")
    case True
    then have "hr_host r \<notin> hr_host ` set rs" using Cons.prems(1) by auto
    then show ?thesis using True by (simp add: host_shown finish_unshown)
  next
    case False
    then have m: "r \<in> set rs" using Cons.prems(2) by simp
    then have "hr_host r \<in> hr_host ` set rs" by (rule imageI)
    moreover have "hr_host q \<notin> hr_host ` set rs" using Cons.prems(1) by simp
    ultimately have r: "r \<in> set rs" "hr_host r \<noteq> hr_host q" using m by metis+
    have "result_lines live (flushed live fr (hr_host q)) r ch = result_lines live fr r ch"
      using r(2) by (simp add: flushed_def result_lines_def)
    then show ?thesis using Cons.IH [OF _ r(1), of "flushed live fr (hr_host q)"] Cons.prems(1) r(2) by (simp add: host_shown)
  qed
qed simp

definition two_pieces :: "native_event list" where
  "two_pieces = [FirstEvent (ConnData 0 Stdout (''h'')), FirstEvent (ConnData 0 Stdout (''i'' @ [CHR 0x0A, CHR ''x''])),
      FirstEvent (ConnExit 0 \<lparr>ws_exited = True, ws_code = 2\<rparr>), FirstEvent (RetireFires 0)]"

text \<open>
  Selecting a host twice runs it twice, and a live sink keeps one framer for both connections: a line that one of them has
  begun is continued by what the other one sends.
\<close>

lemma duplicate_hosts_differ:
  "let cs = [ClientEntry\<lparr>ce_host := ''a''\<rparr>, ClientEntry\<lparr>ce_host := ''a''\<rparr>]; iv = RunInvocation\<lparr>ri_command := [''id'']\<rparr>;
       evs = [FirstEvent (ConnData 0 Stdout ''x''), FirstEvent (ConnData 1 Stdout (''y'' @ [CHR 0x0A])),
         FirstEvent (ConnExit 0 good_exit), FirstEvent (ConnExit 1 good_exit), FirstEvent (RetireFires 0), FirstEvent (RetireFires 1)]
   in shown ''a'' ToStdout (ro_events (native_run calm_world (begin_native calm_world iv True cs) evs)) = [''xy''] \<and>
      shown ''a'' ToStdout (ro_events (native_run calm_world (begin_native calm_world iv False cs) evs)) = [''x'', ''y'']"
  by code_simp



end
