(* ===== verification/Spec2Isabelle.thy ===== *)
theory Spec2Isabelle
  imports Session_Wire Session_Guard Stream_Channel Line_Framer Pipe_Spec Pipeline_Yaml Policy Command_Executor Run_Command Dag_Events Remote_Reports Backoff Native_Output
begin

text \<open>
  \<^bold>\<open>PipeShellX: a verification library.\<close>

  PipeShellX runs commands on fleets of hosts.  A command line is parsed, hosts are selected from an inventory, a policy
  may restrict the command, and the command runs over ssh or over a native protocol (psx/1) that multiplexes streams with
  credit-based flow control over one connection.  Pipelines of stages are described by a one-line specification or a small
  YAML dialect and are ordered by a planner.  Output passes through bounded buffers and a line framer to sinks that render
  it.  The paths below are relative to the repository's \<open>include/psx\<close>, \<open>include\<close> and \<open>src\<close> directories.

  \<^bold>\<open>Streams\<close> (\<open>stream/\<close>).  \<open>Bounded_Buffer\<close> models the ring with its storage, head and size; every copy is
  checked against the storage, and appending refines the abstract overflow policies on the byte sequence.  \<open>Byte_Fifo\<close> is
  the contract of a lossless byte channel (a locale) which the ring satisfies.  \<open>Credit_Window\<close> is the receive window on 32
  bit words.  \<open>Spool_Buffer\<close> is the temporary file of a spilling stream, with an argument that decides every outcome of the C
  library.  \<open>Stream_Channel\<close> composes ring and spill into the half-close state machine: every run of calls returns, keeps
  the invariant, delivers in order, and each call does what the documented state machine says for it.  \<open>Line_Framer\<close> compares the byte-wise framer
  with a reference that sees the whole text.

  \<^bold>\<open>Transport\<close> (\<open>transport/\<close>).  \<open>Frame_Codec\<close> is the wire format and the incremental decoder; \<open>Open_Request\<close> the payloads
  of OPEN, EXIT and WINDOW_UPDATE, with decoders that accept exactly the encodings.  \<open>Session\<close> is the multiplexer with all
  operations and all dispatched frames; an operation returns the new session and its effects (frames written, observer
  calls).  \<open>Session_Flow\<close> and \<open>Session_Streams\<close> hold the invariants of one direction and of one stream; \<open>Session_Link\<close>
  connects a controller session and a node session by two frame queues as a step relation, driven by arbitrary
  applications, and proves by rule induction that bytes arrive in order, EXIT comes last, credit is conserved and cannot be
  exhausted for ever.  \<open>Session_Wire\<close> puts the encoded bytes between them, in any chunks, through \<open>receive\<close> and the frame
  decoder: a refinement of that system while windows and OPENs fit into a frame, in which no protocol error arises.
  \<open>Session_Guard\<close> follows a session that receives arbitrary bytes together with the bytes its application was handed and
  has given back.

  \<^bold>\<open>Pipelines\<close> (\<open>pipeline/\<close>).  \<open>Planner\<close> is validation and Kahn's algorithm, proved total and correct; \<open>Pipe_Spec\<close> and
  \<open>Pipeline_Yaml\<close> are the two parsers, each with a round trip and the fact that what they accept can be planned.  \<open>Text\<close>
  holds the character and string functions of the standard library that the parsers use.  \<open>Dag_Runner\<close> is the runner of
  local stages with one bounded buffer per edge and its invariants (accounting, order, readiness); \<open>Dag_Events\<close> shows that
  every callback of the reactor keeps them, so that runs are safe, do not stall and complete once.

  \<^bold>\<open>Configuration\<close>.  \<open>Policy\<close> (\<open>policy/\<close>), \<open>Client_Config\<close> (\<open>client_config\<close>) and \<open>Inventory\<close> (\<open>inventory/\<close>) are the file
  formats: parsing, validation, canonical text, mutation and lookup, with round trips and well-formedness invariants.

  \<^bold>\<open>Execution\<close>.  \<open>Ssh_Auth\<close> (\<open>ssh_auth\<close>) quotes commands for three shells and builds ssh command lines; the locale
  \<open>quoting\<close> states what a shell's word rules must satisfy and is interpreted for POSIX, PowerShell and Windows.
  \<open>Command_Executor\<close> (\<open>command_executor\<close>) is the interactive executor up to the launch.  \<open>Run_Options\<close> and \<open>Run_Command\<close>
  (\<open>cli/run_command\<close>, \<open>cli/selection\<close>) are the subcommand \<open>run\<close>: its grammar, the canary count on 64 bit words, host
  resolution, all decisions before a start and the reporting of results; the main theorem composes policy, inventory and
  quoting.  \<open>Backoff\<close> (\<open>runtime/backoff\<close>) is the delay between retries, with its arithmetic on 64 bits and in double
  precision.  \<open>Worker_Output\<close>, \<open>Worker_Run\<close> and \<open>Remote_Results\<close> (\<open>process_manager\<close>, \<open>ssh_transport\<close>) are the
  process manager: one child with its captured output, the run of many children as a state machine of reactor events (slots,
  retries, deadline, cancellation, fail-fast, grace period), and the assembly of results.  \<open>Worker_Safety\<close> and
  \<open>Worker_Events\<close> hold the invariants and their proof for every event, \<open>Worker_Props\<close> and \<open>Remote_Reports\<close> the properties:
  every child is counted once, a run is never stuck, a teardown ends, reports are exact.

  \<^bold>\<open>Native runs\<close> (\<open>transport/native_controller\<close>, \<open>cli/run_command\<close>).  \<open>Native_Controller\<close> is the controller of one
  native run: its connections, slots, cancellation and fail-fast, with the callbacks of transports, retire timers and
  \<open>cancel\<close> as events.  \<open>Native_Runs\<close> holds the invariant of its counters and flags and shows that the completion callback is
  called once, and only from a retire timer.  \<open>Native_Rollout\<close> is the rest of \<open>runNative\<close>: a canary controller followed by
  one for the other hosts, the signal and the deadline; a run reports every selected host once, waits only for something
  that is pending, and ends after a signal.  \<open>Native_Output\<close> follows the bytes from the nodes to the captured output and to
  the lines a sink is shown.

  \<^bold>\<open>Output\<close>.  \<open>Json_Text\<close> (\<open>json/\<close>) quotes JSON and has an RFC 8259 reader; \<open>Audit_Log\<close> (\<open>audit/\<close>) is the audit trail;
  \<open>Sinks\<close> (\<open>sink/\<close>) are the renderers, with one locale for sinks that render at the end (ordered, consensus) and one for
  sinks that render a stage when it finishes (group, JSON); \<open>Ordered_Map\<close> is \<open>std::map\<close>.

  \<^bold>\<open>Conventions.\<close>  Strings are lists of bytes; fixed-width integers whose arithmetic matters are words; a thrown exception
  is the left side of a sum (its message), a \<open>psx::Result\<close> the sum with an error record; \<^const>\<open>None\<close> of an operation on
  memory is an access out of bounds.  Loops are structural recursion, recursion with a termination proof, or
  \<open>partial_function (option)\<close> with a theorem that the result is \<^const>\<open>Some\<close>; no fuel is used.  Files, environment, clock and
  the outcomes of system calls are arguments.

  \<^bold>\<open>Not modelled.\<close>  The operating system layer (\<open>os/\<close>), the reactor, TLS and certificates, the transports, the node and the
  distributed runners, which drive connections on the reactor, the logger, the interactive terminal, and the remaining
  subcommands, which print results of these parts.
\<close>

end
